(* ===== verification/Prelude.thy ===== *)
theory Prelude
  imports Main "HOL-Library.Word" "HOL-Library.Monad_Syntax"
begin

text \<open>
  Shared vocabulary of the development: the machine types of the C++ sources, the way failed
  assertions and reads outside an array are modelled, and the lemmas on lists, options and words
  that every component uses.

  A C++ function that can stop the simulator (a failed \<open>assert\<close>, \<open>abort()\<close>, a null pointer or an
  access outside an array) is a function into \<open>'a option\<close>, and \<open>None\<close> is that outcome. The steps
  of such a function are written with the \<open>do\<close> syntax of \<open>HOL-Library.Monad_Syntax\<close>.
\<close>

section \<open>Machine types\<close>

type_synonym u8 = "8 word"
type_synonym u32 = "32 word"    \<comment> \<open>\<open>unsigned\<close>\<close>
type_synonym u64 = "64 word"    \<comment> \<open>\<open>unsigned long long\<close>, \<open>new_addr_type\<close>\<close>

section \<open>Collections of facts\<close>

named_theorems guard_simps "how assertions and checked reads evaluate"
named_theorems frame_simps "what an operation leaves unchanged"
named_theorems inv_intros "an operation keeps the invariant of its component"

section \<open>Assertions and array accesses\<close>

definition ensure :: "bool \<Rightarrow> unit option" where
  "ensure b = (if b then Some () else None)"

definition at :: "'a list \<Rightarrow> nat \<Rightarrow> 'a option" where
  "at xs i = (if i < length xs then Some (xs ! i) else None)"

definition put :: "'a list \<Rightarrow> nat \<Rightarrow> 'a \<Rightarrow> 'a list option" where
  "put xs i x = (if i < length xs then Some (xs[i := x]) else None)"

lemma ensure_simps [simp, guard_simps]:
  "ensure True = Some ()"
  "ensure False = None"
  "(ensure b = Some u) = b"
  "(ensure b = None) = (\<not> b)"
  by (simp_all add: ensure_def)

lemma ensure_bind [simp, guard_simps]:
  "(Option.bind (ensure b) f = Some y) = (b \<and> f () = Some y)"
  "(Option.bind (ensure b) f = None) = (b \<longrightarrow> f () = None)"
  by (auto simp: ensure_def)

lemma at_eq_Some [simp, guard_simps]: "(at xs i = Some x) = (i < length xs \<and> xs ! i = x)"
  by (auto simp: at_def)

lemma at_eq_None [simp, guard_simps]: "(at xs i = None) = (length xs \<le> i)"
  by (auto simp: at_def)

lemma at_lt [simp]: "i < length xs \<Longrightarrow> at xs i = Some (xs ! i)"
  by (simp add: at_def)

lemma put_eq_Some [simp, guard_simps]:
  "(put xs i x = Some ys) = (i < length xs \<and> ys = xs[i := x])"
  by (auto simp: put_def)

lemma put_eq_None [simp, guard_simps]: "(put xs i x = None) = (length xs \<le> i)"
  by (auto simp: put_def)

lemma put_lt [simp]: "i < length xs \<Longrightarrow> put xs i x = Some (xs[i := x])"
  by (simp add: put_def)

lemma bind_Some_iff [guard_simps]:
  "(Option.bind m f = Some y) = (\<exists>x. m = Some x \<and> f x = Some y)"
  by (cases m) auto

lemma bind_None_iff [guard_simps]:
  "(Option.bind m f = None) = (m = None \<or> (\<exists>x. m = Some x \<and> f x = None))"
  by (cases m) auto

section \<open>Counters\<close>

lemma u32_lt: "unat (a :: u32) < 2 ^ 32"
  by (rule order.strict_trans2[OF unsigned_less]) simp

lemma u64_lt: "unat (a :: u64) < 2 ^ 64"
  by (rule order.strict_trans2[OF unsigned_less]) simp

lemma unat_suc: "m < n \<Longrightarrow> unat (m + 1) = Suc (unat m)" for m n :: u32
  using u32_lt[of n] by (simp add: unat_word_ariths word_less_nat_alt)

lemma suc_le: "m < n \<Longrightarrow> m + 1 \<le> n" for m n :: u32
  by (simp add: unat_suc word_le_nat_alt word_less_nat_alt)

lemma unat_pred: "m \<noteq> 0 \<Longrightarrow> Suc (unat (m - 1)) = unat m" for m :: u32
  by (simp add: unat_minus_one) (metis Suc_pred unat_gt_0)

section \<open>Slots that may be empty\<close>

definition somes :: "'a option list \<Rightarrow> 'a list" where
  "somes xs = List.map_filter id xs"

lemma somes_simps [simp]:
  "somes [] = []" "somes (None # xs) = somes xs" "somes (Some x # xs) = x # somes xs"
  "somes (xs @ ys) = somes xs @ somes ys"
  by (simp_all add: somes_def List.map_filter_def)

lemma somes_Cons: "somes (x # xs) = somes [x] @ somes xs"
  by (cases x) simp_all

lemma somes_butlast_None: "xs \<noteq> [] \<Longrightarrow> last xs = None \<Longrightarrow> somes (butlast xs) = somes xs"
  by (induction xs rule: rev_induct) auto

lemma set_somes: "set (somes xs) = {x. Some x \<in> set xs}"
  by (force simp: somes_def List.map_filter_def)

end
