(* ===== verification/Hashing.thy ===== *)
theory Hashing
  imports Prelude
begin

unbundle bit_operations_syntax

text \<open>
  The bank and set index hash functions of \<open>gpgpu-sim/hashing.cc\<close> and the integer logarithm of
  \<open>gpgpu-sim/gpu-misc.cc\<close>. The locale \<open>index_hash\<close> is what the caches and the DRAM model rely on
  when they pass an index through one of these functions: for fixed upper address bits the hash
  permutes the indices, so no set or bank is lost and two lines of one page never collide.
\<close>

section \<open>The integer logarithm\<close>

definition LOGB2_step :: "u32 \<Rightarrow> nat \<Rightarrow> u32 \<times> u32 \<Rightarrow> u32 \<times> u32" where
  "LOGB2_step m k = (\<lambda>(v, r).
     let shift = (if v AND m \<noteq> 0 then 2 ^ k else 0)
     in (drop_bit shift v, r OR of_nat shift))"

definition LOGB2 :: "u32 \<Rightarrow> u32" where
  "LOGB2 v = snd (LOGB2_step 0x2 0 (LOGB2_step 0xC 1 (LOGB2_step 0xF0 2
     (LOGB2_step 0xFF00 3 (LOGB2_step 0xFFFF0000 4 (v, 0))))))"

section \<open>The hash functions\<close>

text \<open>\<open>a[11] ^ a[10] ^ ...\<close> for the bit positions of one row of the hash matrix.\<close>

fun xor_taps :: "u64 \<Rightarrow> nat list \<Rightarrow> bool" where
  "xor_taps a [] = False"
| "xor_taps a (i # is) = (bit a i \<noteq> xor_taps a is)"

definition ipoly_taps :: "nat \<Rightarrow> nat list list" where
  "ipoly_taps n =
    (if n = 16 then
       [[11, 10, 9, 8, 6, 4, 3, 0],
        [12, 8, 7, 6, 5, 3, 1, 0],
        [9, 8, 7, 6, 4, 2, 1],
        [10, 9, 8, 7, 5, 3, 2]]
     else if n = 32 then
       [[13, 12, 11, 10, 9, 6, 5, 3, 0],
        [14, 13, 12, 11, 10, 7, 6, 4, 1],
        [14, 10, 9, 8, 7, 6, 3, 2, 0],
        [11, 10, 9, 8, 7, 4, 3, 1],
        [12, 11, 10, 9, 8, 5, 4, 2]]
     else if n = 64 then
       [[18, 17, 16, 15, 12, 10, 6, 5, 0],
        [15, 13, 12, 11, 10, 7, 5, 1, 0],
        [16, 14, 13, 12, 11, 8, 6, 2, 1],
        [17, 15, 14, 13, 12, 9, 7, 3, 2],
        [18, 16, 15, 14, 13, 10, 8, 4, 3],
        [17, 16, 15, 14, 11, 9, 5, 4]]
     else [])"

text \<open>Row \<open>k\<close> of the matrix sets bit \<open>k\<close> of the new index; \<open>to_ulong\<close> packs the bits.\<close>

definition tap_index :: "nat list list \<Rightarrow> u64 \<Rightarrow> u32 \<Rightarrow> u32" where
  "tap_index rows a b =
     horner_sum of_bool 2 (map (\<lambda>k. xor_taps a (rows ! k) \<noteq> bit b k) [0..<length rows])"

definition ipoly_hash_function :: "u64 \<Rightarrow> u32 \<Rightarrow> u32 \<Rightarrow> u32 option" where
  "ipoly_hash_function higher_bits index bank_set_num =
    (if bank_set_num = 16 \<or> bank_set_num = 32 \<or> bank_set_num = 64
     then Some (tap_index (ipoly_taps (unat bank_set_num)) higher_bits index)
     else None)"

definition bitwise_hash_function :: "u64 \<Rightarrow> u32 \<Rightarrow> u32 \<Rightarrow> u32" where
  "bitwise_hash_function higher_bits index bank_set_num =
     index XOR ucast (higher_bits AND ucast (bank_set_num - 1))"

text \<open>
  \<open>PAE_hash_function\<close>, with the bank-bit terms exactly as they are written: some of them occur
  twice in a row and cancel.
\<close>

definition PAE_rows :: "(nat list \<times> nat list) list" where
  "PAE_rows =
    [([13, 10, 9, 5, 0], [3, 0, 0]),
     ([12, 11, 6, 1], [3, 2, 1, 1]),
     ([14, 9, 8, 7, 2], [1, 2]),
     ([11, 10, 8, 3], [2, 3, 3]),
     ([12, 9, 8, 5, 4], [1, 0, 4])]"

definition PAE_hash_function :: "u64 \<Rightarrow> u32 \<Rightarrow> u32 \<Rightarrow> u32 option" where
  "PAE_hash_function higher_bits index bank_set_num =
    (if bank_set_num = 32
     then Some (horner_sum of_bool 2
       (map (\<lambda>(as, bs). xor_taps higher_bits as \<noteq> xor_taps (ucast index) bs) PAE_rows))
     else None)"

section \<open>The logarithm is the position of the highest set bit\<close>

lemma unat_pow2: "n < 32 \<Longrightarrow> unat ((2::u32) ^ n) = 2 ^ n"
proof -
  assume n: "n < 32"
  have lt: "(2::nat) ^ n < 2 ^ 32" using n by (rule power_strict_increasing) simp
  have "unat (of_nat (2 ^ n) :: u32) = 2 ^ n mod 2 ^ 32"
    by (simp only: unat_of_nat take_bit_eq_mod len_bit0 len_num1) simp
  then show ?thesis using lt by (simp only: mod_less of_nat_power of_nat_numeral)
qed

lemma drop_bit_zero_iff:
  fixes v :: u32
  shows "drop_bit m v = 0 \<longleftrightarrow> (\<forall>n. m \<le> n \<longrightarrow> \<not> bit v n)"
proof
  assume z: "drop_bit m v = 0"
  show "\<forall>n. m \<le> n \<longrightarrow> \<not> bit v n"
  proof (intro allI impI)
    fix n assume "m \<le> n"
    then have "bit v n = bit (drop_bit m v) (n - m)" by (simp add: bit_drop_bit_eq)
    then show "\<not> bit v n" using z by simp
  qed
next
  assume "\<forall>n. m \<le> n \<longrightarrow> \<not> bit v n"
  then show "drop_bit m v = 0" by (intro bit_eqI) (simp add: bit_drop_bit_eq)
qed

lemma high_half_zero_iff:
  fixes v :: u32
  assumes "take_bit (m + m) v = v"
  shows "v AND push_bit m (mask m) = 0 \<longleftrightarrow> drop_bit m v = 0"
proof -
  have low: "n < m + m" if "bit v n" for n
    using that assms by (metis bit_take_bit_iff)
  have len: "n < 32" if "bit v n" for n
    using that bit_imp_le_length[of v n] by simp
  have "bit (v AND push_bit m (mask m)) n \<longleftrightarrow> bit v n \<and> m \<le> n" for n
    using low[of n] len[of n] by (auto simp: bit_and_iff bit_push_bit_iff bit_mask_iff)
  then have "(\<forall>n. \<not> bit (v AND push_bit m (mask m)) n) = (\<forall>n. m \<le> n \<longrightarrow> \<not> bit v n)"
    by blast
  then show ?thesis
    unfolding drop_bit_zero_iff by (metis bit_0_eq bit_eqI bot_apply bot_bool_def)
qed

definition log_inv :: "u32 \<Rightarrow> nat \<Rightarrow> u32 \<times> u32 \<Rightarrow> bool" where
  "log_inv v0 k = (\<lambda>(v, r). v = drop_bit (unat r) v0 \<and> v \<noteq> 0 \<and> take_bit (2 ^ k) v = v \<and>
     2 ^ k dvd unat r \<and> unat r + 2 ^ k \<le> 32)"

lemma or_shift_aligned:
  fixes r :: u32
  assumes "2 ^ Suc k dvd unat r" "unat r + 2 ^ Suc k \<le> 32"
  shows "unat (r OR of_nat (2 ^ k)) = unat r + 2 ^ k"
proof -
  have "\<not> bit (unat r) k"
    using assms(1) by (auto simp: bit_iff_odd dvd_def)
  then have "unat r AND 2 ^ k = 0"
    by (intro bit_eqI) (auto simp: bit_and_iff bit_exp_iff)
  then have "unat r OR 2 ^ k = unat r + 2 ^ k"
    by (simp add: disjunctive_add_eq_or)
  moreover have "unat (of_nat (2 ^ k) :: u32) = 2 ^ k"
  proof -
    have "(2::nat) ^ k < 2 ^ Suc k" by simp
    then have "(2::nat) ^ k < 32" using assms(2) by linarith
    then have "k < 32" by (metis less_exp less_trans)
    then show ?thesis by (simp add: unat_pow2)
  qed
  ultimately show ?thesis
    by (simp add: unsigned_or_eq)
qed

lemma log_inv_step:
  assumes inv: "log_inv v0 (Suc k) (v, r)" and m: "m = push_bit (2 ^ k) (mask (2 ^ k))"
  shows "log_inv v0 k (LOGB2_step m k (v, r))"
proof -
  let ?p = "2 ^ k :: nat"
  from inv have v: "v = drop_bit (unat r) v0" "v \<noteq> 0" "take_bit (?p + ?p) v = v"
    and r: "2 ^ Suc k dvd unat r" "unat r + 2 ^ Suc k \<le> 32"
    by (auto simp add: log_inv_def mult_2 simp del: dvd_imp_mod_0)
  show ?thesis
  proof (cases "drop_bit ?p v = 0")
    case True
    then have "take_bit ?p v = v"
      by (metis bits_ident push_bit_of_0 add_0)
    moreover have "?p dvd unat r" using r(1) by (metis dvd_trans le_imp_power_dvd le_SucI le_refl)
    ultimately show ?thesis
      using True v r m by (simp add: log_inv_def LOGB2_step_def high_half_zero_iff)
  next
    case False
    then have step: "LOGB2_step m k (v, r) = (drop_bit ?p v, r OR of_nat ?p)"
      using v m by (simp add: LOGB2_step_def high_half_zero_iff)
    have r': "unat (r OR of_nat ?p) = unat r + ?p"
      using r by (rule or_shift_aligned)
    have "take_bit ?p (drop_bit ?p v) = drop_bit ?p v"
      using v(3) by (metis take_bit_drop_bit)
    moreover have "?p dvd unat r + ?p" using r(1)
      by (metis dvd_add dvd_refl dvd_trans le_imp_power_dvd le_SucI le_refl)
    ultimately show ?thesis
      using False v(1) r r' unfolding log_inv_def step by (simp add: add.commute)
  qed
qed

lemma log_inv_step':
  "log_inv v0 (Suc k) s \<Longrightarrow> m = push_bit (2 ^ k) (mask (2 ^ k)) \<Longrightarrow> log_inv v0 k (LOGB2_step m k s)"
  by (cases s) (simp only: log_inv_step)

lemma LOGB2_masks:
  "(0x2 :: u32) = push_bit (2 ^ 0) (mask (2 ^ 0))"
  "(0xC :: u32) = push_bit (2 ^ 1) (mask (2 ^ 1))"
  "(0xF0 :: u32) = push_bit (2 ^ 2) (mask (2 ^ 2))"
  "(0xFF00 :: u32) = push_bit (2 ^ 3) (mask (2 ^ 3))"
  "(0xFFFF0000 :: u32) = push_bit (2 ^ 4) (mask (2 ^ 4))"
  by (simp_all add: mask_eq_exp_minus_1 push_bit_eq_mult)

lemma log_inv_LOGB2:
  assumes "v \<noteq> 0"
  shows "\<exists>w. log_inv v 0 (w, LOGB2 v)"
proof -
  have "log_inv v 5 (v, 0)"
    using assms by (simp add: log_inv_def take_bit_word_eq_self)
  then have "log_inv v 4 (LOGB2_step 0xFFFF0000 4 (v, 0))" (is "log_inv v 4 ?s4")
    by (intro log_inv_step' LOGB2_masks) simp
  then have "log_inv v 3 (LOGB2_step 0xFF00 3 ?s4)" (is "log_inv v 3 ?s3")
    by (intro log_inv_step' LOGB2_masks) simp
  then have "log_inv v 2 (LOGB2_step 0xF0 2 ?s3)" (is "log_inv v 2 ?s2")
    by (intro log_inv_step' LOGB2_masks) simp
  then have "log_inv v 1 (LOGB2_step 0xC 1 ?s2)" (is "log_inv v 1 ?s1")
    by (intro log_inv_step' LOGB2_masks) (simp add: numeral_2_eq_2)
  then have "log_inv v 0 (LOGB2_step 0x2 0 ?s1)"
    by (intro log_inv_step' LOGB2_masks) simp
  then show ?thesis
    by (metis LOGB2_def prod.collapse)
qed

lemma LOGB2_bounds:
  assumes "v \<noteq> 0"
  shows "2 ^ unat (LOGB2 v) \<le> unat v \<and> unat v < 2 ^ Suc (unat (LOGB2 v))"
proof -
  obtain w where inv: "log_inv v 0 (w, LOGB2 v)" using log_inv_LOGB2[OF assms] ..
  let ?r = "unat (LOGB2 v)"
  from inv have w: "w = drop_bit ?r v" "w \<noteq> 0" "w mod 2 = w"
    unfolding log_inv_def by auto
  then have "drop_bit ?r v = 1"
    by (metis mod2_eq_if)
  then have "unat v div 2 ^ ?r = 1"
    by (metis unat_drop_bit_eq drop_bit_eq_div unsigned_1)
  then have "unat v = 2 ^ ?r + unat v mod 2 ^ ?r"
    using div_mult_mod_eq[of "unat v" "2 ^ ?r"] by simp
  moreover have "unat v mod 2 ^ ?r < 2 ^ ?r" by (rule mod_less_divisor) simp
  ultimately show ?thesis unfolding power_Suc by linarith
qed

lemma LOGB2_lt_32: "unat (LOGB2 v) < 32"
proof (cases "v = 0")
  case True
  then show ?thesis by (simp add: LOGB2_def LOGB2_step_def)
next
  case False
  then show ?thesis using log_inv_LOGB2[OF False] by (auto simp: log_inv_def)
qed

lemma LOGB2_power: "n < 32 \<Longrightarrow> LOGB2 (2 ^ n) = of_nat n"
proof -
  assume n: "n < 32"
  have u: "unat ((2::u32) ^ n) = 2 ^ n"
    using n by (rule unat_pow2)
  then have "(2::u32) ^ n \<noteq> 0"
    by (metis unat_0 power_not_zero zero_neq_numeral)
  from LOGB2_bounds[OF this] u have "2 ^ unat (LOGB2 (2 ^ n)) \<le> (2::nat) ^ n"
    "(2::nat) ^ n < 2 ^ Suc (unat (LOGB2 (2 ^ n)))" by simp_all
  then have "unat (LOGB2 (2 ^ n)) = n"
    by (metis le_antisym less_Suc_eq_le one_less_numeral_iff power_increasing_iff
        power_strict_increasing_iff semiring_norm(76))
  then show ?thesis by (metis unsigned_of_nat word_unat_eq_iff of_nat_unat ucast_id)
qed

section \<open>The hash matrices\<close>

lemma bit_tap_index:
  "length rows \<le> 32 \<Longrightarrow>
     bit (tap_index rows a b) k \<longleftrightarrow> k < length rows \<and> (xor_taps a (rows ! k) \<noteq> bit b k)"
  by (auto simp: tap_index_def bit_horner_sum_bit_iff)

lemma xor_taps_xor: "xor_taps (a XOR a') ts = (xor_taps a ts \<noteq> xor_taps a' ts)"
  by (induction ts) (auto simp: bit_xor_iff)

lemma tap_index_xor:
  "length rows \<le> 32 \<Longrightarrow>
     tap_index rows (a XOR a') (b XOR b') = tap_index rows a b XOR tap_index rows a' b'"
  by (rule bit_word_eqI) (auto simp: bit_tap_index bit_xor_iff xor_taps_xor)

lemma take_bit_tap_index:
  "length rows \<le> 32 \<Longrightarrow> take_bit (length rows) (tap_index rows a b) = tap_index rows a b"
  by (rule bit_word_eqI) (auto simp: bit_tap_index bit_take_bit_iff)

lemma unat_lt_pow2_iff: "unat (w :: u32) < 2 ^ m \<longleftrightarrow> take_bit m w = w"
proof -
  have "unat w < 2 ^ m \<longleftrightarrow> take_bit m (unat w) = unat w"
    by (simp add: take_bit_nat_eq_self_iff)
  also have "\<dots> \<longleftrightarrow> take_bit m w = w"
    by (metis unsigned_take_bit_eq unsigned_word_eqI)
  finally show ?thesis .
qed

lemma tap_index_lt: "length rows \<le> 32 \<Longrightarrow> unat (tap_index rows a b) < 2 ^ length rows"
  by (simp add: unat_lt_pow2_iff take_bit_tap_index)

lemma tap_index_inj:
  assumes "length rows \<le> 32" "unat i < 2 ^ length rows" "unat j < 2 ^ length rows"
    and eq: "tap_index rows h i = tap_index rows h j"
  shows "i = j"
proof (rule bit_word_eqI)
  fix k
  have "bit (tap_index rows h i) k = bit (tap_index rows h j) k" using eq by simp
  then have "k < length rows \<Longrightarrow> bit i k = bit j k"
    using assms(1) by (auto simp: bit_tap_index)
  moreover have "\<not> bit i k" "\<not> bit j k" if "length rows \<le> k"
    using assms(2,3) that unfolding unat_lt_pow2_iff by (metis bit_take_bit_iff not_le)+
  ultimately show "bit i k = bit j k" by (cases "k < length rows") auto
qed

section \<open>What a set or bank index hash promises\<close>

locale index_hash =
  fixes hash :: "u64 \<Rightarrow> u32 \<Rightarrow> u32" and n :: nat
  assumes hash_lt: "unat i < n \<Longrightarrow> unat (hash h i) < n"
    and hash_inj: "unat i < n \<Longrightarrow> unat j < n \<Longrightarrow> hash h i = hash h j \<Longrightarrow> i = j"
begin

lemma hash_bij: "bij_betw (hash h) {i. unat i < n} {i. unat i < n}"
proof -
  have fin: "finite {i :: u32. unat i < n}" by simp
  have "inj_on (hash h) {i. unat i < n}"
    by (rule inj_onI) (simp add: hash_inj)
  moreover have "hash h ` {i. unat i < n} = {i. unat i < n}"
    by (rule endo_inj_surj[OF fin]) (auto simp: hash_lt calculation)
  ultimately show ?thesis by (simp add: bij_betw_def)
qed

lemma hash_onto: "unat s < n \<Longrightarrow> \<exists>i. unat i < n \<and> hash h i = s"
proof -
  assume "unat s < n"
  then have "s \<in> hash h ` {i. unat i < n}"
    using hash_bij[of h] by (simp add: bij_betw_def)
  then show ?thesis by auto
qed

end

lemma ipoly_taps_length: "length (ipoly_taps 16) = 4" "length (ipoly_taps 32) = 5"
  "length (ipoly_taps 64) = 6"
  by (simp_all add: ipoly_taps_def)

lemma index_hash_tap:
  assumes "length rows \<le> 32" "n = 2 ^ length rows"
  shows "index_hash (tap_index rows) n"
  using assms by unfold_locales (auto simp: tap_index_lt dest: tap_index_inj)

lemma ipoly_hash_eq:
  "ipoly_hash_function h i 16 = Some (tap_index (ipoly_taps 16) h i)"
  "ipoly_hash_function h i 32 = Some (tap_index (ipoly_taps 32) h i)"
  "ipoly_hash_function h i 64 = Some (tap_index (ipoly_taps 64) h i)"
  by (simp_all add: ipoly_hash_function_def)

interpretation ipoly16: index_hash "\<lambda>h i. the (ipoly_hash_function h i 16)" 16
  unfolding ipoly_hash_eq option.sel
  by (rule index_hash_tap) (simp_all add: ipoly_taps_length)

interpretation ipoly32: index_hash "\<lambda>h i. the (ipoly_hash_function h i 32)" 32
  unfolding ipoly_hash_eq option.sel
  by (rule index_hash_tap) (simp_all add: ipoly_taps_length)

interpretation ipoly64: index_hash "\<lambda>h i. the (ipoly_hash_function h i 64)" 64
  unfolding ipoly_hash_eq option.sel
  by (rule index_hash_tap) (simp_all add: ipoly_taps_length)

lemma bitwise_hash_lt:
  assumes "k < 32" "unat i < 2 ^ k"
  shows "unat (bitwise_hash_function h i (2 ^ k)) < 2 ^ k"
proof -
  have m: "(2 :: u32) ^ k - 1 = mask k" by (simp add: mask_eq_exp_minus_1)
  have i: "take_bit k i = i" using assms(2) by (simp add: unat_lt_pow2_iff)
  have "take_bit k (ucast (h AND ucast (mask k :: u32)) :: u32) = ucast (h AND ucast (mask k :: u32))"
    by (rule bit_word_eqI) (auto simp: bit_take_bit_iff bit_ucast_iff bit_and_iff bit_mask_iff)
  then show ?thesis
    unfolding bitwise_hash_function_def m unat_lt_pow2_iff take_bit_xor i by simp
qed

lemma xor_right_cancel: "i XOR c = j XOR c \<Longrightarrow> i = j" for i j c :: "'a::len word"
proof -
  assume "i XOR c = j XOR c"
  then have "(i XOR c) XOR c = (j XOR c) XOR c" by (rule arg_cong)
  then show ?thesis by (simp only: xor.assoc xor_self_eq xor.right_neutral)
qed

lemma xor_left_cancel: "c XOR i = c XOR j \<Longrightarrow> i = j" for i j c :: "'a::len word"
  by (simp only: xor.commute[of c] xor_right_cancel)

lemma index_hash_bitwise: "k < 32 \<Longrightarrow> index_hash (\<lambda>h i. bitwise_hash_function h i (2 ^ k)) (2 ^ k)"
proof unfold_locales
  fix h i j
  assume "bitwise_hash_function h i (2 ^ k) = bitwise_hash_function h j (2 ^ k)"
  then show "i = j"
    unfolding bitwise_hash_function_def by (rule xor_right_cancel)
qed (rule bitwise_hash_lt)

interpretation bitwise16: index_hash "\<lambda>h i. bitwise_hash_function h i 16" 16
  using index_hash_bitwise[of 4] by simp

interpretation bitwise32: index_hash "\<lambda>h i. bitwise_hash_function h i 32" 32
  using index_hash_bitwise[of 5] by simp

interpretation bitwise64: index_hash "\<lambda>h i. bitwise_hash_function h i 64" 64
  using index_hash_bitwise[of 6] by simp

section \<open>Power-of-two strides\<close>

text \<open>
  How the callers use \<open>ipoly_hash_function\<close>: the low \<open>k\<close> bits of a line number are the index and
  the bits above them the \<open>higher_bits\<close>.
\<close>

definition ipoly_of_line :: "nat \<Rightarrow> u64 \<Rightarrow> u32" where
  "ipoly_of_line k l = tap_index (ipoly_taps (2 ^ k)) (drop_bit k l) (ucast (take_bit k l))"

lemma ipoly_of_line_xor:
  assumes "length (ipoly_taps (2 ^ k)) \<le> 32"
  shows "ipoly_of_line k (l XOR l') = ipoly_of_line k l XOR ipoly_of_line k l'"
proof -
  have "(ucast (take_bit k (l XOR l')) :: u32) = ucast (take_bit k l) XOR ucast (take_bit k l')"
    by (rule bit_word_eqI) (auto simp: bit_ucast_iff bit_take_bit_iff bit_xor_iff)
  moreover have "drop_bit k (l XOR l') = drop_bit k l XOR drop_bit k l'"
    by (rule drop_bit_xor)
  ultimately show ?thesis
    using tap_index_xor[OF assms] by (simp add: ipoly_of_line_def)
qed

lemma ipoly_of_line_zero:
  assumes z: "ipoly_of_line k l = 0" and len: "length (ipoly_taps (2 ^ k)) = k" and k: "k \<le> 32"
    and r: "r < k"
  shows "xor_taps (drop_bit k l) (ipoly_taps (2 ^ k) ! r) = bit l r"
proof -
  have "bit (ipoly_of_line k l) r = False" using z by simp
  then show ?thesis
    using len k r by (simp add: ipoly_of_line_def bit_tap_index bit_ucast_iff bit_take_bit_iff)
qed

lemma u64_low_bits_eqI:
  fixes w :: u64
  assumes "take_bit k w = w" "\<And>n. n < k \<Longrightarrow> \<not> bit w n"
  shows "w = 0"
proof (rule bit_word_eqI)
  fix n
  show "bit w n = bit (0::u64) n"
    using assms by (metis bit_0_eq bit_take_bit_iff bot_apply bot_bool_def)
qed

fun xor_pred :: "(nat \<Rightarrow> bool) \<Rightarrow> nat list \<Rightarrow> bool" where
  "xor_pred f [] = False"
| "xor_pred f (i # is) = (f i \<noteq> xor_pred f is)"

definition line_bit :: "nat \<Rightarrow> u64 \<Rightarrow> nat \<Rightarrow> nat \<Rightarrow> bool" where
  "line_bit s w k i = (s \<le> k + i \<and> k + i < 64 \<and> bit w (k + i - s))"

lemma xor_taps_line: "xor_taps (drop_bit k (push_bit s w)) ts = xor_pred (line_bit s w k) ts"
  by (induction ts) (auto simp: bit_drop_bit_eq bit_push_bit_iff line_bit_def)

lemma line_bit_0: "bit (push_bit s w) r = line_bit s w 0 r" for w :: u64
  by (auto simp: bit_push_bit_iff line_bit_def)

lemma ipoly16_kernel:
  fixes w :: u64
  assumes w: "take_bit 4 w = w" and s: "s \<le> 13" and z: "ipoly_of_line 4 (push_bit s w) = 0"
  shows "w = 0"
proof (rule u64_low_bits_eqI[OF w])
  have hi: "\<not> bit w n" if "4 \<le> n" for n
    using w that by (metis bit_take_bit_iff not_le)
  have row: "xor_pred (line_bit s w 4) (ipoly_taps 16 ! r) = line_bit s w 0 r" if "r < 4" for r
    using ipoly_of_line_zero[OF z, of r] that by (simp add: ipoly_taps_length xor_taps_line line_bit_0)
  note rows = row[of 0] row[of 1] row[of 2] row[of 3]
  have "s = 0 \<or> s = 1 \<or> s = 2 \<or> s = 3 \<or> s = 4 \<or> s = 5 \<or> s = 6 \<or> s = 7 \<or> s = 8 \<or> s = 9 \<or> s = 10 \<or> s = 11 \<or> s = 12 \<or> s = 13"
    using s by arith
  then have "\<not> bit w 0 \<and> \<not> bit w 1 \<and> \<not> bit w 2 \<and> \<not> bit w 3"
    using rows hi by (elim disjE, simp_all add: ipoly_taps_def line_bit_def numeral_2_eq_2, (sat+)?)
  then show "\<not> bit w n" if "n < 4" for n
    using that by (auto simp: eval_nat_numeral less_Suc_eq)
qed

lemma ipoly32_kernel:
  fixes w :: u64
  assumes w: "take_bit 5 w = w" and s: "s \<le> 15" and z: "ipoly_of_line 5 (push_bit s w) = 0"
  shows "w = 0"
proof (rule u64_low_bits_eqI[OF w])
  have hi: "\<not> bit w n" if "5 \<le> n" for n
    using w that by (metis bit_take_bit_iff not_le)
  have row: "xor_pred (line_bit s w 5) (ipoly_taps 32 ! r) = line_bit s w 0 r" if "r < 5" for r
    using ipoly_of_line_zero[OF z, of r] that by (simp add: ipoly_taps_length xor_taps_line line_bit_0)
  note rows = row[of 0] row[of 1] row[of 2] row[of 3] row[of 4]
  have "s = 0 \<or> s = 1 \<or> s = 2 \<or> s = 3 \<or> s = 4 \<or> s = 5 \<or> s = 6 \<or> s = 7 \<or> s = 8 \<or> s = 9 \<or> s = 10 \<or> s = 11 \<or> s = 12 \<or> s = 13 \<or> s = 14 \<or> s = 15"
    using s by arith
  then have "\<not> bit w 0 \<and> \<not> bit w 1 \<and> \<not> bit w 2 \<and> \<not> bit w 3 \<and> \<not> bit w 4"
    using rows hi by (elim disjE, simp_all add: ipoly_taps_def line_bit_def numeral_2_eq_2, (sat+)?)
  then show "\<not> bit w n" if "n < 5" for n
    using that by (auto simp: eval_nat_numeral less_Suc_eq)
qed

lemma ipoly64_kernel:
  fixes w :: u64
  assumes w: "take_bit 6 w = w" and s: "s \<le> 19" and z: "ipoly_of_line 6 (push_bit s w) = 0"
  shows "w = 0"
proof (rule u64_low_bits_eqI[OF w])
  have hi: "\<not> bit w n" if "6 \<le> n" for n
    using w that by (metis bit_take_bit_iff not_le)
  have row: "xor_pred (line_bit s w 6) (ipoly_taps 64 ! r) = line_bit s w 0 r" if "r < 6" for r
    using ipoly_of_line_zero[OF z, of r] that by (simp add: ipoly_taps_length xor_taps_line line_bit_0)
  note rows = row[of 0] row[of 1] row[of 2] row[of 3] row[of 4] row[of 5]
  have "s = 0 \<or> s = 1 \<or> s = 2 \<or> s = 3 \<or> s = 4 \<or> s = 5 \<or> s = 6 \<or> s = 7 \<or> s = 8 \<or> s = 9 \<or> s = 10 \<or> s = 11 \<or> s = 12 \<or> s = 13 \<or> s = 14 \<or> s = 15 \<or> s = 16 \<or> s = 17 \<or> s = 18 \<or> s = 19"
    using s by arith
  then have "\<not> bit w 0 \<and> \<not> bit w 1 \<and> \<not> bit w 2 \<and> \<not> bit w 3 \<and> \<not> bit w 4 \<and> \<not> bit w 5"
    using rows hi by (elim disjE, simp_all add: ipoly_taps_def line_bit_def numeral_2_eq_2, (sat+)?)
  then show "\<not> bit w n" if "n < 6" for n
    using that by (auto simp: eval_nat_numeral less_Suc_eq)
qed

lemma ipoly_hash_of_line:
  "k \<in> {4, 5, 6} \<Longrightarrow>
     ipoly_hash_function (drop_bit k l) (ucast (take_bit k l)) (2 ^ k) = Some (ipoly_of_line k l)"
  by (auto simp: ipoly_hash_function_def ipoly_of_line_def)

lemma ipoly_kernel:
  assumes "k = 4 \<and> s \<le> 13 \<or> k = 5 \<and> s \<le> 15 \<or> k = 6 \<and> s \<le> 19"
    and "take_bit k w = w" "ipoly_of_line k (push_bit s w) = 0"
  shows "w = 0"
  using assms ipoly16_kernel ipoly32_kernel ipoly64_kernel by blast

lemma add_stride_xor:
  fixes base w :: u64
  assumes "base AND push_bit s (mask k) = 0" "take_bit k w = w"
  shows "base + push_bit s w = base XOR push_bit s w"
proof -
  have "base AND push_bit s w = 0"
  proof (rule bit_word_eqI)
    fix n
    have "bit w m \<Longrightarrow> m < k" for m
      using assms(2) by (metis bit_take_bit_iff)
    then have "bit (push_bit s w) n \<Longrightarrow> bit (push_bit s (mask k :: u64)) n"
      by (auto simp: bit_mask_iff bit_push_bit_iff)
    then show "bit (base AND push_bit s w) n = bit (0 :: u64) n"
      using arg_cong[OF assms(1), of "\<lambda>x. bit x n"] by (auto simp: bit_and_iff)
  qed
  then show ?thesis by (simp add: disjunctive_add_eq_xor)
qed

lemma ipoly_stride_step:
  assumes dim: "k = 4 \<and> s \<le> 13 \<or> k = 5 \<and> s \<le> 15 \<or> k = 6 \<and> s \<le> 19"
    and base: "base AND push_bit s (mask k) = 0"
    and i: "take_bit k i = i" and j: "take_bit k j = j"
    and eq: "ipoly_of_line k (base + push_bit s i) = ipoly_of_line k (base + push_bit s j)"
  shows "i = j"
proof -
  have len: "length (ipoly_taps (2 ^ k)) \<le> 32"
    using dim by (auto simp: ipoly_taps_length)
  have "ipoly_of_line k base XOR ipoly_of_line k (push_bit s i)
      = ipoly_of_line k base XOR ipoly_of_line k (push_bit s j)"
    using eq by (simp add: add_stride_xor[OF base i] add_stride_xor[OF base j]
        ipoly_of_line_xor[OF len])
  then have "ipoly_of_line k (push_bit s i) = ipoly_of_line k (push_bit s j)"
    by (rule xor_left_cancel)
  then have "ipoly_of_line k (push_bit s (i XOR j)) = 0"
    by (simp add: push_bit_xor ipoly_of_line_xor[OF len])
  moreover have "take_bit k (i XOR j) = i XOR j" using i j by simp
  ultimately have "i XOR j = 0" using ipoly_kernel[OF dim] by blast
  then have "i XOR j = j XOR j" by simp
  then show ?thesis by (rule xor_right_cancel)
qed

section \<open>Properties\<close>

text \<open>
  C35: For 16, 32 and 64 banks the polynomial hash is total and, for fixed upper bits, permutes the
  bank indices: no bank is lost and no two indices of one page share a bank.
\<close>

theorem ipoly_permutes_banks:
  assumes "n = 16 \<or> n = 32 \<or> n = 64"
  shows "\<exists>f. (\<forall>i. ipoly_hash_function h i n = Some (f i)) \<and>
    bij_betw f {i. unat i < unat n} {i. unat i < unat n}"
proof (intro exI conjI allI)
  show "ipoly_hash_function h i n = Some (the (ipoly_hash_function h i n))" for i
    using assms by (auto simp: ipoly_hash_function_def)
  show "bij_betw (\<lambda>i. the (ipoly_hash_function h i n)) {i. unat i < unat n} {i. unat i < unat n}"
    using assms ipoly16.hash_bij[of h] ipoly32.hash_bij[of h] ipoly64.hash_bij[of h] by auto
qed

theorem ipoly_permutes_banks_witness:
  "\<exists>f. (\<forall>i. ipoly_hash_function 0xABCD i 32 = Some (f i)) \<and>
    bij_betw f {i. unat i < unat (32 :: u32)} {i. unat i < unat (32 :: u32)}"
  by (rule ipoly_permutes_banks) simp

text \<open>
  C36: The polynomial hash is conflict-free for power-of-two strides up to a bound: with \<open>2^k\<close> banks,
  the \<open>2^k\<close> lines \<open>base + i * 2^s\<close> go to pairwise different banks for every \<open>s\<close> up to 13, 15 and 19
  (for 16, 32 and 64 banks). The base must be aligned to the block of lines the stride sweeps.
\<close>

theorem ipoly_stride_conflict_free:
  assumes "k = 4 \<and> s \<le> 13 \<or> k = 5 \<and> s \<le> 15 \<or> k = 6 \<and> s \<le> 19"
    and "base AND push_bit s (mask k) = 0" "unat i < 2 ^ k" "unat j < 2 ^ k" "i \<noteq> j"
  shows "ipoly_hash_function (drop_bit k (base + push_bit s i)) (ucast (take_bit k (base + push_bit s i))) (2 ^ k)
    \<noteq> ipoly_hash_function (drop_bit k (base + push_bit s j)) (ucast (take_bit k (base + push_bit s j))) (2 ^ k)"
proof
  assume eq: "ipoly_hash_function (drop_bit k (base + push_bit s i)) (ucast (take_bit k (base + push_bit s i))) (2 ^ k)
    = ipoly_hash_function (drop_bit k (base + push_bit s j)) (ucast (take_bit k (base + push_bit s j))) (2 ^ k)"
  have small: "take_bit k x = x" if "unat x < 2 ^ k" for x :: u64
    using that by (metis take_bit_nat_eq_self unsigned_take_bit_eq unsigned_word_eqI)
  have "ipoly_of_line k (base + push_bit s i) = ipoly_of_line k (base + push_bit s j)"
    using eq assms(1) by (auto simp: ipoly_of_line_def ipoly_hash_function_def)
  then show False
    using ipoly_stride_step[OF assms(1,2) small[OF assms(3)] small[OF assms(4)]] assms(5) by blast
qed

theorem ipoly_stride_conflict_free_witness:
  "ipoly_hash_function (drop_bit 4 (0 + push_bit 6 1)) (ucast (take_bit 4 (0 + push_bit 6 (1 :: u64)))) (2 ^ 4)
    \<noteq> ipoly_hash_function (drop_bit 4 (0 + push_bit 6 2)) (ucast (take_bit 4 (0 + push_bit 6 (2 :: u64)))) (2 ^ 4)"
  by (rule ipoly_stride_conflict_free) simp_all

text \<open>
  The source says the hash is conflict-free for all power-of-two strides; with 16 banks the lines
  \<open>0\<close> and \<open>2^17\<close> already share bank 0.
\<close>

lemma ipoly_large_stride_conflict:
  "ipoly_hash_function (drop_bit 4 (push_bit 17 1)) (ucast (take_bit 4 (push_bit 17 (1 :: u64)))) 16 = Some 0"
  "ipoly_hash_function (drop_bit 4 0) (ucast (take_bit 4 (0 :: u64))) 16 = Some 0"
  by (simp_all add: ipoly_hash_function_def tap_index_def ipoly_taps_def upt_rec)

text \<open>
  The \<open>PAE\<close> matrix is singular because of its repeated terms: banks 1 and 16 always collide.
\<close>

lemma PAE_not_injective: "PAE_hash_function h 1 32 = PAE_hash_function h 16 32"
proof -
  have "bit (16 :: u64) 4" "\<not> bit (1 :: u64) 4" by simp_all
  then show ?thesis by (simp add: PAE_hash_function_def PAE_rows_def)
qed

end
