(* ===== verification/AddrDec.thy ===== *)
theory AddrDec
  imports Hashing
begin

unbundle bit_operations_syntax

text \<open>
  The DRAM address mapping of \<open>gpgpu-sim/addrdec.cc\<close>: how a linear address is split into channel
  (\<open>chip\<close>), bank, row, column and burst, and how the address inside a partition is formed. The
  class \<open>linear_to_raw_address_translation\<close> is the record \<open>addr_map\<close>; \<open>init\<close> computes its masks.
  The properties are the ones \<open>sweep_test\<close> samples at run time: no two addresses decode alike.
\<close>

section \<open>Data\<close>

record addrdec =
  tlx_chip :: u32
  tlx_bk :: u32
  tlx_row :: u32
  tlx_col :: u32
  tlx_burst :: u32
  tlx_sub_partition :: u32

datatype partition_index_function = CONSECUTIVE | BITWISE_PERMUTATION | IPOLY | PAE | RANDOM | CUSTOM

datatype field = CHIP | BK | ROW | COL | BURST

record addr_map =
  addrdec_option :: "string option"
  gpgpu_mem_address_mask :: int
  memory_partition_indexing :: partition_index_function
  ADDR_CHIP_S :: u32                    \<comment> \<open>an \<open>int\<close> in the source; \<open>-1\<close> is the largest word\<close>
  addrdec_mklow :: "field \<Rightarrow> nat"
  addrdec_mkhigh :: "field \<Rightarrow> nat"
  addrdec_mask :: "field \<Rightarrow> u64"
  sub_partition_id_mask :: u64
  gap :: u32
  m_n_channel :: u32
  m_n_sub_partition_in_channel :: u32
  m_n_sub_partition_total :: u32
  log2channel :: u32
  log2sub_partition :: u32
  nextPowerOf2_m_n_channel :: u32

section \<open>Static helper functions\<close>

text \<open>\<open>powli\<close>: \<open>x\<close> to the power \<open>y\<close> by repeated multiplication of \<open>long int\<close>s.\<close>

fun powli_loop :: "nat \<Rightarrow> u64 \<Rightarrow> u64 \<Rightarrow> u64" where
  "powli_loop 0 x r = r"
| "powli_loop (Suc n) x r = powli_loop n x (r * x)"

definition powli :: "u64 \<Rightarrow> nat \<Rightarrow> u64" where
  "powli x y = powli_loop y x 1"

definition LOGB2_32 :: "u32 \<Rightarrow> u32" where
  "LOGB2_32 v =
    (let shift4 = (if v AND 0xFFFF0000 \<noteq> 0 then 16 else 0);
         v4 = drop_bit shift4 v; r4 = 0 OR of_nat shift4;
         shift3 = (if v4 AND 0xFF00 \<noteq> 0 then 8 else 0);
         v3 = drop_bit shift3 v4; r3 = r4 OR of_nat shift3;
         shift2 = (if v3 AND 0xF0 \<noteq> 0 then 4 else 0);
         v2 = drop_bit shift2 v3; r2 = r3 OR of_nat shift2;
         shift1 = (if v2 AND 0xC \<noteq> 0 then 2 else 0);
         v1 = drop_bit shift1 v2; r1 = r2 OR of_nat shift1;
         shift0 = (if v1 AND 0x2 \<noteq> 0 then 1 else 0)
     in r1 OR of_nat shift0)"

text \<open>
  The loop of \<open>next_powerOf2\<close>: \<open>while (n & n - 1) n = n & (n - 1)\<close>. Each step clears the lowest
  set bit, so the value decreases.
\<close>

lemma and_pred_less: "n AND (n - 1) \<noteq> 0 \<Longrightarrow> unat (n AND (n - 1)) < unat (n :: u32)"
proof -
  assume nz: "n AND (n - 1) \<noteq> 0"
  then have "n \<noteq> 0" by auto
  have "unat (n AND (n - 1)) \<le> unat (n - 1)"
    by (metis word_and_le1 word_le_nat_alt)
  also have "\<dots> < unat n"
    using \<open>n \<noteq> 0\<close> by (metis unat_minus_one diff_less less_numeral_extra(1) unat_gt_0)
  finally show ?thesis .
qed

function clear_low_bits :: "u32 \<Rightarrow> u32" where
  "clear_low_bits n = (if n AND (n - 1) \<noteq> 0 then clear_low_bits (n AND (n - 1)) else n)"
  by pat_completeness auto
termination
  by (relation "measure unat") (auto intro: and_pred_less)

declare clear_low_bits.simps [simp del]

definition next_powerOf2 :: "u32 \<Rightarrow> u32" where
  "next_powerOf2 n = push_bit 1 (clear_low_bits (n - 1))"

text \<open>The loop of \<open>addrdec_packbits\<close> over the bit positions from \<open>low\<close> to \<open>high - 1\<close>.\<close>

fun packbits_loop :: "u64 \<Rightarrow> u64 \<Rightarrow> nat list \<Rightarrow> nat \<Rightarrow> u64 \<Rightarrow> u64" where
  "packbits_loop m v [] pos result = result"
| "packbits_loop m v (i # is) pos result =
    (if m AND push_bit i 1 \<noteq> 0
     then packbits_loop m v is (Suc pos) (result OR push_bit pos (drop_bit i (v AND push_bit i 1)))
     else packbits_loop m v is pos result)"

definition addrdec_packbits :: "u64 \<Rightarrow> u64 \<Rightarrow> nat \<Rightarrow> nat \<Rightarrow> u64" where
  "addrdec_packbits m v high low = packbits_loop m v [low..<high] 0 0"

text \<open>\<open>addrdec_getmasklimit\<close>: one past the highest set bit and the lowest set bit.\<close>

fun masklimit_loop :: "u64 \<Rightarrow> nat list \<Rightarrow> nat \<times> nat \<times> bool \<Rightarrow> nat \<times> nat \<times> bool" where
  "masklimit_loop m [] s = s"
| "masklimit_loop m (i # is) (high, low, low_found) =
    masklimit_loop m is
      (if m AND push_bit i 1 \<noteq> 0
       then (if low_found then (Suc i, low, low_found) else (Suc i, i, True))
       else (high, low, low_found))"

definition addrdec_getmasklimit :: "u64 \<Rightarrow> nat \<times> nat" where
  "addrdec_getmasklimit m =
    (case masklimit_loop m [0..<64] (64, 0, False) of (high, low, _) \<Rightarrow> (high, low))"

section \<open>Decoding an address\<close>

text \<open>
  \<open>partition_address\<close>: the address inside the partition, with the channel bits and the
  sub-partition bits squeezed out. In the gap case (the number of channels is not a power of two)
  \<open>1 << ADDR_CHIP_S\<close> is an \<open>int\<close>, defined for shifts below 31.
\<close>

definition partition_address :: "addr_map \<Rightarrow> u64 \<Rightarrow> u64 option" where
  "partition_address m addr =
    (if gap m = 0 then
       Some (addrdec_packbits (NOT (addrdec_mask m CHIP OR sub_partition_id_mask m)) addr 64 0)
     else do {
       let s = unat (ADDR_CHIP_S m);
       ensure (s < 31 \<and> m_n_channel m \<noteq> 0);
       let partition_addr = push_bit s (drop_bit s addr div ucast (m_n_channel m));
       let partition_addr = partition_addr OR (addr AND (push_bit s 1 - 1));
       Some (addrdec_packbits (NOT (sub_partition_id_mask m)) partition_addr 64 0)
     })"

definition unpack_field :: "addr_map \<Rightarrow> field \<Rightarrow> u64 \<Rightarrow> u32" where
  "unpack_field m f addr =
     ucast (addrdec_packbits (addrdec_mask m f) addr (addrdec_mkhigh m f) (addrdec_mklow m f))"

text \<open>
  The first half of \<open>addrdec_tlx\<close>: the five fields (\<open>sub_partition\<close> is set later) and
  \<open>rest_of_addr_high_bits\<close>. A shift by 64 or more is undefined in C++, so the high bits are
  \<open>None\<close> then; only two of the indexing functions read them.
\<close>

definition tlx_fields :: "addr_map \<Rightarrow> u64 \<Rightarrow> u32 \<Rightarrow> (addrdec \<times> u64 option) option" where
  "tlx_fields m addr sp0 =
    (if gap m = 0 then
       let s = unat (ADDR_CHIP_S m + (log2channel m + log2sub_partition m))
       in Some (\<lparr>tlx_chip = unpack_field m CHIP addr, tlx_bk = unpack_field m BK addr,
                 tlx_row = unpack_field m ROW addr, tlx_col = unpack_field m COL addr,
                 tlx_burst = unpack_field m BURST addr, tlx_sub_partition = sp0\<rparr>,
                if s < 64 then Some (drop_bit s addr) else None)
     else do {
       let s = unat (ADDR_CHIP_S m);
       ensure (s < 31 \<and> m_n_channel m \<noteq> 0);
       let addr_for_chip = drop_bit s addr mod ucast (m_n_channel m);
       let rest_of_addr = push_bit s (drop_bit s addr div ucast (m_n_channel m));
       let rest_of_addr_high_bits = drop_bit s addr div ucast (m_n_channel m);
       let rest_of_addr = rest_of_addr OR (addr AND (push_bit s 1 - 1));
       Some (\<lparr>tlx_chip = ucast addr_for_chip, tlx_bk = unpack_field m BK rest_of_addr,
              tlx_row = unpack_field m ROW rest_of_addr, tlx_col = unpack_field m COL rest_of_addr,
              tlx_burst = unpack_field m BURST rest_of_addr, tlx_sub_partition = sp0\<rparr>,
             Some rest_of_addr_high_bits)
     })"

text \<open>The sub-partition is the channel combined with the lower bits of the bank.\<close>

definition set_sub_partition :: "addr_map \<Rightarrow> addrdec \<Rightarrow> addrdec" where
  "set_sub_partition m tlx =
     (let sub_partition_addr_mask = m_n_sub_partition_in_channel m - 1
      in tlx\<lparr>tlx_sub_partition := tlx_chip tlx * m_n_sub_partition_in_channel m +
               (tlx_bk tlx AND sub_partition_addr_mask)\<rparr>)"

definition place_in_sub_partition :: "addr_map \<Rightarrow> u32 \<Rightarrow> addrdec \<Rightarrow> addrdec option" where
  "place_in_sub_partition m sp tlx = do {
     ensure (m_n_sub_partition_in_channel m \<noteq> 0);
     let c = sp div m_n_sub_partition_in_channel m;
     ensure (c < m_n_channel m);
     ensure (sp < m_n_channel m * m_n_sub_partition_in_channel m);
     Some (tlx\<lparr>tlx_chip := c, tlx_sub_partition := sp\<rparr>)
   }"

text \<open>
  \<open>addrdec_tlx\<close>. The table \<open>address_random_interleaving\<close> of the \<open>RANDOM\<close> mode is passed in and
  out, and \<open>rnd\<close> is the value \<open>rand()\<close> returns if it is called; \<open>sp0\<close> is what
  \<open>tlx->sub_partition\<close> held before.
\<close>

definition addrdec_tlx ::
  "addr_map \<Rightarrow> (u64 \<rightharpoonup> u32) \<Rightarrow> u32 \<Rightarrow> u64 \<Rightarrow> u32 \<Rightarrow> (addrdec \<times> (u64 \<rightharpoonup> u32)) option" where
  "addrdec_tlx m table rnd addr sp0 = do {
     (tlx, high_bits) \<leftarrow> tlx_fields m addr sp0;
     (case memory_partition_indexing m of
        CONSECUTIVE \<Rightarrow> Some (set_sub_partition m tlx, table)
      | BITWISE_PERMUTATION \<Rightarrow> do {
          ensure (gap m = 0);
          h \<leftarrow> high_bits;
          let c = bitwise_hash_function h (tlx_chip tlx) (m_n_channel m);
          ensure (c < m_n_channel m);
          Some (set_sub_partition m (tlx\<lparr>tlx_chip := c\<rparr>), table) }
      | IPOLY \<Rightarrow> do {
          h \<leftarrow> high_bits;
          let sub_partition_addr_mask = m_n_sub_partition_in_channel m - 1;
          let sp = tlx_chip tlx * m_n_sub_partition_in_channel m +
                   (tlx_bk tlx AND sub_partition_addr_mask);
          sp \<leftarrow> ipoly_hash_function h sp
                  (nextPowerOf2_m_n_channel m * m_n_sub_partition_in_channel m);
          ensure (gap m \<noteq> 0 \<longrightarrow> m_n_channel m * m_n_sub_partition_in_channel m \<noteq> 0);
          let sp = (if gap m \<noteq> 0 then sp mod (m_n_channel m * m_n_sub_partition_in_channel m)
                    else sp);
          tlx' \<leftarrow> place_in_sub_partition m sp tlx;
          Some (tlx', table) }
      | RANDOM \<Rightarrow> do {
          let s = unat (ADDR_CHIP_S m - log2sub_partition m);
          ensure (s < 64);
          let chip_address = drop_bit s addr;
          (case table chip_address of
             None \<Rightarrow> do {
               ensure (m_n_channel m * m_n_sub_partition_in_channel m \<noteq> 0);
               let new_chip_id = rnd mod (m_n_channel m * m_n_sub_partition_in_channel m);
               tlx' \<leftarrow> place_in_sub_partition m new_chip_id tlx;
               Some (tlx', table(chip_address \<mapsto> new_chip_id)) }
           | Some new_chip_id \<Rightarrow> do {
               tlx' \<leftarrow> place_in_sub_partition m new_chip_id tlx;
               Some (tlx', table) }) }
      | CUSTOM \<Rightarrow> Some (set_sub_partition m tlx, table)
      | PAE \<Rightarrow> None)
   }"

section \<open>Initialisation\<close>

text \<open>The masks the constructor sets and the presets \<open>-gpgpu_mem_address_mask\<close> selects.\<close>

fun mask_table :: "u64 \<Rightarrow> u64 \<Rightarrow> u64 \<Rightarrow> u64 \<Rightarrow> u64 \<Rightarrow> field \<Rightarrow> u64" where
  "mask_table c b r l u CHIP = c"
| "mask_table c b r l u BK = b"
| "mask_table c b r l u ROW = r"
| "mask_table c b r l u COL = l"
| "mask_table c b r l u BURST = u"

definition addr_map_new :: addr_map where
  "addr_map_new =
    \<lparr>addrdec_option = None, gpgpu_mem_address_mask = 0, memory_partition_indexing = CONSECUTIVE,
     ADDR_CHIP_S = 10, addrdec_mklow = (\<lambda>_. 0), addrdec_mkhigh = (\<lambda>_. 64),
     addrdec_mask = mask_table 0x1C00 0x300 0x0FFF0000 0xE0FF 0xF,
     sub_partition_id_mask = 0, gap = 0, m_n_channel = 0, m_n_sub_partition_in_channel = 0,
     m_n_sub_partition_total = 0, log2channel = 0, log2sub_partition = 0,
     nextPowerOf2_m_n_channel = 0\<rparr>"

definition preset_masks :: "int \<Rightarrow> (u32 \<times> u64 \<times> u64 \<times> u64) option" where
  "preset_masks k = map_of
     [(0, (10, 0x300, 0x07FFE000, 0x1CFF)),
      (1, (13, 0x1800, 0x07FFE000, 0x7FF)),
      (2, (11, 0x1800, 0x07FFE000, 0x7FF)),
      (3, (11, 0x1800, 0x0FFFE000, 0x7FF)),
      (14, (14, 0x1800, 0x07FFE000, 0x7FF)),
      (15, (15, 0x1800, 0x07FFE000, 0x7FF)),
      (16, (16, 0x1800, 0x07FFE000, 0x7FF)),
      (6, (6, 0x1800, 0x07FFE000, 0x7FF)),
      (5, (5, 0x1800, 0x07FFE000, 0x7FF)),
      (100, (1, 0x3, 0x07FFE000, 0x1FFC)),
      (103, (3, 0x3, 0x07FFE000, 0x1FFC)),
      (106, (6, 0x1800, 0x07FFE000, 0x7FF)),
      (160, (6, 0x300, 0x07FFE000, 0x1CFF))] k"

definition apply_preset :: "addr_map \<Rightarrow> addr_map" where
  "apply_preset m =
    (case preset_masks (gpgpu_mem_address_mask m) of
       None \<Rightarrow> m
     | Some (s, b, r, c) \<Rightarrow>
         m\<lparr>ADDR_CHIP_S := s,
           addrdec_mask := (addrdec_mask m)(CHIP := 0, BK := b, ROW := r, COL := c)\<rparr>)"

text \<open>
  \<open>addrdec_parseoption\<close>. \<open>scan_decimal\<close> is the \<open>%d\<close> of \<open>sscanf\<close>: white space, an optional sign
  and at least one digit.
\<close>

definition is_digit :: "char \<Rightarrow> bool" where
  "is_digit c = (48 \<le> (of_char c :: nat) \<and> (of_char c :: nat) \<le> 57)"

definition digits_value :: "string \<Rightarrow> nat" where
  "digits_value ds = foldl (\<lambda>v d. 10 * v + (of_char d - of_char (CHR ''0''))) 0 ds"

definition scan_unsigned :: "string \<Rightarrow> nat option" where
  "scan_unsigned s = (case takeWhile is_digit s of [] \<Rightarrow> None | ds \<Rightarrow> Some (digits_value ds))"

definition is_space :: "char \<Rightarrow> bool" where
  "is_space c = (c \<in> {CHR '' '', CHR 0x09, CHR 0x0A, CHR 0x0B, CHR 0x0C, CHR 0x0D})"

definition scan_decimal :: "string \<Rightarrow> int option" where
  "scan_decimal s =
    (case dropWhile is_space s of
       [] \<Rightarrow> None
     | c # cs \<Rightarrow>
         if c = CHR ''-'' then map_option (\<lambda>v. - int v) (scan_unsigned cs)
         else if c = CHR ''+'' then map_option int (scan_unsigned cs)
         else map_option int (scan_unsigned (c # cs)))"

definition scan_dramid :: "string \<Rightarrow> int option" where
  "scan_dramid option =
    (if take 7 option = ''dramid@'' then scan_decimal (drop 7 option) else None)"

definition mapping_part :: "string \<Rightarrow> string" where
  "mapping_part option =
    (if CHR '';'' \<in> set option then tl (dropWhile (\<lambda>c. c \<noteq> CHR '';'') option) else option)"

definition or_bit :: "(field \<Rightarrow> u64) \<Rightarrow> field list \<Rightarrow> nat \<Rightarrow> field \<Rightarrow> u64" where
  "or_bit masks fs ofs = (\<lambda>f. if f \<in> set fs then masks f OR push_bit ofs 1 else masks f)"

text \<open>
  One character of the bit map: the fields whose mask gets the current bit. \<open>None\<close> for the
  separators and for the characters the source reports and skips, which do not consume a bit.
\<close>

definition map_char :: "char \<Rightarrow> field list option" where
  "map_char c =
    (if c = CHR ''D'' \<or> c = CHR ''d'' then Some [CHIP]
     else if c = CHR ''B'' \<or> c = CHR ''b'' then Some [BK]
     else if c = CHR ''R'' \<or> c = CHR ''r'' then Some [ROW]
     else if c = CHR ''C'' \<or> c = CHR ''c'' then Some [COL]
     else if c = CHR ''S'' \<or> c = CHR ''s'' then Some [BURST, COL]
     else if c = CHR ''0'' then Some []
     else None)"

fun parse_loop :: "bool \<Rightarrow> string \<Rightarrow> (field \<Rightarrow> u64) \<Rightarrow> int \<Rightarrow> ((field \<Rightarrow> u64) \<times> int) option" where
  "parse_loop dramid_parsed [] masks ofs = Some (masks, ofs)"
| "parse_loop dramid_parsed (c # cs) masks ofs =
    (case map_char c of
       None \<Rightarrow> parse_loop dramid_parsed cs masks ofs
     | Some fs \<Rightarrow> do {
         ensure (CHIP \<in> set fs \<longrightarrow> \<not> dramid_parsed);
         ensure (fs \<noteq> [] \<longrightarrow> 0 \<le> ofs);
         parse_loop dramid_parsed cs (or_bit masks fs (nat ofs)) (ofs - 1) })"

definition addrdec_parseoption :: "string \<Rightarrow> addr_map \<Rightarrow> addr_map option" where
  "addrdec_parseoption option m = do {
     let dramid = scan_dramid option;
     let s = (case dramid of Some v \<Rightarrow> of_int v | None \<Rightarrow> - 1);
     (masks, ofs) \<leftarrow> parse_loop (dramid \<noteq> None) (mapping_part option) (\<lambda>_. 0) 63;
     ensure (ofs = - 1);
     Some (m\<lparr>ADDR_CHIP_S := s, addrdec_mask := masks\<rparr>)
   }"

text \<open>
  A channel field of \<open>nchipbits\<close> bits is inserted at \<open>ADDR_CHIP_S\<close>: every mask is split there and
  its upper part moves up.
\<close>

definition open_gap :: "u64 \<Rightarrow> nat \<Rightarrow> nat \<Rightarrow> u64" where
  "open_gap msk s n =
     (let low = push_bit s 1 - 1 in push_bit n (msk AND NOT low) OR (msk AND low))"

fun or_bits :: "nat list \<Rightarrow> u64 \<Rightarrow> u64" where
  "or_bits [] msk = msk"
| "or_bits (i # is) msk = or_bits is (msk OR push_bit i 1)"

definition insert_chip_bits :: "nat \<Rightarrow> addr_map \<Rightarrow> addr_map option" where
  "insert_chip_bits nchipbits m =
    (if ADDR_CHIP_S m \<noteq> - 1 then
       (if gap m = 0 then do {
          let s = unat (ADDR_CHIP_S m);
          ensure (s < 64 \<and> s + nchipbits \<le> 64);
          let msk = addrdec_mask m;
          Some (m\<lparr>addrdec_mask := msk(
            BK := open_gap (msk BK) s nchipbits,
            ROW := open_gap (msk ROW) s nchipbits,
            COL := open_gap (msk COL) s nchipbits,
            CHIP := or_bits [s..<s + nchipbits] (msk CHIP))\<rparr>) }
        else Some m)
     else do {
       ensure (m_n_channel m AND (m_n_channel m - 1) = 0);
       Some m })"

definition set_limits :: "addr_map \<Rightarrow> addr_map" where
  "set_limits m =
     m\<lparr>addrdec_mkhigh := (\<lambda>f. fst (addrdec_getmasklimit (addrdec_mask m f))),
       addrdec_mklow := (\<lambda>f. snd (addrdec_getmasklimit (addrdec_mask m f)))\<rparr>"

text \<open>The lowest \<open>n\<close> bits of the bank mask select the sub-partition; the loop breaks after them.\<close>

fun sub_mask_loop :: "u64 \<Rightarrow> nat \<Rightarrow> nat list \<Rightarrow> nat \<Rightarrow> u64 \<Rightarrow> u64" where
  "sub_mask_loop bkmask n [] pos res = res"
| "sub_mask_loop bkmask n (i # is) pos res =
    (if bkmask AND push_bit i 1 \<noteq> 0
     then (if Suc pos \<ge> n then res OR push_bit i 1
           else sub_mask_loop bkmask n is (Suc pos) (res OR push_bit i 1))
     else sub_mask_loop bkmask n is pos res)"

definition set_sub_partition_mask :: "addr_map \<Rightarrow> addr_map" where
  "set_sub_partition_mask m =
     m\<lparr>sub_partition_id_mask :=
        (if 1 <s m_n_sub_partition_in_channel m
         then sub_mask_loop (addrdec_mask m BK) (unat (LOGB2_32 (m_n_sub_partition_in_channel m)))
                [addrdec_mklow m BK..<addrdec_mkhigh m BK] 0 0
         else 0)\<rparr>"

definition addr_map_init :: "u32 \<Rightarrow> u32 \<Rightarrow> addr_map \<Rightarrow> addr_map option" where
  "addr_map_init n_channel n_sub m = do {
     let nchipbits = LOGB2_32 n_channel;
     let m = m\<lparr>log2channel := nchipbits, log2sub_partition := LOGB2_32 n_sub,
               m_n_channel := n_channel, m_n_sub_partition_in_channel := n_sub,
               nextPowerOf2_m_n_channel := next_powerOf2 n_channel,
               m_n_sub_partition_total := n_channel * n_sub,
               gap := ucast (ucast n_channel - powli 2 (unat nchipbits))\<rparr>;
     let nchipbits = (if gap m \<noteq> 0 then unat nchipbits + 1 else unat nchipbits);
     let m = apply_preset m;
     m \<leftarrow> (case addrdec_option m of None \<Rightarrow> Some m | Some opt \<Rightarrow> addrdec_parseoption opt m);
     m \<leftarrow> insert_chip_bits nchipbits m;
     ensure (n_sub AND (n_sub - 1) = 0);
     Some (set_sub_partition_mask (set_limits m))
   }"

section \<open>The sweep test\<close>

text \<open>
  \<open>sweep_test\<close> decodes addresses one by one, remembers what it saw and aborts on an alias. The
  addresses come with the value \<open>rand()\<close> would return for them.
\<close>

fun sweep_loop ::
  "addr_map \<Rightarrow> (u64 \<times> u32) list \<Rightarrow> (addrdec \<rightharpoonup> u64) \<Rightarrow> (u64 \<rightharpoonup> u32) \<Rightarrow> unit option" where
  "sweep_loop m [] history table = Some ()"
| "sweep_loop m ((raw_addr, rnd) # rest) history table = do {
     (tlx, table) \<leftarrow> addrdec_tlx m table rnd raw_addr 0;
     ensure (history tlx = None);
     ensure (tlx_chip tlx < m_n_channel m);
     let s = (if ADDR_CHIP_S m \<noteq> - 1 then unat (ADDR_CHIP_S m) else addrdec_mklow m CHIP);
     ensure (s < 64);
     pa \<leftarrow> (if push_bit s 1 \<le> raw_addr then partition_address m raw_addr else Some (raw_addr + 1));
     ensure (raw_addr \<noteq> pa);
     sweep_loop m rest (history(tlx \<mapsto> raw_addr)) table }"

section \<open>Packing bits\<close>

text \<open>
  \<open>addrdec_packbits\<close> collects the selected bits of the value, lowest first: bit \<open>k\<close> of the result
  is the value's bit at the \<open>k\<close>-th selected position.
\<close>

declare push_bit_of_1 [simp del] push_bit_and [simp del] drop_bit_and [simp del]

definition selected :: "u64 \<Rightarrow> nat list \<Rightarrow> nat list" where
  "selected m is = filter (bit m) is"

lemma bit_one_shifted: "bit (push_bit i 1 :: 'a::len word) k = (k = i \<and> i < LENGTH('a))"
  by (auto simp: bit_push_bit_iff bit_1_iff)

lemma bit_word_eq_iff: "v = w \<longleftrightarrow> (\<forall>n < 64. bit v n = bit w n)" for v w :: u64
  by (auto intro: bit_word_eqI)

lemma and_push_bit_1: "(m AND push_bit i 1 \<noteq> 0) = bit m i" for m :: "'a::len word"
  by (metis and_exp_eq_0_iff_not_bit push_bit_of_1)

lemma pick_bit: "i < 64 \<Longrightarrow> drop_bit i (v AND push_bit i 1) = of_bool (bit v i)" for v :: u64
  by (rule bit_word_eqI) (auto simp: bit_drop_bit_eq bit_and_iff bit_one_shifted bit_1_iff intro!: gr0I)

lemma bit_picked:
  "i < 64 \<Longrightarrow> pos < 64 \<Longrightarrow>
   bit (push_bit pos (drop_bit i (v AND push_bit i 1))) k = (k = pos \<and> bit v i)" for v :: u64
  unfolding pick_bit by (auto simp: bit_push_bit_iff bit_1_iff)

lemma diff_eq_Suc: "k - pos = Suc j \<Longrightarrow> pos < k \<and> k - Suc pos = j"
  by auto

lemma bit_packbits_loop:
  assumes "\<forall>i \<in> set is. i < 64" "pos + length (selected m is) \<le> 64" "\<forall>k \<ge> pos. \<not> bit res k"
  shows "bit (packbits_loop m v is pos res) k =
    (if k < pos then bit res k
     else k - pos < length (selected m is) \<and> bit v (selected m is ! (k - pos)))"
  using assms
proof (induction m v "is" pos res arbitrary: k rule: packbits_loop.induct)
  case (1 m v pos result)
  then show ?case by (auto simp: selected_def)
next
  case (2 m v i "is" pos result)
  show ?case
  proof (cases "bit m i")
    case True
    let ?r = "result OR push_bit pos (drop_bit i (v AND push_bit i 1))"
    have r: "bit ?r k = (bit result k \<or> k = pos \<and> bit v i)" for k
      using 2(3,4) True bit_picked[of i pos v k]
      by (simp add: bit_or_iff selected_def)
    have "bit (packbits_loop m v (i # is) pos result) k =
        bit (packbits_loop m v is (Suc pos) ?r) k"
      using True by (simp add: and_push_bit_1)
    also have "\<dots> = (if k < Suc pos then bit ?r k
      else k - Suc pos < length (selected m is) \<and> bit v (selected m is ! (k - Suc pos)))"
      by (rule 2(1)) (use 2(3-5) True in \<open>auto simp: and_push_bit_1 selected_def r\<close>)
    finally show ?thesis
      using True 2(5) r[of k] by (cases "k - pos") (auto simp: selected_def less_Suc_eq Suc_diff_Suc dest!: diff_eq_Suc)
  next
    case False
    then show ?thesis using 2 by (auto simp: and_push_bit_1 selected_def)
  qed
qed

lemma length_selected: "length (selected m [lo..<hi]) \<le> hi - lo"
  unfolding selected_def by (metis length_filter_le length_upt)

lemma bit_packbits:
  assumes "hi \<le> 64"
  shows "bit (addrdec_packbits m v hi lo) k =
    (k < length (selected m [lo..<hi]) \<and> bit v (selected m [lo..<hi] ! k))"
  unfolding addrdec_packbits_def
  by (subst bit_packbits_loop) (use assms length_selected[of m lo hi] in \<open>auto\<close>)

lemma set_selected: "set (selected m [lo..<hi]) = {i. lo \<le> i \<and> i < hi \<and> bit m i}"
  by (auto simp: selected_def)

text \<open>Two values pack alike exactly when they agree on every selected bit.\<close>

lemma packbits_eq_iff:
  assumes "hi \<le> 64"
  shows "addrdec_packbits m v hi lo = addrdec_packbits m w hi lo \<longleftrightarrow>
    (\<forall>i. lo \<le> i \<and> i < hi \<and> bit m i \<longrightarrow> bit v i = bit w i)"
proof -
  let ?s = "selected m [lo..<hi]"
  have "addrdec_packbits m v hi lo = addrdec_packbits m w hi lo \<longleftrightarrow>
      (\<forall>k < length ?s. bit v (?s ! k) = bit w (?s ! k))"
    unfolding bit_word_eq_iff bit_packbits[OF assms]
    using length_selected[of m lo hi] assms by (metis diff_le_self le_trans less_le_trans)
  also have "\<dots> \<longleftrightarrow> (\<forall>i \<in> set ?s. bit v i = bit w i)"
    by (metis in_set_conv_nth)
  finally show ?thesis by (auto simp: set_selected)
qed

lemma packbits_lt:
  assumes "hi \<le> 64" "length (selected m [lo..<hi]) \<le> n"
  shows "take_bit n (addrdec_packbits m v hi lo) = addrdec_packbits m v hi lo"
  by (rule bit_word_eqI) (use assms in \<open>auto simp: bit_take_bit_iff bit_packbits\<close>)

section \<open>Mask limits\<close>

lemma masklimit_loop_append:
  "masklimit_loop m (xs @ ys) s = masklimit_loop m ys (masklimit_loop m xs s)"
  by (induction m xs s rule: masklimit_loop.induct) auto

definition limits_upto :: "u64 \<Rightarrow> nat \<Rightarrow> nat \<times> nat \<times> bool \<Rightarrow> bool" where
  "limits_upto m n = (\<lambda>(high, low, found).
     if found then low < high \<and> high \<le> n \<and> bit m low \<and> bit m (high - 1) \<and>
       (\<forall>i < n. bit m i \<longrightarrow> low \<le> i \<and> i < high)
     else high = 64 \<and> low = 0 \<and> (\<forall>i < n. \<not> bit m i))"

lemma limits_upto_loop: "limits_upto m n (masklimit_loop m [0..<n] (64, 0, False))"
proof (induction n)
  case 0
  then show ?case by (simp add: limits_upto_def)
next
  case (Suc n)
  obtain h l f where eq: "masklimit_loop m [0..<n] (64, 0, False) = (h, l, f)"
    by (cases "masklimit_loop m [0..<n] (64, 0, False)") auto
  show ?case
    using Suc unfolding eq upt_Suc_append[OF le0] masklimit_loop_append
    by (auto simp: limits_upto_def and_push_bit_1 less_Suc_eq split: if_splits)
qed

lemma getmasklimit_bounds:
  assumes "addrdec_getmasklimit m = (high, low)"
  shows "bit m i \<Longrightarrow> low \<le> i \<and> i < high" "high \<le> 64"
    "m \<noteq> 0 \<Longrightarrow> bit m low \<and> bit m (high - 1) \<and> low < high"
proof -
  obtain f where eq: "masklimit_loop m [0..<64] (64, 0, False) = (high, low, f)"
    using assms unfolding addrdec_getmasklimit_def
    by (cases "masklimit_loop m [0..<64] (64, 0, False)") auto
  have L: "limits_upto m 64 (high, low, f)"
    using limits_upto_loop[of m 64] eq by simp
  have lt: "bit m i \<Longrightarrow> i < 64" for i using bit_imp_le_length[of m i] by simp
  show "bit m i \<Longrightarrow> low \<le> i \<and> i < high" using L lt[of i] by (auto simp: limits_upto_def split: if_splits)
  show "high \<le> 64" using L by (auto simp: limits_upto_def split: if_splits)
  show "m \<noteq> 0 \<Longrightarrow> bit m low \<and> bit m (high - 1) \<and> low < high"
    using L lt by (auto simp: limits_upto_def bit_word_eq_iff split: if_splits)
qed

lemma getmasklimit_0: "addrdec_getmasklimit 0 = (64, 0)"
  using limits_upto_loop[of 0 64]
  by (auto simp: limits_upto_def addrdec_getmasklimit_def split: prod.splits if_splits)

section \<open>Powers of two\<close>

lemma LOGB2_32_eq: "LOGB2_32 v = LOGB2 v"
proof -
  have step: "LOGB2_step m k (v, r) = (drop_bit (if v AND m \<noteq> 0 then 2 ^ k else 0) v,
      r OR of_nat (if v AND m \<noteq> 0 then 2 ^ k else 0))" for m k v r
    by (simp add: LOGB2_step_def Let_def)
  have pow: "(2::nat) ^ 4 = 16" "(2::nat) ^ 3 = 8" "(2::nat) ^ 2 = 4" "(2::nat) ^ 1 = 2" "(2::nat) ^ 0 = 1"
    by simp_all
  show ?thesis
    unfolding LOGB2_def step pow snd_conv LOGB2_32_def Let_def by (rule refl)
qed

lemma clear_low_bits_step:
  "n AND (n - 1) \<noteq> 0 \<Longrightarrow> clear_low_bits n = clear_low_bits (n AND (n - 1))"
  "n AND (n - 1) = 0 \<Longrightarrow> clear_low_bits n = n"
  by (subst clear_low_bits.simps; simp)+

lemma bit_unat: "bit (unat n) k = bit n k" for n :: u32
  by (auto simp: bit_unsigned_iff dest: bit_imp_le_length)

lemma top_bit:
  fixes n :: u32
  assumes "2 ^ k \<le> unat n" "unat n < 2 ^ Suc k"
  shows "bit n k"
proof -
  have "unat n div 2 ^ k = 1" using assms by (auto intro!: div_nat_eqI)
  then show ?thesis by (simp add: bit_unat[symmetric] bit_iff_odd)
qed

lemma bit_imp_ge: "bit n k \<Longrightarrow> 2 ^ k \<le> unat n" for n :: u32
  by (simp add: bit_unat[symmetric] bit_iff_odd)
     (metis div_less even_zero not_less)

lemma clear_low_bits_power:
  "2 ^ k \<le> unat n \<Longrightarrow> unat n < 2 ^ Suc k \<Longrightarrow> clear_low_bits n = 2 ^ k"
proof (induction n rule: clear_low_bits.induct)
  case (1 n)
  have k: "k < 32"
  proof (rule ccontr)
    assume "\<not> k < 32"
    then have "(2::nat) ^ 32 \<le> 2 ^ k" by (intro power_increasing) auto
    moreover have "unat n < 2 ^ 32" by (rule order.strict_trans2[OF unsigned_less]) simp
    ultimately show False using 1(2) by linarith
  qed
  have up: "unat ((2::u32) ^ k) = 2 ^ k" by (rule unat_pow2[OF k])
  have nz: "0 < unat n" using 1(2) by (metis zero_less_numeral zero_less_power less_le_trans)
  show ?case
  proof (cases "n = 2 ^ k")
    case True
    have "n AND (n - 1) = 0"
      unfolding True by (rule bit_word_eqI)
        (auto simp: bit_and_iff bit_exp_iff mask_eq_exp_minus_1[symmetric] bit_mask_iff)
    then show ?thesis using True by (simp add: clear_low_bits_step)
  next
    case False
    then have "unat n \<noteq> 2 ^ k" using up by (metis word_unat_eq_iff)
    moreover have pred: "unat (n - 1) = unat n - 1" using nz by (intro unat_minus_one) auto
    ultimately have "bit (n - 1) k" using 1(2,3) by (intro top_bit) auto
    then have b: "bit (n AND (n - 1)) k" using top_bit[OF 1(2,3)] by (simp add: bit_and_iff)
    then have ne: "n AND (n - 1) \<noteq> 0" by (metis bit_0_eq bot_apply bot_bool_def)
    have "clear_low_bits (n AND (n - 1)) = 2 ^ k"
      by (rule 1(1)[OF ne bit_imp_ge[OF b]]) (use and_pred_less[OF ne] 1(3) in simp)
    then show ?thesis using ne by (simp add: clear_low_bits_step)
  qed
qed

lemma next_powerOf2_eq:
  assumes "1 < n"
  shows "next_powerOf2 n = 2 ^ Suc (unat (LOGB2 (n - 1)))"
    "2 ^ unat (LOGB2 (n - 1)) < unat n" "unat n \<le> 2 ^ Suc (unat (LOGB2 (n - 1)))"
proof -
  have "n \<noteq> 0" "n - 1 \<noteq> 0" using assms by auto
  then have pred: "unat (n - 1) = unat n - 1" and nz: "0 < unat n" "n - 1 \<noteq> 0"
    by (simp_all add: unat_minus_one unat_gt_0)
  note B = LOGB2_bounds[OF nz(2)]
  show "2 ^ unat (LOGB2 (n - 1)) < unat n" "unat n \<le> 2 ^ Suc (unat (LOGB2 (n - 1)))"
    using B pred nz(1) by auto
  show "next_powerOf2 n = 2 ^ Suc (unat (LOGB2 (n - 1)))"
    using B by (simp add: next_powerOf2_def clear_low_bits_power[of "unat (LOGB2 (n - 1))"] push_bit_eq_mult)
qed

lemma power_of_two_log:
  assumes "n AND (n - 1) = 0" "n \<noteq> 0"
  shows "n = 2 ^ unat (LOGB2_32 n)"
  using clear_low_bits_step(2)[OF assms(1)] clear_low_bits_power[of "unat (LOGB2 n)" n]
    LOGB2_bounds[OF assms(2)] by (simp add: LOGB2_32_eq)

lemma next_powerOf2_power:
  assumes "n AND (n - 1) = 0" "1 < n"
  shows "next_powerOf2 n = n"
proof -
  let ?c = "unat (LOGB2_32 n)" let ?d = "unat (LOGB2 (n - 1))"
  have "n \<noteq> 0" using assms(2) by auto
  then have n: "n = 2 ^ ?c" using power_of_two_log[OF assms(1)] by blast
  have "unat n = 2 ^ ?c" using n unat_pow2[of ?c] LOGB2_lt_32[of n] by (simp add: LOGB2_32_eq)
  then have "(2::nat) ^ ?d < 2 ^ ?c" "(2::nat) ^ ?c \<le> 2 ^ Suc ?d"
    using next_powerOf2_eq(2,3)[OF assms(2)] by metis+
  then have "?c = Suc ?d"
    by (metis One_nat_def le_antisym less_eq_Suc_le one_less_numeral_iff power_increasing_iff
        power_strict_increasing_iff semiring_norm(76))
  then show ?thesis using next_powerOf2_eq(1)[OF assms(2)] n by metis
qed

section \<open>Decoding does not alias\<close>

text \<open>
  What makes a decoder usable for addresses below \<open>2^w\<close>: every address bit belongs to a field, no
  field is wider than its 32-bit result, and the bits the hash functions use as \<open>higher_bits\<close> are
  not channel bits. With a number of channels that is not a power of two (\<open>gap\<close>) the channel is a
  remainder, and the other fields must cover the quotient.
\<close>

definition mask_bits :: "u64 \<Rightarrow> nat set" where
  "mask_bits m = {i. bit m i}"

definition high_shift :: "addr_map \<Rightarrow> nat" where
  "high_shift m = unat (ADDR_CHIP_S m + (log2channel m + log2sub_partition m))"

definition narrow_masks :: "addr_map \<Rightarrow> bool" where
  "narrow_masks m = (\<forall>f. card (mask_bits (addrdec_mask m f)) \<le> 32)"

definition covers :: "addr_map \<Rightarrow> nat \<Rightarrow> bool" where
  "covers m w =
     (if gap m = 0
      then (\<forall>i < w. \<exists>f. bit (addrdec_mask m f) i) \<and>
           (\<forall>i < w. high_shift m \<le> i \<longrightarrow> (\<exists>f. f \<noteq> CHIP \<and> bit (addrdec_mask m f) i))
      else (\<forall>i < w. \<exists>f. f \<noteq> CHIP \<and> bit (addrdec_mask m f) i))"

definition limits_set :: "addr_map \<Rightarrow> bool" where
  "limits_set m = (set_limits m = m)"

lemma set_limits_set [simp]: "limits_set (set_limits m)"
  by (simp add: limits_set_def set_limits_def)

lemma limits_setD:
  assumes "limits_set m"
  shows "addrdec_mkhigh m f \<le> 64"
    "bit (addrdec_mask m f) i \<Longrightarrow> addrdec_mklow m f \<le> i \<and> i < addrdec_mkhigh m f"
proof -
  have eq: "addrdec_getmasklimit (addrdec_mask m f) = (addrdec_mkhigh m f, addrdec_mklow m f)"
    using assms unfolding limits_set_def set_limits_def
    by (metis (no_types, lifting) addr_map.select_convs addr_map.update_convs prod.collapse
        addr_map.surjective addr_map.iffs)
  show "addrdec_mkhigh m f \<le> 64" using getmasklimit_bounds(2)[OF eq] .
  show "bit (addrdec_mask m f) i \<Longrightarrow> addrdec_mklow m f \<le> i \<and> i < addrdec_mkhigh m f"
    using getmasklimit_bounds(1)[OF eq] .
qed

lemma finite_mask_bits: "finite (mask_bits m)"
  by (rule finite_subset[of _ "{..<64}"]) (auto simp: mask_bits_def dest: bit_imp_le_length)

lemma length_selected_card: "length (selected m [lo..<hi]) \<le> card (mask_bits m)"
proof -
  have "length (selected m [lo..<hi]) = card (set (selected m [lo..<hi]))"
    by (rule distinct_card[symmetric]) (simp add: selected_def)
  also have "\<dots> \<le> card (mask_bits m)"
    by (rule card_mono[OF finite_mask_bits]) (auto simp: set_selected mask_bits_def)
  finally show ?thesis .
qed

lemma unpack_field_inj:
  assumes "limits_set m" "narrow_masks m" "unpack_field m f a = unpack_field m f b"
    "bit (addrdec_mask m f) i"
  shows "bit a i = bit b i"
proof -
  let ?m = "addrdec_mask m f" let ?h = "addrdec_mkhigh m f" let ?l = "addrdec_mklow m f"
  note lim = limits_setD[OF assms(1), of f]
  have "length (selected ?m [?l..<?h]) \<le> card (mask_bits ?m)" by (rule length_selected_card)
  also have "\<dots> \<le> 32" using assms(2) by (simp add: narrow_masks_def)
  finally have len: "length (selected ?m [?l..<?h]) \<le> 32" .
  have "take_bit 32 (addrdec_packbits ?m a ?h ?l) = take_bit 32 (addrdec_packbits ?m b ?h ?l)"
  proof (rule bit_word_eqI)
    fix n
    have "bit (unpack_field m f a) n = bit (unpack_field m f b) n" using assms(3) by simp
    then show "bit (take_bit 32 (addrdec_packbits ?m a ?h ?l)) n =
        bit (take_bit 32 (addrdec_packbits ?m b ?h ?l)) n"
      by (auto simp: unpack_field_def bit_ucast_iff bit_take_bit_iff)
  qed
  then have "addrdec_packbits ?m a ?h ?l = addrdec_packbits ?m b ?h ?l"
    by (simp add: packbits_lt[OF lim(1) len])
  then show ?thesis
    using packbits_eq_iff[OF lim(1)] lim(2)[OF assms(4)] assms(4) by blast
qed

text \<open>The address \<open>addrdec_tlx\<close> takes the fields from when there is a gap.\<close>

definition rest_of_addr :: "addr_map \<Rightarrow> u64 \<Rightarrow> u64" where
  "rest_of_addr m a = (let s = unat (ADDR_CHIP_S m) in
     push_bit s (drop_bit s a div ucast (m_n_channel m)) OR (a AND (push_bit s 1 - 1)))"

lemma bit_low_ones: "s < 64 \<Longrightarrow> bit (push_bit s 1 - 1 :: u64) i = (i < s)"
  by (auto simp: push_bit_of_1 mask_eq_exp_minus_1[symmetric] bit_mask_iff)

lemma bit_imp_ge64: "bit n k \<Longrightarrow> 2 ^ k \<le> unat n" for n :: u64
proof -
  assume "bit n k"
  then have "bit (unat n) k" by (auto simp: bit_unsigned_iff dest: bit_imp_le_length)
  then show ?thesis by (simp add: bit_iff_odd) (metis div_less even_zero not_less)
qed

lemma bit_quotient:
  assumes "bit (drop_bit s a div n) k" "unat (a :: u64) < 2 ^ w"
  shows "k + s < w"
proof -
  have "2 ^ k \<le> unat (drop_bit s a div n)" using assms(1) by (rule bit_imp_ge64)
  also have "\<dots> \<le> unat a div 2 ^ s"
    by (simp add: unat_div_distrib unat_drop_bit_eq flip: drop_bit_eq_div)
  finally have "2 ^ k * 2 ^ s \<le> unat a"
    by (metis div_times_less_eq_dividend le_trans mult_le_mono1)
  then show ?thesis
    using assms(2) by (metis le_less_trans power_add power_less_imp_less_exp one_less_numeral_iff semiring_norm(76))
qed

lemma bit_rest:
  assumes "unat (ADDR_CHIP_S m) < 31"
  shows "bit (rest_of_addr m a) i =
    (if i < unat (ADDR_CHIP_S m) then bit a i
     else i < 64 \<and> bit (drop_bit (unat (ADDR_CHIP_S m)) a div ucast (m_n_channel m)) (i - unat (ADDR_CHIP_S m)))"
  using assms
  by (auto simp: rest_of_addr_def Let_def bit_or_iff bit_and_iff bit_push_bit_iff bit_low_ones
      dest: bit_imp_le_length)

lemma rest_quotient:
  assumes s: "unat (ADDR_CHIP_S m) < 31" and rest: "rest_of_addr m a = rest_of_addr m b"
  shows "drop_bit (unat (ADDR_CHIP_S m)) a div ucast (m_n_channel m) =
    drop_bit (unat (ADDR_CHIP_S m)) b div ucast (m_n_channel m)" (is "?qa = ?qb")
proof (rule bit_word_eqI)
  fix k
  let ?s = "unat (ADDR_CHIP_S m)"
  have "bit ?qa k = bit (rest_of_addr m a) (k + ?s)" and "bit ?qb k = bit (rest_of_addr m b) (k + ?s)"
    using bit_quotient[of ?s _ "ucast (m_n_channel m)" k 64] u64_lt by (auto simp: bit_rest[OF s])
  then show "bit ?qa k = bit ?qb k" using rest by simp
qed

lemma rest_inj:
  assumes s: "unat (ADDR_CHIP_S m) < 31" and n: "m_n_channel m \<noteq> 0"
    and rest: "rest_of_addr m a = rest_of_addr m b"
    and chip: "(ucast (drop_bit (unat (ADDR_CHIP_S m)) a mod ucast (m_n_channel m)) :: u32) =
      ucast (drop_bit (unat (ADDR_CHIP_S m)) b mod ucast (m_n_channel m))"
  shows "a = b"
proof -
  let ?s = "unat (ADDR_CHIP_S m)" let ?n = "ucast (m_n_channel m) :: u64"
  have low: "bit a i = bit b i" if "i < ?s" for i
    using rest bit_rest[OF s, of _ i] that by metis
  note q = rest_quotient[OF s rest]
  have n64: "unat ?n = unat (m_n_channel m)" using u32_lt[of "m_n_channel m"] by (simp add: unsigned_ucast_eq take_bit_eq_mod)
  have lt: "unat (x mod ?n) < 2 ^ 32" for x :: u64
    using n u32_lt[of "m_n_channel m"]
    by (simp add: unat_mod_distrib n64) (meson less_trans mod_less_divisor unat_gt_0)
  have r: "drop_bit ?s a mod ?n = drop_bit ?s b mod ?n"
    using arg_cong[OF chip, of unat] lt[of "drop_bit ?s a"] lt[of "drop_bit ?s b"]
    by (simp add: unsigned_ucast_eq take_bit_eq_mod word_unat_eq_iff)
  have "drop_bit ?s a = drop_bit ?s b"
    using q r by (metis div_mult_mod_eq)
  then have "bit a (?s + k) = bit b (?s + k)" for k by (metis bit_drop_bit_eq comp_apply)
  then show "a = b" using low by (intro bit_word_eqI) (metis le_add_diff_inverse not_less)
qed

text \<open>
  The two steps of the argument: alike fields agree on every address bit outside the channel
  field, and the hashed channel can be undone because the bits it was hashed with are among these.
\<close>

definition hash_ready :: "addr_map \<Rightarrow> bool" where
  "hash_ready m =
     (gap m = 0 \<and> nextPowerOf2_m_n_channel m = m_n_channel m \<and>
      m_n_sub_partition_in_channel m \<noteq> 0 \<and>
      unat (m_n_channel m) = 2 ^ card (mask_bits (addrdec_mask m CHIP)) \<and>
      unat (m_n_channel m) * unat (m_n_sub_partition_in_channel m) \<le> 64)"

definition decoder_ok :: "addr_map \<Rightarrow> nat \<Rightarrow> bool" where
  "decoder_ok m w =
     (limits_set m \<and> narrow_masks m \<and> covers m w \<and>
      memory_partition_indexing m \<noteq> RANDOM \<and>
      (memory_partition_indexing m = IPOLY \<longrightarrow> hash_ready m))"

lemma below_bit: "unat (a :: u64) < 2 ^ w \<Longrightarrow> bit a i \<Longrightarrow> i < w"
  using bit_quotient[of 0 a 1 i w] by simp

lemma fields_agree:
  assumes "limits_set m" "narrow_masks m" "bit (addrdec_mask m f) i" "f \<noteq> CHIP"
    and "unpack_field m BK a = unpack_field m BK b" "unpack_field m ROW a = unpack_field m ROW b"
    and "unpack_field m COL a = unpack_field m COL b"
    and "unpack_field m BURST a = unpack_field m BURST b"
  shows "bit a i = bit b i"
proof -
  have "unpack_field m f a = unpack_field m f b" using assms(4-) by (cases f) auto
  then show ?thesis using unpack_field_inj assms(1-3) by blast
qed

definition same_place :: "addrdec \<Rightarrow> addrdec \<Rightarrow> bool" where
  "same_place x y = (tlx_bk x = tlx_bk y \<and> tlx_row x = tlx_row y \<and> tlx_col x = tlx_col y \<and>
     tlx_burst x = tlx_burst y)"

lemma nogap_agree:
  assumes ok: "limits_set m" "narrow_masks m" "covers m w" and g: "gap m = 0"
    and a: "unat a < 2 ^ w" and b: "unat b < 2 ^ w"
    and ya: "tlx_fields m a sp = Some (y, h)" and yb: "tlx_fields m b sp' = Some (y', h')"
    and same: "same_place y y'"
  shows "h = h'" "tlx_chip y = tlx_chip y' \<Longrightarrow> a = b"
proof -
  have un: "unpack_field m BK a = unpack_field m BK b" "unpack_field m ROW a = unpack_field m ROW b"
    "unpack_field m COL a = unpack_field m COL b" "unpack_field m BURST a = unpack_field m BURST b"
    using ya yb same g by (auto simp: tlx_fields_def same_place_def Let_def)
  have high: "bit a i = bit b i" if "\<not> i < w" for i
    using that below_bit[OF a] below_bit[OF b] by blast
  have "bit a i = bit b i" if "high_shift m \<le> i" for i
    using ok(3) g that fields_agree[OF ok(1,2) _ _ un] high
    by (cases "i < w") (auto simp: covers_def)
  then have "drop_bit (high_shift m) a = drop_bit (high_shift m) b"
    by (intro bit_word_eqI) (simp add: bit_drop_bit_eq)
  then show "h = h'" using ya yb g by (auto simp: tlx_fields_def high_shift_def Let_def)
  assume "tlx_chip y = tlx_chip y'"
  then have ch: "unpack_field m CHIP a = unpack_field m CHIP b"
    using ya yb g by (auto simp: tlx_fields_def Let_def)
  show "a = b"
  proof (rule bit_word_eqI)
    fix i
    obtain f where "i < w \<Longrightarrow> bit (addrdec_mask m f) i" using ok(3) g by (auto simp: covers_def)
    then show "bit a i = bit b i"
      using unpack_field_inj[OF ok(1,2) ch] fields_agree[OF ok(1,2) _ _ un] high
      by (cases "f = CHIP"; cases "i < w") auto
  qed
qed

lemma gap_agree:
  assumes ok: "limits_set m" "narrow_masks m" "covers m w" and g: "gap m \<noteq> 0"
    and a: "unat a < 2 ^ w" and b: "unat b < 2 ^ w"
    and ya: "tlx_fields m a sp = Some (y, h)" and yb: "tlx_fields m b sp' = Some (y', h')"
    and same: "same_place y y'"
  shows "h = h'" "tlx_chip y = tlx_chip y' \<Longrightarrow> a = b"
proof -
  let ?s = "unat (ADDR_CHIP_S m)"
  have s: "?s < 31" and n: "m_n_channel m \<noteq> 0"
    using ya g by (auto simp: tlx_fields_def Let_def bind_Some_iff)
  have un: "unpack_field m BK (rest_of_addr m a) = unpack_field m BK (rest_of_addr m b)"
    "unpack_field m ROW (rest_of_addr m a) = unpack_field m ROW (rest_of_addr m b)"
    "unpack_field m COL (rest_of_addr m a) = unpack_field m COL (rest_of_addr m b)"
    "unpack_field m BURST (rest_of_addr m a) = unpack_field m BURST (rest_of_addr m b)"
    using ya yb same g
    by (auto simp: tlx_fields_def same_place_def Let_def rest_of_addr_def bind_Some_iff)
  have below: "bit (rest_of_addr m x) i \<Longrightarrow> i < w" if "unat x < 2 ^ w" for x i
    using bit_quotient[of ?s x "ucast (m_n_channel m)" "i - ?s" w] below_bit[OF that] that
    by (auto simp: bit_rest[OF s] split: if_splits)
  have rest: "rest_of_addr m a = rest_of_addr m b"
  proof (rule bit_word_eqI)
    fix i
    obtain f where "i < w \<Longrightarrow> f \<noteq> CHIP \<and> bit (addrdec_mask m f) i"
      using ok(3) g by (auto simp: covers_def)
    then show "bit (rest_of_addr m a) i = bit (rest_of_addr m b) i"
      using fields_agree[OF ok(1,2) _ _ un] below[OF a] below[OF b]
      by (cases "i < w") auto
  qed
  show "h = h'"
    using ya yb g rest_quotient[OF s rest] by (auto simp: tlx_fields_def Let_def bind_Some_iff)
  show "tlx_chip y = tlx_chip y' \<Longrightarrow> a = b"
    using ya yb g rest_inj[OF s n rest] by (auto simp: tlx_fields_def Let_def bind_Some_iff)
qed

lemma fields_determine:
  assumes "limits_set m" "narrow_masks m" "covers m w"
    and "unat a < 2 ^ w" "unat b < 2 ^ w"
    and "tlx_fields m a sp = Some (y, h)" "tlx_fields m b sp' = Some (y', h')"
    and "same_place y y'"
  shows "h = h'" "tlx_chip y = tlx_chip y' \<Longrightarrow> a = b"
  using nogap_agree[OF assms(1-3) _ assms(4-)] gap_agree[OF assms(1-3) _ assms(4-)] by blast+

lemma ipoly_hash_inj:
  assumes "ipoly_hash_function h i n = Some z" "ipoly_hash_function h j n = Some z"
    and "unat i < unat n" "unat j < unat n"
  shows "i = j"
proof -
  have n: "n = 16 \<or> n = 32 \<or> n = 64" using assms(1) by (auto simp: ipoly_hash_function_def split: if_splits)
  have eq: "the (ipoly_hash_function h i n) = the (ipoly_hash_function h j n)" using assms by simp
  show ?thesis
    using n eq assms(3,4) ipoly16.hash_inj ipoly32.hash_inj ipoly64.hash_inj
    by (elim disjE) (auto simp: unat_numeral)
qed

lemma unat_and_pred: "n \<noteq> 0 \<Longrightarrow> unat (x AND (n - 1)) < unat n" for n x :: u32
proof -
  assume n: "n \<noteq> 0"
  have "unat (x AND (n - 1)) \<le> unat (n - 1)"
    by (metis word_and_le1 word_le_nat_alt)
  also have "\<dots> < unat n" using n by (simp add: unat_minus_one unat_gt_0)
  finally show ?thesis .
qed

lemma sub_index:
  fixes c n n' x :: u32
  assumes "unat c < unat n" "n' \<noteq> 0" "unat n * unat n' \<le> (64::nat)"
  shows "unat (c * n' + (x AND (n' - 1))) = unat c * unat n' + unat (x AND (n' - 1))"
    "unat c * unat n' + unat (x AND (n' - 1)) < unat n * unat n'"
proof -
  have r: "unat (x AND (n' - 1)) < unat n'" by (rule unat_and_pred[OF assms(2)])
  have "Suc (unat c) * unat n' \<le> unat n * unat n'" using assms(1) by (intro mult_le_mono1) simp
  then show lt: "unat c * unat n' + unat (x AND (n' - 1)) < unat n * unat n'" using r by simp
  have "unat c * unat n' < 2 ^ 32" "unat c * unat n' + unat (x AND (n' - 1)) < 2 ^ 32"
    using lt assms(3) by simp_all
  then show "unat (c * n' + (x AND (n' - 1))) = unat c * unat n' + unat (x AND (n' - 1))"
    by (simp add: unat_word_ariths)
qed

lemma ipoly_place_inj:
  assumes c: "unat c < unat n" "unat c' < unat n" and n: "n' \<noteq> 0" "unat n * unat n' \<le> (64::nat)"
    and "ipoly_hash_function h (c * n' + (x AND (n' - 1))) (n * n') = Some z"
    and "ipoly_hash_function h (c' * n' + (x AND (n' - 1))) (n * n') = Some z"
  shows "c = c'"
proof -
  have "unat (n * n') = unat n * unat n'" using n(2) by (simp add: unat_word_ariths)
  then have "c * n' + (x AND (n' - 1)) = c' * n' + (x AND (n' - 1))"
    using sub_index[OF c(1) n] sub_index[OF c(2) n] by (intro ipoly_hash_inj[OF assms(5,6)]) simp_all
  then have "unat c * unat n' = unat c' * unat n'"
    using sub_index(1)[OF c(1) n, of x] sub_index(1)[OF c(2) n, of x] by (metis add_right_cancel)
  moreover have "unat n' \<noteq> 0" using n(1) by (simp add: unat_eq_0)
  ultimately show ?thesis by (metis mult_right_cancel word_unat_eq_iff)
qed

lemma chip_lt:
  assumes "limits_set m" "hash_ready m" "tlx_fields m a sp = Some (y, h)"
  shows "unat (tlx_chip y) < unat (m_n_channel m)"
proof -
  let ?m = "addrdec_mask m CHIP" let ?h = "addrdec_mkhigh m CHIP" let ?l = "addrdec_mklow m CHIP"
  note lim = limits_setD[OF assms(1), of CHIP]
  have "length (selected ?m [?l..<?h]) \<le> card (mask_bits ?m)" by (rule length_selected_card)
  then have "take_bit (card (mask_bits ?m)) (addrdec_packbits ?m a ?h ?l) = addrdec_packbits ?m a ?h ?l"
    by (rule packbits_lt[OF lim(1)])
  then have "take_bit (card (mask_bits ?m)) (unpack_field m CHIP a) = unpack_field m CHIP a"
    unfolding unpack_field_def by (intro bit_word_eqI) (metis bit_take_bit_iff bit_ucast_iff)
  then have "unat (unpack_field m CHIP a) < 2 ^ card (mask_bits ?m)" by (simp add: unat_lt_pow2_iff)
  then show ?thesis using assms(2,3) by (auto simp: hash_ready_def tlx_fields_def Let_def)
qed

text \<open>How the channel of the result comes from the fields and the upper bits.\<close>

definition chip_from :: "addr_map \<Rightarrow> addrdec \<Rightarrow> u64 option \<Rightarrow> addrdec \<Rightarrow> bool" where
  "chip_from m y h x =
     (case memory_partition_indexing m of
        CONSECUTIVE \<Rightarrow> tlx_chip x = tlx_chip y
      | CUSTOM \<Rightarrow> tlx_chip x = tlx_chip y
      | BITWISE_PERMUTATION \<Rightarrow>
          tlx_chip x = bitwise_hash_function (the h) (tlx_chip y) (m_n_channel m)
      | IPOLY \<Rightarrow> gap m = 0 \<longrightarrow>
          ipoly_hash_function (the h)
            (tlx_chip y * m_n_sub_partition_in_channel m +
              (tlx_bk y AND (m_n_sub_partition_in_channel m - 1)))
            (nextPowerOf2_m_n_channel m * m_n_sub_partition_in_channel m) = Some (tlx_sub_partition x)
      | _ \<Rightarrow> False)"

lemma decode_parts:
  assumes "addrdec_tlx m t r a sp = Some (x, t')" "memory_partition_indexing m \<noteq> RANDOM"
  obtains y h where "tlx_fields m a sp = Some (y, h)" "same_place x y" "chip_from m y h x"
proof -
  obtain y h where y: "tlx_fields m a sp = Some (y, h)"
    using assms(1) by (auto simp: addrdec_tlx_def bind_Some_iff)
  have "same_place x y \<and> chip_from m y h x"
    using assms y
    by (cases "memory_partition_indexing m")
       (auto simp: addrdec_tlx_def bind_Some_iff same_place_def chip_from_def
          set_sub_partition_def place_in_sub_partition_def Let_def)
  then show ?thesis using that y by blast
qed

theorem addrdec_tlx_injective:
  assumes "decoder_ok m w" and a: "unat a < 2 ^ w" and b: "unat b < 2 ^ w"
    and xa: "addrdec_tlx m t r a sp = Some (x, t1)" and xb: "addrdec_tlx m t' r' b sp' = Some (x, t2)"
  shows "a = b"
proof -
  have ok: "limits_set m" "narrow_masks m" "covers m w" "memory_partition_indexing m \<noteq> RANDOM"
    and hr: "memory_partition_indexing m = IPOLY \<Longrightarrow> hash_ready m"
    using assms(1) by (auto simp: decoder_ok_def)
  obtain y h where y: "tlx_fields m a sp = Some (y, h)" "same_place x y" "chip_from m y h x"
    by (rule decode_parts[OF xa ok(4)])
  obtain z k where z: "tlx_fields m b sp' = Some (z, k)" "same_place x z" "chip_from m z k x"
    by (rule decode_parts[OF xb ok(4)])
  have same: "same_place y z" using y(2) z(2) by (auto simp: same_place_def)
  have hk: "h = k" by (rule fields_determine(1)[OF ok(1-3) a b y(1) z(1) same])
  have "tlx_chip y = tlx_chip z"
  proof (cases "memory_partition_indexing m = IPOLY")
    case True
    note h = hr[OF True]
    have "tlx_bk y = tlx_bk z" using same by (simp add: same_place_def)
    moreover have "gap m = 0" "m_n_sub_partition_in_channel m \<noteq> 0"
      "unat (m_n_channel m) * unat (m_n_sub_partition_in_channel m) \<le> 64"
      "nextPowerOf2_m_n_channel m = m_n_channel m"
      using h by (auto simp: hash_ready_def)
    ultimately show ?thesis
      using y(3) z(3) hk True
        ipoly_place_inj[OF chip_lt[OF ok(1) h y(1)] chip_lt[OF ok(1) h z(1)]]
      by (simp add: chip_from_def)
  next
    case False
    then show ?thesis
      using y(3) z(3) hk by (auto simp: chip_from_def bitwise_hash_function_def
          dest: xor_right_cancel split: partition_index_function.splits)
  qed
  then show ?thesis by (rule fields_determine(2)[OF ok(1-3) a b y(1) z(1) same])
qed

section \<open>The preset configurations decode injectively\<close>

lemma preset_props:
  assumes "preset_masks k = Some (s, b, r, l)"
  shows "unat s \<le> 16" "take_bit 27 (b OR r OR l) = (mask 27 :: u64)"
    "take_bit 28 b = b" "take_bit 28 r = r" "take_bit 28 l = l"
  using assms unfolding preset_masks_def by (auto split: if_splits simp: mask_eq_exp_minus_1)

lemma bit_open_gap:
  assumes "s < 64"
  shows "bit (open_gap msk s n) i =
    (if i < s then bit msk i else s + n \<le> i \<and> i < 64 \<and> bit msk (i - n))"
  using assms
  by (auto simp: open_gap_def Let_def bit_or_iff bit_and_iff bit_not_iff bit_push_bit_iff
      bit_low_ones dest: bit_imp_le_length)

lemma card_open_gap:
  assumes "s < 64"
  shows "card (mask_bits (open_gap msk s n)) \<le> card (mask_bits msk)"
proof -
  have "mask_bits (open_gap msk s n) \<subseteq> (\<lambda>i. if i < s then i else i + n) ` mask_bits msk"
  proof
    fix i
    assume "i \<in> mask_bits (open_gap msk s n)"
    then have i: "if i < s then bit msk i else s + n \<le> i \<and> i < 64 \<and> bit msk (i - n)"
      by (simp add: mask_bits_def bit_open_gap[OF assms])
    show "i \<in> (\<lambda>i. if i < s then i else i + n) ` mask_bits msk"
      by (rule image_eqI[of _ _ "if i < s then i else i - n"])
         (use i in \<open>auto simp: mask_bits_def split: if_splits\<close>)
  qed
  then show ?thesis
    by (meson card_image_le card_mono finite_imageI finite_mask_bits le_trans)
qed

lemma card_take_bit: "take_bit n m = m \<Longrightarrow> card (mask_bits m) \<le> n"
  by (rule order_trans[OF card_mono[of "{..<n}"]])
     (auto simp: mask_bits_def, metis bit_take_bit_iff)

lemma bit_or_bits:
  "\<forall>i \<in> set is. i < 64 \<Longrightarrow> bit (or_bits is msk) i = (bit msk i \<or> i \<in> set is)"
  by (induction "is" msk rule: or_bits.induct) (auto simp: bit_or_iff bit_one_shifted)

lemma powli_2: "powli 2 n = 2 ^ n"
proof -
  have "powli_loop n 2 r = r * 2 ^ n" for r by (induction n arbitrary: r) (simp_all add: mult.assoc)
  then show ?thesis by (simp add: powli_def)
qed

lemma gap_zero_iff:
  "(ucast (ucast n - powli 2 (unat (LOGB2_32 n))) = (0 :: u32)) = (n = 2 ^ unat (LOGB2_32 n))"
proof -
  have "(ucast (ucast n - (2 :: u64) ^ k) :: u32) = n - 2 ^ k" if "k < 32" for k
  proof -
    have "(ucast (2 ^ k :: u64) :: u32) = 2 ^ k"
      using that by (intro bit_word_eqI) (auto simp: bit_ucast_iff bit_exp_iff)
    moreover have "(ucast (ucast n :: u64) :: u32) = n"
      by (rule bit_word_eqI) (auto simp: bit_ucast_iff dest: bit_imp_le_length)
    moreover have "(ucast (x - y :: u64) :: u32) = ucast x - ucast y" for x y
    proof -
      have uc: "(ucast (word_of_int z :: u64) :: u32) = word_of_int z" for z
        by (rule bit_word_eqI) (auto simp: bit_ucast_iff bit_word_of_int_iff)
      have "(ucast (x - y) :: u32) = word_of_int (uint x) - word_of_int (uint y)"
        unfolding word_sub_wi[of x y] uc wi_hom_sub by (rule refl)
      then show ?thesis using uc[of "uint x"] uc[of "uint y"] by simp
    qed
    ultimately show ?thesis by simp
  qed
  then show ?thesis by (simp add: powli_2 LOGB2_32_eq LOGB2_lt_32)
qed

definition preset_start :: "int \<Rightarrow> partition_index_function \<Rightarrow> addr_map" where
  "preset_start k idx =
     addr_map_new\<lparr>gpgpu_mem_address_mask := k, memory_partition_indexing := idx\<rparr>"

lemma mask_table_upd:
  "(mask_table c b r l u)(CHIP := c', BK := b', ROW := r', COL := l') = mask_table c' b' r' l' u"
proof
  fix f
  show "((mask_table c b r l u)(CHIP := c', BK := b', ROW := r', COL := l')) f = mask_table c' b' r' l' u f"
    by (cases f) auto
qed

lemma field_all: "(\<forall>f. P f) = (P CHIP \<and> P BK \<and> P ROW \<and> P COL \<and> P BURST)"
  by (metis field.exhaust)

text \<open>What \<open>init\<close> leaves behind for a preset, field by field.\<close>

lemma init_preset:
  assumes init: "addr_map_init n n' (preset_start k idx) = Some m"
    and pre: "preset_masks k = Some (s, b, r, l)"
  defines "c \<equiv> unat (LOGB2_32 n)"
  shows "limits_set m" "ADDR_CHIP_S m = s" "memory_partition_indexing m = idx"
    "log2channel m = LOGB2_32 n" "log2sub_partition m = LOGB2_32 n'"
    "m_n_channel m = n" "m_n_sub_partition_in_channel m = n'"
    "nextPowerOf2_m_n_channel m = next_powerOf2 n"
    "gap m = 0 \<longleftrightarrow> n = 2 ^ c"
    "gap m \<noteq> 0 \<Longrightarrow> addrdec_mask m = mask_table 0 b r l 0xF"
    "gap m = 0 \<Longrightarrow> unat s + c \<le> 64 \<and> addrdec_mask m = mask_table (or_bits [unat s..<unat s + c] 0)
       (open_gap b (unat s) c) (open_gap r (unat s) c) (open_gap l (unat s) c) 0xF"
proof -
  have s: "s \<noteq> - 1"
    using preset_props(1)[OF pre] by (auto simp: unsigned_minus_1_eq_mask mask_eq_exp_minus_1)
  let ?g = "ucast (ucast n - powli 2 c) :: u32"
  let ?m1 = "(preset_start k idx)\<lparr>ADDR_CHIP_S := s, log2channel := LOGB2_32 n,
      log2sub_partition := LOGB2_32 n', m_n_channel := n, m_n_sub_partition_in_channel := n',
      nextPowerOf2_m_n_channel := next_powerOf2 n, m_n_sub_partition_total := n * n', gap := ?g,
      addrdec_mask := mask_table 0 b r l 0xF\<rparr>"
  obtain m2 where m2: "insert_chip_bits (if ?g \<noteq> 0 then c + 1 else c) ?m1 = Some m2"
    and m: "m = set_sub_partition_mask (set_limits m2)"
    using init unfolding c_def
    by (auto simp: addr_map_init_def Let_def bind_Some_iff apply_preset_def preset_start_def pre
        addr_map_new_def mask_table_upd)
  have g: "(?g = 0) = (n = 2 ^ c)" unfolding c_def by (rule gap_zero_iff)
  have sel: "\<And>f. addrdec_mask m f = addrdec_mask m2 f" "gap m = gap m2" "ADDR_CHIP_S m = ADDR_CHIP_S m2"
    "memory_partition_indexing m = memory_partition_indexing m2" "log2channel m = log2channel m2"
    "log2sub_partition m = log2sub_partition m2" "m_n_channel m = m_n_channel m2"
    "m_n_sub_partition_in_channel m = m_n_sub_partition_in_channel m2"
    "nextPowerOf2_m_n_channel m = nextPowerOf2_m_n_channel m2"
    by (simp_all add: m set_sub_partition_mask_def set_limits_def)
  show "limits_set m"
    by (simp add: m limits_set_def set_limits_def set_sub_partition_mask_def)
  show "ADDR_CHIP_S m = s" "memory_partition_indexing m = idx"
    "log2channel m = LOGB2_32 n" "log2sub_partition m = LOGB2_32 n'"
    "m_n_channel m = n" "m_n_sub_partition_in_channel m = n'"
    "nextPowerOf2_m_n_channel m = next_powerOf2 n" "gap m = 0 \<longleftrightarrow> n = 2 ^ c"
    using m2 s g by (auto simp: sel insert_chip_bits_def Let_def preset_start_def split: if_splits)
  have g': "gap m = ?g"
    using m2 s by (auto simp: sel insert_chip_bits_def Let_def split: if_splits)
  show "gap m \<noteq> 0 \<Longrightarrow> addrdec_mask m = mask_table 0 b r l 0xF"
    using m2 s g' by (auto simp: sel fun_eq_iff insert_chip_bits_def)
  show "gap m = 0 \<Longrightarrow> unat s + c \<le> 64 \<and> addrdec_mask m = mask_table (or_bits [unat s..<unat s + c] 0)
       (open_gap b (unat s) c) (open_gap r (unat s) c) (open_gap l (unat s) c) 0xF"
    using m2 s g' by (auto simp: sel fun_eq_iff insert_chip_bits_def Let_def field_all)
qed

lemma init_preset_ok:
  assumes init: "addr_map_init n n' (preset_start k idx) = Some m"
    and pre: "preset_masks k \<noteq> None" and idx: "idx \<noteq> RANDOM"
    and ipoly: "idx = IPOLY \<longrightarrow> n AND (n - 1) = 0 \<and> 1 < n \<and> n' \<noteq> 0 \<and> unat n * unat n' \<le> 64"
  shows "decoder_ok m 27"
proof -
  obtain s b r l where p: "preset_masks k = Some (s, b, r, l)" using pre by auto
  note P = preset_props[OF p] and I = init_preset[OF init p]
  let ?c = "unat (LOGB2_32 n)"
  have s: "unat s < 64" "unat s < 31" using P(1) by simp_all
  have c: "?c < 32" by (simp add: LOGB2_32_eq LOGB2_lt_32)
  have cov: "bit b i \<or> bit r i \<or> bit l i" if "i < 27" for i
  proof -
    have "bit (take_bit 27 (b OR r OR l)) i" using that unfolding P(2) by (simp add: bit_mask_iff)
    then show ?thesis by (auto simp: bit_take_bit_iff bit_or_iff)
  qed
  have small: "card (mask_bits b) \<le> 32" "card (mask_bits r) \<le> 32" "card (mask_bits l) \<le> 32"
    "card (mask_bits 0xF) \<le> 32" "card (mask_bits 0) \<le> 32"
    using card_take_bit[OF P(3)] card_take_bit[OF P(4)] card_take_bit[OF P(5)]
      card_take_bit[of 4 "0xF"] by (simp_all add: mask_bits_def)
  have chip: "unat s + ?c \<le> 64 \<Longrightarrow> mask_bits (or_bits [unat s..<unat s + ?c] 0) = {unat s..<unat s + ?c}"
    by (auto simp: mask_bits_def bit_or_bits)
  have narrow: "narrow_masks m"
    unfolding narrow_masks_def
  proof
    fix f
    show "card (mask_bits (addrdec_mask m f)) \<le> 32"
      using small I(10,11) chip c card_open_gap[OF s(1), of _ ?c]
      by (cases "gap m = 0"; cases f) (auto intro: le_trans)
  qed
  have hs: "unat s + ?c \<le> high_shift m"
    using P(1) c LOGB2_lt_32[of n'] by (simp add: high_shift_def I(2,4,5) LOGB2_32_eq unat_word_ariths)
  have "covers m 27"
  proof (cases "gap m = 0")
    case True
    note M = I(11)[OF True]
    have rest: "\<exists>f. f \<noteq> CHIP \<and> bit (addrdec_mask m f) i"
      if "i < 27" "i < unat s \<or> unat s + ?c \<le> i" for i
    proof -
      have "bit (addrdec_mask m BK) i \<or> bit (addrdec_mask m ROW) i \<or> bit (addrdec_mask m COL) i"
        using that M cov[of i] cov[of "i - ?c"] by (auto simp: bit_open_gap[OF s(1)])
      then show ?thesis by (auto intro: exI[of _ BK] exI[of _ ROW] exI[of _ COL])
    qed
    moreover have "bit (addrdec_mask m CHIP) i" if "unat s \<le> i" "i < unat s + ?c" for i
      using that M by (simp add: bit_or_bits)
    ultimately have "\<exists>f. bit (addrdec_mask m f) i" if "i < 27" for i
      using that by (cases "unat s \<le> i \<and> i < unat s + ?c") force+
    moreover have "\<exists>f. f \<noteq> CHIP \<and> bit (addrdec_mask m f) i" if "i < 27" "high_shift m \<le> i" for i
      using that hs by (intro rest) auto
    ultimately show ?thesis using True unfolding covers_def by simp
  next
    case False
    have "\<exists>f. f \<noteq> CHIP \<and> bit (addrdec_mask m f) i" if "i < 27" for i
    proof -
      have "bit (addrdec_mask m BK) i \<or> bit (addrdec_mask m ROW) i \<or> bit (addrdec_mask m COL) i"
        using that I(10)[OF False] cov[of i] by simp
      then show ?thesis by (auto intro: exI[of _ BK] exI[of _ ROW] exI[of _ COL])
    qed
    then show ?thesis using False by (auto simp: covers_def)
  qed
  moreover have "hash_ready m" if "idx = IPOLY"
  proof -
    have n: "n AND (n - 1) = 0" "1 < n" "n' \<noteq> 0" "unat n * unat n' \<le> 64" using ipoly that by auto
    have "n \<noteq> 0" using n(2) by auto
    then have pow: "n = 2 ^ ?c" using power_of_two_log[OF n(1)] by blast
    then have g: "gap m = 0" using I(9) by simp
    have "next_powerOf2 n = n" using next_powerOf2_power[OF n(1,2)] .
    moreover have "unat n = 2 ^ ?c" using pow unat_pow2[OF c] by simp
    moreover have "card (mask_bits (addrdec_mask m CHIP)) = ?c"
      using I(11)[OF g] chip by simp
    ultimately show ?thesis using n(3,4) g by (simp add: hash_ready_def I(6,7,8))
  qed
  ultimately show ?thesis
    using I(1,3) narrow idx by (auto simp: decoder_ok_def)
qed

section \<open>Properties\<close>

text \<open>
  C15: With any of the preset address masks, any number of channels and of sub-partitions for which
  \<open>init\<close> succeeds, and the consecutive, bitwise or polynomial partition indexing, two different
  addresses of the 27-bit space of the presets never decode to the same channel, bank, row, column,
  burst and sub-partition. (The polynomial hash needs a power-of-two number of channels.)
\<close>

theorem preset_decoding_does_not_alias:
  assumes "addr_map_init n n' (preset_start k idx) = Some m" "preset_masks k \<noteq> None"
    and "idx \<noteq> RANDOM"
    and "idx = IPOLY \<longrightarrow> n AND (n - 1) = 0 \<and> 1 < n \<and> n' \<noteq> 0 \<and> unat n * unat n' \<le> 64"
    and "unat a < 2 ^ 27" "unat b < 2 ^ 27"
    and "addrdec_tlx m t r a sp = Some (x, t1)" "addrdec_tlx m t' r' b sp' = Some (x, t2)"
  shows "a = b"
  by (rule addrdec_tlx_injective[OF init_preset_ok[OF assms(1-4)] assms(5-8)])

theorem preset_decoding_does_not_alias_witness:
  "\<exists>m. addr_map_init 8 1 (preset_start 0 CONSECUTIVE) = Some m \<and>
    addrdec_tlx m Map.empty 0 4096 0 \<noteq> addrdec_tlx m Map.empty 0 8192 0"
proof -
  have "LOGB2_32 8 = 3" using LOGB2_power[of 3] by (simp add: LOGB2_32_eq)
  then obtain m where m: "addr_map_init 8 1 (preset_start 0 CONSECUTIVE) = Some m"
    by (simp add: addr_map_init_def preset_start_def addr_map_new_def apply_preset_def Let_def
        preset_masks_def insert_chip_bits_def powli_2)
  have g: "gap m = 0" using init_preset(9)[OF m] \<open>LOGB2_32 8 = 3\<close> by (simp add: preset_masks_def)
  have idx: "memory_partition_indexing m = CONSECUTIVE"
    using init_preset(3)[OF m] by (simp add: preset_masks_def)
  obtain x where x: "addrdec_tlx m Map.empty 0 4096 0 = Some (x, Map.empty)"
    using g idx by (simp add: addrdec_tlx_def tlx_fields_def Let_def)
  have "addrdec_tlx m Map.empty 0 8192 0 \<noteq> Some (x, Map.empty)"
  proof
    assume y: "addrdec_tlx m Map.empty 0 8192 0 = Some (x, Map.empty)"
    have "(4096 :: u64) = 8192"
      by (rule preset_decoding_does_not_alias[OF m _ _ _ _ _ x y]) (simp_all add: preset_masks_def)
    then show False by simp
  qed
  then show ?thesis using m x by metis
qed

text \<open>
  For \<open>2 \<le> n \<le> 2^31\<close>, \<open>next_powerOf2 n\<close> is the least power of two that is at least \<open>n\<close>. The loop
  terminates for every \<open>n\<close>.
\<close>

lemma next_powerOf2_least:
  assumes "1 < n" "unat n \<le> 2 ^ 31"
  shows "\<exists>k. unat (next_powerOf2 n) = 2 ^ k \<and> unat n \<le> 2 ^ k \<and> (\<forall>j. unat n \<le> 2 ^ j \<longrightarrow> k \<le> j)"
proof -
  let ?d = "unat (LOGB2 (n - 1))"
  have "(2::nat) ^ ?d < 2 ^ 31" using next_powerOf2_eq(2)[OF assms(1)] assms(2) by linarith
  then have "Suc ?d < 32" using power_strict_increasing_iff[of "2 :: nat" ?d 31] by simp
  then have "unat (next_powerOf2 n) = 2 ^ Suc ?d"
    unfolding next_powerOf2_eq(1)[OF assms(1)] by (rule unat_pow2)
  moreover have "Suc ?d \<le> j" if "unat n \<le> 2 ^ j" for j
  proof -
    have "(2::nat) ^ ?d < 2 ^ j" using next_powerOf2_eq(2)[OF assms(1)] that by linarith
    then show ?thesis by simp
  qed
  ultimately show ?thesis using next_powerOf2_eq(3)[OF assms(1)] by blast
qed

text \<open>A single channel is the exception: the loop is entered with 0 and the result is 0.\<close>

lemma next_powerOf2_one: "next_powerOf2 1 = 0"
  by (simp add: next_powerOf2_def clear_low_bits.simps)

text \<open>
  \<open>addrdec_packbits\<close> is bit extraction: bit \<open>k\<close> of its result is the value's bit at the \<open>k\<close>-th
  lowest set position of the mask between \<open>low\<close> and \<open>high\<close>, and there are no further bits.
\<close>

lemma packbits_extracts:
  assumes "high \<le> 64"
  shows "bit (addrdec_packbits m v high low) k =
    (k < length (filter (bit m) [low..<high]) \<and> bit v (filter (bit m) [low..<high] ! k))"
  using bit_packbits[OF assms] unfolding selected_def .

lemma packbits_extracts_witness:
  "bit (addrdec_packbits 0x1800 0x1000 64 0) 1 = True"
proof -
  have sel: "filter (bit (0x1800 :: u64)) [0..<64] = [11, 12]"
    by (simp add: upt_rec[of _ "64"])
  show ?thesis by (subst packbits_extracts) (simp_all add: sel)
qed

text \<open>
  \<open>addrdec_getmasklimit\<close> brackets a mask tightly: \<open>low\<close> is its lowest set bit and \<open>high\<close> one
  past its highest; for an empty mask it returns the whole word.
\<close>

lemma getmasklimit_tight:
  "addrdec_getmasklimit m =
    (if m = 0 then (64, 0) else (Suc (Max (mask_bits m)), Min (mask_bits m)))"
proof (cases "addrdec_getmasklimit m")
  case (Pair high low)
  note G = getmasklimit_bounds[OF Pair]
  show ?thesis
  proof (cases "m = 0")
    case True
    then show ?thesis using getmasklimit_0 by simp
  next
    case False
    then have b: "bit m low" "bit m (high - 1)" "low < high" using G(3) by auto
    have "Max (mask_bits m) = high - 1"
      by (rule Max_eqI[OF finite_mask_bits]) (use G(1) b in \<open>force simp: mask_bits_def\<close>)+
    moreover have "Min (mask_bits m) = low"
      by (rule Min_eqI[OF finite_mask_bits]) (use G(1) b in \<open>force simp: mask_bits_def\<close>)+
    ultimately show ?thesis using Pair False b by simp
  qed
qed

text \<open>
  When the number of channels is not a power of two the polynomial hash is followed by a remainder,
  and addresses do alias: with 12 channels of two sub-partitions, \<open>0x7000\<close> and \<open>0x8000\<close> decode to
  the same place. The assertion against a gap is commented out in the source.
\<close>

lemma ipoly_gap_aliases:
  assumes m: "addr_map_init 12 2 (preset_start 0 IPOLY) = Some m"
  shows "addrdec_tlx m t r 0x7000 sp = addrdec_tlx m t r 0x8000 sp" "addrdec_tlx m t r 0x7000 sp \<noteq> None"
proof -
  have log: "LOGB2_32 12 = 3"
    by (simp add: LOGB2_32_def Let_def)
  note I = init_preset[OF m, of 10 "0x300" "0x07FFE000" "0x1CFF", unfolded log]
  have pre: "preset_masks 0 = Some (10, 0x300, 0x07FFE000, 0x1CFF)" by (simp add: preset_masks_def)
  have g: "gap m \<noteq> 0" using I(9)[OF pre] by simp
  have np: "nextPowerOf2_m_n_channel m = 16"
    using I(8)[OF pre] by (simp add: next_powerOf2_def clear_low_bits.simps)
  have h7: "ipoly_hash_function 2 8 32 = Some 2" "ipoly_hash_function 2 16 32 = Some 26"
    by (simp_all add: ipoly_hash_function_def tap_index_def ipoly_taps_def upt_rec horner_sum_simps)
  have bk: "unpack_field m BK 0x800 = 0"
  proof -
    have "addrdec_packbits 0x300 0x800 h l = addrdec_packbits 0x300 0 h l" if "h \<le> 64" for h l
    proof -
      have "(0x800 :: u64) = 2 ^ 11" "(0x300 :: u64) = 2 ^ 8 OR 2 ^ 9" by simp_all
      then have "bit (0x300 :: u64) i \<longrightarrow> \<not> bit (0x800 :: u64) i" for i
        by (simp only: bit_exp_iff bit_or_iff) auto
      then show ?thesis by (subst packbits_eq_iff[OF that]) auto
    qed
    moreover have "addrdec_packbits 0x300 0 h l = 0" if "h \<le> 64" for h l
      by (rule bit_word_eqI) (simp add: bit_packbits[OF that])
    ultimately show ?thesis
      using limits_setD(1)[OF I(1)[OF pre], of BK] I(10)[OF pre g] by (simp add: unpack_field_def)
  qed
  have F: "tlx_fields m a sp = Some (\<lparr>tlx_chip = ucast (drop_bit 10 a mod 12), tlx_bk = 0,
      tlx_row = unpack_field m ROW 0x800, tlx_col = unpack_field m COL 0x800,
      tlx_burst = unpack_field m BURST 0x800, tlx_sub_partition = sp\<rparr>, Some 2)"
    if "a = 0x7000 \<or> a = 0x8000" for a
    using that g I(2,6)[OF pre] bk
    by (auto simp: tlx_fields_def Let_def push_bit_of_1)
  have "addrdec_tlx m t r 0x7000 sp = Some (\<lparr>tlx_chip = 1, tlx_bk = 0,
      tlx_row = unpack_field m ROW 0x800, tlx_col = unpack_field m COL 0x800,
      tlx_burst = unpack_field m BURST 0x800, tlx_sub_partition = 2\<rparr>, t)"
    and "addrdec_tlx m t r 0x8000 sp = Some (\<lparr>tlx_chip = 1, tlx_bk = 0,
      tlx_row = unpack_field m ROW 0x800, tlx_col = unpack_field m COL 0x800,
      tlx_burst = unpack_field m BURST 0x800, tlx_sub_partition = 2\<rparr>, t)"
    using F[of "0x7000"] F[of "0x8000"] I(3,6,7)[OF pre] np h7 g
    by (simp_all add: addrdec_tlx_def place_in_sub_partition_def Let_def)
  then show "addrdec_tlx m t r 0x7000 sp = addrdec_tlx m t r 0x8000 sp"
    "addrdec_tlx m t r 0x7000 sp \<noteq> None" by simp_all
qed

end
