(* ===== verification/FifoPipeline.thy ===== *)
theory FifoPipeline
  imports Prelude
begin

text \<open>
  The delay queue \<open>fifo_pipeline\<close> of \<open>gpgpu-sim/delayqueue.h\<close> that connects the stages of a memory
  partition. The singly linked list of \<open>fifo_data\<close> nodes is the list \<open>nodes\<close> of their \<open>m_data\<close>
  pointers (\<open>None\<close> is a \<open>NULL\<close> delay slot); \<open>m_head\<close> and \<open>m_tail\<close> are its ends. The counters are
  32-bit. The locale \<open>bounded_queue\<close> states what the client of a queue relies on; the pipeline is an
  instance of it.
\<close>

section \<open>State and operations\<close>

record 'a fifo =
  m_min_len :: u32
  m_max_len :: u32
  m_length :: u32
  m_n_element :: u32
  nodes :: "'a option list"

definition fifo_push :: "'a option \<Rightarrow> 'a fifo \<Rightarrow> 'a fifo option" where
  "fifo_push data f = do {
     ensure (m_length f < m_max_len f);
     let f = (if nodes f \<noteq> [] then
                (if last (nodes f) \<noteq> None \<or> m_length f < m_min_len f
                 then f\<lparr>nodes := nodes f @ [None], m_length := m_length f + 1,
                        m_n_element := m_n_element f + 1\<rparr>
                 else f)
              else f\<lparr>nodes := [None], m_length := m_length f + 1, m_n_element := m_n_element f + 1\<rparr>);
     Some (f\<lparr>nodes := butlast (nodes f) @ [data]\<rparr>)
   }"

definition fifo_pop :: "'a fifo \<Rightarrow> ('a option \<times> 'a fifo) option" where
  "fifo_pop f =
    (case nodes f of
       [] \<Rightarrow> Some (None, f)
     | data # next \<Rightarrow> do {
         let f = f\<lparr>nodes := next, m_length := m_length f - 1\<rparr>;
         ensure (m_length f = 0 \<longrightarrow> nodes f = []);
         let f = f\<lparr>m_n_element := m_n_element f - 1\<rparr>;
         f \<leftarrow> (if m_min_len f \<noteq> 0 \<and> m_length f < m_min_len f
              then do { f \<leftarrow> fifo_push None f; Some (f\<lparr>m_n_element := m_n_element f - 1\<rparr>) }
              else Some f);
         Some (data, f) })"

definition fifo_top :: "'a fifo \<Rightarrow> 'a option" where
  "fifo_top f = (case nodes f of [] \<Rightarrow> None | data # _ \<Rightarrow> data)"

definition fifo_full :: "'a fifo \<Rightarrow> bool" where
  "fifo_full f = (m_max_len f \<noteq> 0 \<and> m_max_len f \<le> m_length f)"

definition fifo_is_avilable_size :: "'a fifo \<Rightarrow> u32 \<Rightarrow> bool" where
  "fifo_is_avilable_size f sz = (m_max_len f \<noteq> 0 \<and> m_max_len f \<le> m_length f + sz - 1)"

definition fifo_empty :: "'a fifo \<Rightarrow> bool" where
  "fifo_empty f = (nodes f = [])"

text \<open>The constructor pushes \<open>m_min_len\<close> delay slots.\<close>

fun push_slots :: "nat \<Rightarrow> 'a fifo \<Rightarrow> 'a fifo option" where
  "push_slots 0 f = Some f"
| "push_slots (Suc n) f = do { f \<leftarrow> fifo_push None f; push_slots n f }"

lemma push_slots_numeral [simp]:
  "push_slots (numeral k) f = do { f \<leftarrow> fifo_push None f; push_slots (pred_numeral k) f }"
  by (simp add: numeral_eq_Suc)

definition fifo_new :: "u32 \<Rightarrow> u32 \<Rightarrow> 'a fifo option" where
  "fifo_new minlen maxlen = do {
     ensure (maxlen \<noteq> 0);
     push_slots (unat minlen)
       \<lparr>m_min_len = minlen, m_max_len = maxlen, m_length = 0, m_n_element = 0, nodes = []\<rparr>
   }"

text \<open>
  \<open>set_min_length\<close>. The loops carry fuel: the growing one makes at most \<open>m_min_len\<close> rounds and the
  shrinking one drops a node in each round.
\<close>

fun grow_loop :: "nat \<Rightarrow> 'a fifo \<Rightarrow> 'a fifo option" where
  "grow_loop n f =
    (if m_length f < m_min_len f then
       (case n of
          0 \<Rightarrow> None
        | Suc n' \<Rightarrow> do {
            f \<leftarrow> fifo_push None f;
            grow_loop n' (f\<lparr>m_n_element := m_n_element f - 1\<rparr>) })
     else Some f)"

fun shrink_loop :: "nat \<Rightarrow> 'a fifo \<Rightarrow> 'a fifo option" where
  "shrink_loop n f =
    (if m_min_len f < m_length f \<and> nodes f \<noteq> [] \<and> last (nodes f) = None then
       (case n of
          0 \<Rightarrow> None
        | Suc n' \<Rightarrow>
            (if length (nodes f) = 1 then do { (_, f) \<leftarrow> fifo_pop f; shrink_loop n' f }
             else shrink_loop n' (f\<lparr>nodes := butlast (nodes f), m_length := m_length f - 1\<rparr>)))
     else Some f)"

declare grow_loop.simps [simp del] shrink_loop.simps [simp del]

definition fifo_set_min_length :: "u32 \<Rightarrow> 'a fifo \<Rightarrow> 'a fifo option" where
  "fifo_set_min_length new_min_len f =
    (if new_min_len = m_min_len f then Some f
     else if m_min_len f < new_min_len then
       grow_loop (unat new_min_len) (f\<lparr>m_min_len := new_min_len\<rparr>)
     else do {
       ensure (nodes f \<noteq> []);
       shrink_loop (length (nodes f)) (f\<lparr>m_min_len := new_min_len\<rparr>) })"

section \<open>Contents and invariant\<close>

text \<open>The requests in the pipeline, oldest first.\<close>

definition contents :: "'a fifo \<Rightarrow> 'a list" where
  "contents f = somes (nodes f)"

definition fifo_wf :: "'a fifo \<Rightarrow> bool" where
  "fifo_wf f = (unat (m_length f) = length (nodes f) \<and> m_length f \<le> m_max_len f \<and> m_max_len f \<noteq> 0)"

definition fifo_ok :: "'a fifo \<Rightarrow> bool" where
  "fifo_ok f = (fifo_wf f \<and> m_min_len f \<le> m_length f)"

lemma zero_length_iff: "fifo_wf f \<Longrightarrow> (m_length f = 0) = (nodes f = [])"
  by (auto simp: fifo_wf_def unat_eq_0[symmetric])

text \<open>Whether a push takes a new node or overwrites the empty slot at the tail.\<close>

definition takes_node :: "'a fifo \<Rightarrow> bool" where
  "takes_node f = (nodes f = [] \<or> last (nodes f) \<noteq> None \<or> m_length f < m_min_len f)"

lemma fifo_push_eq:
  "fifo_push x f =
    (if \<not> m_length f < m_max_len f then None
     else if takes_node f then
       Some (f\<lparr>nodes := nodes f @ [x], m_length := m_length f + 1, m_n_element := m_n_element f + 1\<rparr>)
     else Some (f\<lparr>nodes := butlast (nodes f) @ [x]\<rparr>))"
  by (simp add: fifo_push_def takes_node_def ensure_def Let_def)

lemma fifo_push_wf:
  assumes "fifo_wf f" "fifo_push x f = Some g"
  shows "fifo_wf g" "contents g = contents f @ somes [x]" "m_min_len g = m_min_len f"
    "m_max_len g = m_max_len f" "m_length f \<le> m_length g" "last (nodes g) = x"
    "takes_node f \<Longrightarrow> nodes g = nodes f @ [x] \<and> m_length g = m_length f + 1"
proof -
  have lt: "m_length f < m_max_len f" using assms(2) by (auto simp: fifo_push_eq split: if_splits)
  have g: "g = (if takes_node f
      then f\<lparr>nodes := nodes f @ [x], m_length := m_length f + 1, m_n_element := m_n_element f + 1\<rparr>
      else f\<lparr>nodes := butlast (nodes f) @ [x]\<rparr>)"
    using assms(2) lt by (auto simp: fifo_push_eq split: if_splits)
  show "m_min_len g = m_min_len f" "m_max_len g = m_max_len f" "last (nodes g) = x"
    "takes_node f \<Longrightarrow> nodes g = nodes f @ [x] \<and> m_length g = m_length f + 1"
    by (simp_all add: g)
  show "m_length f \<le> m_length g"
    using unat_suc[OF lt] by (simp add: g word_le_nat_alt)
  show "fifo_wf g"
    using assms(1) unat_suc[OF lt] suc_le[OF lt]
    by (auto simp: g fifo_wf_def takes_node_def)
  show "contents g = contents f @ somes [x]"
    using somes_butlast_None[of "nodes f"]
    by (auto simp: g contents_def takes_node_def)
qed

lemma fifo_push_total: "m_length f < m_max_len f \<Longrightarrow> \<exists>g. fifo_push x f = Some g"
  by (simp add: fifo_push_eq)

lemma fifo_push_ok:
  assumes "fifo_ok f" "fifo_push x f = Some g"
  shows "fifo_ok g"
  using fifo_push_wf(1,3,5)[OF _ assms(2)] assms(1) by (auto simp: fifo_ok_def)

lemma contents_upd [simp]:
  "contents (f\<lparr>m_n_element := n\<rparr>) = contents f" "contents (f\<lparr>m_length := l\<rparr>) = contents f"
  "contents (f\<lparr>m_min_len := l\<rparr>) = contents f" "contents (f\<lparr>nodes := ns\<rparr>) = somes ns"
  by (simp_all add: contents_def)

text \<open>A pop never fails, returns the oldest slot and refills up to the minimal length.\<close>

lemma fifo_pop_ok:
  assumes ok: "fifo_ok f"
  obtains d g where "fifo_pop f = Some (d, g)" "fifo_ok g" "d = fifo_top f"
    "contents f = somes [d] @ contents g" "m_min_len g = m_min_len f" "m_max_len g = m_max_len f"
    "nodes g = tl (nodes f) \<or> nodes g = tl (nodes f) @ [None] \<and> m_min_len f \<noteq> 0"
proof (cases "nodes f")
  case Nil
  then show ?thesis using that[of None f] ok by (simp add: fifo_pop_def fifo_top_def)
next
  case (Cons d ns)
  let ?f1 = "f\<lparr>nodes := ns, m_length := m_length f - 1, m_n_element := m_n_element f - 1\<rparr>"
  have len: "unat (m_length f) = Suc (length ns)" using ok Cons by (simp add: fifo_ok_def fifo_wf_def)
  then have len1: "unat (m_length f - 1) = length ns"
    by (metis diff_Suc_1 nat.discI unat_eq_0 unat_minus_one)
  have wf1: "fifo_wf ?f1"
    using ok len len1 by (auto simp: fifo_ok_def fifo_wf_def word_le_nat_alt)
  have con: "contents f = somes [d] @ contents ?f1"
    using Cons by (cases d) (simp_all add: contents_def)
  have z: "m_length f - 1 = 0 \<longrightarrow> ns = []" using len1 by (metis length_0_conv unat_0)
  show ?thesis
  proof (cases "m_min_len f \<noteq> 0 \<and> m_length f - 1 < m_min_len f")
    case True
    have "m_length ?f1 < m_max_len ?f1"
      using ok len len1 by (simp add: fifo_ok_def fifo_wf_def word_le_nat_alt word_less_nat_alt)
    then obtain g where g: "fifo_push None ?f1 = Some g" using fifo_push_total by blast
    note W = fifo_push_wf[OF wf1 g]
    have "takes_node ?f1" using True by (simp add: takes_node_def)
    then have g': "nodes g = ns @ [None]" "m_length g = m_length f" using W(7) by simp_all
    show ?thesis
      by (rule that[of d "g\<lparr>m_n_element := m_n_element g - 1\<rparr>"])
        (use Cons True z g W g' ok con in
          \<open>auto simp: fifo_pop_def fifo_ok_def fifo_wf_def fifo_top_def Let_def\<close>)
  next
    case False
    show ?thesis
      by (rule that[of d ?f1])
        (use Cons False z wf1 con in
          \<open>auto simp: fifo_pop_def fifo_ok_def fifo_top_def not_less Let_def\<close>)
  qed
qed

lemma fifo_push_Some_ok:
  assumes "fifo_ok f" "\<not> fifo_full f"
  shows "\<exists>g. fifo_push (Some x) f = Some g \<and> fifo_ok g \<and> contents g = contents f @ [x]"
proof -
  have "m_length f < m_max_len f"
    using assms by (simp add: fifo_full_def fifo_ok_def fifo_wf_def not_le)
  then obtain g where g: "fifo_push (Some x) f = Some g" using fifo_push_total by blast
  then show ?thesis
    using fifo_push_ok[OF assms(1) g] fifo_push_wf(2)[OF _ g] assms(1) by (simp add: fifo_ok_def)
qed

lemma fifo_push_full: "fifo_full f \<Longrightarrow> fifo_push x f = None"
  by (simp add: fifo_push_eq fifo_full_def not_less)

section \<open>What the client of a queue relies on\<close>

datatype 'a queue_op = Push 'a | Pop

fun run_queue ::
  "('a \<Rightarrow> 'q \<Rightarrow> 'q option) \<Rightarrow> ('q \<Rightarrow> ('a option \<times> 'q) option) \<Rightarrow> 'a queue_op list \<Rightarrow> 'q
   \<Rightarrow> ('a list \<times> 'q) option" where
  "run_queue push pop [] q = Some ([], q)"
| "run_queue push pop (Push x # ops) q = do { q \<leftarrow> push x q; run_queue push pop ops q }"
| "run_queue push pop (Pop # ops) q = do {
     (d, q) \<leftarrow> pop q;
     (out, q) \<leftarrow> run_queue push pop ops q;
     Some (somes [d] @ out, q) }"

fun pushed :: "'a queue_op list \<Rightarrow> 'a list" where
  "pushed [] = []"
| "pushed (Push x # ops) = x # pushed ops"
| "pushed (Pop # ops) = pushed ops"

locale bounded_queue =
  fixes ok :: "'q \<Rightarrow> bool" and items :: "'q \<Rightarrow> 'a list" and full :: "'q \<Rightarrow> bool"
    and push :: "'a \<Rightarrow> 'q \<Rightarrow> 'q option" and pop :: "'q \<Rightarrow> ('a option \<times> 'q) option"
  assumes push_room: "ok q \<Longrightarrow> \<not> full q \<Longrightarrow> \<exists>q'. push x q = Some q' \<and> ok q' \<and> items q' = items q @ [x]"
    and push_full: "ok q \<Longrightarrow> full q \<Longrightarrow> push x q = None"
    and pop_ok: "ok q \<Longrightarrow> \<exists>d q'. pop q = Some (d, q') \<and> ok q' \<and> items q = somes [d] @ items q'"
begin

lemma push_okD: "ok q \<Longrightarrow> push x q = Some q' \<Longrightarrow> ok q' \<and> items q' = items q @ [x] \<and> \<not> full q"
  using push_room[of q x] push_full[of q x] by (cases "full q") auto

lemma pop_okD: "ok q \<Longrightarrow> pop q = Some (d, q') \<Longrightarrow> ok q' \<and> items q = somes [d] @ items q'"
  using pop_ok[of q] by auto

lemma run_fifo:
  "ok q \<Longrightarrow> run_queue push pop ops q = Some (out, q') \<Longrightarrow>
   ok q' \<and> items q @ pushed ops = out @ items q'"
proof (induction ops arbitrary: q out)
  case (Cons op ops)
  show ?case
  proof (cases op)
    case (Push x)
    then obtain q1 where "push x q = Some q1" "run_queue push pop ops q1 = Some (out, q')"
      using Cons.prems(2) by (auto simp: bind_Some_iff)
    then show ?thesis using Cons.IH[of q1 out] push_okD[OF Cons.prems(1)] Push by simp
  next
    case Pop
    then obtain d q1 out1 where "pop q = Some (d, q1)" "run_queue push pop ops q1 = Some (out1, q')"
      "out = somes [d] @ out1"
      using Cons.prems(2) by (auto simp: bind_Some_iff)
    then show ?thesis using Cons.IH[of q1 out1] pop_okD[OF Cons.prems(1)] Pop by simp
  qed
qed simp

end

interpretation pipeline: bounded_queue fifo_ok contents fifo_full "\<lambda>x. fifo_push (Some x)" fifo_pop
proof
  fix q :: "'a fifo" and x
  show "fifo_ok q \<Longrightarrow> \<not> fifo_full q \<Longrightarrow>
      \<exists>q'. fifo_push (Some x) q = Some q' \<and> fifo_ok q' \<and> contents q' = contents q @ [x]"
    by (rule fifo_push_Some_ok)
  show "fifo_ok q \<Longrightarrow> fifo_full q \<Longrightarrow> fifo_push (Some x) q = None"
    by (rule fifo_push_full)
  show "fifo_ok q \<Longrightarrow> \<exists>d q'. fifo_pop q = Some (d, q') \<and> fifo_ok q' \<and> contents q = somes [d] @ contents q'"
  proof -
    assume "fifo_ok q"
    then obtain d q' where "fifo_pop q = Some (d, q')" "fifo_ok q'" "contents q = somes [d] @ contents q'"
      by (rule fifo_pop_ok)
    then show ?thesis by blast
  qed
qed

section \<open>The minimal length is a latency\<close>

fun pops :: "'a queue_op list \<Rightarrow> nat" where
  "pops [] = 0"
| "pops (Push x # ops) = pops ops"
| "pops (Pop # ops) = Suc (pops ops)"

lemma push_keeps_prefix:
  "fifo_push (Some y) f = Some g \<Longrightarrow> nodes f = pre @ Some x # suf \<Longrightarrow>
   \<exists>suf'. nodes g = pre @ Some x # suf'"
  by (cases suf rule: rev_cases) (auto simp: fifo_push_eq takes_node_def butlast_append split: if_splits)

lemma older_leave_first:
  assumes "fifo_ok f" "nodes f = pre @ Some x # suf" "pops ops \<le> length pre"
    and "run_queue (\<lambda>x. fifo_push (Some x)) fifo_pop ops f = Some (out, g)"
  shows "length out \<le> length (somes pre)"
  using assms
proof (induction ops arbitrary: f pre suf out)
  case (Cons op ops)
  show ?case
  proof (cases op)
    case (Push y)
    then obtain f' where f': "fifo_push (Some y) f = Some f'"
      and run: "run_queue (\<lambda>x. fifo_push (Some x)) fifo_pop ops f' = Some (out, g)"
      using Cons.prems(4) by (auto simp: bind_Some_iff)
    obtain suf' where "nodes f' = pre @ Some x # suf'"
      using push_keeps_prefix[OF f' Cons.prems(2)] by blast
    then show ?thesis
      using Cons.IH[OF fifo_push_ok[OF Cons.prems(1) f'] _ _ run] Cons.prems(3) Push by simp
  next
    case Pop
    obtain d f' where f': "fifo_pop f = Some (d, f')" "fifo_ok f'" "d = fifo_top f"
      and ns: "nodes f' = tl (nodes f) \<or> nodes f' = tl (nodes f) @ [None] \<and> m_min_len f \<noteq> 0"
      by (rule fifo_pop_ok[OF Cons.prems(1)]) blast
    obtain out' where run: "run_queue (\<lambda>x. fifo_push (Some x)) fifo_pop ops f' = Some (out', g)"
      and out: "out = somes [d] @ out'"
      using Cons.prems(4) Pop f'(1) by (auto simp: bind_Some_iff)
    obtain p pre' where pre: "pre = p # pre'" using Cons.prems(3) Pop by (cases pre) auto
    have "\<exists>suf'. nodes f' = pre' @ Some x # suf'" using ns Cons.prems(2) pre by auto
    then have "length out' \<le> length (somes pre')"
      using Cons.IH[OF f'(2) _ _ run] Cons.prems(3) Pop pre by auto
    moreover have "d = p" using f'(3) Cons.prems(2) pre by (simp add: fifo_top_def)
    ultimately show ?thesis using out pre by (cases p) auto
  qed
qed simp

section \<open>Changing the minimal length\<close>

lemma fifo_wf_upd [simp]:
  "fifo_wf (f\<lparr>m_n_element := n\<rparr>) = fifo_wf f" "fifo_wf (f\<lparr>m_min_len := l\<rparr>) = fifo_wf f"
  by (simp_all add: fifo_wf_def)

lemma grow_stop: "\<not> m_length f < m_min_len f \<Longrightarrow> grow_loop n f = Some f"
  by (subst grow_loop.simps) simp

lemma shrink_stop:
  "\<not> (m_min_len f < m_length f \<and> nodes f \<noteq> [] \<and> last (nodes f) = None) \<Longrightarrow> shrink_loop n f = Some f"
  by (subst shrink_loop.simps) (simp only: if_False)

lemma grow_loop_ok:
  assumes "fifo_wf f" "m_min_len f \<le> m_max_len f" "unat (m_min_len f) - unat (m_length f) \<le> n"
  shows "\<exists>g. grow_loop n f = Some g \<and> fifo_ok g \<and> contents g = contents f \<and>
    m_min_len g = m_min_len f \<and> m_max_len g = m_max_len f"
  using assms
proof (induction n arbitrary: f)
  case 0
  then have "\<not> m_length f < m_min_len f" by (simp add: word_less_nat_alt)
  then show ?case using 0 by (subst grow_loop.simps) (simp add: fifo_ok_def not_less)
next
  case (Suc n)
  show ?case
  proof (cases "m_length f < m_min_len f")
    case False
    then show ?thesis using Suc.prems(1) grow_stop[OF False] by (simp add: fifo_ok_def not_less)
  next
    case True
    then have "m_length f < m_max_len f" using Suc.prems(2) by simp
    then obtain g where g: "fifo_push None f = Some g" using fifo_push_total by blast
    note W = fifo_push_wf[OF Suc.prems(1) g]
    have "m_length g = m_length f + 1" using W(7) True by (simp add: takes_node_def)
    then have "unat (m_length g) = Suc (unat (m_length f))" using unat_suc[OF True] by simp
    then have "unat (m_min_len g) - unat (m_length g) \<le> n"
      using Suc.prems(3) True W(3) by (simp add: word_less_nat_alt)
    then obtain h where "grow_loop n (g\<lparr>m_n_element := m_n_element g - 1\<rparr>) = Some h" "fifo_ok h"
      "contents h = contents g" "m_min_len h = m_min_len g" "m_max_len h = m_max_len g"
      using Suc.IH[of "g\<lparr>m_n_element := m_n_element g - 1\<rparr>"] W(1,3,4) Suc.prems(2) by auto
    then show ?thesis
      using True g W(2,3,4) by (subst grow_loop.simps) simp
  qed
qed

lemma shrink_loop_ok:
  assumes "fifo_ok f" "length (nodes f) \<le> n"
  shows "\<exists>g. shrink_loop n f = Some g \<and> fifo_ok g \<and> contents g = contents f \<and>
    m_min_len g = m_min_len f \<and> m_max_len g = m_max_len f"
  using assms
proof (induction n arbitrary: f)
  case 0
  then show ?case by (subst shrink_loop.simps) simp
next
  case (Suc n)
  show ?case
  proof (cases "m_min_len f < m_length f \<and> nodes f \<noteq> [] \<and> last (nodes f) = None")
    case False
    then show ?thesis using Suc.prems(1) shrink_stop[OF False] by simp
  next
    case True
    have len: "unat (m_length f) = length (nodes f)" using Suc.prems(1) by (simp add: fifo_ok_def fifo_wf_def)
    have nz: "m_length f \<noteq> 0" using True by auto
    have step: "fifo_ok (f\<lparr>nodes := butlast (nodes f), m_length := m_length f - 1\<rparr>)"
      using Suc.prems(1) True unat_pred[OF nz] len
      by (auto simp: fifo_ok_def fifo_wf_def word_le_nat_alt word_less_nat_alt)
    have less: "length (butlast (nodes f)) \<le> n" using Suc.prems(2) by simp
    note IH = Suc.IH[OF step]
    show ?thesis
    proof (cases "length (nodes f) = 1")
      case False
      then show ?thesis
        using IH less True somes_butlast_None[of "nodes f"]
        by (subst shrink_loop.simps) (simp add: contents_def)
    next
      case one: True
      then obtain d where d: "nodes f = [d]" by (cases "nodes f") auto
      obtain e g where g: "fifo_pop f = Some (e, g)" "fifo_ok g" "e = fifo_top f"
        "contents f = somes [e] @ contents g" "m_min_len g = m_min_len f" "m_max_len g = m_max_len f"
        "nodes g = tl (nodes f) \<or> nodes g = tl (nodes f) @ [None] \<and> m_min_len f \<noteq> 0"
        by (rule fifo_pop_ok[OF Suc.prems(1)])
      have "e = None" using g(3) True d by (simp add: fifo_top_def)
      moreover have "m_min_len f = 0" using True len one
        by (simp add: word_less_nat_alt) (metis unat_eq_0)
      ultimately have "nodes g = []" "contents g = contents f" using g d by auto
      then show ?thesis
        using Suc.IH[of g] g(1,2,5,6) True one by (subst shrink_loop.simps) simp
    qed
  qed
qed

lemma set_min_length_ok:
  assumes "fifo_ok f" "new_min_len \<le> m_max_len f"
  shows "\<exists>g. fifo_set_min_length new_min_len f = Some g \<and> fifo_ok g \<and> contents g = contents f \<and>
    m_min_len g = new_min_len"
proof -
  let ?f = "f\<lparr>m_min_len := new_min_len\<rparr>"
  have wf: "fifo_wf ?f" using assms(1) by (simp add: fifo_ok_def)
  consider "new_min_len = m_min_len f" | "m_min_len f < new_min_len" | "new_min_len < m_min_len f"
    by (meson linorder_cases)
  then show ?thesis
  proof cases
    case 2
    then show ?thesis
      using grow_loop_ok[OF wf, of "unat new_min_len"] assms(2) 2 by (auto simp: fifo_set_min_length_def)
  next
    case 3
    have "fifo_ok ?f" using 3 assms(1) by (auto simp: fifo_ok_def)
    moreover have "nodes f \<noteq> []"
      using 3 assms(1) by (auto simp: fifo_ok_def fifo_wf_def word_le_nat_alt word_less_nat_alt)
    ultimately show ?thesis
      using shrink_loop_ok[of ?f "length (nodes f)"] 3 by (auto simp: fifo_set_min_length_def)
  qed (use assms(1) in \<open>simp add: fifo_set_min_length_def\<close>)
qed

lemma push_slots_ok:
  assumes "fifo_wf f" "unat (m_length f) + n = unat (m_min_len f)" "m_min_len f \<le> m_max_len f"
    "contents f = []"
  shows "\<exists>g. push_slots n f = Some g \<and> fifo_ok g \<and> contents g = [] \<and> m_min_len g = m_min_len f \<and>
    m_max_len g = m_max_len f"
  using assms
proof (induction n arbitrary: f)
  case 0
  then show ?case by (simp add: fifo_ok_def word_le_nat_alt)
next
  case (Suc n)
  then have lt: "m_length f < m_min_len f" by (simp add: word_less_nat_alt)
  then have "m_length f < m_max_len f" using Suc.prems(3) by simp
  then obtain g where g: "fifo_push None f = Some g" using fifo_push_total by blast
  note W = fifo_push_wf[OF Suc.prems(1) g]
  have "m_length g = m_length f + 1" using W(7) lt by (simp add: takes_node_def)
  then have "unat (m_length g) = Suc (unat (m_length f))" using unat_suc[OF lt] by simp
  then show ?case using Suc.IH[of g] W g Suc.prems by simp
qed

lemma fifo_new_ok:
  assumes "maxlen \<noteq> 0" "minlen \<le> maxlen"
  shows "\<exists>f. fifo_new minlen maxlen = Some f \<and> fifo_ok f \<and> contents f = [] \<and> m_min_len f = minlen \<and>
    m_max_len f = maxlen"
  unfolding fifo_new_def using assms push_slots_ok[of "\<lparr>m_min_len = minlen, m_max_len = maxlen,
      m_length = 0, m_n_element = 0, nodes = []\<rparr>" "unat minlen"]
  by (simp add: fifo_wf_def contents_def)

section \<open>Properties\<close>

text \<open>
  C37: The pipeline is a first-in first-out queue under any interleaving of pushes and pops: what
  leaves is, in order, what was inside followed by what was pushed, nothing is lost or duplicated,
  and the invariant (counter, list and bounds agree) holds at the end.
\<close>

theorem pipeline_is_fifo:
  assumes "fifo_ok f" "run_queue (\<lambda>x. fifo_push (Some x)) fifo_pop ops f = Some (out, g)"
  shows "fifo_ok g \<and> contents f @ pushed ops = out @ contents g"
  by (rule pipeline.run_fifo[OF assms])

theorem pipeline_is_fifo_witness:
  "\<exists>f g. fifo_new 0 4 = Some f \<and>
    run_queue (\<lambda>x. fifo_push (Some x)) fifo_pop [Push (1::nat), Push 2, Pop, Push 3, Pop] f = Some ([1, 2], g) \<and>
    fifo_ok g \<and> contents g = [3]"
proof -
  obtain f :: "nat fifo" where f: "fifo_new 0 4 = Some f" "fifo_ok f"
    using fifo_new_ok[of 4 0] by auto
  obtain g where g: "run_queue (\<lambda>x. fifo_push (Some x)) fifo_pop [Push 1, Push 2, Pop, Push 3, Pop] f = Some ([1, 2], g)"
    using f(1) by (auto simp: fifo_new_def fifo_push_def fifo_pop_def)
  have "fifo_ok g \<and> contents f @ pushed [Push 1, Push 2, Pop, Push 3, Pop] = [1, 2] @ contents g"
    by (rule pipeline_is_fifo[OF f(2) g])
  moreover have "contents f = []" using f(1) by (auto simp: fifo_new_def contents_def)
  ultimately show ?thesis using f g by auto
qed

text \<open>
  The minimal length is a latency. After a request is pushed, until fewer than \<open>m_min_len\<close>
  further pops have happened (with any pushes in between) at most the requests that were in the
  pipeline before it have left.
\<close>

lemma pipeline_latency:
  assumes "fifo_ok f" "fifo_push (Some x) f = Some g" "pops ops < unat (m_min_len f)"
    and "run_queue (\<lambda>x. fifo_push (Some x)) fifo_pop ops g = Some (out, h)"
  shows "length out \<le> length (contents f)"
proof -
  have wf: "fifo_wf f" using assms(1) by (simp add: fifo_ok_def)
  note W = fifo_push_wf[OF wf assms(2)]
  have ok: "fifo_ok g" by (rule fifo_push_ok[OF assms(1,2)])
  have len: "unat (m_min_len f) \<le> length (nodes g)"
    using ok W(3) by (simp add: fifo_ok_def fifo_wf_def word_le_nat_alt)
  then have "nodes g \<noteq> []" using assms(3) by auto
  then have ns: "nodes g = butlast (nodes g) @ Some x # []"
    using W(6) by (metis append_butlast_last_id)
  have "contents f @ [x] = somes (butlast (nodes g)) @ [x]"
    using W(2) ns unfolding contents_def by (metis somes_simps(1,3,4))
  moreover have "length out \<le> length (somes (butlast (nodes g)))"
    by (rule older_leave_first[OF ok ns _ assms(4)]) (use len assms(3) in simp)
  ultimately show ?thesis by simp
qed

lemma pipeline_latency_witness:
  "\<exists>f g h. fifo_new 3 8 = Some f \<and> fifo_push (Some (7::nat)) f = Some g \<and>
    run_queue (\<lambda>x. fifo_push (Some x)) fifo_pop [Pop, Push 8, Pop] g = Some ([], h) \<and>
    length ([] :: nat list) \<le> length (contents f)"
proof -
  obtain f :: "nat fifo" where f: "fifo_new 3 8 = Some f" "fifo_ok f" "m_min_len f = 3" "contents f = []"
    using fifo_new_ok[of 8 3] by auto
  obtain g where g: "fifo_push (Some 7) f = Some g"
    using f(1) by (auto simp: fifo_new_def fifo_push_eq takes_node_def)
  obtain h out where h: "run_queue (\<lambda>x. fifo_push (Some x)) fifo_pop [Pop, Push 8, Pop] g = Some (out, h)"
    using f(1) g by (auto simp: fifo_new_def fifo_push_eq takes_node_def fifo_pop_def)
  have "length out \<le> length (contents f)"
    by (rule pipeline_latency[OF f(2) g _ h]) (simp add: f(3))
  then show ?thesis using f g h by auto
qed

text \<open>
  C38: \<open>set_min_length\<close> terminates without a failed assertion for every new length up to the
  capacity, and neither loses, reorders nor duplicates a request.
\<close>

theorem set_min_length_keeps_contents:
  assumes "fifo_ok f" "new_min_len \<le> m_max_len f"
  shows "\<exists>g. fifo_set_min_length new_min_len f = Some g \<and> fifo_ok g \<and> contents g = contents f \<and>
    m_min_len g = new_min_len"
  by (rule set_min_length_ok[OF assms])

theorem set_min_length_keeps_contents_witness:
  "\<exists>f g. fifo_new 0 8 = Some (f :: nat fifo) \<and> fifo_set_min_length 5 f = Some g \<and> fifo_ok g \<and>
    contents g = contents f \<and> m_min_len g = 5"
proof -
  obtain f :: "nat fifo" where f: "fifo_new 0 8 = Some f" "fifo_ok f" "m_max_len f = 8"
    using fifo_new_ok[of 8 0] by auto
  then show ?thesis using set_min_length_keeps_contents[of f 5] by auto
qed

text \<open>
  \<open>m_n_element\<close> counts the requests only when there is no minimal length: the constructor counts its
  delay slots, and the request that overwrites one is not counted.
\<close>

lemma n_element_counts_slots:
  "\<exists>f :: nat fifo. fifo_new 2 4 = Some f \<and> m_n_element f = 2 \<and> contents f = []"
  by (simp add: fifo_new_def fifo_push_eq takes_node_def contents_def)

end
