(* ===== verification/MemFetch.thy ===== *)
theory MemFetch
  imports AddrDec
begin

text \<open>
  Memory accesses (\<open>mem_access_t\<close>) and memory requests (\<open>mem_fetch\<close>). A request is a heap object
  that queues, miss registers and caches refer to by pointer and that is changed through any of
  these references, so the requests live in an explicit store \<open>mem_store\<close> from references to
  requests. The store also holds what the source keeps in static variables: the request id counter,
  the table of the random partition indexing and the values \<open>rand()\<close> has yet to return.
\<close>

section \<open>Memory accesses\<close>

datatype memory_space =
  undefined_space | reg_space | local_space | shared_space | sstarr_space | param_space_unclassified |
  param_space_kernel | param_space_local | const_space | tex_space | surf_space | global_space |
  generic_space | instruction_space

datatype mem_access_type =
  GLOBAL_ACC_R | LOCAL_ACC_R | CONST_ACC_R | TEXTURE_ACC_R | GLOBAL_ACC_W | LOCAL_ACC_W |
  L1_WRBK_ACC | L2_WRBK_ACC | INST_ACC_R | L1_WR_ALLOC_R | L2_WR_ALLOC_R

type_synonym active_mask = "32 word"
type_synonym byte_mask = "128 word"
type_synonym sector_mask = "4 word"

abbreviation SECTOR_CHUNCK_SIZE :: nat where "SECTOR_CHUNCK_SIZE \<equiv> 4"
abbreviation SECTOR_SIZE :: u32 where "SECTOR_SIZE \<equiv> 32"
abbreviation MAX_MEMORY_ACCESS_SIZE :: nat where "MAX_MEMORY_ACCESS_SIZE \<equiv> 128"

record mem_access =
  ma_addr :: u64
  ma_write :: bool
  ma_req_size :: u32
  ma_type :: mem_access_type
  ma_warp_mask :: active_mask
  ma_byte_mask :: byte_mask
  ma_sector_mask :: sector_mask

section \<open>Requests\<close>

text \<open>What a request keeps of the warp instruction it belongs to.\<close>

record inst_info =
  inst_empty :: bool
  inst_isatomic :: bool
  inst_space :: memory_space
  inst_uid :: u32
  inst_pc :: u32
  inst_warp_id :: u32

definition no_inst :: inst_info where
  "no_inst = \<lparr>inst_empty = True, inst_isatomic = False, inst_space = undefined_space, inst_uid = 0,
     inst_pc = 0, inst_warp_id = 0\<rparr>"

datatype mf_type = READ_REQUEST | WRITE_REQUEST | READ_REPLY | WRITE_ACK

datatype mem_fetch_status =
  MEM_FETCH_INITIALIZED | IN_L1I_MISS_QUEUE | IN_L1D_MISS_QUEUE | IN_L1T_MISS_QUEUE |
  IN_L1C_MISS_QUEUE | IN_L1TLB_MISS_QUEUE | IN_VM_MANAGER_QUEUE | IN_ICNT_TO_MEM |
  IN_PARTITION_ROP_DELAY | IN_PARTITION_ICNT_TO_L2_QUEUE | IN_PARTITION_L2_TO_DRAM_QUEUE |
  IN_PARTITION_DRAM_LATENCY_QUEUE | IN_PARTITION_L2_MISS_QUEUE | IN_PARTITION_MC_INTERFACE_QUEUE |
  IN_PARTITION_MC_INPUT_QUEUE | IN_PARTITION_MC_BANK_ARB_QUEUE | IN_PARTITION_DRAM |
  IN_PARTITION_MC_RETURNQ | IN_PARTITION_DRAM_TO_L2_QUEUE | IN_PARTITION_L2_FILL_QUEUE |
  IN_PARTITION_L2_TO_ICNT_QUEUE | IN_ICNT_TO_SHADER | IN_CLUSTER_TO_SHADER_QUEUE |
  IN_SHADER_LDST_RESPONSE_FIFO | IN_SHADER_FETCHED | IN_SHADER_L1T_ROB | MEM_FETCH_DELETED

type_synonym mf_ref = nat

record memory_config =
  mc_address_mapping :: addr_map
  mc_icnt_flit_size :: u32

record mem_fetch =
  mf_request_uid :: u32
  mf_sid :: u32
  mf_tpc :: u32
  mf_wid :: u32
  mf_status :: mem_fetch_status
  mf_status_change :: u64
  mf_access :: mem_access
  mf_data_size :: u32
  mf_ctrl_size :: u32
  mf_partition_addr :: u64
  mf_raw_addr :: addrdec
  mf_type :: mf_type
  mf_timestamp :: u32
  mf_timestamp2 :: u32
  mf_inst :: inst_info
  mf_icnt_flit_size :: u32
  mf_mem_config :: memory_config
  original_mf :: "mf_ref option"
  original_wr_mf :: "mf_ref option"

record mem_store =
  ms_heap :: "mf_ref \<rightharpoonup> mem_fetch"
  ms_next :: nat
  ms_next_uid :: u32
  ms_table :: "u64 \<rightharpoonup> u32"
  ms_rand :: "u32 list"

text \<open>Accessors, as the class has them.\<close>

definition get_is_write :: "mem_fetch \<Rightarrow> bool" where
  "get_is_write mf = ma_write (mf_access mf)"

definition get_addr :: "mem_fetch \<Rightarrow> u64" where
  "get_addr mf = ma_addr (mf_access mf)"

definition get_access_type :: "mem_fetch \<Rightarrow> mem_access_type" where
  "get_access_type mf = ma_type (mf_access mf)"

definition get_access_sector_mask :: "mem_fetch \<Rightarrow> sector_mask" where
  "get_access_sector_mask mf = ma_sector_mask (mf_access mf)"

definition get_access_byte_mask :: "mem_fetch \<Rightarrow> byte_mask" where
  "get_access_byte_mask mf = ma_byte_mask (mf_access mf)"

definition mf_size :: "mem_fetch \<Rightarrow> u32" where
  "mf_size mf = mf_data_size mf + mf_ctrl_size mf"

definition isatomic :: "mem_fetch \<Rightarrow> bool" where
  "isatomic mf = (if inst_empty (mf_inst mf) then False else inst_isatomic (mf_inst mf))"

definition istexture :: "mem_fetch \<Rightarrow> bool" where
  "istexture mf = (if inst_empty (mf_inst mf) then False else inst_space (mf_inst mf) = tex_space)"

definition isconst :: "mem_fetch \<Rightarrow> bool" where
  "isconst mf = (if inst_empty (mf_inst mf) then False
     else inst_space (mf_inst mf) = const_space \<or> inst_space (mf_inst mf) = param_space_kernel)"

definition set_status :: "mem_fetch_status \<Rightarrow> u64 \<Rightarrow> mem_fetch \<Rightarrow> mem_fetch" where
  "set_status status cycle mf = mf\<lparr>mf_status := status, mf_status_change := cycle\<rparr>"

definition set_addr :: "u64 \<Rightarrow> mem_fetch \<Rightarrow> mem_fetch" where
  "set_addr addr mf = mf\<lparr>mf_access := (mf_access mf)\<lparr>ma_addr := addr\<rparr>\<rparr>"

definition set_chip :: "u32 \<Rightarrow> mem_fetch \<Rightarrow> mem_fetch" where
  "set_chip c mf = mf\<lparr>mf_raw_addr := (mf_raw_addr mf)\<lparr>tlx_chip := c\<rparr>\<rparr>"

definition set_parition :: "u32 \<Rightarrow> mem_fetch \<Rightarrow> mem_fetch" where
  "set_parition p mf = mf\<lparr>mf_raw_addr := (mf_raw_addr mf)\<lparr>tlx_sub_partition := p\<rparr>\<rparr>"

definition set_reply :: "mem_fetch \<Rightarrow> mem_fetch option" where
  "set_reply mf = do {
     ensure (get_access_type mf \<noteq> L1_WRBK_ACC \<and> get_access_type mf \<noteq> L2_WRBK_ACC);
     (if mf_type mf = READ_REQUEST then do {
        ensure (\<not> get_is_write mf);
        Some (mf\<lparr>mf_type := READ_REPLY\<rparr>) }
      else if mf_type mf = WRITE_REQUEST then do {
        ensure (get_is_write mf);
        Some (mf\<lparr>mf_type := WRITE_ACK\<rparr>) }
      else Some mf)
   }"

text \<open>The number of flits a request or reply takes in the interconnect.\<close>

definition get_num_flits :: "bool \<Rightarrow> mem_fetch \<Rightarrow> u32 option" where
  "get_num_flits simt_to_mem mf = do {
     let sz = (if isatomic mf \<or> (simt_to_mem \<and> get_is_write mf) \<or> \<not> (simt_to_mem \<or> get_is_write mf)
               then mf_size mf else mf_ctrl_size mf);
     ensure (mf_icnt_flit_size mf \<noteq> 0);
     Some (sz div mf_icnt_flit_size mf + (if sz mod mf_icnt_flit_size mf \<noteq> 0 then 1 else 0))
   }"

section \<open>The store\<close>

definition deref :: "mf_ref \<Rightarrow> mem_store \<Rightarrow> mem_fetch option" where
  "deref r ms = ms_heap ms r"

definition mf_update :: "mf_ref \<Rightarrow> (mem_fetch \<Rightarrow> mem_fetch) \<Rightarrow> mem_store \<Rightarrow> mem_store option" where
  "mf_update r f ms = do { mf \<leftarrow> ms_heap ms r; Some (ms\<lparr>ms_heap := (ms_heap ms)(r \<mapsto> f mf)\<rparr>) }"

definition mf_delete :: "mf_ref \<Rightarrow> mem_store \<Rightarrow> mem_store option" where
  "mf_delete r ms = do { _ \<leftarrow> ms_heap ms r; Some (ms\<lparr>ms_heap := (ms_heap ms)(r := None)\<rparr>) }"

text \<open>
  The constructor of \<open>mem_fetch\<close> and \<open>new\<close>. \<open>rand()\<close> is called when the mapping is random and the
  chip address is not in the table yet.
\<close>

definition draws :: "addr_map \<Rightarrow> (u64 \<rightharpoonup> u32) \<Rightarrow> u64 \<Rightarrow> bool" where
  "draws m table addr = (memory_partition_indexing m = RANDOM \<and>
     table (drop_bit (unat (ADDR_CHIP_S m - log2sub_partition m)) addr) = None)"

definition decode_addr :: "memory_config \<Rightarrow> u64 \<Rightarrow> mem_store \<Rightarrow> (addrdec \<times> mem_store) option" where
  "decode_addr cfg addr ms =
    (if draws (mc_address_mapping cfg) (ms_table ms) addr then
       (case ms_rand ms of
          [] \<Rightarrow> None
        | r # rs \<Rightarrow> do {
            (tlx, table) \<leftarrow> addrdec_tlx (mc_address_mapping cfg) (ms_table ms) r addr 0;
            Some (tlx, ms\<lparr>ms_table := table, ms_rand := rs\<rparr>) })
     else do {
       (tlx, table) \<leftarrow> addrdec_tlx (mc_address_mapping cfg) (ms_table ms) 0 addr 0;
       Some (tlx, ms\<lparr>ms_table := table\<rparr>) })"

definition mem_fetch_new ::
  "mem_access \<Rightarrow> inst_info option \<Rightarrow> u32 \<Rightarrow> u32 \<Rightarrow> u32 \<Rightarrow> u32 \<Rightarrow> memory_config \<Rightarrow> u64 \<Rightarrow>
   mf_ref option \<Rightarrow> mf_ref option \<Rightarrow> mem_store \<Rightarrow> (mf_ref \<times> mem_store) option" where
  "mem_fetch_new access inst ctrl_size wid sid tpc cfg cycle m_original_mf m_original_wr_mf ms = do {
     let uid = ms_next_uid ms;
     let ms = ms\<lparr>ms_next_uid := uid + 1\<rparr>;
     ensure (case inst of Some i \<Rightarrow> wid = inst_warp_id i | None \<Rightarrow> True);
     (raw, ms) \<leftarrow> decode_addr cfg (ma_addr access) ms;
     paddr \<leftarrow> partition_address (mc_address_mapping cfg) (ma_addr access);
     raw \<leftarrow> (case m_original_mf of
        None \<Rightarrow> Some raw
      | Some r \<Rightarrow> do {
          orig \<leftarrow> deref r ms;
          Some (raw\<lparr>tlx_chip := tlx_chip (mf_raw_addr orig),
                    tlx_sub_partition := tlx_sub_partition (mf_raw_addr orig)\<rparr>) });
     let mf = \<lparr>mf_request_uid = uid, mf_sid = sid, mf_tpc = tpc, mf_wid = wid,
        mf_status = MEM_FETCH_INITIALIZED, mf_status_change = cycle, mf_access = access,
        mf_data_size = ma_req_size access, mf_ctrl_size = ctrl_size, mf_partition_addr = paddr,
        mf_raw_addr = raw, mf_type = (if ma_write access then WRITE_REQUEST else READ_REQUEST),
        mf_timestamp = ucast cycle, mf_timestamp2 = 0,
        mf_inst = (case inst of Some i \<Rightarrow> i | None \<Rightarrow> no_inst),
        mf_icnt_flit_size = mc_icnt_flit_size cfg, mf_mem_config = cfg,
        original_mf = m_original_mf, original_wr_mf = m_original_wr_mf\<rparr>;
     Some (ms_next ms, ms\<lparr>ms_heap := (ms_heap ms)(ms_next ms \<mapsto> mf), ms_next := Suc (ms_next ms)\<rparr>)
   }"

section \<open>Facts about the store\<close>

definition ms_ok :: "mem_store \<Rightarrow> bool" where
  "ms_ok ms = (\<forall>r. ms_heap ms r \<noteq> None \<longrightarrow> r < ms_next ms)"

definition mf_ok :: "mem_fetch \<Rightarrow> bool" where
  "mf_ok mf = (if get_is_write mf then mf_type mf = WRITE_REQUEST \<or> mf_type mf = WRITE_ACK
     else mf_type mf = READ_REQUEST \<or> mf_type mf = READ_REPLY)"

lemma deref_heap: "deref r ms = ms_heap ms r"
  by (simp add: deref_def)

lemma mf_update_Some:
  "mf_update r f ms = Some ms' \<longleftrightarrow>
    (\<exists>mf. ms_heap ms r = Some mf \<and> ms' = ms\<lparr>ms_heap := (ms_heap ms)(r \<mapsto> f mf)\<rparr>)"
  by (auto simp: mf_update_def bind_Some_iff)

lemma mf_update_heap:
  "mf_update r f ms = Some ms' \<Longrightarrow> ms_heap ms' q = (if q = r then map_option f (ms_heap ms r) else ms_heap ms q)"
  by (auto simp: mf_update_Some)

lemma mf_update_dom: "mf_update r f ms = Some ms' \<Longrightarrow> dom (ms_heap ms') = dom (ms_heap ms)"
  by (auto simp: mf_update_Some split: if_splits)

lemma mf_update_total: "ms_heap ms r \<noteq> None \<Longrightarrow> \<exists>ms'. mf_update r f ms = Some ms'"
  by (auto simp: mf_update_Some)

lemma ms_ok_update [inv_intros]: "ms_ok ms \<Longrightarrow> mf_update r f ms = Some ms' \<Longrightarrow> ms_ok ms'"
  by (auto simp: ms_ok_def mf_update_Some split: if_splits)

lemma ms_ok_delete [inv_intros]: "ms_ok ms \<Longrightarrow> mf_delete r ms = Some ms' \<Longrightarrow> ms_ok ms'"
  by (auto simp: ms_ok_def mf_delete_def bind_Some_iff split: if_splits)

lemma decode_addr_frame:
  "decode_addr cfg a ms = Some (x, ms') \<Longrightarrow>
    ms_heap ms' = ms_heap ms \<and> ms_next ms' = ms_next ms \<and> ms_next_uid ms' = ms_next_uid ms"
  by (auto simp: decode_addr_def bind_Some_iff split: if_splits list.splits)

lemma mem_fetch_new_heap:
  assumes "mem_fetch_new access inst ctrl wid sid tpc cfg cycle orig origw ms = Some (r, ms')"
  shows "r = ms_next ms \<and> ms_next ms' = Suc (ms_next ms) \<and>
    (\<exists>mf. ms_heap ms' = (ms_heap ms)(r \<mapsto> mf) \<and> mf_access mf = access \<and> mf_ok mf \<and>
       mf_data_size mf = ma_req_size access \<and> original_mf mf = orig \<and> original_wr_mf mf = origw \<and>
       mf_type mf = (if ma_write access then WRITE_REQUEST else READ_REQUEST) \<and>
       mf_inst mf = (case inst of Some i \<Rightarrow> i | None \<Rightarrow> no_inst))"
  using assms
  by (cases inst; cases orig)
     (auto simp: mem_fetch_new_def bind_Some_iff Let_def mf_ok_def get_is_write_def
       dest!: decode_addr_frame)

lemma ms_ok_new [inv_intros]:
  "ms_ok ms \<Longrightarrow> mem_fetch_new access inst ctrl wid sid tpc cfg cycle orig origw ms = Some (r, ms') \<Longrightarrow>
   ms_ok ms' \<and> ms_heap ms r = None"
  by (drule mem_fetch_new_heap) (force simp: ms_ok_def)

section \<open>Properties\<close>

text \<open>
  Turning a request around. For a request whose type agrees with its access, \<open>set_reply\<close>
  fails exactly for write-backs (which nobody waits for), turns a read request into a read reply
  and a write request into a write acknowledgement, changes nothing else, and a second call leaves
  the reply as it is.
\<close>

lemma set_reply_turns_around:
  assumes "mf_ok mf"
  shows "set_reply mf =
    (if get_access_type mf = L1_WRBK_ACC \<or> get_access_type mf = L2_WRBK_ACC then None
     else Some (mf\<lparr>mf_type := (if get_is_write mf then WRITE_ACK else READ_REPLY)\<rparr>)) \<and>
    (\<forall>mf'. set_reply mf = Some mf' \<longrightarrow> mf_ok mf' \<and> set_reply mf' = Some mf')"
  using assms
  by (cases "mf_type mf") (auto simp: set_reply_def mf_ok_def get_is_write_def get_access_type_def ensure_def)

definition sample_access :: "mem_access_type \<Rightarrow> bool \<Rightarrow> mem_access" where
  "sample_access t wr = \<lparr>ma_addr = 0x1000, ma_write = wr, ma_req_size = 32, ma_type = t,
     ma_warp_mask = 1, ma_byte_mask = 1, ma_sector_mask = 1\<rparr>"

definition sample_fetch :: "mem_access \<Rightarrow> mem_fetch" where
  "sample_fetch a = \<lparr>mf_request_uid = 1, mf_sid = 0, mf_tpc = 0, mf_wid = 0,
     mf_status = MEM_FETCH_INITIALIZED, mf_status_change = 0, mf_access = a,
     mf_data_size = ma_req_size a, mf_ctrl_size = 8, mf_partition_addr = ma_addr a,
     mf_raw_addr = \<lparr>tlx_chip = 0, tlx_bk = 0, tlx_row = 0, tlx_col = 0, tlx_burst = 0, tlx_sub_partition = 0\<rparr>,
     mf_type = (if ma_write a then WRITE_REQUEST else READ_REQUEST), mf_timestamp = 0, mf_timestamp2 = 0,
     mf_inst = no_inst, mf_icnt_flit_size = 32,
     mf_mem_config = \<lparr>mc_address_mapping = addr_map_new, mc_icnt_flit_size = 32\<rparr>,
     original_mf = None, original_wr_mf = None\<rparr>"

lemma set_reply_turns_around_witness:
  "set_reply (sample_fetch (sample_access GLOBAL_ACC_W True)) =
    Some ((sample_fetch (sample_access GLOBAL_ACC_W True))\<lparr>mf_type := WRITE_ACK\<rparr>)"
proof -
  have "mf_ok (sample_fetch (sample_access GLOBAL_ACC_W True))"
    by (simp add: mf_ok_def sample_fetch_def sample_access_def get_is_write_def)
  from set_reply_turns_around[OF this] show ?thesis
    by (simp add: sample_fetch_def sample_access_def get_is_write_def get_access_type_def)
qed

text \<open>
  \<open>get_num_flits\<close> is the exact ceiling: the flits of a packet hold its bytes and one flit fewer
  would not. The packet carries the data exactly for atomics, writes on the way to memory and reads
  on the way back, otherwise only the control bytes.
\<close>

lemma ceil_div_word:
  fixes sz fl :: u32
  assumes "fl \<noteq> 0"
  defines "n \<equiv> sz div fl + (if sz mod fl \<noteq> 0 then 1 else 0)"
  shows "unat sz \<le> unat n * unat fl \<and> (n \<noteq> 0 \<longrightarrow> (unat n - 1) * unat fl < unat sz)"
proof -
  have fl: "0 < unat fl" using assms(1) by (simp add: unat_gt_0)
  have dm: "unat sz = unat sz div unat fl * unat fl + unat sz mod unat fl" by simp
  have "unat n = unat sz div unat fl + (if unat sz mod unat fl \<noteq> 0 then 1 else 0)"
  proof (cases "sz mod fl = 0")
    case True
    then have "unat sz mod unat fl = 0" by (metis unat_0 unat_mod_distrib)
    then show ?thesis using True by (simp add: n_def unat_div_distrib)
  next
    case False
    then have m: "unat sz mod unat fl \<noteq> 0" by (metis unat_eq_0 unat_mod_distrib)
    have "2 \<le> unat fl" using m fl by (cases "unat fl = 1") auto
    then have "unat sz div unat fl * 2 \<le> unat sz div unat fl * unat fl" by (rule mult_le_mono2)
    also have "\<dots> \<le> unat sz" by (rule div_times_less_eq_dividend)
    finally have "Suc (unat sz div unat fl) < 2 ^ 32" using u32_lt[of sz] by simp
    then have "Suc (unat (sz div fl)) < 2 ^ 32" by (simp add: unat_div_distrib)
    then show ?thesis using False m by (simp add: n_def unat_div_distrib unat_word_ariths)
  qed
  moreover have "unat sz mod unat fl < unat fl" using fl by simp
  ultimately obtain q r where "unat sz = q * unat fl + r" "r < unat fl"
    "unat n = q + (if r \<noteq> 0 then 1 else 0)"
    using dm by blast
  then show ?thesis by (cases "r = 0"; cases q) (auto simp: unat_eq_0[symmetric])
qed

lemma num_flits_is_ceiling:
  assumes "get_num_flits simt_to_mem mf = Some n"
  shows "\<exists>sz. sz = (if isatomic mf \<or> (if simt_to_mem then get_is_write mf else \<not> get_is_write mf)
                   then mf_size mf else mf_ctrl_size mf) \<and>
    unat sz \<le> unat n * unat (mf_icnt_flit_size mf) \<and>
    (n \<noteq> 0 \<longrightarrow> (unat n - 1) * unat (mf_icnt_flit_size mf) < unat sz)"
proof -
  have fl: "mf_icnt_flit_size mf \<noteq> 0" using assms by (auto simp: get_num_flits_def Let_def)
  show ?thesis
    using assms ceil_div_word[OF fl, of "mf_size mf"] ceil_div_word[OF fl, of "mf_ctrl_size mf"]
    by (cases simt_to_mem) (auto simp: get_num_flits_def Let_def)
qed

lemma num_flits_is_ceiling_witness:
  "\<exists>sz. sz = mf_size (sample_fetch (sample_access GLOBAL_ACC_W True)) \<and>
    unat sz \<le> unat (2 :: u32) * 32 \<and> (unat (2 :: u32) - 1) * 32 < unat sz"
proof -
  have "get_num_flits True (sample_fetch (sample_access GLOBAL_ACC_W True)) = Some 2"
    by (simp add: get_num_flits_def sample_fetch_def sample_access_def isatomic_def no_inst_def
        get_is_write_def mf_size_def)
  from num_flits_is_ceiling[OF this] show ?thesis
    by (simp add: sample_fetch_def sample_access_def get_is_write_def mf_size_def)
qed

end
