(* ===== verification/CacheBlock.thy ===== *)
theory CacheBlock
  imports MemFetch
begin

text \<open>
  The lines of a cache (\<open>cache_block_t\<close> and its subclasses in \<open>gpgpu-sim/gpu-cache.h\<close>). A
  \<open>line_cache_block\<close> has one state for the whole line, a \<open>sector_cache_block\<close> one for each of its
  four sectors; the datatype \<open>cache_block\<close> is the object behind a \<open>cache_block_t *\<close>, and the
  operations on it are the virtual functions. The locale \<open>block_contract\<close> is the abstract class as
  the tag array uses it.
\<close>

section \<open>Data\<close>

datatype cache_block_state = INVALID | RESERVED | VALID | MODIFIED

record line_cache_block =
  lb_tag :: u64
  lb_block_addr :: u64
  lb_alloc_time :: u64
  lb_last_access_time :: u64
  lb_fill_time :: u64
  lb_status :: cache_block_state
  lb_ignore_on_fill_status :: bool
  lb_set_modified_on_fill :: bool
  lb_readable :: bool

text \<open>The arrays of a sector block are functions of the sector number, below \<open>SECTOR_CHUNCK_SIZE\<close>.\<close>

record sector_cache_block =
  sb_tag :: u64
  sb_block_addr :: u64
  sb_sector_alloc_time :: "nat \<Rightarrow> u32"
  sb_last_sector_access_time :: "nat \<Rightarrow> u32"
  sb_sector_fill_time :: "nat \<Rightarrow> u32"
  sb_line_alloc_time :: u32
  sb_line_last_access_time :: u32
  sb_line_fill_time :: u32
  sb_status :: "nat \<Rightarrow> cache_block_state"
  sb_ignore_on_fill_status :: "nat \<Rightarrow> bool"
  sb_set_modified_on_fill :: "nat \<Rightarrow> bool"
  sb_readable :: "nat \<Rightarrow> bool"

datatype cache_block = Line line_cache_block | Sector sector_cache_block

section \<open>Line blocks\<close>

definition line_cache_block_new :: line_cache_block where
  "line_cache_block_new = \<lparr>lb_tag = 0, lb_block_addr = 0, lb_alloc_time = 0, lb_last_access_time = 0,
     lb_fill_time = 0, lb_status = INVALID, lb_ignore_on_fill_status = False,
     lb_set_modified_on_fill = False, lb_readable = True\<rparr>"

definition line_allocate :: "u64 \<Rightarrow> u64 \<Rightarrow> u32 \<Rightarrow> line_cache_block \<Rightarrow> line_cache_block" where
  "line_allocate tag block_addr time b =
     b\<lparr>lb_tag := tag, lb_block_addr := block_addr, lb_alloc_time := ucast time,
       lb_last_access_time := ucast time, lb_fill_time := 0, lb_status := RESERVED,
       lb_ignore_on_fill_status := False, lb_set_modified_on_fill := False\<rparr>"

definition line_fill :: "u32 \<Rightarrow> line_cache_block \<Rightarrow> line_cache_block" where
  "line_fill time b =
     b\<lparr>lb_status := (if lb_set_modified_on_fill b then MODIFIED else VALID), lb_fill_time := ucast time\<rparr>"

section \<open>Sector blocks\<close>

abbreviation sectors :: "nat list" where "sectors \<equiv> [0..<SECTOR_CHUNCK_SIZE]"

definition get_sector_index :: "sector_mask \<Rightarrow> nat option" where
  "get_sector_index sector_mask = do {
     ensure (length (filter (bit sector_mask) sectors) = 1);
     find (bit sector_mask) sectors
   }"

text \<open>\<open>init\<close>, called by the constructor and by \<open>allocate_line\<close>, leaves tag and address alone.\<close>

definition sector_init :: "sector_cache_block \<Rightarrow> sector_cache_block" where
  "sector_init b = b\<lparr>sb_sector_alloc_time := (\<lambda>_. 0), sb_sector_fill_time := (\<lambda>_. 0),
     sb_last_sector_access_time := (\<lambda>_. 0), sb_status := (\<lambda>_. INVALID),
     sb_ignore_on_fill_status := (\<lambda>_. False), sb_set_modified_on_fill := (\<lambda>_. False),
     sb_readable := (\<lambda>_. True), sb_line_alloc_time := 0, sb_line_last_access_time := 0,
     sb_line_fill_time := 0\<rparr>"

definition sector_cache_block_new :: sector_cache_block where
  "sector_cache_block_new = sector_init \<lparr>sb_tag = 0, sb_block_addr = 0,
     sb_sector_alloc_time = (\<lambda>_. 0), sb_last_sector_access_time = (\<lambda>_. 0),
     sb_sector_fill_time = (\<lambda>_. 0), sb_line_alloc_time = 0, sb_line_last_access_time = 0,
     sb_line_fill_time = 0, sb_status = (\<lambda>_. INVALID), sb_ignore_on_fill_status = (\<lambda>_. False),
     sb_set_modified_on_fill = (\<lambda>_. False), sb_readable = (\<lambda>_. True)\<rparr>"

definition sector_is_invalid_line :: "sector_cache_block \<Rightarrow> bool" where
  "sector_is_invalid_line b = list_all (\<lambda>i. sb_status b i = INVALID) sectors"

definition sector_is_valid_line :: "sector_cache_block \<Rightarrow> bool" where
  "sector_is_valid_line b = (\<not> sector_is_invalid_line b)"

definition sector_is_reserved_line :: "sector_cache_block \<Rightarrow> bool" where
  "sector_is_reserved_line b = list_ex (\<lambda>i. sb_status b i = RESERVED) sectors"

definition sector_is_modified_line :: "sector_cache_block \<Rightarrow> bool" where
  "sector_is_modified_line b = list_ex (\<lambda>i. sb_status b i = MODIFIED) sectors"

definition allocate_line ::
  "u64 \<Rightarrow> u64 \<Rightarrow> u32 \<Rightarrow> sector_mask \<Rightarrow> sector_cache_block \<Rightarrow> sector_cache_block option" where
  "allocate_line tag block_addr time smask b = do {
     let b = (sector_init b)\<lparr>sb_tag := tag, sb_block_addr := block_addr\<rparr>;
     sidx \<leftarrow> get_sector_index smask;
     Some (b\<lparr>sb_sector_alloc_time := (sb_sector_alloc_time b)(sidx := time),
             sb_last_sector_access_time := (sb_last_sector_access_time b)(sidx := time),
             sb_sector_fill_time := (sb_sector_fill_time b)(sidx := 0),
             sb_status := (sb_status b)(sidx := RESERVED),
             sb_ignore_on_fill_status := (sb_ignore_on_fill_status b)(sidx := False),
             sb_set_modified_on_fill := (sb_set_modified_on_fill b)(sidx := False),
             sb_line_alloc_time := time, sb_line_last_access_time := time, sb_line_fill_time := 0\<rparr>)
   }"

definition sector_allocate_sector :: "u32 \<Rightarrow> sector_mask \<Rightarrow> sector_cache_block \<Rightarrow> sector_cache_block option" where
  "sector_allocate_sector time smask b = do {
     ensure (sector_is_valid_line b);
     sidx \<leftarrow> get_sector_index smask;
     let b = b\<lparr>sb_sector_alloc_time := (sb_sector_alloc_time b)(sidx := time),
               sb_last_sector_access_time := (sb_last_sector_access_time b)(sidx := time),
               sb_sector_fill_time := (sb_sector_fill_time b)(sidx := 0)\<rparr>;
     let b = (if sb_status b sidx = MODIFIED
              then b\<lparr>sb_set_modified_on_fill := (sb_set_modified_on_fill b)(sidx := True)\<rparr>
              else b\<lparr>sb_set_modified_on_fill := (sb_set_modified_on_fill b)(sidx := False)\<rparr>);
     Some (b\<lparr>sb_status := (sb_status b)(sidx := RESERVED),
             sb_ignore_on_fill_status := (sb_ignore_on_fill_status b)(sidx := False),
             sb_readable := (sb_readable b)(sidx := True),
             sb_line_last_access_time := time, sb_line_fill_time := 0\<rparr>)
   }"

definition sector_fill :: "u32 \<Rightarrow> sector_mask \<Rightarrow> sector_cache_block \<Rightarrow> sector_cache_block option" where
  "sector_fill time smask b = do {
     sidx \<leftarrow> get_sector_index smask;
     Some (b\<lparr>sb_status := (sb_status b)(sidx := (if sb_set_modified_on_fill b sidx then MODIFIED else VALID)),
             sb_sector_fill_time := (sb_sector_fill_time b)(sidx := time),
             sb_line_fill_time := time\<rparr>)
   }"

definition sector_get_modified_size :: "sector_cache_block \<Rightarrow> u32" where
  "sector_get_modified_size b =
     of_nat (length (filter (\<lambda>i. sb_status b i = MODIFIED) sectors)) * SECTOR_SIZE"

section \<open>The virtual functions\<close>

fun b_tag :: "cache_block \<Rightarrow> u64" where
  "b_tag (Line b) = lb_tag b"
| "b_tag (Sector b) = sb_tag b"

fun b_block_addr :: "cache_block \<Rightarrow> u64" where
  "b_block_addr (Line b) = lb_block_addr b"
| "b_block_addr (Sector b) = sb_block_addr b"

fun allocate :: "u64 \<Rightarrow> u64 \<Rightarrow> u32 \<Rightarrow> sector_mask \<Rightarrow> cache_block \<Rightarrow> cache_block option" where
  "allocate tag block_addr time smask (Line b) = Some (Line (line_allocate tag block_addr time b))"
| "allocate tag block_addr time smask (Sector b) = map_option Sector (allocate_line tag block_addr time smask b)"

text \<open>A \<open>line_cache_block\<close> cast to \<open>sector_cache_block *\<close> is undefined behaviour.\<close>

fun allocate_sector :: "u32 \<Rightarrow> sector_mask \<Rightarrow> cache_block \<Rightarrow> cache_block option" where
  "allocate_sector time smask (Line b) = None"
| "allocate_sector time smask (Sector b) = map_option Sector (sector_allocate_sector time smask b)"

fun block_fill :: "u32 \<Rightarrow> sector_mask \<Rightarrow> cache_block \<Rightarrow> cache_block option" where
  "block_fill time smask (Line b) = Some (Line (line_fill time b))"
| "block_fill time smask (Sector b) = map_option Sector (sector_fill time smask b)"

fun is_invalid_line :: "cache_block \<Rightarrow> bool" where
  "is_invalid_line (Line b) = (lb_status b = INVALID)"
| "is_invalid_line (Sector b) = sector_is_invalid_line b"

fun is_valid_line :: "cache_block \<Rightarrow> bool" where
  "is_valid_line (Line b) = (lb_status b = VALID)"
| "is_valid_line (Sector b) = sector_is_valid_line b"

fun is_reserved_line :: "cache_block \<Rightarrow> bool" where
  "is_reserved_line (Line b) = (lb_status b = RESERVED)"
| "is_reserved_line (Sector b) = sector_is_reserved_line b"

fun is_modified_line :: "cache_block \<Rightarrow> bool" where
  "is_modified_line (Line b) = (lb_status b = MODIFIED)"
| "is_modified_line (Sector b) = sector_is_modified_line b"

fun get_block_status :: "sector_mask \<Rightarrow> cache_block \<Rightarrow> cache_block_state option" where
  "get_block_status smask (Line b) = Some (lb_status b)"
| "get_block_status smask (Sector b) = map_option (sb_status b) (get_sector_index smask)"

fun set_block_status :: "cache_block_state \<Rightarrow> sector_mask \<Rightarrow> cache_block \<Rightarrow> cache_block option" where
  "set_block_status s smask (Line b) = Some (Line (b\<lparr>lb_status := s\<rparr>))"
| "set_block_status s smask (Sector b) =
     map_option (\<lambda>i. Sector (b\<lparr>sb_status := (sb_status b)(i := s)\<rparr>)) (get_sector_index smask)"

fun get_last_access_time :: "cache_block \<Rightarrow> u64" where
  "get_last_access_time (Line b) = lb_last_access_time b"
| "get_last_access_time (Sector b) = ucast (sb_line_last_access_time b)"

fun set_last_access_time :: "u64 \<Rightarrow> sector_mask \<Rightarrow> cache_block \<Rightarrow> cache_block option" where
  "set_last_access_time time smask (Line b) = Some (Line (b\<lparr>lb_last_access_time := time\<rparr>))"
| "set_last_access_time time smask (Sector b) =
     map_option (\<lambda>i. Sector (b\<lparr>
       sb_last_sector_access_time := (sb_last_sector_access_time b)(i := ucast time),
       sb_line_last_access_time := ucast time\<rparr>)) (get_sector_index smask)"

fun get_alloc_time :: "cache_block \<Rightarrow> u64" where
  "get_alloc_time (Line b) = lb_alloc_time b"
| "get_alloc_time (Sector b) = ucast (sb_line_alloc_time b)"

fun set_ignore_on_fill :: "bool \<Rightarrow> sector_mask \<Rightarrow> cache_block \<Rightarrow> cache_block option" where
  "set_ignore_on_fill m smask (Line b) = Some (Line (b\<lparr>lb_ignore_on_fill_status := m\<rparr>))"
| "set_ignore_on_fill m smask (Sector b) =
     map_option (\<lambda>i. Sector (b\<lparr>sb_ignore_on_fill_status := (sb_ignore_on_fill_status b)(i := m)\<rparr>))
       (get_sector_index smask)"

fun set_modified_on_fill :: "bool \<Rightarrow> sector_mask \<Rightarrow> cache_block \<Rightarrow> cache_block option" where
  "set_modified_on_fill m smask (Line b) = Some (Line (b\<lparr>lb_set_modified_on_fill := m\<rparr>))"
| "set_modified_on_fill m smask (Sector b) =
     map_option (\<lambda>i. Sector (b\<lparr>sb_set_modified_on_fill := (sb_set_modified_on_fill b)(i := m)\<rparr>))
       (get_sector_index smask)"

fun set_m_readable :: "bool \<Rightarrow> sector_mask \<Rightarrow> cache_block \<Rightarrow> cache_block option" where
  "set_m_readable r smask (Line b) = Some (Line (b\<lparr>lb_readable := r\<rparr>))"
| "set_m_readable r smask (Sector b) =
     map_option (\<lambda>i. Sector (b\<lparr>sb_readable := (sb_readable b)(i := r)\<rparr>)) (get_sector_index smask)"

fun is_readable :: "sector_mask \<Rightarrow> cache_block \<Rightarrow> bool option" where
  "is_readable smask (Line b) = Some (lb_readable b)"
| "is_readable smask (Sector b) = map_option (sb_readable b) (get_sector_index smask)"

fun get_modified_size :: "cache_block \<Rightarrow> u32" where
  "get_modified_size (Line b) = of_nat SECTOR_CHUNCK_SIZE * SECTOR_SIZE"
| "get_modified_size (Sector b) = sector_get_modified_size b"

section \<open>The contract of a cache block\<close>

text \<open>A request asks for exactly one sector; \<open>get_sector_index\<close> asserts it.\<close>

definition one_sector :: "sector_mask \<Rightarrow> bool" where
  "one_sector smask = (get_sector_index smask \<noteq> None)"

lemma get_sector_index_lt: "get_sector_index smask = Some i \<Longrightarrow> i < SECTOR_CHUNCK_SIZE \<and> bit smask i"
  by (auto simp: get_sector_index_def bind_Some_iff find_Some_iff)

text \<open>
  The abstract class: a state for each sector mask, and how allocating, filling and setting the
  state change it. Laws that only hold for one-sector masks say so.
\<close>

locale block_contract =
  fixes tag_of :: "'b \<Rightarrow> u64" and status :: "sector_mask \<Rightarrow> 'b \<Rightarrow> cache_block_state option"
    and alloc :: "u64 \<Rightarrow> u64 \<Rightarrow> u32 \<Rightarrow> sector_mask \<Rightarrow> 'b \<Rightarrow> 'b option"
    and fill :: "u32 \<Rightarrow> sector_mask \<Rightarrow> 'b \<Rightarrow> 'b option"
    and set_status :: "cache_block_state \<Rightarrow> sector_mask \<Rightarrow> 'b \<Rightarrow> 'b option"
    and invalid reserved modified :: "'b \<Rightarrow> bool"
    and accessed allocated :: "'b \<Rightarrow> u64"
  assumes status_total: "one_sector m \<Longrightarrow> status m b \<noteq> None"
    and alloc_total: "one_sector m \<Longrightarrow> alloc t a now m b \<noteq> None"
    and alloc_laws: "one_sector m \<Longrightarrow> alloc t a now m b = Some b' \<Longrightarrow>
      tag_of b' = t \<and> status m b' = Some RESERVED \<and> accessed b' = ucast now \<and> allocated b' = ucast now \<and>
      \<not> modified b'"
    and fill_total: "one_sector m \<Longrightarrow> fill now m b \<noteq> None"
    and fill_laws: "one_sector m \<Longrightarrow> fill now m b = Some b' \<Longrightarrow>
      tag_of b' = tag_of b \<and> (status m b' = Some VALID \<or> status m b' = Some MODIFIED) \<and>
      accessed b' = accessed b \<and> allocated b' = allocated b"
    and fill_alloc: "one_sector m \<Longrightarrow> alloc t a now m b = Some b1 \<Longrightarrow> fill later m b1 = Some b2 \<Longrightarrow>
      status m b2 = Some VALID"
    and set_total: "one_sector m \<Longrightarrow> set_status s m b \<noteq> None"
    and set_laws: "one_sector m \<Longrightarrow> set_status s m b = Some b' \<Longrightarrow>
      tag_of b' = tag_of b \<and> status m b' = Some s \<and> accessed b' = accessed b \<and> allocated b' = allocated b"
    and reserved_status: "status m b = Some RESERVED \<Longrightarrow> reserved b"
    and modified_status: "status m b = Some MODIFIED \<Longrightarrow> modified b"
    and invalid_status: "one_sector m \<Longrightarrow> invalid b \<Longrightarrow> status m b = Some INVALID"
    and invalid_excl: "invalid b \<Longrightarrow> \<not> reserved b \<and> \<not> modified b"
begin

lemma alloc_reserves: "one_sector m \<Longrightarrow> alloc t a now m b = Some b' \<Longrightarrow> reserved b' \<and> \<not> invalid b'"
  using alloc_laws reserved_status invalid_excl by blast

lemma life_cycle:
  assumes "one_sector m"
  shows "\<exists>b1 b2. alloc t a now m b = Some b1 \<and> fill later m b1 = Some b2 \<and> reserved b1 \<and>
    tag_of b2 = t \<and> status m b2 = Some VALID \<and> allocated b2 = ucast now"
proof -
  obtain b1 where b1: "alloc t a now m b = Some b1" using alloc_total[OF assms] by blast
  obtain b2 where b2: "fill later m b1 = Some b2" using fill_total[OF assms] by blast
  show ?thesis
    using b1 b2 alloc_laws[OF assms b1] alloc_reserves[OF assms b1] fill_laws[OF assms b2]
      fill_alloc[OF assms b1 b2] by auto
qed

lemma set_modified_marks:
  "one_sector m \<Longrightarrow> set_status MODIFIED m b = Some b' \<Longrightarrow> modified b' \<and> \<not> invalid b'"
  using set_laws modified_status invalid_excl by blast

end

interpretation line_block: block_contract lb_tag "\<lambda>_ b. Some (lb_status b)"
  "\<lambda>t a now _ b. Some (line_allocate t a now b)" "\<lambda>now _ b. Some (line_fill now b)"
  "\<lambda>s _ b. Some (b\<lparr>lb_status := s\<rparr>)" "\<lambda>b. lb_status b = INVALID" "\<lambda>b. lb_status b = RESERVED"
  "\<lambda>b. lb_status b = MODIFIED" lb_last_access_time lb_alloc_time
  by unfold_locales (auto simp: line_allocate_def line_fill_def)

lemma sector_exists: "get_sector_index m = Some i \<Longrightarrow> P i \<Longrightarrow> list_ex P sectors"
  by (auto simp: list_ex_iff dest!: get_sector_index_lt)

interpretation sector_block: block_contract sb_tag "\<lambda>m b. map_option (sb_status b) (get_sector_index m)"
  allocate_line sector_fill
  "\<lambda>s m b. map_option (\<lambda>i. b\<lparr>sb_status := (sb_status b)(i := s)\<rparr>) (get_sector_index m)"
  sector_is_invalid_line sector_is_reserved_line sector_is_modified_line
  "\<lambda>b. ucast (sb_line_last_access_time b)" "\<lambda>b. ucast (sb_line_alloc_time b)"
proof unfold_locales
  show "sector_is_invalid_line b \<Longrightarrow> one_sector m \<Longrightarrow> map_option (sb_status b) (get_sector_index m) = Some INVALID"
    for b m
    using get_sector_index_lt[of m]
    by (cases "get_sector_index m") (auto simp: one_sector_def sector_is_invalid_line_def list_all_iff)
  show "sector_is_invalid_line b \<Longrightarrow> \<not> sector_is_reserved_line b \<and> \<not> sector_is_modified_line b" for b
    by (auto simp: sector_is_invalid_line_def sector_is_reserved_line_def sector_is_modified_line_def
        list_all_iff list_ex_iff)
  show "map_option (sb_status b) (get_sector_index m) = Some RESERVED \<Longrightarrow> sector_is_reserved_line b" for b m
    by (auto simp: sector_is_reserved_line_def intro: sector_exists)
  show "map_option (sb_status b) (get_sector_index m) = Some MODIFIED \<Longrightarrow> sector_is_modified_line b" for b m
    by (auto simp: sector_is_modified_line_def intro: sector_exists)
qed (auto simp: one_sector_def allocate_line_def sector_fill_def bind_Some_iff bind_None_iff
      sector_init_def sector_is_modified_line_def list_ex_iff Let_def split: if_splits)

interpretation block: block_contract b_tag get_block_status allocate block_fill set_block_status
  is_invalid_line is_reserved_line is_modified_line get_last_access_time get_alloc_time
proof unfold_locales
  fix m :: sector_mask and b b' b1 b2 :: cache_block and t a now later s
  assume m: "one_sector m"
  note S = sector_block.status_total[OF m] sector_block.alloc_total[OF m] sector_block.fill_total[OF m]
    sector_block.set_total[OF m]
  show "get_block_status m b \<noteq> None" using S(1) by (cases b) simp_all
  show "allocate t a now m b \<noteq> None" using S(2) by (cases b) simp_all
  show "block_fill now m b \<noteq> None" using S(3) by (cases b) simp_all
  show "set_block_status s m b \<noteq> None" using S(4) by (cases b) simp_all
  show "is_invalid_line b \<Longrightarrow> get_block_status m b = Some INVALID"
    using sector_block.invalid_status[OF m] by (cases b) simp_all
  {
    assume "allocate t a now m b = Some b'"
    then show "b_tag b' = t \<and> get_block_status m b' = Some RESERVED \<and> get_last_access_time b' = ucast now \<and>
        get_alloc_time b' = ucast now \<and> \<not> is_modified_line b'"
      by (cases b) (auto simp: line_allocate_def dest: sector_block.alloc_laws[OF m])
  }
  {
    assume "block_fill now m b = Some b'"
    then show "b_tag b' = b_tag b \<and> (get_block_status m b' = Some VALID \<or> get_block_status m b' = Some MODIFIED) \<and>
        get_last_access_time b' = get_last_access_time b \<and> get_alloc_time b' = get_alloc_time b"
      by (cases b) (auto simp: line_fill_def dest: sector_block.fill_laws[OF m])
  }
  {
    assume "allocate t a now m b = Some b1" "block_fill later m b1 = Some b2"
    then show "get_block_status m b2 = Some VALID"
    proof (cases b)
      case (Sector x)
      then obtain x1 x2 where "b2 = Sector x2" "allocate_line t a now m x = Some x1"
        "sector_fill later m x1 = Some x2"
        using \<open>allocate t a now m b = Some b1\<close> \<open>block_fill later m b1 = Some b2\<close> by auto
      then show ?thesis using sector_block.fill_alloc[OF m] by simp
    qed (auto simp: line_fill_def line_allocate_def)
  }
  {
    assume "set_block_status s m b = Some b'"
    then show "b_tag b' = b_tag b \<and> get_block_status m b' = Some s \<and>
        get_last_access_time b' = get_last_access_time b \<and> get_alloc_time b' = get_alloc_time b"
      by (cases b) auto
  }
next
  fix m b
  show "get_block_status m b = Some RESERVED \<Longrightarrow> is_reserved_line b"
    by (cases b) (auto intro: sector_block.reserved_status)
  show "get_block_status m b = Some MODIFIED \<Longrightarrow> is_modified_line b"
    by (cases b) (auto intro: sector_block.modified_status)
  show "is_invalid_line b \<Longrightarrow> \<not> is_reserved_line b \<and> \<not> is_modified_line b"
    using sector_block.invalid_excl by (cases b) simp_all
qed

section \<open>Further facts about blocks\<close>

fun is_sector_block :: "cache_block \<Rightarrow> bool" where
  "is_sector_block (Line b) = False"
| "is_sector_block (Sector b) = True"

lemma allocate_addr [simp]: "allocate t a now m b = Some b' \<Longrightarrow> b_block_addr b' = a \<and> is_sector_block b' = is_sector_block b"
  by (cases b) (auto simp: line_allocate_def allocate_line_def bind_Some_iff Let_def)

lemma block_fill_frame: "block_fill now m b = Some b' \<Longrightarrow> b_block_addr b' = b_block_addr b \<and> b_tag b' = b_tag b \<and>
  is_sector_block b' = is_sector_block b"
  by (cases b) (auto simp: line_fill_def sector_fill_def bind_Some_iff)

lemma set_block_status_frame: "set_block_status s m b = Some b' \<Longrightarrow> b_block_addr b' = b_block_addr b \<and>
  b_tag b' = b_tag b \<and> is_sector_block b' = is_sector_block b"
  by (cases b) auto

lemma set_last_access_frame: "set_last_access_time t m b = Some b' \<Longrightarrow>
  b_tag b' = b_tag b \<and> b_block_addr b' = b_block_addr b \<and> is_sector_block b' = is_sector_block b \<and>
  get_block_status m' b' = get_block_status m' b \<and> is_reserved_line b' = is_reserved_line b \<and>
  is_invalid_line b' = is_invalid_line b \<and> is_modified_line b' = is_modified_line b \<and>
  get_alloc_time b' = get_alloc_time b"
  by (cases b)
     (auto simp: sector_is_reserved_line_def sector_is_invalid_line_def sector_is_modified_line_def)

lemma set_last_access_total: "one_sector m \<Longrightarrow> \<exists>b'. set_last_access_time t m b = Some b'"
  by (cases b) (auto simp: one_sector_def)

lemma allocate_sector_laws:
  "one_sector m \<Longrightarrow> allocate_sector now m b = Some b' \<Longrightarrow>
    b_tag b' = b_tag b \<and> b_block_addr b' = b_block_addr b \<and> is_sector_block b' \<and>
    get_block_status m b' = Some RESERVED \<and> is_reserved_line b'"
  by (cases b)
     (auto simp: one_sector_def sector_allocate_sector_def bind_Some_iff Let_def sector_is_reserved_line_def
       intro!: sector_exists split: if_splits)

lemma allocate_sector_total:
  "one_sector m \<Longrightarrow> is_sector_block b \<Longrightarrow> is_valid_line b \<Longrightarrow> \<exists>b'. allocate_sector now m b = Some b'"
  by (cases b) (auto simp: one_sector_def sector_allocate_sector_def Let_def)

lemma allocate_sector_shape: "allocate_sector now m b = Some b' \<Longrightarrow> is_sector_block b \<and> is_valid_line b"
  by (cases b) (auto simp: sector_allocate_sector_def)

section \<open>Properties\<close>

text \<open>
  The life cycle of a block, for line and sector blocks alike: allocating it for a one-sector
  request reserves it under the new tag, and the fill for the same sector makes exactly that sector
  readable as \<open>VALID\<close> and keeps tag and allocation time.
\<close>

lemma block_life_cycle:
  assumes "one_sector m"
  shows "\<exists>b1 b2. allocate t a now m b = Some b1 \<and> block_fill later m b1 = Some b2 \<and>
    is_reserved_line b1 \<and> b_tag b2 = t \<and> get_block_status m b2 = Some VALID \<and>
    get_alloc_time b2 = ucast now"
  by (rule block.life_cycle[OF assms])

lemma block_life_cycle_witness:
  "\<exists>b1 b2. allocate 0x80 0x80 7 0b0100 (Sector sector_cache_block_new) = Some b1 \<and>
    block_fill 9 0b0100 b1 = Some b2 \<and> is_reserved_line b1 \<and> b_tag b2 = 0x80 \<and>
    get_block_status 0b0100 b2 = Some VALID \<and> get_alloc_time b2 = ucast (7 :: u32)"
  by (rule block_life_cycle) (simp add: one_sector_def get_sector_index_def upt_rec)

text \<open>
  The bytes a write-back of a line has to carry: \<open>get_modified_size\<close> of a sector block is 32
  bytes for each modified sector, so it is 0 exactly when the line is not modified and never more
  than the 128 bytes of a line.
\<close>

lemma sector_modified_size:
  "unat (sector_get_modified_size b) = 32 * card {i. i < SECTOR_CHUNCK_SIZE \<and> sb_status b i = MODIFIED} \<and>
   (sector_get_modified_size b = 0 \<longleftrightarrow> \<not> sector_is_modified_line b) \<and>
   unat (sector_get_modified_size b) \<le> 128"
proof -
  let ?l = "filter (\<lambda>i. sb_status b i = MODIFIED) sectors"
  have c: "card {i. i < SECTOR_CHUNCK_SIZE \<and> sb_status b i = MODIFIED} = length ?l"
    using distinct_card[of ?l] by (simp add: conj_commute)
  have le: "length ?l \<le> 4" using length_filter_le[of _ sectors] by (metis diff_zero length_upt)
  have u: "unat (sector_get_modified_size b) = 32 * length ?l"
    using le by (simp add: sector_get_modified_size_def unat_word_ariths unsigned_of_nat take_bit_eq_mod)
  have "sector_get_modified_size b = 0 \<longleftrightarrow> ?l = []"
    using u by (metis length_0_conv mult_is_0 unat_eq_0 zero_neq_numeral)
  also have "\<dots> \<longleftrightarrow> \<not> sector_is_modified_line b"
    by (auto simp: sector_is_modified_line_def list_ex_iff filter_empty_conv)
  finally show ?thesis using c u le by simp
qed

end
