(* ===== verification/CacheConfig.thy ===== *)
theory CacheConfig
  imports CacheBlock
begin

unbundle bit_operations_syntax

text \<open>
  The configuration of a cache (\<open>cache_config\<close>, \<open>l1d_cache_config\<close> and \<open>l2_cache_config\<close> in
  \<open>gpgpu-sim/gpu-cache.h\<close>): parsing and checking the configuration string, and the functions that
  map an address to its set, its bank, its block and its miss register.
\<close>

section \<open>Data\<close>

datatype replacement_policy_t = LRU | FIFO

datatype write_policy_t = READ_ONLY | WRITE_BACK | WRITE_THROUGH | WRITE_EVICT | LOCAL_WB_GLOBAL_WT

datatype allocation_policy_t = ON_MISS | ON_FILL | STREAMING

datatype write_allocate_policy_t = NO_WRITE_ALLOCATE | WRITE_ALLOCATE | FETCH_ON_WRITE | LAZY_FETCH_ON_READ

datatype mshr_config_t = TEX_FIFO | ASSOC | SECTOR_TEX_FIFO | SECTOR_ASSOC

datatype set_index_function =
  LINEAR_SET_FUNCTION | BITWISE_XORING_FUNCTION | HASH_IPOLY_FUNCTION | FERMI_HASH_SET_FUNCTION |
  CUSTOM_SET_FUNCTION

datatype cache_type = NORMAL | SECTOR

datatype FuncCache = FuncCachePreferNone | FuncCachePreferShared | FuncCachePreferL1

abbreviation MAX_DEFAULT_CACHE_SIZE_MULTIBLIER :: u32 where "MAX_DEFAULT_CACHE_SIZE_MULTIBLIER \<equiv> 4"
abbreviation MAX_WARP_PER_SM :: u32 where "MAX_WARP_PER_SM \<equiv> 64"

text \<open>
  The unions of the class share a field: \<open>m_mshr_entries\<close> is also \<open>m_fragment_fifo_entries\<close>,
  \<open>m_mshr_max_merge\<close> is \<open>m_request_fifo_entries\<close> and \<open>m_miss_queue_size\<close> is \<open>m_rob_entries\<close>.
\<close>

record cache_config =
  cache_status :: FuncCache
  m_valid :: bool
  m_disabled :: bool
  m_line_sz :: u32
  m_line_sz_log2 :: u32
  m_nset :: u32
  m_nset_log2 :: u32
  m_assoc :: u32
  m_atom_sz :: u32
  m_sector_sz_log2 :: u32
  original_m_assoc :: u32
  m_is_streaming :: bool
  m_replacement_policy :: replacement_policy_t
  m_write_policy :: write_policy_t
  m_alloc_policy :: allocation_policy_t
  m_mshr_type :: mshr_config_t
  m_cache_type :: cache_type
  m_write_alloc_policy :: write_allocate_policy_t
  m_mshr_entries :: u32
  m_mshr_max_merge :: u32
  m_miss_queue_size :: u32
  m_result_fifo_entries :: u32
  m_data_port_width :: u32
  m_set_index_function :: set_index_function

section \<open>Scanning the configuration string\<close>

text \<open>
  The part of \<open>sscanf\<close> the class uses: \<open>%c\<close>, \<open>%u\<close> and literal characters. The result is the list of
  converted values; scanning stops at the first failure.
\<close>

datatype scan_item = ScanChar | ScanUnsigned | Literal char
datatype scan_value = CharValue char | UnsignedValue u32

fun sscanf :: "scan_item list \<Rightarrow> string \<Rightarrow> scan_value list" where
  "sscanf [] s = []"
| "sscanf (Literal c # fmt) s = (case s of [] \<Rightarrow> [] | d # ds \<Rightarrow> if d = c then sscanf fmt ds else [])"
| "sscanf (ScanChar # fmt) s = (case s of [] \<Rightarrow> [] | d # ds \<Rightarrow> CharValue d # sscanf fmt ds)"
| "sscanf (ScanUnsigned # fmt) s =
     (let s = dropWhile is_space s in
      case scan_decimal s of
        None \<Rightarrow> []
      | Some v \<Rightarrow>
          let s = (if s \<noteq> [] \<and> (hd s = CHR ''-'' \<or> hd s = CHR ''+'') then tl s else s)
          in UnsignedValue (of_int v) # sscanf fmt (dropWhile is_digit s))"

definition config_format :: "scan_item list" where
  "config_format =
    [ScanChar, Literal (CHR '':''), ScanUnsigned, Literal (CHR '':''), ScanUnsigned, Literal (CHR '':''),
     ScanUnsigned, Literal (CHR '',''), ScanChar, Literal (CHR '':''), ScanChar, Literal (CHR '':''),
     ScanChar, Literal (CHR '':''), ScanChar, Literal (CHR '':''), ScanChar, Literal (CHR '',''),
     ScanChar, Literal (CHR '':''), ScanUnsigned, Literal (CHR '':''), ScanUnsigned, Literal (CHR '',''),
     ScanUnsigned, Literal (CHR '':''), ScanUnsigned, Literal (CHR '',''), ScanUnsigned]"

fun char_at :: "scan_value list \<Rightarrow> nat \<Rightarrow> char option" where
  "char_at vs i = (if i < length vs then (case vs ! i of CharValue c \<Rightarrow> Some c | _ \<Rightarrow> None) else None)"

text \<open>A field that was not converted keeps its value.\<close>

fun unsigned_at :: "scan_value list \<Rightarrow> nat \<Rightarrow> u32 \<Rightarrow> u32" where
  "unsigned_at vs i old =
    (if i < length vs then (case vs ! i of UnsignedValue v \<Rightarrow> v | _ \<Rightarrow> old) else old)"

section \<open>Initialisation\<close>

definition parse_cache_type :: "char \<Rightarrow> cache_type option" where
  "parse_cache_type c = map_of [(CHR ''N'', NORMAL), (CHR ''S'', SECTOR)] c"

definition parse_replacement :: "char \<Rightarrow> replacement_policy_t option" where
  "parse_replacement c = map_of [(CHR ''L'', LRU), (CHR ''F'', FIFO)] c"

definition parse_write_policy :: "char \<Rightarrow> write_policy_t option" where
  "parse_write_policy c = map_of [(CHR ''R'', READ_ONLY), (CHR ''B'', WRITE_BACK),
     (CHR ''T'', WRITE_THROUGH), (CHR ''E'', WRITE_EVICT), (CHR ''L'', LOCAL_WB_GLOBAL_WT)] c"

definition parse_allocation :: "char \<Rightarrow> allocation_policy_t option" where
  "parse_allocation c = map_of [(CHR ''m'', ON_MISS), (CHR ''f'', ON_FILL), (CHR ''s'', STREAMING)] c"

definition parse_mshr_type :: "char \<Rightarrow> mshr_config_t option" where
  "parse_mshr_type c = map_of [(CHR ''F'', TEX_FIFO), (CHR ''T'', SECTOR_TEX_FIFO), (CHR ''A'', ASSOC),
     (CHR ''S'', SECTOR_ASSOC)] c"

definition parse_write_alloc :: "char \<Rightarrow> write_allocate_policy_t option" where
  "parse_write_alloc c = map_of [(CHR ''N'', NO_WRITE_ALLOCATE), (CHR ''W'', WRITE_ALLOCATE),
     (CHR ''F'', FETCH_ON_WRITE), (CHR ''L'', LAZY_FETCH_ON_READ)] c"

definition parse_set_index :: "char \<Rightarrow> set_index_function option" where
  "parse_set_index c = map_of [(CHR ''H'', FERMI_HASH_SET_FUNCTION), (CHR ''P'', HASH_IPOLY_FUNCTION),
     (CHR ''C'', CUSTOM_SET_FUNCTION), (CHR ''L'', LINEAR_SET_FUNCTION)] c"

text \<open>A streaming cache allocates on fill and has as many miss registers as it may have lines.\<close>

definition setup_streaming :: "cache_config \<Rightarrow> cache_config" where
  "setup_streaming cfg =
    (if m_alloc_policy cfg = STREAMING then
       let entries = m_nset cfg * m_assoc cfg * MAX_DEFAULT_CACHE_SIZE_MULTIBLIER;
           entries = (if m_cache_type cfg = SECTOR then entries * of_nat SECTOR_CHUNCK_SIZE else entries)
       in cfg\<lparr>m_is_streaming := True, m_alloc_policy := ON_FILL, m_mshr_entries := entries,
              m_mshr_max_merge := MAX_WARP_PER_SM\<rparr>
     else cfg)"

text \<open>The checks for configurations the model cannot run.\<close>

definition check_config :: "cache_config \<Rightarrow> unit option" where
  "check_config cfg = do {
     ensure (\<not> (m_alloc_policy cfg = ON_FILL \<and> m_write_policy cfg = WRITE_BACK));
     ensure (\<not> ((m_write_alloc_policy cfg = FETCH_ON_WRITE \<or> m_write_alloc_policy cfg = LAZY_FETCH_ON_READ) \<and>
                 m_alloc_policy cfg = ON_FILL));
     ensure (m_cache_type cfg = SECTOR \<longrightarrow>
       m_line_sz cfg div SECTOR_SIZE = of_nat SECTOR_CHUNCK_SIZE \<and> m_line_sz cfg mod SECTOR_SIZE = 0)
   }"

definition store_numbers :: "scan_value list \<Rightarrow> FuncCache \<Rightarrow> cache_config \<Rightarrow> cache_config" where
  "store_numbers vs status cfg =
     cfg\<lparr>cache_status := status, m_nset := unsigned_at vs 1 (m_nset cfg),
       m_line_sz := unsigned_at vs 2 (m_line_sz cfg), m_assoc := unsigned_at vs 3 (m_assoc cfg),
       m_mshr_entries := unsigned_at vs 10 (m_mshr_entries cfg),
       m_mshr_max_merge := unsigned_at vs 11 (m_mshr_max_merge cfg),
       m_miss_queue_size := unsigned_at vs 12 (m_miss_queue_size cfg),
       m_result_fifo_entries := unsigned_at vs 13 (m_result_fifo_entries cfg),
       m_data_port_width := unsigned_at vs 14 (m_data_port_width cfg)\<rparr>"

definition set_derived :: "mshr_config_t \<Rightarrow> write_allocate_policy_t \<Rightarrow> cache_config \<Rightarrow> cache_config" where
  "set_derived mt wap cfg =
     cfg\<lparr>m_mshr_type := mt, m_line_sz_log2 := LOGB2 (m_line_sz cfg), m_nset_log2 := LOGB2 (m_nset cfg),
       m_valid := True, m_atom_sz := (if m_cache_type cfg = SECTOR then SECTOR_SIZE else m_line_sz cfg),
       m_sector_sz_log2 := LOGB2 SECTOR_SIZE, original_m_assoc := m_assoc cfg,
       m_write_alloc_policy := wap\<rparr>"

definition default_port_width :: "cache_config \<Rightarrow> cache_config" where
  "default_port_width cfg =
    (if m_data_port_width cfg = 0 then cfg\<lparr>m_data_port_width := m_line_sz cfg\<rparr> else cfg)"

definition config_from_tokens :: "scan_value list \<Rightarrow> cache_config \<Rightarrow> cache_config option" where
  "config_from_tokens vs cfg = do {
     ct \<leftarrow> Option.bind (char_at vs 0) parse_cache_type;
     rp \<leftarrow> Option.bind (char_at vs 4) parse_replacement;
     wp \<leftarrow> Option.bind (char_at vs 5) parse_write_policy;
     ap \<leftarrow> Option.bind (char_at vs 6) parse_allocation;
     cfg \<leftarrow> Some (setup_streaming (cfg\<lparr>m_cache_type := ct, m_replacement_policy := rp,
       m_write_policy := wp, m_alloc_policy := ap\<rparr>));
     mt \<leftarrow> Option.bind (char_at vs 9) parse_mshr_type;
     ensure (mt = TEX_FIFO \<or> mt = SECTOR_TEX_FIFO \<longrightarrow> length vs = 14);
     wap \<leftarrow> Option.bind (char_at vs 7) parse_write_alloc;
     cfg \<leftarrow> Some (set_derived mt wap cfg);
     check_config cfg;
     cfg \<leftarrow> Some (default_port_width cfg);
     ensure (m_data_port_width cfg \<noteq> 0 \<and> m_line_sz cfg mod m_data_port_width cfg = 0);
     sif \<leftarrow> Option.bind (char_at vs 8) parse_set_index;
     Some (cfg\<lparr>m_set_index_function := sif\<rparr>)
   }"

definition cache_config_init :: "string \<Rightarrow> FuncCache \<Rightarrow> cache_config \<Rightarrow> cache_config option" where
  "cache_config_init config status cfg =
    (let vs = sscanf config_format config;
         cfg = store_numbers vs status cfg
     in if length vs < 12 then
          (if config = ''none'' then Some (cfg\<lparr>m_disabled := True\<rparr>) else None)
        else config_from_tokens vs cfg)"

definition cache_config_new :: cache_config where
  "cache_config_new = \<lparr>cache_status = FuncCachePreferNone, m_valid = False, m_disabled = False,
     m_line_sz = 0, m_line_sz_log2 = 0, m_nset = 0, m_nset_log2 = 0, m_assoc = 0, m_atom_sz = 0,
     m_sector_sz_log2 = 0, original_m_assoc = 0, m_is_streaming = False, m_replacement_policy = LRU,
     m_write_policy = READ_ONLY, m_alloc_policy = ON_MISS, m_mshr_type = TEX_FIFO, m_cache_type = NORMAL,
     m_write_alloc_policy = NO_WRITE_ALLOCATE, m_mshr_entries = 0, m_mshr_max_merge = 0,
     m_miss_queue_size = 0, m_result_fifo_entries = 0, m_data_port_width = 0,
     m_set_index_function = LINEAR_SET_FUNCTION\<rparr>"

section \<open>Accessors\<close>

definition get_num_lines :: "cache_config \<Rightarrow> u32 option" where
  "get_num_lines cfg = do { ensure (m_valid cfg); Some (m_nset cfg * m_assoc cfg) }"

definition get_max_num_lines :: "cache_config \<Rightarrow> u32 option" where
  "get_max_num_lines cfg = do {
     ensure (m_valid cfg);
     Some (MAX_DEFAULT_CACHE_SIZE_MULTIBLIER * m_nset cfg * original_m_assoc cfg) }"

definition get_atom_sz :: "cache_config \<Rightarrow> u32 option" where
  "get_atom_sz cfg = do { ensure (m_valid cfg); Some (m_atom_sz cfg) }"

definition get_line_sz :: "cache_config \<Rightarrow> u32 option" where
  "get_line_sz cfg = do { ensure (m_valid cfg); Some (m_line_sz cfg) }"

definition set_assoc :: "u32 \<Rightarrow> cache_config \<Rightarrow> cache_config" where
  "set_assoc n cfg = cfg\<lparr>m_assoc := n\<rparr>"

text \<open>\<open>~(new_addr_type)(m_line_sz - 1)\<close>: the subtraction is 32-bit, the complement 64-bit.\<close>

definition cfg_block_addr :: "cache_config \<Rightarrow> u64 \<Rightarrow> u64" where
  "cfg_block_addr cfg addr = addr AND NOT (ucast (m_line_sz cfg - 1))"

definition cfg_tag :: "cache_config \<Rightarrow> u64 \<Rightarrow> u64" where
  "cfg_tag cfg addr = addr AND NOT (ucast (m_line_sz cfg - 1))"

definition cfg_mshr_addr :: "cache_config \<Rightarrow> u64 \<Rightarrow> u64" where
  "cfg_mshr_addr cfg addr = addr AND NOT (ucast (m_atom_sz cfg - 1))"

section \<open>The set of an address\<close>

definition fermi_index :: "u64 \<Rightarrow> u32 \<Rightarrow> nat \<Rightarrow> u32" where
  "fermi_index addr nset line_log2 =
    (let lower_xor = (ucast (drop_bit line_log2 addr AND 0x1F) :: u32);
         upper_xor = (ucast (drop_bit 13 (addr AND 0xE000)) :: u32);
         upper_xor = upper_xor OR ucast (drop_bit 14 (addr AND 0x20000));
         upper_xor = upper_xor OR ucast (drop_bit 15 (addr AND 0x80000));
         set_index = lower_xor XOR upper_xor
     in if nset = 64 then set_index OR ucast (drop_bit 7 (addr AND 0x1000)) else set_index)"

definition hash_function :: "u64 \<Rightarrow> u32 \<Rightarrow> u32 \<Rightarrow> u32 \<Rightarrow> set_index_function \<Rightarrow> u32 option" where
  "hash_function addr nset line_sz_log2 nset_log2 index_function = do {
     let higher_shift = unat (line_sz_log2 + nset_log2);
     let index = (ucast (drop_bit (unat line_sz_log2) addr AND ucast (nset - 1)) :: u32);
     set_index \<leftarrow> (case index_function of
         FERMI_HASH_SET_FUNCTION \<Rightarrow> do {
           ensure (nset = 32 \<or> nset = 64);
           ensure (unat line_sz_log2 < 64);
           Some (fermi_index addr nset (unat line_sz_log2)) }
       | BITWISE_XORING_FUNCTION \<Rightarrow> do {
           ensure (higher_shift < 64 \<and> unat line_sz_log2 < 64);
           Some (bitwise_hash_function (drop_bit higher_shift addr) index nset) }
       | HASH_IPOLY_FUNCTION \<Rightarrow> do {
           ensure (higher_shift < 64 \<and> unat line_sz_log2 < 64);
           ipoly_hash_function (drop_bit higher_shift addr) index nset }
       | CUSTOM_SET_FUNCTION \<Rightarrow> Some 0
       | LINEAR_SET_FUNCTION \<Rightarrow> do {
           ensure (unat line_sz_log2 < 64);
           Some index });
     ensure (set_index < nset);
     Some set_index
   }"

definition cfg_set_index :: "cache_config \<Rightarrow> u64 \<Rightarrow> u32 option" where
  "cfg_set_index cfg addr =
     hash_function addr (m_nset cfg) (m_line_sz_log2 cfg) (m_nset_log2 cfg) (m_set_index_function cfg)"

text \<open>
  \<open>l2_cache_config::set_index\<close> removes the partition bits first; the address mapping pointer is
  \<open>NULL\<close> for a cache outside a memory partition.
\<close>

definition l2_set_index :: "cache_config \<Rightarrow> addr_map option \<Rightarrow> u64 \<Rightarrow> u32 option" where
  "l2_set_index cfg address_mapping addr =
    (case address_mapping of
       None \<Rightarrow> cfg_set_index cfg addr
     | Some m \<Rightarrow> do { part_addr \<leftarrow> partition_address m addr; cfg_set_index cfg part_addr })"

text \<open>\<open>l1d_cache_config\<close>: the bank of an address.\<close>

record l1d_config =
  l1_banks :: u32
  l1_banks_log2 :: u32
  l1_banks_byte_interleaving :: u32
  banks_byte_interleaving_log2 :: u32
  l1_banks_hashing_function :: set_index_function

definition l1d_init :: "l1d_config \<Rightarrow> l1d_config" where
  "l1d_init c = c\<lparr>banks_byte_interleaving_log2 := LOGB2 (l1_banks_byte_interleaving c),
                  l1_banks_log2 := LOGB2 (l1_banks c)\<rparr>"

definition set_bank :: "l1d_config \<Rightarrow> u64 \<Rightarrow> u32 option" where
  "set_bank c addr = hash_function addr (l1_banks c) (l1_banks_byte_interleaving c) (l1_banks_log2 c)
     (l1_banks_hashing_function c)"

section \<open>Sets and lines\<close>

lemma bit_set_bits:
  assumes "k < 32"
  shows "bit (ucast (drop_bit l addr AND ucast ((2 :: u32) ^ k - 1)) :: u32) i = (i < k \<and> bit (addr :: u64) (l + i))"
proof -
  have "(2 :: u32) ^ k - 1 = mask k" by (simp add: mask_eq_exp_minus_1)
  then show ?thesis
    using assms by (auto simp: bit_ucast_iff bit_and_iff bit_drop_bit_eq bit_mask_iff)
qed

lemma set_bits_lt:
  assumes "k < 32"
  shows "unat (ucast (drop_bit l (addr :: u64) AND ucast ((2 :: u32) ^ k - 1)) :: u32) < 2 ^ k"
  unfolding unat_lt_pow2_iff by (rule bit_word_eqI) (auto simp: bit_take_bit_iff bit_set_bits[OF assms])

text \<open>
  A geometry the set functions are meant for: a power-of-two number of sets, at most 64 address bits
  in line offset and index, and 16, 32 or 64 sets for the polynomial hash.
\<close>

definition set_geometry :: "cache_config \<Rightarrow> nat \<Rightarrow> bool" where
  "set_geometry cfg k =
     (k < 32 \<and> m_nset cfg = 2 ^ k \<and> m_nset_log2 cfg = of_nat k \<and> unat (m_line_sz_log2 cfg) + k < 64 \<and>
      (m_set_index_function cfg = LINEAR_SET_FUNCTION \<or>
       m_set_index_function cfg = BITWISE_XORING_FUNCTION \<or>
       m_set_index_function cfg = HASH_IPOLY_FUNCTION \<and> (k = 4 \<or> k = 5 \<or> k = 6)))"

definition set_hash :: "cache_config \<Rightarrow> nat \<Rightarrow> u64 \<Rightarrow> u32 \<Rightarrow> u32" where
  "set_hash cfg k h i =
    (case m_set_index_function cfg of
       LINEAR_SET_FUNCTION \<Rightarrow> i
     | BITWISE_XORING_FUNCTION \<Rightarrow> bitwise_hash_function h i (2 ^ k)
     | _ \<Rightarrow> the (ipoly_hash_function h i (2 ^ k)))"

lemma set_hash_index:
  assumes "set_geometry cfg k"
  shows "index_hash (set_hash cfg k) (2 ^ k)"
proof -
  have k: "k < 32" using assms by (simp add: set_geometry_def)
  consider "m_set_index_function cfg = LINEAR_SET_FUNCTION"
    | "m_set_index_function cfg = BITWISE_XORING_FUNCTION"
    | "m_set_index_function cfg = HASH_IPOLY_FUNCTION" "k = 4 \<or> k = 5 \<or> k = 6"
    using assms by (auto simp: set_geometry_def)
  then show ?thesis
  proof cases
    case 1
    then show ?thesis by (simp add: index_hash_def set_hash_def)
  next
    case 2
    then have "set_hash cfg k = (\<lambda>h i. bitwise_hash_function h i (2 ^ k))"
      by (simp add: set_hash_def fun_eq_iff)
    then show ?thesis using index_hash_bitwise[OF k] by simp
  next
    case 3
    then have eq: "set_hash cfg k = (\<lambda>h i. the (ipoly_hash_function h i (2 ^ k)))"
      by (simp add: set_hash_def fun_eq_iff)
    show ?thesis
      using 3(2) ipoly16.index_hash_axioms ipoly32.index_hash_axioms ipoly64.index_hash_axioms
      unfolding eq by (elim disjE) simp_all
  qed
qed

lemma set_index_eq:
  assumes "set_geometry cfg k"
  defines "l \<equiv> unat (m_line_sz_log2 cfg)"
  shows "cfg_set_index cfg addr =
    Some (set_hash cfg k (drop_bit (l + k) addr) (ucast (drop_bit l addr AND ucast (m_nset cfg - 1))))"
proof -
  have k: "k < 32" and n: "m_nset cfg = 2 ^ k" using assms(1) by (simp_all add: set_geometry_def)
  let ?i = "ucast (drop_bit l addr AND ucast (m_nset cfg - 1)) :: u32"
  have sh: "unat (m_line_sz_log2 cfg + m_nset_log2 cfg) = l + k"
    using assms(1) unfolding set_geometry_def l_def
    by (simp add: unat_word_ariths unsigned_of_nat take_bit_eq_mod)
  have i: "unat ?i < 2 ^ k" unfolding n by (rule set_bits_lt[OF k])
  have "unat (set_hash cfg k (drop_bit (l + k) addr) ?i) < 2 ^ k"
    by (rule index_hash.hash_lt[OF set_hash_index[OF assms(1)] i])
  then have lt: "set_hash cfg k (drop_bit (l + k) addr) ?i < m_nset cfg"
    by (simp add: n word_less_nat_alt unat_pow2[OF k])
  have "l + k < 64" using assms(1) by (simp add: set_geometry_def l_def)
  then show ?thesis
    using assms(1) lt sh
    by (auto simp: cfg_set_index_def hash_function_def set_geometry_def set_hash_def l_def[symmetric] Let_def
        ipoly_hash_function_def ensure_def)
qed

lemma set_index_hash:
  assumes "set_geometry cfg k" "cfg_set_index cfg a = cfg_set_index cfg b"
    and "drop_bit (unat (m_line_sz_log2 cfg) + k) a = drop_bit (unat (m_line_sz_log2 cfg) + k) b"
  shows "drop_bit (unat (m_line_sz_log2 cfg)) a = drop_bit (unat (m_line_sz_log2 cfg)) b"
proof -
  let ?l = "unat (m_line_sz_log2 cfg)"
  let ?i = "\<lambda>x. ucast (drop_bit ?l x AND ucast ((2 :: u32) ^ k - 1)) :: u32"
  have k: "k < 32" and n: "m_nset cfg = 2 ^ k" using assms(1) by (simp_all add: set_geometry_def)
  have "?i a = ?i b"
    by (rule index_hash.hash_inj[OF set_hash_index[OF assms(1)] set_bits_lt[OF k] set_bits_lt[OF k]])
       (use assms(2,3) in \<open>simp add: set_index_eq[OF assms(1)] n\<close>)
  then have low: "i < k \<Longrightarrow> bit a (?l + i) = bit b (?l + i)" for i
    using bit_set_bits[OF k, of ?l a i] bit_set_bits[OF k, of ?l b i] by simp
  have high: "bit a (?l + k + j) = bit b (?l + k + j)" for j
  proof -
    have "bit (drop_bit (?l + k) a) j = bit (drop_bit (?l + k) b) j" using assms(3) by simp
    then show ?thesis by (simp add: bit_drop_bit_eq)
  qed
  show ?thesis
  proof (rule bit_word_eqI)
    fix i
    show "bit (drop_bit ?l a) i = bit (drop_bit ?l b) i"
      using low[of i] high[of "i - k"] by (cases "i < k") (simp_all add: bit_drop_bit_eq)
  qed
qed

section \<open>Properties\<close>

text \<open>
  C39: The assertion at the end of \<open>hash_function\<close> never fails for the linear, the bitwise and the
  polynomial set function on a supported geometry: every address has a set below \<open>m_nset\<close>.
\<close>

theorem set_index_in_range:
  assumes "set_geometry cfg k"
  shows "\<exists>i. cfg_set_index cfg addr = Some i \<and> i < m_nset cfg"
proof -
  have "cfg_set_index cfg addr = Some j \<Longrightarrow> j < m_nset cfg" for j
    by (auto simp: cfg_set_index_def hash_function_def bind_Some_iff Let_def)
  then show ?thesis using set_index_eq[OF assms] by blast
qed

definition sample_config :: cache_config where
  "sample_config = cache_config_new\<lparr>m_valid := True, m_line_sz := 128, m_line_sz_log2 := 7, m_nset := 32,
     m_nset_log2 := 5, m_assoc := 2, m_atom_sz := 128, original_m_assoc := 2, m_mshr_type := ASSOC,
     m_mshr_entries := 4, m_mshr_max_merge := 2, m_miss_queue_size := 4, m_data_port_width := 128,
     m_write_policy := WRITE_BACK, m_write_alloc_policy := WRITE_ALLOCATE,
     m_set_index_function := HASH_IPOLY_FUNCTION\<rparr>"

lemma sample_config_geometry: "set_geometry sample_config 5"
  by (simp add: set_geometry_def sample_config_def cache_config_new_def)

theorem set_index_in_range_witness: "\<exists>i. cfg_set_index sample_config 0xDEADBEEF = Some i \<and> i < m_nset sample_config"
  by (rule set_index_in_range[OF sample_config_geometry])

text \<open>
  Within one aligned block of \<open>m_nset\<close> lines (equal upper address bits) different lines go to
  different sets, whichever of the three set functions hashes the index.
\<close>

lemma set_index_spreads_lines:
  assumes "set_geometry cfg k"
    and "drop_bit (unat (m_line_sz_log2 cfg) + k) a = drop_bit (unat (m_line_sz_log2 cfg) + k) b"
    and "drop_bit (unat (m_line_sz_log2 cfg)) a \<noteq> drop_bit (unat (m_line_sz_log2 cfg)) b"
  shows "cfg_set_index cfg a \<noteq> cfg_set_index cfg b"
  using set_index_hash[OF assms(1) _ assms(2)] assms(3) by blast

lemma set_index_spreads_lines_witness:
  "cfg_set_index sample_config 0x5000 \<noteq> cfg_set_index sample_config 0x5080"
  by (rule set_index_spreads_lines[OF sample_config_geometry])
     (simp_all add: sample_config_def cache_config_new_def)

text \<open>
  C40: What a successfully parsed configuration guarantees. Unless the cache is disabled by \<open>none\<close>,
  the configuration is valid; allocate-on-fill is combined neither with write-back nor with a
  fetching write-allocate policy; a sector cache has four 32-byte sectors; the data port width
  divides the line; the logarithms are exact floors; and a streaming cache has one miss register
  for every line (sector) it may hold and allocates on fill.
\<close>

theorem parsed_config_is_consistent:
  assumes "cache_config_init s st cfg = Some c" "s \<noteq> ''none''" "m_is_streaming cfg = False"
  shows "m_valid c \<and> m_alloc_policy c \<noteq> STREAMING \<and>
    (m_alloc_policy c = ON_FILL \<longrightarrow> m_write_policy c \<noteq> WRITE_BACK \<and>
       m_write_alloc_policy c \<noteq> FETCH_ON_WRITE \<and> m_write_alloc_policy c \<noteq> LAZY_FETCH_ON_READ) \<and>
    (m_cache_type c = SECTOR \<longrightarrow> m_line_sz c = 128 \<and> m_atom_sz c = 32) \<and>
    (m_cache_type c = NORMAL \<longrightarrow> m_atom_sz c = m_line_sz c) \<and>
    m_data_port_width c \<noteq> 0 \<and> m_line_sz c mod m_data_port_width c = 0 \<and>
    m_line_sz_log2 c = LOGB2 (m_line_sz c) \<and> m_nset_log2 c = LOGB2 (m_nset c) \<and>
    (m_is_streaming c \<longrightarrow> m_alloc_policy c = ON_FILL \<and> m_mshr_max_merge c = 64 \<and>
       m_mshr_entries c = m_nset c * m_assoc c * (if m_cache_type c = SECTOR then 16 else 4))"
proof -
  have sec: "l = 128" if "l div 32 = 4" "l mod 32 = 0" for l :: u32
    using that div_mult_mod_eq[of l 32] by simp
  obtain vs c0 where c0: "config_from_tokens vs c0 = Some c" "m_is_streaming c0 = False"
    using assms by (auto simp: cache_config_init_def Let_def store_numbers_def split: if_splits)
  obtain ct rp wp ap mt wap sif c1 c2 where
    c1: "c1 = setup_streaming (c0\<lparr>m_cache_type := ct, m_replacement_policy := rp,
       m_write_policy := wp, m_alloc_policy := ap\<rparr>)"
    and c2: "c2 = default_port_width (set_derived mt wap c1)" "check_config (set_derived mt wap c1) = Some ()"
    and port: "m_data_port_width c2 \<noteq> 0" "m_line_sz c2 mod m_data_port_width c2 = 0"
    and c: "c = c2\<lparr>m_set_index_function := sif\<rparr>"
    using c0(1) unfolding config_from_tokens_def
    by (auto simp: bind_Some_iff simp del: char_at.simps intro!: that[OF refl refl] del: mod_0_imp_dvd)
  have s1: "m_alloc_policy c1 \<noteq> STREAMING" "m_cache_type c1 = ct"
    "m_is_streaming c1 \<Longrightarrow> m_alloc_policy c1 = ON_FILL \<and> m_mshr_max_merge c1 = 64 \<and>
      m_mshr_entries c1 = m_nset c1 * m_assoc c1 * (if ct = SECTOR then 16 else 4)"
    using c0(2) by (auto simp: c1 setup_streaming_def Let_def)
  have s2: "m_line_sz c2 = m_line_sz c1" "m_nset c2 = m_nset c1" "m_assoc c2 = m_assoc c1"
    "m_cache_type c2 = ct" "m_alloc_policy c2 = m_alloc_policy c1" "m_write_policy c2 = m_write_policy c1"
    "m_write_alloc_policy c2 = wap" "m_is_streaming c2 = m_is_streaming c1" "m_valid c2"
    "m_mshr_entries c2 = m_mshr_entries c1" "m_mshr_max_merge c2 = m_mshr_max_merge c1"
    "m_atom_sz c2 = (if ct = SECTOR then 32 else m_line_sz c1)"
    "m_line_sz_log2 c2 = LOGB2 (m_line_sz c1)" "m_nset_log2 c2 = LOGB2 (m_nset c1)"
    by (simp_all add: c2(1) default_port_width_def set_derived_def s1(2))
  have chk: "m_alloc_policy c1 = ON_FILL \<Longrightarrow> m_write_policy c1 \<noteq> WRITE_BACK \<and> wap \<noteq> FETCH_ON_WRITE \<and>
      wap \<noteq> LAZY_FETCH_ON_READ" "ct = SECTOR \<Longrightarrow> m_line_sz c1 = 128"
    using c2(2) sec[of "m_line_sz c1"] by (auto simp: check_config_def set_derived_def s1(2))
  show ?thesis using c s1 s2 chk port by simp
qed

theorem parsed_config_is_consistent_witness:
  "\<exists>c. cache_config_init ''S:4:128:64,L:T:m:L:L,A:256:64,16:0,32'' FuncCachePreferNone cache_config_new = Some c \<and>
    m_valid c \<and> m_line_sz c = 128 \<and> m_atom_sz c = 32 \<and> m_line_sz_log2 c = LOGB2 128"
proof -
  let ?s = "''S:4:128:64,L:T:m:L:L,A:256:64,16:0,32''"
  have digit: "is_digit CHR ''0''" by (simp add: is_digit_def)
  have vs: "sscanf config_format ?s =
    [CharValue CHR ''S'', UnsignedValue 4, UnsignedValue 128, UnsignedValue 64, CharValue CHR ''L'',
     CharValue CHR ''T'', CharValue CHR ''m'', CharValue CHR ''L'', CharValue CHR ''L'', CharValue CHR ''A'',
     UnsignedValue 256, UnsignedValue 64, UnsignedValue 16, UnsignedValue 0, UnsignedValue 32]"
    by (simp add: config_format_def is_space_def scan_decimal_def scan_unsigned_def is_digit_def
        digits_value_def Let_def)
  obtain c where c: "cache_config_init ?s FuncCachePreferNone cache_config_new = Some c"
    "m_cache_type c = SECTOR"
    by (simp add: cache_config_init_def vs Let_def store_numbers_def config_from_tokens_def
        parse_cache_type_def parse_replacement_def parse_write_policy_def parse_allocation_def
        parse_mshr_type_def parse_write_alloc_def parse_set_index_def setup_streaming_def set_derived_def
        check_config_def default_port_width_def cache_config_new_def)
  have "m_is_streaming cache_config_new = False" by (simp add: cache_config_new_def)
  from parsed_config_is_consistent[OF c(1) _ this] c show ?thesis by simp
qed

text \<open>
  \<open>set_bank\<close> passes the interleaving granularity itself where \<open>hash_function\<close> expects its logarithm
  (which \<open>init\<close> computes and nobody reads): with a 32-byte interleaving and any power-of-two number
  of banks, every address below 4 GB falls into bank 0.
\<close>

lemma set_bank_ignores_low_bits:
  assumes "l1_banks_byte_interleaving c = 32" "l1_banks_hashing_function c = LINEAR_SET_FUNCTION"
    and "l1_banks c \<noteq> 0" "unat addr < 2 ^ 32"
  shows "set_bank c addr = Some 0"
proof -
  have "drop_bit 32 addr = 0"
  proof -
    have "unat (drop_bit 32 addr) = unat addr div 2 ^ 32"
      by (simp only: unat_drop_bit_eq) (simp only: drop_bit_eq_div)
    then show ?thesis using assms(4) by (simp add: word_unat_eq_iff)
  qed
  moreover have "0 < l1_banks c" using assms(3) by (simp add: word_gt_0)
  ultimately show ?thesis using assms by (simp add: set_bank_def hash_function_def)
qed

end
