(* ===== verification/TagArray.thy ===== *)
theory TagArray
  imports CacheConfig
begin

text \<open>
  The tag array of a cache (\<open>tag_array\<close> in \<open>gpgpu-sim/gpu-cache.cc\<close>): probing a set for a block,
  choosing a victim, allocating, filling, flushing. An index that the source leaves unset is \<open>None\<close>.
\<close>

section \<open>State\<close>

datatype cache_request_status = HIT | HIT_RESERVED | MISS | RESERVATION_FAIL | SECTOR_MISS

record evicted_block_info =
  m_block_addr :: u64
  m_modified_size :: u32

text \<open>
  \<open>ta_mapping\<close> stands for the virtual \<open>set_index\<close>: an \<open>l2_cache_config\<close> with an address mapping
  removes the partition bits, any other configuration has \<open>None\<close>.
\<close>

record tag_array =
  ta_config :: cache_config
  ta_mapping :: "addr_map option"
  ta_lines :: "cache_block list"
  ta_access :: u32
  ta_miss :: u32
  ta_pending_hit :: u32
  ta_res_fail :: u32
  ta_sector_miss :: u32
  ta_prev_snapshot_access :: u32
  ta_prev_snapshot_miss :: u32
  ta_prev_snapshot_pending_hit :: u32
  ta_is_used :: bool
  ta_pending_lines :: "u64 \<rightharpoonup> u32"

definition ta_set_index :: "tag_array \<Rightarrow> u64 \<Rightarrow> u32 option" where
  "ta_set_index ta addr = l2_set_index (ta_config ta) (ta_mapping ta) addr"

definition tag_array_new :: "cache_config \<Rightarrow> addr_map option \<Rightarrow> tag_array option" where
  "tag_array_new cfg mapping = do {
     n \<leftarrow> get_max_num_lines cfg;
     let block = (if m_cache_type cfg = NORMAL then Line line_cache_block_new
                  else Sector sector_cache_block_new);
     Some \<lparr>ta_config = cfg, ta_mapping = mapping, ta_lines = replicate (unat n) block,
       ta_access = 0, ta_miss = 0, ta_pending_hit = 0, ta_res_fail = 0, ta_sector_miss = 0,
       ta_prev_snapshot_access = 0, ta_prev_snapshot_miss = 0, ta_prev_snapshot_pending_hit = 0,
       ta_is_used = False, ta_pending_lines = Map.empty\<rparr>
   }"

definition ta_update_cache_parameters :: "cache_config \<Rightarrow> tag_array \<Rightarrow> tag_array" where
  "ta_update_cache_parameters cfg ta = ta\<lparr>ta_config := cfg\<rparr>"

definition add_pending_line :: "mem_fetch \<Rightarrow> tag_array \<Rightarrow> tag_array" where
  "add_pending_line mf ta =
    (let addr = cfg_block_addr (ta_config ta) (get_addr mf)
     in if ta_pending_lines ta addr = None
        then ta\<lparr>ta_pending_lines := (ta_pending_lines ta)(addr \<mapsto> inst_uid (mf_inst mf))\<rparr>
        else ta)"

definition remove_pending_line :: "mem_fetch \<Rightarrow> tag_array \<Rightarrow> tag_array" where
  "remove_pending_line mf ta =
    (let addr = cfg_block_addr (ta_config ta) (get_addr mf)
     in if ta_pending_lines ta addr \<noteq> None
        then ta\<lparr>ta_pending_lines := (ta_pending_lines ta)(addr := None)\<rparr>
        else ta)"

section \<open>Probing\<close>

text \<open>The comparison of one line with the tag: \<open>Some\<close> result returns from the loop at once.\<close>

definition match_line :: "u64 \<Rightarrow> sector_mask \<Rightarrow> cache_block \<Rightarrow> cache_request_status option option" where
  "match_line tag smask line =
    (if b_tag line = tag then do {
       st \<leftarrow> get_block_status smask line;
       (case st of
          RESERVED \<Rightarrow> Some (Some HIT_RESERVED)
        | VALID \<Rightarrow> Some (Some HIT)
        | MODIFIED \<Rightarrow> do {
            r \<leftarrow> is_readable smask line;
            Some (Some (if r then HIT else SECTOR_MISS)) }
        | INVALID \<Rightarrow> Some (if is_valid_line line then Some SECTOR_MISS else None)) }
     else Some None)"

text \<open>The candidates found so far; \<open>-1\<close> is the source's marker for none.\<close>

record probe_acc =
  invalid_line :: u32
  valid_line :: u32
  valid_timestamp :: u64
  all_reserved :: bool

definition line_time :: "replacement_policy_t \<Rightarrow> cache_block \<Rightarrow> u64" where
  "line_time policy line = (case policy of LRU \<Rightarrow> get_last_access_time line | FIFO \<Rightarrow> get_alloc_time line)"

definition note_candidate :: "replacement_policy_t \<Rightarrow> u32 \<Rightarrow> cache_block \<Rightarrow> probe_acc \<Rightarrow> probe_acc" where
  "note_candidate policy index line acc =
    (if \<not> is_reserved_line line then
       let acc = acc\<lparr>all_reserved := False\<rparr>
       in if is_invalid_line line then acc\<lparr>invalid_line := index\<rparr>
          else if line_time policy line < valid_timestamp acc
               then acc\<lparr>valid_timestamp := line_time policy line, valid_line := index\<rparr>
               else acc
     else acc)"

fun probe_loop ::
  "cache_block list \<Rightarrow> replacement_policy_t \<Rightarrow> u64 \<Rightarrow> sector_mask \<Rightarrow> u32 list \<Rightarrow> probe_acc
   \<Rightarrow> (cache_request_status \<times> u32 + probe_acc) option" where
  "probe_loop lines policy tag smask [] acc = Some (Inr acc)"
| "probe_loop lines policy tag smask (index # is) acc = do {
     line \<leftarrow> at lines (unat index);
     found \<leftarrow> match_line tag smask line;
     (case found of
        Some st \<Rightarrow> Some (Inl (st, index))
      | None \<Rightarrow> probe_loop lines policy tag smask is (note_candidate policy index line acc)) }"

text \<open>The line numbers of a set.\<close>

definition set_lines :: "cache_config \<Rightarrow> u32 \<Rightarrow> u32 list" where
  "set_lines cfg set_index =
     map (\<lambda>way. set_index * m_assoc cfg + of_nat way) [0..<unat (m_assoc cfg)]"

text \<open>
  \<open>probe\<close>: the status and the index it stores; \<open>None\<close> for the index when \<open>idx\<close> is left alone. The
  request is \<open>None\<close> where the source passes \<open>NULL\<close>.
\<close>

definition probe ::
  "u64 \<Rightarrow> sector_mask \<Rightarrow> bool \<Rightarrow> mem_fetch option \<Rightarrow> tag_array
   \<Rightarrow> (cache_request_status \<times> u32 option) option" where
  "probe addr smask probe_mode mf ta = do {
     let cfg = ta_config ta;
     set_index \<leftarrow> ta_set_index ta addr;
     r \<leftarrow> probe_loop (ta_lines ta) (m_replacement_policy cfg) (cfg_tag cfg addr) smask
            (set_lines cfg set_index)
            \<lparr>invalid_line = - 1, valid_line = - 1, valid_timestamp = 0xFFFFFFFF, all_reserved = True\<rparr>;
     (case r of
        Inl (st, index) \<Rightarrow> Some (st, Some index)
      | Inr acc \<Rightarrow>
          if all_reserved acc then do {
            ensure (m_alloc_policy cfg = ON_MISS);
            Some (RESERVATION_FAIL, None) }
          else do {
            idx \<leftarrow> (if invalid_line acc \<noteq> - 1 then Some (invalid_line acc)
                    else if valid_line acc \<noteq> - 1 then Some (valid_line acc)
                    else None);
            (if probe_mode \<and> m_is_streaming cfg then do {
               m \<leftarrow> mf;
               (case ta_pending_lines ta (cfg_block_addr cfg addr) of
                  Some uid \<Rightarrow>
                    if \<not> get_is_write m \<and> uid \<noteq> inst_uid (mf_inst m) then Some (SECTOR_MISS, Some idx)
                    else Some (MISS, Some idx)
                | None \<Rightarrow> Some (MISS, Some idx)) }
             else Some (MISS, Some idx)) })
   }"

definition probe_mf :: "u64 \<Rightarrow> mem_fetch \<Rightarrow> bool \<Rightarrow> tag_array \<Rightarrow> (cache_request_status \<times> u32 option) option" where
  "probe_mf addr mf probe_mode ta = probe addr (get_access_sector_mask mf) probe_mode (Some mf) ta"

section \<open>Accessing and filling\<close>

definition with_line :: "u32 \<Rightarrow> (cache_block \<Rightarrow> cache_block option) \<Rightarrow> tag_array \<Rightarrow> tag_array option" where
  "with_line idx f ta = do {
     line \<leftarrow> at (ta_lines ta) (unat idx);
     line \<leftarrow> f line;
     Some (ta\<lparr>ta_lines := (ta_lines ta)[unat idx := line]\<rparr>)
   }"

text \<open>
  \<open>access\<close> with write-back information: the evicted block is \<open>Some\<close> exactly when the source sets
  \<open>wb\<close>.
\<close>

definition access_wb ::
  "u64 \<Rightarrow> u32 \<Rightarrow> mem_fetch \<Rightarrow> tag_array
   \<Rightarrow> (cache_request_status \<times> u32 option \<times> evicted_block_info option \<times> tag_array) option" where
  "access_wb addr time mf ta = do {
     let cfg = ta_config ta;
     let smask = get_access_sector_mask mf;
     let ta = ta\<lparr>ta_access := ta_access ta + 1, ta_is_used := True\<rparr>;
     (status, i) \<leftarrow> probe_mf addr mf False ta;
     (case status of
        HIT_RESERVED \<Rightarrow> do {
          idx \<leftarrow> i;
          ta \<leftarrow> with_line idx (set_last_access_time (ucast time) smask)
                 (ta\<lparr>ta_pending_hit := ta_pending_hit ta + 1\<rparr>);
          Some (status, i, None, ta) }
      | HIT \<Rightarrow> do {
          idx \<leftarrow> i;
          ta \<leftarrow> with_line idx (set_last_access_time (ucast time) smask) ta;
          Some (status, i, None, ta) }
      | MISS \<Rightarrow> do {
          idx \<leftarrow> i;
          let ta = ta\<lparr>ta_miss := ta_miss ta + 1\<rparr>;
          (if m_alloc_policy cfg = ON_MISS then do {
             line \<leftarrow> at (ta_lines ta) (unat idx);
             let evicted = (if is_modified_line line
               then Some \<lparr>m_block_addr = b_block_addr line, m_modified_size = get_modified_size line\<rparr>
               else None);
             ta \<leftarrow> with_line idx (allocate (cfg_tag cfg addr) (cfg_block_addr cfg addr) time smask) ta;
             Some (status, i, evicted, ta) }
           else Some (status, i, None, ta)) }
      | SECTOR_MISS \<Rightarrow> do {
          ensure (m_cache_type cfg = SECTOR);
          idx \<leftarrow> i;
          let ta = ta\<lparr>ta_sector_miss := ta_sector_miss ta + 1\<rparr>;
          (if m_alloc_policy cfg = ON_MISS then do {
             ta \<leftarrow> with_line idx (allocate_sector time smask) ta;
             Some (status, i, None, ta) }
           else Some (status, i, None, ta)) }
      | RESERVATION_FAIL \<Rightarrow> Some (status, i, None, ta\<lparr>ta_res_fail := ta_res_fail ta + 1\<rparr>))
   }"

definition access_no_wb ::
  "u64 \<Rightarrow> u32 \<Rightarrow> mem_fetch \<Rightarrow> tag_array \<Rightarrow> (cache_request_status \<times> u32 option \<times> tag_array) option" where
  "access_no_wb addr time mf ta = do {
     (status, i, evicted, ta) \<leftarrow> access_wb addr time mf ta;
     ensure (evicted = None);
     Some (status, i, ta)
   }"

definition fill_addr :: "u64 \<Rightarrow> u32 \<Rightarrow> sector_mask \<Rightarrow> tag_array \<Rightarrow> tag_array option" where
  "fill_addr addr time smask ta = do {
     let cfg = ta_config ta;
     (status, i) \<leftarrow> probe addr smask False None ta;
     idx \<leftarrow> i;
     ta \<leftarrow> (case status of
        MISS \<Rightarrow> with_line idx (allocate (cfg_tag cfg addr) (cfg_block_addr cfg addr) time smask) ta
      | SECTOR_MISS \<Rightarrow> do {
          ensure (m_cache_type cfg = SECTOR);
          with_line idx (allocate_sector time smask) ta }
      | _ \<Rightarrow> Some ta);
     with_line idx (block_fill time smask) ta
   }"

definition fill_index :: "u32 \<Rightarrow> u32 \<Rightarrow> mem_fetch \<Rightarrow> tag_array \<Rightarrow> tag_array option" where
  "fill_index index time mf ta = do {
     ensure (m_alloc_policy (ta_config ta) = ON_MISS);
     with_line index (block_fill time (get_access_sector_mask mf)) ta
   }"

fun invalidate_sectors :: "nat list \<Rightarrow> cache_block \<Rightarrow> cache_block option" where
  "invalidate_sectors [] b = Some b"
| "invalidate_sectors (j # js) b = do {
     b \<leftarrow> set_block_status INVALID (push_bit j 1) b;
     invalidate_sectors js b }"

fun invalidate_lines :: "(cache_block \<Rightarrow> bool) \<Rightarrow> nat list \<Rightarrow> cache_block list \<Rightarrow> cache_block list option" where
  "invalidate_lines p [] lines = Some lines"
| "invalidate_lines p (i # is) lines = do {
     line \<leftarrow> at lines i;
     lines \<leftarrow> (if p line then do {
         line \<leftarrow> invalidate_sectors sectors line;
         put lines i line }
       else Some lines);
     invalidate_lines p is lines }"

definition ta_flush :: "tag_array \<Rightarrow> tag_array option" where
  "ta_flush ta =
    (if \<not> ta_is_used ta then Some ta
     else do {
       n \<leftarrow> get_num_lines (ta_config ta);
       lines \<leftarrow> invalidate_lines is_modified_line [0..<unat n] (ta_lines ta);
       Some (ta\<lparr>ta_lines := lines, ta_is_used := False\<rparr>) })"

definition ta_invalidate :: "tag_array \<Rightarrow> tag_array option" where
  "ta_invalidate ta =
    (if \<not> ta_is_used ta then Some ta
     else do {
       n \<leftarrow> get_num_lines (ta_config ta);
       lines \<leftarrow> invalidate_lines (\<lambda>_. True) [0..<unat n] (ta_lines ta);
       Some (ta\<lparr>ta_lines := lines, ta_is_used := False\<rparr>) })"

text \<open>The window counters; the rate is the quotient of the two numbers \<open>windowed_miss_rate\<close> divides.\<close>

definition ta_new_window :: "tag_array \<Rightarrow> tag_array" where
  "ta_new_window ta =
    (let ta = ta\<lparr>ta_prev_snapshot_access := ta_access ta, ta_prev_snapshot_miss := ta_miss ta\<rparr>
     in ta\<lparr>ta_prev_snapshot_miss := ta_miss ta + ta_sector_miss ta,
           ta_prev_snapshot_pending_hit := ta_pending_hit ta\<rparr>)"

definition windowed_miss_rate :: "tag_array \<Rightarrow> u32 \<times> u32" where
  "windowed_miss_rate ta =
    (let n_access = ta_access ta - ta_prev_snapshot_access ta;
         n_miss = ta_miss ta + ta_sector_miss ta - ta_prev_snapshot_miss ta
     in (n_miss + ta_sector_miss ta, n_access))"

definition ta_get_stats :: "tag_array \<Rightarrow> u32 \<times> u32 \<times> u32 \<times> u32" where
  "ta_get_stats ta = (ta_access ta, ta_miss ta + ta_sector_miss ta, ta_pending_hit ta, ta_res_fail ta)"

section \<open>What a probe returns\<close>

abbreviation line_at :: "cache_block list \<Rightarrow> u32 \<Rightarrow> cache_block" where
  "line_at lines i \<equiv> lines ! unat i"

text \<open>The line can serve the request: readable data, or data on its way.\<close>

definition line_hits :: "u64 \<Rightarrow> sector_mask \<Rightarrow> cache_block \<Rightarrow> bool" where
  "line_hits tag smask b = (b_tag b = tag \<and>
     (get_block_status smask b = Some VALID \<or>
      get_block_status smask b = Some MODIFIED \<and> is_readable smask b = Some True))"

definition line_pending :: "u64 \<Rightarrow> sector_mask \<Rightarrow> cache_block \<Rightarrow> bool" where
  "line_pending tag smask b = (b_tag b = tag \<and> get_block_status smask b = Some RESERVED)"

text \<open>The line holds the block but not (or not readably) the sector.\<close>

definition line_lacks_sector :: "u64 \<Rightarrow> sector_mask \<Rightarrow> cache_block \<Rightarrow> bool" where
  "line_lacks_sector tag smask b = (b_tag b = tag \<and>
     (get_block_status smask b = Some MODIFIED \<and> is_readable smask b = Some False \<or>
      get_block_status smask b = Some INVALID \<and> is_valid_line b))"

definition line_absent :: "u64 \<Rightarrow> sector_mask \<Rightarrow> cache_block \<Rightarrow> bool" where
  "line_absent tag smask b =
     (b_tag b \<noteq> tag \<or> get_block_status smask b = Some INVALID \<and> \<not> is_valid_line b)"

lemma match_line_cases:
  assumes "match_line tag smask b = Some r"
  shows "case r of
      Some st \<Rightarrow> st = HIT \<and> line_hits tag smask b \<or> st = HIT_RESERVED \<and> line_pending tag smask b \<or>
        st = SECTOR_MISS \<and> line_lacks_sector tag smask b
    | None \<Rightarrow> line_absent tag smask b"
proof (cases "b_tag b = tag")
  case True
  then obtain x where x: "get_block_status smask b = Some x"
    using assms by (auto simp: match_line_def bind_Some_iff)
  show ?thesis
    using assms True x
    by (cases x) (auto simp: match_line_def line_hits_def line_pending_def line_lacks_sector_def
        line_absent_def bind_Some_iff split: if_splits)
next
  case False
  then show ?thesis using assms by (simp add: match_line_def line_absent_def)
qed

lemma probe_loop_found:
  "probe_loop lines policy tag smask is acc = Some (Inl (st, idx)) \<Longrightarrow>
    idx \<in> set is \<and> unat idx < length lines \<and> match_line tag smask (line_at lines idx) = Some (Some st)"
proof (induction "is" arbitrary: acc)
  case (Cons i "is")
  then obtain f where f: "unat i < length lines" "match_line tag smask (line_at lines i) = Some f"
    and r: "(case f of Some st \<Rightarrow> Some (Inl (st, i))
      | None \<Rightarrow> probe_loop lines policy tag smask is (note_candidate policy i (line_at lines i) acc)) =
        Some (Inl (st, idx))"
    by (auto simp: bind_Some_iff)
  show ?case using Cons.IH f r by (cases f) auto
qed simp

lemma probe_loop_none:
  "probe_loop lines policy tag smask is acc = Some (Inr acc') \<Longrightarrow>
    (\<forall>i \<in> set is. unat i < length lines \<and> line_absent tag smask (line_at lines i)) \<and>
    acc' = fold (\<lambda>i. note_candidate policy i (line_at lines i)) is acc"
proof (induction "is" arbitrary: acc)
  case (Cons i "is")
  then obtain f where f: "unat i < length lines" "match_line tag smask (line_at lines i) = Some f"
    and r: "(case f of Some st \<Rightarrow> Some (Inl (st, i))
      | None \<Rightarrow> probe_loop lines policy tag smask is (note_candidate policy i (line_at lines i) acc)) =
        Some (Inr acc')"
    by (auto simp: bind_Some_iff)
  show ?case using Cons.IH f r match_line_cases[OF f(2)] by (cases f) auto
qed simp

text \<open>What the accumulator says about the lines seen.\<close>

definition candidates_ok :: "cache_block list \<Rightarrow> replacement_policy_t \<Rightarrow> u32 set \<Rightarrow> probe_acc \<Rightarrow> bool" where
  "candidates_ok lines policy seen acc =
     ((all_reserved acc \<longleftrightarrow> (\<forall>i \<in> seen. is_reserved_line (line_at lines i))) \<and>
      (invalid_line acc = - 1 \<longrightarrow> (\<forall>i \<in> seen. \<not> is_invalid_line (line_at lines i))) \<and>
      (invalid_line acc \<noteq> - 1 \<longrightarrow> invalid_line acc \<in> seen \<and> is_invalid_line (line_at lines (invalid_line acc))) \<and>
      (valid_line acc \<noteq> - 1 \<longrightarrow> valid_line acc \<in> seen \<and> \<not> is_reserved_line (line_at lines (valid_line acc)) \<and>
         valid_timestamp acc = line_time policy (line_at lines (valid_line acc))) \<and>
      (\<forall>i \<in> seen. \<not> is_reserved_line (line_at lines i) \<and> \<not> is_invalid_line (line_at lines i) \<longrightarrow>
         valid_timestamp acc \<le> line_time policy (line_at lines i)))"

lemma candidates_step:
  assumes "candidates_ok lines policy seen acc" "i \<noteq> - 1"
  shows "candidates_ok lines policy (insert i seen) (note_candidate policy i (line_at lines i) acc)"
proof -
  have "is_invalid_line (line_at lines i) \<Longrightarrow> \<not> is_reserved_line (line_at lines i)"
    using block.invalid_excl by blast
  then show ?thesis
    using assms unfolding candidates_ok_def note_candidate_def Let_def by (auto simp: not_less)
qed

lemma candidates_fold:
  "candidates_ok lines policy seen acc \<Longrightarrow> - 1 \<notin> set is \<Longrightarrow>
   candidates_ok lines policy (seen \<union> set is) (fold (\<lambda>i. note_candidate policy i (line_at lines i)) is acc)"
proof (induction "is" arbitrary: seen acc)
  case (Cons i "is")
  have "candidates_ok lines policy (insert i seen) (note_candidate policy i (line_at lines i) acc)"
    by (rule candidates_step) (use Cons.prems in auto)
  from Cons.IH[OF this] Cons.prems show ?case by simp
qed simp

text \<open>
  The line a miss may take: not reserved, invalid if the set has an invalid line, and otherwise one
  with the least time (of last access or of allocation) among the lines that are not reserved.
\<close>

definition good_victim :: "cache_block list \<Rightarrow> replacement_policy_t \<Rightarrow> u32 set \<Rightarrow> u32 \<Rightarrow> bool" where
  "good_victim lines policy W idx =
     (idx \<in> W \<and> unat idx < length lines \<and> \<not> is_reserved_line (line_at lines idx) \<and>
      (if \<exists>i \<in> W. is_invalid_line (line_at lines i) then is_invalid_line (line_at lines idx)
       else \<forall>i \<in> W. \<not> is_reserved_line (line_at lines i) \<longrightarrow>
              line_time policy (line_at lines idx) \<le> line_time policy (line_at lines i)))"

definition probe_spec ::
  "tag_array \<Rightarrow> u32 set \<Rightarrow> u64 \<Rightarrow> sector_mask \<Rightarrow> cache_request_status \<Rightarrow> u32 option \<Rightarrow> bool" where
  "probe_spec ta W tag smask st i =
    (case st of
       HIT \<Rightarrow> \<exists>idx \<in> W. i = Some idx \<and> line_hits tag smask (line_at (ta_lines ta) idx)
     | HIT_RESERVED \<Rightarrow> \<exists>idx \<in> W. i = Some idx \<and> line_pending tag smask (line_at (ta_lines ta) idx)
     | SECTOR_MISS \<Rightarrow> \<exists>idx \<in> W. i = Some idx \<and> line_lacks_sector tag smask (line_at (ta_lines ta) idx)
     | MISS \<Rightarrow> \<exists>idx. i = Some idx \<and>
         good_victim (ta_lines ta) (m_replacement_policy (ta_config ta)) W idx \<and>
         (\<forall>j \<in> W. line_absent tag smask (line_at (ta_lines ta) j))
     | RESERVATION_FAIL \<Rightarrow> i = None \<and> m_alloc_policy (ta_config ta) = ON_MISS \<and>
         (\<forall>j \<in> W. line_absent tag smask (line_at (ta_lines ta) j) \<and> is_reserved_line (line_at (ta_lines ta) j)))"

lemma probe_meets_spec:
  assumes len: "length (ta_lines ta) < 2 ^ 32"
    and p: "probe addr smask False mf ta = Some (st, i)" and s: "ta_set_index ta addr = Some s"
  shows "probe_spec ta (set (set_lines (ta_config ta) s)) (cfg_tag (ta_config ta) addr) smask st i"
proof -
  let ?is = "set_lines (ta_config ta) s"
  let ?acc = "\<lparr>invalid_line = - 1, valid_line = - 1, valid_timestamp = 0xFFFFFFFF, all_reserved = True\<rparr>"
  let ?pol = "m_replacement_policy (ta_config ta)" let ?tag = "cfg_tag (ta_config ta) addr"
  obtain r where r: "probe_loop (ta_lines ta) ?pol ?tag smask ?is ?acc = Some r"
    using p s by (auto simp: probe_def Let_def bind_Some_iff)
  show ?thesis
  proof (cases r)
    case (Inl a)
    then obtain st' idx where a: "a = (st', idx)" by (cases a)
    have st: "st' = st" "i = Some idx" using p s r Inl a by (auto simp: probe_def Let_def)
    have "idx \<in> set ?is" and m: "match_line ?tag smask (line_at (ta_lines ta) idx) = Some (Some st)"
      using probe_loop_found[OF r[unfolded Inl a]] st by simp_all
    then show ?thesis
      using match_line_cases[OF m] st by (auto simp: probe_spec_def)
  next
    case (Inr acc)
    note N = probe_loop_none[OF r[unfolded Inr]]
    have m1: "- 1 \<notin> set ?is"
    proof
      assume "- 1 \<in> set ?is"
      then have "unat (- 1 :: u32) < length (ta_lines ta)" using N by blast
      then show False using len by (simp add: unsigned_minus_1_eq_mask mask_eq_exp_minus_1)
    qed
    have "candidates_ok (ta_lines ta) ?pol {} ?acc" by (simp add: candidates_ok_def)
    from candidates_fold[OF this m1] N
    have C: "candidates_ok (ta_lines ta) ?pol (set ?is) acc" by simp
    show ?thesis
    proof (cases "all_reserved acc")
      case True
      then have "st = RESERVATION_FAIL" "i = None" "m_alloc_policy (ta_config ta) = ON_MISS"
        using p s r Inr by (auto simp: probe_def Let_def)
      then show ?thesis using True N C by (auto simp: probe_spec_def candidates_ok_def)
    next
      case False
      then obtain idx where st: "st = MISS" "i = Some idx"
        and idx: "(if invalid_line acc \<noteq> - 1 then Some (invalid_line acc)
           else if valid_line acc \<noteq> - 1 then Some (valid_line acc) else None) = Some idx"
        using p s r Inr by (auto simp: probe_def Let_def bind_Some_iff split: if_splits)
      have "good_victim (ta_lines ta) ?pol (set ?is) idx"
      proof (cases "invalid_line acc = - 1")
        case True
        then show ?thesis
          using idx C N unfolding good_victim_def candidates_ok_def by (auto split: if_splits)
      next
        case False
        then show ?thesis
          using idx C N block.invalid_excl unfolding good_victim_def candidates_ok_def by auto
      qed
      then show ?thesis using st N by (auto simp: probe_spec_def)
    qed
  qed
qed

section \<open>One line per block\<close>

text \<open>
  The lines of set \<open>s\<close> are the positions \<open>s * m_assoc\<close> to \<open>s * m_assoc + m_assoc - 1\<close>. The invariant
  says that within a set no block is present twice.
\<close>

definition ta_wf :: "tag_array \<Rightarrow> bool" where
  "ta_wf ta = (m_valid (ta_config ta) \<and> length (ta_lines ta) < 2 ^ 32 \<and>
     unat (m_nset (ta_config ta)) * unat (m_assoc (ta_config ta)) \<le> length (ta_lines ta))"

definition unique_tags :: "tag_array \<Rightarrow> bool" where
  "unique_tags ta = (\<forall>p q. p < q \<longrightarrow> q < unat (m_nset (ta_config ta)) * unat (m_assoc (ta_config ta)) \<longrightarrow>
     p div unat (m_assoc (ta_config ta)) = q div unat (m_assoc (ta_config ta)) \<longrightarrow>
     \<not> is_invalid_line (ta_lines ta ! p) \<longrightarrow> \<not> is_invalid_line (ta_lines ta ! q) \<longrightarrow>
     b_tag (ta_lines ta ! p) \<noteq> b_tag (ta_lines ta ! q))"

lemma mem_set_lines:
  assumes "ta_wf ta" "s < m_nset (ta_config ta)"
  shows "i \<in> set (set_lines (ta_config ta) s) \<longleftrightarrow>
    unat i < unat (m_nset (ta_config ta)) * unat (m_assoc (ta_config ta)) \<and>
    unat i div unat (m_assoc (ta_config ta)) = unat s"
proof -
  let ?A = "unat (m_assoc (ta_config ta))" let ?N = "unat (m_nset (ta_config ta))"
  have sN: "Suc (unat s) \<le> ?N" using assms(2) by (simp add: word_less_nat_alt)
  have bound: "unat s * ?A + w < ?N * ?A" if "w < ?A" for w
  proof -
    have "unat s * ?A + w < Suc (unat s) * ?A" using that by simp
    also have "\<dots> \<le> ?N * ?A" using sN by (rule mult_le_mono1)
    finally show ?thesis .
  qed
  have NA: "?N * ?A < 2 ^ 32" using assms(1) by (auto simp: ta_wf_def)
  have u: "unat (s * m_assoc (ta_config ta) + of_nat w) = unat s * ?A + w" if "w < ?A" for w
  proof -
    have "unat s * ?A + w < 2 ^ 32" "unat s * ?A < 2 ^ 32" "w < 2 ^ 32"
      using bound[OF that] NA by linarith+
    then show ?thesis by (simp add: unat_word_ariths unsigned_of_nat take_bit_eq_mod)
  qed
  show ?thesis
  proof
    assume "i \<in> set (set_lines (ta_config ta) s)"
    then obtain w where w: "w < ?A" "i = s * m_assoc (ta_config ta) + of_nat w"
      by (auto simp: set_lines_def)
    then show "unat i < ?N * ?A \<and> unat i div ?A = unat s"
      using u[OF w(1)] bound[OF w(1)] by simp
  next
    assume r: "unat i < ?N * ?A \<and> unat i div ?A = unat s"
    then have "?A \<noteq> 0" by (metis mult_0_right not_less_zero)
    then have w: "unat i mod ?A < ?A" by simp
    have "unat i = unat s * ?A + unat i mod ?A" using r by (metis div_mult_mod_eq)
    then have "unat i = unat (s * m_assoc (ta_config ta) + of_nat (unat i mod ?A))" using u[OF w] by simp
    then have "i = s * m_assoc (ta_config ta) + of_nat (unat i mod ?A)" by (simp add: word_unat_eq_iff)
    then show "i \<in> set (set_lines (ta_config ta) s)" using w by (auto simp: set_lines_def)
  qed
qed

lemma set_index_lt: "ta_set_index ta a = Some s \<Longrightarrow> s < m_nset (ta_config ta)"
  by (auto simp: ta_set_index_def l2_set_index_def cfg_set_index_def hash_function_def bind_Some_iff Let_def
      split: option.splits)

lemma absent_invalid: "line_absent tag m b \<Longrightarrow> \<not> is_invalid_line b \<Longrightarrow> b_tag b \<noteq> tag"
  by (cases b) (auto simp: line_absent_def sector_is_valid_line_def)

text \<open>Replacing one line of a set keeps the invariant when the set has no other line for its tag.\<close>

lemma unique_tags_update:
  assumes "unique_tags ta" "unat idx < length (ta_lines ta)"
    and "is_invalid_line b \<or>
      (\<forall>q. q \<noteq> unat idx \<longrightarrow> q < unat (m_nset (ta_config ta)) * unat (m_assoc (ta_config ta)) \<longrightarrow>
        q div unat (m_assoc (ta_config ta)) = unat idx div unat (m_assoc (ta_config ta)) \<longrightarrow>
        \<not> is_invalid_line (ta_lines ta ! q) \<longrightarrow> b_tag (ta_lines ta ! q) \<noteq> b_tag b)"
    and "ta_lines ta' = (ta_lines ta)[unat idx := b]" "ta_config ta' = ta_config ta"
  shows "unique_tags ta'"
  using assms unfolding unique_tags_def
  by (auto simp: nth_list_update) (metis | fastforce)+

lemma unique_tags_same:
  assumes "unique_tags ta" "unat idx < length (ta_lines ta)"
    and "b_tag b = b_tag (line_at (ta_lines ta) idx)"
    and "\<not> is_invalid_line b \<Longrightarrow> \<not> is_invalid_line (line_at (ta_lines ta) idx)"
    and "ta_lines ta' = (ta_lines ta)[unat idx := b]" "ta_config ta' = ta_config ta"
    and "unat idx < unat (m_nset (ta_config ta)) * unat (m_assoc (ta_config ta))"
  shows "unique_tags ta'"
proof (rule unique_tags_update[OF assms(1,2) _ assms(5,6)])
  show "is_invalid_line b \<or>
      (\<forall>q. q \<noteq> unat idx \<longrightarrow> q < unat (m_nset (ta_config ta)) * unat (m_assoc (ta_config ta)) \<longrightarrow>
        q div unat (m_assoc (ta_config ta)) = unat idx div unat (m_assoc (ta_config ta)) \<longrightarrow>
        \<not> is_invalid_line (ta_lines ta ! q) \<longrightarrow> b_tag (ta_lines ta ! q) \<noteq> b_tag b)"
    using assms(1,3,4,7) unfolding unique_tags_def by (metis linorder_neqE_nat)
qed

lemma with_line_Some:
  "with_line idx f ta = Some ta' \<longleftrightarrow>
    unat idx < length (ta_lines ta) \<and>
    (\<exists>b. f (line_at (ta_lines ta) idx) = Some b \<and> ta' = ta\<lparr>ta_lines := (ta_lines ta)[unat idx := b]\<rparr>)"
  by (auto simp: with_line_def bind_Some_iff)

lemma lacks_not_invalid: "line_lacks_sector tag m b \<Longrightarrow> \<not> is_invalid_line b"
  using block.modified_status[of m b] block.invalid_excl[of b]
  by (cases b) (auto simp: line_lacks_sector_def sector_is_valid_line_def)

text \<open>The effect of an access on the lines, by its outcome.\<close>

definition access_spec ::
  "tag_array \<Rightarrow> u64 \<Rightarrow> u32 \<Rightarrow> sector_mask \<Rightarrow> cache_request_status \<Rightarrow> u32 option \<Rightarrow>
   evicted_block_info option \<Rightarrow> tag_array \<Rightarrow> bool" where
  "access_spec ta addr time smask st i ev ta' =
    (let lines = ta_lines ta; cfg = ta_config ta in
     case st of
       RESERVATION_FAIL \<Rightarrow> ev = None \<and> ta_lines ta' = lines
     | HIT \<Rightarrow> i \<noteq> None \<and> ev = None \<and>
         (\<exists>b. set_last_access_time (ucast time) smask (line_at lines (the i)) = Some b \<and>
              ta_lines ta' = lines[unat (the i) := b])
     | HIT_RESERVED \<Rightarrow> i \<noteq> None \<and> ev = None \<and>
         (\<exists>b. set_last_access_time (ucast time) smask (line_at lines (the i)) = Some b \<and>
              ta_lines ta' = lines[unat (the i) := b])
     | SECTOR_MISS \<Rightarrow> i \<noteq> None \<and> ev = None \<and> m_cache_type cfg = SECTOR \<and>
         (if m_alloc_policy cfg = ON_MISS
          then \<exists>b. allocate_sector time smask (line_at lines (the i)) = Some b \<and>
                   ta_lines ta' = lines[unat (the i) := b]
          else ta_lines ta' = lines)
     | MISS \<Rightarrow> i \<noteq> None \<and>
         (if m_alloc_policy cfg = ON_MISS
          then (\<exists>b. allocate (cfg_tag cfg addr) (cfg_block_addr cfg addr) time smask (line_at lines (the i)) = Some b \<and>
                    ta_lines ta' = lines[unat (the i) := b]) \<and>
               ev = (if is_modified_line (line_at lines (the i))
                     then Some \<lparr>m_block_addr = b_block_addr (line_at lines (the i)),
                                m_modified_size = get_modified_size (line_at lines (the i))\<rparr>
                     else None)
          else ta_lines ta' = lines \<and> ev = None))"

lemma access_meets_spec:
  assumes "access_wb addr time mf ta = Some (st, i, ev, ta')"
  shows "access_spec ta addr time (get_access_sector_mask mf) st i ev ta' \<and>
    ta_config ta' = ta_config ta \<and> ta_mapping ta' = ta_mapping ta \<and>
    ta_pending_lines ta' = ta_pending_lines ta \<and>
    probe_mf addr mf False (ta\<lparr>ta_access := ta_access ta + 1, ta_is_used := True\<rparr>) = Some (st, i) \<and>
    length (ta_lines ta') = length (ta_lines ta)"
proof -
  let ?ta = "ta\<lparr>ta_access := ta_access ta + 1, ta_is_used := True\<rparr>"
  obtain st' i' where p: "probe_mf addr mf False ?ta = Some (st', i')"
    using assms by (auto simp: access_wb_def bind_Some_iff Let_def)
  show ?thesis
    using assms p
    by (cases st'; cases "m_alloc_policy (ta_config ta) = ON_MISS")
       (auto simp: access_wb_def access_spec_def bind_Some_iff with_line_Some Let_def)
qed

lemma probe_counters [simp]:
  "probe_mf addr mf md (ta\<lparr>ta_access := x, ta_is_used := y\<rparr>) = probe_mf addr mf md ta"
  by (simp add: probe_mf_def probe_def ta_set_index_def Let_def cong: if_cong option.case_cong)

lemma probe_set: "probe addr m md mf ta = Some (st, i) \<Longrightarrow> \<exists>s. ta_set_index ta addr = Some s"
  by (auto simp: probe_def Let_def bind_Some_iff)

lemma access_probe_spec:
  assumes wf: "ta_wf ta" and acc: "access_wb addr time mf ta = Some (st, i, ev, ta')"
  obtains s where "ta_set_index ta addr = Some s"
    "probe_spec ta (set (set_lines (ta_config ta) s)) (cfg_tag (ta_config ta) addr)
       (get_access_sector_mask mf) st i"
proof -
  have p: "probe addr (get_access_sector_mask mf) False (Some mf) ta = Some (st, i)"
    using access_meets_spec[OF acc] by (simp add: probe_mf_def[symmetric])
  obtain s where s: "ta_set_index ta addr = Some s" using probe_set[OF p] by blast
  have "length (ta_lines ta) < 2 ^ 32" using wf by (simp add: ta_wf_def)
  from probe_meets_spec[OF this p s] s show ?thesis by (rule that[rotated])
qed

lemma touch_unique:
  assumes wf: "ta_wf ta" and s: "ta_set_index ta addr = Some s" and u: "unique_tags ta"
    and "idx \<in> set (set_lines (ta_config ta) s)" "b_tag b = b_tag (line_at (ta_lines ta) idx)"
      "\<not> is_invalid_line b \<Longrightarrow> \<not> is_invalid_line (line_at (ta_lines ta) idx)"
      "ta_lines ta' = (ta_lines ta)[unat idx := b]" "ta_config ta' = ta_config ta"
  shows "unique_tags ta'"
  by (rule unique_tags_same[OF u _ assms(5-8)])
     (use wf mem_set_lines[OF wf set_index_lt[OF s]] assms(4) in \<open>auto simp: ta_wf_def\<close>)

lemma replace_unique:
  assumes wf: "ta_wf ta" and s: "ta_set_index ta addr = Some s" and u: "unique_tags ta"
    and idx: "idx \<in> set (set_lines (ta_config ta) s)"
    and absent: "\<forall>j \<in> set (set_lines (ta_config ta) s). line_absent (b_tag b) m (line_at (ta_lines ta) j)"
    and l: "ta_lines ta' = (ta_lines ta)[unat idx := b]" "ta_config ta' = ta_config ta"
  shows "unique_tags ta'"
proof (rule unique_tags_update[OF u _ _ l])
  note W = mem_set_lines[OF wf set_index_lt[OF s]]
  show "unat idx < length (ta_lines ta)" using W idx wf by (auto simp: ta_wf_def)
  have "b_tag (ta_lines ta ! q) \<noteq> b_tag b"
    if "q < unat (m_nset (ta_config ta)) * unat (m_assoc (ta_config ta))"
      "q div unat (m_assoc (ta_config ta)) = unat idx div unat (m_assoc (ta_config ta))"
      "\<not> is_invalid_line (ta_lines ta ! q)" for q
  proof -
    have "q < 2 ^ 32" using that(1) wf by (simp add: ta_wf_def)
    then have q: "unat (of_nat q :: u32) = q" by (simp add: unsigned_of_nat take_bit_eq_mod)
    then have "(of_nat q :: u32) \<in> set (set_lines (ta_config ta) s)" using W idx that(1,2) by simp
    then show ?thesis using absent absent_invalid that(3) q by metis
  qed
  then show "is_invalid_line b \<or>
      (\<forall>q. q \<noteq> unat idx \<longrightarrow> q < unat (m_nset (ta_config ta)) * unat (m_assoc (ta_config ta)) \<longrightarrow>
        q div unat (m_assoc (ta_config ta)) = unat idx div unat (m_assoc (ta_config ta)) \<longrightarrow>
        \<not> is_invalid_line (ta_lines ta ! q) \<longrightarrow> b_tag (ta_lines ta ! q) \<noteq> b_tag b)"
    by blast
qed

lemma access_unique:
  assumes wf: "ta_wf ta" and u: "unique_tags ta" and m: "one_sector (get_access_sector_mask mf)"
    and acc: "access_wb addr time mf ta = Some (st, i, ev, ta')"
  shows "unique_tags ta'"
proof -
  let ?m = "get_access_sector_mask mf" let ?lines = "ta_lines ta" let ?t = "cfg_tag (ta_config ta) addr"
  note A = access_meets_spec[OF acc]
  obtain s where s: "ta_set_index ta addr = Some s"
    and P: "probe_spec ta (set (set_lines (ta_config ta) s)) ?t ?m st i"
    by (rule access_probe_spec[OF wf acc])
  have cfg: "ta_config ta' = ta_config ta" using A by simp
  note touch = touch_unique[OF wf s u _ _ _ _ cfg]
  show ?thesis
  proof (cases "ta_lines ta' = ?lines")
    case True
    then show ?thesis using u cfg by (simp add: unique_tags_def)
  next
    case False
    then obtain idx b where i: "i = Some idx" "idx \<in> set (set_lines (ta_config ta) s)"
      and l: "ta_lines ta' = ?lines[unat idx := b]"
      and b: "st = HIT \<or> st = HIT_RESERVED \<Longrightarrow>
          set_last_access_time (ucast time) ?m (line_at ?lines idx) = Some b"
        "st = SECTOR_MISS \<Longrightarrow> allocate_sector time ?m (line_at ?lines idx) = Some b \<and>
           line_lacks_sector ?t ?m (line_at ?lines idx)"
        "st = MISS \<Longrightarrow> allocate ?t (cfg_block_addr (ta_config ta) addr) time ?m (line_at ?lines idx) = Some b \<and>
           (\<forall>j \<in> set (set_lines (ta_config ta) s). line_absent ?t ?m (line_at ?lines j))"
        "st \<noteq> RESERVATION_FAIL"
      using A P
      by (cases st) (auto simp: access_spec_def probe_spec_def good_victim_def Let_def split: if_splits)
    show ?thesis
    proof (cases st)
      case MISS
      then have "b_tag b = ?t" using block.alloc_laws[OF m] b(3) by blast
      then show ?thesis using b(3) MISS by (intro replace_unique[OF wf s u i(2) _ l cfg, where m = ?m]) simp
    next
      case SECTOR_MISS
      then show ?thesis
        using b(2) allocate_sector_laws[OF m] lacks_not_invalid by (intro touch[OF i(2) _ _ l]) blast+
    qed (use b(1,4) set_last_access_frame in \<open>intro touch[OF i(2) _ _ l]; metis\<close>)+
  qed
qed

section \<open>A miss, its fill, and the hit after it\<close>

lemma absent_match:
  assumes "one_sector m" "line_absent tag m b"
  shows "match_line tag m b = Some None"
  using assms block.status_total[of m b]
  by (auto simp: line_absent_def match_line_def one_sector_def)

lemma probe_loop_hit:
  assumes "idx \<in> set is" "\<forall>j \<in> set is. unat j < length lines"
    and "match_line tag m (line_at lines idx) = Some (Some st)"
    and "\<forall>j \<in> set is. j \<noteq> idx \<longrightarrow> match_line tag m (line_at lines j) = Some None"
  shows "probe_loop lines policy tag m is acc = Some (Inl (st, idx))"
  using assms
proof (induction "is" arbitrary: acc)
  case (Cons i "is")
  then show ?case by (cases "i = idx") auto
qed simp

lemma fill_index_lines:
  "fill_index idx time mf ta = Some ta' \<Longrightarrow>
    m_alloc_policy (ta_config ta) = ON_MISS \<and> ta_config ta' = ta_config ta \<and> ta_mapping ta' = ta_mapping ta \<and>
    unat idx < length (ta_lines ta) \<and>
    (\<exists>b. block_fill time (get_access_sector_mask mf) (line_at (ta_lines ta) idx) = Some b \<and>
         ta_lines ta' = (ta_lines ta)[unat idx := b])"
  by (auto simp: fill_index_def with_line_Some)

lemma fill_after_alloc_hits:
  assumes wf: "ta_wf ta" and m: "one_sector (get_access_sector_mask mf)"
    and acc: "access_wb addr t1 mf ta = Some (MISS, Some idx, ev, ta1)"
    and fl: "fill_index idx t2 mf ta1 = Some ta2"
  shows "probe_mf addr mf md ta2 = Some (HIT, Some idx)"
proof -
  let ?m = "get_access_sector_mask mf" let ?lines = "ta_lines ta" let ?t = "cfg_tag (ta_config ta) addr"
  note A = access_meets_spec[OF acc] and F = fill_index_lines[OF fl]
  obtain s where s: "ta_set_index ta addr = Some s"
    and P: "probe_spec ta (set (set_lines (ta_config ta) s)) ?t ?m MISS (Some idx)"
    by (rule access_probe_spec[OF wf acc])
  let ?W = "set (set_lines (ta_config ta) s)"
  have idx: "idx \<in> ?W" "unat idx < length ?lines" and abs: "\<forall>j \<in> ?W. line_absent ?t ?m (line_at ?lines j)"
    using P by (auto simp: probe_spec_def good_victim_def)
  have W: "unat j < length ?lines" if "j \<in> ?W" for j
    using mem_set_lines[OF wf set_index_lt[OF s]] that wf by (auto simp: ta_wf_def)
  obtain b1 where b1: "allocate ?t (cfg_block_addr (ta_config ta) addr) t1 ?m (line_at ?lines idx) = Some b1"
    and l1: "ta_lines ta1 = ?lines[unat idx := b1]"
    using A F by (auto simp: access_spec_def Let_def)
  obtain b2 where b2: "block_fill t2 ?m b1 = Some b2" and l2: "ta_lines ta2 = ?lines[unat idx := b2]"
    using F l1 idx(2) by auto
  have "b_tag b2 = ?t" "get_block_status ?m b2 = Some VALID"
    using block.fill_laws[OF m b2] block.alloc_laws[OF m b1] block.fill_alloc[OF m b1 b2] by simp_all
  then have hit: "match_line ?t ?m b2 = Some (Some HIT)" by (simp add: match_line_def)
  have "probe_loop (ta_lines ta2) pol ?t ?m (set_lines (ta_config ta) s) acc = Some (Inl (HIT, idx))" for pol acc
  proof (rule probe_loop_hit[OF idx(1)])
    show "\<forall>j \<in> ?W. unat j < length (ta_lines ta2)" using W l2 by simp
    show "match_line ?t ?m (line_at (ta_lines ta2) idx) = Some (Some HIT)" using hit l2 idx(2) by simp
    show "\<forall>j \<in> ?W. j \<noteq> idx \<longrightarrow> match_line ?t ?m (line_at (ta_lines ta2) j) = Some None"
      using abs absent_match[OF m] l2 by (simp add: word_unat_eq_iff)
  qed
  then show ?thesis
    using s A F by (simp add: probe_mf_def probe_def ta_set_index_def Let_def)
qed

section \<open>Flushing and invalidating\<close>

lemma sector_of_bit: "j < SECTOR_CHUNCK_SIZE \<Longrightarrow> get_sector_index (push_bit j 1) = Some j"
proof -
  assume "j < SECTOR_CHUNCK_SIZE"
  then have "j = 0 \<or> j = 1 \<or> j = 2 \<or> j = 3" by auto
  then show ?thesis by (elim disjE) (simp_all add: get_sector_index_def upt_rec push_bit_of_1)
qed

lemma invalidate_sector_block:
  "\<forall>j \<in> set js. j < SECTOR_CHUNCK_SIZE \<Longrightarrow> invalidate_sectors js (Sector b) =
    Some (Sector (b\<lparr>sb_status := (\<lambda>i. if i \<in> set js then INVALID else sb_status b i)\<rparr>))"
proof (induction js arbitrary: b)
  case (Cons j js)
  have eq: "b\<lparr>sb_status := \<lambda>i. if i \<in> set js then INVALID else sb_status (b\<lparr>sb_status := (sb_status b)(j := INVALID)\<rparr>) i\<rparr> =
      b\<lparr>sb_status := \<lambda>i. if i \<in> set (j # js) then INVALID else sb_status b i\<rparr>"
    by (rule sector_cache_block.equality) auto
  show ?case using Cons.IH Cons.prems eq by (simp add: sector_of_bit)
qed simp

lemma invalidate_line_block:
  "js \<noteq> [] \<Longrightarrow> invalidate_sectors js (Line b) = Some (Line (b\<lparr>lb_status := INVALID\<rparr>))"
proof (induction js arbitrary: b)
  case (Cons j js)
  then show ?case by (cases js) auto
qed simp

lemma invalidate_line_total:
  "\<exists>b'. invalidate_sectors sectors b = Some b' \<and> is_invalid_line b' \<and> b_tag b' = b_tag b"
  by (cases b)
     (simp_all add: invalidate_sector_block invalidate_line_block sector_is_invalid_line_def list_all_iff)

lemma invalidate_lines_spec:
  assumes "distinct is" "\<forall>i \<in> set is. i < length lines"
  shows "\<exists>lines'. invalidate_lines p is lines = Some lines' \<and> length lines' = length lines \<and>
    (\<forall>i < length lines. if i \<in> set is \<and> p (lines ! i)
       then is_invalid_line (lines' ! i) \<and> b_tag (lines' ! i) = b_tag (lines ! i)
       else lines' ! i = lines ! i)"
  using assms
proof (induction "is" arbitrary: lines)
  case (Cons i "is")
  obtain b where b: "invalidate_sectors sectors (lines ! i) = Some b"
    and inv: "is_invalid_line b" "b_tag b = b_tag (lines ! i)" using invalidate_line_total by blast
  let ?l = "if p (lines ! i) then lines[i := b] else lines"
  have "\<exists>lines'. invalidate_lines p is ?l = Some lines' \<and> length lines' = length ?l \<and>
    (\<forall>j < length ?l. if j \<in> set is \<and> p (?l ! j)
       then is_invalid_line (lines' ! j) \<and> b_tag (lines' ! j) = b_tag (?l ! j)
       else lines' ! j = ?l ! j)"
    using Cons.prems by (intro Cons.IH) auto
  then obtain lines' where l: "invalidate_lines p is ?l = Some lines'" "length lines' = length ?l"
    "\<forall>j < length ?l. if j \<in> set is \<and> p (?l ! j)
       then is_invalid_line (lines' ! j) \<and> b_tag (lines' ! j) = b_tag (?l ! j)
       else lines' ! j = ?l ! j" by blast
  have step: "invalidate_lines p (i # is) lines = Some lines'"
    using l(1) b Cons.prems by (auto split: if_splits)
  show ?case
    using step l(2,3) Cons.prems inv
    by (intro exI[of _ lines']) (auto simp: nth_list_update split: if_splits)
qed simp

lemma whole_cache_walk:
  assumes "ta_wf ta"
  shows "\<exists>lines'. invalidate_lines p [0..<unat (m_nset (ta_config ta) * m_assoc (ta_config ta))] (ta_lines ta) = Some lines' \<and>
    length lines' = length (ta_lines ta) \<and>
    (\<forall>i < unat (m_nset (ta_config ta)) * unat (m_assoc (ta_config ta)).
       if p (ta_lines ta ! i) then is_invalid_line (lines' ! i) \<and> b_tag (lines' ! i) = b_tag (ta_lines ta ! i)
       else lines' ! i = ta_lines ta ! i)"
proof -
  let ?n = "unat (m_nset (ta_config ta)) * unat (m_assoc (ta_config ta))"
  have le: "?n \<le> length (ta_lines ta)" "length (ta_lines ta) < 2 ^ 32" using assms by (simp_all add: ta_wf_def)
  then have u: "unat (m_nset (ta_config ta) * m_assoc (ta_config ta)) = ?n"
    by (simp add: unat_word_ariths)
  obtain lines' where L: "invalidate_lines p [0..<?n] (ta_lines ta) = Some lines'"
    "length lines' = length (ta_lines ta)"
    "\<forall>i < length (ta_lines ta). if i \<in> set [0..<?n] \<and> p (ta_lines ta ! i)
       then is_invalid_line (lines' ! i) \<and> b_tag (lines' ! i) = b_tag (ta_lines ta ! i)
       else lines' ! i = ta_lines ta ! i"
    using invalidate_lines_spec[of "[0..<?n]" "ta_lines ta" p] le by auto
  have "if p (ta_lines ta ! i) then is_invalid_line (lines' ! i) \<and> b_tag (lines' ! i) = b_tag (ta_lines ta ! i)
      else lines' ! i = ta_lines ta ! i" if "i < ?n" for i
    using L(3)[rule_format, of i] that le(1) by auto
  then show ?thesis unfolding u using L(1,2) by blast
qed

lemma flush_invalidate_spec:
  assumes wf: "ta_wf ta" and used: "ta_is_used ta"
  shows "\<exists>ta'. ta_flush ta = Some ta' \<and> ta_config ta' = ta_config ta \<and> ta_wf ta' \<and> \<not> ta_is_used ta' \<and>
    (\<forall>i < unat (m_nset (ta_config ta)) * unat (m_assoc (ta_config ta)).
       if is_modified_line (ta_lines ta ! i)
       then is_invalid_line (ta_lines ta' ! i) \<and> b_tag (ta_lines ta' ! i) = b_tag (ta_lines ta ! i)
       else ta_lines ta' ! i = ta_lines ta ! i)"
    "\<exists>ta'. ta_invalidate ta = Some ta' \<and> ta_config ta' = ta_config ta \<and> ta_wf ta' \<and> \<not> ta_is_used ta' \<and>
    (\<forall>i < unat (m_nset (ta_config ta)) * unat (m_assoc (ta_config ta)). is_invalid_line (ta_lines ta' ! i))"
  using wf used whole_cache_walk[OF wf, of is_modified_line] whole_cache_walk[OF wf, of "\<lambda>_. True"]
  by (auto simp: ta_flush_def ta_invalidate_def get_num_lines_def ta_wf_def)

section \<open>Properties\<close>

text \<open>
  A probe that asks for it (\<open>probe_mode\<close>) and misses in a streaming cache: the block has an outstanding
  miss, and the request is a read of another instruction than the one that caused it.
\<close>

definition streams :: "bool \<Rightarrow> mem_fetch option \<Rightarrow> tag_array \<Rightarrow> u64 \<Rightarrow> bool" where
  "streams md mf ta addr = (md \<and> m_is_streaming (ta_config ta) \<and>
     (\<exists>m uid. mf = Some m \<and> ta_pending_lines ta (cfg_block_addr (ta_config ta) addr) = Some uid \<and>
        \<not> get_is_write m \<and> uid \<noteq> inst_uid (mf_inst m)))"

lemma probe_without_mode:
  assumes "probe addr smask md mf ta = Some (st, i)"
  shows "\<exists>st0. probe addr smask False mf ta = Some (st0, i) \<and>
    st = (if st0 = MISS \<and> streams md mf ta addr then SECTOR_MISS else st0)"
proof -
  let ?acc = "\<lparr>invalid_line = - 1, valid_line = - 1, valid_timestamp = 0xFFFFFFFF, all_reserved = True\<rparr>"
  let ?pol = "m_replacement_policy (ta_config ta)" and ?tag = "cfg_tag (ta_config ta) addr"
  obtain s where s: "ta_set_index ta addr = Some s" using assms by (auto simp: probe_def Let_def bind_Some_iff)
  obtain r where r: "probe_loop (ta_lines ta) ?pol ?tag smask (set_lines (ta_config ta) s) ?acc = Some r"
    using assms s by (auto simp: probe_def Let_def bind_Some_iff)
  show ?thesis
  proof (cases r)
    case (Inl a)
    then obtain st' idx where "a = (st', idx)" by (cases a)
    moreover have "st' \<noteq> MISS"
    proof
      assume "st' = MISS"
      then have "match_line ?tag smask (line_at (ta_lines ta) idx) = Some (Some MISS)"
        using probe_loop_found[of "ta_lines ta" ?pol ?tag smask _ ?acc st' idx] r Inl calculation by auto
      then show False using match_line_cases[of ?tag smask "line_at (ta_lines ta) idx" "Some MISS"] by auto
    qed
    ultimately show ?thesis using assms s r Inl by (auto simp: probe_def Let_def)
  next
    case (Inr acc)
    show ?thesis
    proof (cases "all_reserved acc")
      case True
      then show ?thesis using assms s r Inr by (auto simp: probe_def Let_def)
    next
      case False
      then show ?thesis using assms s r Inr
        by (auto simp: probe_def Let_def bind_Some_iff streams_def split: if_splits option.splits)
    qed
  qed
qed

text \<open>
  C18: What a probe answers, in both modes. On a hit, the index is a line of the set with the tag whose
  sector is readable; \<open>HIT_RESERVED\<close>: the sector is on its way; \<open>SECTOR_MISS\<close>: the line is there, the
  sector is not (or not readable). On a miss no line of the set holds the block, and the index is a
  legal victim: not reserved, invalid if the set has an invalid line, otherwise least recently used (or
  oldest, for FIFO) among the lines that are not reserved. A reservation failure means that all
  lines are reserved. The one exception is the mode in which a streaming cache is accessed: a miss on a
  block with an outstanding miss of another instruction is reported as \<open>SECTOR_MISS\<close>, with a victim of
  the kind a miss has, and exactly these misses are.
\<close>

theorem probe_is_correct:
  assumes "ta_wf ta" "ta_set_index ta addr = Some s" "probe addr m md mf ta = Some (st, i)"
  shows "(st = SECTOR_MISS \<and> streams md mf ta addr \<and>
      probe_spec ta (set (set_lines (ta_config ta) s)) (cfg_tag (ta_config ta) addr) m MISS i) \<or>
    ((st = MISS \<longrightarrow> \<not> streams md mf ta addr) \<and>
      probe_spec ta (set (set_lines (ta_config ta) s)) (cfg_tag (ta_config ta) addr) m st i)"
proof -
  obtain st0 where st0: "probe addr m False mf ta = Some (st0, i)"
    "st = (if st0 = MISS \<and> streams md mf ta addr then SECTOR_MISS else st0)"
    using probe_without_mode[OF assms(3)] by blast
  have "length (ta_lines ta) < 2 ^ 32" using assms(1) by (simp add: ta_wf_def)
  note spec = probe_meets_spec[OF this st0(1) assms(2)]
  show ?thesis
  proof (cases "st0 = MISS \<and> streams md mf ta addr")
    case True
    then show ?thesis using spec st0(2) by (intro disjI1) simp
  next
    case False
    then have "st = st0" using st0(2) by auto
    then show ?thesis using spec False by (intro disjI2) simp
  qed
qed

definition small_config :: cache_config where
  "small_config = sample_config\<lparr>m_nset := 1, m_nset_log2 := 0, m_set_index_function := LINEAR_SET_FUNCTION\<rparr>"

definition small_array :: tag_array where
  "small_array = the (tag_array_new small_config None)"

lemma small_array_simps [simp]:
  "ta_config small_array = small_config" "ta_mapping small_array = None"
  "ta_lines small_array = replicate 8 (Line line_cache_block_new)"
  "ta_pending_lines small_array = Map.empty" "\<not> ta_is_used small_array"
  by (simp_all add: small_array_def tag_array_new_def get_max_num_lines_def small_config_def
      sample_config_def cache_config_new_def Let_def)

lemma small_config_simps [simp]:
  "m_nset small_config = 1" "m_assoc small_config = 2" "m_valid small_config" "m_line_sz small_config = 128"
  "m_replacement_policy small_config = LRU" "m_alloc_policy small_config = ON_MISS"
  "m_is_streaming small_config = False" "m_cache_type small_config = NORMAL"
  "m_write_policy small_config = WRITE_BACK" "m_write_alloc_policy small_config = WRITE_ALLOCATE"
  "m_mshr_type small_config = ASSOC" "m_atom_sz small_config = 128" "m_mshr_entries small_config = 4"
  "m_mshr_max_merge small_config = 2" "m_miss_queue_size small_config = 4" "m_data_port_width small_config = 128"
  by (simp_all add: small_config_def sample_config_def cache_config_new_def)

lemma small_set_index [simp]: "l2_set_index small_config None a = Some 0"
  by (simp add: l2_set_index_def cfg_set_index_def hash_function_def small_config_def sample_config_def
      cache_config_new_def)

lemma small_set_lines [simp]: "set_lines small_config 0 = [0, 1]"
  by (simp add: set_lines_def upt_rec)

lemma small_array_wf: "ta_wf small_array" "unique_tags small_array"
  by (auto simp: ta_wf_def unique_tags_def line_cache_block_new_def)

text \<open>The same request to an empty set, in the two modes, with an outstanding miss of another instruction.\<close>

definition stream_array :: tag_array where
  "stream_array = small_array\<lparr>ta_config := small_config\<lparr>m_is_streaming := True\<rparr>,
     ta_pending_lines := [cfg_block_addr small_config 0x1000 \<mapsto> inst_uid (mf_inst (sample_fetch (sample_access GLOBAL_ACC_R False))) + 1]\<rparr>"

theorem probe_is_correct_witness:
  "probe_spec stream_array (set (set_lines small_config 0)) (cfg_tag small_config 0x1000) 1 MISS (Some 1)"
proof -
  let ?mf = "sample_fetch (sample_access GLOBAL_ACC_R False)"
  have wf: "ta_wf stream_array" using small_array_wf(1) by (simp add: ta_wf_def stream_array_def)
  have cfg: "set_lines (ta_config stream_array) 0 = set_lines small_config 0"
    "cfg_tag (ta_config stream_array) 0x1000 = cfg_tag small_config 0x1000"
    by (simp_all add: stream_array_def set_lines_def cfg_tag_def)
  have set: "ta_set_index stream_array 0x1000 = Some 0" by code_simp
  have "probe 0x1000 1 True (Some ?mf) stream_array = Some (SECTOR_MISS, Some 1)" by code_simp
  from probe_is_correct[OF wf set this]
  have "probe_spec stream_array (set (set_lines small_config 0)) (cfg_tag small_config 0x1000) 1 MISS (Some 1) \<or>
      probe_spec stream_array (set (set_lines small_config 0)) (cfg_tag small_config 0x1000) 1 SECTOR_MISS (Some 1)"
    unfolding cfg by blast
  moreover have "b_tag (line_at (ta_lines stream_array) j) \<noteq> cfg_tag small_config 0x1000" if "j \<in> set (set_lines small_config 0)" for j
    using that by (auto simp: stream_array_def line_cache_block_new_def cfg_tag_def)
  ultimately show ?thesis by (auto simp: probe_spec_def line_lacks_sector_def)
qed


lemma small_access:
  "\<exists>ta'. access_wb 0x1000 5 (sample_fetch (sample_access GLOBAL_ACC_R False)) small_array =
    Some (MISS, Some 1, None, ta')"
  by (simp add: access_wb_def probe_mf_def probe_def ta_set_index_def Let_def match_line_def
      note_candidate_def line_cache_block_new_def cfg_tag_def with_line_def)




text \<open>
  \<open>flush\<close> of a used cache never fails, invalidates exactly the modified lines and leaves every
  other line as it was.
\<close>

lemma flush_drops_modified_lines:
  assumes "ta_wf ta" "ta_is_used ta"
  shows "\<exists>ta'. ta_flush ta = Some ta' \<and> ta_config ta' = ta_config ta \<and> ta_wf ta' \<and> \<not> ta_is_used ta' \<and>
    (\<forall>i < unat (m_nset (ta_config ta)) * unat (m_assoc (ta_config ta)).
       if is_modified_line (ta_lines ta ! i)
       then is_invalid_line (ta_lines ta' ! i) \<and> b_tag (ta_lines ta' ! i) = b_tag (ta_lines ta ! i)
       else ta_lines ta' ! i = ta_lines ta ! i)"
  by (rule flush_invalidate_spec(1)[OF assms])

lemma flush_drops_modified_lines_witness:
  "\<exists>ta'. ta_flush (small_array\<lparr>ta_is_used := True\<rparr>) = Some ta' \<and> \<not> ta_is_used ta'"
proof -
  have "ta_wf (small_array\<lparr>ta_is_used := True\<rparr>)" using small_array_wf(1) by (simp add: ta_wf_def)
  from flush_drops_modified_lines[OF this] show ?thesis by auto
qed

text \<open>
  \<open>windowed_miss_rate\<close> counts the sector misses twice: \<open>n_miss\<close> already contains those of the window
  and all of them since the start are added again.
\<close>

lemma windowed_miss_rate_overcounts:
  "windowed_miss_rate (small_array\<lparr>ta_access := 4, ta_sector_miss := 3\<rparr>) = (6, 4)"
  by (simp add: windowed_miss_rate_def small_array_def tag_array_new_def get_max_num_lines_def Let_def)

end
