(* ===== verification/Mshr.thy ===== *)
theory Mshr
  imports MemFetch "HOL-Library.AList" "HOL-Library.Multiset"
begin

text \<open>
  The miss status holding registers of a cache (\<open>mshr_table\<close> in \<open>gpgpu-sim/gpu-cache.cc\<close>): requests
  that wait for a block are merged into one entry, an entry whose data arrived is marked ready, and
  the ready requests are handed back one by one. The hash map \<open>m_data\<close> is an association list with
  distinct keys, so its size is the length. The locale \<open>miss_table\<close> is the table as its clients use
  it; that it loses, duplicates and reorders nothing is proved there.
\<close>

section \<open>State and operations\<close>

record mshr_entry =
  me_list :: "mf_ref list"
  me_has_atomic :: bool

record mshr_table =
  mshr_num_entries :: u32
  mshr_max_merged :: u32
  mshr_data :: "(u64 \<times> mshr_entry) list"
  mshr_current_response :: "u64 list"

definition mshr_table_new :: "u32 \<Rightarrow> u32 \<Rightarrow> mshr_table" where
  "mshr_table_new num_entries max_merged =
     \<lparr>mshr_num_entries = num_entries, mshr_max_merged = max_merged, mshr_data = [],
      mshr_current_response = []\<rparr>"

definition mshr_entry_new :: mshr_entry where
  "mshr_entry_new = \<lparr>me_list = [], me_has_atomic = False\<rparr>"

definition mshr_find :: "u64 \<Rightarrow> mshr_table \<Rightarrow> mshr_entry option" where
  "mshr_find block_addr t = map_of (mshr_data t) block_addr"

text \<open>\<open>m_data[block_addr]\<close> inserts an empty entry when there is none.\<close>

definition mshr_index :: "u64 \<Rightarrow> mshr_table \<Rightarrow> mshr_entry" where
  "mshr_index block_addr t =
     (case mshr_find block_addr t of Some e \<Rightarrow> e | None \<Rightarrow> mshr_entry_new)"

definition mshr_set :: "u64 \<Rightarrow> mshr_entry \<Rightarrow> mshr_table \<Rightarrow> mshr_table" where
  "mshr_set block_addr e t = t\<lparr>mshr_data := AList.update block_addr e (mshr_data t)\<rparr>"

definition mshr_erase :: "u64 \<Rightarrow> mshr_table \<Rightarrow> mshr_table" where
  "mshr_erase block_addr t = t\<lparr>mshr_data := AList.delete block_addr (mshr_data t)\<rparr>"

definition mshr_probe :: "u64 \<Rightarrow> mshr_table \<Rightarrow> bool" where
  "mshr_probe block_addr t = (mshr_find block_addr t \<noteq> None)"

definition mshr_full :: "u64 \<Rightarrow> mshr_table \<Rightarrow> bool" where
  "mshr_full block_addr t =
     (case mshr_find block_addr t of
        Some e \<Rightarrow> unat (mshr_max_merged t) \<le> length (me_list e)
      | None \<Rightarrow> unat (mshr_num_entries t) \<le> length (mshr_data t))"

definition mshr_add :: "mem_store \<Rightarrow> u64 \<Rightarrow> mf_ref \<Rightarrow> mshr_table \<Rightarrow> mshr_table option" where
  "mshr_add ms block_addr mf t = do {
     let e = mshr_index block_addr t;
     let e = e\<lparr>me_list := me_list e @ [mf]\<rparr>;
     let t = mshr_set block_addr e t;
     ensure (length (mshr_data t) \<le> unat (mshr_num_entries t));
     ensure (length (me_list e) \<le> unat (mshr_max_merged t));
     m \<leftarrow> deref mf ms;
     Some (if isatomic m then mshr_set block_addr (e\<lparr>me_has_atomic := True\<rparr>) t else t)
   }"

text \<open>
  Whether a read follows a write among the requests of a block. The table is returned because
  \<open>m_data[block_addr]\<close> leaves an empty entry behind for a block that had none.
\<close>

fun read_after_write :: "bool \<Rightarrow> bool list \<Rightarrow> bool" where
  "read_after_write write_found [] = False"
| "read_after_write write_found (w # ws) =
    (if w then read_after_write True ws
     else if write_found then True
     else read_after_write write_found ws)"

definition is_read_after_write_pending :: "mem_store \<Rightarrow> u64 \<Rightarrow> mshr_table \<Rightarrow> (bool \<times> mshr_table) option" where
  "is_read_after_write_pending ms block_addr t = do {
     let e = mshr_index block_addr t;
     let t = mshr_set block_addr e t;
     mfs \<leftarrow> those (map (\<lambda>r. deref r ms) (me_list e));
     Some (read_after_write False (map get_is_write mfs), t)
   }"

definition mshr_mark_ready :: "u64 \<Rightarrow> mshr_table \<Rightarrow> (bool \<times> mshr_table) option" where
  "mshr_mark_ready block_addr t = do {
     a \<leftarrow> mshr_find block_addr t;
     let t = t\<lparr>mshr_current_response := mshr_current_response t @ [block_addr]\<rparr>;
     ensure (length (mshr_current_response t) \<le> length (mshr_data t));
     Some (me_has_atomic a, t)
   }"

definition mshr_access_ready :: "mshr_table \<Rightarrow> bool" where
  "mshr_access_ready t = (mshr_current_response t \<noteq> [])"

definition mshr_next_access :: "mshr_table \<Rightarrow> (mf_ref \<times> mshr_table) option" where
  "mshr_next_access t =
    (case mshr_current_response t of
       [] \<Rightarrow> None
     | block_addr # rest \<Rightarrow>
         (let e = mshr_index block_addr t
          in case me_list e of
               [] \<Rightarrow> None
             | result # others \<Rightarrow>
                 if others = [] then
                   Some (result, (mshr_erase block_addr t)\<lparr>mshr_current_response := rest\<rparr>)
                 else Some (result, mshr_set block_addr (e\<lparr>me_list := others\<rparr>) t)))"

definition check_mshr_parameters :: "u32 \<Rightarrow> u32 \<Rightarrow> mshr_table \<Rightarrow> unit option" where
  "check_mshr_parameters num_entries max_merged t = do {
     ensure (mshr_num_entries t = num_entries);
     ensure (mshr_max_merged t = max_merged)
   }"

section \<open>The table as its clients use it\<close>

text \<open>
  A table of waiting requests: \<open>pending\<close> are the requests of a block in the order of arrival, \<open>ready\<close>
  the blocks whose data has arrived. The environment \<open>'x\<close> is what \<open>add\<close> looks at besides.
\<close>

locale miss_table =
  fixes full :: "'b \<Rightarrow> 't \<Rightarrow> bool"
    and add :: "'x \<Rightarrow> 'b \<Rightarrow> 'r \<Rightarrow> 't \<Rightarrow> 't option"
    and mark_ready :: "'b \<Rightarrow> 't \<Rightarrow> (bool \<times> 't) option"
    and next_access :: "'t \<Rightarrow> ('r \<times> 't) option"
    and pending :: "'t \<Rightarrow> 'b \<Rightarrow> 'r list"
    and ready :: "'t \<Rightarrow> 'b list"
    and wf :: "'t \<Rightarrow> bool"
  assumes add_law: "wf t \<Longrightarrow> add x b r t = Some t' \<Longrightarrow>
      wf t' \<and> pending t' = (pending t)(b := pending t b @ [r]) \<and> ready t' = ready t"
    and ready_law: "wf t \<Longrightarrow> b \<notin> set (ready t) \<Longrightarrow> mark_ready b t = Some (a, t') \<Longrightarrow>
      wf t' \<and> pending t' = pending t \<and> ready t' = ready t @ [b]"
    and next_law: "wf t \<Longrightarrow> next_access t = Some (r, t') \<Longrightarrow>
      wf t' \<and> (\<exists>b bs. ready t = b # bs \<and> pending t b = r # pending t' b \<and>
        pending t' = (pending t)(b := pending t' b) \<and>
        ready t' = (if pending t' b = [] then bs else b # bs))"
    and next_total: "wf t \<Longrightarrow> ready t \<noteq> [] \<Longrightarrow> next_access t \<noteq> None"
begin

text \<open>What is left to hand out for the ready blocks, in order.\<close>

definition serving :: "'t \<Rightarrow> 'r list" where
  "serving t = concat (map (pending t) (ready t))"

lemma next_serves_head:
  assumes "wf t" "distinct (ready t)" "next_access t = Some (r, t')"
  shows "serving t = r # serving t'" and "distinct (ready t')"
proof -
  obtain b bs where b: "ready t = b # bs" "pending t b = r # pending t' b"
      "pending t' = (pending t)(b := pending t' b)" "ready t' = (if pending t' b = [] then bs else b # bs)"
    using next_law[OF assms(1,3)] by blast
  have same: "pending t' c = pending t c" if "c \<in> set bs" for c
    using b(1,3) assms(2) that by (metis distinct.simps(2) fun_upd_other)
  then have m: "map (pending t') bs = map (pending t) bs" by simp
  have "concat (map (pending t') bs) = concat (map (pending t) bs)" by (simp only: m)
  then show "serving t = r # serving t'"
    by (cases "pending t' b = []") (simp_all add: serving_def b(1,2,4))
  show "distinct (ready t')" using b assms(2) by auto
qed

end

text \<open>
  The commands a client gives the table. A block is only marked ready when it is not yet (the data
  of a block is requested once), and the log pairs every request handed out with its block.
\<close>

datatype ('x, 'b, 'r) mshr_event = Add 'x 'b 'r | Ready 'b | Next

fun added :: "'b \<Rightarrow> ('x, 'b, 'r) mshr_event list \<Rightarrow> 'r list" where
  "added b [] = []"
| "added b (Add x c r # es) = (if c = b then r # added b es else added b es)"
| "added b (Ready c # es) = added b es"
| "added b (Next # es) = added b es"

definition served :: "'b \<Rightarrow> ('b \<times> 'r) list \<Rightarrow> 'r list" where
  "served b out = map snd (filter (\<lambda>p. fst p = b) out)"

lemma served_simps [simp]:
  "served b [] = []"
  "served b ((c, r) # out) = (if c = b then r # served b out else served b out)"
  by (simp_all add: served_def)

fun run_table ::
  "('x \<Rightarrow> 'b \<Rightarrow> 'r \<Rightarrow> 't \<Rightarrow> 't option) \<Rightarrow> ('b \<Rightarrow> 't \<Rightarrow> (bool \<times> 't) option) \<Rightarrow> ('t \<Rightarrow> ('r \<times> 't) option)
   \<Rightarrow> ('t \<Rightarrow> 'b list) \<Rightarrow> ('x, 'b, 'r) mshr_event list \<Rightarrow> 't \<Rightarrow> (('b \<times> 'r) list \<times> 't) option" where
  "run_table add mark next ready [] t = Some ([], t)"
| "run_table add mark next ready (Add x b r # es) t = do {
     t \<leftarrow> add x b r t;
     run_table add mark next ready es t }"
| "run_table add mark next ready (Ready b # es) t = do {
     ensure (b \<notin> set (ready t));
     (_, t) \<leftarrow> mark b t;
     run_table add mark next ready es t }"
| "run_table add mark next ready (Next # es) t = do {
     (r, t') \<leftarrow> next t;
     (out, u) \<leftarrow> run_table add mark next ready es t';
     Some ((hd (ready t), r) # out, u) }"

context miss_table
begin

abbreviation "run \<equiv> run_table add mark_ready next_access ready"

text \<open>The requests of a block leave in the order they came, none is lost and none invented.\<close>

lemma run_is_fifo:
  assumes "run es t = Some (out, u)" "wf t"
  shows "wf u \<and> pending t b @ added b es = served b out @ pending u b"
  using assms
proof (induction es arbitrary: t out)
  case Nil
  then show ?case by simp
next
  case (Cons e es)
  show ?case
  proof (cases e)
    case (Add x c r)
    with Cons.prems obtain v where v: "add x c r t = Some v" "run es v = Some (out, u)"
      by (auto simp: bind_Some_iff)
    note l = add_law[OF Cons.prems(2) v(1)]
    show ?thesis
      using Cons.IH[OF v(2)] l Add by (cases "c = b") (auto simp: fun_upd_apply)
  next
    case (Ready c)
    with Cons.prems obtain a v where v: "c \<notin> set (ready t)" "mark_ready c t = Some (a, v)" "run es v = Some (out, u)"
      by (auto simp: bind_Some_iff)
    show ?thesis
      using Cons.IH[OF v(3)] ready_law[OF Cons.prems(2) v(1,2)] Ready by simp
  next
    case Next
    with Cons.prems obtain r v o' where v: "next_access t = Some (r, v)" "run es v = Some (o', u)"
        "out = (hd (ready t), r) # o'"
      by (auto simp: bind_Some_iff)
    obtain c bs where l: "wf v" "ready t = c # bs" "pending t c = r # pending v c"
        "pending v = (pending t)(c := pending v c)"
      using next_law[OF Cons.prems(2) v(1)] by blast
    have "pending v b = pending t b" if "b \<noteq> c"
      using l(4) that by (metis fun_upd_other)
    then show ?thesis
      using Cons.IH[OF v(2) l(1)] l(2,3) v(3) Next by (cases "c = b") auto
  qed
qed

end

section \<open>The registers keep the contract\<close>

definition mshr_wf :: "mshr_table \<Rightarrow> bool" where
  "mshr_wf t \<longleftrightarrow>
     distinct (map fst (mshr_data t)) \<and>
     length (mshr_data t) \<le> unat (mshr_num_entries t) \<and>
     (\<forall>b e. mshr_find b t = Some e \<longrightarrow>
        me_list e \<noteq> [] \<and> length (me_list e) \<le> unat (mshr_max_merged t)) \<and>
     distinct (mshr_current_response t) \<and>
     (\<forall>b \<in> set (mshr_current_response t). mshr_probe b t)"

definition mshr_pending :: "mshr_table \<Rightarrow> u64 \<Rightarrow> mf_ref list" where
  "mshr_pending t b = me_list (mshr_index b t)"

lemma mshr_find_set [simp]: "mshr_find c (mshr_set b e t) = (if c = b then Some e else mshr_find c t)"
  by (simp add: mshr_find_def mshr_set_def update_conv')

lemma mshr_find_erase [simp]: "mshr_find c (mshr_erase b t) = (if c = b then None else mshr_find c t)"
  by (simp add: mshr_find_def mshr_erase_def delete_conv')

lemma mshr_set_frame [simp, frame_simps]:
  "mshr_num_entries (mshr_set b e t) = mshr_num_entries t"
  "mshr_max_merged (mshr_set b e t) = mshr_max_merged t"
  "mshr_current_response (mshr_set b e t) = mshr_current_response t"
  "mshr_num_entries (mshr_erase b t) = mshr_num_entries t"
  "mshr_max_merged (mshr_erase b t) = mshr_max_merged t"
  "mshr_current_response (mshr_erase b t) = mshr_current_response t"
  by (simp_all add: mshr_set_def mshr_erase_def)

lemma mshr_find_response [simp]: "mshr_find c (t\<lparr>mshr_current_response := rs\<rparr>) = mshr_find c t"
  by (simp add: mshr_find_def)

lemma length_update: "length (AList.update k v al) = (if map_of al k = None then Suc (length al) else length al)"
  by (induction al) auto

lemma update_same: "map_of al k = Some v \<Longrightarrow> AList.update k v al = al"
  by (induction al) (auto split: if_splits)

lemma update_update: "AList.update k v (AList.update k w al) = AList.update k v al"
  by (induction al) auto

lemma mshr_pending_set: "mshr_pending (mshr_set b e t) = (mshr_pending t)(b := me_list e)"
  by (auto simp: mshr_pending_def mshr_index_def fun_eq_iff)

lemma mshr_pending_erase: "mshr_pending (mshr_erase b t) = (mshr_pending t)(b := [])"
  by (auto simp: mshr_pending_def mshr_index_def mshr_entry_new_def fun_eq_iff)

lemma mshr_pending_response [simp]: "mshr_pending (t\<lparr>mshr_current_response := rs\<rparr>) = mshr_pending t"
  by (simp add: mshr_pending_def mshr_index_def fun_eq_iff)

lemma mshr_add_eq:
  "mshr_add ms b r t = Some t' \<longleftrightarrow>
     (\<exists>m. deref r ms = Some m \<and> length (mshr_data (mshr_set b (mshr_index b t) t)) \<le> unat (mshr_num_entries t) \<and>
        length (mshr_pending t b) < unat (mshr_max_merged t) \<and>
        t' = mshr_set b \<lparr>me_list = mshr_pending t b @ [r],
               me_has_atomic = isatomic m \<or> me_has_atomic (mshr_index b t)\<rparr> t)"
proof -
  let ?e = "mshr_index b t"
  have len: "length (mshr_data (mshr_set b (?e\<lparr>me_list := x\<rparr>) t)) = length (mshr_data (mshr_set b ?e t))" for x
    by (simp add: mshr_set_def length_update)
  have twice: "mshr_set b e (mshr_set b e' t) = mshr_set b e t" for e e'
    by (simp add: mshr_set_def update_update)
  have upd: "?e\<lparr>me_list := x, me_has_atomic := y\<rparr> = \<lparr>me_list = x, me_has_atomic = y\<rparr>"
    "?e\<lparr>me_list := x\<rparr> = \<lparr>me_list = x, me_has_atomic = me_has_atomic ?e\<rparr>" for x y
    by (cases ?e; simp)+
  show ?thesis
    by (cases "deref r ms")
      (auto simp: mshr_add_def bind_Some_iff twice Let_def len mshr_pending_def upd(1) Suc_le_eq,
       auto simp: upd(2))
qed

lemma mshr_wf_set:
  assumes "mshr_wf t" "length (mshr_data (mshr_set b e t)) \<le> unat (mshr_num_entries t)"
    "me_list e \<noteq> []" "length (me_list e) \<le> unat (mshr_max_merged t)"
  shows "mshr_wf (mshr_set b e t)"
proof -
  have "distinct (map fst (mshr_data (mshr_set b e t)))"
    using assms(1) by (simp add: mshr_set_def mshr_wf_def distinct_update)
  then show ?thesis
    using assms by (auto simp: mshr_wf_def mshr_probe_def split: if_splits)
qed

lemma mshr_wf_response:
  assumes "mshr_wf t" "distinct rs" "\<forall>b \<in> set rs. mshr_probe b t"
  shows "mshr_wf (t\<lparr>mshr_current_response := rs\<rparr>)"
  using assms by (auto simp: mshr_wf_def mshr_probe_def)

text \<open>An accepted request: what \<open>full\<close> promises and what it changes.\<close>

lemma mshr_add_accepts:
  assumes "mshr_wf t" "deref r ms = Some m" "mshr_max_merged t \<noteq> 0"
  shows "(\<exists>t'. mshr_add ms b r t = Some t') \<longleftrightarrow> \<not> mshr_full b t"
proof -
  have z: "0 < unat (mshr_max_merged t)" using assms(3) by (simp add: unat_gt_0)
  show ?thesis
  proof (cases "mshr_find b t")
    case None
    then have "length (mshr_data (mshr_set b e t)) = Suc (length (mshr_data t))" for e
      by (simp add: mshr_set_def length_update mshr_find_def)
    then show ?thesis
      using None z assms(2)
      by (auto simp: mshr_add_eq mshr_full_def mshr_pending_def mshr_index_def mshr_entry_new_def)
  next
    case (Some e)
    then have "length (mshr_data (mshr_set b e' t)) = length (mshr_data t)" for e'
      by (simp add: mshr_set_def length_update mshr_find_def)
    then show ?thesis
      using Some assms(1,2)
      by (auto simp: mshr_add_eq mshr_full_def mshr_pending_def mshr_index_def mshr_wf_def not_le)
  qed
qed

lemma mshr_add_spec:
  assumes "mshr_wf t" "mshr_add ms b r t = Some t'"
  shows "mshr_wf t' \<and> mshr_pending t' = (mshr_pending t)(b := mshr_pending t b @ [r]) \<and>
    mshr_current_response t' = mshr_current_response t"
proof -
  from assms(2) obtain m x where
    l: "length (mshr_data (mshr_set b (mshr_index b t) t)) \<le> unat (mshr_num_entries t)"
      "length (mshr_pending t b) < unat (mshr_max_merged t)"
      "t' = mshr_set b \<lparr>me_list = mshr_pending t b @ [r], me_has_atomic = x\<rparr> t"
    by (auto simp: mshr_add_eq)
  have "length (mshr_data (mshr_set b e t)) \<le> unat (mshr_num_entries t)" for e
    using l(1) by (simp add: mshr_set_def length_update)
  then have "mshr_wf t'"
    unfolding l(3) by (rule mshr_wf_set[OF assms(1)]) (use l(2) in simp_all)
  then show ?thesis by (simp add: l(3) mshr_pending_set)
qed

lemma mshr_ready_spec:
  assumes "mshr_wf t" "b \<notin> set (mshr_current_response t)" "mshr_mark_ready b t = Some (a, t')"
  shows "mshr_wf t' \<and> mshr_pending t' = mshr_pending t \<and>
    mshr_current_response t' = mshr_current_response t @ [b]"
proof -
  from assms(3) have p: "mshr_probe b t"
    and t': "t' = t\<lparr>mshr_current_response := mshr_current_response t @ [b]\<rparr>"
    by (auto simp: mshr_mark_ready_def mshr_probe_def bind_Some_iff Let_def)
  have "mshr_wf t'"
    unfolding t' using assms(1,2) p by (intro mshr_wf_response) (auto simp: mshr_wf_def)
  then show ?thesis by (simp add: t')
qed

lemma mshr_next_spec:
  assumes "mshr_wf t" "mshr_next_access t = Some (r, t')"
  shows "mshr_wf t' \<and> (\<exists>b bs. mshr_current_response t = b # bs \<and> mshr_pending t b = r # mshr_pending t' b \<and>
      mshr_pending t' = (mshr_pending t)(b := mshr_pending t' b) \<and>
      mshr_current_response t' = (if mshr_pending t' b = [] then bs else b # bs))"
proof -
  from assms(2) obtain b bs where c: "mshr_current_response t = b # bs"
    by (auto simp: mshr_next_access_def split: list.splits)
  then have "mshr_probe b t" and nb: "b \<notin> set bs" "distinct bs" "\<forall>c \<in> set bs. mshr_probe c t"
    using assms(1) by (auto simp: mshr_wf_def)
  then obtain e where e: "mshr_find b t = Some e" by (auto simp: mshr_probe_def)
  then have i: "mshr_index b t = e" by (simp add: mshr_index_def)
  from assms(1) e have bnd: "length (me_list e) \<le> unat (mshr_max_merged t)" by (auto simp: mshr_wf_def)
  from assms(2) c i obtain more where m: "me_list e = r # more"
    by (auto simp: mshr_next_access_def Let_def split: list.splits if_splits)
  show ?thesis
  proof (cases "more = []")
    case True
    then have t': "t' = (mshr_erase b t)\<lparr>mshr_current_response := bs\<rparr>"
      using assms(2) c i m by (auto simp: mshr_next_access_def Let_def)
    have "length (mshr_data (mshr_erase b t)) \<le> length (mshr_data t)"
      by (simp add: mshr_erase_def length_delete_le)
    then have "mshr_wf (t\<lparr>mshr_data := mshr_data (mshr_erase b t), mshr_current_response := bs\<rparr>)"
      using assms(1) nb
      by (auto simp: mshr_wf_def mshr_probe_def mshr_find_def mshr_erase_def delete_conv' distinct_delete split: if_splits)
    then have "mshr_wf t'" by (simp add: t' mshr_erase_def)
    then show ?thesis using c i m True by (auto simp: t' mshr_pending_erase) (simp_all add: mshr_pending_def)
  next
    case False
    then have t': "t' = mshr_set b (e\<lparr>me_list := more\<rparr>) t"
      using assms(2) c i m by (auto simp: mshr_next_access_def Let_def)
    have "length (mshr_data (mshr_set b x t)) = length (mshr_data t)" for x
      using e by (simp add: mshr_set_def length_update mshr_find_def)
    then have "mshr_wf t'"
      unfolding t' using assms(1) False m bnd by (intro mshr_wf_set) (auto simp: mshr_wf_def)
    then show ?thesis using c i m False by (auto simp: t' mshr_pending_set) (simp_all add: mshr_pending_def)
  qed
qed

lemma mshr_next_total:
  assumes "mshr_wf t" "mshr_current_response t \<noteq> []"
  shows "mshr_next_access t \<noteq> None"
  using assms
  by (auto simp: mshr_next_access_def mshr_wf_def mshr_probe_def mshr_index_def Let_def split: list.splits)

interpretation mshr: miss_table mshr_full mshr_add mshr_mark_ready mshr_next_access mshr_pending
  mshr_current_response mshr_wf
  by unfold_locales (blast dest: mshr_add_spec mshr_ready_spec mshr_next_spec mshr_next_total)+

section \<open>Properties\<close>

abbreviation run_mshr ::
  "(mem_store, u64, mf_ref) mshr_event list \<Rightarrow> mshr_table \<Rightarrow> ((u64 \<times> mf_ref) list \<times> mshr_table) option" where
  "run_mshr \<equiv> run_table mshr_add mshr_mark_ready mshr_next_access mshr_current_response"

lemma mshr_wf_new [simp, intro]: "mshr_wf (mshr_table_new n m)"
  by (simp add: mshr_wf_def mshr_table_new_def mshr_find_def)

lemma mshr_pending_new [simp]: "mshr_pending (mshr_table_new n m) b = []"
  by (simp add: mshr_pending_def mshr_index_def mshr_find_def mshr_table_new_def mshr_entry_new_def)

text \<open>
  C22: whatever sequence of requests, fills and hand-outs a new table of miss registers goes through
  without a failed assertion, the requests of every block leave it in the order in which they were
  added; those not handed out yet are exactly the ones still waiting.
\<close>

theorem mshr_is_fifo:
  assumes "run_mshr es (mshr_table_new n m) = Some (out, t)"
  shows "added b es = served b out @ mshr_pending t b"
  using mshr.run_is_fifo[OF assms mshr_wf_new, of b] by simp

text \<open>
  \<open>full\<close> is exact. In a well-formed table with room for at least one request per entry, adding a
  live request passes both assertions of \<open>add\<close> if and only if \<open>full\<close> said there is room; the table
  stays within \<open>m_num_entries\<close> entries and \<open>m_max_merged\<close> requests per entry, and only the entry of
  the block grows.
\<close>

lemma mshr_full_is_exact:
  assumes "mshr_wf t" "deref r ms = Some mf" "mshr_max_merged t \<noteq> 0"
  shows "if mshr_full b t then mshr_add ms b r t = None
    else \<exists>t'. mshr_add ms b r t = Some t' \<and> mshr_wf t' \<and>
      mshr_pending t' = (mshr_pending t)(b := mshr_pending t b @ [r])"
  using mshr_add_accepts[OF assms, of b] mshr_add_spec[OF assms(1)] by auto

text \<open>The flags (true for a write) contain a read somewhere after a write.\<close>

lemma read_after_write_found: "read_after_write True ws \<longleftrightarrow> False \<in> set ws"
  by (induction ws) auto

lemma read_after_write_iff:
  "read_after_write False ws \<longleftrightarrow> (\<exists>xs ys. ws = xs @ True # ys \<and> False \<in> set ys)"
proof (induction ws)
  case (Cons w ws)
  show ?case
  proof (cases w)
    case True
    then show ?thesis
      by (auto simp: read_after_write_found Cons_eq_append_conv)
  next
    case False
    then show ?thesis
      using Cons by (auto simp: Cons_eq_append_conv)
  qed
qed simp

lemma read_after_write_split:
  "read_after_write False ws \<longleftrightarrow> (\<exists>xs ys zs. ws = xs @ True # ys @ False # zs)"
  unfolding read_after_write_iff by (metis in_set_conv_decomp)

lemma map_two_eq:
  "(\<exists>xs ys zs. map g ms = xs @ a # ys @ b # zs) \<longleftrightarrow>
     (\<exists>us u vs v ws. ms = us @ u # vs @ v # ws \<and> g u = a \<and> g v = b)"
proof
  assume "\<exists>xs ys zs. map g ms = xs @ a # ys @ b # zs"
  then show "\<exists>us u vs v ws. ms = us @ u # vs @ v # ws \<and> g u = a \<and> g v = b"
    by (fastforce simp: map_eq_append_conv append_eq_map_conv map_eq_Cons_conv Cons_eq_map_conv)
next
  assume "\<exists>us u vs v ws. ms = us @ u # vs @ v # ws \<and> g u = a \<and> g v = b"
  then obtain us u vs v ws where "map g ms = map g us @ a # map g vs @ b # map g ws" by auto
  then show "\<exists>xs ys zs. map g ms = xs @ a # ys @ b # zs" by blast
qed

lemma those_map_eq: "those (map f xs) = Some ys \<longleftrightarrow> map f xs = map Some ys"
  by (induction xs arbitrary: ys) (auto split: option.splits simp: Cons_eq_map_conv map_eq_Cons_conv)

lemma mshr_set_same: "mshr_probe b t \<Longrightarrow> mshr_set b (mshr_index b t) t = t"
  by (auto simp: mshr_probe_def mshr_set_def mshr_index_def mshr_find_def update_same)

text \<open>
  For a block with an entry, \<open>is_read_after_write_pending\<close> leaves the table alone and answers
  whether among the waiting requests some read comes later than some write.
\<close>

lemma read_after_write_is_detected:
  assumes "mshr_probe b t" "is_read_after_write_pending ms b t = Some (raw, t')"
  shows "t' = t \<and> (raw \<longleftrightarrow> (\<exists>xs w ys r zs mw mr. mshr_pending t b = xs @ w # ys @ r # zs \<and>
    deref w ms = Some mw \<and> get_is_write mw \<and> deref r ms = Some mr \<and> \<not> get_is_write mr))"
proof -
  from assms obtain mfs where t: "t' = t" and m: "map (\<lambda>r. deref r ms) (mshr_pending t b) = map Some mfs"
    and raw: "raw = read_after_write False (map get_is_write mfs)"
    by (auto simp: is_read_after_write_pending_def mshr_set_same bind_Some_iff Let_def those_map_eq mshr_pending_def)
  have live: "deref r ms \<noteq> None" if "r \<in> set (mshr_pending t b)" for r
    using m that by (metis (no_types, lifting) in_set_conv_nth length_map nth_map option.distinct(1))
  have "mfs = map (\<lambda>r. the (deref r ms)) (mshr_pending t b)"
    using arg_cong[OF m, of "map the"] by (simp add: comp_def)
  then have "raw \<longleftrightarrow> (\<exists>xs w ys r zs. mshr_pending t b = xs @ w # ys @ r # zs \<and>
      get_is_write (the (deref w ms)) = True \<and> get_is_write (the (deref r ms)) = False)"
    unfolding raw read_after_write_split
    by (simp only: map_map comp_def map_two_eq)
  also have "\<dots> \<longleftrightarrow> (\<exists>xs w ys r zs mw mr. mshr_pending t b = xs @ w # ys @ r # zs \<and>
    deref w ms = Some mw \<and> get_is_write mw \<and> deref r ms = Some mr \<and> \<not> get_is_write mr)"
  proof -
    have "(mshr_pending t b = xs @ w # ys @ r # zs \<and>
        get_is_write (the (deref w ms)) = True \<and> get_is_write (the (deref r ms)) = False) =
      (\<exists>mw mr. mshr_pending t b = xs @ w # ys @ r # zs \<and>
        deref w ms = Some mw \<and> get_is_write mw \<and> deref r ms = Some mr \<and> \<not> get_is_write mr)"
      for xs w ys r zs
      using live[of w] live[of r] by (cases "deref w ms"; cases "deref r ms") auto
    then show ?thesis by (simp only:)
  qed
  finally show ?thesis by (simp add: t)
qed

section \<open>Witnesses\<close>

definition one_fetch :: mem_store where
  "one_fetch = \<lparr>ms_heap = [0 \<mapsto> sample_fetch (sample_access GLOBAL_ACC_W True),
      1 \<mapsto> sample_fetch (sample_access GLOBAL_ACC_R False)],
     ms_next = 2, ms_next_uid = 2, ms_table = Map.empty, ms_rand = []\<rparr>"

lemmas mshr_run_defs = mshr_add_def mshr_index_def mshr_find_def mshr_set_def mshr_erase_def
  mshr_mark_ready_def mshr_next_access_def mshr_table_new_def mshr_entry_new_def deref_def
  one_fetch_def sample_fetch_def sample_access_def isatomic_def no_inst_def

theorem mshr_is_fifo_witness:
  "\<exists>t. run_mshr [Add one_fetch 128 0, Add one_fetch 256 0, Add one_fetch 128 1, Ready 128, Next]
      (mshr_table_new 2 2) = Some ([(128, 0)], t) \<and> mshr_pending t 128 = [1]"
proof -
  let ?es = "[Add one_fetch 128 0, Add one_fetch 256 0, Add one_fetch 128 1, Ready 128, Next]"
  obtain t where t: "run_mshr ?es (mshr_table_new 2 2) = Some ([(128, 0)], t)"
    by (simp add: mshr_run_defs)
  from mshr_is_fifo[OF t, of 128] show ?thesis
    using t by auto
qed

lemma mshr_full_is_exact_witness:
  "mshr_add one_fetch 128 0 (mshr_table_new 1 1) \<noteq> None"
  using mshr_full_is_exact[OF mshr_wf_new[of 1 1], of 0 one_fetch "sample_fetch (sample_access GLOBAL_ACC_W True)" 128]
  by (auto simp: mshr_full_def mshr_find_def mshr_table_new_def deref_def one_fetch_def)

lemma read_after_write_is_detected_witness:
  "\<exists>t. is_read_after_write_pending one_fetch 128 t = Some (True, t) \<and> mshr_pending t 128 = [0, 1]"
proof -
  let ?t = "\<lparr>mshr_num_entries = 1, mshr_max_merged = 2,
    mshr_data = [(128, \<lparr>me_list = [0, 1], me_has_atomic = False\<rparr>)], mshr_current_response = []\<rparr>"
  have p: "mshr_pending ?t 128 = [] @ 0 # [] @ 1 # []"
    by (simp add: mshr_pending_def mshr_index_def mshr_find_def)
  obtain r u where r: "is_read_after_write_pending one_fetch 128 ?t = Some (r, u)"
    by (simp add: is_read_after_write_pending_def mshr_run_defs)
  have "mshr_probe 128 ?t" by (simp add: mshr_probe_def mshr_find_def)
  note raw = read_after_write_is_detected[OF this r]
  have "\<exists>mw mr. deref 0 one_fetch = Some mw \<and> get_is_write mw \<and> deref 1 one_fetch = Some mr \<and> \<not> get_is_write mr"
    by (simp add: mshr_run_defs get_is_write_def)
  then have "r = True" "u = ?t" using raw p by blast+
  then show ?thesis using r p by (intro exI[of _ ?t]) simp
qed

end
