(* ===== verification/CacheStats.thy ===== *)
theory CacheStats
  imports TagArray
begin

text \<open>
  The statistics a cache keeps (\<open>cache_stats\<close>, \<open>cache_sub_stats\<close> and \<open>cache_sub_stats_pw\<close> in
  \<open>gpgpu-sim/gpu-cache.cc\<close>): one counter for each access type and outcome, the same per window, and
  one for each reason a request was refused. The two-dimensional vectors are functions of the two
  enumerations, so the range checks of the source always hold.
\<close>

section \<open>Data\<close>

datatype cache_reservation_fail_reason =
  LINE_ALLOC_FAIL | MISS_QUEUE_FULL | MSHR_ENRTY_FAIL | MSHR_MERGE_ENRTY_FAIL | MSHR_RW_PENDING

record cache_stats =
  m_stats :: "mem_access_type \<Rightarrow> cache_request_status \<Rightarrow> u64"
  m_stats_pw :: "mem_access_type \<Rightarrow> cache_request_status \<Rightarrow> u64"
  m_fail_stats :: "mem_access_type \<Rightarrow> cache_reservation_fail_reason \<Rightarrow> u64"
  m_cache_port_available_cycles :: u64
  m_cache_data_port_busy_cycles :: u64
  m_cache_fill_port_busy_cycles :: u64

record cache_sub_stats =
  accesses :: u64
  misses :: u64
  pending_hits :: u64
  res_fails :: u64
  port_available_cycles :: u64
  data_port_busy_cycles :: u64
  fill_port_busy_cycles :: u64

record cache_sub_stats_pw =
  pw_accesses :: u32
  write_misses :: u32
  write_hits :: u32
  write_pending_hits :: u32
  write_res_fails :: u32
  read_misses :: u32
  read_hits :: u32
  read_pending_hits :: u32
  read_res_fails :: u32

section \<open>Sub-statistics\<close>

definition sub_stats_clear :: cache_sub_stats where
  "sub_stats_clear = \<lparr>accesses = 0, misses = 0, pending_hits = 0, res_fails = 0,
     port_available_cycles = 0, data_port_busy_cycles = 0, fill_port_busy_cycles = 0\<rparr>"

definition sub_stats_add :: "cache_sub_stats \<Rightarrow> cache_sub_stats \<Rightarrow> cache_sub_stats" where
  "sub_stats_add a b = \<lparr>accesses = accesses a + accesses b, misses = misses a + misses b,
     pending_hits = pending_hits a + pending_hits b, res_fails = res_fails a + res_fails b,
     port_available_cycles = port_available_cycles a + port_available_cycles b,
     data_port_busy_cycles = data_port_busy_cycles a + data_port_busy_cycles b,
     fill_port_busy_cycles = fill_port_busy_cycles a + fill_port_busy_cycles b\<rparr>"

definition sub_stats_pw_clear :: cache_sub_stats_pw where
  "sub_stats_pw_clear = \<lparr>pw_accesses = 0, write_misses = 0, write_hits = 0, write_pending_hits = 0,
     write_res_fails = 0, read_misses = 0, read_hits = 0, read_pending_hits = 0, read_res_fails = 0\<rparr>"

text \<open>\<open>operator+=\<close> on the per-window sums; \<open>operator+\<close> adds the same fields to a cleared object.\<close>

definition sub_stats_pw_add_to :: "cache_sub_stats_pw \<Rightarrow> cache_sub_stats_pw \<Rightarrow> cache_sub_stats_pw" where
  "sub_stats_pw_add_to a b = a\<lparr>
     pw_accesses := pw_accesses a + pw_accesses b,
     write_misses := write_misses a + write_misses b,
     read_misses := read_misses a + read_misses b,
     write_pending_hits := write_pending_hits a + write_pending_hits b,
     read_pending_hits := read_pending_hits a + read_pending_hits b,
     write_res_fails := write_res_fails a + write_res_fails b,
     read_res_fails := read_res_fails a + read_res_fails b\<rparr>"

definition sub_stats_pw_add :: "cache_sub_stats_pw \<Rightarrow> cache_sub_stats_pw \<Rightarrow> cache_sub_stats_pw" where
  "sub_stats_pw_add a b = sub_stats_pw_clear\<lparr>
     pw_accesses := pw_accesses a + pw_accesses b,
     write_misses := write_misses a + write_misses b,
     read_misses := read_misses a + read_misses b,
     write_pending_hits := write_pending_hits a + write_pending_hits b,
     read_pending_hits := read_pending_hits a + read_pending_hits b,
     write_res_fails := write_res_fails a + write_res_fails b,
     read_res_fails := read_res_fails a + read_res_fails b\<rparr>"

section \<open>Counting\<close>

definition cache_stats_new :: cache_stats where
  "cache_stats_new = \<lparr>m_stats = (\<lambda>_ _. 0), m_stats_pw = (\<lambda>_ _. 0), m_fail_stats = (\<lambda>_ _. 0),
     m_cache_port_available_cycles = 0, m_cache_data_port_busy_cycles = 0,
     m_cache_fill_port_busy_cycles = 0\<rparr>"

definition stats_clear :: "cache_stats \<Rightarrow> cache_stats" where
  "stats_clear s = s\<lparr>m_stats := (\<lambda>_ _. 0), m_fail_stats := (\<lambda>_ _. 0),
     m_cache_port_available_cycles := 0, m_cache_data_port_busy_cycles := 0,
     m_cache_fill_port_busy_cycles := 0\<rparr>"

definition stats_clear_pw :: "cache_stats \<Rightarrow> cache_stats" where
  "stats_clear_pw s = s\<lparr>m_stats_pw := (\<lambda>_ _. 0)\<rparr>"

definition bump :: "'a \<Rightarrow> 'b \<Rightarrow> ('a \<Rightarrow> 'b \<Rightarrow> u64) \<Rightarrow> 'a \<Rightarrow> 'b \<Rightarrow> u64" where
  "bump a b f = f(a := (f a)(b := f a b + 1))"

definition inc_stats :: "mem_access_type \<Rightarrow> cache_request_status \<Rightarrow> cache_stats \<Rightarrow> cache_stats" where
  "inc_stats access_type access_outcome s =
     s\<lparr>m_stats := bump access_type access_outcome (m_stats s)\<rparr>"

definition inc_stats_pw :: "mem_access_type \<Rightarrow> cache_request_status \<Rightarrow> cache_stats \<Rightarrow> cache_stats" where
  "inc_stats_pw access_type access_outcome s =
     s\<lparr>m_stats_pw := bump access_type access_outcome (m_stats_pw s)\<rparr>"

definition inc_fail_stats ::
  "mem_access_type \<Rightarrow> cache_reservation_fail_reason \<Rightarrow> cache_stats \<Rightarrow> cache_stats" where
  "inc_fail_stats access_type fail_outcome s =
     s\<lparr>m_fail_stats := bump access_type fail_outcome (m_fail_stats s)\<rparr>"

definition select_stats_status :: "cache_request_status \<Rightarrow> cache_request_status \<Rightarrow> cache_request_status" where
  "select_stats_status probed accessed =
    (if probed = HIT_RESERVED \<and> accessed \<noteq> RESERVATION_FAIL then probed
     else if probed = SECTOR_MISS \<and> accessed = MISS then probed
     else accessed)"

definition sample_cache_port_utility :: "bool \<Rightarrow> bool \<Rightarrow> cache_stats \<Rightarrow> cache_stats" where
  "sample_cache_port_utility data_port_busy fill_port_busy s =
    (let s = s\<lparr>m_cache_port_available_cycles := m_cache_port_available_cycles s + 1\<rparr>;
         s = (if data_port_busy
              then s\<lparr>m_cache_data_port_busy_cycles := m_cache_data_port_busy_cycles s + 1\<rparr> else s)
     in if fill_port_busy
        then s\<lparr>m_cache_fill_port_busy_cycles := m_cache_fill_port_busy_cycles s + 1\<rparr> else s)"

section \<open>Adding and reading\<close>

definition access_types :: "mem_access_type list" where
  "access_types = [GLOBAL_ACC_R, LOCAL_ACC_R, CONST_ACC_R, TEXTURE_ACC_R, GLOBAL_ACC_W, LOCAL_ACC_W,
     L1_WRBK_ACC, L2_WRBK_ACC, INST_ACC_R, L1_WR_ALLOC_R, L2_WR_ALLOC_R]"

definition request_statuses :: "cache_request_status list" where
  "request_statuses = [HIT, HIT_RESERVED, MISS, RESERVATION_FAIL, SECTOR_MISS]"

text \<open>\<open>operator+\<close> starts from a new object and leaves its per-window counters at zero.\<close>

definition stats_plus :: "cache_stats \<Rightarrow> cache_stats \<Rightarrow> cache_stats" where
  "stats_plus s cs = cache_stats_new\<lparr>
     m_stats := (\<lambda>t o'. m_stats s t o' + m_stats cs t o'),
     m_fail_stats := (\<lambda>t o'. m_fail_stats s t o' + m_fail_stats cs t o'),
     m_cache_port_available_cycles := m_cache_port_available_cycles s + m_cache_port_available_cycles cs,
     m_cache_data_port_busy_cycles := m_cache_data_port_busy_cycles s + m_cache_data_port_busy_cycles cs,
     m_cache_fill_port_busy_cycles := m_cache_fill_port_busy_cycles s + m_cache_fill_port_busy_cycles cs\<rparr>"

text \<open>\<open>operator+=\<close>: the counters of \<open>cs\<close> are added to both tables.\<close>

definition stats_add_to :: "cache_stats \<Rightarrow> cache_stats \<Rightarrow> cache_stats" where
  "stats_add_to s cs = s\<lparr>
     m_stats := (\<lambda>t o'. m_stats s t o' + m_stats cs t o'),
     m_stats_pw := (\<lambda>t o'. m_stats_pw s t o' + m_stats cs t o'),
     m_fail_stats := (\<lambda>t o'. m_fail_stats s t o' + m_fail_stats cs t o'),
     m_cache_port_available_cycles := m_cache_port_available_cycles s + m_cache_port_available_cycles cs,
     m_cache_data_port_busy_cycles := m_cache_data_port_busy_cycles s + m_cache_data_port_busy_cycles cs,
     m_cache_fill_port_busy_cycles := m_cache_fill_port_busy_cycles s + m_cache_fill_port_busy_cycles cs\<rparr>"

definition get_stats :: "mem_access_type list \<Rightarrow> cache_request_status list \<Rightarrow> cache_stats \<Rightarrow> u64" where
  "get_stats access_type access_status s =
     foldl (\<lambda>total t. foldl (\<lambda>total o'. total + m_stats s t o') total access_status) 0 access_type"

definition add_sub_stats :: "cache_stats \<Rightarrow> cache_sub_stats \<Rightarrow> mem_access_type \<times> cache_request_status \<Rightarrow> cache_sub_stats" where
  "add_sub_stats s css p = (case p of (type, status) \<Rightarrow>
     (let n = m_stats s type status;
          css = (if status = HIT \<or> status = MISS \<or> status = SECTOR_MISS \<or> status = HIT_RESERVED
                 then css\<lparr>accesses := accesses css + n\<rparr> else css);
          css = (if status = MISS \<or> status = SECTOR_MISS then css\<lparr>misses := misses css + n\<rparr> else css);
          css = (if status = HIT_RESERVED then css\<lparr>pending_hits := pending_hits css + n\<rparr> else css)
      in if status = RESERVATION_FAIL then css\<lparr>res_fails := res_fails css + n\<rparr> else css))"

definition get_sub_stats :: "cache_stats \<Rightarrow> cache_sub_stats" where
  "get_sub_stats s =
    (foldl (add_sub_stats s) sub_stats_clear (List.product access_types request_statuses))
      \<lparr>port_available_cycles := m_cache_port_available_cycles s,
       data_port_busy_cycles := m_cache_data_port_busy_cycles s,
       fill_port_busy_cycles := m_cache_fill_port_busy_cycles s\<rparr>"

definition is_read_type :: "mem_access_type \<Rightarrow> bool" where
  "is_read_type t = (t = GLOBAL_ACC_R \<or> t = CONST_ACC_R \<or> t = INST_ACC_R)"

definition add_sub_stats_pw ::
  "cache_stats \<Rightarrow> cache_sub_stats_pw \<Rightarrow> mem_access_type \<times> cache_request_status \<Rightarrow> cache_sub_stats_pw" where
  "add_sub_stats_pw s css p = (case p of (type, status) \<Rightarrow>
     (let n = ucast (m_stats_pw s type status);
          css = (if status = HIT \<or> status = MISS \<or> status = SECTOR_MISS \<or> status = HIT_RESERVED
                 then css\<lparr>pw_accesses := pw_accesses css + n\<rparr> else css)
      in case status of
           HIT \<Rightarrow>
             if is_read_type type then css\<lparr>read_hits := read_hits css + n\<rparr>
             else if type = GLOBAL_ACC_W then css\<lparr>write_hits := write_hits css + n\<rparr> else css
         | MISS \<Rightarrow>
             if is_read_type type then css\<lparr>read_misses := read_misses css + n\<rparr>
             else if type = GLOBAL_ACC_W then css\<lparr>write_misses := write_misses css + n\<rparr> else css
         | SECTOR_MISS \<Rightarrow>
             if is_read_type type then css\<lparr>read_misses := read_misses css + n\<rparr>
             else if type = GLOBAL_ACC_W then css\<lparr>write_misses := write_misses css + n\<rparr> else css
         | HIT_RESERVED \<Rightarrow>
             if is_read_type type then css\<lparr>read_pending_hits := read_pending_hits css + n\<rparr>
             else if type = GLOBAL_ACC_W then css\<lparr>write_pending_hits := write_pending_hits css + n\<rparr> else css
         | RESERVATION_FAIL \<Rightarrow>
             if is_read_type type then css\<lparr>read_res_fails := read_res_fails css + n\<rparr>
             else if type = GLOBAL_ACC_W then css\<lparr>write_res_fails := write_res_fails css + n\<rparr> else css))"

definition get_sub_stats_pw :: "cache_stats \<Rightarrow> cache_sub_stats_pw" where
  "get_sub_stats_pw s =
     foldl (add_sub_stats_pw s) sub_stats_pw_clear (List.product access_types request_statuses)"

section \<open>What the counters count\<close>

text \<open>The outcomes recorded so far, as a log.\<close>

definition record_all :: "(mem_access_type \<times> cache_request_status) list \<Rightarrow> cache_stats \<Rightarrow> cache_stats" where
  "record_all log s = fold (\<lambda>p. inc_stats (fst p) (snd p)) log s"

lemma record_all_counts:
  "m_stats (record_all log s) t o' = m_stats s t o' + of_nat (count_list log (t, o'))"
  by (induction log arbitrary: s) (auto simp: record_all_def inc_stats_def bump_def)

lemma sub_stats_fold:
  "accesses (foldl (add_sub_stats s) css ps) =
     accesses css + (\<Sum>p\<leftarrow>ps. if snd p \<noteq> RESERVATION_FAIL then m_stats s (fst p) (snd p) else 0)"
  "misses (foldl (add_sub_stats s) css ps) =
     misses css + (\<Sum>p\<leftarrow>ps. if snd p = MISS \<or> snd p = SECTOR_MISS then m_stats s (fst p) (snd p) else 0)"
  "pending_hits (foldl (add_sub_stats s) css ps) =
     pending_hits css + (\<Sum>p\<leftarrow>ps. if snd p = HIT_RESERVED then m_stats s (fst p) (snd p) else 0)"
  "res_fails (foldl (add_sub_stats s) css ps) =
     res_fails css + (\<Sum>p\<leftarrow>ps. if snd p = RESERVATION_FAIL then m_stats s (fst p) (snd p) else 0)"
proof -
  have step:
    "accesses (add_sub_stats s css p) = accesses css + (if snd p \<noteq> RESERVATION_FAIL then m_stats s (fst p) (snd p) else 0)"
    "misses (add_sub_stats s css p) = misses css + (if snd p = MISS \<or> snd p = SECTOR_MISS then m_stats s (fst p) (snd p) else 0)"
    "pending_hits (add_sub_stats s css p) = pending_hits css + (if snd p = HIT_RESERVED then m_stats s (fst p) (snd p) else 0)"
    "res_fails (add_sub_stats s css p) = res_fails css + (if snd p = RESERVATION_FAIL then m_stats s (fst p) (snd p) else 0)"
    for css p
  proof -
    obtain t o' where p: "p = (t, o')" by (cases p)
    show
      "accesses (add_sub_stats s css p) = accesses css + (if snd p \<noteq> RESERVATION_FAIL then m_stats s (fst p) (snd p) else 0)"
      "misses (add_sub_stats s css p) = misses css + (if snd p = MISS \<or> snd p = SECTOR_MISS then m_stats s (fst p) (snd p) else 0)"
      "pending_hits (add_sub_stats s css p) = pending_hits css + (if snd p = HIT_RESERVED then m_stats s (fst p) (snd p) else 0)"
      "res_fails (add_sub_stats s css p) = res_fails css + (if snd p = RESERVATION_FAIL then m_stats s (fst p) (snd p) else 0)"
      unfolding p by (cases o'; simp add: add_sub_stats_def Let_def)+
  qed
  show
    "accesses (foldl (add_sub_stats s) css ps) =
       accesses css + (\<Sum>p\<leftarrow>ps. if snd p \<noteq> RESERVATION_FAIL then m_stats s (fst p) (snd p) else 0)"
    "misses (foldl (add_sub_stats s) css ps) =
       misses css + (\<Sum>p\<leftarrow>ps. if snd p = MISS \<or> snd p = SECTOR_MISS then m_stats s (fst p) (snd p) else 0)"
    "pending_hits (foldl (add_sub_stats s) css ps) =
       pending_hits css + (\<Sum>p\<leftarrow>ps. if snd p = HIT_RESERVED then m_stats s (fst p) (snd p) else 0)"
    "res_fails (foldl (add_sub_stats s) css ps) =
       res_fails css + (\<Sum>p\<leftarrow>ps. if snd p = RESERVATION_FAIL then m_stats s (fst p) (snd p) else 0)"
    by (induction ps arbitrary: css) (simp_all add: step add.assoc)
qed

lemma sum_count_list:
  assumes "distinct ps" "set log \<subseteq> set ps"
  shows "(\<Sum>p\<leftarrow>ps. if P p then of_nat (count_list log p) else 0) = (of_nat (length (filter P log)) :: u64)"
  using assms(2)
proof (induction log)
  case Nil
  then show ?case by (simp add: sum_list_0 if_distrib cong: if_cong)
next
  case (Cons x log)
  have one: "(\<Sum>p\<leftarrow>ps. if x = p then (if P p then 1 else 0) else 0) = (if P x then 1 else 0 :: u64)"
    using assms(1) Cons.prems by (simp add: sum_list_distinct_conv_sum_set sum.delta')
  have "(\<Sum>p\<leftarrow>ps. if P p then of_nat (count_list (x # log) p) else 0) =
      (\<Sum>p\<leftarrow>ps. (if P p then of_nat (count_list log p) else 0) + (if x = p then (if P p then 1 else 0) else 0 :: u64))"
    by (rule arg_cong[where f = sum_list]) (auto)
  then show ?case
    using Cons by (simp add: sum_list_addf one)
qed

lemma all_pairs: "distinct (List.product access_types request_statuses)"
  "set (List.product access_types request_statuses) = UNIV"
proof -
  have "set access_types = UNIV" using mem_access_type.exhaust by (auto simp: access_types_def)
  moreover have "set request_statuses = UNIV" using cache_request_status.exhaust by (auto simp: request_statuses_def)
  ultimately show "set (List.product access_types request_statuses) = UNIV" by simp
  show "distinct (List.product access_types request_statuses)"
    by (rule distinct_product) (simp_all add: access_types_def request_statuses_def)
qed

section \<open>Properties\<close>

text \<open>
  C34: the summary of a cache's statistics counts what was recorded. After any log of outcomes,
  \<open>get_sub_stats\<close> reports (modulo the width of the counters) the number of outcomes that were not
  refused, of misses of either kind, of hits on reserved lines, and of refusals.
\<close>

theorem sub_stats_count_the_log:
  defines "count P log \<equiv> of_nat (length (filter (\<lambda>p :: mem_access_type \<times> cache_request_status. P (snd p)) log)) :: u64"
  shows "let css = get_sub_stats (record_all log cache_stats_new) in
    accesses css = count (\<lambda>o'. o' \<noteq> RESERVATION_FAIL) log \<and>
    misses css = count (\<lambda>o'. o' = MISS \<or> o' = SECTOR_MISS) log \<and>
    pending_hits css = count (\<lambda>o'. o' = HIT_RESERVED) log \<and>
    res_fails css = count (\<lambda>o'. o' = RESERVATION_FAIL) log"
proof -
  let ?ps = "List.product access_types request_statuses"
  have n: "m_stats (record_all log cache_stats_new) (fst p) (snd p) = of_nat (count_list log p)" for p
    by (simp add: record_all_counts cache_stats_new_def)
  have all: "set log \<subseteq> set ?ps" unfolding all_pairs by simp
  have sums: "(\<Sum>p\<leftarrow>?ps. if P p then m_stats (record_all log cache_stats_new) (fst p) (snd p) else 0) =
      of_nat (length (filter P log))" for P
    unfolding n by (rule sum_count_list[OF all_pairs(1) all])
  show ?thesis
    by (simp add: Let_def get_sub_stats_def sub_stats_fold sub_stats_clear_def sums count_def)
qed

text \<open>
  Adding the statistics of two caches and then summarising is the same as adding the summaries,
  which is how the simulator totals the caches of all cores.
\<close>

lemma sub_stats_of_sum:
  "get_sub_stats (stats_plus a b) = sub_stats_add (get_sub_stats a) (get_sub_stats b)"
proof -
  have sums: "(\<Sum>p\<leftarrow>ps. if P p then m_stats (stats_plus a b) (fst p) (snd p) else 0) =
      (\<Sum>p\<leftarrow>ps. if P p then m_stats a (fst p) (snd p) else 0) +
      (\<Sum>p\<leftarrow>ps. if P p then m_stats b (fst p) (snd p) else 0)" for P ps
    by (induction ps) (simp_all add: stats_plus_def)
  show ?thesis
    by (rule cache_sub_stats.equality)
      (simp_all add: get_sub_stats_def sub_stats_add_def sub_stats_fold sub_stats_clear_def sums,
       simp_all add: stats_plus_def)
qed

text \<open>
  The per-window summaries do not add up like this: \<open>operator+\<close> starts from a cleared object and
  never adds the hits, and \<open>operator+=\<close> adds the totals of the other cache to the window.
\<close>

lemma pw_hits_are_lost: "read_hits (sub_stats_pw_add a b) = 0" "write_hits (sub_stats_pw_add a b) = 0"
  by (simp_all add: sub_stats_pw_add_def sub_stats_pw_clear_def)

lemma window_gets_totals:
  "m_stats_pw (stats_add_to cache_stats_new (stats_clear_pw (inc_stats t o' cache_stats_new))) t o' = 1"
  by (simp add: stats_add_to_def stats_clear_pw_def inc_stats_def bump_def cache_stats_new_def)

end
