(* ===== verification/Cache.thy ===== *)
theory Cache
  imports Mshr CacheStats
begin

text \<open>
  The caches built from a tag array and miss registers: \<open>baseline_cache\<close>, \<open>read_only_cache\<close> and
  \<open>data_cache\<close> with all its write policies (\<open>gpgpu-sim/gpu-cache.cc\<close>). Requests are references into
  the store. An access works on an \<open>access_state\<close>, the cache together with the store and the list of
  events it reports; a step whose assertion fails is \<open>None\<close>.
\<close>

section \<open>Data\<close>

datatype cache_event_type =
  WRITE_BACK_REQUEST_SENT | READ_REQUEST_SENT | WRITE_REQUEST_SENT | WRITE_ALLOCATE_SENT

record cache_event =
  m_cache_event_type :: cache_event_type
  m_evicted_block :: evicted_block_info

definition no_block :: evicted_block_info where
  "no_block = \<lparr>m_block_addr = 0, m_modified_size = 0\<rparr>"

definition event :: "cache_event_type \<Rightarrow> cache_event" where
  "event t = \<lparr>m_cache_event_type = t, m_evicted_block = no_block\<rparr>"

record extra_mf_fields =
  ex_valid :: bool
  ex_block_addr :: u64
  ex_addr :: u64
  ex_cache_index :: u32
  ex_data_size :: u32
  ex_pending_read :: u32

text \<open>The allocators of the two kinds of caches: a shader core's and a memory partition's.\<close>

datatype mf_allocator = Shader_alloc u32 u32 memory_config | Partition_alloc memory_config

text \<open>
  One record for \<open>baseline_cache\<close> and its subclasses. Cache and tag array hold references to the same
  configuration object, which is the one in the tag array here. The last three fields are those of
  \<open>data_cache\<close>.
\<close>

record cache =
  c_tags :: tag_array
  c_mshrs :: mshr_table
  c_miss_queue :: "mf_ref list"
  c_miss_queue_status :: mem_fetch_status
  c_extra :: "mf_ref \<rightharpoonup> extra_mf_fields"
  c_stats :: cache_stats
  c_data_port_occupied_cycles :: u32   \<comment> \<open>\<open>int\<close>\<close>
  c_fill_port_occupied_cycles :: u32
  c_wr_alloc_type :: mem_access_type
  c_wrbk_type :: mem_access_type
  c_allocator :: mf_allocator

abbreviation c_config :: "cache \<Rightarrow> cache_config" where
  "c_config c \<equiv> ta_config (c_tags c)"

record access_state =
  as_cache :: cache
  as_store :: mem_store
  as_events :: "cache_event list"

section \<open>Construction\<close>

definition baseline_cache_new ::
  "cache_config \<Rightarrow> addr_map option \<Rightarrow> mem_fetch_status \<Rightarrow> mem_access_type \<Rightarrow> mem_access_type
   \<Rightarrow> mf_allocator \<Rightarrow> cache option" where
  "baseline_cache_new cfg mapping status wr_alloc wrbk alloc = do {
     tags \<leftarrow> tag_array_new cfg mapping;
     ensure (m_mshr_type cfg = ASSOC \<or> m_mshr_type cfg = SECTOR_ASSOC);
     Some \<lparr>c_tags = tags, c_mshrs = mshr_table_new (m_mshr_entries cfg) (m_mshr_max_merge cfg),
       c_miss_queue = [], c_miss_queue_status = status, c_extra = Map.empty,
       c_stats = cache_stats_new, c_data_port_occupied_cycles = 0, c_fill_port_occupied_cycles = 0,
       c_wr_alloc_type = wr_alloc, c_wrbk_type = wrbk, c_allocator = alloc\<rparr>
   }"

text \<open>\<open>data_cache::init\<close> refuses a read-only write policy.\<close>

definition data_cache_new ::
  "cache_config \<Rightarrow> addr_map option \<Rightarrow> mem_fetch_status \<Rightarrow> mem_access_type \<Rightarrow> mem_access_type
   \<Rightarrow> mf_allocator \<Rightarrow> cache option" where
  "data_cache_new cfg mapping status wr_alloc wrbk alloc = do {
     c \<leftarrow> baseline_cache_new cfg mapping status wr_alloc wrbk alloc;
     ensure (m_write_policy cfg \<noteq> READ_ONLY);
     Some c
   }"

definition l1_cache_new ::
  "cache_config \<Rightarrow> addr_map option \<Rightarrow> mem_fetch_status \<Rightarrow> mf_allocator \<Rightarrow> cache option" where
  "l1_cache_new cfg mapping status alloc = data_cache_new cfg mapping status L1_WR_ALLOC_R L1_WRBK_ACC alloc"

definition l2_cache_new ::
  "cache_config \<Rightarrow> addr_map option \<Rightarrow> mem_fetch_status \<Rightarrow> mf_allocator \<Rightarrow> cache option" where
  "l2_cache_new cfg mapping status alloc = data_cache_new cfg mapping status L2_WR_ALLOC_R L2_WRBK_ACC alloc"

definition update_cache_parameters :: "cache_config \<Rightarrow> cache \<Rightarrow> cache option" where
  "update_cache_parameters cfg c = do {
     let c = c\<lparr>c_tags := ta_update_cache_parameters cfg (c_tags c)\<rparr>;
     check_mshr_parameters (m_mshr_entries cfg) (m_mshr_max_merge cfg) (c_mshrs c);
     Some c
   }"

text \<open>\<open>mem_fetch_allocator::alloc\<close>: a request the cache itself makes.\<close>

definition alloc_fetch ::
  "mf_allocator \<Rightarrow> u64 \<Rightarrow> mem_access_type \<Rightarrow> u32 \<Rightarrow> bool \<Rightarrow> u64 \<Rightarrow> mem_store \<Rightarrow> (mf_ref \<times> mem_store) option" where
  "alloc_fetch a addr type sz wr cycle ms =
    (let access = \<lparr>ma_addr = addr, ma_write = wr, ma_req_size = sz, ma_type = type,
           ma_warp_mask = 0, ma_byte_mask = 0, ma_sector_mask = 0\<rparr>
     in case a of
          Shader_alloc core_id cluster_id cfg \<Rightarrow>
            mem_fetch_new access None 8 (- 1) core_id cluster_id cfg cycle None None ms
        | Partition_alloc cfg \<Rightarrow> do {
            ensure wr;
            mem_fetch_new access None 8 (- 1) (- 1) (- 1) cfg cycle None None ms })"

section \<open>Events and bandwidth\<close>

definition was_write_sent :: "cache_event list \<Rightarrow> bool" where
  "was_write_sent events = list_ex (\<lambda>e. m_cache_event_type e = WRITE_REQUEST_SENT) events"

definition was_read_sent :: "cache_event list \<Rightarrow> bool" where
  "was_read_sent events = list_ex (\<lambda>e. m_cache_event_type e = READ_REQUEST_SENT) events"

definition was_writeallocate_sent :: "cache_event list \<Rightarrow> bool" where
  "was_writeallocate_sent events = list_ex (\<lambda>e. m_cache_event_type e = WRITE_ALLOCATE_SENT) events"

text \<open>
  \<open>was_writeback_sent\<close> returns in the first round of its loop, whatever the event is; only when that
  event is a write-back is \<open>wb_event\<close> set.
\<close>

definition was_writeback_sent :: "cache_event list \<Rightarrow> cache_event \<Rightarrow> bool \<times> cache_event" where
  "was_writeback_sent events wb_event =
    (case events of
       [] \<Rightarrow> (False, wb_event)
     | e # _ \<Rightarrow> (True, if m_cache_event_type e = WRITE_BACK_REQUEST_SENT then e else wb_event))"

definition use_data_port ::
  "mem_fetch \<Rightarrow> cache_request_status \<Rightarrow> cache_event list \<Rightarrow> cache \<Rightarrow> cache option" where
  "use_data_port mf outcome events c =
    (let data_size = mf_data_size mf; port_width = m_data_port_width (c_config c)
     in case outcome of
          HIT \<Rightarrow> do {
            ensure (port_width \<noteq> 0);
            let data_cycles = data_size div port_width + (if data_size mod port_width \<noteq> 0 then 1 else 0);
            Some (c\<lparr>c_data_port_occupied_cycles := c_data_port_occupied_cycles c + data_cycles\<rparr>) }
        | RESERVATION_FAIL \<Rightarrow> Some c
        | SECTOR_MISS \<Rightarrow> Some c
        | _ \<Rightarrow>
            (let (sent, ev) = was_writeback_sent events (event WRITE_BACK_REQUEST_SENT)
             in if sent then do {
                  ensure (port_width \<noteq> 0);
                  let data_cycles = m_modified_size (m_evicted_block ev) div port_width;
                  Some (c\<lparr>c_data_port_occupied_cycles := c_data_port_occupied_cycles c + data_cycles\<rparr>) }
                else Some c))"

definition use_fill_port :: "cache \<Rightarrow> cache option" where
  "use_fill_port c = do {
     atom \<leftarrow> get_atom_sz (c_config c);
     ensure (m_data_port_width (c_config c) \<noteq> 0);
     Some (c\<lparr>c_fill_port_occupied_cycles :=
       c_fill_port_occupied_cycles c + atom div m_data_port_width (c_config c)\<rparr>)
   }"

definition data_port_free :: "cache \<Rightarrow> bool" where
  "data_port_free c = (c_data_port_occupied_cycles c = 0)"

definition fill_port_free :: "cache \<Rightarrow> bool" where
  "fill_port_free c = (c_fill_port_occupied_cycles c = 0)"

definition replenish_port_bandwidth :: "cache \<Rightarrow> cache option" where
  "replenish_port_bandwidth c = do {
     let c = (if 0 <s c_data_port_occupied_cycles c
              then c\<lparr>c_data_port_occupied_cycles := c_data_port_occupied_cycles c - 1\<rparr> else c);
     ensure (0 \<le>s c_data_port_occupied_cycles c);
     let c = (if 0 <s c_fill_port_occupied_cycles c
              then c\<lparr>c_fill_port_occupied_cycles := c_fill_port_occupied_cycles c - 1\<rparr> else c);
     ensure (0 \<le>s c_fill_port_occupied_cycles c);
     Some c
   }"

text \<open>
  One cycle: the oldest request of the miss queue goes to the port below when that has room. What is
  behind \<open>m_memport\<close> is a parameter, and the request pushed to it is returned.
\<close>

definition cache_cycle ::
  "(u32 \<Rightarrow> bool \<Rightarrow> bool) \<Rightarrow> mem_store \<Rightarrow> cache \<Rightarrow> (mf_ref option \<times> cache) option" where
  "cache_cycle port_full ms c = do {
     (sent, c) \<leftarrow> (case c_miss_queue c of
         [] \<Rightarrow> Some (None, c)
       | r # rest \<Rightarrow> do {
           mf \<leftarrow> deref r ms;
           Some (if \<not> port_full (mf_size mf) (get_is_write mf)
                 then (Some r, c\<lparr>c_miss_queue := rest\<rparr>) else (None, c)) });
     let c = c\<lparr>c_stats := sample_cache_port_utility (\<not> data_port_free c) (\<not> fill_port_free c) (c_stats c)\<rparr>;
     c \<leftarrow> replenish_port_bandwidth c;
     Some (sent, c)
   }"

section \<open>Steps on the access state\<close>

definition upd_cache :: "(cache \<Rightarrow> cache) \<Rightarrow> access_state \<Rightarrow> access_state" where
  "upd_cache f s = s\<lparr>as_cache := f (as_cache s)\<rparr>"

definition fail_stats ::
  "mf_ref \<Rightarrow> cache_reservation_fail_reason \<Rightarrow> access_state \<Rightarrow> access_state option" where
  "fail_stats r reason s = do {
     mf \<leftarrow> deref r (as_store s);
     Some (upd_cache (\<lambda>c. c\<lparr>c_stats := inc_fail_stats (get_access_type mf) reason (c_stats c)\<rparr>) s)
   }"

definition miss_queue_full :: "nat \<Rightarrow> cache \<Rightarrow> bool" where
  "miss_queue_full num_miss c =
     (unat (m_miss_queue_size (c_config c)) \<le> length (c_miss_queue c) + num_miss)"

text \<open>The two forms of \<open>tag_array::access\<close>; the index variable keeps its value unless it is set.\<close>

definition tags_access_wb ::
  "u64 \<Rightarrow> u32 \<Rightarrow> u32 \<Rightarrow> mf_ref \<Rightarrow> access_state
   \<Rightarrow> (cache_request_status \<times> u32 \<times> evicted_block_info option \<times> access_state) option" where
  "tags_access_wb block_addr time cache_index r s = do {
     mf \<leftarrow> deref r (as_store s);
     (st, i, evicted, ta) \<leftarrow> access_wb block_addr time mf (c_tags (as_cache s));
     Some (st, (case i of Some i \<Rightarrow> i | None \<Rightarrow> cache_index), evicted, upd_cache (\<lambda>c. c\<lparr>c_tags := ta\<rparr>) s)
   }"

definition tags_access ::
  "u64 \<Rightarrow> u32 \<Rightarrow> u32 \<Rightarrow> mf_ref \<Rightarrow> access_state
   \<Rightarrow> (cache_request_status \<times> u32 \<times> access_state) option" where
  "tags_access block_addr time cache_index r s = do {
     (st, i, evicted, s) \<leftarrow> tags_access_wb block_addr time cache_index r s;
     ensure (evicted = None);
     Some (st, i, s)
   }"

definition on_block ::
  "u32 \<Rightarrow> (cache_block \<Rightarrow> cache_block option) \<Rightarrow> access_state \<Rightarrow> access_state option" where
  "on_block idx f s = do {
     ta \<leftarrow> with_line idx f (c_tags (as_cache s));
     Some (upd_cache (\<lambda>c. c\<lparr>c_tags := ta\<rparr>) s)
   }"

definition update_fetch :: "mf_ref \<Rightarrow> (mem_fetch \<Rightarrow> mem_fetch) \<Rightarrow> access_state \<Rightarrow> access_state option" where
  "update_fetch r f s = do {
     ms \<leftarrow> mf_update r f (as_store s);
     Some (s\<lparr>as_store := ms\<rparr>)
   }"

definition set_data_size :: "u32 \<Rightarrow> mem_fetch \<Rightarrow> mem_fetch" where
  "set_data_size sz mf = mf\<lparr>mf_data_size := sz\<rparr>"

definition push_event :: "cache_event \<Rightarrow> access_state \<Rightarrow> access_state" where
  "push_event e s = s\<lparr>as_events := as_events s @ [e]\<rparr>"

definition mshr_add_step :: "u64 \<Rightarrow> mf_ref \<Rightarrow> access_state \<Rightarrow> access_state option" where
  "mshr_add_step mshr_addr r s = do {
     t \<leftarrow> mshr_add (as_store s) mshr_addr r (c_mshrs (as_cache s));
     Some (upd_cache (\<lambda>c. c\<lparr>c_mshrs := t\<rparr>) s)
   }"

section \<open>Requests to the level below\<close>

definition extra_fields :: "u64 \<Rightarrow> u64 \<Rightarrow> u32 \<Rightarrow> u32 \<Rightarrow> cache_config \<Rightarrow> extra_mf_fields" where
  "extra_fields a ad i d cfg = \<lparr>ex_valid = True, ex_block_addr = a, ex_addr = ad, ex_cache_index = i,
     ex_data_size = d,
     ex_pending_read = (if m_mshr_type cfg = SECTOR_ASSOC then m_line_sz cfg div SECTOR_SIZE else 0)\<rparr>"

text \<open>The tag access of \<open>send_read_request\<close>: a read-only cache has no write-back.\<close>

definition read_tags ::
  "bool \<Rightarrow> u64 \<Rightarrow> u32 \<Rightarrow> u32 \<Rightarrow> mf_ref \<Rightarrow> access_state
   \<Rightarrow> (u32 \<times> evicted_block_info option \<times> access_state) option" where
  "read_tags read_only block_addr time cache_index r s =
    (if read_only then do {
       (_, idx, s) \<leftarrow> tags_access block_addr time cache_index r s;
       Some (idx, None, s) }
     else do {
       (_, idx, evicted, s) \<leftarrow> tags_access_wb block_addr time cache_index r s;
       Some (idx, evicted, s) })"

text \<open>
  \<open>send_read_request\<close>: whether the miss was taken (\<open>do_miss\<close>) and the block it evicted (\<open>wb\<close> and
  \<open>evicted\<close>).
\<close>

definition send_read_request ::
  "u64 \<Rightarrow> u32 \<Rightarrow> mf_ref \<Rightarrow> u32 \<Rightarrow> bool \<Rightarrow> bool \<Rightarrow> access_state
   \<Rightarrow> (bool \<times> evicted_block_info option \<times> access_state) option" where
  "send_read_request block_addr cache_index r time read_only wa s = do {
     mf \<leftarrow> deref r (as_store s);
     let c = as_cache s;
     let mshr_addr = cfg_mshr_addr (c_config c) (get_addr mf);
     let mshr_hit = mshr_probe mshr_addr (c_mshrs c);
     let mshr_avail = (\<not> mshr_full mshr_addr (c_mshrs c));
     (if mshr_hit \<and> mshr_avail then do {
        (_, evicted, s) \<leftarrow> read_tags read_only block_addr time cache_index r s;
        s \<leftarrow> mshr_add_step mshr_addr r s;
        Some (True, evicted, s) }
      else if \<not> mshr_hit \<and> mshr_avail \<and> length (c_miss_queue c) < unat (m_miss_queue_size (c_config c)) then do {
        (idx, evicted, s) \<leftarrow> read_tags read_only block_addr time cache_index r s;
        s \<leftarrow> mshr_add_step mshr_addr r s;
        let cfg = c_config c;
        let s = (if m_is_streaming cfg \<and> m_cache_type cfg = SECTOR
                 then upd_cache (\<lambda>c. c\<lparr>c_tags := add_pending_line mf (c_tags c)\<rparr>) s else s);
        let s = upd_cache (\<lambda>c. c\<lparr>c_extra := (c_extra c)(r \<mapsto>
                  extra_fields mshr_addr (get_addr mf) idx (mf_data_size mf) cfg)\<rparr>) s;
        atom \<leftarrow> get_atom_sz cfg;
        s \<leftarrow> update_fetch r (set_addr mshr_addr \<circ> set_data_size atom) s;
        let s = upd_cache (\<lambda>c. c\<lparr>c_miss_queue := c_miss_queue c @ [r]\<rparr>) s;
        s \<leftarrow> update_fetch r (set_status (c_miss_queue_status c) (ucast time)) s;
        let s = (if \<not> wa then push_event (event READ_REQUEST_SENT) s else s);
        Some (True, evicted, s) }
      else if mshr_hit \<and> \<not> mshr_avail then do {
        s \<leftarrow> fail_stats r MSHR_MERGE_ENRTY_FAIL s;
        Some (False, None, s) }
      else if \<not> mshr_hit \<and> \<not> mshr_avail then do {
        s \<leftarrow> fail_stats r MSHR_ENRTY_FAIL s;
        Some (False, None, s) }
      else None)
   }"

definition send_write_request :: "mf_ref \<Rightarrow> cache_event \<Rightarrow> u32 \<Rightarrow> access_state \<Rightarrow> access_state option" where
  "send_write_request r request time s = do {
     let s = push_event request s;
     let s = upd_cache (\<lambda>c. c\<lparr>c_miss_queue := c_miss_queue c @ [r]\<rparr>) s;
     update_fetch r (set_status (c_miss_queue_status (as_cache s)) (ucast time)) s
   }"

text \<open>
  The write-back of an evicted block: the new request takes chip and partition of the request that
  caused it. The event carries what the caller passes, which is not always the evicted block.
\<close>

definition send_write_back ::
  "evicted_block_info \<Rightarrow> cache_event \<Rightarrow> mf_ref \<Rightarrow> u32 \<Rightarrow> u64 \<Rightarrow> access_state \<Rightarrow> access_state option" where
  "send_write_back evicted ev r time now s = do {
     let c = as_cache s;
     (w, ms) \<leftarrow> alloc_fetch (c_allocator c) (m_block_addr evicted) (c_wrbk_type c) (m_modified_size evicted)
                  True now (as_store s);
     let s = s\<lparr>as_store := ms\<rparr>;
     mf \<leftarrow> deref r ms;
     s \<leftarrow> update_fetch w (set_chip (tlx_chip (mf_raw_addr mf))) s;
     s \<leftarrow> update_fetch w (set_parition (tlx_sub_partition (mf_raw_addr mf))) s;
     send_write_request w ev time s
   }"

definition write_back_event :: "evicted_block_info \<Rightarrow> cache_event" where
  "write_back_event evicted = \<lparr>m_cache_event_type = WRITE_BACK_REQUEST_SENT, m_evicted_block = evicted\<rparr>"

text \<open>Only a cache that is not write-through has to send the evicted block.\<close>

definition write_back_if_needed ::
  "evicted_block_info option \<Rightarrow> (evicted_block_info \<Rightarrow> cache_event) \<Rightarrow> mf_ref \<Rightarrow> u32 \<Rightarrow> u64 \<Rightarrow> access_state
   \<Rightarrow> access_state option" where
  "write_back_if_needed evicted ev r time now s =
    (case evicted of
       Some e \<Rightarrow>
         if m_write_policy (c_config (as_cache s)) \<noteq> WRITE_THROUGH then send_write_back e (ev e) r time now s
         else Some s
     | None \<Rightarrow> Some s)"

text \<open>The read request a write miss sends for the rest of the block.\<close>

definition write_alloc_fetch ::
  "mf_ref \<Rightarrow> mf_ref option \<Rightarrow> u64 \<Rightarrow> access_state \<Rightarrow> (mf_ref \<times> access_state) option" where
  "write_alloc_fetch r original_wr now s = do {
     mf \<leftarrow> deref r (as_store s);
     atom \<leftarrow> get_atom_sz (c_config (as_cache s));
     let access = \<lparr>ma_addr = get_addr mf, ma_write = False, ma_req_size = atom,
           ma_type = c_wr_alloc_type (as_cache s), ma_warp_mask = ma_warp_mask (mf_access mf),
           ma_byte_mask = get_access_byte_mask mf, ma_sector_mask = get_access_sector_mask mf\<rparr>;
     (n, ms) \<leftarrow> mem_fetch_new access None (mf_ctrl_size mf) (mf_wid mf) (mf_sid mf) (mf_tpc mf)
                  (mf_mem_config mf) now None original_wr (as_store s);
     Some (n, s\<lparr>as_store := ms\<rparr>)
   }"

section \<open>Write hits\<close>

definition wr_hit_wb ::
  "u64 \<Rightarrow> u32 \<Rightarrow> mf_ref \<Rightarrow> u32 \<Rightarrow> access_state \<Rightarrow> (cache_request_status \<times> access_state) option" where
  "wr_hit_wb addr cache_index r time s = do {
     mf \<leftarrow> deref r (as_store s);
     let block_addr = cfg_block_addr (c_config (as_cache s)) addr;
     (_, idx, s) \<leftarrow> tags_access block_addr time cache_index r s;
     s \<leftarrow> on_block idx (set_block_status MODIFIED (get_access_sector_mask mf)) s;
     Some (HIT, s)
   }"

definition wr_hit_wt ::
  "u64 \<Rightarrow> u32 \<Rightarrow> mf_ref \<Rightarrow> u32 \<Rightarrow> access_state \<Rightarrow> (cache_request_status \<times> access_state) option" where
  "wr_hit_wt addr cache_index r time s =
    (if miss_queue_full 0 (as_cache s) then do {
       s \<leftarrow> fail_stats r MISS_QUEUE_FULL s;
       Some (RESERVATION_FAIL, s) }
     else do {
       mf \<leftarrow> deref r (as_store s);
       let block_addr = cfg_block_addr (c_config (as_cache s)) addr;
       (_, idx, s) \<leftarrow> tags_access block_addr time cache_index r s;
       s \<leftarrow> on_block idx (set_block_status MODIFIED (get_access_sector_mask mf)) s;
       s \<leftarrow> send_write_request r (event WRITE_REQUEST_SENT) time s;
       Some (HIT, s) })"

definition wr_hit_we ::
  "u64 \<Rightarrow> u32 \<Rightarrow> mf_ref \<Rightarrow> u32 \<Rightarrow> access_state \<Rightarrow> (cache_request_status \<times> access_state) option" where
  "wr_hit_we addr cache_index r time s =
    (if miss_queue_full 0 (as_cache s) then do {
       s \<leftarrow> fail_stats r MISS_QUEUE_FULL s;
       Some (RESERVATION_FAIL, s) }
     else do {
       mf \<leftarrow> deref r (as_store s);
       s \<leftarrow> send_write_request r (event WRITE_REQUEST_SENT) time s;
       s \<leftarrow> on_block cache_index (set_block_status INVALID (get_access_sector_mask mf)) s;
       Some (HIT, s) })"

definition wr_hit_global_we_local_wb ::
  "u64 \<Rightarrow> u32 \<Rightarrow> mf_ref \<Rightarrow> u32 \<Rightarrow> access_state \<Rightarrow> (cache_request_status \<times> access_state) option" where
  "wr_hit_global_we_local_wb addr cache_index r time s = do {
     mf \<leftarrow> deref r (as_store s);
     (if get_access_type mf = GLOBAL_ACC_W then wr_hit_we addr cache_index r time s
      else wr_hit_wb addr cache_index r time s)
   }"

section \<open>Write misses\<close>

text \<open>Whether a read request for the address can be taken this cycle, and the reason if it cannot.\<close>

definition read_request_refused :: "nat \<Rightarrow> u64 \<Rightarrow> cache \<Rightarrow> bool" where
  "read_request_refused num_miss mshr_addr c =
    (let mshr_hit = mshr_probe mshr_addr (c_mshrs c);
         mshr_avail = (\<not> mshr_full mshr_addr (c_mshrs c))
     in miss_queue_full num_miss c \<or>
        (\<not> (mshr_hit \<and> mshr_avail) \<and>
         \<not> (\<not> mshr_hit \<and> mshr_avail \<and> length (c_miss_queue c) < unat (m_miss_queue_size (c_config c)))))"

definition note_refusal :: "nat \<Rightarrow> u64 \<Rightarrow> mf_ref \<Rightarrow> access_state \<Rightarrow> access_state option" where
  "note_refusal num_miss mshr_addr r s =
    (let c = as_cache s;
         mshr_hit = mshr_probe mshr_addr (c_mshrs c);
         mshr_avail = (\<not> mshr_full mshr_addr (c_mshrs c))
     in if miss_queue_full num_miss c then fail_stats r MISS_QUEUE_FULL s
        else if mshr_hit \<and> \<not> mshr_avail then fail_stats r MSHR_MERGE_ENRTY_FAIL s
        else if \<not> mshr_hit \<and> \<not> mshr_avail then fail_stats r MSHR_ENRTY_FAIL s
        else None)"

text \<open>A write-back after a miss is only allowed when the probe said \<open>MISS\<close>.\<close>

definition wr_miss_wa_naive ::
  "u64 \<Rightarrow> u32 \<Rightarrow> mf_ref \<Rightarrow> u32 \<Rightarrow> u64 \<Rightarrow> cache_request_status \<Rightarrow> access_state
   \<Rightarrow> (cache_request_status \<times> access_state) option" where
  "wr_miss_wa_naive addr cache_index r time now status s = do {
     mf \<leftarrow> deref r (as_store s);
     let block_addr = cfg_block_addr (c_config (as_cache s)) addr;
     let mshr_addr = cfg_mshr_addr (c_config (as_cache s)) (get_addr mf);
     (if read_request_refused 2 mshr_addr (as_cache s) then do {
        s \<leftarrow> note_refusal 2 mshr_addr r s;
        Some (RESERVATION_FAIL, s) }
      else do {
        s \<leftarrow> send_write_request r (event WRITE_REQUEST_SENT) time s;
        (n, s) \<leftarrow> write_alloc_fetch r None now s;
        (do_miss, evicted, s) \<leftarrow> send_read_request block_addr cache_index n time False True s;
        let s = push_event (event WRITE_ALLOCATE_SENT) s;
        (if do_miss then do {
           ensure (evicted \<noteq> None \<and> m_write_policy (c_config (as_cache s)) \<noteq> WRITE_THROUGH \<longrightarrow> status = MISS);
           s \<leftarrow> write_back_if_needed evicted write_back_event r time now s;
           Some (MISS, s) }
         else Some (RESERVATION_FAIL, s)) })
   }"

text \<open>The number of bytes the request touches, compared with the size of a line or sector.\<close>

definition byte_count :: "byte_mask \<Rightarrow> nat" where
  "byte_count m = length (filter (bit m) [0..<MAX_MEMORY_ACCESS_SIZE])"

definition writes_whole_atom :: "mem_fetch \<Rightarrow> cache_config \<Rightarrow> bool option" where
  "writes_whole_atom mf cfg = do {
     atom \<leftarrow> get_atom_sz cfg;
     Some (byte_count (get_access_byte_mask mf) = unat atom)
   }"

text \<open>The tag access of a write that needs no read: the block is marked modified at once.\<close>

definition write_tags ::
  "u64 \<Rightarrow> u32 \<Rightarrow> u32 \<Rightarrow> mf_ref \<Rightarrow> mem_fetch \<Rightarrow> access_state
   \<Rightarrow> (cache_request_status \<times> u32 \<times> evicted_block_info option \<times> access_state) option" where
  "write_tags block_addr time cache_index r mf s = do {
     (st, idx, evicted, s) \<leftarrow> tags_access_wb block_addr time cache_index r s;
     ensure (st \<noteq> HIT);
     s \<leftarrow> on_block idx (set_block_status MODIFIED (get_access_sector_mask mf)) s;
     Some (st, idx, evicted, s)
   }"

definition wr_miss_wa_fetch_on_write ::
  "u64 \<Rightarrow> u32 \<Rightarrow> mf_ref \<Rightarrow> u32 \<Rightarrow> u64 \<Rightarrow> access_state \<Rightarrow> (cache_request_status \<times> access_state) option" where
  "wr_miss_wa_fetch_on_write addr cache_index r time now s = do {
     mf \<leftarrow> deref r (as_store s);
     let cfg = c_config (as_cache s);
     let block_addr = cfg_block_addr cfg addr;
     let mshr_addr = cfg_mshr_addr cfg (get_addr mf);
     whole \<leftarrow> writes_whole_atom mf cfg;
     (if whole then
        (if miss_queue_full 0 (as_cache s) then do {
           s \<leftarrow> fail_stats r MISS_QUEUE_FULL s;
           Some (RESERVATION_FAIL, s) }
         else do {
           (st, idx, evicted, s) \<leftarrow> write_tags block_addr time cache_index r mf s;
           s \<leftarrow> (if st = HIT_RESERVED
                 then on_block idx (set_ignore_on_fill True (get_access_sector_mask mf)) s else Some s);
           (if st \<noteq> RESERVATION_FAIL then do {
              s \<leftarrow> write_back_if_needed evicted write_back_event r time now s;
              Some (MISS, s) }
            else Some (RESERVATION_FAIL, s)) })
      else if read_request_refused 1 mshr_addr (as_cache s) then do {
        s \<leftarrow> note_refusal 1 mshr_addr r s;
        Some (RESERVATION_FAIL, s) }
      else do {
        (raw, t) \<leftarrow> (if mshr_probe mshr_addr (c_mshrs (as_cache s))
            then is_read_after_write_pending (as_store s) mshr_addr (c_mshrs (as_cache s))
            else Some (False, c_mshrs (as_cache s)));
        let s = upd_cache (\<lambda>c. c\<lparr>c_mshrs := t\<rparr>) s;
        (if raw \<and> get_is_write mf then do {
           s \<leftarrow> fail_stats r MSHR_RW_PENDING s;
           Some (RESERVATION_FAIL, s) }
         else do {
           (n, s) \<leftarrow> write_alloc_fetch r (Some r) now s;
           (do_miss, evicted, s) \<leftarrow> send_read_request block_addr cache_index n time False True s;
           s \<leftarrow> on_block cache_index (set_modified_on_fill True (get_access_sector_mask mf)) s;
           let s = push_event (event WRITE_ALLOCATE_SENT) s;
           (if do_miss then do {
              s \<leftarrow> write_back_if_needed evicted write_back_event r time now s;
              Some (MISS, s) }
            else Some (RESERVATION_FAIL, s)) }) })
   }"

definition wr_miss_wa_lazy_fetch_on_read ::
  "u64 \<Rightarrow> u32 \<Rightarrow> mf_ref \<Rightarrow> u32 \<Rightarrow> u64 \<Rightarrow> access_state \<Rightarrow> (cache_request_status \<times> access_state) option" where
  "wr_miss_wa_lazy_fetch_on_read addr cache_index r time now s =
    (if miss_queue_full 0 (as_cache s) then do {
       s \<leftarrow> fail_stats r MISS_QUEUE_FULL s;
       Some (RESERVATION_FAIL, s) }
     else do {
       mf \<leftarrow> deref r (as_store s);
       let cfg = c_config (as_cache s);
       let smask = get_access_sector_mask mf;
       (st, idx, evicted, s) \<leftarrow> write_tags (cfg_block_addr cfg addr) time cache_index r mf s;
       s \<leftarrow> (if st = HIT_RESERVED then do {
           s \<leftarrow> on_block idx (set_ignore_on_fill True smask) s;
           on_block idx (set_modified_on_fill True smask) s }
         else Some s);
       whole \<leftarrow> writes_whole_atom mf cfg;
       s \<leftarrow> on_block idx (set_m_readable whole smask) s;
       (if st \<noteq> RESERVATION_FAIL then do {
          s \<leftarrow> write_back_if_needed evicted write_back_event r time now s;
          Some (MISS, s) }
        else Some (RESERVATION_FAIL, s)) })"

definition wr_miss_no_wa ::
  "mf_ref \<Rightarrow> u32 \<Rightarrow> access_state \<Rightarrow> (cache_request_status \<times> access_state) option" where
  "wr_miss_no_wa r time s =
    (if miss_queue_full 0 (as_cache s) then do {
       s \<leftarrow> fail_stats r MISS_QUEUE_FULL s;
       Some (RESERVATION_FAIL, s) }
     else do {
       s \<leftarrow> send_write_request r (event WRITE_REQUEST_SENT) time s;
       Some (MISS, s) })"

section \<open>Reads\<close>

definition rd_hit_base ::
  "u64 \<Rightarrow> u32 \<Rightarrow> mf_ref \<Rightarrow> u32 \<Rightarrow> access_state \<Rightarrow> (cache_request_status \<times> access_state) option" where
  "rd_hit_base addr cache_index r time s = do {
     mf \<leftarrow> deref r (as_store s);
     let block_addr = cfg_block_addr (c_config (as_cache s)) addr;
     (_, idx, s) \<leftarrow> tags_access block_addr time cache_index r s;
     s \<leftarrow> (if isatomic mf then do {
         ensure (get_access_type mf = GLOBAL_ACC_R);
         on_block idx (set_block_status MODIFIED (get_access_sector_mask mf)) s }
       else Some s);
     Some (HIT, s)
   }"

text \<open>The write-back event of a read miss carries no evicted block.\<close>

definition rd_miss_base ::
  "u64 \<Rightarrow> u32 \<Rightarrow> mf_ref \<Rightarrow> u32 \<Rightarrow> u64 \<Rightarrow> access_state \<Rightarrow> (cache_request_status \<times> access_state) option" where
  "rd_miss_base addr cache_index r time now s =
    (if miss_queue_full 1 (as_cache s) then do {
       s \<leftarrow> fail_stats r MISS_QUEUE_FULL s;
       Some (RESERVATION_FAIL, s) }
     else do {
       let block_addr = cfg_block_addr (c_config (as_cache s)) addr;
       (do_miss, evicted, s) \<leftarrow> send_read_request block_addr cache_index r time False False s;
       (if do_miss then do {
          s \<leftarrow> write_back_if_needed evicted (\<lambda>_. event WRITE_BACK_REQUEST_SENT) r time now s;
          Some (MISS, s) }
        else Some (RESERVATION_FAIL, s)) })"

section \<open>Accesses\<close>

definition count_outcome ::
  "mem_fetch \<Rightarrow> cache_request_status \<Rightarrow> cache_request_status \<Rightarrow> access_state \<Rightarrow> access_state" where
  "count_outcome mf probed accessed s = upd_cache (\<lambda>c. c\<lparr>c_stats :=
     inc_stats_pw (get_access_type mf) (select_stats_status probed accessed)
       (inc_stats (get_access_type mf) (select_stats_status probed accessed) (c_stats c))\<rparr>) s"

definition read_only_access ::
  "u64 \<Rightarrow> mf_ref \<Rightarrow> u32 \<Rightarrow> access_state \<Rightarrow> (cache_request_status \<times> access_state) option" where
  "read_only_access addr r time s = do {
     mf \<leftarrow> deref r (as_store s);
     let cfg = c_config (as_cache s);
     atom \<leftarrow> get_atom_sz cfg;
     ensure (mf_data_size mf \<le> atom);
     ensure (m_write_policy cfg = READ_ONLY);
     ensure (\<not> get_is_write mf);
     let block_addr = cfg_block_addr cfg addr;
     (status, i) \<leftarrow> probe_mf block_addr mf False (c_tags (as_cache s));
     let cache_index = (case i of Some i \<Rightarrow> i | None \<Rightarrow> - 1);
     (cache_status, s) \<leftarrow>
       (if status = HIT then do {
          (st, _, s) \<leftarrow> tags_access block_addr time cache_index r s;
          Some (st, s) }
        else if status \<noteq> RESERVATION_FAIL then
          (if \<not> miss_queue_full 0 (as_cache s) then do {
             (do_miss, _, s) \<leftarrow> send_read_request block_addr cache_index r time True False s;
             Some (if do_miss then MISS else RESERVATION_FAIL, s) }
           else do {
             s \<leftarrow> fail_stats r MISS_QUEUE_FULL s;
             Some (RESERVATION_FAIL, s) })
        else do {
          s \<leftarrow> fail_stats r LINE_ALLOC_FAIL s;
          Some (RESERVATION_FAIL, s) });
     Some (cache_status, count_outcome mf status cache_status s)
   }"

text \<open>The member function pointers \<open>m_wr_hit\<close> and \<open>m_wr_miss\<close>, as \<open>data_cache::init\<close> sets them.\<close>

definition wr_hit ::
  "u64 \<Rightarrow> u32 \<Rightarrow> mf_ref \<Rightarrow> u32 \<Rightarrow> access_state \<Rightarrow> (cache_request_status \<times> access_state) option" where
  "wr_hit addr cache_index r time s =
    (case m_write_policy (c_config (as_cache s)) of
       READ_ONLY \<Rightarrow> None
     | WRITE_BACK \<Rightarrow> wr_hit_wb addr cache_index r time s
     | WRITE_THROUGH \<Rightarrow> wr_hit_wt addr cache_index r time s
     | WRITE_EVICT \<Rightarrow> wr_hit_we addr cache_index r time s
     | LOCAL_WB_GLOBAL_WT \<Rightarrow> wr_hit_global_we_local_wb addr cache_index r time s)"

definition wr_miss ::
  "u64 \<Rightarrow> u32 \<Rightarrow> mf_ref \<Rightarrow> u32 \<Rightarrow> u64 \<Rightarrow> cache_request_status \<Rightarrow> access_state
   \<Rightarrow> (cache_request_status \<times> access_state) option" where
  "wr_miss addr cache_index r time now status s =
    (case m_write_alloc_policy (c_config (as_cache s)) of
       NO_WRITE_ALLOCATE \<Rightarrow> wr_miss_no_wa r time s
     | WRITE_ALLOCATE \<Rightarrow> wr_miss_wa_naive addr cache_index r time now status s
     | FETCH_ON_WRITE \<Rightarrow> wr_miss_wa_fetch_on_write addr cache_index r time now s
     | LAZY_FETCH_ON_READ \<Rightarrow> wr_miss_wa_lazy_fetch_on_read addr cache_index r time now s)"

definition process_tag_probe ::
  "bool \<Rightarrow> cache_request_status \<Rightarrow> u64 \<Rightarrow> u32 \<Rightarrow> mf_ref \<Rightarrow> u32 \<Rightarrow> u64 \<Rightarrow> access_state
   \<Rightarrow> (cache_request_status \<times> access_state) option" where
  "process_tag_probe wr probe_status addr cache_index r time now s = do {
     (access_status, s) \<leftarrow>
       (if wr then
          (if probe_status = HIT then wr_hit addr cache_index r time s
           else if probe_status \<noteq> RESERVATION_FAIL \<or>
                   probe_status = RESERVATION_FAIL \<and>
                   m_write_alloc_policy (c_config (as_cache s)) = NO_WRITE_ALLOCATE
           then wr_miss addr cache_index r time now probe_status s
           else do {
             s \<leftarrow> fail_stats r LINE_ALLOC_FAIL s;
             Some (probe_status, s) })
        else
          (if probe_status = HIT then rd_hit_base addr cache_index r time s
           else if probe_status \<noteq> RESERVATION_FAIL then rd_miss_base addr cache_index r time now s
           else do {
             s \<leftarrow> fail_stats r LINE_ALLOC_FAIL s;
             Some (probe_status, s) }));
     mf \<leftarrow> deref r (as_store s);
     c \<leftarrow> use_data_port mf access_status (as_events s) (as_cache s);
     Some (access_status, s\<lparr>as_cache := c\<rparr>)
   }"

definition data_access ::
  "u64 \<Rightarrow> mf_ref \<Rightarrow> u32 \<Rightarrow> u64 \<Rightarrow> access_state \<Rightarrow> (cache_request_status \<times> access_state) option" where
  "data_access addr r time now s = do {
     mf \<leftarrow> deref r (as_store s);
     atom \<leftarrow> get_atom_sz (c_config (as_cache s));
     ensure (mf_data_size mf \<le> atom);
     let wr = get_is_write mf;
     let block_addr = cfg_block_addr (c_config (as_cache s)) addr;
     (probe_status, i) \<leftarrow> probe_mf block_addr mf True (c_tags (as_cache s));
     let cache_index = (case i of Some i \<Rightarrow> i | None \<Rightarrow> - 1);
     (access_status, s) \<leftarrow> process_tag_probe wr probe_status addr cache_index r time now s;
     Some (access_status, count_outcome mf probe_status access_status s)
   }"

section \<open>Fills\<close>

text \<open>
  A response arrives. In a cache whose requests are split into sectors (\<open>SECTOR_ASSOC\<close>) the pieces
  are counted and deleted until the last one is there; then the original request is filled.
\<close>

definition collect_sector ::
  "mf_ref \<Rightarrow> access_state \<Rightarrow> (mf_ref option \<times> access_state) option" where
  "collect_sector r s =
    (if m_mshr_type (c_config (as_cache s)) = SECTOR_ASSOC then do {
       mf \<leftarrow> deref r (as_store s);
       orig \<leftarrow> original_mf mf;
       e \<leftarrow> c_extra (as_cache s) orig;
       let e = e\<lparr>ex_pending_read := ex_pending_read e - 1\<rparr>;
       let s = upd_cache (\<lambda>c. c\<lparr>c_extra := (c_extra c)(orig \<mapsto> e)\<rparr>) s;
       ms \<leftarrow> mf_delete r (as_store s);
       let s = s\<lparr>as_store := ms\<rparr>;
       Some (if ex_pending_read e > 0 then None else Some orig, s) }
     else Some (Some r, s))"

definition fill_tags :: "extra_mf_fields \<Rightarrow> mem_fetch \<Rightarrow> u32 \<Rightarrow> tag_array \<Rightarrow> tag_array option" where
  "fill_tags e mf time ta =
    (case m_alloc_policy (ta_config ta) of
       ON_MISS \<Rightarrow> fill_index (ex_cache_index e) time mf ta
     | ON_FILL \<Rightarrow> do {
         ta \<leftarrow> fill_addr (ex_block_addr e) time (get_access_sector_mask mf) ta;
         Some (if m_is_streaming (ta_config ta) then remove_pending_line mf ta else ta) }
     | STREAMING \<Rightarrow> None)"

definition fill_request :: "mf_ref \<Rightarrow> u32 \<Rightarrow> access_state \<Rightarrow> access_state option" where
  "fill_request r time s = do {
     e \<leftarrow> c_extra (as_cache s) r;
     ensure (ex_valid e);
     s \<leftarrow> update_fetch r (set_addr (ex_addr e) \<circ> set_data_size (ex_data_size e)) s;
     mf \<leftarrow> deref r (as_store s);
     ta \<leftarrow> fill_tags e mf time (c_tags (as_cache s));
     let s = upd_cache (\<lambda>c. c\<lparr>c_tags := ta\<rparr>) s;
     (has_atomic, t) \<leftarrow> mshr_mark_ready (ex_block_addr e) (c_mshrs (as_cache s));
     let s = upd_cache (\<lambda>c. c\<lparr>c_mshrs := t\<rparr>) s;
     s \<leftarrow> (if has_atomic then do {
         ensure (m_alloc_policy (c_config (as_cache s)) = ON_MISS);
         on_block (ex_cache_index e) (set_block_status MODIFIED (get_access_sector_mask mf)) s }
       else Some s);
     let s = upd_cache (\<lambda>c. c\<lparr>c_extra := (c_extra c)(r := None)\<rparr>) s;
     c \<leftarrow> use_fill_port (as_cache s);
     Some (s\<lparr>as_cache := c\<rparr>)
   }"

definition cache_fill :: "mf_ref \<Rightarrow> u32 \<Rightarrow> access_state \<Rightarrow> access_state option" where
  "cache_fill r time s = do {
     (whole, s) \<leftarrow> collect_sector r s;
     (case whole of None \<Rightarrow> Some s | Some r \<Rightarrow> fill_request r time s)
   }"

definition waiting_for_fill :: "mf_ref \<Rightarrow> cache \<Rightarrow> bool" where
  "waiting_for_fill r c = (c_extra c r \<noteq> None)"

definition cache_access_ready :: "cache \<Rightarrow> bool" where
  "cache_access_ready c = mshr_access_ready (c_mshrs c)"

definition cache_next_access :: "cache \<Rightarrow> (mf_ref \<times> cache) option" where
  "cache_next_access c = do {
     (r, t) \<leftarrow> mshr_next_access (c_mshrs c);
     Some (r, c\<lparr>c_mshrs := t\<rparr>)
   }"

definition cache_flush :: "cache \<Rightarrow> cache option" where
  "cache_flush c = do { ta \<leftarrow> ta_flush (c_tags c); Some (c\<lparr>c_tags := ta\<rparr>) }"

definition cache_invalidate :: "cache \<Rightarrow> cache option" where
  "cache_invalidate c = do { ta \<leftarrow> ta_invalidate (c_tags c); Some (c\<lparr>c_tags := ta\<rparr>) }"

definition force_tag_access :: "u64 \<Rightarrow> u32 \<Rightarrow> sector_mask \<Rightarrow> cache \<Rightarrow> cache option" where
  "force_tag_access addr time smask c = do {
     ta \<leftarrow> fill_addr addr time smask (c_tags c);
     Some (c\<lparr>c_tags := ta\<rparr>)
   }"

end
