(* ===== verification/CacheCorrect.thy ===== *)
theory CacheCorrect
  imports Cache
begin

text \<open>
  What the accesses of theory \<open>Cache\<close> guarantee, whatever the write policy: a refused request leaves
  no trace, the miss queue never exceeds its size, and every entry of the miss registers is at any
  time either ready or waiting for exactly one outstanding request. Each step of an access has one
  summary lemma, and the properties are put together from these.
\<close>

section \<open>Summaries of the steps\<close>

text \<open>Everything but tags, statistics, port counters and events is as before.\<close>

definition same_core :: "access_state \<Rightarrow> access_state \<Rightarrow> bool" where
  "same_core s s' \<longleftrightarrow>
     c_config (as_cache s') = c_config (as_cache s) \<and> c_mshrs (as_cache s') = c_mshrs (as_cache s) \<and>
     c_miss_queue (as_cache s') = c_miss_queue (as_cache s) \<and> c_extra (as_cache s') = c_extra (as_cache s) \<and>
     c_miss_queue_status (as_cache s') = c_miss_queue_status (as_cache s) \<and>
     c_wr_alloc_type (as_cache s') = c_wr_alloc_type (as_cache s) \<and>
     c_wrbk_type (as_cache s') = c_wrbk_type (as_cache s) \<and>
     c_allocator (as_cache s') = c_allocator (as_cache s) \<and>
     as_store s' = as_store s"

definition only_stats :: "access_state \<Rightarrow> access_state \<Rightarrow> bool" where
  "only_stats s s' \<longleftrightarrow> as_store s' = as_store s \<and> as_events s' = as_events s \<and>
     (\<exists>st. as_cache s' = (as_cache s)\<lparr>c_stats := st\<rparr>)"

lemma upd_cache_simps [simp]:
  "as_cache (upd_cache f s) = f (as_cache s)" "as_store (upd_cache f s) = as_store s"
  "as_events (upd_cache f s) = as_events s"
  by (simp_all add: upd_cache_def)

lemma push_event_simps [simp]:
  "as_cache (push_event e s) = as_cache s" "as_store (push_event e s) = as_store s"
  "as_events (push_event e s) = as_events s @ [e]"
  by (simp_all add: push_event_def)

lemma same_core_refl [simp]: "same_core s s"
  by (simp add: same_core_def)

lemma same_core_trans: "same_core s t \<Longrightarrow> same_core t u \<Longrightarrow> same_core s u"
  by (simp add: same_core_def)

lemma fail_stats_only: "fail_stats r x s = Some s' \<Longrightarrow> only_stats s s'"
  by (auto simp: fail_stats_def only_stats_def upd_cache_def bind_Some_iff)

lemma note_refusal_only: "note_refusal n b r s = Some s' \<Longrightarrow> only_stats s s'"
  by (auto simp: note_refusal_def Let_def fail_stats_only split: if_splits)

lemma only_stats_refl [simp]: "only_stats s s"
  unfolding only_stats_def by (auto intro: exI[of _ "c_stats (as_cache s)"])

lemma only_stats_trans: "only_stats s t \<Longrightarrow> only_stats t u \<Longrightarrow> only_stats s u"
  by (auto simp: only_stats_def)

lemma only_stats_core: "only_stats s s' \<Longrightarrow> same_core s s' \<and> c_tags (as_cache s') = c_tags (as_cache s)"
  by (auto simp: only_stats_def same_core_def)

lemma with_line_config: "with_line i f ta = Some ta' \<Longrightarrow> ta_config ta' = ta_config ta"
  by (auto simp: with_line_Some)

lemma tags_access_wb_core:
  "tags_access_wb a time i r s = Some (st, j, ev, s') \<Longrightarrow> same_core s s'"
  by (auto simp: tags_access_wb_def bind_Some_iff same_core_def dest!: access_meets_spec)

lemma tags_access_core: "tags_access a time i r s = Some (st, j, s') \<Longrightarrow> same_core s s'"
  by (auto simp: tags_access_def bind_Some_iff tags_access_wb_core)

lemma on_block_core: "on_block i f s = Some s' \<Longrightarrow> same_core s s'"
  by (auto simp: on_block_def bind_Some_iff same_core_def dest: with_line_config)

lemma read_tags_core: "read_tags ro a time i r s = Some (j, ev, s') \<Longrightarrow> same_core s s'"
  by (auto simp: read_tags_def bind_Some_iff tags_access_core tags_access_wb_core split: if_splits)

lemma write_tags_core: "write_tags a time i r mf s = Some (st, j, ev, s') \<Longrightarrow> same_core s s'"
  by (auto simp: write_tags_def bind_Some_iff intro: same_core_trans tags_access_wb_core on_block_core)

lemmas core_steps = tags_access_core tags_access_wb_core on_block_core read_tags_core write_tags_core

text \<open>The address under which a request waits in the miss registers.\<close>

abbreviation mshr_block :: "access_state \<Rightarrow> mem_fetch \<Rightarrow> u64" where
  "mshr_block s mf \<equiv> cfg_mshr_addr (c_config (as_cache s)) (get_addr mf)"

lemma send_read_request_refused:
  assumes "send_read_request a i r time ro wa s = Some (False, ev, s')"
  shows "only_stats s s' \<and> ev = None"
  using assms by (auto simp: send_read_request_def bind_Some_iff Let_def fail_stats_only split: if_splits)

lemma send_read_request_merged:
  assumes "send_read_request a i r time ro wa s = Some (True, ev, s')" "deref r (as_store s) = Some mf"
    "mshr_probe (mshr_block s mf) (c_mshrs (as_cache s))"
  shows "\<exists>t. mshr_add (as_store s) (mshr_block s mf) r (c_mshrs (as_cache s)) = Some t \<and>
    same_core (upd_cache (\<lambda>c. c\<lparr>c_mshrs := t\<rparr>) s) s'"
proof -
  from assms obtain u j t where
    u: "read_tags ro a time i r s = Some (j, ev, u)"
    and t: "mshr_add (as_store u) (mshr_block s mf) r (c_mshrs (as_cache u)) = Some t"
    and s': "s' = upd_cache (\<lambda>c. c\<lparr>c_mshrs := t\<rparr>) u"
    by (auto simp: send_read_request_def mshr_add_step_def bind_Some_iff Let_def split: if_splits)
  from read_tags_core[OF u] t s' show ?thesis
    by (auto simp: same_core_def)
qed

lemma send_read_request_new:
  assumes "send_read_request a i r time ro wa s = Some (True, ev, s')" "deref r (as_store s) = Some mf"
    "\<not> mshr_probe (mshr_block s mf) (c_mshrs (as_cache s))"
  shows "\<exists>t e f. mshr_add (as_store s) (mshr_block s mf) r (c_mshrs (as_cache s)) = Some t \<and>
    length (c_miss_queue (as_cache s)) < unat (m_miss_queue_size (c_config (as_cache s))) \<and>
    ex_valid e \<and> ex_block_addr e = mshr_block s mf \<and>
    same_core (s\<lparr>as_cache := (as_cache s)\<lparr>c_mshrs := t, c_miss_queue := c_miss_queue (as_cache s) @ [r],
          c_extra := (c_extra (as_cache s))(r \<mapsto> e)\<rparr>,
        as_store := (as_store s)\<lparr>ms_heap := (ms_heap (as_store s))(r \<mapsto> f)\<rparr>\<rparr>) s'"
proof -
  let ?b = "mshr_block s mf" and ?cfg = "c_config (as_cache s)"
  have avail: "\<not> mshr_full ?b (c_mshrs (as_cache s))"
    and len: "length (c_miss_queue (as_cache s)) < unat (m_miss_queue_size ?cfg)"
    using assms by (auto simp: send_read_request_def bind_Some_iff Let_def split: if_splits)
  with assms obtain u j t v w atom x where
    u: "read_tags ro a time i r s = Some (j, ev, u)" and
    t: "mshr_add (as_store u) ?b r (c_mshrs (as_cache u)) = Some t" and
    v: "v = (if m_is_streaming ?cfg \<and> m_cache_type ?cfg = SECTOR
          then upd_cache (\<lambda>c. c\<lparr>c_tags := add_pending_line mf (c_tags c)\<rparr>) (upd_cache (\<lambda>c. c\<lparr>c_mshrs := t\<rparr>) u)
          else upd_cache (\<lambda>c. c\<lparr>c_mshrs := t\<rparr>) u)" and
    w: "update_fetch r (set_addr ?b \<circ> set_data_size atom)
          (upd_cache (\<lambda>c. c\<lparr>c_extra := (c_extra c)(r \<mapsto> extra_fields ?b (get_addr mf) j (mf_data_size mf) ?cfg)\<rparr>) v)
        = Some w" and
    x: "update_fetch r (set_status (c_miss_queue_status (as_cache s)) (ucast time))
          (upd_cache (\<lambda>c. c\<lparr>c_miss_queue := c_miss_queue c @ [r]\<rparr>) w) = Some x" and
    s': "s' = (if \<not> wa then push_event (event READ_REQUEST_SENT) x else x)"
    by (simp add: send_read_request_def mshr_add_step_def bind_Some_iff Let_def) blast
  have su: "same_core s u" by (rule read_tags_core[OF u])
  have sv: "same_core (upd_cache (\<lambda>c. c\<lparr>c_mshrs := t\<rparr>) s) v"
    using su by (auto simp: v same_core_def Let_def add_pending_line_def)
  from w sv obtain f1 where w': "same_core (s\<lparr>as_cache := (as_cache s)\<lparr>c_mshrs := t,
        c_extra := (c_extra (as_cache s))(r \<mapsto> extra_fields ?b (get_addr mf) j (mf_data_size mf) ?cfg)\<rparr>,
        as_store := (as_store s)\<lparr>ms_heap := (ms_heap (as_store s))(r \<mapsto> f1)\<rparr>\<rparr>) w"
    by (auto simp: update_fetch_def bind_Some_iff mf_update_Some same_core_def)
  from x w' obtain f2 where "same_core (s\<lparr>as_cache := (as_cache s)\<lparr>c_mshrs := t,
        c_miss_queue := c_miss_queue (as_cache s) @ [r],
        c_extra := (c_extra (as_cache s))(r \<mapsto> extra_fields ?b (get_addr mf) j (mf_data_size mf) ?cfg)\<rparr>,
        as_store := (as_store s)\<lparr>ms_heap := (ms_heap (as_store s))(r \<mapsto> f2)\<rparr>\<rparr>) x"
    by (auto simp: update_fetch_def bind_Some_iff mf_update_Some same_core_def)
  then show ?thesis
    using t su len
    by (intro exI[of _ t] exI[of _ "extra_fields ?b (get_addr mf) j (mf_data_size mf) ?cfg"] exI[of _ f2])
      (auto simp: s' same_core_def extra_fields_def)
qed

lemma send_write_request_spec:
  assumes "send_write_request r e time s = Some s'"
  shows "\<exists>f g. ms_heap (as_store s) r = Some g \<and> mf_access f = mf_access g \<and>
    as_cache s' = (as_cache s)\<lparr>c_miss_queue := c_miss_queue (as_cache s) @ [r]\<rparr> \<and>
    ms_heap (as_store s') = (ms_heap (as_store s))(r \<mapsto> f) \<and> ms_next (as_store s') = ms_next (as_store s) \<and>
    as_events s' = as_events s @ [e]"
proof -
  from assms obtain g where "ms_heap (as_store s) r = Some g"
    by (auto simp: send_write_request_def update_fetch_def mf_update_Some bind_Some_iff)
  with assms show ?thesis
    by (intro exI[of _ "set_status (c_miss_queue_status (as_cache s)) (ucast time) g"] exI[of _ g])
      (auto simp: send_write_request_def update_fetch_def mf_update_Some bind_Some_iff upd_cache_def
        push_event_def set_status_def)
qed

lemma alloc_fetch_spec:
  assumes "alloc_fetch al a ty sz wr now ms = Some (w, ms')"
  shows "\<exists>f. w = ms_next ms \<and> ms_next ms' = Suc (ms_next ms) \<and> ms_heap ms' = (ms_heap ms)(w \<mapsto> f) \<and>
    ma_addr (mf_access f) = a \<and> ma_req_size (mf_access f) = sz \<and> ma_type (mf_access f) = ty \<and>
    ma_write (mf_access f) = wr"
  using assms
  by (auto simp: alloc_fetch_def bind_Some_iff Let_def split: mf_allocator.splits dest!: mem_fetch_new_heap)

text \<open>The write-back of an evicted block: a new request for its address and its modified bytes.\<close>

definition writes_back :: "access_state \<Rightarrow> evicted_block_info \<Rightarrow> cache_event \<Rightarrow> access_state \<Rightarrow> bool" where
  "writes_back s e ev s' \<longleftrightarrow>
     (let w = ms_next (as_store s) in
      \<exists>f. as_cache s' = (as_cache s)\<lparr>c_miss_queue := c_miss_queue (as_cache s) @ [w]\<rparr> \<and>
        ms_heap (as_store s') = (ms_heap (as_store s))(w \<mapsto> f) \<and>
        ms_next (as_store s') = Suc w \<and> as_events s' = as_events s @ [ev] \<and>
        get_addr f = m_block_addr e \<and> ma_req_size (mf_access f) = m_modified_size e \<and>
        get_is_write f \<and> get_access_type f = c_wrbk_type (as_cache s))"

lemma write_back_spec:
  assumes "write_back_if_needed evicted ev r time now s = Some s'"
  shows "case evicted of
      Some e \<Rightarrow> if m_write_policy (c_config (as_cache s)) = WRITE_THROUGH then s' = s
        else writes_back s e (ev e) s'
    | None \<Rightarrow> s' = s"
proof (cases evicted)
  case (Some e)
  show ?thesis
  proof (cases "m_write_policy (c_config (as_cache s)) = WRITE_THROUGH")
    case False
    with assms Some obtain w ms s1 s2 and mf :: mem_fetch where
      w: "alloc_fetch (c_allocator (as_cache s)) (m_block_addr e) (c_wrbk_type (as_cache s)) (m_modified_size e)
            True now (as_store s) = Some (w, ms)" and
      s1: "update_fetch w (set_chip (tlx_chip (mf_raw_addr mf))) (s\<lparr>as_store := ms\<rparr>) = Some s1" and
      s2: "update_fetch w (set_parition (tlx_sub_partition (mf_raw_addr mf))) s1 = Some s2" and
      s': "send_write_request w (ev e) time s2 = Some s'"
      by (auto simp: write_back_if_needed_def send_write_back_def bind_Some_iff Let_def)
    from alloc_fetch_spec[OF w] obtain f where f: "w = ms_next (as_store s)" "ms_next ms = Suc w"
        "ms_heap ms = (ms_heap (as_store s))(w \<mapsto> f)" "ma_addr (mf_access f) = m_block_addr e"
        "ma_req_size (mf_access f) = m_modified_size e" "ma_type (mf_access f) = c_wrbk_type (as_cache s)"
        "ma_write (mf_access f)"
      by auto
    let ?f = "set_parition (tlx_sub_partition (mf_raw_addr mf)) (set_chip (tlx_chip (mf_raw_addr mf)) f)"
    have s2': "as_cache s2 = as_cache s" "as_events s2 = as_events s" "ms_next (as_store s2) = Suc w"
        "ms_heap (as_store s2) = (ms_heap (as_store s))(w \<mapsto> ?f)"
      using s1 s2 f(2,3) by (auto simp: update_fetch_def bind_Some_iff mf_update_Some)
    have "mf_access ?f = mf_access f" by (simp add: set_parition_def set_chip_def)
    with send_write_request_spec[OF s'] f s2' Some False show ?thesis
      by (auto simp: writes_back_def Let_def get_addr_def get_is_write_def get_access_type_def)
  qed (use assms Some in \<open>simp add: write_back_if_needed_def\<close>)
qed (use assms in \<open>simp add: write_back_if_needed_def\<close>)

lemma write_alloc_fetch_spec:
  assumes "write_alloc_fetch r ow now s = Some (n, s')"
  shows "\<exists>f mf. n = ms_next (as_store s) \<and> as_cache s' = as_cache s \<and> as_events s' = as_events s \<and>
    ms_next (as_store s') = Suc n \<and> ms_heap (as_store s') = (ms_heap (as_store s))(n \<mapsto> f) \<and>
    deref r (as_store s) = Some mf \<and> get_addr f = get_addr mf \<and> \<not> get_is_write f"
  using assms
  by (auto simp: write_alloc_fetch_def bind_Some_iff Let_def get_addr_def get_is_write_def dest!: mem_fetch_new_heap)

section \<open>Requests stay tracked\<close>

abbreviation live :: "access_state \<Rightarrow> mf_ref \<Rightarrow> bool" where
  "live s r \<equiv> ms_heap (as_store s) r \<noteq> None"

text \<open>
  The invariant. Queued and waiting requests are live, each waiting request has its own block, and the
  blocks with an entry in the miss registers are exactly the ready ones and the ones a request waits
  for, never both.
\<close>

definition own_blocks :: "(mf_ref \<rightharpoonup> extra_mf_fields) \<Rightarrow> bool" where
  "own_blocks extra \<longleftrightarrow> (\<forall>r q e f. extra r = Some e \<longrightarrow> extra q = Some f \<longrightarrow>
     ex_block_addr e = ex_block_addr f \<longrightarrow> r = q)"

definition tracked :: "access_state \<Rightarrow> bool" where
  "tracked s \<longleftrightarrow>
     mshr_wf (c_mshrs (as_cache s)) \<and> ms_ok (as_store s) \<and>
     (\<forall>r \<in> set (c_miss_queue (as_cache s)). live s r) \<and>
     (\<forall>r e. c_extra (as_cache s) r = Some e \<longrightarrow> live s r \<and> ex_valid e \<and>
        mshr_probe (ex_block_addr e) (c_mshrs (as_cache s)) \<and>
        ex_block_addr e \<notin> set (mshr_current_response (c_mshrs (as_cache s)))) \<and>
     own_blocks (c_extra (as_cache s)) \<and>
     (\<forall>b. mshr_probe b (c_mshrs (as_cache s)) \<longrightarrow>
        b \<in> set (mshr_current_response (c_mshrs (as_cache s))) \<or>
        (\<exists>r e. c_extra (as_cache s) r = Some e \<and> ex_block_addr e = b))"

lemma mshr_add_probe:
  assumes "mshr_wf t" "mshr_add ms b r t = Some t'"
  shows "mshr_wf t'" "mshr_probe c t' \<longleftrightarrow> c = b \<or> mshr_probe c t"
    "mshr_current_response t' = mshr_current_response t"
  using mshr_add_spec[OF assms] assms(2) by (auto simp: mshr_add_eq mshr_probe_def)

text \<open>
  The moves an access is made of; the number counts the requests appended to the miss queue.
\<close>

inductive core_run :: "nat \<Rightarrow> access_state \<Rightarrow> access_state \<Rightarrow> bool" where
  quiet: "same_core s s' \<Longrightarrow> core_run 0 s s'"
| merge: "mshr_add (as_store s) b r (c_mshrs (as_cache s)) = Some t \<Longrightarrow>
    mshr_probe b (c_mshrs (as_cache s)) \<Longrightarrow>
    same_core (upd_cache (\<lambda>c. c\<lparr>c_mshrs := t\<rparr>) s) s' \<Longrightarrow> core_run 0 s s'"
| miss: "mshr_add (as_store s) b r (c_mshrs (as_cache s)) = Some t \<Longrightarrow>
    \<not> mshr_probe b (c_mshrs (as_cache s)) \<Longrightarrow> c_extra (as_cache s) r = None \<Longrightarrow> live s r \<Longrightarrow>
    ex_valid e \<Longrightarrow> ex_block_addr e = b \<Longrightarrow>
    same_core (s\<lparr>as_cache := (as_cache s)\<lparr>c_mshrs := t, c_miss_queue := c_miss_queue (as_cache s) @ [r],
          c_extra := (c_extra (as_cache s))(r \<mapsto> e)\<rparr>,
        as_store := (as_store s)\<lparr>ms_heap := (ms_heap (as_store s))(r \<mapsto> f)\<rparr>\<rparr>) s' \<Longrightarrow>
    core_run 1 s s'"
| send: "live s r \<Longrightarrow> as_cache s' = (as_cache s)\<lparr>c_miss_queue := c_miss_queue (as_cache s) @ [r]\<rparr> \<Longrightarrow>
    ms_heap (as_store s') = (ms_heap (as_store s))(r \<mapsto> f) \<Longrightarrow>
    ms_next (as_store s') = ms_next (as_store s) \<Longrightarrow> core_run 1 s s'"
| new: "as_cache s' = as_cache s \<Longrightarrow> ms_heap (as_store s') = (ms_heap (as_store s))(ms_next (as_store s) \<mapsto> f) \<Longrightarrow>
    ms_next (as_store s') = Suc (ms_next (as_store s)) \<Longrightarrow> core_run 0 s s'"
| trans: "core_run m s t \<Longrightarrow> core_run n t u \<Longrightarrow> core_run (m + n) s u"

lemma core_run_frame:
  "core_run n s s' \<Longrightarrow> c_config (as_cache s') = c_config (as_cache s) \<and>
     length (c_miss_queue (as_cache s')) = length (c_miss_queue (as_cache s)) + n \<and>
     (\<forall>r. live s r \<longrightarrow> live s' r)"
  by (induction rule: core_run.induct) (auto simp: same_core_def)

lemma tracked_miss:
  assumes t: "tracked s" and add: "mshr_add (as_store s) b r (c_mshrs (as_cache s)) = Some t"
    and new: "\<not> mshr_probe b (c_mshrs (as_cache s))" "c_extra (as_cache s) r = None" "live s r"
    and e: "ex_valid e" "ex_block_addr e = b"
    and c: "c_mshrs (as_cache s') = t" "c_miss_queue (as_cache s') = c_miss_queue (as_cache s) @ [r]"
      "c_extra (as_cache s') = (c_extra (as_cache s))(r \<mapsto> e)"
      "ms_heap (as_store s') = (ms_heap (as_store s))(r \<mapsto> f)" "ms_next (as_store s') = ms_next (as_store s)"
  shows "tracked s'"
proof -
  have wf: "mshr_wf (c_mshrs (as_cache s))" using t by (simp add: tracked_def)
  note add' = mshr_add_probe[OF wf add]
  have nb: "b \<notin> set (mshr_current_response (c_mshrs (as_cache s)))"
    using wf new(1) by (auto simp: mshr_wf_def)
  have blocks: "ex_block_addr e' \<noteq> b" if "c_extra (as_cache s) q = Some e'" for q e'
    using t that new(1) by (auto simp: tracked_def)
  have "ms_ok (as_store s')"
    using t new(3) by (auto simp: tracked_def ms_ok_def c)
  moreover have "ba \<in> set (mshr_current_response (c_mshrs (as_cache s))) \<or>
      (\<exists>q e'. ((c_extra (as_cache s))(r \<mapsto> e)) q = Some e' \<and> ex_block_addr e' = ba)"
    if ba: "ba = b \<or> mshr_probe ba (c_mshrs (as_cache s))" for ba
  proof (cases "ba = b")
    case True
    then show ?thesis using e by (auto intro: exI[of _ r])
  next
    case False
    with ba t consider "ba \<in> set (mshr_current_response (c_mshrs (as_cache s)))"
      | q e' where "c_extra (as_cache s) q = Some e'" "ex_block_addr e' = ba"
      unfolding tracked_def by blast
    then show ?thesis
    proof cases
      case 2
      moreover have "q \<noteq> r" using 2 new(2) by auto
      ultimately show ?thesis by (auto intro: exI[of _ q])
    qed blast
  qed
  ultimately show ?thesis
    using t nb blocks blocks[THEN not_sym] new(3) e
    unfolding tracked_def own_blocks_def c add'(2,3)
    by (auto simp: add'(1) split: if_splits)
qed

lemma tracked_run: "core_run n s s' \<Longrightarrow> tracked s \<Longrightarrow> tracked s'"
proof (induction rule: core_run.induct)
  case (quiet s s')
  then show ?case by (simp add: tracked_def same_core_def)
next
  case (merge s b r t s')
  then have wf: "mshr_wf (c_mshrs (as_cache s))" by (simp add: tracked_def)
  from merge mshr_add_probe[OF wf merge(1)] show ?case
    by (auto simp: tracked_def same_core_def)
next
  case (miss s b r t e f s')
  show ?case
    by (rule tracked_miss[OF miss(8) miss(1-6), where f = f])
      (use miss(7) in \<open>simp_all add: same_core_def\<close>)
next
  case (send s r s' f)
  then show ?case by (auto simp: tracked_def ms_ok_def)
next
  case (new s' s f)
  have "ms_heap (as_store s) (ms_next (as_store s)) = None"
    using new(4) by (auto simp: tracked_def ms_ok_def)
  with new show ?case by (auto simp: tracked_def ms_ok_def less_Suc_eq)
qed blast

section \<open>The handlers as runs of such moves\<close>

text \<open>A handler adds at most as many requests as the miss queue has room for.\<close>

definition bounded_run :: "access_state \<Rightarrow> access_state \<Rightarrow> bool" where
  "bounded_run s s' \<longleftrightarrow> (\<exists>n. core_run n s s' \<and>
     (n = 0 \<or> length (c_miss_queue (as_cache s)) + n \<le> unat (m_miss_queue_size (c_config (as_cache s)))))"

lemma bounded_quiet [intro]: "same_core s s' \<Longrightarrow> bounded_run s s'"
  unfolding bounded_run_def by (blast intro: core_run.quiet)

lemma bounded_only_stats [intro]: "only_stats s s' \<Longrightarrow> bounded_run s s'"
  using only_stats_core by blast

lemma run_step0: "core_run 0 s t \<Longrightarrow> core_run n t u \<Longrightarrow> core_run n s u"
  using core_run.trans[of 0 s t n u] by simp

lemma run_quiet0: "core_run n s t \<Longrightarrow> same_core t u \<Longrightarrow> core_run n s u"
  using core_run.trans[OF _ core_run.quiet, of n s t u] by simp

lemma run_read_request:
  assumes "send_read_request a i r time ro wa s = Some (dm, ev, s')" "c_extra (as_cache s) r = None" "live s r"
  shows "\<exists>n \<le> 1. core_run n s s' \<and>
    (0 < n \<longrightarrow> length (c_miss_queue (as_cache s)) < unat (m_miss_queue_size (c_config (as_cache s))))"
proof -
  obtain mf where mf: "deref r (as_store s) = Some mf" using assms(3) by (auto simp: deref_heap)
  show ?thesis
  proof (cases dm)
    case False
    with assms(1) have "same_core s s'"
      using send_read_request_refused[of a i r time ro wa s ev s'] only_stats_core[of s s'] by simp
    then show ?thesis by (blast intro: core_run.quiet)
  next
    case True
    then have taken: "send_read_request a i r time ro wa s = Some (True, ev, s')" using assms(1) by simp
    show ?thesis
    proof (cases "mshr_probe (mshr_block s mf) (c_mshrs (as_cache s))")
      case hit: True
      from send_read_request_merged[OF taken mf hit] core_run.merge[OF _ hit]
      show ?thesis by blast
    next
      case miss: False
      from send_read_request_new[OF taken mf miss]
      obtain t e f where n: "mshr_add (as_store s) (mshr_block s mf) r (c_mshrs (as_cache s)) = Some t"
        "length (c_miss_queue (as_cache s)) < unat (m_miss_queue_size (c_config (as_cache s)))"
        "ex_valid e" "ex_block_addr e = mshr_block s mf"
        "same_core (s\<lparr>as_cache := (as_cache s)\<lparr>c_mshrs := t, c_miss_queue := c_miss_queue (as_cache s) @ [r],
            c_extra := (c_extra (as_cache s))(r \<mapsto> e)\<rparr>,
          as_store := (as_store s)\<lparr>ms_heap := (ms_heap (as_store s))(r \<mapsto> f)\<rparr>\<rparr>) s'"
        by blast
      from core_run.miss[OF n(1) miss assms(2,3) n(3-5)] n(2) show ?thesis by blast
    qed
  qed
qed

lemma run_write_request:
  "send_write_request r e time s = Some s' \<Longrightarrow> core_run 1 s s'"
  by (drule send_write_request_spec) (metis core_run.send option.distinct(1))

lemma run_writes_back:
  assumes "writes_back s e ev s'"
  shows "core_run 1 s s'"
proof -
  let ?w = "ms_next (as_store s)"
  from assms obtain f where f: "as_cache s' = (as_cache s)\<lparr>c_miss_queue := c_miss_queue (as_cache s) @ [?w]\<rparr>"
      "ms_heap (as_store s') = (ms_heap (as_store s))(?w \<mapsto> f)" "ms_next (as_store s') = Suc ?w"
    by (auto simp: writes_back_def Let_def)
  let ?t = "s\<lparr>as_store := (as_store s)\<lparr>ms_heap := (ms_heap (as_store s))(?w \<mapsto> f), ms_next := Suc ?w\<rparr>\<rparr>"
  have "core_run 0 s ?t" by (rule core_run.new) simp_all
  moreover have "core_run 1 ?t s'" by (rule core_run.send[of _ ?w _ f]) (use f in simp_all)
  ultimately show ?thesis by (rule run_step0)
qed

lemma run_write_back:
  assumes "write_back_if_needed ev g r time now s = Some s'"
  shows "\<exists>n \<le> 1. core_run n s s'"
proof -
  have "core_run 0 s s" by (rule core_run.quiet) simp
  with write_back_spec[OF assms] run_writes_back show ?thesis
    by (cases ev) (auto split: if_splits)
qed

lemma run_write_alloc:
  assumes "write_alloc_fetch r ow now s = Some (n, s')" "tracked s"
  shows "core_run 0 s s'" "live s' n" "c_extra (as_cache s') n = None" "as_cache s' = as_cache s"
proof -
  from write_alloc_fetch_spec[OF assms(1)] obtain f where f: "n = ms_next (as_store s)" "as_cache s' = as_cache s"
      "ms_next (as_store s') = Suc n" "ms_heap (as_store s') = (ms_heap (as_store s))(n \<mapsto> f)"
    by blast
  show "core_run 0 s s'" by (rule core_run.new) (use f in simp_all)
  show "live s' n" "as_cache s' = as_cache s" using f by simp_all
  have "\<not> live s n" using assms(2) f(1) by (auto simp: tracked_def ms_ok_def)
  then show "c_extra (as_cache s') n = None"
    using assms(2) unfolding tracked_def f(2) by (metis not_None_eq)
qed

lemma boundedI:
  "core_run n s s' \<Longrightarrow> \<not> miss_queue_full j (as_cache s) \<Longrightarrow> n \<le> Suc j \<Longrightarrow> bounded_run s s'"
  unfolding bounded_run_def by (auto simp: miss_queue_full_def intro!: exI[of _ n])

lemma bounded_wr_hit_wb: "wr_hit_wb a i r time s = Some (st, s') \<Longrightarrow> bounded_run s s'"
  by (rule bounded_quiet) (auto simp: wr_hit_wb_def bind_Some_iff intro: same_core_trans core_steps)

lemma bounded_wr_hit_wt:
  assumes "wr_hit_wt a i r time s = Some (st, s')"
  shows "bounded_run s s'"
proof (cases "miss_queue_full 0 (as_cache s)")
  case True
  with assms show ?thesis by (auto simp: wr_hit_wt_def bind_Some_iff fail_stats_only)
next
  case False
  with assms obtain t where t: "same_core s t" "send_write_request r (event WRITE_REQUEST_SENT) time t = Some s'"
    by (auto simp: wr_hit_wt_def bind_Some_iff intro: same_core_trans core_steps)
  from run_step0[OF core_run.quiet[OF t(1)] run_write_request[OF t(2)]] False show ?thesis
    by (rule boundedI) simp_all
qed

lemma bounded_wr_hit_we:
  assumes "wr_hit_we a i r time s = Some (st, s')"
  shows "bounded_run s s'"
proof (cases "miss_queue_full 0 (as_cache s)")
  case True
  with assms show ?thesis by (auto simp: wr_hit_we_def bind_Some_iff fail_stats_only)
next
  case False
  with assms obtain t where t: "send_write_request r (event WRITE_REQUEST_SENT) time s = Some t" "same_core t s'"
    by (auto simp: wr_hit_we_def bind_Some_iff intro: core_steps)
  from run_quiet0[OF run_write_request[OF t(1)] t(2)] False show ?thesis
    by (rule boundedI) simp_all
qed

lemma bounded_wr_hit: "wr_hit a i r time s = Some (st, s') \<Longrightarrow> bounded_run s s'"
  by (auto simp: wr_hit_def wr_hit_global_we_local_wb_def bind_Some_iff bounded_wr_hit_wb bounded_wr_hit_wt
      bounded_wr_hit_we split: write_policy_t.splits if_splits)

lemma bounded_rd_hit:
  assumes "rd_hit_base a i r time s = Some (st, s')"
  shows "bounded_run s s'"
  using assms
  by (intro bounded_quiet) (auto simp: rd_hit_base_def bind_Some_iff intro: same_core_trans core_steps split: if_splits)

lemma bounded_wr_miss_no_wa:
  assumes "wr_miss_no_wa r time s = Some (st, s')"
  shows "bounded_run s s'"
  using assms
  by (cases "miss_queue_full 0 (as_cache s)")
    (auto simp: wr_miss_no_wa_def bind_Some_iff fail_stats_only intro: boundedI[OF run_write_request, where j = 0])

text \<open>A read request followed by the write-back of what it evicted.\<close>

lemma run_read_and_write_back:
  assumes "send_read_request a i r time ro wa s = Some (dm, ev, t)" "c_extra (as_cache s) r = None" "live s r"
    "same_core t u" "write_back_if_needed ev g r' time now u = Some s'"
  shows "\<exists>n \<le> 2. core_run n s s'"
proof -
  from run_read_request[OF assms(1-3)] obtain n where n: "n \<le> 1" "core_run n s t" by blast
  from run_write_back[OF assms(5)] obtain m where m: "m \<le> 1" "core_run m u s'" by blast
  from core_run.trans[OF run_quiet0[OF n(2) assms(4)] m(2)] n(1) m(1) show ?thesis
    by (intro exI[of _ "n + m"]) simp
qed

lemma bounded_rd_miss:
  assumes "rd_miss_base a i r time now s = Some (st, s')" "c_extra (as_cache s) r = None" "live s r"
  shows "bounded_run s s'"
proof (cases "miss_queue_full 1 (as_cache s)")
  case True
  with assms show ?thesis by (auto simp: rd_miss_base_def bind_Some_iff fail_stats_only)
next
  case False
  with assms(1) obtain dm ev t where
    t: "send_read_request (cfg_block_addr (c_config (as_cache s)) a) i r time False False s = Some (dm, ev, t)" and
    s': "if dm then write_back_if_needed ev (\<lambda>_. event WRITE_BACK_REQUEST_SENT) r time now t = Some s' else s' = t"
    by (auto simp: rd_miss_base_def bind_Some_iff split: if_splits)
  show ?thesis
  proof (cases dm)
    case True
    with s' have w: "write_back_if_needed ev (\<lambda>_. event WRITE_BACK_REQUEST_SENT) r time now t = Some s'" by simp
    from run_read_and_write_back[OF t assms(2,3) same_core_refl w] obtain n where "n \<le> 2" "core_run n s s'"
      by blast
    then show ?thesis using False by (intro boundedI[where j = 1]) auto
  next
    case False
    then show ?thesis using s' t send_read_request_refused by auto
  qed
qed

lemma run_write_alloc_miss:
  assumes u: "write_alloc_fetch r ow now t = Some (n, u)" and t: "tracked t"
    and v: "send_read_request a i n time False True u = Some (dm, ev, v)" and w: "same_core v w"
    and s': "if dm then write_back_if_needed ev g r time now w = Some s' else s' = w"
  shows "\<exists>m \<le> 2. core_run m t s'"
proof -
  note al = run_write_alloc[OF u t]
  have "\<exists>m \<le> 2. core_run m u s'"
  proof (cases dm)
    case True
    with s' show ?thesis
      by (intro run_read_and_write_back[OF v al(3,2) w]) simp
  next
    case False
    then have "only_stats u v" using v send_read_request_refused by simp
    then have "same_core u s'" using False s' same_core_trans[OF _ w] only_stats_core by simp
    then show ?thesis by (blast intro: core_run.quiet)
  qed
  with run_step0[OF al(1)] show ?thesis by blast
qed

lemma bounded_wr_miss_wa_naive:
  assumes "wr_miss_wa_naive a i r time now st0 s = Some (st, s')" "tracked s" "live s r"
  shows "bounded_run s s'"
proof -
  from assms(3) obtain mf where mf: "deref r (as_store s) = Some mf" by (auto simp: deref_heap)
  show ?thesis
  proof (cases "read_request_refused 2 (mshr_block s mf) (as_cache s)")
    case True
    with assms(1) mf show ?thesis
      by (auto simp: wr_miss_wa_naive_def bind_Some_iff Let_def note_refusal_only)
  next
    case False
    with assms(1) mf obtain t u n dm ev v where
      t: "send_write_request r (event WRITE_REQUEST_SENT) time s = Some t" and
      u: "write_alloc_fetch r None now t = Some (n, u)" and
      v: "send_read_request (cfg_block_addr (c_config (as_cache s)) a) i n time False True u = Some (dm, ev, v)" and
      s': "if dm then write_back_if_needed ev write_back_event r time now (push_event (event WRITE_ALLOCATE_SENT) v)
             = Some s' else s' = push_event (event WRITE_ALLOCATE_SENT) v"
      by (auto simp: wr_miss_wa_naive_def bind_Some_iff Let_def split: if_splits)
    note r1 = run_write_request[OF t]
    have evq: "same_core v (push_event (event WRITE_ALLOCATE_SENT) v)"
      by (simp add: same_core_def)
    from run_write_alloc_miss[OF u tracked_run[OF r1 assms(2)] v evq s']
    obtain m where m: "m \<le> 2" "core_run m t s'" by blast
    moreover have "\<not> miss_queue_full 2 (as_cache s)" using False by (auto simp: read_request_refused_def Let_def)
    ultimately show ?thesis using core_run.trans[OF r1 m(2)] by (intro boundedI[where j = 2]) auto
  qed
qed

lemma write_tags_then_blocks:
  assumes "write_tags a time i r mf s = Some (st, j, ev, t)" "same_core t u"
    "if st \<noteq> RESERVATION_FAIL then write_back_if_needed ev g r time now u = Some s' else s' = u"
    "\<not> miss_queue_full 0 (as_cache s)"
  shows "bounded_run s s'"
proof (cases "st = RESERVATION_FAIL")
  case True
  with assms(3) same_core_trans[OF write_tags_core[OF assms(1)] assms(2)] show ?thesis by auto
next
  case False
  with assms(3) have w: "write_back_if_needed ev g r time now u = Some s'" by simp
  from run_write_back[OF w] obtain n where n: "n \<le> 1" "core_run n u s'" by blast
  from run_step0[OF core_run.quiet[OF same_core_trans[OF write_tags_core[OF assms(1)] assms(2)]] n(2)] assms(4) n(1)
  show ?thesis by (rule_tac boundedI) simp_all
qed

lemma bounded_wr_miss_wa_lazy:
  assumes "wr_miss_wa_lazy_fetch_on_read a i r time now s = Some (st, s')"
  shows "bounded_run s s'"
proof (cases "miss_queue_full 0 (as_cache s)")
  case True
  with assms show ?thesis
    by (auto simp: wr_miss_wa_lazy_fetch_on_read_def bind_Some_iff fail_stats_only)
next
  case False
  let ?a = "cfg_block_addr (c_config (as_cache s)) a"
  from False assms obtain mf st' j ev t u v whole where
    t: "write_tags ?a time i r mf s = Some (st', j, ev, t)" and
    u: "(if st' = HIT_RESERVED then do {
           s \<leftarrow> on_block j (set_ignore_on_fill True (get_access_sector_mask mf)) t;
           on_block j (set_modified_on_fill True (get_access_sector_mask mf)) s }
         else Some t) = Some u" and
    v: "on_block j (set_m_readable whole (get_access_sector_mask mf)) u = Some v" and
    s': "if st' \<noteq> RESERVATION_FAIL then write_back_if_needed ev write_back_event r time now v = Some s' else s' = v"
    by (auto simp: wr_miss_wa_lazy_fetch_on_read_def bind_Some_iff Let_def split: if_splits)
  have "same_core t u" using u by (auto simp: bind_Some_iff intro: same_core_trans core_steps split: if_splits)
  then have "same_core t v" using on_block_core[OF v] same_core_trans by blast
  from write_tags_then_blocks[OF t this s' False] show ?thesis .
qed

lemma raw_keeps_table:
  assumes "(if mshr_probe b t then is_read_after_write_pending ms b t else Some (False, t)) = Some (raw, t')"
  shows "t' = t"
  using assms by (auto simp: is_read_after_write_pending_def bind_Some_iff Let_def mshr_set_same split: if_splits)

text \<open>The branch of a partial write whose read request can be taken.\<close>

lemma fetch_on_write_partial:
  assumes "wr_miss_wa_fetch_on_write a i r time now s = Some (st, s')" "deref r (as_store s) = Some mf"
    "writes_whole_atom mf (c_config (as_cache s)) = Some False"
    "\<not> read_request_refused 1 (mshr_block s mf) (as_cache s)"
  obtains (refused) "fail_stats r MSHR_RW_PENDING s = Some s'" "st = RESERVATION_FAIL"
    | (sent) n u dm ev v w where
      "write_alloc_fetch r (Some r) now s = Some (n, u)"
      "send_read_request (cfg_block_addr (c_config (as_cache s)) a) i n time False True u = Some (dm, ev, v)"
      "on_block i (set_modified_on_fill True (get_access_sector_mask mf)) v = Some w"
      "if dm then write_back_if_needed ev write_back_event r time now (push_event (event WRITE_ALLOCATE_SENT) w)
             = Some s' else s' = push_event (event WRITE_ALLOCATE_SENT) w"
      "st = (if dm then MISS else RESERVATION_FAIL)"
proof -
  let ?a = "cfg_block_addr (c_config (as_cache s)) a"
  from assms obtain raw t where
    raw: "(if mshr_probe (mshr_block s mf) (c_mshrs (as_cache s))
        then is_read_after_write_pending (as_store s) (mshr_block s mf) (c_mshrs (as_cache s))
        else Some (False, c_mshrs (as_cache s))) = Some (raw, t)" and
    rest: "(if raw \<and> get_is_write mf then do {
         s \<leftarrow> fail_stats r MSHR_RW_PENDING (upd_cache (\<lambda>c. c\<lparr>c_mshrs := t\<rparr>) s);
         Some (RESERVATION_FAIL, s) }
       else do {
         (n, s) \<leftarrow> write_alloc_fetch r (Some r) now (upd_cache (\<lambda>c. c\<lparr>c_mshrs := t\<rparr>) s);
         (do_miss, evicted, s) \<leftarrow> send_read_request ?a i n time False True s;
         s \<leftarrow> on_block i (set_modified_on_fill True (get_access_sector_mask mf)) s;
         let s = push_event (event WRITE_ALLOCATE_SENT) s;
         (if do_miss then do {
            s \<leftarrow> write_back_if_needed evicted write_back_event r time now s;
            Some (MISS, s) }
          else Some (RESERVATION_FAIL, s)) }) = Some (st, s')"
    by (simp add: wr_miss_wa_fetch_on_write_def bind_Some_iff Let_def) blast
  have id: "upd_cache (\<lambda>c. c\<lparr>c_mshrs := t\<rparr>) s = s"
    using raw_keeps_table[OF raw] by (simp add: upd_cache_def)
  show thesis
  proof (cases "raw \<and> get_is_write mf")
    case True
    with rest show thesis by (auto simp: bind_Some_iff id intro: refused)
  next
    case False
    with rest show thesis
      by (auto simp: id bind_Some_iff Let_def split: if_splits intro: sent)
  qed
qed

lemma bounded_wr_miss_wa_fetch:
  assumes "wr_miss_wa_fetch_on_write a i r time now s = Some (st, s')" "tracked s" "live s r"
  shows "bounded_run s s'"
proof -
  let ?a = "cfg_block_addr (c_config (as_cache s)) a"
  from assms(3) obtain mf where mf: "deref r (as_store s) = Some mf" by (auto simp: deref_heap)
  from assms(1) mf obtain whole where whole: "writes_whole_atom mf (c_config (as_cache s)) = Some whole"
    by (auto simp: wr_miss_wa_fetch_on_write_def bind_Some_iff Let_def)
  show ?thesis
  proof (cases whole)
    case True
    show ?thesis
    proof (cases "miss_queue_full 0 (as_cache s)")
      case full: True
      with assms(1) mf whole True show ?thesis
        by (auto simp: wr_miss_wa_fetch_on_write_def bind_Some_iff Let_def fail_stats_only)
    next
      case room: False
      with assms(1) mf whole True obtain st' j ev t u where
        t: "write_tags ?a time i r mf s = Some (st', j, ev, t)" and
        u: "(if st' = HIT_RESERVED then on_block j (set_ignore_on_fill True (get_access_sector_mask mf)) t
             else Some t) = Some u" and
        s': "if st' \<noteq> RESERVATION_FAIL then write_back_if_needed ev write_back_event r time now u = Some s' else s' = u"
        by (auto simp: wr_miss_wa_fetch_on_write_def bind_Some_iff Let_def split: if_splits)
      have "same_core t u" using u by (auto intro: core_steps split: if_splits)
      from write_tags_then_blocks[OF t this s' room] show ?thesis .
    qed
  next
    case part: False
    show ?thesis
    proof (cases "read_request_refused 1 (mshr_block s mf) (as_cache s)")
      case True
      with assms(1) mf whole part show ?thesis
        by (auto simp: wr_miss_wa_fetch_on_write_def bind_Some_iff Let_def note_refusal_only)
    next
      case False
      from whole part have "writes_whole_atom mf (c_config (as_cache s)) = Some False" by simp
      from assms(1) mf this False show ?thesis
      proof (cases rule: fetch_on_write_partial)
        case refused
        then show ?thesis by (auto simp: fail_stats_only)
      next
        case (sent n u dm ev v w)
        have "same_core v (push_event (event WRITE_ALLOCATE_SENT) w)"
          using on_block_core[OF sent(3)] by (simp add: same_core_def)
        from run_write_alloc_miss[OF sent(1) assms(2) sent(2) this sent(4)]
        obtain m where "m \<le> 2" "core_run m s s'" by blast
        moreover have "\<not> miss_queue_full 1 (as_cache s)"
          using False by (auto simp: read_request_refused_def Let_def)
        ultimately show ?thesis by (intro boundedI[where j = 1]) auto
      qed
    qed
  qed
qed

lemma bounded_wr_miss:
  assumes "wr_miss a i r time now st0 s = Some (st, s')" "tracked s" "live s r"
  shows "bounded_run s s'"
  using assms
  by (auto simp: wr_miss_def bounded_wr_miss_no_wa bounded_wr_miss_wa_lazy
      bounded_wr_miss_wa_naive[OF _ assms(2,3)] bounded_wr_miss_wa_fetch[OF _ assms(2,3)]
      split: write_allocate_policy_t.splits)

lemma use_data_port_core:
  "use_data_port mf st evs (as_cache s) = Some c \<Longrightarrow> same_core s (s\<lparr>as_cache := c\<rparr>)"
  by (auto simp: use_data_port_def same_core_def bind_Some_iff Let_def split: cache_request_status.splits if_splits prod.splits)

lemma count_outcome_core: "same_core s (count_outcome mf p q s)"
  by (simp add: count_outcome_def same_core_def)

lemma bounded_then_quiet: "bounded_run s t \<Longrightarrow> same_core t u \<Longrightarrow> bounded_run s u"
  unfolding bounded_run_def using run_quiet0 by blast

lemma bounded_process_tag_probe:
  assumes "process_tag_probe wr p a i r time now s = Some (st, s')" "tracked s" "live s r" "c_extra (as_cache s) r = None"
  shows "bounded_run s s'"
proof -
  from assms(1) obtain t c mf where
    t: "(if wr then
          (if p = HIT then wr_hit a i r time s
           else if p \<noteq> RESERVATION_FAIL \<or> p = RESERVATION_FAIL \<and>
                   m_write_alloc_policy (c_config (as_cache s)) = NO_WRITE_ALLOCATE
           then wr_miss a i r time now p s
           else do { s \<leftarrow> fail_stats r LINE_ALLOC_FAIL s; Some (p, s) })
        else
          (if p = HIT then rd_hit_base a i r time s
           else if p \<noteq> RESERVATION_FAIL then rd_miss_base a i r time now s
           else do { s \<leftarrow> fail_stats r LINE_ALLOC_FAIL s; Some (p, s) })) = Some (st, t)" and
    c: "use_data_port mf st (as_events t) (as_cache t) = Some c" "s' = t\<lparr>as_cache := c\<rparr>"
    by (auto simp: process_tag_probe_def bind_Some_iff)
  have "bounded_run s t"
    using t assms(2-4)
    by (auto simp: bind_Some_iff fail_stats_only bounded_wr_hit bounded_wr_miss bounded_rd_hit bounded_rd_miss split: if_splits)
  from bounded_then_quiet[OF this use_data_port_core[OF c(1)]] c(2) show ?thesis by simp
qed

lemma bounded_data_access:
  assumes "data_access a r time now s = Some (st, s')" "tracked s" "live s r" "c_extra (as_cache s) r = None"
  shows "bounded_run s s'"
proof -
  from assms(1) obtain mf p i t where "process_tag_probe (get_is_write mf) p a i r time now s = Some (st, t)"
    "s' = count_outcome mf p st t"
    by (auto simp: data_access_def bind_Some_iff Let_def)
  then show ?thesis using bounded_process_tag_probe assms(2-4) bounded_then_quiet count_outcome_core by metis
qed

lemma bounded_read_only_access:
  assumes "read_only_access a r time s = Some (st, s')" "live s r" "c_extra (as_cache s) r = None"
  shows "bounded_run s s'"
proof -
  from assms(1) obtain mf p i t where
    t: "(if p = HIT then do {
          (st, _, s) \<leftarrow> tags_access (cfg_block_addr (c_config (as_cache s)) a) time i r s;
          Some (st, s) }
        else if p \<noteq> RESERVATION_FAIL then
          (if \<not> miss_queue_full 0 (as_cache s) then do {
             (do_miss, _, s) \<leftarrow> send_read_request (cfg_block_addr (c_config (as_cache s)) a) i r time True False s;
             Some (if do_miss then MISS else RESERVATION_FAIL, s) }
           else do { s \<leftarrow> fail_stats r MISS_QUEUE_FULL s; Some (RESERVATION_FAIL, s) })
        else do { s \<leftarrow> fail_stats r LINE_ALLOC_FAIL s; Some (RESERVATION_FAIL, s) }) = Some (st, t)"
    and s': "s' = count_outcome mf p st t"
    by (auto simp: read_only_access_def bind_Some_iff Let_def)
  have "bounded_run s t"
  proof -
    have "bounded_run s u" if "send_read_request a' i r time True False s = Some (dm, ev, u)"
        "\<not> miss_queue_full 0 (as_cache s)" for a' dm ev u
      using run_read_request[OF that(1) assms(3,2)] boundedI[OF _ that(2)] by fastforce
    with t show ?thesis
      by (auto simp: bind_Some_iff fail_stats_only intro: tags_access_core split: if_splits)
  qed
  then show ?thesis using s' bounded_then_quiet count_outcome_core by metis
qed

section \<open>Refused requests\<close>

text \<open>A write miss is only tried when the set has a line for it, which the second probe finds too.\<close>

lemma probe_again:
  assumes "probe a m True mf ta = Some (st, i)" "st \<noteq> RESERVATION_FAIL"
    "probe a m False mf' (ta\<lparr>ta_access := x, ta_is_used := y\<rparr>) = Some (st', i')"
  shows "st' \<noteq> RESERVATION_FAIL"
proof -
  have [simp]: "ta_set_index (ta\<lparr>ta_access := x, ta_is_used := y\<rparr>) a = ta_set_index ta a"
    by (simp add: ta_set_index_def)
  obtain n res where n: "ta_set_index ta a = Some n" and
    res: "probe_loop (ta_lines ta) (m_replacement_policy (ta_config ta)) (cfg_tag (ta_config ta) a) m
      (set_lines (ta_config ta) n)
      \<lparr>invalid_line = - 1, valid_line = - 1, valid_timestamp = 0xFFFFFFFF, all_reserved = True\<rparr> = Some res"
    using assms(1) by (auto simp: probe_def bind_Some_iff Let_def)
  show ?thesis
  proof (cases res)
    case (Inl f)
    then show ?thesis using assms n res by (cases f) (auto simp: probe_def)
  next
    case (Inr acc)
    then have "\<not> all_reserved acc"
      using assms(1,2) n res by (auto simp: probe_def bind_Some_iff)
    then show ?thesis using assms(3) n res Inr by (auto simp: probe_def bind_Some_iff split: if_splits)
  qed
qed

lemma tags_access_again:
  assumes "probe_mf a mf True (c_tags (as_cache s)) = Some (p, k)" "p \<noteq> RESERVATION_FAIL"
    "deref r (as_store s) = Some mf" "tags_access_wb a time i r s = Some (st, j, ev, t)"
  shows "st \<noteq> RESERVATION_FAIL"
proof -
  from assms(3,4) obtain k' ta where "access_wb a time mf (c_tags (as_cache s)) = Some (st, k', ev, ta)"
    by (auto simp: tags_access_wb_def bind_Some_iff)
  from access_meets_spec[OF this] have "probe a (get_access_sector_mask mf) False (Some mf)
      ((c_tags (as_cache s))\<lparr>ta_access := ta_access (c_tags (as_cache s)) + 1, ta_is_used := True\<rparr>) = Some (st, k')"
    by (simp add: probe_mf_def)
  from probe_again[OF assms(1)[unfolded probe_mf_def] assms(2) this] show ?thesis .
qed

lemma send_read_request_taken:
  assumes "send_read_request a i r time ro wa s = Some (dm, ev, s')" "deref r (as_store s) = Some mf"
    "\<not> mshr_full (mshr_block s mf) (c_mshrs (as_cache s))"
  shows dm
  using assms by (auto simp: send_read_request_def bind_Some_iff Let_def split: if_splits)

lemma refused_not_full: "\<not> read_request_refused n b c \<Longrightarrow> \<not> mshr_full b (c_mshrs c)"
  by (auto simp: read_request_refused_def Let_def)

lemma refused_wr_hit: "wr_hit a i r time s = Some (RESERVATION_FAIL, s') \<Longrightarrow> only_stats s s'"
  by (auto simp: wr_hit_def wr_hit_global_we_local_wb_def wr_hit_wb_def wr_hit_wt_def wr_hit_we_def
      bind_Some_iff fail_stats_only split: write_policy_t.splits if_splits)

lemma refused_rd_miss:
  assumes "rd_miss_base a i r time now s = Some (RESERVATION_FAIL, s')"
  shows "only_stats s s'"
  using assms send_read_request_refused
  by (auto simp: rd_miss_base_def bind_Some_iff fail_stats_only split: if_splits)

lemma refused_rd_hit: "rd_hit_base a i r time s \<noteq> Some (RESERVATION_FAIL, s')"
  by (auto simp: rd_hit_base_def bind_Some_iff)

text \<open>The read request of a write miss is not refused once the checks before it have passed.\<close>

lemma write_alloc_taken:
  assumes u: "write_alloc_fetch r ow now t = Some (n, u)"
    and v: "send_read_request a i n time ro wa u = Some (dm, ev, v)"
    and mf: "deref r (as_store t) = Some mf" and room: "\<not> mshr_full (mshr_block t mf) (c_mshrs (as_cache t))"
  shows dm
proof -
  from write_alloc_fetch_spec[OF u] mf obtain f where f: "as_cache u = as_cache t"
      "ms_heap (as_store u) = (ms_heap (as_store t))(n \<mapsto> f)" "get_addr f = get_addr mf"
    by auto
  have "deref n (as_store u) = Some f" by (simp add: deref_heap f(2))
  from send_read_request_taken[OF v this] room show ?thesis by (simp add: f(1,3))
qed

lemma refused_wr_miss_wa_naive:
  assumes "wr_miss_wa_naive a i r time now p s = Some (RESERVATION_FAIL, s')" "live s r"
  shows "only_stats s s'"
proof -
  from assms(2) obtain mf where mf: "deref r (as_store s) = Some mf" by (auto simp: deref_heap)
  show ?thesis
  proof (cases "read_request_refused 2 (mshr_block s mf) (as_cache s)")
    case True
    with assms(1) mf show ?thesis
      by (auto simp: wr_miss_wa_naive_def bind_Some_iff Let_def note_refusal_only)
  next
    case False
    with assms(1) mf obtain t u n ev v where
      t: "send_write_request r (event WRITE_REQUEST_SENT) time s = Some t" and
      u: "write_alloc_fetch r None now t = Some (n, u)" and
      v: "send_read_request (cfg_block_addr (c_config (as_cache s)) a) i n time False True u = Some (False, ev, v)"
      by (auto simp: wr_miss_wa_naive_def bind_Some_iff Let_def split: if_splits)
    from send_write_request_spec[OF t] mf obtain f where f: "deref r (as_store t) = Some f" "get_addr f = get_addr mf"
        "c_mshrs (as_cache t) = c_mshrs (as_cache s)" "c_config (as_cache t) = c_config (as_cache s)"
      by (auto simp: deref_heap get_addr_def)
    from write_alloc_taken[OF u v f(1)] refused_not_full[OF False] f(2-4) show ?thesis by simp
  qed
qed

lemma refused_wr_miss_wa_fetch:
  assumes "wr_miss_wa_fetch_on_write a i r time now s = Some (RESERVATION_FAIL, s')"
    "deref r (as_store s) = Some mf" "p \<noteq> RESERVATION_FAIL"
    "probe_mf (cfg_block_addr (c_config (as_cache s)) a) mf True (c_tags (as_cache s)) = Some (p, k)"
  shows "only_stats s s'"
proof -
  note mf = assms(2)
  from assms(1) mf obtain whole where whole: "writes_whole_atom mf (c_config (as_cache s)) = Some whole"
    by (auto simp: wr_miss_wa_fetch_on_write_def bind_Some_iff Let_def)
  show ?thesis
  proof (cases whole)
    case True
    with assms(1) mf whole tags_access_again[OF assms(4,3) mf] show ?thesis
      by (auto simp: wr_miss_wa_fetch_on_write_def bind_Some_iff Let_def fail_stats_only write_tags_def split: if_splits)
  next
    case part: False
    show ?thesis
    proof (cases "read_request_refused 1 (mshr_block s mf) (as_cache s)")
      case True
      with assms(1) mf whole part show ?thesis
        by (auto simp: wr_miss_wa_fetch_on_write_def bind_Some_iff Let_def note_refusal_only)
    next
      case False
      from whole part have "writes_whole_atom mf (c_config (as_cache s)) = Some False" by simp
      from assms(1) mf this False show ?thesis
      proof (cases rule: fetch_on_write_partial)
        case refused
        then show ?thesis by (simp add: fail_stats_only)
      next
        case (sent n u dm ev v w)
        from write_alloc_taken[OF sent(1,2) mf refused_not_full[OF False]] sent(5) show ?thesis by simp
      qed
    qed
  qed
qed

lemma refused_wr_miss:
  assumes "wr_miss a i r time now p s = Some (RESERVATION_FAIL, s')" "deref r (as_store s) = Some mf"
    "p \<noteq> RESERVATION_FAIL \<or> m_write_alloc_policy (c_config (as_cache s)) = NO_WRITE_ALLOCATE"
    "probe_mf (cfg_block_addr (c_config (as_cache s)) a) mf True (c_tags (as_cache s)) = Some (p, k)"
  shows "only_stats s s'"
proof (cases "m_write_alloc_policy (c_config (as_cache s))")
  case NO_WRITE_ALLOCATE
  with assms(1) show ?thesis
    by (auto simp: wr_miss_def wr_miss_no_wa_def bind_Some_iff fail_stats_only split: if_splits)
next
  case WRITE_ALLOCATE
  with assms(1,2) refused_wr_miss_wa_naive show ?thesis by (simp add: wr_miss_def deref_heap)
next
  case FETCH_ON_WRITE
  with assms refused_wr_miss_wa_fetch[OF _ assms(2) _ assms(4)] show ?thesis by (simp add: wr_miss_def)
next
  case LAZY_FETCH_ON_READ
  with assms(3) have "p \<noteq> RESERVATION_FAIL" by simp
  from assms(1,2) LAZY_FETCH_ON_READ tags_access_again[OF assms(4) this assms(2)] show ?thesis
    by (auto simp: wr_miss_def wr_miss_wa_lazy_fetch_on_read_def bind_Some_iff Let_def fail_stats_only write_tags_def
        split: if_splits)
qed

lemma refused_data_access:
  assumes "data_access a r time now s = Some (RESERVATION_FAIL, s')"
  shows "only_stats s s'"
proof -
  from assms obtain mf p k t where mf: "deref r (as_store s) = Some mf" and
    p: "probe_mf (cfg_block_addr (c_config (as_cache s)) a) mf True (c_tags (as_cache s)) = Some (p, k)" and
    t: "process_tag_probe (get_is_write mf) p a (case k of Some i \<Rightarrow> i | None \<Rightarrow> - 1) r time now s = Some (RESERVATION_FAIL, t)"
       "s' = count_outcome mf p RESERVATION_FAIL t"
    by (auto simp: data_access_def bind_Some_iff Let_def)
  from t(1) have "only_stats s t"
    apply (auto simp: process_tag_probe_def bind_Some_iff use_data_port_def fail_stats_only refused_rd_hit
        split: if_splits)
    apply (erule refused_wr_hit)
    apply (erule refused_wr_miss[OF _ mf _ p]; simp)
    apply (erule refused_wr_miss[OF _ mf _ p]; simp)
    apply (erule refused_rd_miss)
    done
  moreover have "only_stats t s'" by (auto simp: t(2) count_outcome_def only_stats_def)
  ultimately show ?thesis by (rule only_stats_trans)
qed

section \<open>Fills and hand-outs\<close>

lemma wf_probe: "mshr_wf t \<Longrightarrow> mshr_probe b t \<longleftrightarrow> mshr_pending t b \<noteq> []"
  by (auto simp: mshr_wf_def mshr_probe_def mshr_pending_def mshr_index_def mshr_entry_new_def split: option.splits)

lemma fill_addr_config:
  assumes "fill_addr a time m ta = Some ta'"
  shows "ta_config ta' = ta_config ta"
proof -
  from assms obtain st i idx ta1 where
    "(case st of
        MISS \<Rightarrow> with_line idx (allocate (cfg_tag (ta_config ta) a) (cfg_block_addr (ta_config ta) a) time m) ta
      | SECTOR_MISS \<Rightarrow> do {
          ensure (m_cache_type (ta_config ta) = SECTOR);
          with_line idx (allocate_sector time m) ta }
      | _ \<Rightarrow> Some ta) = Some ta1" "with_line idx (block_fill time m) ta1 = Some ta'"
    by (auto simp: fill_addr_def bind_Some_iff Let_def)
  then show ?thesis by (cases st) (auto dest!: with_line_config simp: bind_Some_iff)
qed

lemma fill_tags_config: "fill_tags e mf time ta = Some ta' \<Longrightarrow> ta_config ta' = ta_config ta"
  by (auto simp: fill_tags_def fill_index_def bind_Some_iff Let_def remove_pending_line_def
      split: allocation_policy_t.splits if_splits dest!: with_line_config fill_addr_config)

lemma fill_request_spec:
  assumes "fill_request r time s = Some s'"
  shows "\<exists>e f a t. c_extra (as_cache s) r = Some e \<and> live s r \<and>
    mshr_mark_ready (ex_block_addr e) (c_mshrs (as_cache s)) = Some (a, t) \<and>
    c_config (as_cache s') = c_config (as_cache s) \<and>
    c_mshrs (as_cache s') = t \<and> c_miss_queue (as_cache s') = c_miss_queue (as_cache s) \<and>
    c_extra (as_cache s') = (c_extra (as_cache s))(r := None) \<and>
    ms_heap (as_store s') = (ms_heap (as_store s))(r \<mapsto> f) \<and> ms_next (as_store s') = ms_next (as_store s)"
proof -
  from assms obtain e t1 mf ta a t t2 c where
    e: "c_extra (as_cache s) r = Some e" and
    t1: "update_fetch r (set_addr (ex_addr e) \<circ> set_data_size (ex_data_size e)) s = Some t1" and
    ta: "fill_tags e mf time (c_tags (as_cache t1)) = Some ta" and
    t: "mshr_mark_ready (ex_block_addr e) (c_mshrs (as_cache t1)) = Some (a, t)" and
    t2: "(if a then do {
         ensure (m_alloc_policy (c_config (as_cache
           (upd_cache (\<lambda>c. c\<lparr>c_mshrs := t\<rparr>) (upd_cache (\<lambda>c. c\<lparr>c_tags := ta\<rparr>) t1)))) = ON_MISS);
         on_block (ex_cache_index e) (set_block_status MODIFIED (get_access_sector_mask mf))
           (upd_cache (\<lambda>c. c\<lparr>c_mshrs := t\<rparr>) (upd_cache (\<lambda>c. c\<lparr>c_tags := ta\<rparr>) t1)) }
       else Some (upd_cache (\<lambda>c. c\<lparr>c_mshrs := t\<rparr>) (upd_cache (\<lambda>c. c\<lparr>c_tags := ta\<rparr>) t1))) = Some t2" and
    c: "use_fill_port (as_cache (upd_cache (\<lambda>c. c\<lparr>c_extra := (c_extra c)(r := None)\<rparr>) t2)) = Some c" and
    s': "(upd_cache (\<lambda>c. c\<lparr>c_extra := (c_extra c)(r := None)\<rparr>) t2)\<lparr>as_cache := c\<rparr> = s'"
    by (simp add: fill_request_def bind_Some_iff Let_def) blast
  from t1 obtain f where f: "ms_heap (as_store s) r \<noteq> None" "as_cache t1 = as_cache s"
      "ms_heap (as_store t1) = (ms_heap (as_store s))(r \<mapsto> f)" "ms_next (as_store t1) = ms_next (as_store s)"
    by (auto simp: update_fetch_def bind_Some_iff mf_update_Some)
  have k: "same_core (upd_cache (\<lambda>c. c\<lparr>c_mshrs := t\<rparr>) t1) t2"
    using t2 fill_tags_config[OF ta]
    by (auto simp: same_core_def bind_Some_iff dest!: on_block_core split: if_splits)
  have "c_config c = c_config (as_cache t2) \<and> c_mshrs c = c_mshrs (as_cache t2) \<and>
      c_miss_queue c = c_miss_queue (as_cache t2) \<and> c_extra c = (c_extra (as_cache t2))(r := None)"
    using c by (auto simp: use_fill_port_def bind_Some_iff)
  with e f t k show ?thesis
    by (intro exI[of _ e] exI[of _ f] exI[of _ a] exI[of _ t]) (simp add: same_core_def flip: s')
qed

lemma tracked_fill:
  assumes s: "tracked s" and f: "fill_request r time s = Some s'"
  shows "tracked s'"
proof -
  from fill_request_spec[OF f] obtain e g a t where
    e: "c_extra (as_cache s) r = Some e" "live s r" and
    t: "mshr_mark_ready (ex_block_addr e) (c_mshrs (as_cache s)) = Some (a, t)" and
    c: "c_mshrs (as_cache s') = t" "c_miss_queue (as_cache s') = c_miss_queue (as_cache s)"
      "c_extra (as_cache s') = (c_extra (as_cache s))(r := None)"
      "ms_heap (as_store s') = (ms_heap (as_store s))(r \<mapsto> g)" "ms_next (as_store s') = ms_next (as_store s)"
    by blast
  have wf: "mshr_wf (c_mshrs (as_cache s))"
    and nr: "ex_block_addr e \<notin> set (mshr_current_response (c_mshrs (as_cache s)))"
    using s e by (auto simp: tracked_def)
  note spec = mshr_ready_spec[OF wf nr t]
  have pr: "mshr_probe b t \<longleftrightarrow> mshr_probe b (c_mshrs (as_cache s))" for b
    using spec wf by (simp add: wf_probe)
  have ok: "ms_ok (as_store s')" using s e(2) by (auto simp: tracked_def ms_ok_def c)
  have other: "ex_block_addr e' \<noteq> ex_block_addr e" if "c_extra (as_cache s) q = Some e'" "q \<noteq> r" for q e'
    using s e that unfolding tracked_def own_blocks_def by blast
  have all: "b \<in> set (mshr_current_response t) \<or> (\<exists>q e'. ((c_extra (as_cache s))(r := None)) q = Some e' \<and> ex_block_addr e' = b)"
    if "mshr_probe b t" for b
  proof (cases "b = ex_block_addr e")
    case True
    then show ?thesis using spec by simp
  next
    case False
    from that pr s consider "b \<in> set (mshr_current_response (c_mshrs (as_cache s)))"
      | q e' where "c_extra (as_cache s) q = Some e'" "ex_block_addr e' = b"
      unfolding tracked_def by blast
    then show ?thesis
    proof cases
      case 2
      with e False have "q \<noteq> r" by auto
      with 2 show ?thesis by (intro disjI2 exI[of _ q] exI[of _ e']) simp
    qed (use spec in simp)
  qed
  show ?thesis
  proof -
    have "own_blocks ((c_extra (as_cache s))(r := None))"
      using s by (auto simp: tracked_def own_blocks_def)
    moreover have "\<forall>q e'. ((c_extra (as_cache s))(r := None)) q = Some e' \<longrightarrow> live s' q \<and> ex_valid e' \<and>
        mshr_probe (ex_block_addr e') t \<and> ex_block_addr e' \<notin> set (mshr_current_response t)"
      using s spec other unfolding tracked_def pr c by auto
    moreover have "\<forall>q \<in> set (c_miss_queue (as_cache s)). live s' q"
      using s unfolding tracked_def c by auto
    ultimately show ?thesis
      using ok spec all unfolding tracked_def c by simp
  qed
qed

lemma tracked_next:
  assumes s: "tracked s" and n: "cache_next_access (as_cache s) = Some (r, c')"
  shows "tracked (s\<lparr>as_cache := c'\<rparr>)"
proof -
  let ?t = "c_mshrs (as_cache s)"
  from n obtain t where t: "mshr_next_access ?t = Some (r, t)" and c': "c' = (as_cache s)\<lparr>c_mshrs := t\<rparr>"
    by (auto simp: cache_next_access_def bind_Some_iff)
  have wf: "mshr_wf ?t" using s by (simp add: tracked_def)
  from mshr_next_spec[OF wf t] obtain b bs where n: "mshr_wf t" "mshr_current_response ?t = b # bs"
      "mshr_pending ?t b = r # mshr_pending t b" "mshr_pending t = (mshr_pending ?t)(b := mshr_pending t b)"
      "mshr_current_response t = (if mshr_pending t b = [] then bs else b # bs)"
    by blast
  have d: "b \<notin> set bs" using wf n(2) by (auto simp: mshr_wf_def)
  have same: "mshr_pending t x = mshr_pending ?t x" if "x \<noteq> b" for x
    using n(4) that by (metis fun_upd_other)
  have pr: "mshr_probe x t \<longleftrightarrow> (if x = b then mshr_pending t b \<noteq> [] else mshr_probe x ?t)" for x
    using same by (simp add: wf_probe[OF n(1)] wf_probe[OF wf])
  have ne: "ex_block_addr e \<noteq> b" if "c_extra (as_cache s) q = Some e" for q e
    using s that n(2) by (auto simp: tracked_def)
  have rdy: "x \<in> set (mshr_current_response t) \<longleftrightarrow>
      (if x = b then mshr_pending t b \<noteq> [] else x \<in> set (mshr_current_response ?t))" for x
    using n(2,5) d by auto
  show ?thesis
  proof -
    have x: "\<forall>q e. c_extra (as_cache s) q = Some e \<longrightarrow> live s q \<and> ex_valid e \<and> mshr_probe (ex_block_addr e) t \<and>
        ex_block_addr e \<notin> set (mshr_current_response t)"
      using s ne unfolding tracked_def pr rdy by simp
    have y: "\<forall>b. mshr_probe b t \<longrightarrow> b \<in> set (mshr_current_response t) \<or>
        (\<exists>r e. c_extra (as_cache s) r = Some e \<and> ex_block_addr e = b)"
      using s unfolding tracked_def pr rdy by simp
    show ?thesis
      using s n(1) x y unfolding tracked_def by (simp add: c')
  qed
qed

lemma cache_cycle_spec:
  assumes "cache_cycle pf ms c = Some (sent, c')"
  shows "c_config c' = c_config c \<and> c_mshrs c' = c_mshrs c \<and> c_extra c' = c_extra c \<and>
    c_miss_queue c = (case sent of Some r \<Rightarrow> [r] | None \<Rightarrow> []) @ c_miss_queue c'"
proof -
  have r: "c_config d' = c_config d \<and> c_mshrs d' = c_mshrs d \<and> c_extra d' = c_extra d \<and> c_miss_queue d' = c_miss_queue d"
    if "replenish_port_bandwidth d = Some d'" for d d'
    using that by (simp add: replenish_port_bandwidth_def bind_Some_iff Let_def) auto
  show ?thesis
    using assms by (auto simp: cache_cycle_def bind_Some_iff Let_def dest!: r split: list.splits if_splits)
qed

lemma tracked_cycle:
  "tracked s \<Longrightarrow> cache_cycle pf (as_store s) (as_cache s) = Some (sent, c') \<Longrightarrow> tracked (s\<lparr>as_cache := c'\<rparr>)"
  by (drule cache_cycle_spec) (auto simp: tracked_def split: option.splits)

section \<open>The cache over time\<close>

text \<open>
  What can happen to a cache: an access by a request that is not already waiting in it, a cycle, a
  response, a hand-out, and anything the rest of the simulator does to the store that keeps the
  requests the cache still refers to. In a cache whose requests are split into sectors a response is one
  of the pieces, so neither a request that waits in the cache nor one that its miss queue still holds.
\<close>

definition response_ok :: "mf_ref \<Rightarrow> cache \<Rightarrow> bool" where
  "response_ok r c = (m_mshr_type (c_config c) = SECTOR_ASSOC \<longrightarrow>
     \<not> waiting_for_fill r c \<and> r \<notin> set (c_miss_queue c))"

inductive cache_step :: "access_state \<Rightarrow> access_state \<Rightarrow> bool" where
  data: "data_access a r time now s = Some (st, s') \<Longrightarrow> live s r \<Longrightarrow> \<not> waiting_for_fill r (as_cache s) \<Longrightarrow>
    cache_step s s'"
| read_only: "read_only_access a r time s = Some (st, s') \<Longrightarrow> live s r \<Longrightarrow>
    \<not> waiting_for_fill r (as_cache s) \<Longrightarrow> cache_step s s'"
| cycle: "cache_cycle port_full (as_store s) (as_cache s) = Some (sent, c') \<Longrightarrow>
    cache_step s (s\<lparr>as_cache := c'\<rparr>)"
| fill: "response_ok r (as_cache s) \<Longrightarrow> cache_fill r time s = Some s' \<Longrightarrow> cache_step s s'"
| hand_out: "cache_next_access (as_cache s) = Some (r, c') \<Longrightarrow> cache_step s (s\<lparr>as_cache := c'\<rparr>)"
| others: "as_cache s' = as_cache s \<Longrightarrow> ms_ok (as_store s') \<Longrightarrow>
    \<forall>r. r \<in> set (c_miss_queue (as_cache s)) \<or> waiting_for_fill r (as_cache s) \<longrightarrow> live s' r \<Longrightarrow>
    cache_step s s'"

inductive_cases cache_stepE: "cache_step s s'"

abbreviation queue_ok :: "access_state \<Rightarrow> bool" where
  "queue_ok s \<equiv> length (c_miss_queue (as_cache s)) \<le> unat (m_miss_queue_size (c_config (as_cache s)))"

lemma bounded_run_keeps: "bounded_run s s' \<Longrightarrow> tracked s \<Longrightarrow> queue_ok s \<Longrightarrow> tracked s' \<and> queue_ok s'"
  by (auto simp: bounded_run_def dest: core_run_frame tracked_run)

text \<open>A piece of a split request is counted and deleted; the request it belongs to goes on waiting.\<close>

lemma collect_sector_keeps:
  assumes "collect_sector r s = Some (whole, s')" "response_ok r (as_cache s)" "tracked s" "queue_ok s"
  shows "tracked s' \<and> queue_ok s'"
proof (cases "m_mshr_type (c_config (as_cache s)) = SECTOR_ASSOC")
  case False
  then show ?thesis using assms by (simp add: collect_sector_def)
next
  case True
  obtain orig e ms where e: "c_extra (as_cache s) orig = Some e" "mf_delete r (as_store s) = Some ms" and
    s': "s' = (upd_cache (\<lambda>c. c\<lparr>c_extra := (c_extra c)(orig \<mapsto> e\<lparr>ex_pending_read := ex_pending_read e - 1\<rparr>)\<rparr>) s)\<lparr>as_store := ms\<rparr>"
    using assms(1) True by (auto simp: collect_sector_def bind_Some_iff Let_def)
  have r: "c_extra (as_cache s) r = None" "r \<notin> set (c_miss_queue (as_cache s))"
    using assms(2) True by (simp_all add: response_ok_def waiting_for_fill_def)
  have heap: "ms_heap ms = (ms_heap (as_store s))(r := None)" using e(2) by (auto simp: mf_delete_def bind_Some_iff)
  have c: "c_mshrs (as_cache s') = c_mshrs (as_cache s)" "c_miss_queue (as_cache s') = c_miss_queue (as_cache s)"
    "c_config (as_cache s') = c_config (as_cache s)" "as_store s' = ms"
    "c_extra (as_cache s') = (c_extra (as_cache s))(orig \<mapsto> e\<lparr>ex_pending_read := ex_pending_read e - 1\<rparr>)"
    by (simp_all add: s' upd_cache_def)
  have same: "(\<exists>f. c_extra (as_cache s') q = Some f \<and> ex_block_addr f = b \<and> ex_valid f = v) \<longleftrightarrow>
      (\<exists>f. c_extra (as_cache s) q = Some f \<and> ex_block_addr f = b \<and> ex_valid f = v)" for q b v
    using e(1) by (auto simp: c(5))
  have old: "\<exists>g. c_extra (as_cache s) q = Some g \<and> ex_block_addr g = ex_block_addr f \<and> ex_valid g = ex_valid f"
    if "c_extra (as_cache s') q = Some f" for q f
    using that same[of q "ex_block_addr f" "ex_valid f"] by blast
  have live': "live s' q" if "live s q" "q \<noteq> r" for q using that by (simp add: c(4) heap)
  have "own_blocks (c_extra (as_cache s'))"
    using assms(3) old unfolding tracked_def own_blocks_def by metis
  moreover have "live s' q \<and> ex_valid f \<and> mshr_probe (ex_block_addr f) (c_mshrs (as_cache s)) \<and>
      ex_block_addr f \<notin> set (mshr_current_response (c_mshrs (as_cache s)))" if x: "c_extra (as_cache s') q = Some f" for q f
  proof -
    obtain g where g: "c_extra (as_cache s) q = Some g" "ex_block_addr g = ex_block_addr f" "ex_valid g = ex_valid f"
      using old[OF x] by blast
    then have "q \<noteq> r" using r(1) by auto
    then show ?thesis using assms(3) g live' unfolding tracked_def by metis
  qed
  moreover have "ms_ok (as_store s')" using assms(3) e(2) by (auto simp: c(4) tracked_def intro: ms_ok_delete)
  moreover have "\<forall>q \<in> set (c_miss_queue (as_cache s')). live s' q"
    unfolding c(2)
  proof
    fix q assume q: "q \<in> set (c_miss_queue (as_cache s))"
    then have "q \<noteq> r" "live s q" using assms(3) r(2) unfolding tracked_def by blast+
    then show "live s' q" using live' by blast
  qed
  moreover have "b \<in> set (mshr_current_response (c_mshrs (as_cache s))) \<or>
      (\<exists>q f. c_extra (as_cache s') q = Some f \<and> ex_block_addr f = b)" if "mshr_probe b (c_mshrs (as_cache s))" for b
  proof -
    have "b \<in> set (mshr_current_response (c_mshrs (as_cache s))) \<or>
        (\<exists>q f. c_extra (as_cache s) q = Some f \<and> ex_block_addr f = b)"
      using assms(3) that unfolding tracked_def by blast
    then show ?thesis using same[of _ b] by blast
  qed
  moreover have "mshr_wf (c_mshrs (as_cache s))" using assms(3) by (simp add: tracked_def)
  ultimately have "tracked s'" unfolding tracked_def c(1) by blast
  then show ?thesis using assms(4) by (simp only: c(2,3))
qed

lemma cache_fill_keeps:
  assumes "cache_fill r time s = Some s'" "response_ok r (as_cache s)" "tracked s" "queue_ok s"
  shows "tracked s' \<and> queue_ok s'"
proof -
  obtain whole s1 where s1: "collect_sector r s = Some (whole, s1)"
    and rest: "(case whole of None \<Rightarrow> Some s1 | Some r \<Rightarrow> fill_request r time s1) = Some s'"
    using assms(1) by (auto simp: cache_fill_def bind_Some_iff)
  note ok = collect_sector_keeps[OF s1 assms(2-4)]
  show ?thesis
  proof (cases whole)
    case None
    then show ?thesis using rest ok by simp
  next
    case (Some q)
    then have f: "fill_request q time s1 = Some s'" using rest by simp
    then show ?thesis using tracked_fill[OF conjunct1[OF ok] f] fill_request_spec[OF f] ok by auto
  qed
qed

lemma cache_step_keeps:
  assumes "cache_step s s'" "tracked s" "queue_ok s"
  shows "tracked s' \<and> queue_ok s'"
  using assms
proof (induction rule: cache_step.induct)
  case (data a r time now s st s')
  then show ?case
    using bounded_run_keeps bounded_data_access by (simp add: waiting_for_fill_def) blast
next
  case (read_only a r time s st s')
  then show ?case
    using bounded_run_keeps bounded_read_only_access by (simp add: waiting_for_fill_def) blast
next
  case (cycle port_full s sent c')
  then show ?case using tracked_cycle cache_cycle_spec[OF cycle(1)] by (cases sent) auto
next
  case (fill s r time s')
  show ?case by (rule cache_fill_keeps[OF fill(2,1,3,4)])
next
  case (hand_out s r c')
  then show ?case using tracked_next by (auto simp: cache_next_access_def bind_Some_iff)
next
  case (others s' s)
  then show ?case by (auto simp: tracked_def waiting_for_fill_def)
qed

lemma new_cache_tracked:
  assumes "baseline_cache_new cfg mapping st wa wb al = Some (as_cache s)" "ms_ok (as_store s)"
  shows "tracked s \<and> queue_ok s"
proof -
  have "c_mshrs (as_cache s) = mshr_table_new (m_mshr_entries cfg) (m_mshr_max_merge cfg) \<and>
      c_miss_queue (as_cache s) = [] \<and> c_extra (as_cache s) = Map.empty"
    using assms(1) by (auto simp: baseline_cache_new_def bind_Some_iff dest!: sym[of _ "as_cache s"])
  then show ?thesis
    using assms(2)
    by (simp add: tracked_def own_blocks_def) (simp add: mshr_table_new_def mshr_probe_def mshr_find_def)
qed

section \<open>Properties\<close>

text \<open>
  C13: a refused request leaves no trace. Whatever the write policy and the reason, when an access of
  a data cache returns \<open>RESERVATION_FAIL\<close> the tags, the miss registers, the miss queue, the waiting
  requests, the ports, the requests themselves and the event list are unchanged; only the statistics
  differ. The caller can therefore simply try again.
\<close>

theorem refused_access_leaves_no_trace:
  assumes "data_access addr r time now s = Some (RESERVATION_FAIL, s')"
  shows "as_store s' = as_store s \<and> as_events s' = as_events s \<and>
    (\<exists>st. as_cache s' = (as_cache s)\<lparr>c_stats := st\<rparr>)"
  using refused_data_access[OF assms] by (simp add: only_stats_def)

text \<open>
  C3: the life of a cache, of either kind of miss registers: \<open>ASSOC\<close>, where a response fills the request
  that waits for it, and \<open>SECTOR_ASSOC\<close>, where the responses are the sectors of a request, counted until
  the last one is there. From a new cache, under any interleaving of accesses by requests that do not
  already wait in it, cycles, responses (in a sector cache only pieces that are not themselves queued or
  waiting there), hand-outs, and changes by the rest of the simulator that keep the requests the cache
  refers to: the miss queue never exceeds its size, the miss registers stay within their two limits, and
  every block with an entry in them is either ready or waited for by exactly one outstanding request,
  never both.
\<close>

theorem every_miss_has_one_request:
  assumes "baseline_cache_new cfg mapping st wa wb al = Some (as_cache s0)" "ms_ok (as_store s0)"
    and "cache_step\<^sup>*\<^sup>* s0 s"
  shows "length (c_miss_queue (as_cache s)) \<le> unat (m_miss_queue_size (c_config (as_cache s))) \<and>
    mshr_wf (c_mshrs (as_cache s)) \<and>
    (\<forall>b. let ready = b \<in> set (mshr_current_response (c_mshrs (as_cache s)));
             waits = (\<lambda>r. \<exists>e. c_extra (as_cache s) r = Some e \<and> ex_block_addr e = b)
         in if mshr_probe b (c_mshrs (as_cache s)) then ready \<noteq> (\<exists>!r. waits r) \<and> (ready \<noteq> (\<exists>r. waits r))
            else \<not> ready \<and> \<not> (\<exists>r. waits r))"
proof -
  have "tracked s \<and> queue_ok s"
    using assms(3) new_cache_tracked[OF assms(1,2)]
    by (induction rule: rtranclp_induct) (blast dest: cache_step_keeps)+
  then have t: "tracked s" and q: "queue_ok s" by simp_all
  have "if mshr_probe b (c_mshrs (as_cache s))
      then (b \<in> set (mshr_current_response (c_mshrs (as_cache s)))) \<noteq>
             (\<exists>!r. \<exists>e. c_extra (as_cache s) r = Some e \<and> ex_block_addr e = b) \<and>
           (b \<in> set (mshr_current_response (c_mshrs (as_cache s)))) \<noteq>
             (\<exists>r e. c_extra (as_cache s) r = Some e \<and> ex_block_addr e = b)
      else b \<notin> set (mshr_current_response (c_mshrs (as_cache s))) \<and>
        \<not> (\<exists>r e. c_extra (as_cache s) r = Some e \<and> ex_block_addr e = b)" for b
  proof -
    have "\<not> (b \<in> set (mshr_current_response (c_mshrs (as_cache s))) \<and>
        (\<exists>r e. c_extra (as_cache s) r = Some e \<and> ex_block_addr e = b))"
      using t unfolding tracked_def by blast
    moreover have "mshr_probe b (c_mshrs (as_cache s)) \<longrightarrow> b \<in> set (mshr_current_response (c_mshrs (as_cache s))) \<or>
        (\<exists>r e. c_extra (as_cache s) r = Some e \<and> ex_block_addr e = b)"
      using t unfolding tracked_def by blast
    moreover have "\<not> mshr_probe b (c_mshrs (as_cache s)) \<longrightarrow> b \<notin> set (mshr_current_response (c_mshrs (as_cache s))) \<and>
        \<not> (\<exists>r e. c_extra (as_cache s) r = Some e \<and> ex_block_addr e = b)"
      using t unfolding tracked_def mshr_wf_def by blast
    moreover have "(\<exists>!r. \<exists>e. c_extra (as_cache s) r = Some e \<and> ex_block_addr e = b) \<longleftrightarrow>
        (\<exists>r e. c_extra (as_cache s) r = Some e \<and> ex_block_addr e = b)"
      using t unfolding tracked_def own_blocks_def by blast
    ultimately show ?thesis by simp blast
  qed
  then show ?thesis using t q by (auto simp: Let_def tracked_def)
qed

text \<open>What a read miss that was accepted did to the cache.\<close>

lemma read_miss_steps:
  assumes "data_access a r time now s = Some (MISS, s')" "deref r (as_store s) = Some mf" "\<not> get_is_write mf"
  obtains i ev t u where
    "send_read_request (cfg_block_addr (c_config (as_cache s)) a) i r time False False s = Some (True, ev, t)"
    "write_back_if_needed ev (\<lambda>_. event WRITE_BACK_REQUEST_SENT) r time now t = Some u" "same_core u s'"
proof -
  from assms obtain p k v0 where
    v0: "process_tag_probe False p a k r time now s = Some (MISS, v0)" "s' = count_outcome mf p MISS v0"
    by (auto simp: data_access_def bind_Some_iff Let_def)
  from v0(1) obtain v c where
    v: "(if p = HIT then rd_hit_base a k r time s
         else if p \<noteq> RESERVATION_FAIL then rd_miss_base a k r time now s
         else do { s \<leftarrow> fail_stats r LINE_ALLOC_FAIL s; Some (p, s) }) = Some (MISS, v)" and
    "\<exists>m. use_data_port m MISS (as_events v) (as_cache v) = Some c" "v0 = v\<lparr>as_cache := c\<rparr>"
    by (auto simp: process_tag_probe_def bind_Some_iff)
  with v0(2) have c: "\<exists>m. use_data_port m MISS (as_events v) (as_cache v) = Some c"
      "s' = count_outcome mf p MISS (v\<lparr>as_cache := c\<rparr>)"
    by simp_all
  have "rd_miss_base a k r time now s = Some (MISS, v)"
    using v by (auto simp: rd_hit_base_def bind_Some_iff split: if_splits)
  moreover have "same_core v s'"
    using c use_data_port_core same_core_trans count_outcome_core by metis
  ultimately show thesis
    by (auto simp: rd_miss_base_def bind_Some_iff split: if_splits intro: that)
qed

lemma read_miss_pending:
  assumes "data_access addr r time now s = Some (MISS, s')" "tracked s"
    and "deref r (as_store s) = Some mf" "\<not> get_is_write mf" "\<not> waiting_for_fill r (as_cache s)"
  defines "b \<equiv> cfg_mshr_addr (c_config (as_cache s)) (get_addr mf)"
  shows "mshr_pending (c_mshrs (as_cache s')) =
      (mshr_pending (c_mshrs (as_cache s)))(b := mshr_pending (c_mshrs (as_cache s)) b @ [r]) \<and>
    mshr_current_response (c_mshrs (as_cache s')) = mshr_current_response (c_mshrs (as_cache s)) \<and>
    (mshr_pending (c_mshrs (as_cache s)) b = [] \<longrightarrow>
       waiting_for_fill r (as_cache s') \<and> r \<in> set (c_miss_queue (as_cache s')))"
proof -
  from assms(1,3,4) obtain i ev t u where
    t: "send_read_request (cfg_block_addr (c_config (as_cache s)) addr) i r time False False s = Some (True, ev, t)" and
    u: "write_back_if_needed ev (\<lambda>_. event WRITE_BACK_REQUEST_SENT) r time now t = Some u" and s': "same_core u s'"
    by (rule read_miss_steps)
  have wb: "c_mshrs (as_cache u) = c_mshrs (as_cache t) \<and> c_extra (as_cache u) = c_extra (as_cache t) \<and>
      set (c_miss_queue (as_cache t)) \<subseteq> set (c_miss_queue (as_cache u))"
    using write_back_spec[OF u] by (auto simp: writes_back_def Let_def split: option.splits if_splits)
  have wf: "mshr_wf (c_mshrs (as_cache s))" using assms(2) by (simp add: tracked_def)
  show ?thesis
  proof (cases "mshr_probe b (c_mshrs (as_cache s))")
    case True
    then have ne: "mshr_pending (c_mshrs (as_cache s)) b \<noteq> []" using wf_probe[OF wf] by simp
    from send_read_request_merged[OF t assms(3)] True
    obtain m where m: "mshr_add (as_store s) b r (c_mshrs (as_cache s)) = Some m" "c_mshrs (as_cache t) = m"
      by (auto simp: b_def same_core_def)
    from mshr_add_spec[OF wf m(1)] m(2) wb s' ne show ?thesis by (simp add: same_core_def)
  next
    case False
    from send_read_request_new[OF t assms(3)] False
    obtain m where m: "mshr_add (as_store s) b r (c_mshrs (as_cache s)) = Some m" "c_mshrs (as_cache t) = m"
        "c_extra (as_cache t) r \<noteq> None" "r \<in> set (c_miss_queue (as_cache t))"
      by (auto simp: b_def same_core_def)
    from mshr_add_spec[OF wf m(1)] m(2-4) wb s' show ?thesis by (auto simp: same_core_def waiting_for_fill_def)
  qed
qed

text \<open>
  An accepted read miss is never forgotten. When a read returns \<open>MISS\<close>, it is the last of the
  requests waiting for its block, no other request moved and the ready blocks are the same; and if it is the first one, it waits for the
  response itself and is in the miss queue.
\<close>

lemma read_miss_is_registered:
  assumes "data_access addr r time now s = Some (MISS, s')" "tracked s"
    and "deref r (as_store s) = Some mf" "\<not> get_is_write mf" "\<not> waiting_for_fill r (as_cache s)"
  defines "b \<equiv> cfg_mshr_addr (c_config (as_cache s)) (get_addr mf)"
  shows "mshr_pending (c_mshrs (as_cache s')) =
      (mshr_pending (c_mshrs (as_cache s)))(b := mshr_pending (c_mshrs (as_cache s)) b @ [r]) \<and>
    mshr_current_response (c_mshrs (as_cache s')) = mshr_current_response (c_mshrs (as_cache s)) \<and>
    (mshr_pending (c_mshrs (as_cache s)) b = [] \<longrightarrow>
       waiting_for_fill r (as_cache s') \<and> r \<in> set (c_miss_queue (as_cache s')))"
  using read_miss_pending[OF assms(1-5)] unfolding b_def .

text \<open>
  C17: modified data is not lost on a read miss. If the tag access of an accepted read miss evicts a
  modified block from a cache that is not write-through, the last request of the miss queue is a new
  write of the write-back type for exactly the evicted address and its modified bytes.
\<close>

theorem dirty_victim_is_written_back:
  assumes "data_access addr r time now s = Some (MISS, s')"
    and "deref r (as_store s) = Some mf" "\<not> get_is_write mf"
    and "access_wb (cfg_block_addr (c_config (as_cache s)) addr) time mf (c_tags (as_cache s)) = Some (st, j, Some e, ta)"
    and "m_write_policy (c_config (as_cache s)) \<noteq> WRITE_THROUGH"
  shows "\<exists>w f. last (c_miss_queue (as_cache s')) = w \<and> deref w (as_store s') = Some f \<and>
    get_addr f = m_block_addr e \<and> ma_req_size (mf_access f) = m_modified_size e \<and> get_is_write f \<and>
    get_access_type f = c_wrbk_type (as_cache s)"
proof -
  from assms(1-3) obtain i ev t u where
    t: "send_read_request (cfg_block_addr (c_config (as_cache s)) addr) i r time False False s = Some (True, ev, t)" and
    u: "write_back_if_needed ev (\<lambda>_. event WRITE_BACK_REQUEST_SENT) r time now t = Some u" and s': "same_core u s'"
    by (rule read_miss_steps)
  have "ev = Some e"
    using t assms(2,4)
    by (auto simp: send_read_request_def read_tags_def tags_access_wb_def bind_Some_iff Let_def split: if_splits)
  moreover have "c_config (as_cache t) = c_config (as_cache s) \<and> c_wrbk_type (as_cache t) = c_wrbk_type (as_cache s)"
    using send_read_request_merged[OF t assms(2)] send_read_request_new[OF t assms(2)]
    by (cases "mshr_probe (mshr_block s mf) (c_mshrs (as_cache s))") (auto simp: same_core_def)
  ultimately have "writes_back t e (event WRITE_BACK_REQUEST_SENT) u"
    using write_back_spec[OF u] assms(5) by simp
  then show ?thesis
    using s' \<open>c_config (as_cache t) = _ \<and> _\<close> by (auto simp: writes_back_def Let_def same_core_def deref_heap)
qed

section \<open>Witnesses\<close>

definition simple_memory :: memory_config where
  "simple_memory = \<lparr>mc_address_mapping = addr_map_new, mc_icnt_flit_size = 32\<rparr>"

definition small_cache :: cache where
  "small_cache = \<lparr>c_tags = small_array, c_mshrs = mshr_table_new 4 2, c_miss_queue = [],
     c_miss_queue_status = IN_L1D_MISS_QUEUE, c_extra = Map.empty, c_stats = cache_stats_new,
     c_data_port_occupied_cycles = 0, c_fill_port_occupied_cycles = 0, c_wr_alloc_type = L2_WR_ALLOC_R,
     c_wrbk_type = L2_WRBK_ACC, c_allocator = Partition_alloc simple_memory\<rparr>"

definition start_state :: access_state where
  "start_state = \<lparr>as_cache = small_cache, as_store = one_fetch, as_events = []\<rparr>"

lemma start_state_simps [simp]:
  "as_store start_state = one_fetch" "as_events start_state = []"
  "c_tags (as_cache start_state) = small_array" "c_mshrs (as_cache start_state) = mshr_table_new 4 2"
  "c_miss_queue (as_cache start_state) = []" "c_extra (as_cache start_state) = Map.empty"
  "c_stats (as_cache start_state) = cache_stats_new"
  "c_allocator (as_cache start_state) = Partition_alloc simple_memory"
  "c_wrbk_type (as_cache start_state) = L2_WRBK_ACC"
  by (simp_all add: start_state_def small_cache_def)

lemma small_cache_new:
  "baseline_cache_new small_config None IN_L1D_MISS_QUEUE L2_WR_ALLOC_R L2_WRBK_ACC (Partition_alloc simple_memory)
    = Some (as_cache start_state)"
  by (simp add: baseline_cache_new_def start_state_def small_cache_def small_array_def tag_array_new_def
      get_max_num_lines_def Let_def)

abbreviation the_read :: mem_fetch where
  "the_read \<equiv> sample_fetch (sample_access GLOBAL_ACC_R False)"

lemma one_fetch_read [simp]: "deref 1 one_fetch = Some the_read" "deref (Suc 0) one_fetch = Some the_read"
  by (simp_all add: one_fetch_def deref_def)

lemma one_fetch_ok: "ms_ok one_fetch"
  by (simp add: ms_ok_def one_fetch_def)

lemma the_read_simps [simp]:
  "get_addr the_read = 0x1000" "\<not> get_is_write the_read" "get_access_sector_mask the_read = 1"
  "mf_data_size the_read = 32" "get_access_type the_read = GLOBAL_ACC_R" "\<not> isatomic the_read"
  by (simp_all add: sample_fetch_def sample_access_def get_addr_def get_is_write_def get_access_sector_mask_def
      get_access_type_def isatomic_def no_inst_def)

lemma small_addresses [simp]:
  "cfg_block_addr small_config 0x1000 = 0x1000" "cfg_mshr_addr small_config 0x1000 = 0x1000"
  "get_atom_sz small_config = Some 128"
  by (simp_all add: cfg_block_addr_def cfg_mshr_addr_def get_atom_sz_def)

lemma small_probe:
  "probe_mf 0x1000 the_read True small_array = Some (MISS, Some 1)"
  by (simp add: probe_mf_def probe_def ta_set_index_def Let_def match_line_def note_candidate_def
      line_cache_block_new_def cfg_tag_def)

text \<open>The state with three requests in the miss queue, one short of full.\<close>

definition crowded :: access_state where
  "crowded = upd_cache (\<lambda>c. c\<lparr>c_miss_queue := [0, 0, 0]\<rparr>) start_state"

lemma crowded_refuses: "\<exists>s'. data_access 0x1000 1 5 7 crowded = Some (RESERVATION_FAIL, s')"
  by (simp add: data_access_def crowded_def Let_def small_probe process_tag_probe_def rd_miss_base_def
      miss_queue_full_def fail_stats_def use_data_port_def)

theorem refused_access_leaves_no_trace_witness:
  "\<exists>s'. data_access 0x1000 1 5 7 crowded = Some (RESERVATION_FAIL, s') \<and>
    c_miss_queue (as_cache s') = [0, 0, 0] \<and> c_mshrs (as_cache s') = mshr_table_new 4 2"
proof -
  obtain s' where s': "data_access 0x1000 1 5 7 crowded = Some (RESERVATION_FAIL, s')"
    using crowded_refuses by blast
  from refused_access_leaves_no_trace[OF s'] s' show ?thesis by (auto simp: crowded_def)
qed

lemma use_data_port_total: "m_data_port_width (c_config c) \<noteq> 0 \<Longrightarrow> use_data_port mf st evs c \<noteq> None"
  by (auto simp: use_data_port_def Let_def split: cache_request_status.splits prod.splits)

text \<open>A read miss of the new cache.\<close>

lemma first_miss: "\<exists>s'. data_access 0x1000 1 5 7 start_state = Some (MISS, s')"
proof -
  obtain ta where ta: "access_wb 0x1000 5 the_read small_array = Some (MISS, Some 1, None, ta)"
    using small_access by blast
  then have cfg: "ta_config ta = small_config" using access_meets_spec[OF ta] by simp
  have t: "read_tags False 0x1000 5 1 1 start_state =
      Some (1, None, upd_cache (\<lambda>c. c\<lparr>c_tags := ta\<rparr>) start_state)"
    using ta by (simp add: read_tags_def tags_access_wb_def)
  obtain t where "send_read_request 0x1000 1 1 5 False False start_state = Some (True, None, t)"
      "deref 1 (as_store t) \<noteq> None" "c_config (as_cache t) = small_config"
    by (simp add: send_read_request_def Let_def t[simplified] cfg mshr_probe_def mshr_full_def mshr_find_def mshr_table_new_def
        mshr_add_step_def mshr_add_def mshr_index_def mshr_set_def mshr_entry_new_def update_fetch_def mf_update_def
        one_fetch_def deref_def)
  moreover from this(2) obtain mf where "deref 1 (as_store t) = Some mf" by blast
  moreover obtain c where "use_data_port mf MISS (as_events t) (as_cache t) = Some c"
    using use_data_port_total[of "as_cache t"] calculation(3) by fastforce
  ultimately show ?thesis
    by (simp add: data_access_def Let_def small_probe process_tag_probe_def rd_miss_base_def miss_queue_full_def
        write_back_if_needed_def)
qed

lemma start_tracked: "tracked start_state"
  using new_cache_tracked[OF small_cache_new] one_fetch_ok by simp

theorem every_miss_has_one_request_witness:
  "\<exists>s. cache_step\<^sup>*\<^sup>* start_state s \<and> mshr_wf (c_mshrs (as_cache s)) \<and> mshr_probe 0x1000 (c_mshrs (as_cache s)) \<and>
    (\<exists>r e. c_extra (as_cache s) r = Some e \<and> ex_block_addr e = 0x1000)"
proof -
  obtain s where s: "data_access 0x1000 1 5 7 start_state = Some (MISS, s)" using first_miss by blast
  then have "cache_step start_state s"
    by (rule cache_step.data) (simp_all add: waiting_for_fill_def one_fetch_def)
  then have r: "cache_step\<^sup>*\<^sup>* start_state s" ..
  note all = every_miss_has_one_request[OF small_cache_new _ r, simplified, OF one_fetch_ok]
  from read_miss_pending[OF s start_tracked _ the_read_simps(2)]
  have p: "mshr_pending (c_mshrs (as_cache s)) 0x1000 = [1]" and n: "mshr_current_response (c_mshrs (as_cache s)) = []"
    by (simp_all add: waiting_for_fill_def) (simp add: mshr_table_new_def)
  from all have "mshr_wf (c_mshrs (as_cache s))" by simp
  moreover from this p have "mshr_probe 0x1000 (c_mshrs (as_cache s))" by (simp add: wf_probe)
  ultimately show ?thesis
    using all r n by (auto simp: Let_def dest!: spec[of _ "0x1000"])
qed

lemma read_miss_is_registered_witness:
  "\<exists>s'. data_access 0x1000 1 5 7 start_state = Some (MISS, s') \<and>
    mshr_pending (c_mshrs (as_cache s')) 0x1000 = [1] \<and> waiting_for_fill 1 (as_cache s')"
proof -
  obtain s' where s': "data_access 0x1000 1 5 7 start_state = Some (MISS, s')" using first_miss by blast
  from read_miss_is_registered[OF s' start_tracked _ the_read_simps(2)] s' show ?thesis
    by (auto simp: waiting_for_fill_def)
qed

text \<open>Both lines of the set are modified, so the miss has to evict one.\<close>

definition dirty_state :: access_state where
  "dirty_state = upd_cache (\<lambda>c. c\<lparr>c_tags := small_array\<lparr>ta_lines := replicate 8 (Line (line_cache_block_new
     \<lparr>lb_tag := 0x9900, lb_block_addr := 0x9900, lb_status := MODIFIED\<rparr>))\<rparr>\<rparr>) start_state"

lemma dirty_state_simps [simp]:
  "as_store dirty_state = one_fetch" "c_config (as_cache dirty_state) = small_config"
  "c_mshrs (as_cache dirty_state) = mshr_table_new 4 2" "c_miss_queue (as_cache dirty_state) = []"
  "c_extra (as_cache dirty_state) = Map.empty" "c_wrbk_type (as_cache dirty_state) = L2_WRBK_ACC"
  "c_allocator (as_cache dirty_state) = Partition_alloc simple_memory"
  "c_tags (as_cache dirty_state) = small_array\<lparr>ta_lines := replicate 8 (Line (line_cache_block_new
     \<lparr>lb_tag := 0x9900, lb_block_addr := 0x9900, lb_status := MODIFIED\<rparr>))\<rparr>"
  by (simp_all add: dirty_state_def)

lemma dirty_access:
  "\<exists>ta. access_wb 0x1000 5 the_read (c_tags (as_cache dirty_state)) =
     Some (MISS, Some 0, Some \<lparr>m_block_addr = 0x9900, m_modified_size = 128\<rparr>, ta)"
  by (simp add: access_wb_def probe_mf_def probe_def ta_set_index_def Let_def match_line_def
      note_candidate_def line_time_def line_cache_block_new_def cfg_tag_def with_line_def)

lemma alloc_simple: "\<exists>w ms'. alloc_fetch (Partition_alloc simple_memory) a ty sz True now ms = Some (w, ms')"
  by (simp add: alloc_fetch_def mem_fetch_new_def decode_addr_def draws_def addrdec_tlx_def tlx_fields_def
      partition_address_def simple_memory_def addr_map_new_def Let_def)

lemma dirty_miss: "\<exists>s'. data_access 0x1000 1 5 7 dirty_state = Some (MISS, s')"
proof -
  let ?e = "\<lparr>m_block_addr = 0x9900, m_modified_size = 128\<rparr>"
  obtain ta where ta: "access_wb 0x1000 5 the_read (c_tags (as_cache dirty_state)) = Some (MISS, Some 0, Some ?e, ta)"
    using dirty_access by blast
  then have cfg: "ta_config ta = small_config" using access_meets_spec[OF ta] by simp
  have p: "probe_mf 0x1000 the_read True (c_tags (as_cache dirty_state)) = Some (MISS, Some 0)"
    by (simp add: probe_mf_def probe_def ta_set_index_def Let_def match_line_def note_candidate_def line_time_def
        line_cache_block_new_def cfg_tag_def)
  have t: "read_tags False 0x1000 5 0 1 dirty_state =
      Some (0, Some ?e, upd_cache (\<lambda>c. c\<lparr>c_tags := ta\<rparr>) dirty_state)"
    using ta by (simp add: read_tags_def tags_access_wb_def del: dirty_state_simps(8))
  obtain u where u: "send_read_request 0x1000 0 1 5 False False dirty_state = Some (True, Some ?e, u)"
      "deref 1 (as_store u) \<noteq> None" "c_config (as_cache u) = small_config"
      "c_allocator (as_cache u) = Partition_alloc simple_memory" "ms_next (as_store u) = 2"
    by (simp add: send_read_request_def Let_def t[simplified] cfg mshr_probe_def mshr_full_def mshr_find_def mshr_table_new_def
        mshr_add_step_def mshr_add_def mshr_index_def mshr_set_def mshr_entry_new_def update_fetch_def mf_update_def
        one_fetch_def deref_def)
  obtain w ms where w: "alloc_fetch (Partition_alloc simple_memory) 0x9900 (c_wrbk_type (as_cache u)) 128 True 7 (as_store u)
      = Some (w, ms)" using alloc_simple by blast
  from alloc_fetch_spec[OF w] u(2,5) obtain f mf where "ms_heap ms w = Some f" "ms_heap ms 1 = Some mf" "w = 2"
    by (auto simp: deref_heap)
  then obtain v where v: "write_back_if_needed (Some ?e) (\<lambda>_. event WRITE_BACK_REQUEST_SENT) 1 5 7 u = Some v"
      "ms_heap (as_store v) 1 = Some mf" "c_config (as_cache v) = small_config"
    using w u(3,4)
    by (simp add: write_back_if_needed_def send_write_back_def send_write_request_def Let_def deref_heap
        update_fetch_def mf_update_def)
  moreover obtain c where "use_data_port mf MISS (as_events v) (as_cache v) = Some c"
    using use_data_port_total[of "as_cache v"] v(3) by fastforce
  ultimately show ?thesis
    using p u(1)
    by (simp add: data_access_def Let_def process_tag_probe_def rd_miss_base_def miss_queue_full_def deref_heap
        del: dirty_state_simps(8) one_fetch_read add: one_fetch_read[unfolded deref_heap])
qed

theorem dirty_victim_is_written_back_witness:
  "\<exists>s' w f. data_access 0x1000 1 5 7 dirty_state = Some (MISS, s') \<and> last (c_miss_queue (as_cache s')) = w \<and>
    deref w (as_store s') = Some f \<and> get_addr f = 0x9900 \<and> ma_req_size (mf_access f) = 128 \<and>
    get_is_write f \<and> get_access_type f = L2_WRBK_ACC"
proof -
  obtain s' where s': "data_access 0x1000 1 5 7 dirty_state = Some (MISS, s')" using dirty_miss by blast
  obtain ta where "access_wb 0x1000 5 the_read (c_tags (as_cache dirty_state)) =
      Some (MISS, Some 0, Some \<lparr>m_block_addr = 0x9900, m_modified_size = 128\<rparr>, ta)"
    using dirty_access by blast
  with dirty_victim_is_written_back[OF s', of the_read] s' show ?thesis
    by (simp del: dirty_state_simps(8))
qed

end
