(* ===== verification/DramSched.thy ===== *)
theory DramSched
  imports MemFetch "HOL-Library.Multiset"
begin

text \<open>
  The requests of a DRAM channel (\<open>dram_req_t\<close>), the DRAM part of \<open>memory_config\<close> with the values
  its \<open>init\<close> derives, and the first-ready first-come-first-served scheduler of \<open>dram_sched.cc\<close>.

  A \<open>dram_req_t\<close> is a heap object that the scheduler, a bank and the data queue point to, so the
  requests live in a store of their own. A list iterator kept in a bin points to a list node that
  holds such a pointer; every request is added once, so the iterator is the request's reference. A
  pointer \<open>m_last_row[bank]\<close> into a map of bins is the key of the bin. An array with one entry per
  bank is a function, and the operations check the bank against the number of banks.
\<close>

section \<open>Configuration\<close>

datatype bank_index_function =
  LINEAR_BK_INDEX | BITWISE_XORING_BK_INDEX | IPOLY_BK_INDEX | CUSTOM_BK_INDEX

datatype bank_grp_bits_position = HIGHER_BITS | LOWER_BITS

datatype dram_ctrl_t = DRAM_FIFO | DRAM_FRFCFS

record dram_config =
  nbk :: u32
  nbkgrp :: u32
  bk_tag_length :: u32
  tCCD :: u32
  tCCDL :: u32
  tRTPL :: u32
  tRRD :: u32
  tRCD :: u32
  tRCDWR :: u32
  tRAS :: u32
  tRP :: u32
  tRC :: u32
  tCDLR :: u32
  tWR :: u32
  CL :: u32
  WL :: u32
  BL :: u32
  tRTW :: u32
  tWTR :: u32
  tWTP :: u32
  busW :: u32
  gpu_n_mem_per_ctrlr :: u32
  data_command_freq_ratio :: u32
  dram_atom_size :: u32
  elimnate_rw_turnaround :: bool
  dual_bus_interface :: bool
  scheduler_type :: dram_ctrl_t
  dram_bnk_indexing_policy :: bank_index_function
  dram_bnkgrp_indexing_policy :: bank_grp_bits_position
  gpgpu_frfcfs_dram_sched_queue_size :: u32
  gpgpu_dram_return_queue_size :: u32
  seperate_write_queue_enabled :: bool
  gpgpu_frfcfs_dram_write_queue_size :: u32
  write_high_watermark :: u32
  write_low_watermark :: u32

text \<open>
  \<open>memory_config::init\<close> after the timing string is read. \<open>halvings\<close> is its loop over
  \<open>nbkt\<close>, which stops at once when the quotient is not a positive \<open>int\<close>.
\<close>

fun halvings :: "nat \<Rightarrow> nat" where
  "halvings n = (if 0 < n then Suc (halvings (n div 2)) else 0)"

declare halvings.simps [simp del]

definition dram_config_init :: "u32 \<Rightarrow> dram_config \<Rightarrow> dram_config option" where
  "dram_config_init n_sub_partition cfg = do {
     ensure (nbkgrp cfg \<noteq> 0);
     let nbkt = sint (nbk cfg div nbkgrp cfg);
     let cfg = cfg\<lparr>bk_tag_length := of_nat (halvings (nat nbkt)) - 1\<rparr>;
     let cfg = cfg\<lparr>tRCDWR := tRCD cfg - (WL cfg + 1)\<rparr>;
     ensure (data_command_freq_ratio cfg \<noteq> 0);
     let burst = BL cfg div data_command_freq_ratio cfg;
     let cfg = (if elimnate_rw_turnaround cfg then cfg\<lparr>tRTW := 0, tWTR := 0\<rparr>
                else cfg\<lparr>tRTW := CL cfg + burst + 2 - WL cfg, tWTR := WL cfg + burst + tCDLR cfg\<rparr>);
     let cfg = cfg\<lparr>tWTP := WL cfg + burst + tWR cfg\<rparr>;
     let cfg = cfg\<lparr>dram_atom_size := BL cfg * busW cfg * gpu_n_mem_per_ctrlr cfg\<rparr>;
     ensure (0 < n_sub_partition);
     ensure (nbk cfg mod n_sub_partition = 0);
     Some cfg
   }"

section \<open>Requests\<close>

datatype rw_kind = READ | WRITE

record dram_req =
  dr_row :: u32
  dr_col :: u32
  dr_bk :: u32
  dr_nbytes :: u32
  dr_txbytes :: u32
  dr_dqbytes :: u32
  dr_timestamp :: u32
  dr_rw :: rw_kind
  dr_addr :: u64
  dr_insertion_time :: u32
  dr_data :: mf_ref

type_synonym req_ref = nat

record req_store =
  rs_heap :: "req_ref \<rightharpoonup> dram_req"
  rs_next :: nat

definition bank_of :: "bank_index_function \<Rightarrow> addrdec \<Rightarrow> u32 \<Rightarrow> u32 option" where
  "bank_of policy tlx banks =
    (case policy of
       LINEAR_BK_INDEX \<Rightarrow> Some (tlx_bk tlx)
     | BITWISE_XORING_BK_INDEX \<Rightarrow> do {
         let bk = bitwise_hash_function (ucast (tlx_row tlx)) (tlx_bk tlx) banks;
         ensure (bk < banks);
         Some bk }
     | IPOLY_BK_INDEX \<Rightarrow> do {
         bk \<leftarrow> ipoly_hash_function (ucast (tlx_row tlx)) (tlx_bk tlx) banks;
         ensure (bk < banks);
         Some bk }
     | CUSTOM_BK_INDEX \<Rightarrow> None)"

text \<open>
  The constructor; \<open>sim\<close> and \<open>tot\<close> are the simulator's two cycle counters. The custom policy
  leaves the bank without a value.
\<close>

definition dram_req_new ::
  "mf_ref \<Rightarrow> u32 \<Rightarrow> bank_index_function \<Rightarrow> u64 \<Rightarrow> u64 \<Rightarrow> mem_store \<Rightarrow> dram_req option" where
  "dram_req_new r banks policy sim tot ms = do {
     mf \<leftarrow> deref r ms;
     let tlx = mf_raw_addr mf;
     bk \<leftarrow> bank_of policy tlx banks;
     Some \<lparr>dr_row = tlx_row tlx, dr_col = tlx_col tlx, dr_bk = bk, dr_nbytes = mf_data_size mf,
       dr_txbytes = 0, dr_dqbytes = 0, dr_timestamp = ucast (tot + sim),
       dr_rw = (if get_is_write mf then WRITE else READ), dr_addr = get_addr mf,
       dr_insertion_time = ucast sim, dr_data = r\<rparr>
   }"

definition req_alloc :: "dram_req \<Rightarrow> req_store \<Rightarrow> req_ref \<times> req_store" where
  "req_alloc q rs = (rs_next rs, rs\<lparr>rs_heap := (rs_heap rs)(rs_next rs \<mapsto> q), rs_next := Suc (rs_next rs)\<rparr>)"

definition req_update :: "req_ref \<Rightarrow> (dram_req \<Rightarrow> dram_req) \<Rightarrow> req_store \<Rightarrow> req_store option" where
  "req_update p f rs = do { q \<leftarrow> rs_heap rs p; Some (rs\<lparr>rs_heap := (rs_heap rs)(p \<mapsto> f q)\<rparr>) }"

definition req_delete :: "req_ref \<Rightarrow> req_store \<Rightarrow> req_store option" where
  "req_delete p rs = do { q \<leftarrow> rs_heap rs p; Some (rs\<lparr>rs_heap := (rs_heap rs)(p := None)\<rparr>) }"

section \<open>The scheduler\<close>

datatype memory_mode = READ_MODE | WRITE_MODE

text \<open>
  The three arrays the scheduler keeps for reads, and again for writes: the queue of each bank,
  newest request in front; its bins by row; and the bin being served.
\<close>

record row_queues =
  rq_queue :: "nat \<Rightarrow> req_ref list"
  rq_bins :: "nat \<Rightarrow> (u32 \<rightharpoonup> req_ref list)"
  rq_last_row :: "nat \<Rightarrow> u32 option"

text \<open>What the scheduler counts: its own arrays, and the rows of this channel in \<open>memory_stats_t\<close>.\<close>

record row_stats =
  row_service_timestamp :: "nat \<Rightarrow> u32"
  curr_row_service_time :: "nat \<Rightarrow> u32"
  max_servicetime2samerow :: "nat \<Rightarrow> u32"
  concurrent_row_access :: "nat \<Rightarrow> u32"
  max_conc_access2samerow :: "nat \<Rightarrow> u32"
  num_activates :: "nat \<Rightarrow> u32"
  row_access :: "nat \<Rightarrow> u32"
  access_num :: u64
  read_num :: u64
  write_num :: u64
  hits_num :: u64
  hits_read_num :: u64
  hits_write_num :: u64

record frfcfs =
  fs_config :: dram_config
  m_num_pending :: u32
  m_num_write_pending :: u32
  m_reads :: row_queues
  m_writes :: row_queues
  m_mode :: memory_mode
  m_stats :: row_stats

definition empty_queues :: row_queues where
  "empty_queues = \<lparr>rq_queue = (\<lambda>_. []), rq_bins = (\<lambda>_ _. None), rq_last_row = (\<lambda>_. None)\<rparr>"

definition row_stats_new :: row_stats where
  "row_stats_new = \<lparr>row_service_timestamp = (\<lambda>_. 0), curr_row_service_time = (\<lambda>_. 0),
     max_servicetime2samerow = (\<lambda>_. 0), concurrent_row_access = (\<lambda>_. 0),
     max_conc_access2samerow = (\<lambda>_. 0), num_activates = (\<lambda>_. 0), row_access = (\<lambda>_. 0),
     access_num = 0, read_num = 0, write_num = 0, hits_num = 0, hits_read_num = 0, hits_write_num = 0\<rparr>"

definition frfcfs_new :: "dram_config \<Rightarrow> frfcfs" where
  "frfcfs_new cfg = \<lparr>fs_config = cfg, m_num_pending = 0, m_num_write_pending = 0,
     m_reads = empty_queues, m_writes = empty_queues, m_mode = READ_MODE, m_stats = row_stats_new\<rparr>"

definition queue_push :: "req_ref \<Rightarrow> dram_req \<Rightarrow> row_queues \<Rightarrow> row_queues" where
  "queue_push p q rq =
     (let b = unat (dr_bk q);
          bin = (case rq_bins rq b (dr_row q) of Some l \<Rightarrow> l | None \<Rightarrow> [])
      in rq\<lparr>rq_queue := (rq_queue rq)(b := p # rq_queue rq b),
            rq_bins := (rq_bins rq)(b := (rq_bins rq b)(dr_row q \<mapsto> p # bin))\<rparr>)"

definition req_is_write :: "req_ref \<Rightarrow> req_store \<Rightarrow> mem_store \<Rightarrow> bool option" where
  "req_is_write p rs ms = do {
     q \<leftarrow> rs_heap rs p;
     mf \<leftarrow> deref (dr_data q) ms;
     Some (get_is_write mf)
   }"

definition add_req :: "req_ref \<Rightarrow> req_store \<Rightarrow> mem_store \<Rightarrow> frfcfs \<Rightarrow> frfcfs option" where
  "add_req p rs ms fs = do {
     q \<leftarrow> rs_heap rs p;
     wr \<leftarrow> req_is_write p rs ms;
     ensure (dr_bk q < nbk (fs_config fs));
     (if seperate_write_queue_enabled (fs_config fs) \<and> wr then do {
        ensure (m_num_write_pending fs < gpgpu_frfcfs_dram_write_queue_size (fs_config fs));
        Some (fs\<lparr>m_num_write_pending := m_num_write_pending fs + 1,
                 m_writes := queue_push p q (m_writes fs)\<rparr>) }
      else do {
        ensure (m_num_pending fs < gpgpu_frfcfs_dram_sched_queue_size (fs_config fs));
        Some (fs\<lparr>m_num_pending := m_num_pending fs + 1,
                 m_reads := queue_push p q (m_reads fs)\<rparr>) })
   }"

text \<open>\<open>gpu_sim_cycle\<close> is 64 bits wide and is stored in 32.\<close>

definition data_collection :: "u64 \<Rightarrow> nat \<Rightarrow> row_stats \<Rightarrow> row_stats" where
  "data_collection sim bank st =
     (let st = (if ucast (row_service_timestamp st bank) < sim then
                  (let t = (ucast (sim - ucast (row_service_timestamp st bank)) :: u32)
                   in st\<lparr>curr_row_service_time := (curr_row_service_time st)(bank := t),
                         max_servicetime2samerow := (max_servicetime2samerow st)
                           (bank := (if max_servicetime2samerow st bank < t then t
                                     else max_servicetime2samerow st bank))\<rparr>)
                else st);
          st = st\<lparr>curr_row_service_time := (curr_row_service_time st)(bank := 0),
                  row_service_timestamp := (row_service_timestamp st)(bank := ucast sim)\<rparr>;
          st = (if max_conc_access2samerow st bank < concurrent_row_access st bank
                then st\<lparr>max_conc_access2samerow :=
                          (max_conc_access2samerow st)(bank := concurrent_row_access st bank)\<rparr>
                else st)
      in st\<lparr>concurrent_row_access := (concurrent_row_access st)(bank := 0),
            num_activates := (num_activates st)(bank := num_activates st bank + 1)\<rparr>)"

definition next_mode :: "frfcfs \<Rightarrow> memory_mode" where
  "next_mode fs =
    (let cfg = fs_config fs in
     if seperate_write_queue_enabled cfg then
       (if m_mode fs = READ_MODE \<and> write_high_watermark cfg \<le> m_num_write_pending fs then WRITE_MODE
        else if m_mode fs = WRITE_MODE \<and> m_num_write_pending fs < write_low_watermark cfg then READ_MODE
        else m_mode fs)
     else m_mode fs)"

text \<open>
  The choice of the bin. The result is \<open>None\<close> when the bank's queue is empty, and otherwise the
  row of the bin and whether it counts as a row hit.
\<close>

definition choose_row :: "nat \<Rightarrow> u32 \<Rightarrow> req_store \<Rightarrow> row_queues \<Rightarrow> (u32 \<times> bool) option option" where
  "choose_row bank curr_row rs rq =
    (case rq_last_row rq bank of
       Some row \<Rightarrow> Some (Some (row, True))
     | None \<Rightarrow>
         if rq_queue rq bank = [] then Some None
         else if rq_bins rq bank curr_row = None then do {
           q \<leftarrow> rs_heap rs (last (rq_queue rq bank));
           ensure (rq_bins rq bank (dr_row q) \<noteq> None);
           Some (Some (dr_row q, False)) }
         else Some (Some (curr_row, True)))"

text \<open>Taking the oldest request out of the chosen bin.\<close>

definition take_oldest :: "nat \<Rightarrow> u32 \<Rightarrow> req_store \<Rightarrow> row_queues \<Rightarrow> (req_ref \<times> row_queues) option" where
  "take_oldest bank row rs rq = do {
     bin \<leftarrow> rq_bins rq bank row;
     ensure (bin \<noteq> []);
     let p = last bin;
     q \<leftarrow> rs_heap rs p;
     let rest = butlast bin;
     let rq = rq\<lparr>rq_last_row := (rq_last_row rq)(bank := Some row),
                 rq_queue := (rq_queue rq)(bank := remove1 p (rq_queue rq bank)),
                 rq_bins := (rq_bins rq)(bank := (rq_bins rq bank)(row \<mapsto> rest))\<rparr>;
     Some (p, if rest = [] then
                rq\<lparr>rq_bins := (rq_bins rq)(bank := (rq_bins rq bank)(dr_row q := None)),
                   rq_last_row := (rq_last_row rq)(bank := None)\<rparr>
              else rq)
   }"

definition count_access :: "nat \<Rightarrow> bool \<Rightarrow> bool \<Rightarrow> row_stats \<Rightarrow> row_stats" where
  "count_access bank wr rowhit st =
     (let st = st\<lparr>access_num := access_num st + 1\<rparr>;
          st = (if wr then st\<lparr>write_num := write_num st + 1\<rparr> else st\<lparr>read_num := read_num st + 1\<rparr>);
          st = (if rowhit then
                  (let st = st\<lparr>hits_num := hits_num st + 1\<rparr>
                   in if wr then st\<lparr>hits_write_num := hits_write_num st + 1\<rparr>
                      else st\<lparr>hits_read_num := hits_read_num st + 1\<rparr>)
                else st)
      in st\<lparr>concurrent_row_access := (concurrent_row_access st)(bank := concurrent_row_access st bank + 1),
            row_access := (row_access st)(bank := row_access st bank + 1)\<rparr>)"

definition schedule ::
  "u64 \<Rightarrow> nat \<Rightarrow> u32 \<Rightarrow> req_store \<Rightarrow> mem_store \<Rightarrow> frfcfs \<Rightarrow> (req_ref option \<times> frfcfs) option" where
  "schedule sim bank curr_row rs ms fs = do {
     ensure (bank < unat (nbk (fs_config fs)));
     let fs = fs\<lparr>m_mode := next_mode fs\<rparr>;
     let rq = (if m_mode fs = WRITE_MODE then m_writes fs else m_reads fs);
     choice \<leftarrow> choose_row bank curr_row rs rq;
     (case choice of
        None \<Rightarrow> Some (None, fs)
      | Some (row, rowhit) \<Rightarrow> do {
          let st = (if rowhit then m_stats fs else data_collection sim bank (m_stats fs));
          (p, rq) \<leftarrow> take_oldest bank row rs rq;
          wr \<leftarrow> req_is_write p rs ms;
          let fs = fs\<lparr>m_stats := count_access bank wr rowhit st\<rparr>;
          let fs = (if m_mode fs = WRITE_MODE then fs\<lparr>m_writes := rq\<rparr> else fs\<lparr>m_reads := rq\<rparr>);
          (if seperate_write_queue_enabled (fs_config fs) \<and> wr then do {
             ensure (m_num_write_pending fs \<noteq> 0);
             Some (Some p, fs\<lparr>m_num_write_pending := m_num_write_pending fs - 1\<rparr>) }
           else do {
             ensure (m_num_pending fs \<noteq> 0);
             Some (Some p, fs\<lparr>m_num_pending := m_num_pending fs - 1\<rparr>) }) })
   }"

section \<open>The invariant of the queues\<close>

definition row_of :: "req_store \<Rightarrow> req_ref \<Rightarrow> u32" where
  "row_of rs p = dr_row (the (rs_heap rs p))"

definition bin_of :: "req_store \<Rightarrow> u32 \<Rightarrow> req_ref list \<Rightarrow> req_ref list option" where
  "bin_of rs row ps =
    (let l = filter (\<lambda>p. row_of rs p = row) ps in if l = [] then None else Some l)"

text \<open>
  \<open>queues_ok rs ms wr rq\<close>: every queue holds each request once, the requests exist, \<open>wr\<close> accepts
  their direction, the bins are the queue sorted by row, and the bin being served is not empty.
\<close>

definition queues_ok :: "req_store \<Rightarrow> mem_store \<Rightarrow> (bool \<Rightarrow> bool) \<Rightarrow> row_queues \<Rightarrow> bool" where
  "queues_ok rs ms wr rq = (\<forall>b.
     distinct (rq_queue rq b) \<and>
     (\<forall>p \<in> set (rq_queue rq b). \<exists>q w. rs_heap rs p = Some q \<and> unat (dr_bk q) = b \<and>
        req_is_write p rs ms = Some w \<and> wr w) \<and>
     (\<forall>row. rq_bins rq b row = bin_of rs row (rq_queue rq b)) \<and>
     (\<forall>row. rq_last_row rq b = Some row \<longrightarrow> rq_bins rq b row \<noteq> None))"

definition pending_in :: "dram_config \<Rightarrow> row_queues \<Rightarrow> nat" where
  "pending_in cfg rq = (\<Sum>b < unat (nbk cfg). length (rq_queue rq b))"

definition sched_ok :: "req_store \<Rightarrow> mem_store \<Rightarrow> frfcfs \<Rightarrow> bool" where
  "sched_ok rs ms fs =
    (queues_ok rs ms (\<lambda>w. seperate_write_queue_enabled (fs_config fs) \<longrightarrow> \<not> w) (m_reads fs) \<and>
     queues_ok rs ms (\<lambda>w. seperate_write_queue_enabled (fs_config fs) \<and> w) (m_writes fs) \<and>
     (m_mode fs = WRITE_MODE \<longrightarrow> seperate_write_queue_enabled (fs_config fs)) \<and>
     unat (m_num_pending fs) = pending_in (fs_config fs) (m_reads fs) \<and>
     unat (m_num_write_pending fs) = pending_in (fs_config fs) (m_writes fs))"

lemma queues_okD:
  assumes "queues_ok rs ms wr rq"
  shows "distinct (rq_queue rq b)" "rq_bins rq b row = bin_of rs row (rq_queue rq b)"
    and "rq_last_row rq b = Some row \<Longrightarrow> rq_bins rq b row \<noteq> None"
    and "p \<in> set (rq_queue rq b) \<Longrightarrow> \<exists>q w. rs_heap rs p = Some q \<and> unat (dr_bk q) = b \<and>
      req_is_write p rs ms = Some w \<and> wr w"
  using assms unfolding queues_ok_def by blast+

text \<open>The reference policy on the requests of one bank, oldest first.\<close>

definition pick :: "(req_ref \<Rightarrow> u32) \<Rightarrow> u32 option \<Rightarrow> u32 \<Rightarrow> req_ref list \<Rightarrow> req_ref option" where
  "pick row served curr_row ps =
    (case served of
       Some r \<Rightarrow> List.find (\<lambda>p. row p = r) ps
     | None \<Rightarrow> (case List.find (\<lambda>p. row p = curr_row) ps of
         Some p \<Rightarrow> Some p
       | None \<Rightarrow> (case ps of [] \<Rightarrow> None | p # _ \<Rightarrow> Some p)))"

lemma find_rev_last:
  "filter P xs \<noteq> [] \<Longrightarrow> List.find P (rev xs) = Some (last (filter P xs))"
proof (induction xs rule: rev_induct)
  case (snoc x xs)
  then show ?case by (cases "P x") auto
qed simp

lemma find_rev_None: "filter P xs = [] \<Longrightarrow> List.find P (rev xs) = None"
  by (simp add: find_None_iff filter_empty_conv)

lemma bin_of_Some: "bin_of rs row ps = Some l \<longleftrightarrow> l = filter (\<lambda>p. row_of rs p = row) ps \<and> l \<noteq> []"
  by (auto simp: bin_of_def Let_def)

lemma bin_of_None: "bin_of rs row ps = None \<longleftrightarrow> filter (\<lambda>p. row_of rs p = row) ps = []"
  by (auto simp: bin_of_def Let_def)

lemma butlast_remove1: "distinct xs \<Longrightarrow> xs \<noteq> [] \<Longrightarrow> remove1 (last xs) xs = butlast xs"
  by (cases xs rule: rev_cases) (auto simp: remove1_append)

lemma filter_remove1_other: "\<not> P p \<Longrightarrow> filter P (remove1 p xs) = filter P xs"
  by (induction xs) auto

lemma filter_remove1_same: "filter P (remove1 p xs) = remove1 p (filter P xs)" if "P p"
  using that by (induction xs) auto

lemma filter_remove_last:
  assumes "distinct xs" "filter P xs \<noteq> []"
  shows "filter P (remove1 (last (filter P xs)) xs) = butlast (filter P xs)"
proof -
  have "P (last (filter P xs))" using last_in_set[OF assms(2)] by simp
  then show ?thesis
    by (simp only: filter_remove1_same butlast_remove1[OF distinct_filter[OF assms(1)] assms(2)])
qed

lemma rev_last_hd: "ps \<noteq> [] \<Longrightarrow> rev ps = last ps # rev (butlast ps)"
  by (cases ps rule: rev_cases) auto

section \<open>The operations keep it\<close>

lemma bin_of_insert:
  assumes "rs_heap rs p = Some q"
  shows "bin_of rs row (p # ps) =
    (if row = dr_row q then Some (p # (case bin_of rs row ps of Some l \<Rightarrow> l | None \<Rightarrow> []))
     else bin_of rs row ps)"
  using assms by (auto simp: bin_of_def Let_def row_of_def)

lemma queue_push_ok:
  assumes "queues_ok rs ms wr rq" "rs_heap rs p = Some q" "req_is_write p rs ms = Some w" "wr w"
    and "p \<notin> set (rq_queue rq (unat (dr_bk q)))"
  shows "queues_ok rs ms wr (queue_push p q rq)"
proof -
  let ?b = "unat (dr_bk q)"
  have bins: "rq_bins rq b row = bin_of rs row (rq_queue rq b)" for b row
    using assms(1) by (simp add: queues_ok_def)
  have new: "rq_bins (queue_push p q rq) b row = bin_of rs row (rq_queue (queue_push p q rq) b)" for b row
    by (auto simp: queue_push_def Let_def bins bin_of_insert[OF assms(2)])
  have served: "rq_bins (queue_push p q rq) b row \<noteq> None" if "rq_bins rq b row \<noteq> None" for b row
    using that by (auto simp: queue_push_def Let_def)
  show ?thesis
    unfolding queues_ok_def
  proof (intro allI conjI)
    fix b
    show "distinct (rq_queue (queue_push p q rq) b)"
      using assms(1,5) by (auto simp: queues_ok_def queue_push_def Let_def)
    show "\<forall>x \<in> set (rq_queue (queue_push p q rq) b). \<exists>qq w. rs_heap rs x = Some qq \<and> unat (dr_bk qq) = b \<and>
        req_is_write x rs ms = Some w \<and> wr w"
      using assms(1-4) by (auto simp: queues_ok_def queue_push_def Let_def)
    fix row
    show "rq_bins (queue_push p q rq) b row = bin_of rs row (rq_queue (queue_push p q rq) b)"
      by (rule new)
    show "rq_last_row (queue_push p q rq) b = Some row \<longrightarrow> rq_bins (queue_push p q rq) b row \<noteq> None"
      using served[of b row] queues_okD(3)[OF assms(1), of b row] by (simp add: queue_push_def Let_def)
  qed
qed

text \<open>Taking the oldest request of a bin, in terms of the queue alone.\<close>

lemma take_oldest_ok:
  assumes ok: "queues_ok rs ms wr rq" and bin: "rq_bins rq bank row \<noteq> None"
  obtains p rq' where
    "take_oldest bank row rs rq = Some (p, rq')" "queues_ok rs ms wr rq'"
    "List.find (\<lambda>p. row_of rs p = row) (rev (rq_queue rq bank)) = Some p"
    "p \<in> set (rq_queue rq bank)"
    "rq_queue rq' = (rq_queue rq)(bank := remove1 p (rq_queue rq bank))"
    "rq_last_row rq' = (rq_last_row rq)
       (bank := if \<exists>x \<in> set (remove1 p (rq_queue rq bank)). row_of rs x = row then Some row else None)"
proof -
  let ?P = "\<lambda>p. row_of rs p = row" and ?ps = "rq_queue rq bank"
  let ?l = "filter ?P ?ps"
  have d: "distinct ?ps" and ex: "\<forall>p \<in> set ?ps. \<exists>q w. rs_heap rs p = Some q \<and> unat (dr_bk q) = bank \<and>
      req_is_write p rs ms = Some w \<and> wr w"
    and bins: "\<And>b row. rq_bins rq b row = bin_of rs row (rq_queue rq b)"
    using ok by (auto simp: queues_ok_def)
  have l: "rq_bins rq bank row = Some ?l" "?l \<noteq> []"
    using bin bins[of bank row] by (auto simp: bin_of_def Let_def split: if_splits)
  define p where "p = last ?l"
  have pl: "p \<in> set ?l" unfolding p_def by (rule last_in_set[OF l(2)])
  then have pin: "p \<in> set ?ps" and prow: "row_of rs p = row" by auto
  obtain q where q: "rs_heap rs p = Some q" using ex pin by blast
  have rest: "filter ?P (remove1 p ?ps) = butlast ?l"
    unfolding p_def by (rule filter_remove_last[OF d l(2)])
  have some: "(\<exists>x \<in> set (remove1 p ?ps). row_of rs x = row) = (butlast ?l \<noteq> [])"
    unfolding rest[symmetric] by (auto simp: filter_empty_conv)
  define rq' where "rq' = (let rq1 = rq\<lparr>rq_last_row := (rq_last_row rq)(bank := Some row),
                 rq_queue := (rq_queue rq)(bank := remove1 p ?ps),
                 rq_bins := (rq_bins rq)(bank := (rq_bins rq bank)(row \<mapsto> butlast ?l))\<rparr> in
       if butlast ?l = [] then rq1\<lparr>rq_bins := (rq_bins rq1)(bank := (rq_bins rq1 bank)(dr_row q := None)),
                   rq_last_row := (rq_last_row rq1)(bank := None)\<rparr> else rq1)"
  have qrow: "dr_row q = row" using prow q by (simp add: row_of_def)
  have take: "take_oldest bank row rs rq = Some (p, rq')"
    unfolding take_oldest_def using l q by (simp add: p_def[symmetric] rq'_def Let_def)
  have bins': "rq_bins rq' b r = bin_of rs r (rq_queue rq' b)" for b r
  proof (cases "b = bank")
    case True
    show ?thesis
    proof (cases "r = row")
      case True
      then show ?thesis
        using \<open>b = bank\<close> by (simp add: rq'_def Let_def qrow bin_of_def rest)
    next
      case False
      then have "filter (\<lambda>x. row_of rs x = r) (remove1 p ?ps) = filter (\<lambda>x. row_of rs x = r) ?ps"
        using prow by (intro filter_remove1_other) simp
      then show ?thesis
        using False \<open>b = bank\<close> bins[of bank r] by (simp add: rq'_def Let_def qrow bin_of_def)
    qed
  next
    case False
    then show ?thesis using bins by (simp add: rq'_def Let_def)
  qed
  have last': "rq_last_row rq' b = Some r \<Longrightarrow> rq_bins rq' b r \<noteq> None" for b r
    using queues_okD(3)[OF ok, of b r] by (cases "b = bank") (auto simp: rq'_def Let_def split: if_splits)
  have "queues_ok rs ms wr rq'"
    unfolding queues_ok_def
  proof (intro allI conjI)
    fix b
    show "distinct (rq_queue rq' b)"
      using ok by (auto simp: queues_ok_def rq'_def Let_def distinct_remove1)
    show "\<forall>x \<in> set (rq_queue rq' b). \<exists>q w. rs_heap rs x = Some q \<and> unat (dr_bk q) = b \<and>
        req_is_write x rs ms = Some w \<and> wr w"
      using ok set_remove1_subset[of p ?ps] unfolding queues_ok_def rq'_def Let_def
      by (auto dest!: notin_set_remove1)
  next
    fix b row show "rq_bins rq' b row = bin_of rs row (rq_queue rq' b)" by (rule bins')
  next
    fix b row show "rq_last_row rq' b = Some row \<longrightarrow> rq_bins rq' b row \<noteq> None" using last' by blast
  qed
  moreover have "List.find ?P (rev ?ps) = Some p"
    using find_rev_last[OF l(2)] by (simp add: p_def)
  moreover have "rq_queue rq' = (rq_queue rq)(bank := remove1 p ?ps)"
    by (simp add: rq'_def Let_def)
  moreover have "rq_last_row rq' = (rq_last_row rq)
       (bank := if \<exists>x \<in> set (remove1 p ?ps). row_of rs x = row then Some row else None)"
    unfolding some by (simp add: rq'_def Let_def)
  ultimately show ?thesis using that take pin by blast
qed

text \<open>The choice of the bin together with its oldest request is the reference policy.\<close>

lemma choose_row_ok:
  assumes ok: "queues_ok rs ms wr rq"
  shows "(\<exists>c. choose_row bank curr_row rs rq = Some c \<and>
    (case c of
       None \<Rightarrow> rq_queue rq bank = [] \<and> rq_last_row rq bank = None
     | Some (row, hit) \<Rightarrow> rq_bins rq bank row \<noteq> None \<and>
         pick (row_of rs) (rq_last_row rq bank) curr_row (rev (rq_queue rq bank)) =
         List.find (\<lambda>p. row_of rs p = row) (rev (rq_queue rq bank))))"
proof -
  let ?ps = "rq_queue rq bank"
  have bins: "\<And>b row. rq_bins rq b row = bin_of rs row (rq_queue rq b)"
    and ex: "\<forall>p \<in> set ?ps. \<exists>q. rs_heap rs p = Some q"
    using ok by (auto simp: queues_ok_def) fastforce
  show ?thesis
  proof (cases "rq_last_row rq bank")
    case (Some row)
    then have "rq_bins rq bank row \<noteq> None" by (rule queues_okD(3)[OF ok])
    then show ?thesis using Some by (simp add: choose_row_def pick_def)
  next
    case None
    note served = None
    show ?thesis
    proof (cases "?ps = []")
      case True
      then show ?thesis using served by (simp add: choose_row_def)
    next
      case False
      show ?thesis
      proof (cases "rq_bins rq bank curr_row")
        case (Some l)
        then have "filter (\<lambda>p. row_of rs p = curr_row) ?ps \<noteq> []"
          using bins by (auto simp: bin_of_Some)
        then show ?thesis
          using Some served False by (simp add: choose_row_def pick_def find_rev_last)
      next
        case None
        then have "filter (\<lambda>p. row_of rs p = curr_row) ?ps = []"
          using bins[of bank curr_row] bin_of_None[of rs curr_row ?ps] by simp
        then have miss: "List.find (\<lambda>p. row_of rs p = curr_row) (rev ?ps) = None"
          by (rule find_rev_None)
        obtain q where q: "rs_heap rs (last ?ps) = Some q" using ex False by force
        have row: "row_of rs (last ?ps) = dr_row q" using q by (simp add: row_of_def)
        have ne: "rq_bins rq bank (dr_row q) \<noteq> None"
          using bins[of bank "dr_row q"] row False
          by (auto simp: bin_of_None filter_empty_conv intro!: bexI[of _ "last ?ps"])
        then have "choose_row bank curr_row rs rq = Some (Some (dr_row q, False))"
          using None served False q by (auto simp: choose_row_def)
        moreover have "pick (row_of rs) None curr_row (rev ?ps) = Some (last ?ps)"
          unfolding pick_def option.case miss by (subst rev_last_hd[OF False]) simp
        moreover have "List.find (\<lambda>p. row_of rs p = dr_row q) (rev ?ps) = Some (last ?ps)"
          by (subst rev_last_hd[OF False]) (simp add: row)
        ultimately show ?thesis using ne served by simp
      qed
    qed
  qed
qed

text \<open>Sums over the banks.\<close>

lemma sum_upd_less:
  assumes "finite A" "b \<in> A" "f b \<noteq> (0::nat)"
  shows "(\<Sum>x\<in>A. (f(b := f b - 1)) x) = (\<Sum>x\<in>A. f x) - 1"
  using assms by (simp add: sum.remove[of A b])

lemma pending_remove:
  assumes "rq_queue rq' = (rq_queue rq)(bank := remove1 p (rq_queue rq bank))"
    and "p \<in> set (rq_queue rq bank)" "bank < unat (nbk cfg)"
  shows "pending_in cfg rq' = pending_in cfg rq - 1" "pending_in cfg rq \<noteq> 0"
proof -
  have "length (rq_queue rq bank) \<noteq> 0" using assms(2) by auto
  then have l: "length (remove1 p (rq_queue rq bank)) = length (rq_queue rq bank) - 1"
    using assms(2) by (simp add: length_remove1)
  have "pending_in cfg rq' = (\<Sum>b < unat (nbk cfg).
      ((\<lambda>b. length (rq_queue rq b))(bank := length (rq_queue rq bank) - 1)) b)"
    unfolding pending_in_def by (rule sum.cong) (auto simp: assms(1) l)
  also have "\<dots> = pending_in cfg rq - 1"
    unfolding pending_in_def using assms(2,3) by (intro sum_upd_less) auto
  finally show "pending_in cfg rq' = pending_in cfg rq - 1" .
  show "pending_in cfg rq \<noteq> 0"
    unfolding pending_in_def using assms(2,3) by (auto intro!: bexI[of _ bank])
qed

lemma pending_push:
  assumes "unat (dr_bk q) < unat (nbk cfg)"
  shows "pending_in cfg (queue_push p q rq) = Suc (pending_in cfg rq)"
proof -
  have "{..<unat (nbk cfg)} = insert (unat (dr_bk q)) ({..<unat (nbk cfg)} - {unat (dr_bk q)})"
    using assms by auto
  then show ?thesis
    unfolding pending_in_def
    using assms by (simp add: sum.remove[of _ "unat (dr_bk q)"] queue_push_def Let_def)
qed

text \<open>All pending requests of one set of queues.\<close>

definition waiting :: "row_queues \<Rightarrow> req_ref set" where
  "waiting rq = (\<Union>b. set (rq_queue rq b))"

lemma add_req_ok:
  assumes ok: "sched_ok rs ms fs" and add: "add_req p rs ms fs = Some fs'"
    and fresh: "p \<notin> waiting (m_reads fs)" "p \<notin> waiting (m_writes fs)"
  shows "sched_ok rs ms fs'" "fs_config fs' = fs_config fs"
proof -
  obtain q w where q: "rs_heap rs p = Some q" and w: "req_is_write p rs ms = Some w"
    and b: "dr_bk q < nbk (fs_config fs)"
    using add by (auto simp: add_req_def bind_Some_iff)
  have b': "unat (dr_bk q) < unat (nbk (fs_config fs))" using b by (simp add: word_less_nat_alt)
  have new: "p \<notin> set (rq_queue (m_reads fs) (unat (dr_bk q)))" "p \<notin> set (rq_queue (m_writes fs) (unat (dr_bk q)))"
    using fresh by (auto simp: waiting_def)
  show "sched_ok rs ms fs'"
  proof (cases "seperate_write_queue_enabled (fs_config fs) \<and> w")
    case True
    then have lt: "m_num_write_pending fs < gpgpu_frfcfs_dram_write_queue_size (fs_config fs)"
      and fs': "fs' = fs\<lparr>m_num_write_pending := m_num_write_pending fs + 1, m_writes := queue_push p q (m_writes fs)\<rparr>"
      using add q w b by (auto simp: add_req_def bind_Some_iff)
    show ?thesis
      using ok True unat_suc[OF lt] queue_push_ok[OF _ q w _ new(2)] pending_push[OF b']
      by (simp add: sched_ok_def fs')
  next
    case False
    then have lt: "m_num_pending fs < gpgpu_frfcfs_dram_sched_queue_size (fs_config fs)"
      and fs': "fs' = fs\<lparr>m_num_pending := m_num_pending fs + 1, m_reads := queue_push p q (m_reads fs)\<rparr>"
      using add q w b by (auto simp: add_req_def bind_Some_iff)
    show ?thesis
      using ok False unat_suc[OF lt] queue_push_ok[OF _ q w _ new(1)] pending_push[OF b']
      by (simp add: sched_ok_def fs')
  qed
  show "fs_config fs' = fs_config fs"
    using add by (auto simp: add_req_def bind_Some_iff split: if_splits)
qed

text \<open>What one call of \<open>schedule\<close> does, in terms of the queue it works on.\<close>

definition queue_in_use :: "frfcfs \<Rightarrow> row_queues" where
  "queue_in_use fs = (if next_mode fs = WRITE_MODE then m_writes fs else m_reads fs)"

definition other_queue :: "memory_mode \<Rightarrow> frfcfs \<Rightarrow> row_queues" where
  "other_queue mode fs = (if mode = WRITE_MODE then m_reads fs else m_writes fs)"

lemma next_mode_ok: "sched_ok rs ms fs \<Longrightarrow> next_mode fs = WRITE_MODE \<Longrightarrow> seperate_write_queue_enabled (fs_config fs)"
  by (auto simp: sched_ok_def next_mode_def Let_def split: if_splits)

lemma unat_pred_eq: "m \<noteq> 0 \<Longrightarrow> unat (m - 1) = unat m - 1" for m :: u32
  using unat_pred[of m] by simp

lemma conj_True_id [simp]: "(\<and>) True = (\<lambda>w. w)"
  by (rule ext) simp

lemma schedule_ok:
  assumes ok: "sched_ok rs ms fs" and bank: "bank < unat (nbk (fs_config fs))"
  defines "rq \<equiv> queue_in_use fs"
  obtains res fs' rq' where "schedule sim bank curr_row rs ms fs = Some (res, fs')" "sched_ok rs ms fs'"
    "fs_config fs' = fs_config fs" "m_mode fs' = next_mode fs"
    "res = pick (row_of rs) (rq_last_row rq bank) curr_row (rev (rq_queue rq bank))"
    "(if m_mode fs' = WRITE_MODE then m_writes fs' else m_reads fs') = rq'"
    "other_queue (m_mode fs') fs' = other_queue (m_mode fs') fs"
    "case res of None \<Rightarrow> rq_queue rq bank = [] \<and> rq' = rq
     | Some p \<Rightarrow> p \<in> set (rq_queue rq bank) \<and>
         rq_queue rq' = (rq_queue rq)(bank := remove1 p (rq_queue rq bank)) \<and>
         rq_last_row rq' = (rq_last_row rq)(bank :=
           if \<exists>x \<in> set (remove1 p (rq_queue rq bank)). row_of rs x = row_of rs p then Some (row_of rs p) else None)"
proof -
  let ?sep = "seperate_write_queue_enabled (fs_config fs)"
  define wr where "wr = (if next_mode fs = WRITE_MODE then (\<lambda>w. ?sep \<and> w) else (\<lambda>w. ?sep \<longrightarrow> \<not> w))"
  let ?m = "next_mode fs"
  have rqok: "queues_ok rs ms wr rq"
    using ok by (simp add: sched_ok_def rq_def queue_in_use_def wr_def)
  obtain c where c: "choose_row bank curr_row rs rq = Some c"
    and cc: "case c of None \<Rightarrow> rq_queue rq bank = [] \<and> rq_last_row rq bank = None
     | Some (row, hit) \<Rightarrow> rq_bins rq bank row \<noteq> None \<and>
         pick (row_of rs) (rq_last_row rq bank) curr_row (rev (rq_queue rq bank)) =
         List.find (\<lambda>p. row_of rs p = row) (rev (rq_queue rq bank))"
    using choose_row_ok[OF rqok] by blast
  have rq0: "(if ?m = WRITE_MODE then m_writes fs else m_reads fs) = rq" by (simp add: rq_def queue_in_use_def)
  show ?thesis
  proof (cases c)
    case None
    have "schedule sim bank curr_row rs ms fs = Some (None, fs\<lparr>m_mode := ?m\<rparr>)"
      using c None bank rq0 by (simp add: schedule_def Let_def cong: if_cong)
    moreover have "sched_ok rs ms (fs\<lparr>m_mode := ?m\<rparr>)"
      using ok next_mode_ok[OF ok] by (simp add: sched_ok_def)
    ultimately show ?thesis
      using that[of None "fs\<lparr>m_mode := ?m\<rparr>" rq] cc None rq0
      by (cases "?m = WRITE_MODE") (simp_all add: pick_def other_queue_def)
  next
    case (Some rh)
    obtain row hit where rh: "rh = (row, hit)" by (cases rh)
    have bin: "rq_bins rq bank row \<noteq> None"
      and pk: "pick (row_of rs) (rq_last_row rq bank) curr_row (rev (rq_queue rq bank)) =
         List.find (\<lambda>p. row_of rs p = row) (rev (rq_queue rq bank))"
      using cc Some rh by auto
    obtain p rq' where t: "take_oldest bank row rs rq = Some (p, rq')" "queues_ok rs ms wr rq'"
        "List.find (\<lambda>p. row_of rs p = row) (rev (rq_queue rq bank)) = Some p" "p \<in> set (rq_queue rq bank)"
        "rq_queue rq' = (rq_queue rq)(bank := remove1 p (rq_queue rq bank))"
        "rq_last_row rq' = (rq_last_row rq)(bank := if \<exists>x \<in> set (remove1 p (rq_queue rq bank)). row_of rs x = row then Some row else None)"
      by (rule take_oldest_ok[OF rqok bin])
    have prow: "row_of rs p = row" using t(3) by (auto simp: find_Some_iff)
    obtain w where w: "req_is_write p rs ms = Some w" "wr w"
      using queues_okD(4)[OF rqok t(4)] by blast
    note pend = pending_remove[OF t(5) t(4) bank]
    define st where "st = count_access bank w hit (if hit then m_stats fs else data_collection sim bank (m_stats fs))"
    define fs1 where "fs1 = (if ?m = WRITE_MODE then fs\<lparr>m_mode := ?m, m_stats := st, m_writes := rq'\<rparr>
       else fs\<lparr>m_mode := ?m, m_stats := st, m_reads := rq'\<rparr>)"
    have side: "(?sep \<and> w) = (?m = WRITE_MODE)"
      using w(2) next_mode_ok[OF ok] by (auto simp: wr_def split: if_splits)
    define fs' where "fs' = (if ?m = WRITE_MODE then fs1\<lparr>m_num_write_pending := m_num_write_pending fs - 1\<rparr>
       else fs1\<lparr>m_num_pending := m_num_pending fs - 1\<rparr>)"
    have nz: "?m = WRITE_MODE \<Longrightarrow> m_num_write_pending fs \<noteq> 0" "?m \<noteq> WRITE_MODE \<Longrightarrow> m_num_pending fs \<noteq> 0"
      using ok pend(2) by (auto simp: sched_ok_def rq_def queue_in_use_def)
    have "schedule sim bank curr_row rs ms fs = Some (Some p, fs')"
    proof (cases "?m = WRITE_MODE")
      case True
      then show ?thesis
        using c Some rh t(1) w(1) bank side nz rq0
        by (simp add: schedule_def Let_def fs'_def fs1_def st_def)
    next
      case False
      then show ?thesis
        using c Some rh t(1) w(1) bank side nz rq0
        by (cases w) (simp_all add: schedule_def Let_def fs'_def fs1_def st_def)
    qed
    moreover have "sched_ok rs ms fs'"
    proof (cases "?m = WRITE_MODE")
      case True
      then show ?thesis
        using ok t(2) nz pend(1) next_mode_ok[OF ok]
        by (simp add: sched_ok_def fs'_def fs1_def rq_def queue_in_use_def unat_pred_eq wr_def)
    next
      case False
      then show ?thesis
        using ok t(2) nz pend(1)
        by (simp add: sched_ok_def fs'_def fs1_def rq_def queue_in_use_def unat_pred_eq wr_def)
    qed
    moreover have "fs_config fs' = fs_config fs" "m_mode fs' = ?m"
      "(if m_mode fs' = WRITE_MODE then m_writes fs' else m_reads fs') = rq'"
      "other_queue (m_mode fs') fs' = other_queue (m_mode fs') fs"
      by (simp_all add: fs'_def fs1_def other_queue_def)
    moreover have "Some p = pick (row_of rs) (rq_last_row rq bank) curr_row (rev (rq_queue rq bank))"
      by (simp only: pk t(3))
    moreover have "case Some p of None \<Rightarrow> rq_queue rq bank = [] \<and> rq' = rq
     | Some p \<Rightarrow> p \<in> set (rq_queue rq bank) \<and>
         rq_queue rq' = (rq_queue rq)(bank := remove1 p (rq_queue rq bank)) \<and>
         rq_last_row rq' = (rq_last_row rq)(bank :=
           if \<exists>x \<in> set (remove1 p (rq_queue rq bank)). row_of rs x = row_of rs p then Some (row_of rs p) else None)"
      unfolding option.case prow by (intro conjI t(4-6))
    ultimately show ?thesis
      by - (rule that[of "Some p" fs' rq'], assumption+)
  qed
qed

section \<open>Properties\<close>

lemma empty_queues_ok: "queues_ok rs ms wr empty_queues"
  by (simp add: queues_ok_def empty_queues_def bin_of_def)

lemma frfcfs_new_ok: "sched_ok rs ms (frfcfs_new cfg)"
  by (simp add: sched_ok_def frfcfs_new_def empty_queues_ok pending_in_def) (simp add: empty_queues_def)

text \<open>
  A history of the scheduler over a fixed population of requests: additions of requests that are
  not pending and scheduling decisions for any bank, open row and cycle.
\<close>

datatype sched_op = Arrive req_ref | Decide u64 nat u32

fun sched_run ::
  "req_store \<Rightarrow> mem_store \<Rightarrow> sched_op list \<Rightarrow> frfcfs \<Rightarrow> (req_ref list \<times> frfcfs) option" where
  "sched_run rs ms [] fs = Some ([], fs)"
| "sched_run rs ms (Arrive p # ops) fs = do { fs \<leftarrow> add_req p rs ms fs; sched_run rs ms ops fs }"
| "sched_run rs ms (Decide sim bank row # ops) fs = do {
     (res, fs) \<leftarrow> schedule sim bank row rs ms fs;
     (out, fs) \<leftarrow> sched_run rs ms ops fs;
     Some (case res of None \<Rightarrow> out | Some p \<Rightarrow> p # out, fs) }"

fun arrivals :: "sched_op list \<Rightarrow> req_ref list" where
  "arrivals [] = []"
| "arrivals (Arrive p # ops) = p # arrivals ops"
| "arrivals (Decide sim bank row # ops) = arrivals ops"

text \<open>
  The lane of a request: its bank, its row and, when writes have queues of their own, its direction.
\<close>

definition in_lane :: "dram_config \<Rightarrow> req_store \<Rightarrow> mem_store \<Rightarrow> nat \<Rightarrow> u32 \<Rightarrow> bool \<Rightarrow> req_ref \<Rightarrow> bool" where
  "in_lane cfg rs ms bank row w p =
    (case (rs_heap rs p, req_is_write p rs ms) of
       (Some q, Some wr) \<Rightarrow> unat (dr_bk q) = bank \<and> dr_row q = row \<and>
         w = (seperate_write_queue_enabled cfg \<and> wr)
     | _ \<Rightarrow> False)"

definition lane :: "req_store \<Rightarrow> frfcfs \<Rightarrow> nat \<Rightarrow> u32 \<Rightarrow> bool \<Rightarrow> req_ref list" where
  "lane rs fs bank row w =
    rev (filter (\<lambda>p. row_of rs p = row) (rq_queue (if w then m_writes fs else m_reads fs) bank))"

definition pending_set :: "frfcfs \<Rightarrow> req_ref set" where
  "pending_set fs = waiting (m_reads fs) \<union> waiting (m_writes fs)"

lemma pick_oldest:
  assumes "pick row served c ps = Some p"
  shows "List.find (\<lambda>x. row x = row p) ps = Some p"
proof -
  have found: "List.find (\<lambda>x. row x = r) ps = Some p \<Longrightarrow> row p = r" for r
    by (auto simp: find_Some_iff)
  show ?thesis
  proof (cases served)
    case (Some r)
    then have "List.find (\<lambda>x. row x = r) ps = Some p" using assms by (simp add: pick_def)
    then show ?thesis using found by blast
  next
    case None
    show ?thesis
    proof (cases "List.find (\<lambda>x. row x = c) ps")
      case (Some x)
      then show ?thesis using None assms found[of c] by (simp add: pick_def)
    next
      case miss: None
      then show ?thesis using None assms by (cases ps) (auto simp: pick_def)
    qed
  qed
qed

lemma oldest_first:
  assumes "distinct xs" "List.find P (rev xs) = Some p"
  shows "rev (filter P xs) = p # rev (filter P (remove1 p xs))"
proof -
  have ne: "filter P xs \<noteq> []" using assms(2) find_rev_None[of P xs] by auto
  have p: "p = last (filter P xs)" "P p"
    using assms(2) find_rev_last[OF ne] by (auto simp: find_Some_iff)
  have "filter P (remove1 p xs) = butlast (filter P xs)"
    unfolding p(1) by (rule filter_remove_last[OF assms(1) ne])
  then show ?thesis using rev_last_hd[OF ne] p(1) by simp
qed

text \<open>What a call of \<open>schedule\<close> and an arrival do to the lanes.\<close>

lemma schedule_lanes:
  assumes ok: "sched_ok rs ms fs" and run: "schedule sim bank c rs ms fs = Some (res, fs')"
  shows "sched_ok rs ms fs' \<and> fs_config fs' = fs_config fs \<and>
    lane rs fs b row w = (case res of Some p \<Rightarrow> if in_lane (fs_config fs) rs ms b row w p then [p] else [] | None \<Rightarrow> [])
      @ lane rs fs' b row w \<and>
    (case res of Some p \<Rightarrow> p \<in> pending_set fs \<and> pending_set fs' = pending_set fs - {p} | None \<Rightarrow> pending_set fs' = pending_set fs)"
proof -
  have bank: "bank < unat (nbk (fs_config fs))"
    using run by (auto simp: schedule_def bind_Some_iff)
  define rq where "rq = queue_in_use fs"
  obtain rq' where ok': "sched_ok rs ms fs'" and cfg: "fs_config fs' = fs_config fs" and m: "m_mode fs' = next_mode fs"
    and res: "res = pick (row_of rs) (rq_last_row rq bank) c (rev (rq_queue rq bank))"
    and rq': "(if m_mode fs' = WRITE_MODE then m_writes fs' else m_reads fs') = rq'"
    and other: "other_queue (m_mode fs') fs' = other_queue (m_mode fs') fs"
    and eff: "case res of None \<Rightarrow> rq_queue rq bank = [] \<and> rq' = rq
     | Some p \<Rightarrow> p \<in> set (rq_queue rq bank) \<and>
         rq_queue rq' = (rq_queue rq)(bank := remove1 p (rq_queue rq bank)) \<and>
         rq_last_row rq' = (rq_last_row rq)(bank :=
           if \<exists>x \<in> set (remove1 p (rq_queue rq bank)). row_of rs x = row_of rs p then Some (row_of rs p) else None)"
    using schedule_ok[OF ok bank, of sim c] run unfolding rq_def by fastforce
  let ?wm = "next_mode fs = WRITE_MODE" and ?sep = "seperate_write_queue_enabled (fs_config fs)"
  have rqs: "(if ?wm then m_writes fs else m_reads fs) = rq" "(if ?wm then m_writes fs' else m_reads fs') = rq'"
    "(if ?wm then m_reads fs' else m_writes fs') = (if ?wm then m_reads fs else m_writes fs)"
    using rq' other m by (auto simp: rq_def queue_in_use_def other_queue_def)
  have rqok: "queues_ok rs ms (\<lambda>v. (?sep \<and> v) = ?wm) rq"
  proof (cases ?wm)
    case True
    then show ?thesis
      using ok next_mode_ok[OF ok] by (simp add: sched_ok_def rq_def queue_in_use_def)
  next
    case False
    then show ?thesis
      using ok by (simp add: sched_ok_def rq_def queue_in_use_def)
  qed
  show ?thesis
  proof (cases res)
    case None
    then have "rq' = rq" using eff by simp
    then have "m_reads fs' = m_reads fs" "m_writes fs' = m_writes fs" using rqs by (auto split: if_splits)
    then show ?thesis using ok' cfg None by (simp add: lane_def pending_set_def)
  next
    case (Some p)
    then have pin: "p \<in> set (rq_queue rq bank)" and q': "rq_queue rq' = (rq_queue rq)(bank := remove1 p (rq_queue rq bank))"
      using eff by auto
    obtain q v where q: "rs_heap rs p = Some q" "unat (dr_bk q) = bank" "req_is_write p rs ms = Some v" "(?sep \<and> v) = ?wm"
      using queues_okD(4)[OF rqok pin] by blast
    have row: "row_of rs p = dr_row q" using q(1) by (simp add: row_of_def)
    have old: "List.find (\<lambda>x. row_of rs x = row_of rs p) (rev (rq_queue rq bank)) = Some p"
      using res Some by (intro pick_oldest) simp
    note first = oldest_first[OF queues_okD(1)[OF rqok] old]
    have inl: "in_lane (fs_config fs) rs ms b row w p = (bank = b \<and> row = row_of rs p \<and> w = ?wm)"
      using q row by (auto simp: in_lane_def)
    have lanes: "lane rs fs b row w = (if in_lane (fs_config fs) rs ms b row w p then [p] else []) @ lane rs fs' b row w"
    proof (cases "w = ?wm")
      case True
      have l: "lane rs fs b row w = rev (filter (\<lambda>x. row_of rs x = row) (rq_queue rq b))"
        "lane rs fs' b row w = rev (filter (\<lambda>x. row_of rs x = row) (rq_queue rq' b))"
        using rqs(1,2) True by (auto simp: lane_def)
      show ?thesis
      proof (cases "bank = b \<and> row = row_of rs p")
        case True
        then show ?thesis using l first inl q' \<open>w = ?wm\<close> by simp
      next
        case False
        then show ?thesis
          using l inl q' filter_remove1_other[of "\<lambda>x. row_of rs x = row" p] by auto
      qed
    next
      case False
      then have "(if w then m_writes fs' else m_reads fs') = (if w then m_writes fs else m_reads fs)"
        using rqs(3) by (cases w) (auto split: if_splits)
      then show ?thesis using inl False by (simp add: lane_def)
    qed
    have other_has_not: "p \<notin> waiting (if ?wm then m_reads fs else m_writes fs)"
    proof
      assume "p \<in> waiting (if ?wm then m_reads fs else m_writes fs)"
      then obtain b' where "p \<in> set (rq_queue (if ?wm then m_reads fs else m_writes fs) b')" by (auto simp: waiting_def)
      then have "\<exists>w. req_is_write p rs ms = Some w \<and> (if ?wm then ?sep \<longrightarrow> \<not> w else ?sep \<and> w)"
        using ok queues_okD(4) unfolding sched_ok_def by (cases ?wm) (simp, blast)+
      then show False using q(3,4) by (auto split: if_splits)
    qed
    have "waiting rq' = waiting rq - {p}"
    proof -
      have "p \<notin> set (rq_queue rq b')" if "b' \<noteq> bank" for b'
        using that q(1,2) queues_okD(4)[OF rqok, of p b'] by auto
      then show ?thesis
        using queues_okD(1)[OF rqok, of bank] by (auto simp: waiting_def q' set_remove1_eq split: if_splits)
    qed
    moreover have "pending_set fs = waiting rq \<union> waiting (if ?wm then m_reads fs else m_writes fs)"
      "pending_set fs' = waiting rq' \<union> waiting (if ?wm then m_reads fs else m_writes fs)"
      unfolding rqs(3)[symmetric] using rqs(1,2) rqs(3) by (auto simp: pending_set_def split: if_splits)
    ultimately have "pending_set fs' = pending_set fs - {p}" "p \<in> pending_set fs"
      using other_has_not pin by (auto simp: waiting_def)
    then show ?thesis using ok' cfg lanes Some by simp
  qed
qed

lemma add_req_lanes:
  assumes ok: "sched_ok rs ms fs" and add: "add_req p rs ms fs = Some fs'" and fresh: "p \<notin> pending_set fs"
  shows "sched_ok rs ms fs' \<and> fs_config fs' = fs_config fs \<and>
    lane rs fs' b row w = lane rs fs b row w @ (if in_lane (fs_config fs) rs ms b row w p then [p] else []) \<and>
    pending_set fs' = insert p (pending_set fs)"
proof -
  obtain q v where q: "rs_heap rs p = Some q" and v: "req_is_write p rs ms = Some v"
    using add by (auto simp: add_req_def bind_Some_iff)
  have row: "row_of rs p = dr_row q" using q by (simp add: row_of_def)
  have fr: "p \<notin> waiting (m_reads fs)" "p \<notin> waiting (m_writes fs)" using fresh by (auto simp: pending_set_def)
  let ?sep = "seperate_write_queue_enabled (fs_config fs)"
  have queues: "m_reads fs' = (if ?sep \<and> v then m_reads fs else queue_push p q (m_reads fs))"
    "m_writes fs' = (if ?sep \<and> v then queue_push p q (m_writes fs) else m_writes fs)"
    using add q v by (auto simp: add_req_def bind_Some_iff split: if_splits)
  have inl: "in_lane (fs_config fs) rs ms b row w p = (unat (dr_bk q) = b \<and> row = dr_row q \<and> w = (?sep \<and> v))"
    using q v by (auto simp: in_lane_def)
  have "lane rs fs' b row w = lane rs fs b row w @ (if in_lane (fs_config fs) rs ms b row w p then [p] else [])"
    unfolding inl lane_def queues by (cases w) (auto simp: queue_push_def Let_def row)
  moreover have "pending_set fs' = insert p (pending_set fs)"
    unfolding pending_set_def queues by (auto simp: waiting_def queue_push_def Let_def split: if_splits)
  ultimately show ?thesis using add_req_ok[OF ok add fr] by simp
qed

text \<open>The laws hold along every history.\<close>

lemma sched_run_lanes:
  assumes "sched_ok rs ms fs" "sched_run rs ms ops fs = Some (out, fs')"
    and "distinct (arrivals ops)" "pending_set fs \<inter> set (arrivals ops) = {}"
  shows "sched_ok rs ms fs' \<and> fs_config fs' = fs_config fs \<and>
    lane rs fs b row w @ filter (in_lane (fs_config fs) rs ms b row w) (arrivals ops) =
      filter (in_lane (fs_config fs) rs ms b row w) out @ lane rs fs' b row w \<and>
    distinct out \<and> set out \<inter> pending_set fs' = {} \<and>
    set out \<union> pending_set fs' = pending_set fs \<union> set (arrivals ops)"
  using assms
proof (induction ops arbitrary: fs out)
  case Nil
  then show ?case by simp
next
  case (Cons x ops)
  show ?case
  proof (cases x)
    case (Arrive p)
    then obtain g where g: "add_req p rs ms fs = Some g" "sched_run rs ms ops g = Some (out, fs')"
      using Cons.prems(2) by (auto simp: bind_Some_iff)
    have "p \<notin> pending_set fs" using Cons.prems(4) Arrive by auto
    note step = add_req_lanes[OF Cons.prems(1) g(1) this, of b row w]
    have "distinct (arrivals ops)" "pending_set g \<inter> set (arrivals ops) = {}"
      using step Cons.prems(3,4) Arrive by auto
    note rest = Cons.IH[OF _ g(2) this]
    show ?thesis using step rest Arrive by auto
  next
    case (Decide sim bank c)
    then obtain res g o' where g: "schedule sim bank c rs ms fs = Some (res, g)"
      "sched_run rs ms ops g = Some (o', fs')" "out = (case res of None \<Rightarrow> o' | Some p \<Rightarrow> p # o')"
      using Cons.prems(2) by (auto simp: bind_Some_iff)
    note step = schedule_lanes[OF Cons.prems(1) g(1), of b row w]
    have sub: "pending_set g \<subseteq> pending_set fs" using step by (auto split: option.splits)
    then have "distinct (arrivals ops)" "pending_set g \<inter> set (arrivals ops) = {}"
      using Cons.prems(3,4) Decide by auto
    note rest = Cons.IH[OF _ g(2) this]
    show ?thesis
    proof (cases res)
      case None
      then show ?thesis using step rest Decide g(3) by simp
    next
      case (Some p)
      have pen: "p \<in> pending_set fs" "pending_set g = pending_set fs - {p}" using step Some by auto
      have "p \<notin> set (arrivals ops)" using pen(1) Cons.prems(4) Decide by auto
      then have pnot: "p \<notin> set o'" "p \<notin> pending_set fs'" using rest step pen by auto
      have "lane rs fs b row w @ filter (in_lane (fs_config fs) rs ms b row w) (arrivals ops) =
          (if in_lane (fs_config fs) rs ms b row w p then [p] else []) @
          lane rs g b row w @ filter (in_lane (fs_config fs) rs ms b row w) (arrivals ops)"
        using step Some by simp
      also have "\<dots> = filter (in_lane (fs_config fs) rs ms b row w) out @ lane rs fs' b row w"
        using rest step g(3) Some by simp
      finally show ?thesis
        using rest step Some g(3) pnot pen Decide by auto
    qed
  qed
qed

text \<open>
  C9: First ready, first come first served. In a well-formed scheduler a decision always succeeds
  and equals the reference policy on the bank's requests in order of arrival: while a row is being
  served its oldest request, otherwise the oldest request of the open row, otherwise the oldest
  request. Exactly this request leaves the queue, the row stays the one being served exactly while
  requests to it are left, the other direction's queues are untouched, and the scheduler stays well
  formed, its two counters of pending requests included.
\<close>

theorem frfcfs_picks_first_ready:
  assumes "sched_ok rs ms fs" "bank < unat (nbk (fs_config fs))"
  shows "\<exists>res fs'. schedule sim bank curr_row rs ms fs = Some (res, fs') \<and> sched_ok rs ms fs' \<and>
    (let rq = queue_in_use fs; rq' = (if m_mode fs' = WRITE_MODE then m_writes fs' else m_reads fs');
         others = (\<lambda>p. \<exists>x \<in> set (remove1 p (rq_queue rq bank)). row_of rs x = row_of rs p)
     in res = pick (row_of rs) (rq_last_row rq bank) curr_row (rev (rq_queue rq bank)) \<and>
        other_queue (m_mode fs') fs' = other_queue (m_mode fs') fs \<and>
        (case res of
           None \<Rightarrow> rq_queue rq bank = [] \<and> rq' = rq
         | Some p \<Rightarrow> rq_queue rq' = (rq_queue rq)(bank := remove1 p (rq_queue rq bank)) \<and>
             rq_last_row rq' = (rq_last_row rq)(bank := if others p then Some (row_of rs p) else None)))"
proof (rule schedule_ok[OF assms, of sim curr_row])
  fix res fs' rq'
  assume a: "schedule sim bank curr_row rs ms fs = Some (res, fs')" "sched_ok rs ms fs'"
    "res = pick (row_of rs) (rq_last_row (queue_in_use fs) bank) curr_row (rev (rq_queue (queue_in_use fs) bank))"
    "other_queue (m_mode fs') fs' = other_queue (m_mode fs') fs"
    and rq': "(if m_mode fs' = WRITE_MODE then m_writes fs' else m_reads fs') = rq'"
    and eff: "case res of None \<Rightarrow> rq_queue (queue_in_use fs) bank = [] \<and> rq' = queue_in_use fs
     | Some p \<Rightarrow> p \<in> set (rq_queue (queue_in_use fs) bank) \<and>
         rq_queue rq' = (rq_queue (queue_in_use fs))(bank := remove1 p (rq_queue (queue_in_use fs) bank)) \<and>
         rq_last_row rq' = (rq_last_row (queue_in_use fs))(bank :=
           if \<exists>x \<in> set (remove1 p (rq_queue (queue_in_use fs) bank)). row_of rs x = row_of rs p
           then Some (row_of rs p) else None)"
  have "case res of None \<Rightarrow> rq_queue (queue_in_use fs) bank = [] \<and> rq' = queue_in_use fs
     | Some p \<Rightarrow> rq_queue rq' = (rq_queue (queue_in_use fs))(bank := remove1 p (rq_queue (queue_in_use fs) bank)) \<and>
         rq_last_row rq' = (rq_last_row (queue_in_use fs))(bank :=
           if \<exists>x \<in> set (remove1 p (rq_queue (queue_in_use fs) bank)). row_of rs x = row_of rs p
           then Some (row_of rs p) else None)"
    using eff by (cases res) simp_all
  then show ?thesis
    unfolding Let_def using a rq' by blast
qed

definition sample_req :: "u32 \<Rightarrow> dram_req" where
  "sample_req row = \<lparr>dr_row = row, dr_col = 0, dr_bk = 2, dr_nbytes = 32, dr_txbytes = 0, dr_dqbytes = 0,
     dr_timestamp = 0, dr_rw = READ, dr_addr = 0, dr_insertion_time = 0, dr_data = 0\<rparr>"

definition sample_reqs :: req_store where
  "sample_reqs = \<lparr>rs_heap = [2 \<mapsto> sample_req 5, 3 \<mapsto> sample_req 7, 4 \<mapsto> sample_req 5], rs_next = 5\<rparr>"

definition sample_fetches :: mem_store where
  "sample_fetches = \<lparr>ms_heap = [0 \<mapsto> sample_fetch (sample_access GLOBAL_ACC_R False)], ms_next = 1,
     ms_next_uid = 2, ms_table = Map.empty, ms_rand = []\<rparr>"

definition sample_dram :: dram_config where
  "sample_dram = \<lparr>nbk = 4, nbkgrp = 2, bk_tag_length = 1, tCCD = 2, tCCDL = 3, tRTPL = 3, tRRD = 6, tRCD = 12,
     tRCDWR = 7, tRAS = 28, tRP = 12, tRC = 40, tCDLR = 5, tWR = 12, CL = 12, WL = 4, BL = 8, tRTW = 12,
     tWTR = 11, tWTP = 18, busW = 4, gpu_n_mem_per_ctrlr = 1, data_command_freq_ratio = 4,
     dram_atom_size = 32, elimnate_rw_turnaround = False, dual_bus_interface = False,
     scheduler_type = DRAM_FRFCFS, dram_bnk_indexing_policy = LINEAR_BK_INDEX,
     dram_bnkgrp_indexing_policy = HIGHER_BITS, gpgpu_frfcfs_dram_sched_queue_size = 64,
     gpgpu_dram_return_queue_size = 116, seperate_write_queue_enabled = False,
     gpgpu_frfcfs_dram_write_queue_size = 32, write_high_watermark = 28, write_low_watermark = 16\<rparr>"

lemma sample_reads [simp]:
  "rs_heap sample_reqs 2 = Some (sample_req 5)" "rs_heap sample_reqs 3 = Some (sample_req 7)"
  "rs_heap sample_reqs 4 = Some (sample_req 5)"
  by (simp_all add: sample_reqs_def)

lemma sample_is_read [simp]:
  "req_is_write 2 sample_reqs sample_fetches = Some False"
  "req_is_write 3 sample_reqs sample_fetches = Some False"
  "req_is_write 4 sample_reqs sample_fetches = Some False"
  by (simp_all add: req_is_write_def sample_req_def sample_fetches_def deref_def sample_fetch_def
      sample_access_def get_is_write_def)

definition two_rows :: frfcfs where
  "two_rows = snd (the (sched_run sample_reqs sample_fetches [Arrive 2, Arrive 3, Arrive 4] (frfcfs_new sample_dram)))"

lemma sched_run_two_rows:
  "sched_run sample_reqs sample_fetches [Arrive 2, Arrive 3, Arrive 4] (frfcfs_new sample_dram) = Some ([], two_rows)"
proof -
  have "\<exists>g. sched_run sample_reqs sample_fetches [Arrive 2, Arrive 3, Arrive 4] (frfcfs_new sample_dram) = Some ([], g)"
    by (simp add: add_req_def frfcfs_new_def sample_dram_def sample_req_def)
  then show ?thesis by (auto simp: two_rows_def)
qed

lemma two_rows_ok: "sched_ok sample_reqs sample_fetches two_rows"
  using sched_run_lanes[OF frfcfs_new_ok sched_run_two_rows]
  by (simp add: pending_set_def waiting_def frfcfs_new_def empty_queues_def)

lemma two_rows_queue: "queue_in_use two_rows = m_reads two_rows" "rq_queue (m_reads two_rows) 2 = [4, 3, 2]"
  "rq_last_row (m_reads two_rows) 2 = None" "nbk (fs_config two_rows) = 4" "m_mode two_rows = READ_MODE"
  unfolding two_rows_def
  by (simp_all add: add_req_def frfcfs_new_def sample_dram_def sample_req_def queue_push_def Let_def empty_queues_def
      queue_in_use_def next_mode_def)

lemma two_rows_pick:
  "pick (row_of sample_reqs) None 7 [2, 3, 4] = Some 3" "(2::nat) < unat (nbk (fs_config two_rows))"
  by (simp_all add: pick_def row_of_def sample_req_def two_rows_queue)

theorem frfcfs_picks_first_ready_witness:
  "\<exists>fs'. schedule 9 2 7 sample_reqs sample_fetches two_rows = Some (Some 3, fs') \<and>
    rq_queue (if m_mode fs' = WRITE_MODE then m_writes fs' else m_reads fs') 2 = [4, 2]"
  using frfcfs_picks_first_ready[OF two_rows_ok two_rows_pick(2), of 9 7]
  by (auto simp: Let_def two_rows_queue two_rows_pick split: option.splits)

text \<open>
  Nothing is lost, duplicated or reordered within a row. Over any history of arrivals and
  decisions that starts with the empty scheduler, for every bank, row and (with separate write
  queues) direction, the requests that arrived are, in order, those already served followed by
  those still waiting; no request is served twice, and a request that arrived is either served or
  pending, never both.
\<close>

lemma frfcfs_keeps_row_order:
  assumes "sched_run rs ms ops (frfcfs_new cfg) = Some (out, fs)" "distinct (arrivals ops)"
  shows "distinct out \<and> set out \<inter> pending_set fs = {} \<and> set out \<union> pending_set fs = set (arrivals ops) \<and>
    (\<forall>b row w. filter (in_lane cfg rs ms b row w) (arrivals ops) =
       filter (in_lane cfg rs ms b row w) out @ lane rs fs b row w)"
proof -
  have "pending_set (frfcfs_new cfg) = {}" "lane rs (frfcfs_new cfg) b row w = []" for b row w
    by (simp_all add: pending_set_def waiting_def lane_def frfcfs_new_def empty_queues_def)
  then show ?thesis
    using sched_run_lanes[OF frfcfs_new_ok assms] by (simp add: frfcfs_new_def)
qed

lemma frfcfs_keeps_row_order_witness:
  "\<exists>fs. sched_run sample_reqs sample_fetches [Arrive 2, Arrive 3, Arrive 4, Decide 4 2 7] (frfcfs_new sample_dram) = Some ([3], fs) \<and>
    lane sample_reqs fs 2 5 False = [2, 4]"
proof -
  obtain fs where g: "schedule 4 2 7 sample_reqs sample_fetches two_rows = Some (Some 3, fs)"
    by (rule schedule_ok[OF two_rows_ok two_rows_pick(2), of 4 7]) (simp add: two_rows_queue two_rows_pick)
  let ?ops = "[Arrive 2, Arrive 3, Arrive 4, Decide 4 2 7]"
  have f: "sched_run sample_reqs sample_fetches ?ops (frfcfs_new sample_dram) = Some ([3], fs)"
    using sched_run_two_rows g by (auto simp: bind_Some_iff)
  have "in_lane sample_dram sample_reqs sample_fetches 2 5 False 2" "\<not> in_lane sample_dram sample_reqs sample_fetches 2 5 False 3"
    "in_lane sample_dram sample_reqs sample_fetches 2 5 False 4"
    by (simp_all add: in_lane_def sample_req_def sample_dram_def)
  moreover have "filter (in_lane sample_dram sample_reqs sample_fetches 2 5 False) (arrivals ?ops) =
      filter (in_lane sample_dram sample_reqs sample_fetches 2 5 False) [3] @ lane sample_reqs fs 2 5 False"
    using frfcfs_keeps_row_order[OF f] by simp
  ultimately show ?thesis using f by auto
qed

end
