(* ===== verification/Dram.thy ===== *)
theory Dram
  imports FifoPipeline DramSched
begin

text \<open>
  The DRAM channel of \<open>dram.cc\<close>: banks and bank groups with their timing counters, the queues of
  requests on their way in and of data on its way out, and one command-clock cycle.

  The simulator's cycle counters are arguments \<open>sim\<close> and \<open>tot\<close>. The channel deletes a write-back
  after telling the memory partition (\<open>set_done\<close>); the requests reported so are kept, with their
  value at that moment, in \<open>d_done\<close>. The lines that the debugging build (\<open>DRAM_VERIFY\<close>) prints for
  each command are kept in \<open>d_printed\<close>, newest first. The latency statistics that are collected only
  under \<open>gpgpu_memlatency_stat\<close>, the floating-point average of the read and write ratio, and printing
  are left out.
\<close>

section \<open>State\<close>

datatype bank_state = BANK_IDLE | BANK_ACTIVE

record bank =
  RCDc :: u32
  RCDWRc :: u32
  RASc :: u32
  RPc :: u32
  RCc :: u32
  WTPc :: u32
  RTPc :: u32
  b_state :: bank_state
  curr_row :: u32
  b_mrq :: "req_ref option"
  n_access :: u32
  n_idle :: u32
  bkgrpindex :: u32

record bankgrp =
  CCDLc :: u32
  RTPLc :: u32

datatype dram_cmd = RD nat u32 u32 | WR nat u32 u32 | ACT nat u32 | PRE nat u32

record cmd_stats =
  n_cmd :: u64
  n_activity :: u64
  n_nop :: u64
  n_act :: u64
  n_pre :: u64
  n_rd :: u64
  n_rd_L2_A :: u64
  n_wr :: u64
  n_wr_WB :: u64
  n_req :: u64
  max_mrqs_temp :: u64
  total_n_access :: u64
  total_n_reads :: u64
  total_n_writes :: u64

record window_stats =
  bwutil :: u32
  max_mrqs :: u32
  ave_mrqs :: u32
  n_cmd_partial :: u32
  n_activity_partial :: u32
  n_nop_partial :: u32
  n_act_partial :: u32
  n_pre_partial :: u32
  n_req_partial :: u32
  ave_mrqs_partial :: u32
  bwutil_partial :: u32

record blp_stats =
  banks_1time :: u64
  banks_acess_total :: u64
  banks_acess_total_after :: u64
  banks_time_rw :: u64
  banks_access_rw_total :: u64
  banks_time_ready :: u64
  banks_access_ready_total :: u64
  bkgrp_parallsim_rw :: u64
  issued_two :: u64
  issued_total :: u64
  issued_total_row :: u64
  issued_total_col :: u64

record bw_stats =
  util_bw :: u64
  wasted_bw_col :: u64
  wasted_bw_row :: u64
  idle_bw :: u64
  RCDc_limit :: u64
  RCDWRc_limit :: u64
  CCDLc_limit :: u64
  CCDLc_limit_alone :: u64
  CCDc_limit :: u64
  WTRc_limit :: u64
  WTRc_limit_alone :: u64
  RTWc_limit :: u64
  RTWc_limit_alone :: u64
  rwq_limit :: u64

record dram =
  d_id :: u32
  d_config :: dram_config
  d_bkgrp :: "nat \<Rightarrow> bankgrp"
  d_bk :: "nat \<Rightarrow> bank"
  d_prio :: u32
  RRDc :: u32
  CCDc :: u32
  RTWc :: u32
  WTRc :: u32
  d_rw :: rw_kind
  d_rwq :: "req_ref fifo"
  d_mrqq :: "req_ref fifo"
  d_returnq :: "mf_ref fifo"
  d_sched :: "frfcfs option"
  d_reqs :: req_store
  d_store :: mem_store
  d_done :: "(mf_ref \<times> mem_fetch) list"
  d_printed :: "dram_cmd list"
  d_cmds :: cmd_stats
  d_window :: window_stats
  d_blp :: blp_stats
  d_bw :: bw_stats

definition upd_bank :: "nat \<Rightarrow> (bank \<Rightarrow> bank) \<Rightarrow> dram \<Rightarrow> dram" where
  "upd_bank j f s = s\<lparr>d_bk := (d_bk s)(j := f (d_bk s j))\<rparr>"

definition upd_group :: "nat \<Rightarrow> (bankgrp \<Rightarrow> bankgrp) \<Rightarrow> dram \<Rightarrow> dram" where
  "upd_group g f s = s\<lparr>d_bkgrp := (d_bkgrp s)(g := f (d_bkgrp s g))\<rparr>"

abbreviation upd_cmds :: "(cmd_stats \<Rightarrow> cmd_stats) \<Rightarrow> dram \<Rightarrow> dram" where
  "upd_cmds f s \<equiv> s\<lparr>d_cmds := f (d_cmds s)\<rparr>"

abbreviation upd_window :: "(window_stats \<Rightarrow> window_stats) \<Rightarrow> dram \<Rightarrow> dram" where
  "upd_window f s \<equiv> s\<lparr>d_window := f (d_window s)\<rparr>"

abbreviation upd_blp :: "(blp_stats \<Rightarrow> blp_stats) \<Rightarrow> dram \<Rightarrow> dram" where
  "upd_blp f s \<equiv> s\<lparr>d_blp := f (d_blp s)\<rparr>"

abbreviation banks :: "dram \<Rightarrow> nat list" where
  "banks s \<equiv> [0..<unat (nbk (d_config s))]"

text \<open>
  The constructor. It gives no value to \<open>banks_time_rw\<close> and \<open>banks_access_rw_total\<close>, which are
  arguments here.
\<close>

definition dram_new ::
  "u32 \<Rightarrow> dram_config \<Rightarrow> u64 \<Rightarrow> u64 \<Rightarrow> req_store \<Rightarrow> mem_store \<Rightarrow> dram option" where
  "dram_new partition_id cfg junk1 junk2 rs ms = do {
     ensure (nbkgrp cfg \<noteq> 0 \<and> nbk cfg div nbkgrp cfg \<noteq> 0);
     rwq \<leftarrow> fifo_new (CL cfg) (CL cfg + 1);
     mrqq \<leftarrow> fifo_new 0 2;
     returnq \<leftarrow> fifo_new 0 (if gpgpu_dram_return_queue_size cfg = 0 then 1024
                            else gpgpu_dram_return_queue_size cfg);
     Some \<lparr>d_id = partition_id, d_config = cfg,
       d_bkgrp = (\<lambda>_. \<lparr>CCDLc = 0, RTPLc = 0\<rparr>),
       d_bk = (\<lambda>i. \<lparr>RCDc = 0, RCDWRc = 0, RASc = 0, RPc = 0, RCc = 0, WTPc = 0, RTPc = 0,
          b_state = BANK_IDLE, curr_row = 0, b_mrq = None, n_access = 0, n_idle = 0,
          bkgrpindex = of_nat i div (nbk cfg div nbkgrp cfg)\<rparr>),
       d_prio = 0, RRDc = 0, CCDc = 0, RTWc = 0, WTRc = 0, d_rw = READ,
       d_rwq = rwq, d_mrqq = mrqq, d_returnq = returnq,
       d_sched = (if scheduler_type cfg = DRAM_FRFCFS then Some (frfcfs_new cfg) else None),
       d_reqs = rs, d_store = ms, d_done = [], d_printed = [],
       d_cmds = \<lparr>n_cmd = 0, n_activity = 0, n_nop = 0, n_act = 0, n_pre = 0, n_rd = 0, n_rd_L2_A = 0,
          n_wr = 0, n_wr_WB = 0, n_req = 0, max_mrqs_temp = 0, total_n_access = 0, total_n_reads = 0,
          total_n_writes = 0\<rparr>,
       d_window = \<lparr>bwutil = 0, max_mrqs = 0, ave_mrqs = 0, n_cmd_partial = 0, n_activity_partial = 0,
          n_nop_partial = 0, n_act_partial = 0, n_pre_partial = 0, n_req_partial = 0,
          ave_mrqs_partial = 0, bwutil_partial = 0\<rparr>,
       d_blp = \<lparr>banks_1time = 0, banks_acess_total = 0, banks_acess_total_after = 0, banks_time_rw = junk1,
          banks_access_rw_total = junk2, banks_time_ready = 0, banks_access_ready_total = 0,
          bkgrp_parallsim_rw = 0, issued_two = 0, issued_total = 0, issued_total_row = 0, issued_total_col = 0\<rparr>,
       d_bw = \<lparr>util_bw = 0, wasted_bw_col = 0, wasted_bw_row = 0, idle_bw = 0, RCDc_limit = 0,
          RCDWRc_limit = 0, CCDLc_limit = 0, CCDLc_limit_alone = 0, CCDc_limit = 0, WTRc_limit = 0,
          WTRc_limit_alone = 0, RTWc_limit = 0, RTWc_limit_alone = 0, rwq_limit = 0\<rparr>\<rparr>
   }"

section \<open>Queries and arrival\<close>

definition dram_full :: "bool \<Rightarrow> dram \<Rightarrow> bool option" where
  "dram_full is_write s =
    (let cfg = d_config s in
     if scheduler_type cfg = DRAM_FRFCFS then
       (if gpgpu_frfcfs_dram_sched_queue_size cfg = 0 then Some False
        else do {
          fs \<leftarrow> d_sched s;
          Some (if seperate_write_queue_enabled cfg \<and> is_write
                then gpgpu_frfcfs_dram_write_queue_size cfg \<le> m_num_write_pending fs
                else gpgpu_frfcfs_dram_sched_queue_size cfg \<le> m_num_pending fs) })
     else Some (fifo_full (d_mrqq s)))"

definition que_length :: "dram \<Rightarrow> u32 option" where
  "que_length s =
    (if scheduler_type (d_config s) = DRAM_FRFCFS then map_option m_num_pending (d_sched s)
     else Some (m_length (d_mrqq s)))"

definition returnq_full :: "dram \<Rightarrow> bool" where
  "returnq_full s = fifo_full (d_returnq s)"

definition queue_limit :: "dram \<Rightarrow> u32" where
  "queue_limit s = gpgpu_frfcfs_dram_sched_queue_size (d_config s)"

definition return_queue_pop :: "dram \<Rightarrow> (mf_ref option \<times> dram) option" where
  "return_queue_pop s = do { (r, q) \<leftarrow> fifo_pop (d_returnq s); Some (r, s\<lparr>d_returnq := q\<rparr>) }"

definition return_queue_top :: "dram \<Rightarrow> mf_ref option" where
  "return_queue_top s = fifo_top (d_returnq s)"

definition fetch_status :: "mf_ref \<Rightarrow> mem_fetch_status \<Rightarrow> u64 \<Rightarrow> dram \<Rightarrow> dram option" where
  "fetch_status r st now s = do {
     ms \<leftarrow> mf_update r (set_status st now) (d_store s);
     Some (s\<lparr>d_store := ms\<rparr>)
   }"

definition dram_push :: "mf_ref \<Rightarrow> u64 \<Rightarrow> u64 \<Rightarrow> dram \<Rightarrow> dram option" where
  "dram_push r sim tot s = do {
     mf \<leftarrow> deref r (d_store s);
     ensure (d_id s = tlx_chip (mf_raw_addr mf));
     q \<leftarrow> dram_req_new r (nbk (d_config s)) (dram_bnk_indexing_policy (d_config s)) sim tot (d_store s);
     let (p, rs) = req_alloc q (d_reqs s);
     let s = s\<lparr>d_reqs := rs\<rparr>;
     s \<leftarrow> fetch_status r IN_PARTITION_MC_INTERFACE_QUEUE (sim + tot) s;
     f \<leftarrow> fifo_push (Some p) (d_mrqq s);
     let s = s\<lparr>d_mrqq := f\<rparr>;
     let s = upd_cmds (\<lambda>c. c\<lparr>n_req := n_req c + 1\<rparr>) (upd_window (\<lambda>w. w\<lparr>n_req_partial := n_req_partial w + 1\<rparr>) s);
     n \<leftarrow> que_length s;
     Some (upd_cmds (\<lambda>c. c\<lparr>max_mrqs_temp := max (max_mrqs_temp c) (ucast n)\<rparr>) s)
   }"

section \<open>Scheduling\<close>

definition scheduler_fifo :: "u64 \<Rightarrow> u64 \<Rightarrow> dram \<Rightarrow> dram option" where
  "scheduler_fifo sim tot s =
    (if fifo_empty (d_mrqq s) then Some s
     else do {
       p \<leftarrow> fifo_top (d_mrqq s);
       q \<leftarrow> rs_heap (d_reqs s) p;
       s \<leftarrow> fetch_status (dr_data q) IN_PARTITION_MC_BANK_ARB_QUEUE (sim + tot) s;
       ensure (dr_bk q < nbk (d_config s));
       let bkn = unat (dr_bk q);
       (if b_mrq (d_bk s bkn) = None then do {
          (m, f) \<leftarrow> fifo_pop (d_mrqq s);
          Some (upd_bank bkn (\<lambda>b. b\<lparr>b_mrq := m\<rparr>) (s\<lparr>d_mrqq := f\<rparr>)) }
        else Some s) })"

text \<open>One round of the \<open>while\<close> loop that empties \<open>mrqq\<close>, and the loop; \<open>n\<close> bounds its rounds.\<close>

definition admit_request :: "u64 \<Rightarrow> u64 \<Rightarrow> dram \<Rightarrow> dram option" where
  "admit_request sim tot s = do {
     (m, f) \<leftarrow> fifo_pop (d_mrqq s);
     p \<leftarrow> m;
     let s = s\<lparr>d_mrqq := f\<rparr>;
     q \<leftarrow> rs_heap (d_reqs s) p;
     mf \<leftarrow> deref (dr_data q) (d_store s);
     let s = upd_cmds (\<lambda>c. c\<lparr>total_n_access := total_n_access c + 1,
        total_n_writes := (if mf_type mf = WRITE_REQUEST then total_n_writes c + 1 else total_n_writes c),
        total_n_reads := (if mf_type mf = READ_REQUEST then total_n_reads c + 1 else total_n_reads c)\<rparr>) s;
     s \<leftarrow> fetch_status (dr_data q) IN_PARTITION_MC_INPUT_QUEUE (sim + tot) s;
     fs \<leftarrow> d_sched s;
     fs \<leftarrow> add_req p (d_reqs s) (d_store s) fs;
     Some (s\<lparr>d_sched := Some fs\<rparr>)
   }"

fun move_to_scheduler :: "nat \<Rightarrow> u64 \<Rightarrow> u64 \<Rightarrow> dram \<Rightarrow> dram option" where
  "move_to_scheduler n sim tot s =
    (if fifo_empty (d_mrqq s) then Some s
     else (case n of
       0 \<Rightarrow> None
     | Suc n \<Rightarrow> do { s \<leftarrow> admit_request sim tot s; move_to_scheduler n sim tot s }))"

declare move_to_scheduler.simps [simp del]

definition turn :: "dram \<Rightarrow> nat \<Rightarrow> nat" where
  "turn s i = unat ((of_nat i + d_prio s) mod nbk (d_config s))"

text \<open>
  Asking the scheduler for a request for an idle bank, and the loop over the banks, which ends at
  the first bank that is given one.
\<close>

definition schedule_bank :: "nat \<Rightarrow> u64 \<Rightarrow> u64 \<Rightarrow> dram \<Rightarrow> (bool \<times> dram) option" where
  "schedule_bank b sim tot s = do {
     fs \<leftarrow> d_sched s;
     (res, fs) \<leftarrow> schedule sim b (curr_row (d_bk s b)) (d_reqs s) (d_store s) fs;
     let s = s\<lparr>d_sched := Some fs\<rparr>;
     (case res of
        None \<Rightarrow> Some (False, s)
      | Some p \<Rightarrow> do {
          q \<leftarrow> rs_heap (d_reqs s) p;
          s \<leftarrow> fetch_status (dr_data q) IN_PARTITION_MC_BANK_ARB_QUEUE (sim + tot) s;
          let s = s\<lparr>d_prio := (d_prio s + 1) mod nbk (d_config s)\<rparr>;
          Some (True, upd_bank b (\<lambda>x. x\<lparr>b_mrq := Some p\<rparr>) s) })
   }"

fun feed_bank :: "nat list \<Rightarrow> u64 \<Rightarrow> u64 \<Rightarrow> dram \<Rightarrow> dram option" where
  "feed_bank [] sim tot s = Some s"
| "feed_bank (i # is) sim tot s =
    (case b_mrq (d_bk s (turn s i)) of
       None \<Rightarrow> do {
         (given, s) \<leftarrow> schedule_bank (turn s i) sim tot s;
         (if given then Some s else feed_bank is sim tot s) }
     | Some _ \<Rightarrow> feed_bank is sim tot s)"

definition scheduler_frfcfs :: "u64 \<Rightarrow> u64 \<Rightarrow> dram \<Rightarrow> dram option" where
  "scheduler_frfcfs sim tot s = do {
     s \<leftarrow> move_to_scheduler (length (nodes (d_mrqq s))) sim tot s;
     feed_bank (banks s) sim tot s
   }"

section \<open>Commands\<close>

definition get_bankgrp_number :: "dram_config \<Rightarrow> nat \<Rightarrow> nat option" where
  "get_bankgrp_number cfg i = do {
     g \<leftarrow> (case dram_bnkgrp_indexing_policy cfg of
        HIGHER_BITS \<Rightarrow> do {
          ensure (bk_tag_length cfg < 32);
          Some (drop_bit (unat (bk_tag_length cfg)) (of_nat i :: u32)) }
      | LOWER_BITS \<Rightarrow> Some (of_nat i AND (nbkgrp cfg - 1)));
     ensure (g < nbkgrp cfg);
     Some (unat g)
   }"

definition can_read :: "nat \<Rightarrow> nat \<Rightarrow> dram_req \<Rightarrow> dram \<Rightarrow> bool" where
  "can_read grp j q s = (CCDc s = 0 \<and> RCDc (d_bk s j) = 0 \<and> CCDLc (d_bkgrp s grp) = 0 \<and>
     curr_row (d_bk s j) = dr_row q \<and> dr_rw q = READ \<and> WTRc s = 0 \<and>
     b_state (d_bk s j) = BANK_ACTIVE \<and> \<not> fifo_full (d_rwq s))"

definition can_write :: "nat \<Rightarrow> nat \<Rightarrow> dram_req \<Rightarrow> dram \<Rightarrow> bool" where
  "can_write grp j q s = (CCDc s = 0 \<and> RCDWRc (d_bk s j) = 0 \<and> CCDLc (d_bkgrp s grp) = 0 \<and>
     curr_row (d_bk s j) = dr_row q \<and> dr_rw q = WRITE \<and> RTWc s = 0 \<and>
     b_state (d_bk s j) = BANK_ACTIVE \<and> \<not> fifo_full (d_rwq s))"

definition burst_cycles :: "dram_config \<Rightarrow> u32" where
  "burst_cycles cfg = BL cfg div data_command_freq_ratio cfg"

text \<open>Turning the data bus around, and putting one burst of the bank's request on it.\<close>

definition turn_bus :: "rw_kind \<Rightarrow> u32 \<Rightarrow> dram \<Rightarrow> dram option" where
  "turn_bus k lat s =
    (if d_rw s \<noteq> k then do {
       f \<leftarrow> fifo_set_min_length lat (d_rwq s);
       Some (s\<lparr>d_rw := k, d_rwq := f\<rparr>) }
     else Some s)"

definition send_burst :: "req_ref \<Rightarrow> dram \<Rightarrow> dram option" where
  "send_burst p s = do {
     f \<leftarrow> fifo_push (Some p) (d_rwq s);
     rs \<leftarrow> req_update p (\<lambda>q. q\<lparr>dr_txbytes := dr_txbytes q + dram_atom_size (d_config s)\<rparr>) (d_reqs s);
     Some (s\<lparr>d_rwq := f, d_reqs := rs\<rparr>)
   }"

definition count_burst :: "dram \<Rightarrow> dram" where
  "count_burst s = (let n = burst_cycles (d_config s) in
     upd_window (\<lambda>w. w\<lparr>bwutil := bwutil w + n, bwutil_partial := bwutil_partial w + n\<rparr>) s)"

definition print_cmd :: "dram_cmd \<Rightarrow> dram \<Rightarrow> dram" where
  "print_cmd c s = s\<lparr>d_printed := c # d_printed s\<rparr>"

text \<open>The end of both column commands: the column printed, and the request leaves when it is done.\<close>

definition finish_column :: "nat \<Rightarrow> req_ref \<Rightarrow> (nat \<Rightarrow> u32 \<Rightarrow> u32 \<Rightarrow> dram_cmd) \<Rightarrow> dram \<Rightarrow> dram option" where
  "finish_column j p cmd s = do {
     q \<leftarrow> rs_heap (d_reqs s) p;
     let s = print_cmd (cmd j (curr_row (d_bk s j)) (dr_col q + dr_txbytes q - dram_atom_size (d_config s))) s;
     Some (if \<not> dr_txbytes q < dr_nbytes q then upd_bank j (\<lambda>b. b\<lparr>b_mrq := None\<rparr>) s else s)
   }"

definition read_column :: "nat \<Rightarrow> nat \<Rightarrow> req_ref \<Rightarrow> mem_fetch \<Rightarrow> dram \<Rightarrow> dram option" where
  "read_column grp j p mf s = do {
     let cfg = d_config s;
     ensure (data_command_freq_ratio cfg \<noteq> 0);
     s \<leftarrow> turn_bus READ (CL cfg) s;
     s \<leftarrow> send_burst p s;
     let s = s\<lparr>CCDc := tCCD cfg\<rparr>;
     let s = upd_group grp (\<lambda>g. g\<lparr>CCDLc := tCCDL cfg\<rparr>) s;
     let s = s\<lparr>RTWc := tRTW cfg\<rparr>;
     let s = upd_bank j (\<lambda>b. b\<lparr>RTPc := burst_cycles cfg\<rparr>) s;
     let s = upd_group grp (\<lambda>g. g\<lparr>RTPLc := tRTPL cfg\<rparr>) s;
     let s = upd_cmds (\<lambda>c. if get_access_type mf = L2_WR_ALLOC_R then c\<lparr>n_rd_L2_A := n_rd_L2_A c + 1\<rparr>
                           else c\<lparr>n_rd := n_rd c + 1\<rparr>) s;
     let s = count_burst s;
     let s = upd_bank j (\<lambda>b. b\<lparr>n_access := n_access b + 1\<rparr>) s;
     finish_column j p RD s
   }"

definition write_column :: "nat \<Rightarrow> nat \<Rightarrow> req_ref \<Rightarrow> mem_fetch \<Rightarrow> dram \<Rightarrow> dram option" where
  "write_column grp j p mf s = do {
     let cfg = d_config s;
     ensure (data_command_freq_ratio cfg \<noteq> 0);
     s \<leftarrow> turn_bus WRITE (WL cfg) s;
     s \<leftarrow> send_burst p s;
     let s = s\<lparr>CCDc := tCCD cfg\<rparr>;
     let s = upd_group grp (\<lambda>g. g\<lparr>CCDLc := tCCDL cfg\<rparr>) s;
     let s = s\<lparr>WTRc := tWTR cfg\<rparr>;
     let s = upd_bank j (\<lambda>b. b\<lparr>WTPc := tWTP cfg\<rparr>) s;
     let s = upd_cmds (\<lambda>c. if get_access_type mf = L2_WRBK_ACC then c\<lparr>n_wr_WB := n_wr_WB c + 1\<rparr>
                           else c\<lparr>n_wr := n_wr c + 1\<rparr>) s;
     let s = count_burst s;
     finish_column j p WR s
   }"

definition issue_col_command :: "u64 \<Rightarrow> nat \<Rightarrow> dram \<Rightarrow> (bool \<times> dram) option" where
  "issue_col_command now j s = do {
     grp \<leftarrow> get_bankgrp_number (d_config s) j;
     (case b_mrq (d_bk s j) of
        None \<Rightarrow> Some (False, s)
      | Some p \<Rightarrow> do {
          q \<leftarrow> rs_heap (d_reqs s) p;
          s \<leftarrow> fetch_status (dr_data q) IN_PARTITION_DRAM now s;
          mf \<leftarrow> deref (dr_data q) (d_store s);
          (if can_read grp j q s then do {
             s \<leftarrow> read_column grp j p mf s;
             Some (True, s) }
           else if can_write grp j q s then do {
             s \<leftarrow> write_column grp j p mf s;
             Some (True, s) }
           else Some (False, s)) })
   }"

definition activate_row :: "nat \<Rightarrow> dram_req \<Rightarrow> dram \<Rightarrow> dram" where
  "activate_row j q s =
    (let cfg = d_config s;
         s = print_cmd (ACT j (dr_row q)) s;
         s = upd_bank j (\<lambda>b. b\<lparr>curr_row := dr_row q, b_state := BANK_ACTIVE\<rparr>) s;
         s = s\<lparr>RRDc := tRRD cfg\<rparr>;
         s = upd_bank j (\<lambda>b. b\<lparr>RCDc := tRCD cfg, RCDWRc := tRCDWR cfg, RASc := tRAS cfg, RCc := tRC cfg\<rparr>) s;
         s = s\<lparr>d_prio := (of_nat j + 1) mod nbk cfg\<rparr>;
         s = upd_window (\<lambda>w. w\<lparr>n_act_partial := n_act_partial w + 1\<rparr>) s
     in upd_cmds (\<lambda>c. c\<lparr>n_act := n_act c + 1\<rparr>) s)"

definition precharge_row :: "nat \<Rightarrow> dram \<Rightarrow> dram" where
  "precharge_row j s =
    (let cfg = d_config s;
         s = upd_bank j (\<lambda>b. b\<lparr>b_state := BANK_IDLE, RPc := tRP cfg\<rparr>) s;
         s = s\<lparr>d_prio := (of_nat j + 1) mod nbk cfg\<rparr>;
         s = upd_cmds (\<lambda>c. c\<lparr>n_pre := n_pre c + 1\<rparr>) s;
         s = upd_window (\<lambda>w. w\<lparr>n_pre_partial := n_pre_partial w + 1\<rparr>) s
     in print_cmd (PRE j (curr_row (d_bk s j))) s)"

definition can_activate :: "nat \<Rightarrow> dram \<Rightarrow> bool" where
  "can_activate j s = (RRDc s = 0 \<and> b_state (d_bk s j) = BANK_IDLE \<and> RPc (d_bk s j) = 0 \<and> RCc (d_bk s j) = 0)"

definition can_precharge :: "nat \<Rightarrow> nat \<Rightarrow> dram_req \<Rightarrow> dram \<Rightarrow> bool" where
  "can_precharge grp j q s = (curr_row (d_bk s j) \<noteq> dr_row q \<and> b_state (d_bk s j) = BANK_ACTIVE \<and>
     RASc (d_bk s j) = 0 \<and> WTPc (d_bk s j) = 0 \<and> RTPc (d_bk s j) = 0 \<and> RTPLc (d_bkgrp s grp) = 0)"

definition issue_row_command :: "u64 \<Rightarrow> nat \<Rightarrow> dram \<Rightarrow> (bool \<times> dram) option" where
  "issue_row_command now j s = do {
     grp \<leftarrow> get_bankgrp_number (d_config s) j;
     (case b_mrq (d_bk s j) of
        None \<Rightarrow> Some (False, s)
      | Some p \<Rightarrow> do {
          q \<leftarrow> rs_heap (d_reqs s) p;
          s \<leftarrow> fetch_status (dr_data q) IN_PARTITION_DRAM now s;
          Some (if can_activate j s then (True, activate_row j q s)
                else if can_precharge grp j q s then (True, precharge_row j s)
                else (False, s)) })
   }"

section \<open>One command cycle\<close>

text \<open>
  The burst that leaves the data queue. With its last burst a request is handed over: a reply to the
  return queue, a write-back to the memory partition.
\<close>

definition hand_over :: "req_ref \<Rightarrow> dram_req \<Rightarrow> u64 \<Rightarrow> dram \<Rightarrow> dram option" where
  "hand_over p q now s = do {
     s \<leftarrow> fetch_status (dr_data q) IN_PARTITION_MC_RETURNQ now s;
     mf \<leftarrow> deref (dr_data q) (d_store s);
     s \<leftarrow> (if get_access_type mf \<noteq> L1_WRBK_ACC \<and> get_access_type mf \<noteq> L2_WRBK_ACC then do {
        mf \<leftarrow> set_reply mf;
        ms \<leftarrow> mf_update (dr_data q) (\<lambda>_. mf) (d_store s);
        f \<leftarrow> fifo_push (Some (dr_data q)) (d_returnq s);
        Some (s\<lparr>d_store := ms, d_returnq := f\<rparr>) }
      else do {
        ms \<leftarrow> mf_delete (dr_data q) (d_store s);
        Some (s\<lparr>d_done := d_done s @ [(dr_data q, mf)], d_store := ms\<rparr>) });
     rs \<leftarrow> req_delete p (d_reqs s);
     Some (s\<lparr>d_reqs := rs\<rparr>)
   }"

definition return_data :: "u64 \<Rightarrow> dram \<Rightarrow> dram option" where
  "return_data now s =
    (if fifo_full (d_returnq s) then Some s
     else do {
       (cmd, f) \<leftarrow> fifo_pop (d_rwq s);
       let s = s\<lparr>d_rwq := f\<rparr>;
       (case cmd of
          None \<Rightarrow> Some s
        | Some p \<Rightarrow> do {
            rs \<leftarrow> req_update p (\<lambda>q. q\<lparr>dr_dqbytes := dr_dqbytes q + dram_atom_size (d_config s)\<rparr>) (d_reqs s);
            q \<leftarrow> rs_heap rs p;
            let s = s\<lparr>d_reqs := rs\<rparr>;
            (if dr_nbytes q \<le> dr_dqbytes q then hand_over p q now s
             else Some s) }) })"

definition run_scheduler :: "u64 \<Rightarrow> u64 \<Rightarrow> dram \<Rightarrow> dram option" where
  "run_scheduler sim tot s = do {
     s \<leftarrow> (case scheduler_type (d_config s) of
        DRAM_FIFO \<Rightarrow> scheduler_fifo sim tot s
      | DRAM_FRFCFS \<Rightarrow> scheduler_frfcfs sim tot s);
     n \<leftarrow> que_length s;
     Some (upd_window (\<lambda>w. w\<lparr>max_mrqs := max (max_mrqs w) n, ave_mrqs := ave_mrqs w + n,
                             ave_mrqs_partial := ave_mrqs_partial w + n\<rparr>) s)
   }"

text \<open>
  The statistics loops read the request of every bank; a dangling pointer would stop the model.
\<close>

definition live_requests :: "dram \<Rightarrow> bool" where
  "live_requests s = (\<forall>j \<in> set (banks s). case b_mrq (d_bk s j) of None \<Rightarrow> True | Some p \<Rightarrow> rs_heap (d_reqs s) p \<noteq> None)"

definition request_at :: "dram \<Rightarrow> nat \<Rightarrow> dram_req option" where
  "request_at s j = Option.bind (b_mrq (d_bk s j)) (rs_heap (d_reqs s))"

definition row_hit :: "dram \<Rightarrow> rw_kind \<Rightarrow> nat \<Rightarrow> bool" where
  "row_hit s k j = (case request_at s j of None \<Rightarrow> False
     | Some q \<Rightarrow> curr_row (d_bk s j) = dr_row q \<and> dr_rw q = k \<and> b_state (d_bk s j) = BANK_ACTIVE)"

definition group_of :: "dram \<Rightarrow> nat \<Rightarrow> nat" where
  "group_of s j = (case get_bankgrp_number (d_config s) j of Some g \<Rightarrow> g | None \<Rightarrow> 0)"

definition count_banks :: "(nat \<Rightarrow> bool) \<Rightarrow> dram \<Rightarrow> u64" where
  "count_banks P s = of_nat (length (filter P (banks s)))"

definition stats_before :: "dram \<Rightarrow> dram option" where
  "stats_before s = do {
     ensure (live_requests s);
     ensure (\<forall>j \<in> set (banks s). get_bankgrp_number (d_config s) j \<noteq> None);
     let pending = count_banks (\<lambda>j. b_mrq (d_bk s j) \<noteq> None) s;
     let hit = (\<lambda>j. row_hit s READ j \<or> row_hit s WRITE j);
     let groups = remdups (map (group_of s) (filter hit (banks s)));
     ensure (\<forall>g \<in> set groups. g < 8);
     let ready = (\<lambda>j. case request_at s j of None \<Rightarrow> False
        | Some q \<Rightarrow> can_read (group_of s j) j q s \<or> can_write (group_of s j) j q s);
     Some (upd_blp (\<lambda>b. b\<lparr>
       banks_1time := banks_1time b + pending,
       banks_acess_total := banks_acess_total b + (if 0 < pending then 1 else 0),
       banks_time_rw := banks_time_rw b + count_banks hit s,
       bkgrp_parallsim_rw := bkgrp_parallsim_rw b + of_nat (length groups),
       banks_access_rw_total := banks_access_rw_total b + (if 0 < count_banks hit s then 1 else 0),
       banks_time_ready := banks_time_ready b + count_banks ready s,
       banks_access_ready_total := banks_access_ready_total b + (if 0 < count_banks ready s then 1 else 0)\<rparr>) s)
   }"

text \<open>
  The idle account of a bank: \<open>k\<close> loses one when the bank has no request and nothing is being timed.
\<close>

definition idle_bank :: "nat \<Rightarrow> u32 \<times> dram \<Rightarrow> u32 \<times> dram" where
  "idle_bank j = (\<lambda>(k, s).
     if b_mrq (d_bk s j) = None then
       (let b = d_bk s j;
            quiet = (CCDc s = 0 \<and> RRDc s = 0 \<and> RTWc s = 0 \<and> WTRc s = 0 \<and> RCDc b = 0 \<and> RASc b = 0 \<and>
                     RCc b = 0 \<and> RPc b = 0 \<and> RCDWRc b = 0)
        in (if quiet then k - 1 else k, upd_bank j (\<lambda>b. b\<lparr>n_idle := n_idle b + 1\<rparr>) s))
     else (k, s))"

fun first_issued ::
  "(nat \<Rightarrow> dram \<Rightarrow> (bool \<times> dram) option) \<Rightarrow> nat list \<Rightarrow> dram \<Rightarrow> (bool \<times> dram) option" where
  "first_issued cmd [] s = Some (False, s)"
| "first_issued cmd (i # is) s = do {
     (issued, s) \<leftarrow> cmd (turn s i) s;
     (if issued then Some (True, s) else first_issued cmd is s) }"

fun idle_loop :: "nat list \<Rightarrow> u32 \<times> dram \<Rightarrow> u32 \<times> dram" where
  "idle_loop [] ks = ks"
| "idle_loop (i # is) ks = idle_loop is (idle_bank (turn (snd ks) i) ks)"

text \<open>The dual bus: a column command and then a row command.\<close>

definition dual_bus :: "u64 \<Rightarrow> dram \<Rightarrow> (bool \<times> bool \<times> u32 \<times> dram) option" where
  "dual_bus now s = do {
     (col, s) \<leftarrow> first_issued (issue_col_command now) (banks s) s;
     (row, s) \<leftarrow> first_issued (issue_row_command now) (banks s) s;
     let (k, s) = idle_loop (banks s) (nbk (d_config s), s);
     Some (col, row, k, s)
   }"

text \<open>The single bus: the same loop tries a column command, a row command and keeps the idle account.\<close>

fun single_bus_loop ::
  "nat list \<Rightarrow> u64 \<Rightarrow> bool \<Rightarrow> bool \<Rightarrow> u32 \<Rightarrow> dram \<Rightarrow> (bool \<times> bool \<times> u32 \<times> dram) option" where
  "single_bus_loop [] now col row k s = Some (col, row, k, s)"
| "single_bus_loop (i # is) now col row k s = do {
     let j = turn s i;
     (col, s) \<leftarrow> (if \<not> col then issue_col_command now j s else Some (col, s));
     (row, s) \<leftarrow> (if \<not> col \<and> \<not> row then issue_row_command now j s else Some (row, s));
     let (k, s) = idle_bank j (k, s);
     single_bus_loop is now col row k s }"

definition issue_commands :: "u64 \<Rightarrow> dram \<Rightarrow> (bool \<times> bool \<times> u32 \<times> dram) option" where
  "issue_commands now s =
    (if dual_bus_interface (d_config s) then dual_bus now s
     else single_bus_loop (banks s) now False False (nbk (d_config s)) s)"

definition count_issue :: "bool \<Rightarrow> bool \<Rightarrow> u32 \<Rightarrow> dram \<Rightarrow> dram" where
  "count_issue col row k s =
    (let issued = (row \<or> col);
         s = (if \<not> issued then
                upd_window (\<lambda>w. w\<lparr>n_nop_partial := n_nop_partial w + 1\<rparr>)
                  (upd_cmds (\<lambda>c. c\<lparr>n_nop := n_nop c + 1\<rparr>) s) else s);
         s = (if k \<noteq> 0 then
                upd_window (\<lambda>w. w\<lparr>n_activity_partial := n_activity_partial w + 1\<rparr>)
                  (upd_cmds (\<lambda>c. c\<lparr>n_activity := n_activity c + 1\<rparr>) s) else s);
         s = upd_cmds (\<lambda>c. c\<lparr>n_cmd := n_cmd c + 1\<rparr>) s;
         s = upd_window (\<lambda>w. w\<lparr>n_cmd_partial := n_cmd_partial w + 1\<rparr>) s;
         s = (if issued then
                upd_blp (\<lambda>b. b\<lparr>issued_total := issued_total b + 1,
                  issued_two := (if col \<and> row then issued_two b + 1 else issued_two b)\<rparr>) s else s);
         s = (if col then upd_blp (\<lambda>b. b\<lparr>issued_total_col := issued_total_col b + 1\<rparr>) s else s)
     in if row then upd_blp (\<lambda>b. b\<lparr>issued_total_row := issued_total_row b + 1\<rparr>) s else s)"

text \<open>Where the bandwidth of a cycle went.\<close>

definition add_if :: "bool \<Rightarrow> u64 \<Rightarrow> u64" where
  "add_if b n = (if b then n + 1 else n)"

definition column_limits :: "dram \<Rightarrow> nat \<Rightarrow> bw_stats \<Rightarrow> bw_stats" where
  "column_limits s j w =
    (let l = (CCDLc (d_bkgrp s (group_of s j)) \<noteq> 0); full = fifo_full (d_rwq s) in
     if row_hit s READ j then
       w\<lparr>RCDc_limit := add_if (RCDc (d_bk s j) \<noteq> 0) (RCDc_limit w),
         CCDLc_limit := add_if l (CCDLc_limit w),
         WTRc_limit := add_if (WTRc s \<noteq> 0) (WTRc_limit w),
         CCDc_limit := add_if (CCDc s \<noteq> 0) (CCDc_limit w),
         rwq_limit := add_if full (rwq_limit w),
         CCDLc_limit_alone := add_if (l \<and> WTRc s = 0) (CCDLc_limit_alone w),
         WTRc_limit_alone := add_if (\<not> l \<and> WTRc s \<noteq> 0) (WTRc_limit_alone w)\<rparr>
     else if row_hit s WRITE j then
       w\<lparr>RCDWRc_limit := add_if (RCDWRc (d_bk s j) \<noteq> 0) (RCDWRc_limit w),
         CCDLc_limit := add_if l (CCDLc_limit w),
         RTWc_limit := add_if (RTWc s \<noteq> 0) (RTWc_limit w),
         CCDc_limit := add_if (CCDc s \<noteq> 0) (CCDc_limit w),
         rwq_limit := add_if full (rwq_limit w),
         CCDLc_limit_alone := add_if (l \<and> RTWc s = 0) (CCDLc_limit_alone w),
         RTWc_limit_alone := add_if (\<not> l \<and> RTWc s \<noteq> 0) (RTWc_limit_alone w)\<rparr>
     else w)"

definition stats_after :: "bool \<Rightarrow> dram \<Rightarrow> dram option" where
  "stats_after col s = do {
     ensure (live_requests s);
     let found = list_ex (\<lambda>j. b_mrq (d_bk s j) \<noteq> None) (banks s);
     let s = (if found then upd_blp (\<lambda>b. b\<lparr>banks_acess_total_after := banks_acess_total_after b + 1\<rparr>) s else s);
     let rw_found = list_ex (\<lambda>j. row_hit s READ j \<or> row_hit s WRITE j) (banks s);
     let w = d_bw s;
     Some (s\<lparr>d_bw :=
       (if col \<or> CCDc s \<noteq> 0 then w\<lparr>util_bw := util_bw w + 1\<rparr>
        else if rw_found then fold (column_limits s) (banks s) (w\<lparr>wasted_bw_col := wasted_bw_col w + 1\<rparr>)
        else if found then w\<lparr>wasted_bw_row := wasted_bw_row w + 1\<rparr>
        else w\<lparr>idle_bw := idle_bw w + 1\<rparr>)\<rparr>)
   }"

definition dec2zero :: "u32 \<Rightarrow> u32" where
  "dec2zero x = (if x \<noteq> 0 then x - 1 else 0)"

definition tick_bank :: "bank \<Rightarrow> bank" where
  "tick_bank b = b\<lparr>RCDc := dec2zero (RCDc b), RASc := dec2zero (RASc b), RCc := dec2zero (RCc b),
     RPc := dec2zero (RPc b), RCDWRc := dec2zero (RCDWRc b), WTPc := dec2zero (WTPc b), RTPc := dec2zero (RTPc b)\<rparr>"

definition tick_group :: "bankgrp \<Rightarrow> bankgrp" where
  "tick_group g = g\<lparr>CCDLc := dec2zero (CCDLc g), RTPLc := dec2zero (RTPLc g)\<rparr>"

definition tick_counters :: "dram \<Rightarrow> dram" where
  "tick_counters s = s\<lparr>RRDc := dec2zero (RRDc s), CCDc := dec2zero (CCDc s), RTWc := dec2zero (RTWc s),
     WTRc := dec2zero (WTRc s),
     d_bk := (\<lambda>j. if j < unat (nbk (d_config s)) then tick_bank (d_bk s j) else d_bk s j),
     d_bkgrp := (\<lambda>g. if g < unat (nbkgrp (d_config s)) then tick_group (d_bkgrp s g) else d_bkgrp s g)\<rparr>"

definition dram_cycle :: "u64 \<Rightarrow> u64 \<Rightarrow> dram \<Rightarrow> dram option" where
  "dram_cycle sim tot s = do {
     s \<leftarrow> return_data (sim + tot) s;
     s \<leftarrow> run_scheduler sim tot s;
     s \<leftarrow> stats_before s;
     (col, row, k, s) \<leftarrow> issue_commands (sim + tot) s;
     s \<leftarrow> stats_after col (count_issue col row k s);
     Some (tick_counters s)
   }"

end
