(* ===== verification/DramRequests.thy ===== *)
theory DramRequests
  imports Dram
begin

text \<open>
  The requests behind the commands of the DRAM channel: a bank serves only requests with its own
  address, and a command is one that the request of its bank asks for.
\<close>

section \<open>Commands\<close>

fun is_column :: "dram_cmd \<Rightarrow> bool" where
  "is_column (RD _ _ _) = True"
| "is_column (WR _ _ _) = True"
| "is_column _ = False"

text \<open>How many column and row commands a list holds.\<close>

definition columns :: "dram_cmd list \<Rightarrow> nat" where
  "columns cs = length (filter is_column cs)"

definition row_cmds :: "dram_cmd list \<Rightarrow> nat" where
  "row_cmds cs = length (filter (\<lambda>c. \<not> is_column c) cs)"

lemma columns_simps [simp]:
  "columns [] = 0" "row_cmds [] = 0" "columns (cs @ ds) = columns cs + columns ds"
  "row_cmds (cs @ ds) = row_cmds cs + row_cmds ds" "is_column c \<Longrightarrow> columns [c] = Suc 0"
  "is_column c \<Longrightarrow> row_cmds [c] = 0" "columns [ACT j r] = 0" "columns [PRE j r] = 0"
  "row_cmds [ACT j r] = Suc 0" "row_cmds [PRE j r] = Suc 0"
  by (simp_all add: columns_def row_cmds_def)

fun cmd_bank :: "dram_cmd \<Rightarrow> nat" where
  "cmd_bank (RD j _ _) = j"
| "cmd_bank (WR j _ _) = j"
| "cmd_bank (ACT j _) = j"
| "cmd_bank (PRE j _) = j"

text \<open>
  What a request may ask of its bank: to read or write, according to its kind, the next column it has
  not transferred in its own row; to open its row; or to close another row.
\<close>

fun fits :: "dram_cmd \<Rightarrow> dram_req \<Rightarrow> bool" where
  "fits (RD _ r c) q = (dr_rw q = READ \<and> dr_row q = r \<and> dr_col q + dr_txbytes q = c)"
| "fits (WR _ r c) q = (dr_rw q = WRITE \<and> dr_row q = r \<and> dr_col q + dr_txbytes q = c)"
| "fits (ACT _ r) q = (dr_row q = r)"
| "fits (PRE _ r) q = (dr_row q \<noteq> r)"

definition serves :: "dram_cmd \<Rightarrow> dram_req \<Rightarrow> bool" where
  "serves c q = (unat (dr_bk q) = cmd_bank c \<and> fits c q)"

lemma fits_row: "\<not> is_column c \<Longrightarrow> dr_row q' = dr_row q \<Longrightarrow> fits c q' = fits c q"
  by (cases c) simp_all

section \<open>Requests keep their bank\<close>

definition req_store_ok :: "req_store \<Rightarrow> bool" where
  "req_store_ok rs = (\<forall>p. rs_heap rs p \<noteq> None \<longrightarrow> p < rs_next rs)"

text \<open>Request \<open>p\<close>, if it still exists, is for bank \<open>b\<close>.\<close>

definition for_bank :: "req_store \<Rightarrow> nat \<Rightarrow> req_ref \<Rightarrow> bool" where
  "for_bank rs b p = (p < rs_next rs \<and> (\<forall>q. rs_heap rs p = Some q \<longrightarrow> unat (dr_bk q) = b))"

definition older :: "req_store \<Rightarrow> req_store \<Rightarrow> bool" where
  "older rs rs' = (rs_next rs \<le> rs_next rs' \<and> (\<forall>p < rs_next rs. \<forall>q'. rs_heap rs' p = Some q' \<longrightarrow>
     (\<exists>q. rs_heap rs p = Some q \<and> dr_bk q' = dr_bk q)) \<and> (req_store_ok rs \<longrightarrow> req_store_ok rs'))"

lemma older_refl [simp]: "older rs rs"
  by (simp add: older_def)

lemma older_trans:
  assumes "older a b" "older b c"
  shows "older a c"
proof -
  have "\<exists>q. rs_heap a p = Some q \<and> dr_bk q' = dr_bk q" if p: "p < rs_next a" "rs_heap c p = Some q'" for p q'
  proof -
    have "p < rs_next b" using p(1) assms(1) by (simp add: older_def)
    then obtain q where "rs_heap b p = Some q" "dr_bk q' = dr_bk q" using assms(2) p(2) unfolding older_def by blast
    then show ?thesis using assms(1) p(1) unfolding older_def by metis
  qed
  then show ?thesis using assms by (simp add: older_def)
qed

lemma older_for_bank: "older rs rs' \<Longrightarrow> for_bank rs b p \<Longrightarrow> for_bank rs' b p"
  unfolding older_def for_bank_def by (elim conjE) (intro conjI allI impI, linarith, metis)

lemma older_alloc: "req_alloc q rs = (p, rs') \<Longrightarrow> older rs rs'"
  by (auto simp: req_alloc_def older_def req_store_ok_def less_Suc_eq)

lemma older_update: "req_update p f rs = Some rs' \<Longrightarrow> (\<And>q. dr_bk (f q) = dr_bk q) \<Longrightarrow> older rs rs'"
  by (auto simp: req_update_def older_def req_store_ok_def bind_Some_iff split: if_splits)

lemma older_delete: "req_delete p rs = Some rs' \<Longrightarrow> older rs rs'"
  by (auto simp: req_delete_def older_def req_store_ok_def bind_Some_iff split: if_splits)

definition bins_ok :: "req_store \<Rightarrow> row_queues \<Rightarrow> bool" where
  "bins_ok rs rq = (\<forall>b row l. rq_bins rq b row = Some l \<longrightarrow> (\<forall>p \<in> set l. for_bank rs b p))"

text \<open>Every request that the scheduler or a bank holds is for that bank.\<close>

definition placed :: "dram \<Rightarrow> bool" where
  "placed s = (req_store_ok (d_reqs s) \<and>
     (\<forall>j p. b_mrq (d_bk s j) = Some p \<longrightarrow> for_bank (d_reqs s) j p) \<and>
     (\<forall>fs. d_sched s = Some fs \<longrightarrow> bins_ok (d_reqs s) (m_reads fs) \<and> bins_ok (d_reqs s) (m_writes fs)))"

text \<open>Steps that give no bank a new request and leave the scheduler alone.\<close>

definition drifts :: "dram \<Rightarrow> dram \<Rightarrow> bool" where
  "drifts s s' = (older (d_reqs s) (d_reqs s') \<and> d_sched s' = d_sched s \<and>
     (\<forall>j. b_mrq (d_bk s' j) = b_mrq (d_bk s j) \<or> b_mrq (d_bk s' j) = None))"

lemma drifts_trans: "drifts s t \<Longrightarrow> drifts t u \<Longrightarrow> drifts s u"
  using older_trans[of "d_reqs s" "d_reqs t" "d_reqs u"] unfolding drifts_def by metis

lemma older_bins: "older rs rs' \<Longrightarrow> bins_ok rs rq \<Longrightarrow> bins_ok rs' rq"
  unfolding bins_ok_def using older_for_bank by blast

lemma drifts_placed:
  assumes "drifts s s'" "placed s"
  shows "placed s'"
proof -
  have o: "older (d_reqs s) (d_reqs s')" using assms(1) by (simp add: drifts_def)
  have "for_bank (d_reqs s') j p" if "b_mrq (d_bk s' j) = Some p" for j p
  proof -
    have "b_mrq (d_bk s j) = Some p" using assms(1) that unfolding drifts_def by (metis option.discI)
    then show ?thesis using assms(2) older_for_bank[OF o] by (simp add: placed_def)
  qed
  moreover have "req_store_ok (d_reqs s')" using o assms(2) by (simp add: older_def placed_def)
  moreover have "bins_ok (d_reqs s') (m_reads fs) \<and> bins_ok (d_reqs s') (m_writes fs)" if "d_sched s' = Some fs" for fs
    using assms that older_bins[OF o] by (simp add: drifts_def placed_def)
  ultimately show ?thesis by (simp add: placed_def)
qed

definition same_requests :: "dram \<Rightarrow> dram \<Rightarrow> bool" where
  "same_requests s s' = (d_reqs s' = d_reqs s \<and> d_sched s' = d_sched s \<and> (\<forall>j. b_mrq (d_bk s' j) = b_mrq (d_bk s j)))"

lemma same_requests_refl [simp]: "same_requests s s"
  by (simp add: same_requests_def)

lemma same_requests_trans: "same_requests s t \<Longrightarrow> same_requests t u \<Longrightarrow> same_requests s u"
  by (simp add: same_requests_def)

lemma same_requests_drifts: "same_requests s s' \<Longrightarrow> drifts s s'"
  by (simp add: same_requests_def drifts_def)

lemma same_requests_at: "same_requests s s' \<Longrightarrow> request_at s' j = request_at s j"
  by (simp add: same_requests_def request_at_def)

lemma placed_bank:
  assumes "placed s" "request_at s j = Some q"
  shows "unat (dr_bk q) = j"
  using assms by (auto simp: placed_def request_at_def bind_Some_iff for_bank_def)

lemma fetch_status_requests: "fetch_status r st now s = Some s' \<Longrightarrow> same_requests s s'"
  by (auto simp: fetch_status_def bind_Some_iff same_requests_def)

lemma dram_push_drifts:
  assumes "dram_push r sim tot s = Some s'"
  shows "drifts s s'"
proof -
  obtain q p rs s1 where a: "req_alloc q (d_reqs s) = (p, rs)"
    and s1: "fetch_status r IN_PARTITION_MC_INTERFACE_QUEUE (sim + tot) (s\<lparr>d_reqs := rs\<rparr>) = Some s1"
    and s': "same_requests s1 s'"
    using assms by (auto simp: dram_push_def bind_Some_iff Let_def req_alloc_def same_requests_def)
  have "drifts s (s\<lparr>d_reqs := rs\<rparr>)" using older_alloc[OF a] by (simp add: drifts_def)
  then show ?thesis
    using drifts_trans same_requests_drifts[OF same_requests_trans[OF fetch_status_requests[OF s1] s']] by blast
qed

lemma return_queue_pop_requests: "return_queue_pop s = Some (r, s') \<Longrightarrow> same_requests s s'"
  by (auto simp: return_queue_pop_def bind_Some_iff same_requests_def)

lemma hand_over_drifts:
  assumes "hand_over p q now s = Some s'"
  shows "drifts s s'"
proof -
  obtain s1 mf s2 rs where s1: "fetch_status (dr_data q) IN_PARTITION_MC_RETURNQ now s = Some s1"
    and s2: "(if get_access_type mf \<noteq> L1_WRBK_ACC \<and> get_access_type mf \<noteq> L2_WRBK_ACC then do {
        mf \<leftarrow> set_reply mf;
        ms \<leftarrow> mf_update (dr_data q) (\<lambda>_. mf) (d_store s1);
        f \<leftarrow> fifo_push (Some (dr_data q)) (d_returnq s1);
        Some (s1\<lparr>d_store := ms, d_returnq := f\<rparr>) }
      else do {
        ms \<leftarrow> mf_delete (dr_data q) (d_store s1);
        Some (s1\<lparr>d_done := d_done s1 @ [(dr_data q, mf)], d_store := ms\<rparr>) }) = Some s2"
    and rs: "req_delete p (d_reqs s2) = Some rs" "s' = s2\<lparr>d_reqs := rs\<rparr>"
    using assms by (auto simp: hand_over_def bind_Some_iff)
  have "same_requests s1 s2"
    using s2 by (auto simp: bind_Some_iff same_requests_def split: if_split_asm)
  then have "drifts s s2"
    using fetch_status_requests[OF s1] same_requests_trans same_requests_drifts by blast
  moreover have "drifts s2 s'" using older_delete[OF rs(1)] by (simp add: drifts_def rs(2))
  ultimately show ?thesis by (rule drifts_trans)
qed

lemma return_data_drifts:
  assumes "return_data now s = Some s'"
  shows "drifts s s'"
proof (cases "fifo_full (d_returnq s)")
  case True
  then show ?thesis using assms by (simp add: return_data_def same_requests_drifts)
next
  case False
  then obtain cmd f where pop: "fifo_pop (d_rwq s) = Some (cmd, f)"
    using assms by (auto simp: return_data_def bind_Some_iff)
  show ?thesis
  proof (cases cmd)
    case None
    then show ?thesis using assms False pop by (auto simp: return_data_def drifts_def)
  next
    case (Some p)
    then obtain rs q where rs: "req_update p (\<lambda>q. q\<lparr>dr_dqbytes := dr_dqbytes q + dram_atom_size (d_config s)\<rparr>) (d_reqs s) = Some rs"
      and rest: "(if dr_nbytes q \<le> dr_dqbytes q then hand_over p q now (s\<lparr>d_rwq := f, d_reqs := rs\<rparr>)
          else Some (s\<lparr>d_rwq := f, d_reqs := rs\<rparr>)) = Some s'"
      using assms False pop by (auto simp: return_data_def bind_Some_iff Let_def)
    have "drifts s (s\<lparr>d_rwq := f, d_reqs := rs\<rparr>)" using older_update[OF rs] by (simp add: drifts_def)
    then show ?thesis
      using rest drifts_trans[OF _ hand_over_drifts] by (cases "dr_nbytes q \<le> dr_dqbytes q") auto
  qed
qed

section \<open>Scheduling gives a bank its own requests\<close>

lemma scheduler_fifo_placed:
  assumes "scheduler_fifo sim tot s = Some s'" "placed s"
  shows "placed s'"
proof (cases "fifo_empty (d_mrqq s)")
  case True
  then show ?thesis using assms by (simp add: scheduler_fifo_def)
next
  case False
  then obtain p q s1 where p: "fifo_top (d_mrqq s) = Some p" "rs_heap (d_reqs s) p = Some q"
    and s1: "fetch_status (dr_data q) IN_PARTITION_MC_BANK_ARB_QUEUE (sim + tot) s = Some s1"
    and rest: "(if b_mrq (d_bk s1 (unat (dr_bk q))) = None then do {
          (m, f) \<leftarrow> fifo_pop (d_mrqq s1);
          Some (upd_bank (unat (dr_bk q)) (\<lambda>b. b\<lparr>b_mrq := m\<rparr>) (s1\<lparr>d_mrqq := f\<rparr>)) }
        else Some s1) = Some s'"
    using assms(1) by (auto simp: scheduler_fifo_def bind_Some_iff Let_def)
  note same = fetch_status_requests[OF s1]
  have "d_mrqq s1 = d_mrqq s" using s1 by (auto simp: fetch_status_def bind_Some_iff)
  then have top: "m = Some p" if "fifo_pop (d_mrqq s1) = Some (m, f)" for m f
    using that p(1) by (auto simp: fifo_top_def fifo_pop_def bind_Some_iff Let_def split: list.splits)
  have "placed s1" using drifts_placed[OF same_requests_drifts[OF same] assms(2)] .
  moreover have "for_bank (d_reqs s1) (unat (dr_bk q)) p"
    using assms(2) p(2) same by (auto simp: for_bank_def placed_def req_store_ok_def same_requests_def)
  ultimately show ?thesis
    using rest top by (auto simp: placed_def upd_bank_def bind_Some_iff split: if_splits)
qed

lemma queue_push_bins:
  assumes "bins_ok rs rq" "for_bank rs (unat (dr_bk q)) p"
  shows "bins_ok rs (queue_push p q rq)"
proof (cases "rq_bins rq (unat (dr_bk q)) (dr_row q)")
  case None
  then show ?thesis using assms by (auto simp: bins_ok_def queue_push_def Let_def split: if_splits)
next
  case (Some l)
  then have "\<forall>x \<in> set l. for_bank rs (unat (dr_bk q)) x" using assms(1) unfolding bins_ok_def by blast
  then show ?thesis using assms Some by (auto simp: bins_ok_def queue_push_def Let_def split: if_splits)
qed

lemma add_req_bins:
  assumes "add_req p rs ms fs = Some fs'" "bins_ok rs (m_reads fs)" "bins_ok rs (m_writes fs)" "req_store_ok rs"
  shows "bins_ok rs (m_reads fs') \<and> bins_ok rs (m_writes fs')"
proof -
  obtain q where q: "rs_heap rs p = Some q" using assms(1) by (auto simp: add_req_def bind_Some_iff)
  then have "for_bank rs (unat (dr_bk q)) p" using assms(4) by (auto simp: for_bank_def req_store_ok_def)
  then show ?thesis
    using assms(1-3) q queue_push_bins by (auto simp: add_req_def bind_Some_iff split: if_splits)
qed

lemma admit_request_steps:
  "admit_request sim tot s = Some s' \<Longrightarrow> \<exists>s1 fs fs' p. d_sched s1 = Some fs \<and>
     add_req p (d_reqs s1) (d_store s1) fs = Some fs' \<and> s' = s1\<lparr>d_sched := Some fs'\<rparr> \<and> same_requests s s1"
  by (clarsimp simp: admit_request_def bind_Some_iff Let_def)
    (drule fetch_status_requests, intro exI conjI, assumption, assumption, rule refl, simp add: same_requests_def)

lemma admit_request_placed:
  assumes "admit_request sim tot s = Some s'" "placed s"
  shows "placed s'"
proof -
  obtain s1 fs fs' p where fs: "d_sched s1 = Some fs" "add_req p (d_reqs s1) (d_store s1) fs = Some fs'"
    "s' = s1\<lparr>d_sched := Some fs'\<rparr>" and s1: "same_requests s s1"
    using admit_request_steps[OF assms(1)] by blast
  have p1: "placed s1" using drifts_placed[OF same_requests_drifts[OF s1] assms(2)] .
  have "bins_ok (d_reqs s1) (m_reads fs') \<and> bins_ok (d_reqs s1) (m_writes fs')"
    by (rule add_req_bins[OF fs(2)]) (use p1 fs(1) in \<open>auto simp: placed_def\<close>)
  then show ?thesis using p1 by (simp add: placed_def fs(3))
qed

lemma move_to_scheduler_placed: "move_to_scheduler n sim tot s = Some s' \<Longrightarrow> placed s \<Longrightarrow> placed s'"
proof (induction n arbitrary: s)
  case 0
  then show ?case by (subst (asm) move_to_scheduler.simps) (auto split: if_splits)
next
  case (Suc n)
  show ?case
  proof (cases "fifo_empty (d_mrqq s)")
    case True
    then show ?thesis using Suc.prems by (subst (asm) move_to_scheduler.simps) simp
  next
    case False
    then obtain s1 where "admit_request sim tot s = Some s1" "move_to_scheduler n sim tot s1 = Some s'"
      using Suc.prems by (auto simp: move_to_scheduler.simps[of "Suc n" sim tot s] bind_Some_iff)
    then show ?thesis using Suc.IH admit_request_placed Suc.prems(2) by blast
  qed
qed

lemma take_oldest_bins:
  assumes "take_oldest bank row rs rq = Some (p, rq')" "bins_ok rs rq"
  shows "for_bank rs bank p \<and> bins_ok rs rq'"
proof -
  obtain bin where bin: "rq_bins rq bank row = Some bin" "bin \<noteq> []" "p = last bin"
    using assms(1) by (auto simp: take_oldest_def bind_Some_iff Let_def split: if_split_asm)
  have kept: "(b = bank \<and> l = butlast bin) \<or> rq_bins rq b r = Some l" if "rq_bins rq' b r = Some l" for b r l
    using assms(1) bin(1) that by (auto simp: take_oldest_def bind_Some_iff Let_def split: if_split_asm)
  have all: "\<forall>x \<in> set bin. for_bank rs bank x" using assms(2) bin(1) unfolding bins_ok_def by blast
  have "bins_ok rs rq'"
    unfolding bins_ok_def
  proof (intro allI impI ballI)
    fix b r l x assume l: "rq_bins rq' b r = Some l" and x: "x \<in> set l"
    from kept[OF l] show "for_bank rs b x"
      using all x assms(2) in_set_butlastD[of x bin] unfolding bins_ok_def by blast
  qed
  then show ?thesis using all bin(2,3) by simp
qed

lemma schedule_bins:
  assumes "schedule sim bank r rs ms fs = Some (res, fs')" "bins_ok rs (m_reads fs)" "bins_ok rs (m_writes fs)"
  shows "bins_ok rs (m_reads fs') \<and> bins_ok rs (m_writes fs') \<and> (\<forall>p. res = Some p \<longrightarrow> for_bank rs bank p)"
proof -
  let ?rq = "if next_mode fs = WRITE_MODE then m_writes fs else m_reads fs"
  obtain choice where c: "choose_row bank r rs ?rq = Some choice"
    using assms(1) by (auto simp: schedule_def bind_Some_iff Let_def split: if_splits)
  show ?thesis
  proof (cases choice)
    case None
    then show ?thesis using assms c by (auto simp: schedule_def bind_Some_iff Let_def split: if_splits)
  next
    case (Some rh)
    obtain row h where rh: "rh = (row, h)" by (cases rh)
    obtain p rq wr where p: "take_oldest bank row rs ?rq = Some (p, rq)" "res = Some p"
      and fs': "m_reads fs' = (if next_mode fs = WRITE_MODE then m_reads fs else rq)"
        "m_writes fs' = (if next_mode fs = WRITE_MODE then rq else m_writes fs)"
      using assms(1) c unfolding Some rh schedule_def
      by (cases "next_mode fs = WRITE_MODE"; cases h) (auto simp: bind_Some_iff Let_def split: if_splits)
    have "bins_ok rs ?rq" using assms(2,3) by simp
    from take_oldest_bins[OF p(1) this] show ?thesis using p(2) fs' assms(2,3) by simp
  qed
qed

lemma schedule_bank_placed:
  assumes "schedule_bank b sim tot s = Some (given, s')" "placed s"
  shows "placed s'"
proof -
  obtain fs res fs' where fs: "d_sched s = Some fs"
    "schedule sim b (curr_row (d_bk s b)) (d_reqs s) (d_store s) fs = Some (res, fs')"
    using assms(1) by (auto simp: schedule_bank_def bind_Some_iff)
  have bins: "bins_ok (d_reqs s) (m_reads fs') \<and> bins_ok (d_reqs s) (m_writes fs') \<and>
      (\<forall>p. res = Some p \<longrightarrow> for_bank (d_reqs s) b p)"
    by (rule schedule_bins[OF fs(2)]) (use assms(2) fs(1) in \<open>auto simp: placed_def\<close>)
  then show ?thesis
    using assms fs
    by (cases res) (auto simp: schedule_bank_def bind_Some_iff Let_def fetch_status_def placed_def upd_bank_def
      split: if_split_asm)
qed

lemma feed_bank_placed: "feed_bank is sim tot s = Some s' \<Longrightarrow> placed s \<Longrightarrow> placed s'"
proof (induction "is" arbitrary: s)
  case (Cons i "is")
  then show ?case
    using schedule_bank_placed by (auto simp: bind_Some_iff split: option.splits if_split_asm)
qed simp

lemma run_scheduler_placed:
  assumes "run_scheduler sim tot s = Some s'" "placed s"
  shows "placed s'"
proof -
  obtain s1 n where s1: "(case scheduler_type (d_config s) of
        DRAM_FIFO \<Rightarrow> scheduler_fifo sim tot s | DRAM_FRFCFS \<Rightarrow> scheduler_frfcfs sim tot s) = Some s1"
    and s': "s' = upd_window (\<lambda>w. w\<lparr>max_mrqs := max (max_mrqs w) n, ave_mrqs := ave_mrqs w + n,
                             ave_mrqs_partial := ave_mrqs_partial w + n\<rparr>) s1"
    using assms(1) by (auto simp: run_scheduler_def bind_Some_iff)
  have "placed s1"
    using s1 assms(2) scheduler_fifo_placed move_to_scheduler_placed feed_bank_placed
    by (cases "scheduler_type (d_config s)") (auto simp: scheduler_frfcfs_def bind_Some_iff)
  then show ?thesis by (simp add: s' placed_def)
qed

section \<open>Commands fit the requests of their banks\<close>

definition keeps_rows :: "dram \<Rightarrow> dram \<Rightarrow> bool" where
  "keeps_rows s s' = (\<forall>j q'. request_at s' j = Some q' \<longrightarrow> (\<exists>q. request_at s j = Some q \<and> dr_row q' = dr_row q))"

text \<open>
  From \<open>s\<close> to \<open>s'\<close> the commands \<open>cs\<close> fit the requests that the banks have in \<open>s\<close>; only a column command
  changes these requests, and it changes no row.
\<close>

definition aims :: "dram_cmd list \<Rightarrow> dram \<Rightarrow> dram \<Rightarrow> bool" where
  "aims cs s s' = ((\<forall>c \<in> set cs. \<exists>q. request_at s (cmd_bank c) = Some q \<and> fits c q) \<and> keeps_rows s s' \<and>
     (columns cs = 0 \<longrightarrow> (\<forall>j. request_at s' j = request_at s j)) \<and> drifts s s')"

lemma aims_none: "same_requests s s' \<Longrightarrow> aims [] s s'"
  by (simp add: aims_def keeps_rows_def same_requests_at same_requests_drifts)

lemma aims_trans:
  assumes "aims cs s s1" "aims ds s1 s2" "columns cs = 0 \<or> columns ds = 0"
  shows "aims (cs @ ds) s s2"
proof -
  have "\<exists>q. request_at s (cmd_bank d) = Some q \<and> fits d q" if d: "d \<in> set ds" for d
  proof -
    obtain q where q: "request_at s1 (cmd_bank d) = Some q" "fits d q" using assms(2) d unfolding aims_def by blast
    show ?thesis
    proof (cases "columns cs = 0")
      case True
      then show ?thesis using assms(1) q by (simp add: aims_def)
    next
      case False
      then have "\<not> is_column d" using assms(3) d by (auto simp: columns_def filter_empty_conv)
      then show ?thesis using assms(1) q fits_row unfolding aims_def keeps_rows_def by metis
    qed
  qed
  moreover have "keeps_rows s s2" using assms(1,2) unfolding aims_def keeps_rows_def by metis
  moreover have "drifts s s2" using assms(1,2) drifts_trans unfolding aims_def by blast
  ultimately show ?thesis using assms(1,2) by (auto simp: aims_def)
qed

lemma aims_row:
  assumes "request_at s (cmd_bank c) = Some q" "fits c q" "\<not> is_column c" "same_requests s s'"
  shows "aims [c] s s'"
  using assms by (simp add: aims_def keeps_rows_def same_requests_at same_requests_drifts)

lemma activate_aims: "request_at s j = Some q \<Longrightarrow> aims [ACT j (dr_row q)] s (activate_row j q s)"
  by (rule aims_row) (auto simp: same_requests_def activate_row_def Let_def print_cmd_def upd_bank_def)

lemma precharge_aims:
  "request_at s j = Some q \<Longrightarrow> can_precharge grp j q s \<Longrightarrow> aims [PRE j (curr_row (d_bk s j))] s (precharge_row j s)"
  by (rule aims_row) (auto simp: same_requests_def precharge_row_def Let_def print_cmd_def upd_bank_def can_precharge_def)

text \<open>A burst: the request of the bank has transferred one more atom, and leaves the bank at its end.\<close>

definition burst_sent :: "req_ref \<Rightarrow> dram_req \<Rightarrow> dram \<Rightarrow> dram \<Rightarrow> bool" where
  "burst_sent p q s s' = (d_reqs s' = (d_reqs s)\<lparr>rs_heap := (rs_heap (d_reqs s))(p \<mapsto>
       q\<lparr>dr_txbytes := dr_txbytes q + dram_atom_size (d_config s)\<rparr>)\<rparr> \<and> d_sched s' = d_sched s \<and>
     (\<forall>j. b_mrq (d_bk s' j) = b_mrq (d_bk s j) \<or> b_mrq (d_bk s' j) = None))"

lemma aims_column:
  assumes "b_mrq (d_bk s (cmd_bank c)) = Some p" "rs_heap (d_reqs s) p = Some q" "fits c q" "is_column c"
    and "burst_sent p q s s'"
  shows "aims [c] s s'"
proof -
  have older: "older (d_reqs s) (d_reqs s')"
    using assms(2,5) by (auto simp: burst_sent_def older_def req_store_ok_def)
  have "request_at s (cmd_bank c) = Some q" using assms(1,2) by (simp add: request_at_def)
  moreover have "keeps_rows s s'"
    unfolding keeps_rows_def
  proof (intro allI impI)
    fix j q' assume q': "request_at s' j = Some q'"
    then obtain p' where p': "b_mrq (d_bk s' j) = Some p'" "rs_heap (d_reqs s') p' = Some q'"
      by (auto simp: request_at_def bind_Some_iff)
    then have "b_mrq (d_bk s j) = Some p'" using assms(5) unfolding burst_sent_def by (metis option.discI)
    then show "\<exists>q. request_at s j = Some q \<and> dr_row q' = dr_row q"
      using p'(2) assms(2,5) by (auto simp: burst_sent_def request_at_def split: if_splits)
  qed
  moreover have "drifts s s'" using older assms(5) by (simp add: drifts_def burst_sent_def)
  ultimately show ?thesis using assms(3,4) by (simp add: aims_def)
qed

text \<open>Both column commands: turn the bus, send the burst, set counters, and finish.\<close>

definition same_control :: "dram \<Rightarrow> dram \<Rightarrow> bool" where
  "same_control s s' = (same_requests s s' \<and> d_config s' = d_config s \<and> d_printed s' = d_printed s \<and>
     (\<forall>j. curr_row (d_bk s' j) = curr_row (d_bk s j)))"

lemma turn_bus_control: "turn_bus k lat s = Some s' \<Longrightarrow> same_control s s'"
  by (auto simp: turn_bus_def bind_Some_iff same_control_def same_requests_def split: if_splits)

lemma send_burst_reqs:
  assumes "send_burst p s = Some s'"
  shows "\<exists>q. rs_heap (d_reqs s) p = Some q \<and> burst_sent p q s s' \<and> d_bk s' = d_bk s \<and> d_config s' = d_config s \<and>
    d_printed s' = d_printed s"
  using assms by (auto simp: send_burst_def req_update_def bind_Some_iff burst_sent_def)

lemma finish_column_reqs:
  assumes "finish_column j p cmd s = Some s'"
  shows "\<exists>q. rs_heap (d_reqs s) p = Some q \<and> d_reqs s' = d_reqs s \<and> d_sched s' = d_sched s \<and>
    (\<forall>i. b_mrq (d_bk s' i) = b_mrq (d_bk s i) \<or> b_mrq (d_bk s' i) = None) \<and>
    d_printed s' = cmd j (curr_row (d_bk s j)) (dr_col q + dr_txbytes q - dram_atom_size (d_config s)) # d_printed s"
  using assms by (auto simp: finish_column_def bind_Some_iff Let_def print_cmd_def upd_bank_def split: if_splits)

lemma column_reqs:
  assumes "turn_bus k lat s = Some s1" "send_burst p s1 = Some s2" "same_control s2 s3" "finish_column j p cmd s3 = Some s'"
  shows "\<exists>q. rs_heap (d_reqs s) p = Some q \<and> burst_sent p q s s' \<and>
    d_printed s' = cmd j (curr_row (d_bk s j)) (dr_col q + dr_txbytes q) # d_printed s"
proof -
  note c1 = turn_bus_control[OF assms(1), unfolded same_control_def same_requests_def]
  obtain q where q: "rs_heap (d_reqs s1) p = Some q" "burst_sent p q s1 s2" "d_bk s2 = d_bk s1"
    "d_config s2 = d_config s1" "d_printed s2 = d_printed s1"
    using send_burst_reqs[OF assms(2)] by blast
  note c3 = assms(3)[unfolded same_control_def same_requests_def]
  obtain q3 where q3: "rs_heap (d_reqs s3) p = Some q3" "d_reqs s' = d_reqs s3" "d_sched s' = d_sched s3"
    "\<forall>i. b_mrq (d_bk s' i) = b_mrq (d_bk s3 i) \<or> b_mrq (d_bk s' i) = None"
    "d_printed s' = cmd j (curr_row (d_bk s3 j)) (dr_col q3 + dr_txbytes q3 - dram_atom_size (d_config s3)) # d_printed s3"
    using finish_column_reqs[OF assms(4)] by blast
  have "q3 = q\<lparr>dr_txbytes := dr_txbytes q + dram_atom_size (d_config s1)\<rparr>"
    using q3(1) q(2) c3 by (simp add: burst_sent_def)
  then have "d_printed s' = cmd j (curr_row (d_bk s j)) (dr_col q + dr_txbytes q) # d_printed s"
    using q3(5) q(3-5) c1 c3 by (simp add: algebra_simps)
  moreover have "burst_sent p q s s'"
    using q(2,3) q3(2-4) c1 c3 unfolding burst_sent_def by (elim conjE) simp
  ultimately show ?thesis using q(1) c1 by auto
qed

lemma read_column_reqs:
  assumes "read_column grp j p mf s = Some s'"
  shows "\<exists>q. rs_heap (d_reqs s) p = Some q \<and> burst_sent p q s s' \<and>
    d_printed s' = RD j (curr_row (d_bk s j)) (dr_col q + dr_txbytes q) # d_printed s"
proof -
  let ?cfg = "d_config s"
  obtain s1 s2 where a: "turn_bus READ (CL ?cfg) s = Some s1" "send_burst p s1 = Some s2"
    using assms by (auto simp: read_column_def bind_Some_iff Let_def)
  define s3 where "s3 = upd_bank j (\<lambda>b. b\<lparr>n_access := n_access b + 1\<rparr>) (count_burst
      (upd_cmds (\<lambda>c. if get_access_type mf = L2_WR_ALLOC_R then c\<lparr>n_rd_L2_A := n_rd_L2_A c + 1\<rparr>
                           else c\<lparr>n_rd := n_rd c + 1\<rparr>)
        (upd_group grp (\<lambda>g. g\<lparr>RTPLc := tRTPL ?cfg\<rparr>) (upd_bank j (\<lambda>b. b\<lparr>RTPc := burst_cycles ?cfg\<rparr>)
      ((upd_group grp (\<lambda>g. g\<lparr>CCDLc := tCCDL ?cfg\<rparr>) (s2\<lparr>CCDc := tCCD ?cfg\<rparr>))\<lparr>RTWc := tRTW ?cfg\<rparr>)))))"
  have "same_control s2 s3"
    by (simp add: same_control_def same_requests_def s3_def count_burst_def Let_def upd_bank_def upd_group_def)
  moreover have "finish_column j p RD s3 = Some s'"
    using assms a
    by (cases "get_access_type mf = L2_WR_ALLOC_R") (auto simp: read_column_def Let_def s3_def bind_Some_iff)
  ultimately show ?thesis by (rule column_reqs[OF a])
qed

lemma write_column_reqs:
  assumes "write_column grp j p mf s = Some s'"
  shows "\<exists>q. rs_heap (d_reqs s) p = Some q \<and> burst_sent p q s s' \<and>
    d_printed s' = WR j (curr_row (d_bk s j)) (dr_col q + dr_txbytes q) # d_printed s"
proof -
  let ?cfg = "d_config s"
  obtain s1 s2 where a: "turn_bus WRITE (WL ?cfg) s = Some s1" "send_burst p s1 = Some s2"
    using assms by (auto simp: write_column_def bind_Some_iff Let_def)
  define s3 where "s3 = count_burst
      (upd_cmds (\<lambda>c. if get_access_type mf = L2_WRBK_ACC then c\<lparr>n_wr_WB := n_wr_WB c + 1\<rparr>
                           else c\<lparr>n_wr := n_wr c + 1\<rparr>)
        (upd_bank j (\<lambda>b. b\<lparr>WTPc := tWTP ?cfg\<rparr>)
      ((upd_group grp (\<lambda>g. g\<lparr>CCDLc := tCCDL ?cfg\<rparr>) (s2\<lparr>CCDc := tCCD ?cfg\<rparr>))\<lparr>WTRc := tWTR ?cfg\<rparr>)))"
  have "same_control s2 s3"
    by (simp add: same_control_def same_requests_def s3_def count_burst_def Let_def upd_bank_def upd_group_def)
  moreover have "finish_column j p WR s3 = Some s'"
    using assms a
    by (cases "get_access_type mf = L2_WRBK_ACC") (auto simp: write_column_def Let_def s3_def bind_Some_iff)
  ultimately show ?thesis by (rule column_reqs[OF a])
qed

lemma read_column_aims:
  assumes "read_column grp j p mf s = Some s'" "can_read grp j q s" "b_mrq (d_bk s j) = Some p" "rs_heap (d_reqs s) p = Some q"
  shows "\<exists>c. is_column c \<and> d_printed s' = c # d_printed s \<and> aims [c] s s'"
proof -
  let ?c = "RD j (curr_row (d_bk s j)) (dr_col q + dr_txbytes q)"
  have r: "burst_sent p q s s'" "d_printed s' = ?c # d_printed s"
    using read_column_reqs[OF assms(1)] assms(4) by auto
  have "aims [?c] s s'"
    by (rule aims_column[OF _ assms(4) _ _ r(1)]) (use assms(2,3) in \<open>simp_all add: can_read_def\<close>)
  then show ?thesis using r(2) by (intro exI[of _ ?c]) simp
qed

lemma write_column_aims:
  assumes "write_column grp j p mf s = Some s'" "can_write grp j q s" "b_mrq (d_bk s j) = Some p" "rs_heap (d_reqs s) p = Some q"
  shows "\<exists>c. is_column c \<and> d_printed s' = c # d_printed s \<and> aims [c] s s'"
proof -
  let ?c = "WR j (curr_row (d_bk s j)) (dr_col q + dr_txbytes q)"
  have r: "burst_sent p q s s'" "d_printed s' = ?c # d_printed s"
    using write_column_reqs[OF assms(1)] assms(4) by auto
  have "aims [?c] s s'"
    by (rule aims_column[OF _ assms(4) _ _ r(1)]) (use assms(2,3) in \<open>simp_all add: can_write_def\<close>)
  then show ?thesis using r(2) by (intro exI[of _ ?c]) simp
qed

section \<open>The rest of a cycle\<close>

lemma stats_before_requests: "stats_before s = Some s' \<Longrightarrow> same_requests s s'"
  by (clarsimp simp: stats_before_def bind_Some_iff Let_def same_requests_def split del: if_split)

lemma stats_after_requests: "stats_after col s = Some s' \<Longrightarrow> same_requests s s'"
  by (clarsimp simp: stats_after_def bind_Some_iff Let_def split del: if_split) (simp add: same_requests_def)

lemma count_issue_requests: "same_requests s (count_issue col row k s)"
  by (simp add: count_issue_def Let_def same_requests_def)

lemma tick_requests: "same_requests s (tick_counters s)"
  by (simp add: same_requests_def tick_counters_def tick_bank_def)

lemma idle_bank_requests: "same_requests s (snd (idle_bank j (k, s)))"
  by (simp add: idle_bank_def Let_def same_requests_def upd_bank_def)

lemma idle_loop_requests: "same_requests (snd ks) (snd (idle_loop is ks))"
proof (induction "is" arbitrary: ks)
  case (Cons i "is")
  show ?case
    using Cons[of "idle_bank (turn (snd ks) i) ks"] idle_bank_requests[of "snd ks" "turn (snd ks) i" "fst ks"]
      same_requests_trans by simp
qed simp

end
