(* ===== verification/DramCorrect.thy ===== *)
theory DramCorrect
  imports DramRequests
begin

text \<open>
  Correctness of the DRAM channel. The commands of a run are the lines the debugging build prints,
  each with the number of the cycle it was issued in. \<open>delays\<close> and \<open>allowed\<close> state the DRAM
  protocol on such a trace, without any of the counters of the implementation; the proof shows that
  each counter bounds the time still to wait after the commands of the trace. \<open>serves\<close> of theory
  DramRequests ties each command to the request that its bank holds.
\<close>

section \<open>The protocol\<close>

definition same_group :: "dram_config \<Rightarrow> nat \<Rightarrow> nat \<Rightarrow> bool" where
  "same_group cfg a b = (get_bankgrp_number cfg a = get_bankgrp_number cfg b)"

text \<open>The least distances, in cycles, from an earlier to a later command.\<close>

fun delays :: "dram_config \<Rightarrow> dram_cmd \<Rightarrow> dram_cmd \<Rightarrow> u32 list" where
  "delays cfg (ACT a _) (ACT b _) = tRRD cfg # (if a = b then [tRC cfg] else [])"
| "delays cfg (ACT a _) (PRE b _) = (if a = b then [tRAS cfg] else [])"
| "delays cfg (ACT a _) (RD b _ _) = (if a = b then [tRCD cfg] else [])"
| "delays cfg (ACT a _) (WR b _ _) = (if a = b then [tRCDWR cfg] else [])"
| "delays cfg (PRE a _) (ACT b _) = (if a = b then [tRP cfg] else [])"
| "delays cfg (RD a _ _) (RD b _ _) = tCCD cfg # (if same_group cfg a b then [tCCDL cfg] else [])"
| "delays cfg (RD a _ _) (WR b _ _) = tCCD cfg # tRTW cfg # (if same_group cfg a b then [tCCDL cfg] else [])"
| "delays cfg (RD a _ _) (PRE b _) =
     (if a = b then [burst_cycles cfg] else []) @ (if same_group cfg a b then [tRTPL cfg] else [])"
| "delays cfg (WR a _ _) (RD b _ _) = tCCD cfg # tWTR cfg # (if same_group cfg a b then [tCCDL cfg] else [])"
| "delays cfg (WR a _ _) (WR b _ _) = tCCD cfg # (if same_group cfg a b then [tCCDL cfg] else [])"
| "delays cfg (WR a _ _) (PRE b _) = (if a = b then [tWTP cfg] else [])"
| "delays cfg _ _ = []"

definition spaced :: "dram_config \<Rightarrow> nat \<times> dram_cmd \<Rightarrow> nat \<times> dram_cmd \<Rightarrow> bool" where
  "spaced cfg = (\<lambda>(t, c) (u, d). \<forall>T \<in> set (delays cfg c d). t + unat T \<le> u)"

text \<open>Which commands a bank accepts, given the row that is open in each bank.\<close>

fun allowed :: "(nat \<Rightarrow> u32 option) \<Rightarrow> dram_cmd \<Rightarrow> bool" where
  "allowed rows (ACT b r) = (rows b = None)"
| "allowed rows (PRE b r) = (rows b = Some r)"
| "allowed rows (RD b r _) = (rows b = Some r)"
| "allowed rows (WR b r _) = (rows b = Some r)"

fun after_cmd :: "dram_cmd \<Rightarrow> (nat \<Rightarrow> u32 option) \<Rightarrow> (nat \<Rightarrow> u32 option)" where
  "after_cmd (ACT b r) rows = rows(b := Some r)"
| "after_cmd (PRE b r) rows = rows(b := None)"
| "after_cmd (RD b r _) rows = rows"
| "after_cmd (WR b r _) rows = rows"

fun rows_ok :: "(nat \<Rightarrow> u32 option) \<Rightarrow> dram_cmd list \<Rightarrow> bool" where
  "rows_ok rows [] = True"
| "rows_ok rows (c # cs) = (allowed rows c \<and> rows_ok (after_cmd c rows) cs)"

lemma rows_ok_append: "rows_ok rows (cs @ ds) = (rows_ok rows cs \<and> rows_ok (fold after_cmd cs rows) ds)"
  by (induction cs arbitrary: rows) auto

section \<open>What the counters promise\<close>

text \<open>The part of a bank and of the channel that the protocol depends on.\<close>

definition timers :: "bank \<Rightarrow> bank" where
  "timers b = b\<lparr>b_mrq := None, n_access := 0, n_idle := 0, bkgrpindex := 0\<rparr>"

lemma timersD:
  assumes "timers a = timers b"
  shows "RCDc a = RCDc b" "RCDWRc a = RCDWRc b" "RASc a = RASc b" "RPc a = RPc b" "RCc a = RCc b"
    "WTPc a = WTPc b" "RTPc a = RTPc b" "b_state a = b_state b" "curr_row a = curr_row b"
  using assms by (cases a; cases b; simp add: timers_def)+

lemma timers_upd [simp]:
  "timers (b\<lparr>b_mrq := m\<rparr>) = timers b" "timers (b\<lparr>n_access := n\<rparr>) = timers b"
  "timers (b\<lparr>n_idle := n\<rparr>) = timers b"
  by (simp_all add: timers_def)

definition same_timing :: "dram \<Rightarrow> dram \<Rightarrow> bool" where
  "same_timing s s' = (RRDc s' = RRDc s \<and> CCDc s' = CCDc s \<and> RTWc s' = RTWc s \<and> WTRc s' = WTRc s \<and>
     d_bkgrp s' = d_bkgrp s \<and> d_config s' = d_config s \<and> d_printed s' = d_printed s \<and>
     (\<forall>j. timers (d_bk s' j) = timers (d_bk s j)))"

lemma same_timing_refl [simp]: "same_timing s s"
  by (simp add: same_timing_def)

lemma same_timing_trans: "same_timing s s1 \<Longrightarrow> same_timing s1 s2 \<Longrightarrow> same_timing s s2"
  by (simp add: same_timing_def)

text \<open>
  \<open>covered t s (u, c)\<close>: at cycle \<open>t\<close>, every counter that command \<open>c\<close> of cycle \<open>u\<close> started still runs
  for the rest of its delay.
\<close>

definition runs :: "nat \<Rightarrow> nat \<Rightarrow> u32 \<Rightarrow> u32 \<Rightarrow> bool" where
  "runs t u T c = (u + unat T \<le> t + unat c)"

fun covered :: "nat \<Rightarrow> dram \<Rightarrow> nat \<times> dram_cmd \<Rightarrow> bool" where
  "covered t s (u, ACT b r) = (let cfg = d_config s in
     runs t u (tRRD cfg) (RRDc s) \<and> runs t u (tRCD cfg) (RCDc (d_bk s b)) \<and>
     runs t u (tRCDWR cfg) (RCDWRc (d_bk s b)) \<and> runs t u (tRAS cfg) (RASc (d_bk s b)) \<and>
     runs t u (tRC cfg) (RCc (d_bk s b)))"
| "covered t s (u, PRE b r) = runs t u (tRP (d_config s)) (RPc (d_bk s b))"
| "covered t s (u, RD b r c) = (let cfg = d_config s in
     runs t u (tCCD cfg) (CCDc s) \<and> runs t u (tRTW cfg) (RTWc s) \<and>
     runs t u (burst_cycles cfg) (RTPc (d_bk s b)) \<and>
     (\<forall>g. get_bankgrp_number cfg b = Some g \<longrightarrow>
        runs t u (tCCDL cfg) (CCDLc (d_bkgrp s g)) \<and> runs t u (tRTPL cfg) (RTPLc (d_bkgrp s g))))"
| "covered t s (u, WR b r c) = (let cfg = d_config s in
     runs t u (tCCD cfg) (CCDc s) \<and> runs t u (tWTR cfg) (WTRc s) \<and>
     runs t u (tWTP cfg) (WTPc (d_bk s b)) \<and>
     (\<forall>g. get_bankgrp_number cfg b = Some g \<longrightarrow> runs t u (tCCDL cfg) (CCDLc (d_bkgrp s g))))"

lemma runs_zero: "runs t u T 0 = (u + unat T \<le> t)"
  by (simp add: runs_def)

lemma runs_set: "u \<le> t \<Longrightarrow> runs t u T T"
  by (simp add: runs_def)

lemma unat_dec2zero: "unat (dec2zero x) = unat x - 1"
  by (simp add: dec2zero_def unat_pred_eq)

lemma runs_dec: "runs t u T c \<Longrightarrow> runs (Suc t) u T (dec2zero c)"
  by (simp add: runs_def unat_dec2zero)

lemma runs_Suc: "runs t u T c \<Longrightarrow> runs (Suc t) u T c"
  by (simp add: runs_def)

definition open_rows :: "dram \<Rightarrow> nat \<Rightarrow> u32 option" where
  "open_rows s b = (if b_state (d_bk s b) = BANK_ACTIVE then Some (curr_row (d_bk s b)) else None)"

lemma same_timingD:
  assumes "same_timing s s'"
  shows "RRDc s' = RRDc s" "CCDc s' = CCDc s" "RTWc s' = RTWc s" "WTRc s' = WTRc s"
    "d_bkgrp s' = d_bkgrp s" "d_config s' = d_config s" "d_printed s' = d_printed s"
    "RCDc (d_bk s' j) = RCDc (d_bk s j)" "RCDWRc (d_bk s' j) = RCDWRc (d_bk s j)"
    "RASc (d_bk s' j) = RASc (d_bk s j)" "RPc (d_bk s' j) = RPc (d_bk s j)"
    "RCc (d_bk s' j) = RCc (d_bk s j)" "WTPc (d_bk s' j) = WTPc (d_bk s j)"
    "RTPc (d_bk s' j) = RTPc (d_bk s j)" "b_state (d_bk s' j) = b_state (d_bk s j)"
    "curr_row (d_bk s' j) = curr_row (d_bk s j)"
proof -
  have "timers (d_bk s' j) = timers (d_bk s j)" using assms by (simp add: same_timing_def)
  note t = timersD[OF this]
  show "RCDc (d_bk s' j) = RCDc (d_bk s j)" "RCDWRc (d_bk s' j) = RCDWRc (d_bk s j)"
    "RASc (d_bk s' j) = RASc (d_bk s j)" "RPc (d_bk s' j) = RPc (d_bk s j)"
    "RCc (d_bk s' j) = RCc (d_bk s j)" "WTPc (d_bk s' j) = WTPc (d_bk s j)"
    "RTPc (d_bk s' j) = RTPc (d_bk s j)" "b_state (d_bk s' j) = b_state (d_bk s j)"
    "curr_row (d_bk s' j) = curr_row (d_bk s j)"
    by (rule t)+
qed (use assms in \<open>simp_all add: same_timing_def\<close>)

lemma same_timing_covered:
  assumes "same_timing s s'"
  shows "covered t s' e = covered t s e"
  by (cases "(t, s, e)" rule: covered.cases) (simp_all add: same_timingD[OF assms] Let_def)

lemma same_timing_rows:
  assumes "same_timing s s'"
  shows "open_rows s' = open_rows s"
  by (rule ext) (simp add: open_rows_def same_timingD[OF assms])

lemma tick_covered:
  assumes "covered t s e"
  shows "covered (Suc t) (tick_counters s) e"
  using assms
  by (cases "(t, s, e)" rule: covered.cases)
     (simp_all add: Let_def tick_counters_def tick_bank_def tick_group_def runs_dec runs_Suc)

section \<open>Steps that leave the timing alone\<close>

lemma same_timingI:
  assumes "RRDc s' = RRDc s" "CCDc s' = CCDc s" "RTWc s' = RTWc s" "WTRc s' = WTRc s"
    "d_bkgrp s' = d_bkgrp s" "d_config s' = d_config s" "d_printed s' = d_printed s" "d_bk s' = d_bk s"
  shows "same_timing s s'"
  using assms by (simp add: same_timing_def)

text \<open>Updates of fields the timing does not depend on, and the constructs that chain them.\<close>

lemma timing_intros:
  assumes "same_timing s x"
  shows "same_timing s (x\<lparr>d_cmds := a\<rparr>)" "same_timing s (x\<lparr>d_window := b\<rparr>)" "same_timing s (x\<lparr>d_blp := c\<rparr>)"
    "same_timing s (x\<lparr>d_bw := d\<rparr>)" "same_timing s (x\<lparr>d_store := e\<rparr>)" "same_timing s (x\<lparr>d_reqs := f\<rparr>)"
    "same_timing s (x\<lparr>d_returnq := g\<rparr>)" "same_timing s (x\<lparr>d_done := h\<rparr>)" "same_timing s (x\<lparr>d_rwq := i\<rparr>)"
    "same_timing s (x\<lparr>d_mrqq := k\<rparr>)" "same_timing s (x\<lparr>d_sched := l\<rparr>)" "same_timing s (x\<lparr>d_prio := m\<rparr>)"
    "same_timing s (x\<lparr>d_rw := n\<rparr>)"
  using assms by (simp_all add: same_timing_def)

lemma let_timing:
  assumes "same_timing s a" "\<And>x. same_timing s x \<Longrightarrow> same_timing s (f x)"
  shows "same_timing s (let x = a in f x)"
  using assms by (simp add: Let_def)

lemma if_timing: "same_timing s a \<Longrightarrow> same_timing s b \<Longrightarrow> same_timing s (if c then a else b)"
  by simp

lemma fetch_status_timing: "fetch_status r st now s = Some s' \<Longrightarrow> same_timing s s'"
  by (auto simp: fetch_status_def bind_Some_iff intro!: same_timingI)

lemma fetch_status_frame:
  "fetch_status r st now s = Some s' \<Longrightarrow> d_bk s' = d_bk s \<and> d_reqs s' = d_reqs s \<and> d_rwq s' = d_rwq s \<and>
    d_mrqq s' = d_mrqq s \<and> d_sched s' = d_sched s \<and> d_returnq s' = d_returnq s \<and> d_config s' = d_config s \<and>
    d_id s' = d_id s \<and> d_rw s' = d_rw s \<and> d_done s' = d_done s"
  by (auto simp: fetch_status_def bind_Some_iff)

lemma fetch_status_after: "same_timing s x \<Longrightarrow> fetch_status r st now x = Some s' \<Longrightarrow> same_timing s s'"
  using fetch_status_timing same_timing_trans by blast

lemma hand_over_timing:
  assumes "hand_over p q now s = Some s'"
  shows "same_timing s s'"
proof -
  obtain s1 mf where s1: "fetch_status (dr_data q) IN_PARTITION_MC_RETURNQ now s = Some s1"
    and mf: "deref (dr_data q) (d_store s1) = Some mf"
    using assms by (auto simp: hand_over_def bind_Some_iff)
  note start = same_timing_trans[OF fetch_status_timing[OF s1]]
  show ?thesis
  proof (cases "get_access_type mf \<noteq> L1_WRBK_ACC \<and> get_access_type mf \<noteq> L2_WRBK_ACC")
    case True
    then show ?thesis
      using assms s1 mf by (clarsimp simp: hand_over_def bind_Some_iff) (rule start, intro timing_intros same_timing_refl)
  next
    case False
    show ?thesis
      using assms
      by (simp only: hand_over_def s1 mf Option.bind_lunit False if_False)
         (clarsimp simp: bind_Some_iff, rule start, intro timing_intros same_timing_refl)
  qed
qed

lemma return_data_timing: "return_data now s = Some s' \<Longrightarrow> same_timing s s'"
proof -
  assume r: "return_data now s = Some s'"
  show ?thesis
  proof (cases "fifo_full (d_returnq s)")
    case True
    then show ?thesis using r by (simp add: return_data_def)
  next
    case False
    then obtain cmd f where pop: "fifo_pop (d_rwq s) = Some (cmd, f)"
      using r by (auto simp: return_data_def bind_Some_iff)
    show ?thesis
    proof (cases cmd)
      case None
      then show ?thesis using r False pop by (auto simp: return_data_def intro!: timing_intros)
    next
      case (Some p)
      then obtain rs q where "(if dr_nbytes q \<le> dr_dqbytes q then hand_over p q now (s\<lparr>d_rwq := f, d_reqs := rs\<rparr>)
          else Some (s\<lparr>d_rwq := f, d_reqs := rs\<rparr>)) = Some s'"
        using r False pop by (auto simp: return_data_def bind_Some_iff Let_def)
      moreover have "same_timing s (s\<lparr>d_rwq := f, d_reqs := rs\<rparr>)" by (intro timing_intros same_timing_refl)
      ultimately show ?thesis
        using hand_over_timing same_timing_trans by (metis option.inject)
    qed
  qed
qed

lemma upd_bank_timing:
  "timers (f (d_bk s j)) = timers (d_bk s j) \<Longrightarrow> same_timing s (upd_bank j f s)"
  by (simp add: same_timing_def upd_bank_def)

lemma scheduler_fifo_timing: "scheduler_fifo sim tot s = Some s' \<Longrightarrow> same_timing s s'"
  by (auto simp: scheduler_fifo_def bind_Some_iff Let_def fetch_status_def same_timing_def upd_bank_def
      split: if_splits)

lemma admit_request_timing:
  assumes "admit_request sim tot s = Some s'"
  shows "same_timing s s'" "d_bk s' = d_bk s"
  using assms by (auto simp: admit_request_def bind_Some_iff Let_def fetch_status_def intro!: same_timingI)

lemma move_to_scheduler_timing: "move_to_scheduler n sim tot s = Some s' \<Longrightarrow> same_timing s s' \<and> d_bk s' = d_bk s"
proof (induction n arbitrary: s)
  case 0
  then show ?case by (subst (asm) move_to_scheduler.simps) (auto split: if_splits)
next
  case (Suc n)
  show ?case
  proof (cases "fifo_empty (d_mrqq s)")
    case True
    then show ?thesis using Suc.prems by (subst (asm) move_to_scheduler.simps) simp
  next
    case False
    then obtain s1 where s1: "admit_request sim tot s = Some s1" "move_to_scheduler n sim tot s1 = Some s'"
      using Suc.prems by (auto simp: move_to_scheduler.simps[of "Suc n" sim tot s] bind_Some_iff)
    show ?thesis
      using Suc.IH[OF s1(2)] admit_request_timing[OF s1(1)] same_timing_trans by metis
  qed
qed

lemma schedule_bank_timing:
  assumes "schedule_bank b sim tot s = Some (given, s')"
  shows "same_timing s s'"
  using assms
  by (auto simp: schedule_bank_def bind_Some_iff Let_def fetch_status_def same_timing_def upd_bank_def
      split: option.splits)

lemma feed_bank_timing: "feed_bank is sim tot s = Some s' \<Longrightarrow> same_timing s s'"
proof (induction "is" arbitrary: s)
  case (Cons i "is")
  then show ?case
    using same_timing_trans schedule_bank_timing
    by (auto simp: bind_Some_iff split: option.splits if_split_asm) blast+
qed simp

lemma run_scheduler_timing: "run_scheduler sim tot s = Some s' \<Longrightarrow> same_timing s s'"
proof -
  assume r: "run_scheduler sim tot s = Some s'"
  obtain s1 n where s1: "(case scheduler_type (d_config s) of
        DRAM_FIFO \<Rightarrow> scheduler_fifo sim tot s | DRAM_FRFCFS \<Rightarrow> scheduler_frfcfs sim tot s) = Some s1"
    and s': "s' = upd_window (\<lambda>w. w\<lparr>max_mrqs := max (max_mrqs w) n, ave_mrqs := ave_mrqs w + n,
                             ave_mrqs_partial := ave_mrqs_partial w + n\<rparr>) s1"
    using r by (auto simp: run_scheduler_def bind_Some_iff)
  have "same_timing s s1"
  proof (cases "scheduler_type (d_config s)")
    case DRAM_FIFO
    then show ?thesis using s1 by (simp add: scheduler_fifo_timing)
  next
    case DRAM_FRFCFS
    then show ?thesis
      using s1 by (auto simp: scheduler_frfcfs_def bind_Some_iff dest!: move_to_scheduler_timing feed_bank_timing
          intro: same_timing_trans)
  qed
  moreover have "same_timing s1 s'" unfolding s' by (rule same_timingI) simp_all
  ultimately show ?thesis by (rule same_timing_trans)
qed

lemma stats_before_timing: "stats_before s = Some s' \<Longrightarrow> same_timing s s'"
  by (clarsimp simp: stats_before_def bind_Some_iff Let_def split del: if_split) (rule same_timingI; simp)

lemma count_issue_timing: "same_timing s (count_issue col row k s)"
  unfolding count_issue_def Let_def[of "row \<or> col"]
  by (intro let_timing if_timing timing_intros same_timing_refl | assumption)+

lemma stats_after_timing: "stats_after col s = Some s' \<Longrightarrow> same_timing s s'"
  by (clarsimp simp: stats_after_def bind_Some_iff Let_def split del: if_split) (rule same_timingI; simp)

lemma idle_bank_timing: "same_timing s (snd (idle_bank j (k, s)))"
  by (simp add: idle_bank_def Let_def upd_bank_timing)

lemma idle_loop_timing: "same_timing (snd ks) (snd (idle_loop is ks))"
proof (induction "is" arbitrary: ks)
  case (Cons i "is")
  show ?case
    using Cons[of "idle_bank (turn (snd ks) i) ks"] idle_bank_timing[of "snd ks" "turn (snd ks) i" "fst ks"]
    by (simp add: same_timing_trans)
qed simp

lemma dram_push_timing: "dram_push r sim tot s = Some s' \<Longrightarrow> same_timing s s'"
  by (auto simp: dram_push_def bind_Some_iff Let_def fetch_status_def req_alloc_def intro!: same_timingI)

lemma return_queue_pop_timing: "return_queue_pop s = Some (r, s') \<Longrightarrow> same_timing s s'"
  by (auto simp: return_queue_pop_def bind_Some_iff intro!: same_timingI)

section \<open>One command\<close>

text \<open>
  \<open>emits t cs s s'\<close>: from \<open>s\<close> to \<open>s'\<close>, within cycle \<open>t\<close>, the channel prints the commands \<open>cs\<close>; the
  rows permit them, they keep their distances to each other and to every earlier command whose
  delays the counters of \<open>s\<close> cover, and the counters of \<open>s'\<close> cover all of them.
\<close>

definition emits :: "nat \<Rightarrow> dram_cmd list \<Rightarrow> dram \<Rightarrow> dram \<Rightarrow> bool" where
  "emits t cs s s' = (d_config s' = d_config s \<and> d_printed s' = rev cs @ d_printed s \<and>
     rows_ok (open_rows s) cs \<and> open_rows s' = fold after_cmd cs (open_rows s) \<and>
     sorted_wrt (spaced (d_config s)) (map (Pair t) cs) \<and>
     (\<forall>c \<in> set cs. covered t s' (t, c)) \<and>
     (\<forall>u e. u \<le> t \<longrightarrow> covered t s (u, e) \<longrightarrow>
        covered t s' (u, e) \<and> (\<forall>c \<in> set cs. spaced (d_config s) (u, e) (t, c))))"

lemma emits_none: "same_timing s s' \<Longrightarrow> emits t [] s s'"
  by (simp add: emits_def same_timing_covered same_timing_rows same_timingD)

lemma emits_trans:
  assumes "emits t cs s s1" "emits t ds s1 s2"
  shows "emits t (cs @ ds) s s2"
proof -
  have "\<forall>c \<in> set cs. covered t s2 (t, c) \<and> (\<forall>d \<in> set ds. spaced (d_config s) (t, c) (t, d))"
    using assms by (auto simp: emits_def)
  then show ?thesis
    using assms by (auto simp: emits_def rows_ok_append sorted_wrt_append)
qed

lemma emits_then: "emits t cs s s1 \<Longrightarrow> same_timing s1 s2 \<Longrightarrow> emits t cs s s2"
  using emits_trans[of t cs s s1 "[]" s2] emits_none by simp

lemma then_emits: "same_timing s s1 \<Longrightarrow> emits t cs s1 s2 \<Longrightarrow> emits t cs s s2"
  using emits_trans[of t "[]" s s1 cs s2] emits_none by simp

text \<open>The four commands, in terms of what they do to the counters.\<close>

lemma activate_emits:
  assumes "can_activate j s"
  shows "emits t [ACT j (dr_row q)] s (activate_row j q s)"
proof -
  let ?s = "activate_row j q s"
  have f: "d_config ?s = d_config s" "RRDc ?s = tRRD (d_config s)" "CCDc ?s = CCDc s" "RTWc ?s = RTWc s"
    "WTRc ?s = WTRc s" "d_bkgrp ?s = d_bkgrp s" "d_printed ?s = ACT j (dr_row q) # d_printed s"
    "d_bk ?s = (d_bk s)(j := (d_bk s j)\<lparr>curr_row := dr_row q, b_state := BANK_ACTIVE, RCDc := tRCD (d_config s),
       RCDWRc := tRCDWR (d_config s), RASc := tRAS (d_config s), RCc := tRC (d_config s)\<rparr>)"
    by (simp_all add: activate_row_def Let_def print_cmd_def upd_bank_def)
  have idle: "b_state (d_bk s j) = BANK_IDLE" "RRDc s = 0" "RPc (d_bk s j) = 0" "RCc (d_bk s j) = 0"
    using assms by (auto simp: can_activate_def)
  have rows: "open_rows s j = None" "open_rows ?s = (open_rows s)(j := Some (dr_row q))"
    by (auto simp: open_rows_def idle f)
  have old: "covered t ?s (u, e) \<and> spaced (d_config s) (u, e) (t, ACT j (dr_row q))"
    if "u \<le> t" "covered t s (u, e)" for u e
    using that by (cases e) (auto simp: f idle Let_def spaced_def runs_zero runs_set)
  show ?thesis
    unfolding emits_def using rows old by (auto simp: f Let_def runs_set)
qed

lemma precharge_emits:
  assumes "can_precharge grp j q s" "get_bankgrp_number (d_config s) j = Some grp"
  shows "emits t [PRE j (curr_row (d_bk s j))] s (precharge_row j s)"
proof -
  let ?s = "precharge_row j s"
  have f: "d_config ?s = d_config s" "RRDc ?s = RRDc s" "CCDc ?s = CCDc s" "RTWc ?s = RTWc s"
    "WTRc ?s = WTRc s" "d_bkgrp ?s = d_bkgrp s" "d_printed ?s = PRE j (curr_row (d_bk s j)) # d_printed s"
    "d_bk ?s = (d_bk s)(j := (d_bk s j)\<lparr>b_state := BANK_IDLE, RPc := tRP (d_config s)\<rparr>)"
    by (simp_all add: precharge_row_def Let_def print_cmd_def upd_bank_def)
  have z: "b_state (d_bk s j) = BANK_ACTIVE" "RASc (d_bk s j) = 0" "WTPc (d_bk s j) = 0" "RTPc (d_bk s j) = 0"
    "RTPLc (d_bkgrp s grp) = 0"
    using assms(1) by (auto simp: can_precharge_def)
  have rows: "open_rows s j = Some (curr_row (d_bk s j))" "open_rows ?s = (open_rows s)(j := None)"
    by (auto simp: open_rows_def z f)
  have old: "covered t ?s (u, e) \<and> spaced (d_config s) (u, e) (t, PRE j (curr_row (d_bk s j)))"
    if "u \<le> t" "covered t s (u, e)" for u e
    using that assms(2) by (cases e) (auto simp: f z Let_def spaced_def runs_zero runs_set same_group_def)
  show ?thesis
    unfolding emits_def using rows old by (auto simp: f Let_def runs_set)
qed

text \<open>The two column commands share their ending and the turn of the bus.\<close>

lemma turn_bus_timing: "turn_bus k lat s = Some s' \<Longrightarrow> same_timing s s' \<and> d_bk s' = d_bk s"
  by (auto simp: turn_bus_def bind_Some_iff split: if_splits intro!: same_timingI)

lemma send_burst_timing: "send_burst p s = Some s' \<Longrightarrow> same_timing s s' \<and> d_bk s' = d_bk s"
  by (auto simp: send_burst_def bind_Some_iff intro!: same_timingI)

lemma finish_column_timing:
  assumes "finish_column j p cmd s = Some s'"
  obtains col s1 where "s1 = print_cmd (cmd j (curr_row (d_bk s j)) col) s" "same_timing s1 s'"
proof -
  obtain q where q: "rs_heap (d_reqs s) p = Some q" using assms by (auto simp: finish_column_def bind_Some_iff)
  let ?s = "print_cmd (cmd j (curr_row (d_bk s j)) (dr_col q + dr_txbytes q - dram_atom_size (d_config s))) s"
  have "same_timing ?s s'"
    using assms q by (auto simp: finish_column_def Let_def intro!: upd_bank_timing split: if_splits)
  then show ?thesis using that by blast
qed

lemma count_burst_timing: "same_timing s (count_burst s)"
  unfolding count_burst_def Let_def by (intro timing_intros same_timing_refl)

lemma read_column_emits:
  assumes "read_column grp j p mf s = Some s'" "can_read grp j q s" "get_bankgrp_number (d_config s) j = Some grp"
  obtains c where "is_column c" "emits t [c] s s'"
proof -
  let ?cfg = "d_config s"
  obtain s1 s2 where a: "turn_bus READ (CL ?cfg) s = Some s1" "send_burst p s1 = Some s2"
    using assms(1) by (auto simp: read_column_def bind_Some_iff Let_def)
  have st: "same_timing s s2" "d_bk s2 = d_bk s"
    using turn_bus_timing[OF a(1)] send_burst_timing[OF a(2)] same_timing_trans by auto
  define s3 where "s3 = upd_group grp (\<lambda>g. g\<lparr>RTPLc := tRTPL ?cfg\<rparr>) (upd_bank j (\<lambda>b. b\<lparr>RTPc := burst_cycles ?cfg\<rparr>)
      ((upd_group grp (\<lambda>g. g\<lparr>CCDLc := tCCDL ?cfg\<rparr>) (s2\<lparr>CCDc := tCCD ?cfg\<rparr>))\<lparr>RTWc := tRTW ?cfg\<rparr>))"
  define s4 where "s4 = upd_bank j (\<lambda>b. b\<lparr>n_access := n_access b + 1\<rparr>) (count_burst
      (upd_cmds (\<lambda>c. if get_access_type mf = L2_WR_ALLOC_R then c\<lparr>n_rd_L2_A := n_rd_L2_A c + 1\<rparr>
                           else c\<lparr>n_rd := n_rd c + 1\<rparr>) s3))"
  have s4: "same_timing s3 s4"
    unfolding s4_def
    by (rule same_timing_trans[OF _ upd_bank_timing], rule same_timing_trans[OF _ count_burst_timing])
       (intro timing_intros same_timing_refl, simp)
  have "finish_column j p RD s4 = Some s'"
    using assms(1) a
    by (cases "get_access_type mf = L2_WR_ALLOC_R") (auto simp: read_column_def Let_def s4_def s3_def bind_Some_iff)
  then obtain col s5 where s5: "s5 = print_cmd (RD j (curr_row (d_bk s4 j)) col) s4" "same_timing s5 s'"
    by (rule finish_column_timing)
  have row: "curr_row (d_bk s4 j) = curr_row (d_bk s j)"
    using same_timingD(16)[OF s4, of j] by (simp add: s3_def upd_group_def upd_bank_def st(2))
  let ?c = "RD j (curr_row (d_bk s j)) col"
  define s6 where "s6 = print_cmd ?c s3"
  have "same_timing s6 s5"
    using s4 by (simp add: s6_def s5(1) row same_timing_def print_cmd_def)
  then have final: "same_timing s6 s'" using s5(2) by (rule same_timing_trans)
  have f: "d_config s6 = d_config s" "RRDc s6 = RRDc s" "CCDc s6 = tCCD ?cfg" "RTWc s6 = tRTW ?cfg"
    "WTRc s6 = WTRc s" "d_bkgrp s6 = (d_bkgrp s)(grp := (d_bkgrp s grp)\<lparr>CCDLc := tCCDL ?cfg, RTPLc := tRTPL ?cfg\<rparr>)"
    "d_printed s6 = ?c # d_printed s"
    "d_bk s6 = (d_bk s)(j := (d_bk s j)\<lparr>RTPc := burst_cycles ?cfg\<rparr>)"
    using st by (simp_all add: s6_def s3_def print_cmd_def upd_group_def upd_bank_def same_timing_def)
  have z: "CCDc s = 0" "RCDc (d_bk s j) = 0" "CCDLc (d_bkgrp s grp) = 0" "WTRc s = 0" "b_state (d_bk s j) = BANK_ACTIVE"
    using assms(2) by (auto simp: can_read_def)
  have rows: "open_rows s j = Some (curr_row (d_bk s j))" "open_rows s6 = open_rows s"
    by (auto simp: open_rows_def z f)
  have old: "covered t s6 (u, e) \<and> spaced ?cfg (u, e) (t, ?c)" if "u \<le> t" "covered t s (u, e)" for u e
    using that assms(3) by (cases e) (auto simp: f z Let_def spaced_def runs_zero runs_set same_group_def)
  have "emits t [?c] s s6"
    unfolding emits_def using rows old assms(3) by (auto simp: f Let_def runs_set)
  then show ?thesis using that[of ?c] emits_then final by simp
qed

lemma write_column_emits:
  assumes "write_column grp j p mf s = Some s'" "can_write grp j q s" "get_bankgrp_number (d_config s) j = Some grp"
  obtains c where "is_column c" "emits t [c] s s'"
proof -
  let ?cfg = "d_config s"
  obtain s1 s2 where a: "turn_bus WRITE (WL ?cfg) s = Some s1" "send_burst p s1 = Some s2"
    using assms(1) by (auto simp: write_column_def bind_Some_iff Let_def)
  have st: "same_timing s s2" "d_bk s2 = d_bk s"
    using turn_bus_timing[OF a(1)] send_burst_timing[OF a(2)] same_timing_trans by auto
  define s3 where "s3 = upd_bank j (\<lambda>b. b\<lparr>WTPc := tWTP ?cfg\<rparr>)
      ((upd_group grp (\<lambda>g. g\<lparr>CCDLc := tCCDL ?cfg\<rparr>) (s2\<lparr>CCDc := tCCD ?cfg\<rparr>))\<lparr>WTRc := tWTR ?cfg\<rparr>)"
  define s4 where "s4 = count_burst
      (upd_cmds (\<lambda>c. if get_access_type mf = L2_WRBK_ACC then c\<lparr>n_wr_WB := n_wr_WB c + 1\<rparr>
                           else c\<lparr>n_wr := n_wr c + 1\<rparr>) s3)"
  have s4: "same_timing s3 s4"
    unfolding s4_def by (rule same_timing_trans[OF _ count_burst_timing]) (intro timing_intros same_timing_refl)
  have "finish_column j p WR s4 = Some s'"
    using assms(1) a
    by (cases "get_access_type mf = L2_WRBK_ACC") (auto simp: write_column_def Let_def s4_def s3_def bind_Some_iff)
  then obtain col s5 where s5: "s5 = print_cmd (WR j (curr_row (d_bk s4 j)) col) s4" "same_timing s5 s'"
    by (rule finish_column_timing)
  have row: "curr_row (d_bk s4 j) = curr_row (d_bk s j)"
    using same_timingD(16)[OF s4, of j] by (simp add: s3_def upd_group_def upd_bank_def st(2))
  let ?c = "WR j (curr_row (d_bk s j)) col"
  define s6 where "s6 = print_cmd ?c s3"
  have "same_timing s6 s5"
    using s4 by (simp add: s6_def s5(1) row same_timing_def print_cmd_def)
  then have final: "same_timing s6 s'" using s5(2) by (rule same_timing_trans)
  have f: "d_config s6 = d_config s" "RRDc s6 = RRDc s" "CCDc s6 = tCCD ?cfg" "RTWc s6 = RTWc s"
    "WTRc s6 = tWTR ?cfg" "d_bkgrp s6 = (d_bkgrp s)(grp := (d_bkgrp s grp)\<lparr>CCDLc := tCCDL ?cfg\<rparr>)"
    "d_printed s6 = ?c # d_printed s"
    "d_bk s6 = (d_bk s)(j := (d_bk s j)\<lparr>WTPc := tWTP ?cfg\<rparr>)"
    using st by (simp_all add: s6_def s3_def print_cmd_def upd_group_def upd_bank_def same_timing_def)
  have z: "CCDc s = 0" "RCDWRc (d_bk s j) = 0" "CCDLc (d_bkgrp s grp) = 0" "RTWc s = 0" "b_state (d_bk s j) = BANK_ACTIVE"
    using assms(2) by (auto simp: can_write_def)
  have rows: "open_rows s j = Some (curr_row (d_bk s j))" "open_rows s6 = open_rows s"
    by (auto simp: open_rows_def z f)
  have old: "covered t s6 (u, e) \<and> spaced ?cfg (u, e) (t, ?c)" if "u \<le> t" "covered t s (u, e)" for u e
    using that assms(3) by (cases e) (auto simp: f z Let_def spaced_def runs_zero runs_set same_group_def)
  have "emits t [?c] s s6"
    unfolding emits_def using rows old assms(3) by (auto simp: f Let_def runs_set)
  then show ?thesis using that[of ?c] emits_then final by simp
qed

section \<open>One cycle\<close>

text \<open>
  \<open>issues t n m s s'\<close>: within cycle \<open>t\<close> the channel prints \<open>n\<close> column and \<open>m\<close> row commands, legally and
  each for the request that its bank holds in \<open>s\<close>.
\<close>

definition issues :: "nat \<Rightarrow> nat \<Rightarrow> nat \<Rightarrow> dram \<Rightarrow> dram \<Rightarrow> bool" where
  "issues t n m s s' = (\<exists>cs. emits t cs s s' \<and> aims cs s s' \<and> columns cs = n \<and> row_cmds cs = m)"

lemma issues_trans:
  assumes "issues t n m s s1" "issues t n' m' s1 s2" "n = 0 \<or> n' = 0"
  shows "issues t (n + n') (m + m') s s2"
proof -
  obtain cs ds where "emits t cs s s1" "aims cs s s1" "columns cs = n" "row_cmds cs = m"
    "emits t ds s1 s2" "aims ds s1 s2" "columns ds = n'" "row_cmds ds = m'"
    using assms(1,2) unfolding issues_def by blast
  then show ?thesis
    unfolding issues_def using emits_trans[of t cs s s1 ds s2] aims_trans[of cs s s1 ds s2] assms(3)
    by (intro exI[of _ "cs @ ds"]) simp
qed

text \<open>Steps between the commands.\<close>

definition quiet :: "dram \<Rightarrow> dram \<Rightarrow> bool" where
  "quiet s s' = (same_timing s s' \<and> same_requests s s')"

lemma quiet_refl [simp]: "quiet s s"
  by (simp add: quiet_def)

lemma issues_none: "quiet s s' \<Longrightarrow> issues t 0 0 s s'"
  unfolding issues_def quiet_def by (intro exI[of _ "[]"]) (simp add: emits_none aims_none)

lemma issues_one:
  assumes "quiet s s1" "emits t [c] s1 s'" "aims [c] s1 s'"
  shows "issues t (columns [c]) (row_cmds [c]) s s'"
  using issues_trans[OF issues_none[OF assms(1)], of t "columns [c]" "row_cmds [c]" s'] assms(2,3)
  by (auto simp: issues_def)

lemma fetch_status_quiet: "fetch_status r st now s = Some s' \<Longrightarrow> quiet s s'"
  by (simp add: quiet_def fetch_status_timing fetch_status_requests)

text \<open>The command that \<open>emits\<close> and \<open>aims\<close> speak of is the one printed.\<close>

lemma issues_column:
  assumes "quiet s s1" "emits t [c] s1 s'" "is_column c"
    and "\<exists>c. is_column c \<and> d_printed s' = c # d_printed s1 \<and> aims [c] s1 s'"
  shows "issues t 1 0 s s'"
proof -
  have "aims [c] s1 s'" using assms(2,4) by (auto simp: emits_def)
  then show ?thesis using issues_one[OF assms(1,2)] assms(3) by simp
qed

lemma issue_col_issues:
  assumes "issue_col_command now j s = Some (b, s')"
  shows "issues t (of_bool b) 0 s s'"
proof -
  obtain grp where g: "get_bankgrp_number (d_config s) j = Some grp"
    using assms by (auto simp: issue_col_command_def bind_Some_iff)
  show ?thesis
  proof (cases "b_mrq (d_bk s j)")
    case None
    then show ?thesis using assms g by (auto simp: issue_col_command_def intro: issues_none)
  next
    case (Some p)
    obtain q s1 mf where q: "rs_heap (d_reqs s) p = Some q" "fetch_status (dr_data q) IN_PARTITION_DRAM now s = Some s1"
      "deref (dr_data q) (d_store s1) = Some mf"
      using assms g Some by (auto simp: issue_col_command_def bind_Some_iff)
    note t1 = fetch_status_quiet[OF q(2)]
    have g1: "get_bankgrp_number (d_config s1) j = Some grp" using g fetch_status_frame[OF q(2)] by simp
    have p1: "b_mrq (d_bk s1 j) = Some p" "rs_heap (d_reqs s1) p = Some q"
      using Some q(1) fetch_status_frame[OF q(2)] by simp_all
    have rest: "(if can_read grp j q s1 then do { s \<leftarrow> read_column grp j p mf s1; Some (True, s) }
           else if can_write grp j q s1 then do { s \<leftarrow> write_column grp j p mf s1; Some (True, s) }
           else Some (False, s1)) = Some (b, s')"
      using assms g Some q by (simp add: issue_col_command_def)
    consider (rd) "can_read grp j q s1" "read_column grp j p mf s1 = Some s'" b
      | (wr) "can_write grp j q s1" "write_column grp j p mf s1 = Some s'" b
      | (no) "\<not> b" "s' = s1"
      using rest by (auto simp: bind_Some_iff split: if_splits)
    then show ?thesis
    proof cases
      case rd
      from read_column_emits[OF rd(2,1) g1]
      obtain c where "is_column c" "emits t [c] s1 s'" by metis
      then show ?thesis
        using issues_column[OF t1 _ _ read_column_aims[OF rd(2,1) p1]] rd(3) by simp
    next
      case wr
      from write_column_emits[OF wr(2,1) g1]
      obtain c where "is_column c" "emits t [c] s1 s'" by metis
      then show ?thesis
        using issues_column[OF t1 _ _ write_column_aims[OF wr(2,1) p1]] wr(3) by simp
    next
      case no
      then show ?thesis using issues_none[OF t1] by simp
    qed
  qed
qed

lemma issue_row_issues:
  assumes "issue_row_command now j s = Some (b, s')"
  shows "issues t 0 (of_bool b) s s'"
proof -
  obtain grp where g: "get_bankgrp_number (d_config s) j = Some grp"
    using assms by (auto simp: issue_row_command_def bind_Some_iff)
  show ?thesis
  proof (cases "b_mrq (d_bk s j)")
    case None
    then show ?thesis using assms g by (auto simp: issue_row_command_def intro: issues_none)
  next
    case (Some p)
    obtain q s1 where q: "rs_heap (d_reqs s) p = Some q" "fetch_status (dr_data q) IN_PARTITION_DRAM now s = Some s1"
      using assms g Some by (auto simp: issue_row_command_def bind_Some_iff)
    note t1 = fetch_status_quiet[OF q(2)]
    have g1: "get_bankgrp_number (d_config s1) j = Some grp" using g fetch_status_frame[OF q(2)] by simp
    have p1: "b_mrq (d_bk s1 j) = Some p" "rs_heap (d_reqs s1) p = Some q"
      using Some q(1) fetch_status_frame[OF q(2)] by simp_all
    have rest: "(b, s') = (if can_activate j s1 then (True, activate_row j q s1)
                else if can_precharge grp j q s1 then (True, precharge_row j s1) else (False, s1))"
      using assms g Some q by (simp add: issue_row_command_def split: if_splits)
    consider (act) "can_activate j s1" "s' = activate_row j q s1" b
      | (pre) "can_precharge grp j q s1" "s' = precharge_row j s1" b
      | (no) "\<not> b" "s' = s1"
      using rest by (auto split: if_splits)
    then show ?thesis
    proof cases
      case act
      have "request_at s1 j = Some q" using p1 by (simp add: request_at_def)
      from issues_one[OF t1 activate_emits[OF act(1), of t q] activate_aims[OF this]] show ?thesis
        using act(2,3) by simp
    next
      case pre
      have "request_at s1 j = Some q" using p1 by (simp add: request_at_def)
      from issues_one[OF t1 precharge_emits[OF pre(1) g1, of t] precharge_aims[OF this pre(1)]] show ?thesis
        using pre(2,3) by simp
    next
      case no
      then show ?thesis using issues_none[OF t1] by simp
    qed
  qed
qed

lemma first_column_issues:
  "first_issued (issue_col_command now) is s = Some (b, s') \<Longrightarrow> issues t (of_bool b) 0 s s'"
proof (induction "is" arbitrary: s)
  case (Cons i "is")
  then obtain b1 s1 where i: "issue_col_command now (turn s i) s = Some (b1, s1)"
    and r: "(if b1 then Some (True, s1) else first_issued (issue_col_command now) is s1) = Some (b, s')"
    by (auto simp: bind_Some_iff)
  note one = issue_col_issues[OF i, of t]
  show ?case
  proof (cases b1)
    case True
    then show ?thesis using r one by simp
  next
    case False
    then show ?thesis using r one Cons.IH[of s1] issues_trans[of t 0 0 s s1 "of_bool b" 0 s'] by simp
  qed
qed (simp add: issues_none)

lemma first_row_issues:
  "first_issued (issue_row_command now) is s = Some (b, s') \<Longrightarrow> issues t 0 (of_bool b) s s'"
proof (induction "is" arbitrary: s)
  case (Cons i "is")
  then obtain b1 s1 where i: "issue_row_command now (turn s i) s = Some (b1, s1)"
    and r: "(if b1 then Some (True, s1) else first_issued (issue_row_command now) is s1) = Some (b, s')"
    by (auto simp: bind_Some_iff)
  note one = issue_row_issues[OF i, of t]
  show ?case
  proof (cases b1)
    case True
    then show ?thesis using r one by simp
  next
    case False
    then show ?thesis using r one Cons.IH[of s1] issues_trans[of t 0 0 s s1 0 "of_bool b" s'] by simp
  qed
qed (simp add: issues_none)

lemma single_bus_issues:
  "single_bus_loop is now col row k s = Some (col', row', k', s') \<Longrightarrow>
   (col \<longrightarrow> col') \<and> (row \<longrightarrow> row') \<and>
   issues t (of_bool (\<not> col \<and> col')) (of_bool (\<not> row \<and> row')) s s'"
proof (induction "is" arbitrary: col row k s)
  case Nil
  then show ?case by (simp add: issues_none)
next
  case (Cons i "is")
  let ?j = "turn s i"
  obtain c1 s1 where c: "(if \<not> col then issue_col_command now ?j s else Some (col, s)) = Some (c1, s1)"
    using Cons.prems by (auto simp: bind_Some_iff Let_def)
  obtain r1 s2 where r: "(if \<not> c1 \<and> \<not> row then issue_row_command now ?j s1 else Some (row, s1)) = Some (r1, s2)"
    using Cons.prems c by (simp only: single_bus_loop.simps Let_def Option.bind_lunit prod.case) (auto simp: bind_Some_iff)
  obtain k3 s3 where i: "idle_bank ?j (k, s2) = (k3, s3)" by (cases "idle_bank ?j (k, s2)")
  have rest: "single_bus_loop is now c1 r1 k3 s3 = Some (col', row', k', s')"
    using Cons.prems by (simp only: single_bus_loop.simps Let_def c r i Option.bind_lunit prod.case)
  have 1: "(col \<longrightarrow> c1) \<and> issues t (of_bool (\<not> col \<and> c1)) 0 s s1"
    using c issue_col_issues[of now ?j s c1 s1 t] by (cases col) (auto simp: issues_none)
  have 2: "(row \<longrightarrow> r1) \<and> issues t 0 (of_bool (\<not> row \<and> r1)) s1 s2"
    using r issue_row_issues[of now ?j s1 r1 s2 t] by (auto simp: issues_none split: if_splits)
  have 3: "issues t 0 0 s2 s3"
    using idle_bank_timing[of s2 ?j k] idle_bank_requests[of s2 ?j k] i by (simp add: issues_none quiet_def)
  note 4 = Cons.IH[OF rest]
  have "issues t (of_bool (\<not> col \<and> c1) + of_bool (\<not> c1 \<and> col')) (of_bool (\<not> row \<and> r1) + of_bool (\<not> r1 \<and> row')) s s'"
    using issues_trans[OF issues_trans[OF issues_trans[OF conjunct2[OF 1] conjunct2[OF 2]] 3] conjunct2[OF conjunct2[OF 4]]]
    by (cases c1) simp_all
  moreover have "of_bool (\<not> col \<and> c1) + of_bool (\<not> c1 \<and> col') = (of_bool (\<not> col \<and> col') :: nat)"
    "of_bool (\<not> row \<and> r1) + of_bool (\<not> r1 \<and> row') = (of_bool (\<not> row \<and> row') :: nat)"
    using 1 2 4 by auto
  ultimately show ?case using 1 2 4 by auto
qed

lemma issue_commands_issues:
  assumes "issue_commands now s = Some (col, row, k, s')"
  shows "issues t (of_bool col) (of_bool row) s s'"
proof (cases "dual_bus_interface (d_config s)")
  case True
  then obtain s1 s2 where a: "first_issued (issue_col_command now) (banks s) s = Some (col, s1)"
    and b: "first_issued (issue_row_command now) (banks s1) s1 = Some (row, s2)"
    and c: "idle_loop (banks s2) (nbk (d_config s2), s2) = (k, s')"
    using assms by (auto simp: issue_commands_def dual_bus_def bind_Some_iff split: prod.splits)
  have "quiet s2 s'"
    using idle_loop_timing[of "(nbk (d_config s2), s2)" "banks s2"] idle_loop_requests[of "(nbk (d_config s2), s2)" "banks s2"] c
    by (simp add: quiet_def)
  then show ?thesis
    using issues_trans[OF issues_trans[OF first_column_issues[OF a] first_row_issues[OF b]] issues_none] by simp
next
  case False
  then show ?thesis
    using assms single_bus_issues[of "banks s" now False False "nbk (d_config s)" s col row k s' t]
    by (simp add: issue_commands_def)
qed

lemma dram_cycle_issues:
  assumes "dram_cycle sim tot s = Some s'"
  obtains n m s1 s2 where "n \<le> 1" "m \<le> 1" "return_data (sim + tot) s \<bind> run_scheduler sim tot = Some s1"
    "same_timing s s1" "issues t n m s1 s2" "s' = tick_counters s2"
proof -
  obtain r s1 s3 col row k s4 s5 where a: "return_data (sim + tot) s = Some r" "run_scheduler sim tot r = Some s1"
    "stats_before s1 = Some s3" "issue_commands (sim + tot) s3 = Some (col, row, k, s4)"
    "stats_after col (count_issue col row k s4) = Some s5" "s' = tick_counters s5"
    using assms by (auto simp: dram_cycle_def bind_Some_iff)
  have "same_timing s s1"
    using return_data_timing[OF a(1)] run_scheduler_timing[OF a(2)] same_timing_trans by blast
  moreover have "quiet s1 s3"
    using stats_before_timing[OF a(3)] stats_before_requests[OF a(3)] by (simp add: quiet_def)
  moreover have "quiet s4 s5"
    unfolding quiet_def
    using same_timing_trans[OF count_issue_timing stats_after_timing[OF a(5)]]
      same_requests_trans[OF count_issue_requests stats_after_requests[OF a(5)]] by blast
  ultimately have "same_timing s s1" "issues t (of_bool col) (of_bool row) s1 s5"
    using issues_trans[OF issues_trans[OF issues_none issue_commands_issues[OF a(4)]] issues_none] by simp_all
  then show ?thesis using that[of "of_bool col" "of_bool row" s1 s5] a(1,2,6) by simp
qed

section \<open>Runs\<close>

text \<open>
  A run of the channel: the partition pushes requests and takes replies, and the command clock
  ticks. The state of a run is the number of cycles so far, the commands issued in them and the
  channel; the channel's list of printed commands is emptied at the start of each cycle.
\<close>

datatype dram_op = Push_req mf_ref u64 u64 | Clock u64 u64 | Take_reply

type_synonym dram_trace = "(nat \<times> dram_cmd) list"

fun dram_op_step :: "dram_op \<Rightarrow> nat \<times> dram_trace \<times> dram \<Rightarrow> (nat \<times> dram_trace \<times> dram) option" where
  "dram_op_step (Push_req r sim tot) (t, tr, s) = do { s \<leftarrow> dram_push r sim tot s; Some (t, tr, s) }"
| "dram_op_step Take_reply (t, tr, s) = do { (r, s) \<leftarrow> return_queue_pop s; Some (t, tr, s) }"
| "dram_op_step (Clock sim tot) (t, tr, s) = do {
     s \<leftarrow> dram_cycle sim tot (s\<lparr>d_printed := []\<rparr>);
     Some (Suc t, tr @ map (Pair t) (rev (d_printed s)), s) }"

fun dram_run :: "dram_op list \<Rightarrow> nat \<times> dram_trace \<times> dram \<Rightarrow> (nat \<times> dram_trace \<times> dram) option" where
  "dram_run [] x = Some x"
| "dram_run (op # ops) x = do { x \<leftarrow> dram_op_step op x; dram_run ops x }"

text \<open>
  A legal trace: every later command keeps all its distances to every earlier one, every command
  finds its bank in the right state, and no cycle has two column or two row commands.
\<close>

definition cmds_at :: "nat \<Rightarrow> dram_trace \<Rightarrow> dram_cmd list" where
  "cmds_at t tr = map snd (filter (\<lambda>e. fst e = t) tr)"

definition legal_trace :: "dram_config \<Rightarrow> dram_trace \<Rightarrow> bool" where
  "legal_trace cfg tr = (sorted_wrt (spaced cfg) tr \<and> rows_ok (\<lambda>_. None) (map snd tr) \<and>
     (\<forall>t. columns (cmds_at t tr) \<le> 1 \<and> row_cmds (cmds_at t tr) \<le> 1))"

definition run_ok :: "dram_config \<Rightarrow> nat \<times> dram_trace \<times> dram \<Rightarrow> bool" where
  "run_ok cfg = (\<lambda>(t, tr, s). d_config s = cfg \<and> legal_trace cfg tr \<and>
     open_rows s = fold after_cmd (map snd tr) (\<lambda>_. None) \<and>
     (\<forall>e \<in> set tr. fst e < t \<and> covered t s e))"

lemma covered_clear [simp]: "covered t (s\<lparr>d_printed := x\<rparr>) e = covered t s e"
  by (cases "(t, s, e)" rule: covered.cases) (simp_all add: Let_def)

lemma open_rows_clear [simp]: "open_rows (s\<lparr>d_printed := x\<rparr>) = open_rows s"
  by (rule ext) (simp add: open_rows_def)

lemma open_rows_tick [simp]: "open_rows (tick_counters s) = open_rows s"
  by (rule ext) (simp add: open_rows_def tick_counters_def tick_bank_def)

lemma cmds_at_append: "cmds_at t (tr @ map (Pair u) cs) = cmds_at t tr @ (if t = u then cs else [])"
  by (auto simp: cmds_at_def filter_empty_conv) (induction cs; simp)+

lemma same_timing_run_ok: "same_timing s s' \<Longrightarrow> run_ok cfg (t, tr, s) \<Longrightarrow> run_ok cfg (t, tr, s')"
  by (simp add: run_ok_def same_timing_rows same_timing_covered same_timingD)

lemma clock_run_ok:
  assumes ok: "run_ok cfg (t, tr, s)" and cyc: "dram_cycle sim tot (s\<lparr>d_printed := []\<rparr>) = Some s'"
  shows "run_ok cfg (Suc t, tr @ map (Pair t) (rev (d_printed s')), s')"
proof -
  obtain n m s2 s1 where nm: "n \<le> 1" "m \<le> 1" "same_timing (s\<lparr>d_printed := []\<rparr>) s2" "issues t n m s2 s1"
    and s': "s' = tick_counters s1"
    by (rule dram_cycle_issues[OF cyc])
  then obtain cs where em: "emits t cs (s\<lparr>d_printed := []\<rparr>) s1" and cnt: "columns cs \<le> 1" "row_cmds cs \<le> 1"
    unfolding issues_def using then_emits[OF nm(3)] by auto
  have cfg: "d_config s = cfg" "d_config s' = cfg"
    using ok em by (auto simp: run_ok_def emits_def s' tick_counters_def)
  have printed: "rev (d_printed s') = cs"
    using em by (simp add: emits_def s' tick_counters_def)
  have old: "covered t s1 e \<and> (\<forall>c \<in> set cs. spaced cfg e (t, c))" if "e \<in> set tr" for e
  proof -
    have "fst e \<le> t" "covered t s (fst e, snd e)"
      using ok that unfolding run_ok_def by fastforce+
    then show ?thesis using em cfg(1) by (cases e) (auto simp: emits_def)
  qed
  have new: "covered t s1 (t, c)" if "c \<in> set cs" for c using em that by (auto simp: emits_def)
  have none: "cmds_at t tr = []"
    using ok by (auto simp: run_ok_def cmds_at_def filter_empty_conv)
  have "legal_trace cfg (tr @ map (Pair t) cs)"
    unfolding legal_trace_def
  proof (intro conjI allI)
    show "sorted_wrt (spaced cfg) (tr @ map (Pair t) cs)"
      using ok em old cfg(1) by (auto simp: sorted_wrt_append run_ok_def legal_trace_def emits_def)
    show "rows_ok (\<lambda>_. None) (map snd (tr @ map (Pair t) cs))"
      using ok em by (simp add: rows_ok_append run_ok_def legal_trace_def emits_def comp_def)
    fix u
    show "columns (cmds_at u (tr @ map (Pair t) cs)) \<le> 1" "row_cmds (cmds_at u (tr @ map (Pair t) cs)) \<le> 1"
      using ok cnt none by (cases "u = t"; simp add: cmds_at_append run_ok_def legal_trace_def)+
  qed
  moreover have "open_rows s' = fold after_cmd (map snd (tr @ map (Pair t) cs)) (\<lambda>_. None)"
    using ok em by (simp add: s' run_ok_def emits_def comp_def)
  moreover have "covered (Suc t) s' e" if "e \<in> set tr \<union> Pair t ` set cs" for e
  proof -
    have "covered t s1 e" using that old[of e] new by auto
    then show ?thesis unfolding s' by (rule tick_covered)
  qed
  ultimately show ?thesis
    using ok cfg(2) unfolding printed run_ok_def by fastforce
qed

lemma dram_run_ok: "run_ok cfg x \<Longrightarrow> dram_run ops x = Some y \<Longrightarrow> run_ok cfg y"
proof (induction ops arbitrary: x)
  case (Cons op ops)
  then obtain z where z: "dram_op_step op x = Some z" "dram_run ops z = Some y" by (auto simp: bind_Some_iff)
  obtain t tr s where x: "x = (t, tr, s)" by (cases x)
  have "run_ok cfg z"
  proof (cases op)
    case (Push_req r sim tot)
    then obtain s1 where "dram_push r sim tot s = Some s1" "z = (t, tr, s1)"
      using z(1) x by (auto simp: bind_Some_iff)
    then show ?thesis using same_timing_run_ok[OF dram_push_timing] Cons.prems(1) x by blast
  next
    case (Clock sim tot)
    then show ?thesis using z(1) x Cons.prems(1) clock_run_ok by (auto simp: bind_Some_iff)
  next
    case Take_reply
    then obtain r s1 where "return_queue_pop s = Some (r, s1)" "z = (t, tr, s1)"
      using z(1) x by (auto simp: bind_Some_iff)
    then show ?thesis using same_timing_run_ok[OF return_queue_pop_timing] Cons.prems(1) x by blast
  qed
  then show ?case using Cons.IH z(2) by blast
qed simp

section \<open>Requests over a run\<close>

lemma dram_cycle_serves:
  assumes "dram_cycle sim tot s = Some s'" "placed s" "d_printed s = []"
  shows "placed s' \<and> (\<forall>s1. return_data (sim + tot) s \<bind> run_scheduler sim tot = Some s1 \<longrightarrow>
    (\<forall>c \<in> set (d_printed s'). \<exists>q. request_at s1 (cmd_bank c) = Some q \<and> serves c q))"
proof -
  obtain n m s1 s2 where s1: "return_data (sim + tot) s \<bind> run_scheduler sim tot = Some s1" "same_timing s s1"
    and i: "issues 0 n m s1 s2" and s': "s' = tick_counters s2"
    by (rule dram_cycle_issues[OF assms(1)])
  obtain r where r: "return_data (sim + tot) s = Some r" "run_scheduler sim tot r = Some s1"
    using s1(1) by (auto simp: bind_Some_iff)
  have p: "placed s1"
    using run_scheduler_placed[OF r(2) drifts_placed[OF return_data_drifts[OF r(1)] assms(2)]] .
  obtain cs where cs: "emits 0 cs s1 s2" "aims cs s1 s2" using i unfolding issues_def by blast
  have printed: "set (d_printed s') = set cs"
    using cs(1) assms(3) same_timingD(7)[OF s1(2)] by (simp add: s' emits_def tick_counters_def)
  have "drifts s1 s2" using cs(2) by (simp add: aims_def)
  then have "placed s'"
    unfolding s' using drifts_placed[OF same_requests_drifts[OF tick_requests] drifts_placed[OF _ p]] by blast
  moreover have "\<exists>q. request_at s1 (cmd_bank c) = Some q \<and> serves c q" if c: "c \<in> set (d_printed s')" for c
  proof -
    obtain q where q: "request_at s1 (cmd_bank c) = Some q" "fits c q"
      using cs(2) c unfolding aims_def printed by blast
    have "unat (dr_bk q) = cmd_bank c" by (rule placed_bank[OF p q(1)])
    then show ?thesis using q by (auto simp: serves_def)
  qed
  ultimately show ?thesis using s1(1) by simp
qed

lemma dram_new_placed: "dram_new i cfg a b rs ms = Some s \<Longrightarrow> req_store_ok rs \<Longrightarrow> placed s"
  by (auto simp: dram_new_def bind_Some_iff placed_def bins_ok_def frfcfs_new_def empty_queues_def split: if_split_asm)

lemma placed_clear [simp]: "placed (s\<lparr>d_printed := x\<rparr>) = placed s"
  by (simp add: placed_def)

lemma dram_run_placed: "dram_run ops (t, tr, s) = Some (t', tr', s') \<Longrightarrow> placed s \<Longrightarrow> placed s'"
proof (induction ops arbitrary: t tr s)
  case (Cons op ops)
  then obtain t1 tr1 s1 where z: "dram_op_step op (t, tr, s) = Some (t1, tr1, s1)"
    "dram_run ops (t1, tr1, s1) = Some (t', tr', s')" by (auto simp: bind_Some_iff)
  have "placed s1"
  proof (cases op)
    case (Push_req r sim tot)
    then have "dram_push r sim tot s = Some s1" using z(1) by (auto simp: bind_Some_iff)
    then show ?thesis using drifts_placed[OF dram_push_drifts Cons.prems(2)] by blast
  next
    case (Clock sim tot)
    then have "dram_cycle sim tot (s\<lparr>d_printed := []\<rparr>) = Some s1" using z(1) by (auto simp: bind_Some_iff)
    from dram_cycle_serves[OF this] show ?thesis using Cons.prems(2) by simp
  next
    case Take_reply
    then obtain r where "return_queue_pop s = Some (r, s1)" using z(1) by (auto simp: bind_Some_iff)
    from return_queue_pop_requests[OF this] show ?thesis
      using drifts_placed[OF same_requests_drifts Cons.prems(2)] by blast
  qed
  then show ?case using Cons.IH z(2) by blast
qed simp

section \<open>Properties\<close>

text \<open>
  C1: The channel obeys the DRAM protocol and serves the requests. Whatever requests the partition
  pushes and whenever it takes replies, the commands of any run of a new channel form a legal trace:
  between every two of them the distances of the timing parameters are kept (tRCD, tRCDWR, tRAS, tRP,
  tRC and tWTP and the burst within a bank, tRRD, tCCD, tRTW and tWTR across banks, tCCDL and tRTPL
  within a bank group), a row is activated only in a precharged bank and precharged only when open,
  every read and write goes to the row that is open, and no cycle has two column commands or two row
  commands. And every command of every next cycle is for the request that its bank holds after the
  scheduler has run in that cycle, a request with this bank in its address: a read or write has the
  request's kind, its row, which is therefore the open one, and the first column it has not yet
  transferred; an activation opens the row of the request; a precharge closes another row.
\<close>

theorem dram_commands_are_legal:
  assumes "dram_new i cfg a b rs ms = Some s0" "req_store_ok rs" "dram_run ops (0, [], s0) = Some (t, tr, s)"
  shows "legal_trace cfg tr \<and>
    (\<forall>sim tot s1 s'. return_data (sim + tot) (s\<lparr>d_printed := []\<rparr>) \<bind> run_scheduler sim tot = Some s1 \<longrightarrow>
       dram_cycle sim tot (s\<lparr>d_printed := []\<rparr>) = Some s' \<longrightarrow>
       (\<forall>c \<in> set (d_printed s'). \<exists>q. request_at s1 (cmd_bank c) = Some q \<and> serves c q))"
proof -
  have "run_ok cfg (0, [], s0)"
    using assms(1)
    by (auto simp: run_ok_def legal_trace_def cmds_at_def dram_new_def bind_Some_iff open_rows_def)
  from dram_run_ok[OF this assms(3)] have "legal_trace cfg tr" by (simp add: run_ok_def)
  moreover have "placed (s\<lparr>d_printed := []\<rparr>)"
    using dram_run_placed[OF assms(3) dram_new_placed[OF assms(1,2)]] by simp
  ultimately show ?thesis using dram_cycle_serves[of _ _ "s\<lparr>d_printed := []\<rparr>"] by auto
qed

definition tiny_dram :: dram_config where
  "tiny_dram = sample_dram\<lparr>nbk := 1, nbkgrp := 1, bk_tag_length := 0, scheduler_type := DRAM_FIFO, tRCD := 1, CL := 1,
     WL := 1, BL := 4, data_command_freq_ratio := 4\<rparr>"

definition no_reqs :: req_store where
  "no_reqs = \<lparr>rs_heap = Map.empty, rs_next = 0\<rparr>"

definition tiny_channel :: dram where
  "tiny_channel = the (dram_new 0 tiny_dram 0 0 no_reqs sample_fetches)"

lemma tiny_channel_new: "dram_new 0 tiny_dram 0 0 no_reqs sample_fetches = Some tiny_channel"
proof -
  have "dram_new 0 tiny_dram 0 0 no_reqs sample_fetches \<noteq> None" by code_simp
  then show ?thesis by (auto simp: tiny_channel_def)
qed

text \<open>The phases of a cycle are evaluated one at a time.\<close>

lemma cycle_by_phases:
  assumes "return_data (sim + tot) s \<bind> run_scheduler sim tot = Some s1"
    and "stats_before s1 \<bind> issue_commands (sim + tot) = Some (col, row, k, s2)"
    and "stats_after col (count_issue col row k s2) = Some s3"
  shows "dram_cycle sim tot s = Some (tick_counters s3)"
  using assms by (auto simp: dram_cycle_def bind_Some_iff)

definition tiny0 :: dram where
  "tiny0 = the (dram_push 0 0 0 tiny_channel)"

definition tiny1 :: dram where
  "tiny1 = the (return_data 0 (tiny0\<lparr>d_printed := []\<rparr>) \<bind> run_scheduler 0 0)"

definition tiny2 :: dram where
  "tiny2 = (case the (stats_before tiny1 \<bind> issue_commands 0) of (col, row, k, s) \<Rightarrow> s)"

definition tiny3 :: dram where
  "tiny3 = the (stats_after False (count_issue False True 1 tiny2))"

definition tiny4 :: dram where
  "tiny4 = the (return_data 1 ((tick_counters tiny3)\<lparr>d_printed := []\<rparr>) \<bind> run_scheduler 1 0)"

definition tiny5 :: dram where
  "tiny5 = (case the (stats_before tiny4 \<bind> issue_commands 1) of (col, row, k, s) \<Rightarrow> s)"

definition tiny6 :: dram where
  "tiny6 = the (stats_after True (count_issue True False 1 tiny5))"

lemma the_Some: "x \<noteq> None \<Longrightarrow> x = Some (the x)"
  by auto

lemma issued_Some:
  assumes "map_option (\<lambda>(col, row, k, s). (col, row, k)) x = Some (c, r, n)"
  shows "x = Some (c, r, n, (case the x of (col, row, k, s) \<Rightarrow> s))"
  using assms by auto

lemma tiny_first:
  "dram_push 0 0 0 tiny_channel = Some tiny0"
  "return_data 0 (tiny0\<lparr>d_printed := []\<rparr>) \<bind> run_scheduler 0 0 = Some tiny1"
  "stats_before tiny1 \<bind> issue_commands 0 = Some (False, True, 1, tiny2)"
  "stats_after False (count_issue False True 1 tiny2) = Some tiny3" "d_printed tiny3 = [ACT 0 0]"
proof -
  show "dram_push 0 0 0 tiny_channel = Some tiny0"
    unfolding tiny0_def by (rule the_Some) code_simp
  show "return_data 0 (tiny0\<lparr>d_printed := []\<rparr>) \<bind> run_scheduler 0 0 = Some tiny1"
    unfolding tiny1_def by (rule the_Some) code_simp
  show "stats_before tiny1 \<bind> issue_commands 0 = Some (False, True, 1, tiny2)"
    unfolding tiny2_def by (rule issued_Some) code_simp
  show "stats_after False (count_issue False True 1 tiny2) = Some tiny3"
    unfolding tiny3_def by (rule the_Some) code_simp
  show "d_printed tiny3 = [ACT 0 0]" by code_simp
qed

lemma tiny_second:
  "return_data 1 ((tick_counters tiny3)\<lparr>d_printed := []\<rparr>) \<bind> run_scheduler 1 0 = Some tiny4"
  "stats_before tiny4 \<bind> issue_commands 1 = Some (True, False, 1, tiny5)"
  "stats_after True (count_issue True False 1 tiny5) = Some tiny6" "d_printed tiny6 = [RD 0 0 0]"
proof -
  show "return_data 1 ((tick_counters tiny3)\<lparr>d_printed := []\<rparr>) \<bind> run_scheduler 1 0 = Some tiny4"
    unfolding tiny4_def by (rule the_Some) code_simp
  show "stats_before tiny4 \<bind> issue_commands 1 = Some (True, False, 1, tiny5)"
    unfolding tiny5_def by (rule issued_Some) code_simp
  show "stats_after True (count_issue True False 1 tiny5) = Some tiny6"
    unfolding tiny6_def by (rule the_Some) code_simp
  show "d_printed tiny6 = [RD 0 0 0]" by code_simp
qed

lemma tiny_run:
  "dram_run [Push_req 0 0 0, Clock 0 0, Clock 1 0] (0, [], tiny_channel) =
   Some (2, [(0, ACT 0 0), (1, RD 0 0 0)], tick_counters tiny6)"
proof -
  have a: "dram_cycle 0 0 (tiny0\<lparr>d_printed := []\<rparr>) = Some (tick_counters tiny3)"
    using cycle_by_phases[of 0 0 _ tiny1, unfolded add_0_left, OF tiny_first(2) tiny_first(3) tiny_first(4)] .
  have b: "dram_cycle 1 0 ((tick_counters tiny3)\<lparr>d_printed := []\<rparr>) = Some (tick_counters tiny6)"
    using cycle_by_phases[of 1 0 _ tiny4, unfolded add_0_right, OF tiny_second(1) tiny_second(2) tiny_second(3)] .
  have p: "d_printed (tick_counters x) = d_printed x" for x by (simp add: tick_counters_def)
  show ?thesis
    by (simp only: dram_run.simps dram_op_step.simps tiny_first(1) a b p Option.bind_lunit prod.case
        tiny_first(5) tiny_second(4)) simp
qed

lemma tiny_half: "dram_run [Push_req 0 0 0, Clock 0 0] (0, [], tiny_channel) = Some (1, [(0, ACT 0 0)], tick_counters tiny3)"
proof -
  have a: "dram_cycle 0 0 (tiny0\<lparr>d_printed := []\<rparr>) = Some (tick_counters tiny3)"
    using cycle_by_phases[of 0 0 _ tiny1, unfolded add_0_left, OF tiny_first(2) tiny_first(3) tiny_first(4)] .
  show ?thesis
    by (simp only: dram_run.simps dram_op_step.simps tiny_first(1) a Option.bind_lunit prod.case)
       (simp add: tick_counters_def tiny_first(5))
qed

text \<open>One read: its row is opened in cycle 0, and in cycle 1 its burst is read from that row.\<close>

theorem dram_commands_are_legal_witness:
  "legal_trace tiny_dram [(0, ACT 0 0), (1, RD 0 0 0)] \<and>
   (\<exists>q. request_at tiny4 0 = Some q \<and> serves (RD 0 0 0) q)"
proof -
  have ok: "req_store_ok no_reqs" by (simp add: req_store_ok_def no_reqs_def)
  have cycle: "dram_cycle 1 0 ((tick_counters tiny3)\<lparr>d_printed := []\<rparr>) = Some (tick_counters tiny6)"
    using cycle_by_phases[of 1 0 _ tiny4, unfolded add_0_right, OF tiny_second(1) tiny_second(2) tiny_second(3)] .
  have printed: "RD 0 0 0 \<in> set (d_printed (tick_counters tiny6))" by (simp add: tick_counters_def tiny_second(4))
  have "\<exists>q. request_at tiny4 (cmd_bank (RD 0 0 0)) = Some q \<and> serves (RD 0 0 0) q"
    using conjunct2[OF dram_commands_are_legal[OF tiny_channel_new ok tiny_half], rule_format, OF _ cycle printed]
      tiny_second(1) by simp
  then show ?thesis using dram_commands_are_legal[OF tiny_channel_new ok tiny_run] by simp
qed

end
