(* ===== verification/Xbar.thy ===== *)
theory Xbar
  imports Prelude
begin

text \<open>
  The built-in interconnect (\<open>local_interconnect.cc\<close>): a crossbar router with input and output
  buffers, its two arbiters, and \<open>LocalInterconnect\<close>, which sends requests and replies over one
  router each. The payload \<open>'d\<close> of a packet is the pointer the simulator passes in. The statistics
  are kept; the debug printing under \<open>verbose\<close> and the statistics report are left out. A buffer is a
  list, front first; a vector indexed outside its size stops the model.
\<close>

section \<open>State\<close>

datatype Interconnect_type = REQ_NET | REPLY_NET

datatype Arbiteration_type = NAIVE_RR | iSLIP

record inct_config =
  ic_in_buffer_limit :: u32
  ic_out_buffer_limit :: u32
  ic_subnets :: u32
  ic_arbiter_algo :: Arbiteration_type
  ic_grant_cycles :: u32

record 'd packet =
  pkt_data :: 'd
  output_deviceID :: nat

record xbar_stats =
  cycles :: u64
  conflicts :: u64
  conflicts_util :: u64
  cycles_util :: u64
  reqs_util :: u64
  out_buffer_full :: u64
  out_buffer_util :: u64
  in_buffer_full :: u64
  in_buffer_util :: u64
  packets_num :: u64

record 'd xbar_router =
  in_buffers :: "'d packet list list"
  out_buffers :: "'d packet list list"
  total_nodes :: nat
  in_buffer_limit :: u32
  out_buffer_limit :: u32
  next_node :: "nat list"
  next_node_id :: nat
  m_id :: u32
  router_type :: Interconnect_type
  active_in_buffers :: u32
  active_out_buffers :: u32
  arbit_type :: Arbiteration_type
  grant_cycles :: u32
  grant_cycles_count :: u32
  x_stats :: xbar_stats

definition xbar_new :: "u32 \<Rightarrow> Interconnect_type \<Rightarrow> u32 \<Rightarrow> u32 \<Rightarrow> inct_config \<Rightarrow> 'd xbar_router" where
  "xbar_new router_id ty n_shader n_mem cfg =
    (let n = unat (n_shader + n_mem) in
     \<lparr>in_buffers = replicate n [], out_buffers = replicate n [], total_nodes = n,
      in_buffer_limit = ic_in_buffer_limit cfg, out_buffer_limit = ic_out_buffer_limit cfg,
      next_node = replicate n 0, next_node_id = 0, m_id = router_id, router_type = ty,
      active_in_buffers = (if ty = REQ_NET then n_shader else n_mem),
      active_out_buffers = (if ty = REQ_NET then n_mem else n_shader),
      arbit_type = ic_arbiter_algo cfg,
      grant_cycles = ic_grant_cycles cfg, grant_cycles_count = ic_grant_cycles cfg,
      x_stats = \<lparr>cycles = 0, conflicts = 0, conflicts_util = 0, cycles_util = 0, reqs_util = 0,
        out_buffer_full = 0, out_buffer_util = 0, in_buffer_full = 0, in_buffer_util = 0, packets_num = 0\<rparr>\<rparr>)"

abbreviation upd_stats :: "(xbar_stats \<Rightarrow> xbar_stats) \<Rightarrow> 'd xbar_router \<Rightarrow> 'd xbar_router" where
  "upd_stats f r \<equiv> r\<lparr>x_stats := f (x_stats r)\<rparr>"

section \<open>Operations\<close>

definition xbar_push :: "nat \<Rightarrow> nat \<Rightarrow> 'd \<Rightarrow> 'd xbar_router \<Rightarrow> 'd xbar_router option" where
  "xbar_push input_deviceID out data r = do {
     ensure (input_deviceID < total_nodes r);
     b \<leftarrow> at (in_buffers r) input_deviceID;
     bs \<leftarrow> put (in_buffers r) input_deviceID (b @ [\<lparr>pkt_data = data, output_deviceID = out\<rparr>]);
     Some (upd_stats (\<lambda>s. s\<lparr>packets_num := packets_num s + 1\<rparr>) (r\<lparr>in_buffers := bs\<rparr>))
   }"

definition xbar_pop :: "nat \<Rightarrow> 'd xbar_router \<Rightarrow> ('d option \<times> 'd xbar_router) option" where
  "xbar_pop out r = do {
     ensure (out < total_nodes r);
     b \<leftarrow> at (out_buffers r) out;
     (case b of
        [] \<Rightarrow> Some (None, r)
      | p # ps \<Rightarrow> do {
          bs \<leftarrow> put (out_buffers r) out ps;
          Some (Some (pkt_data p), r\<lparr>out_buffers := bs\<rparr>) })
   }"

definition has_buffer_in :: "nat \<Rightarrow> nat \<Rightarrow> bool \<Rightarrow> 'd xbar_router \<Rightarrow> (bool \<times> 'd xbar_router) option" where
  "has_buffer_in input_deviceID sz update_counter r = do {
     ensure (input_deviceID < total_nodes r);
     b \<leftarrow> at (in_buffers r) input_deviceID;
     let has_buffer = (length b + sz \<le> unat (in_buffer_limit r));
     Some (has_buffer,
       if update_counter \<and> \<not> has_buffer
       then upd_stats (\<lambda>s. s\<lparr>in_buffer_full := in_buffer_full s + 1\<rparr>) r else r)
   }"

definition has_buffer_out :: "nat \<Rightarrow> nat \<Rightarrow> 'd xbar_router \<Rightarrow> bool option" where
  "has_buffer_out out sz r = do {
     b \<leftarrow> at (out_buffers r) out;
     Some (length b + sz \<le> unat (out_buffer_limit r))
   }"

text \<open>Moving the front packet of an input to its output, as both arbiters do.\<close>

definition transfer :: "nat \<Rightarrow> 'd xbar_router \<Rightarrow> 'd xbar_router option" where
  "transfer node r = do {
     b \<leftarrow> at (in_buffers r) node;
     (case b of
        [] \<Rightarrow> None
      | p # ps \<Rightarrow> do {
          o' \<leftarrow> at (out_buffers r) (output_deviceID p);
          obs \<leftarrow> put (out_buffers r) (output_deviceID p) (o' @ [p]);
          ibs \<leftarrow> put (in_buffers r) node ps;
          Some (r\<lparr>out_buffers := obs, in_buffers := ibs\<rparr>) })
   }"

text \<open>The accounting at the end of both arbiters.\<close>

definition count_buffers :: "'d xbar_router \<Rightarrow> 'd xbar_router" where
  "count_buffers r = upd_stats (\<lambda>s. s\<lparr>
     in_buffer_util := in_buffer_util s + sum_list (map (\<lambda>b. of_nat (length b)) (in_buffers r)),
     out_buffer_util := out_buffer_util s + sum_list (map (\<lambda>b. of_nat (length b)) (out_buffers r)),
     cycles := cycles s + 1\<rparr>) r"

subsection \<open>Round robin\<close>

text \<open>What one round keeps: the outputs already used, and the counts of conflicts and of packets.\<close>

record rr_round =
  rr_active :: bool
  rr_issued :: "bool list"
  rr_conflicts :: u32
  rr_reqs :: u32

definition rr_node :: "nat \<Rightarrow> rr_round \<times> 'd xbar_router \<Rightarrow> (rr_round \<times> 'd xbar_router) option" where
  "rr_node node_id = (\<lambda>(a, r). do {
     b \<leftarrow> at (in_buffers r) node_id;
     (case b of
        [] \<Rightarrow> Some (a, r)
      | p # _ \<Rightarrow> do {
          let a = a\<lparr>rr_active := True\<rparr>;
          room \<leftarrow> has_buffer_out (output_deviceID p) 1 r;
          issued \<leftarrow> at (rr_issued a) (output_deviceID p);
          (if room then
             if \<not> issued then do {
               r \<leftarrow> transfer node_id r;
               Some (a\<lparr>rr_issued := (rr_issued a)[output_deviceID p := True], rr_reqs := rr_reqs a + 1\<rparr>, r) }
             else Some (a\<lparr>rr_conflicts := rr_conflicts a + 1\<rparr>, r)
           else
             Some (if issued then a\<lparr>rr_conflicts := rr_conflicts a + 1\<rparr> else a,
                   upd_stats (\<lambda>s. s\<lparr>out_buffer_full := out_buffer_full s + 1\<rparr>) r)) }) })"

fun rr_loop :: "nat list \<Rightarrow> rr_round \<times> 'd xbar_router \<Rightarrow> (rr_round \<times> 'd xbar_router) option" where
  "rr_loop [] x = Some x"
| "rr_loop (i # is) x = do {
     x \<leftarrow> rr_node ((i + next_node_id (snd x)) mod total_nodes (snd x)) x;
     rr_loop is x }"

definition rr_advance :: "'d xbar_router \<Rightarrow> 'd xbar_router option" where
  "rr_advance r = do {
     (a, r) \<leftarrow> rr_loop [0..<total_nodes r]
       (\<lparr>rr_active = False, rr_issued = replicate (total_nodes r) False, rr_conflicts = 0, rr_reqs = 0\<rparr>, r);
     ensure (0 < total_nodes r);
     let r = r\<lparr>next_node_id := (next_node_id r + 1) mod total_nodes r\<rparr>;
     let r = upd_stats (\<lambda>s. s\<lparr>conflicts := conflicts s + ucast (rr_conflicts a)\<rparr>) r;
     let r = (if rr_active a then upd_stats (\<lambda>s. s\<lparr>
               conflicts_util := conflicts_util s + ucast (rr_conflicts a),
               cycles_util := cycles_util s + 1,
               reqs_util := reqs_util s + ucast (rr_reqs a)\<rparr>) r else r);
     Some (count_buffers r)
   }"

subsection \<open>iSLIP\<close>

text \<open>The count of conflicts over the outputs that the fronts of the inputs ask for.\<close>

fun count_conflicts :: "nat list \<Rightarrow> nat list \<Rightarrow> u32" where
  "count_conflicts seen [] = 0"
| "count_conflicts seen (out # outs) =
     (if out \<in> set seen then 1 + count_conflicts seen outs else count_conflicts (out # seen) outs)"

definition front_outputs :: "'d xbar_router \<Rightarrow> nat list" where
  "front_outputs r = map (\<lambda>b. output_deviceID (hd b)) (filter (\<lambda>b. b \<noteq> []) (in_buffers r))"

text \<open>The search of output \<open>i\<close> for an input that asks for it, from the input it prefers.\<close>

fun islip_grant :: "nat \<Rightarrow> nat list \<Rightarrow> 'd xbar_router \<Rightarrow> (bool \<times> 'd xbar_router) option" where
  "islip_grant i [] r = Some (False, r)"
| "islip_grant i (j # js) r = do {
     n \<leftarrow> at (next_node r) i;
     let node_id = (j + n) mod total_nodes r;
     b \<leftarrow> at (in_buffers r) node_id;
     (case b of
        [] \<Rightarrow> islip_grant i js r
      | p # _ \<Rightarrow>
          if output_deviceID p = i then do {
            r \<leftarrow> transfer node_id r;
            nn \<leftarrow> (if grant_cycles_count r = 1 then put (next_node r) i ((node_id + 1) mod total_nodes r)
                   else Some (next_node r));
            Some (True, r\<lparr>next_node := nn\<rparr>) }
          else islip_grant i js r) }"

fun islip_loop :: "nat list \<Rightarrow> u32 \<Rightarrow> 'd xbar_router \<Rightarrow> (u32 \<times> 'd xbar_router) option" where
  "islip_loop [] reqs r = Some (reqs, r)"
| "islip_loop (i # is) reqs r = do {
     room \<leftarrow> has_buffer_out i 1 r;
     (if room then do {
        (granted, r) \<leftarrow> islip_grant i [0..<total_nodes r] r;
        islip_loop is (if granted then reqs + 1 else reqs) r }
      else islip_loop is reqs (upd_stats (\<lambda>s. s\<lparr>out_buffer_full := out_buffer_full s + 1\<rparr>) r)) }"

definition islip_advance :: "'d xbar_router \<Rightarrow> 'd xbar_router option" where
  "islip_advance r = do {
     let active = list_ex (\<lambda>b. b \<noteq> []) (in_buffers r);
     let conflict_sub = count_conflicts [] (front_outputs r);
     let r = upd_stats (\<lambda>s. s\<lparr>conflicts := conflicts s + ucast conflict_sub\<rparr>) r;
     let r = (if active then upd_stats (\<lambda>s. s\<lparr>
               conflicts_util := conflicts_util s + ucast conflict_sub,
               cycles_util := cycles_util s + 1\<rparr>) r else r);
     (reqs, r) \<leftarrow> islip_loop [0..<total_nodes r] 0 r;
     let r = (if active then upd_stats (\<lambda>s. s\<lparr>reqs_util := reqs_util s + ucast reqs\<rparr>) r else r);
     let r = (if active \<and> grant_cycles_count r = 1 then r\<lparr>grant_cycles_count := grant_cycles r\<rparr>
              else if active then r\<lparr>grant_cycles_count := grant_cycles_count r - 1\<rparr> else r);
     Some (count_buffers r)
   }"

definition xbar_advance :: "'d xbar_router \<Rightarrow> 'd xbar_router option" where
  "xbar_advance r = (case arbit_type r of NAIVE_RR \<Rightarrow> rr_advance r | iSLIP \<Rightarrow> islip_advance r)"

definition xbar_busy :: "'d xbar_router \<Rightarrow> bool" where
  "xbar_busy r = (list_ex (\<lambda>b. b \<noteq> []) (in_buffers r) \<or> list_ex (\<lambda>b. b \<noteq> []) (out_buffers r))"

section \<open>The interconnect of the simulator\<close>

record 'd local_interconnect =
  li_config :: inct_config
  n_shader :: nat
  n_mem :: nat
  n_subnets :: nat
  net :: "'d xbar_router list"

definition icnt_new :: "inct_config \<Rightarrow> 'd local_interconnect" where
  "icnt_new cfg = \<lparr>li_config = cfg, n_shader = 0, n_mem = 0, n_subnets = unat (ic_subnets cfg), net = []\<rparr>"

definition create_interconnect :: "u32 \<Rightarrow> u32 \<Rightarrow> 'd local_interconnect \<Rightarrow> 'd local_interconnect" where
  "create_interconnect shaders mems c = c\<lparr>n_shader := unat shaders, n_mem := unat mems,
     net := map (\<lambda>i. xbar_new (of_nat i) (if i = 0 then REQ_NET else REPLY_NET) shaders mems (li_config c))
       [0..<n_subnets c]\<rparr>"

definition icnt_push :: "nat \<Rightarrow> nat \<Rightarrow> 'd \<Rightarrow> 'd local_interconnect \<Rightarrow> 'd local_interconnect option" where
  "icnt_push input_deviceID out data c = do {
     let subnet = (if n_subnets c = 1 then 0 else if input_deviceID < n_shader c then 0 else 1);
     r \<leftarrow> at (net c) subnet;
     (room, r) \<leftarrow> has_buffer_in input_deviceID 1 False r;
     ensure room;
     r \<leftarrow> xbar_push input_deviceID out data r;
     ns \<leftarrow> put (net c) subnet r;
     Some (c\<lparr>net := ns\<rparr>)
   }"

definition icnt_pop :: "nat \<Rightarrow> 'd local_interconnect \<Rightarrow> ('d option \<times> 'd local_interconnect) option" where
  "icnt_pop out c = do {
     let subnet = (if out < n_shader c then 1 else 0);
     r \<leftarrow> at (net c) subnet;
     (d, r) \<leftarrow> xbar_pop out r;
     ns \<leftarrow> put (net c) subnet r;
     Some (d, c\<lparr>net := ns\<rparr>)
   }"

fun advance_all :: "'d xbar_router list \<Rightarrow> 'd xbar_router list option" where
  "advance_all [] = Some []"
| "advance_all (r # rs) = do { r \<leftarrow> xbar_advance r; rs \<leftarrow> advance_all rs; Some (r # rs) }"

definition icnt_advance :: "'d local_interconnect \<Rightarrow> 'd local_interconnect option" where
  "icnt_advance c = do { ns \<leftarrow> advance_all (net c); Some (c\<lparr>net := ns\<rparr>) }"

definition icnt_busy :: "'d local_interconnect \<Rightarrow> bool" where
  "icnt_busy c = list_ex xbar_busy (net c)"

definition icnt_has_buffer :: "nat \<Rightarrow> 'd local_interconnect \<Rightarrow> (bool \<times> 'd local_interconnect) option" where
  "icnt_has_buffer deviceID c = do {
     let subnet = (if 1 < n_subnets c \<and> n_shader c \<le> deviceID then 1 else 0);
     r \<leftarrow> at (net c) subnet;
     (b, r) \<leftarrow> has_buffer_in deviceID 1 True r;
     ns \<leftarrow> put (net c) subnet r;
     Some (b, c\<lparr>net := ns\<rparr>)
   }"

definition get_flit_size :: u32 where
  "get_flit_size = 40"

section \<open>What a network promises\<close>

text \<open>
  \<open>flow s n o\<close> are the packets of input \<open>n\<close> for output \<open>o\<close> that are inside the network, oldest
  first; \<open>src d\<close> is the input that packet \<open>d\<close> was sent from.
\<close>

locale network =
  fixes ok :: "'s \<Rightarrow> bool" and flow :: "'s \<Rightarrow> nat \<Rightarrow> nat \<Rightarrow> 'd list"
    and inject :: "nat \<Rightarrow> nat \<Rightarrow> 'd \<Rightarrow> 's \<Rightarrow> 's option"
    and eject :: "nat \<Rightarrow> 's \<Rightarrow> ('d option \<times> 's) option"
    and tick :: "'s \<Rightarrow> 's option" and src :: "'d \<Rightarrow> nat"
  assumes inject_ok: "ok s \<Longrightarrow> src d = n \<Longrightarrow> inject n q d s = Some s' \<Longrightarrow>
      ok s' \<and> flow s' i out = flow s i out @ (if i = n \<and> out = q then [d] else [])"
    and eject_ok: "ok s \<Longrightarrow> eject q s = Some (x, s') \<Longrightarrow>
      ok s' \<and> flow s i out = (case x of Some d \<Rightarrow> if out = q \<and> src d = i then [d] else [] | None \<Rightarrow> []) @ flow s' i out"
    and tick_ok: "ok s \<Longrightarrow> tick s = Some s' \<Longrightarrow> ok s' \<and> flow s' = flow s"

datatype 'd net_op = Send nat nat 'd | Receive nat | Tick

text \<open>A history of a network, with the packets received, each with its output.\<close>

fun run_net ::
  "(nat \<Rightarrow> nat \<Rightarrow> 'd \<Rightarrow> 's \<Rightarrow> 's option) \<Rightarrow> (nat \<Rightarrow> 's \<Rightarrow> ('d option \<times> 's) option) \<Rightarrow> ('s \<Rightarrow> 's option) \<Rightarrow>
   'd net_op list \<Rightarrow> 's \<Rightarrow> ((nat \<times> 'd) list \<times> 's) option" where
  "run_net inject eject tick [] s = Some ([], s)"
| "run_net inject eject tick (Send n q d # ops) s = do { s \<leftarrow> inject n q d s; run_net inject eject tick ops s }"
| "run_net inject eject tick (Tick # ops) s = do { s \<leftarrow> tick s; run_net inject eject tick ops s }"
| "run_net inject eject tick (Receive q # ops) s = do {
     (x, s) \<leftarrow> eject q s;
     (out, s) \<leftarrow> run_net inject eject tick ops s;
     Some (case x of Some d \<Rightarrow> (q, d) # out | None \<Rightarrow> out, s) }"

fun sent :: "nat \<Rightarrow> nat \<Rightarrow> 'd net_op list \<Rightarrow> 'd list" where
  "sent n q [] = []"
| "sent n q (Send i out d # ops) = (if i = n \<and> out = q then [d] else []) @ sent n q ops"
| "sent n q (Receive _ # ops) = sent n q ops"
| "sent n q (Tick # ops) = sent n q ops"

text \<open>Every packet is sent from the input that \<open>src\<close> names.\<close>

fun from_source :: "('d \<Rightarrow> nat) \<Rightarrow> 'd net_op \<Rightarrow> bool" where
  "from_source src (Send n q d) = (src d = n)"
| "from_source src _ = True"

definition received :: "('d \<Rightarrow> nat) \<Rightarrow> nat \<Rightarrow> nat \<Rightarrow> (nat \<times> 'd) list \<Rightarrow> 'd list" where
  "received src n q out = map snd (filter (\<lambda>(q', d). q' = q \<and> src d = n) out)"

context network
begin

lemma run_flow:
  "ok s \<Longrightarrow> list_all (from_source src) ops \<Longrightarrow> run_net inject eject tick ops s = Some (out, s') \<Longrightarrow>
   ok s' \<and> flow s n q @ sent n q ops = received src n q out @ flow s' n q"
proof (induction ops arbitrary: s out)
  case Nil
  then show ?case by (simp add: received_def)
next
  case (Cons op ops)
  show ?case
  proof (cases op)
    case (Send i q' d)
    then obtain s1 where s1: "inject i q' d s = Some s1" "run_net inject eject tick ops s1 = Some (out, s')"
      using Cons.prems(3) by (auto simp: bind_Some_iff)
    have l: "src d = i" using Cons.prems(2) Send by auto
    note step = inject_ok[OF Cons.prems(1) l s1(1), of n q]
    show ?thesis
      using step Cons.IH[OF _ _ s1(2)] Cons.prems(2) Send by auto
  next
    case (Receive q')
    then obtain x s1 out1 where s1: "eject q' s = Some (x, s1)" "run_net inject eject tick ops s1 = Some (out1, s')"
      and out: "out = (case x of Some d \<Rightarrow> (q', d) # out1 | None \<Rightarrow> out1)"
      using Cons.prems(3) by (auto simp: bind_Some_iff)
    note step = eject_ok[OF Cons.prems(1) s1(1), of n q]
    have "ok s' \<and> flow s1 n q @ sent n q ops = received src n q out1 @ flow s' n q"
      using step Cons.IH[OF _ _ s1(2)] Cons.prems(2) Receive by auto
    then show ?thesis using step out Receive by (auto simp: received_def split: option.splits)
  next
    case Tick
    then obtain s1 where s1: "tick s = Some s1" "run_net inject eject tick ops s1 = Some (out, s')"
      using Cons.prems(3) by (auto simp: bind_Some_iff)
    show ?thesis
      using tick_ok[OF Cons.prems(1) s1(1)] Cons.IH[OF _ _ s1(2)] Cons.prems(2) Tick by auto
  qed
qed

end

section \<open>The router is a network\<close>

text \<open>Shape of a router: vectors of the right size, and packets in the buffer of their output.\<close>

definition xbar_ok :: "'d xbar_router \<Rightarrow> bool" where
  "xbar_ok r = (length (in_buffers r) = total_nodes r \<and> length (out_buffers r) = total_nodes r \<and>
     length (next_node r) = total_nodes r \<and>
     (\<forall>b < total_nodes r. (\<forall>p \<in> set (out_buffers r ! b). output_deviceID p = b) \<and>
        length (out_buffers r ! b) \<le> unat (out_buffer_limit r)))"

definition xbar_flow :: "('d \<Rightarrow> nat) \<Rightarrow> 'd xbar_router \<Rightarrow> nat \<Rightarrow> nat \<Rightarrow> 'd list" where
  "xbar_flow src r n q =
    (if q < total_nodes r then filter (\<lambda>d. src d = n) (map pkt_data (out_buffers r ! q)) else []) @
    (if n < total_nodes r then map pkt_data (filter (\<lambda>p. output_deviceID p = q) (in_buffers r ! n)) else [])"

text \<open>Every packet waiting at an input comes from it.\<close>

definition sources_ok :: "('d \<Rightarrow> nat) \<Rightarrow> 'd xbar_router \<Rightarrow> bool" where
  "sources_ok src r = (\<forall>n < total_nodes r. \<forall>p \<in> set (in_buffers r ! n). src (pkt_data p) = n)"

definition same_buffers :: "'d xbar_router \<Rightarrow> 'd xbar_router \<Rightarrow> bool" where
  "same_buffers r r' = (in_buffers r' = in_buffers r \<and> out_buffers r' = out_buffers r \<and>
     total_nodes r' = total_nodes r \<and> out_buffer_limit r' = out_buffer_limit r \<and>
     length (next_node r') = length (next_node r))"

definition net_ok :: "('d \<Rightarrow> nat) \<Rightarrow> 'd xbar_router \<Rightarrow> bool" where
  "net_ok src r = (xbar_ok r \<and> sources_ok src r)"

lemma same_buffers_ok: "same_buffers r r' \<Longrightarrow> net_ok src r \<Longrightarrow> net_ok src r' \<and> xbar_flow src r' = xbar_flow src r"
  by (auto simp: same_buffers_def net_ok_def xbar_ok_def sources_ok_def xbar_flow_def fun_eq_iff)

lemma xbar_push_ok:
  assumes "net_ok src r" "src d = n" "xbar_push n q d r = Some r'"
  shows "net_ok src r' \<and> total_nodes r' = total_nodes r \<and>
    xbar_flow src r' i out = xbar_flow src r i out @ (if i = n \<and> out = q then [d] else [])"
proof -
  let ?p = "\<lparr>pkt_data = d, output_deviceID = q\<rparr>"
  have n: "n < total_nodes r" and r': "in_buffers r' = (in_buffers r)[n := in_buffers r ! n @ [?p]]"
    and same: "out_buffers r' = out_buffers r" "total_nodes r' = total_nodes r" "next_node r' = next_node r"
      "out_buffer_limit r' = out_buffer_limit r"
    using assms(3) by (auto simp: xbar_push_def bind_Some_iff)
  have "length (in_buffers r) = total_nodes r" using assms(1) by (auto simp: net_ok_def xbar_ok_def)
  then have ins: "in_buffers r' ! i = (if i = n then in_buffers r ! n @ [?p] else in_buffers r ! i)" for i
    using n by (simp add: r' nth_list_update)
  have "xbar_ok r'" using assms(1) by (simp add: net_ok_def xbar_ok_def same r')
  moreover have "sources_ok src r'"
    using assms(1,2) by (auto simp: net_ok_def sources_ok_def same ins split: if_splits)
  moreover have "xbar_flow src r' i out = xbar_flow src r i out @ (if i = n \<and> out = q then [d] else [])"
    using n by (cases "i = n"; cases "out = q") (simp_all add: xbar_flow_def same ins)
  ultimately show ?thesis by (simp add: net_ok_def same)
qed

lemma xbar_pop_ok:
  assumes "net_ok src r" "xbar_pop q r = Some (x, r')"
  shows "net_ok src r' \<and> total_nodes r' = total_nodes r \<and>
    xbar_flow src r i out = (case x of Some d \<Rightarrow> if out = q \<and> src d = i then [d] else [] | None \<Rightarrow> []) @ xbar_flow src r' i out"
proof (cases "out_buffers r ! q")
  case Nil
  then show ?thesis using assms by (auto simp: xbar_pop_def bind_Some_iff)
next
  case (Cons p ps)
  then have q: "q < total_nodes r" "x = Some (pkt_data p)" "r' = r\<lparr>out_buffers := (out_buffers r)[q := ps]\<rparr>"
    using assms by (auto simp: xbar_pop_def bind_Some_iff split: list.splits)
  have len: "length (out_buffers r) = total_nodes r" using assms(1) by (auto simp: net_ok_def xbar_ok_def)
  then have outs: "out_buffers r' ! b = (if b = q then ps else out_buffers r ! b)" for b
    using q(1) by (simp add: q(3) nth_list_update)
  have same: "in_buffers r' = in_buffers r" "total_nodes r' = total_nodes r" "next_node r' = next_node r"
      "out_buffer_limit r' = out_buffer_limit r" "length (out_buffers r') = length (out_buffers r)"
    by (simp_all add: q(3))
  have "(\<forall>x \<in> set ps. output_deviceID x = q) \<and> length ps \<le> unat (out_buffer_limit r)"
    using assms(1) q(1) Cons by (force simp: net_ok_def xbar_ok_def)
  then have "xbar_ok r'" using assms(1) len by (simp add: net_ok_def xbar_ok_def same outs)
  moreover have "sources_ok src r'" using assms(1) by (simp add: net_ok_def sources_ok_def same)
  moreover have "xbar_flow src r i out = (if out = q \<and> src (pkt_data p) = i then [pkt_data p] else []) @ xbar_flow src r' i out"
    using q(1) Cons by (cases "out = q") (simp_all add: xbar_flow_def same outs)
  ultimately show ?thesis using q(2) by (simp add: net_ok_def same)
qed

lemma transfer_ok:
  assumes "net_ok src r" "transfer n r = Some r'" "in_buffers r ! n = p # ps"
    and "length (out_buffers r ! output_deviceID p) < unat (out_buffer_limit r)"
  shows "net_ok src r' \<and> total_nodes r' = total_nodes r \<and> xbar_flow src r' = xbar_flow src r"
proof -
  let ?q = "output_deviceID p"
  have n: "n < total_nodes r" "?q < total_nodes r"
    and r': "r' = r\<lparr>out_buffers := (out_buffers r)[?q := out_buffers r ! ?q @ [p]], in_buffers := (in_buffers r)[n := ps]\<rparr>"
    using assms(1-3) by (auto simp: transfer_def bind_Some_iff net_ok_def xbar_ok_def)
  have len: "length (out_buffers r) = total_nodes r" "length (in_buffers r) = total_nodes r"
    using assms(1) by (auto simp: net_ok_def xbar_ok_def)
  have outs: "out_buffers r' ! b = (if b = ?q then out_buffers r ! ?q @ [p] else out_buffers r ! b)"
    and ins: "in_buffers r' ! b = (if b = n then ps else in_buffers r ! b)" for b
    using len n by (auto simp: r' nth_list_update)
  have src: "src (pkt_data p) = n"
    using assms(1,3) n(1) by (fastforce simp: net_ok_def sources_ok_def)
  have "xbar_flow src r' i out = xbar_flow src r i out" for i out
  proof -
    have t: "total_nodes r' = total_nodes r" by (simp add: r')
    show ?thesis
      using assms(3) n src by (cases "out = ?q"; cases "i = n") (simp_all add: xbar_flow_def outs ins t)
  qed
  moreover have "net_ok src r'"
  proof -
    have "xbar_ok r'"
      using assms(1,4) len by (auto simp: net_ok_def xbar_ok_def outs) (auto simp: r')
    moreover have "sources_ok src r'"
      using assms(1,3) n by (auto simp: net_ok_def sources_ok_def ins) (auto simp: r')
    ultimately show ?thesis by (simp add: net_ok_def)
  qed
  ultimately show ?thesis unfolding r' by (auto simp: fun_eq_iff)
qed

text \<open>Both arbiters move packets only where there is room, so they keep every flow.\<close>

lemma has_buffer_out_room:
  "has_buffer_out q 1 r = Some True \<Longrightarrow> q < length (out_buffers r) \<and> length (out_buffers r ! q) < unat (out_buffer_limit r)"
  by (auto simp: has_buffer_out_def bind_Some_iff)

definition keeps_flow :: "('d \<Rightarrow> nat) \<Rightarrow> 'd xbar_router \<Rightarrow> 'd xbar_router \<Rightarrow> bool" where
  "keeps_flow src r r' = (net_ok src r \<longrightarrow> net_ok src r' \<and> total_nodes r' = total_nodes r \<and> xbar_flow src r' = xbar_flow src r)"

lemma keeps_flow_refl [simp]: "keeps_flow src r r"
  by (simp add: keeps_flow_def)

lemma keeps_flow_trans: "keeps_flow src r r1 \<Longrightarrow> keeps_flow src r1 r2 \<Longrightarrow> keeps_flow src r r2"
  by (simp add: keeps_flow_def)

lemma keeps_flow_same: "same_buffers r r' \<Longrightarrow> keeps_flow src r r'"
proof -
  assume s: "same_buffers r r'"
  then have "total_nodes r' = total_nodes r" by (simp add: same_buffers_def)
  then show ?thesis using same_buffers_ok[OF s, of src] by (simp add: keeps_flow_def)
qed

lemma keeps_flow_transfer:
  "transfer n r = Some r' \<Longrightarrow> in_buffers r ! n = p # ps \<Longrightarrow> has_buffer_out (output_deviceID p) 1 r = Some True \<Longrightarrow>
   keeps_flow src r r'"
  unfolding keeps_flow_def using transfer_ok has_buffer_out_room by blast

text \<open>What one visit of the round-robin arbiter does.\<close>

lemma rr_node_cases:
  assumes "rr_node n (a, r) = Some (a', r')"
  obtains (idle) "same_buffers r r'"
  | (sent) p ps where "in_buffers r ! n = p # ps" "has_buffer_out (output_deviceID p) 1 r = Some True"
      "\<not> rr_issued a ! output_deviceID p" "transfer n r = Some r'"
      "rr_issued a' = (rr_issued a)[output_deviceID p := True]"
proof (cases "in_buffers r ! n")
  case Nil
  then show ?thesis using assms idle by (auto simp: rr_node_def bind_Some_iff same_buffers_def)
next
  case (Cons p ps)
  obtain room issued where a: "has_buffer_out (output_deviceID p) 1 r = Some room" "n < length (in_buffers r)"
    "at (rr_issued a) (output_deviceID p) = Some issued"
    using assms Cons by (auto simp: rr_node_def bind_Some_iff Let_def split: list.splits)
  show ?thesis
  proof (cases "room \<and> \<not> issued")
    case True
    then show ?thesis
      using assms Cons a sent[of p ps] by (auto simp: rr_node_def bind_Some_iff Let_def)
  next
    case False
    then have "same_buffers r r'"
      using assms Cons a by (cases room; cases issued) (auto simp: rr_node_def Let_def same_buffers_def)
    then show ?thesis by (rule idle)
  qed
qed

lemma rr_node_flow:
  assumes "rr_node n (a, r) = Some (a', r')"
  shows "keeps_flow src r r'"
  using assms by (cases rule: rr_node_cases) (auto intro: keeps_flow_same keeps_flow_transfer)

lemma rr_loop_flow: "rr_loop is x = Some y \<Longrightarrow> keeps_flow src (snd x) (snd y)"
proof (induction "is" arbitrary: x)
  case (Cons i "is")
  then obtain z where z: "rr_node ((i + next_node_id (snd x)) mod total_nodes (snd x)) x = Some z" "rr_loop is z = Some y"
    by (auto simp: bind_Some_iff)
  have "keeps_flow src (snd x) (snd z)"
    using z(1) rr_node_flow[of _ "fst x" "snd x" "fst z" "snd z"] by simp
  then show ?case using Cons.IH[OF z(2)] keeps_flow_trans by blast
qed simp

lemma count_buffers_flow: "keeps_flow src r (count_buffers r)"
  by (rule keeps_flow_same) (simp add: same_buffers_def count_buffers_def)

lemma rr_advance_flow: "rr_advance r = Some r' \<Longrightarrow> keeps_flow src r r'"
proof -
  assume a: "rr_advance r = Some r'"
  obtain b r1 where b: "rr_loop [0..<total_nodes r]
       (\<lparr>rr_active = False, rr_issued = replicate (total_nodes r) False, rr_conflicts = 0, rr_reqs = 0\<rparr>, r) = Some (b, r1)"
    using a by (auto simp: rr_advance_def bind_Some_iff)
  have "same_buffers r1 r'"
    using a b by (auto simp: rr_advance_def Let_def same_buffers_def count_buffers_def)
  then show ?thesis
    using rr_loop_flow[OF b, of src] keeps_flow_same keeps_flow_trans by fastforce
qed

lemma islip_grant_flow:
  "islip_grant i js r = Some (g, r') \<Longrightarrow> has_buffer_out i 1 r = Some True \<Longrightarrow> keeps_flow src r r'"
proof (induction js)
  case (Cons j js)
  then obtain n b where n: "at (next_node r) i = Some n" "at (in_buffers r) ((j + n) mod total_nodes r) = Some b"
    by (auto simp: bind_Some_iff Let_def)
  show ?case
  proof (cases b)
    case Nil
    then show ?thesis using Cons n by (simp add: Let_def)
  next
    case p: (Cons p ps)
    show ?thesis
    proof (cases "output_deviceID p = i")
      case True
      then obtain r1 where t: "transfer ((j + n) mod total_nodes r) r = Some r1" "same_buffers r1 r'"
        using Cons.prems(1) n p by (auto simp: bind_Some_iff Let_def same_buffers_def split: if_splits)
      have "keeps_flow src r r1"
        using keeps_flow_transfer[OF t(1)] n(2) p True Cons.prems(2) by auto
      moreover have "keeps_flow src r1 r'" by (rule keeps_flow_same[OF t(2)])
      ultimately show ?thesis by (rule keeps_flow_trans)
    next
      case False
      then show ?thesis using Cons n p by (simp add: Let_def)
    qed
  qed
qed simp

lemma islip_loop_flow: "islip_loop is reqs r = Some (q, r') \<Longrightarrow> keeps_flow src r r'"
proof (induction "is" arbitrary: reqs r)
  case (Cons i "is")
  then obtain room where room: "has_buffer_out i 1 r = Some room"
    and rest: "(if room then do {
        (granted, r) \<leftarrow> islip_grant i [0..<total_nodes r] r;
        islip_loop is (if granted then reqs + 1 else reqs) r }
      else islip_loop is reqs (upd_stats (\<lambda>s. s\<lparr>out_buffer_full := out_buffer_full s + 1\<rparr>) r)) = Some (q, r')"
    by (auto simp: bind_Some_iff)
  show ?case
  proof (cases room)
    case True
    then obtain g r1 reqs' where g: "islip_grant i [0..<total_nodes r] r = Some (g, r1)" "islip_loop is reqs' r1 = Some (q, r')"
      using rest by (auto simp: bind_Some_iff)
    show ?thesis
      using islip_grant_flow[OF g(1), of src] room True Cons.IH[OF g(2)] keeps_flow_trans[of src r r1 r'] by simp
  next
    case False
    then have "keeps_flow src (upd_stats (\<lambda>s. s\<lparr>out_buffer_full := out_buffer_full s + 1\<rparr>) r) r'"
      using rest by (simp add: Cons.IH)
    moreover have "keeps_flow src r (upd_stats (\<lambda>s. s\<lparr>out_buffer_full := out_buffer_full s + 1\<rparr>) r)"
      by (rule keeps_flow_same) (simp add: same_buffers_def)
    ultimately show ?thesis using keeps_flow_trans by blast
  qed
qed simp

lemma islip_advance_flow:
  assumes "islip_advance r = Some r'"
  shows "keeps_flow src r r'"
proof -
  obtain r0 reqs r1 where 0: "same_buffers r r0" and 1: "islip_loop [0..<total_nodes r0] 0 r0 = Some (reqs, r1)"
    and 2: "same_buffers r1 r'"
  proof -
    define r0 where "r0 = (let r = upd_stats (\<lambda>s. s\<lparr>conflicts := conflicts s + ucast (count_conflicts [] (front_outputs r))\<rparr>) r
      in if list_ex (\<lambda>b. b \<noteq> []) (in_buffers r) then upd_stats (\<lambda>s. s\<lparr>
               conflicts_util := conflicts_util s + ucast (count_conflicts [] (front_outputs r)),
               cycles_util := cycles_util s + 1\<rparr>) r else r)"
    have fo: "front_outputs (upd_stats f r) = front_outputs r" for f by (simp add: front_outputs_def)
    have s0: "same_buffers r r0" by (simp add: r0_def Let_def same_buffers_def)
    obtain reqs r1 where l: "islip_loop [0..<total_nodes r0] 0 r0 = Some (reqs, r1)"
      using assms by (auto simp: islip_advance_def Let_def bind_Some_iff r0_def fo split: if_splits)
    have "same_buffers r1 r'"
      using assms l by (auto simp: islip_advance_def Let_def r0_def fo same_buffers_def count_buffers_def split: if_splits)
    then show ?thesis using that s0 l by blast
  qed
  then show ?thesis
    using islip_loop_flow[OF 1, of src] keeps_flow_same keeps_flow_trans by blast
qed

lemma xbar_advance_flow: "xbar_advance r = Some r' \<Longrightarrow> keeps_flow src r r'"
  by (auto simp: xbar_advance_def rr_advance_flow islip_advance_flow split: Arbiteration_type.splits)

interpretation xbar: network "net_ok src" "xbar_flow src" xbar_push xbar_pop xbar_advance src
  for src :: "'d \<Rightarrow> nat"
proof
  fix r r' :: "'d xbar_router" and n q i out :: nat and d :: 'd and x
  show "net_ok src r \<Longrightarrow> src d = n \<Longrightarrow> xbar_push n q d r = Some r' \<Longrightarrow>
      net_ok src r' \<and> xbar_flow src r' i out = xbar_flow src r i out @ (if i = n \<and> out = q then [d] else [])"
    using xbar_push_ok[of src r d n q r' i out] by simp
  show "net_ok src r \<Longrightarrow> xbar_pop q r = Some (x, r') \<Longrightarrow>
      net_ok src r' \<and>
      xbar_flow src r i out = (case x of Some d \<Rightarrow> if out = q \<and> src d = i then [d] else [] | None \<Rightarrow> []) @ xbar_flow src r' i out"
    using xbar_pop_ok[of src r q x r' i out] by simp
  show "net_ok src r \<Longrightarrow> xbar_advance r = Some r' \<Longrightarrow> net_ok src r' \<and> xbar_flow src r' = xbar_flow src r"
    using xbar_advance_flow[of r r' src] by (simp add: keeps_flow_def)
qed

section \<open>The interconnect is a network\<close>

text \<open>
  With one router for requests and one for replies: packets from shaders are in the first, packets
  from memory nodes in the second.
\<close>

definition icnt_ok :: "('d \<Rightarrow> nat) \<Rightarrow> 'd local_interconnect \<Rightarrow> bool" where
  "icnt_ok src c = (n_subnets c = 2 \<and> length (net c) = 2 \<and> net_ok src (net c ! 0) \<and> net_ok src (net c ! 1) \<and>
     (\<forall>i q. i < n_shader c \<longrightarrow> xbar_flow src (net c ! 1) i q = []) \<and>
     (\<forall>i q. n_shader c \<le> i \<longrightarrow> xbar_flow src (net c ! 0) i q = []))"

definition icnt_flow :: "('d \<Rightarrow> nat) \<Rightarrow> 'd local_interconnect \<Rightarrow> nat \<Rightarrow> nat \<Rightarrow> 'd list" where
  "icnt_flow src c i q = xbar_flow src (net c ! (if i < n_shader c then 0 else 1)) i q"

lemma has_buffer_in_same: "has_buffer_in n sz u r = Some (b, r') \<Longrightarrow> same_buffers r r'"
  by (auto simp: has_buffer_in_def bind_Some_iff Let_def same_buffers_def)

lemma icnt_push_ok:
  assumes ok: "icnt_ok src c" and d: "src d = n" and push: "icnt_push n q d c = Some c'"
  shows "icnt_ok src c' \<and> icnt_flow src c' i out = icnt_flow src c i out @ (if i = n \<and> out = q then [d] else [])"
proof -
  let ?k = "if n < n_shader c then 0 else 1 :: nat"
  obtain r1 r2 where r1: "has_buffer_in n 1 False (net c ! ?k) = Some (True, r1)" and r2: "xbar_push n q d r1 = Some r2"
    and c': "c' = c\<lparr>net := (net c)[?k := r2]\<rparr>"
    using ok push by (auto simp: icnt_push_def bind_Some_iff Let_def icnt_ok_def)
  have ok0: "net_ok src (net c ! ?k)" using ok by (simp add: icnt_ok_def)
  note s1 = same_buffers_ok[OF has_buffer_in_same[OF r1] ok0]
  have flow: "xbar_flow src r2 i q' = xbar_flow src (net c ! ?k) i q' @ (if i = n \<and> q' = q then [d] else [])" for i q'
    using xbar_push_ok[of src r1 d n q r2 i q'] d r2 s1 by simp
  have nets: "net c' ! ?k = r2" "net c' ! (1 - ?k) = net c ! (1 - ?k)" "n_shader c' = n_shader c" "n_subnets c' = n_subnets c"
    "length (net c') = length (net c)"
    using ok by (auto simp: c' icnt_ok_def)
  have ok2: "net_ok src r2" using xbar_push_ok[of src r1 d n q r2] d r2 s1 by simp
  show ?thesis
  proof (cases "n < n_shader c")
    case True
    then have "net c' ! 0 = r2" "net c' ! 1 = net c ! 1" using nets by simp_all
    with True show ?thesis using ok ok2 flow nets(3-5) by (simp add: icnt_ok_def icnt_flow_def)
  next
    case False
    then have "net c' ! 1 = r2" "net c' ! 0 = net c ! 0" using nets by simp_all
    with False show ?thesis using ok ok2 flow nets(3-5) by (simp add: icnt_ok_def icnt_flow_def)
  qed
qed

lemma icnt_pop_ok:
  assumes ok: "icnt_ok src c" and pop: "icnt_pop q c = Some (x, c')"
  shows "icnt_ok src c' \<and>
    icnt_flow src c i out = (case x of Some d \<Rightarrow> if out = q \<and> src d = i then [d] else [] | None \<Rightarrow> []) @ icnt_flow src c' i out"
proof -
  let ?k = "if q < n_shader c then 1 else 0 :: nat"
  obtain r2 where r2: "xbar_pop q (net c ! ?k) = Some (x, r2)" and c': "c' = c\<lparr>net := (net c)[?k := r2]\<rparr>"
    using ok pop by (auto simp: icnt_pop_def bind_Some_iff Let_def icnt_ok_def)
  have ok0: "net_ok src (net c ! ?k)" using ok by (simp add: icnt_ok_def)
  note p = xbar_pop_ok[OF ok0 r2]
  have nets: "net c' ! ?k = r2" "net c' ! (1 - ?k) = net c ! (1 - ?k)" "n_shader c' = n_shader c" "n_subnets c' = n_subnets c"
    "length (net c') = length (net c)"
    using ok by (auto simp: c' icnt_ok_def)
  have side: "(src d < n_shader c) = (?k = 0)" if "x = Some d" for d
  proof -
    have "xbar_flow src (net c ! ?k) (src d) q \<noteq> []" using p[of "src d" q] that by simp
    then show ?thesis using ok by (cases "q < n_shader c"; cases "src d < n_shader c") (auto simp: icnt_ok_def)
  qed
  show ?thesis
  proof (cases "q < n_shader c")
    case True
    then have n: "net c' ! 1 = r2" "net c' ! 0 = net c ! 0" using nets by simp_all
    have "icnt_ok src c'" using ok p True n nets(3-5) by (auto simp: icnt_ok_def)
    moreover have "icnt_flow src c i out = (case x of Some d \<Rightarrow> if out = q \<and> src d = i then [d] else [] | None \<Rightarrow> []) @ icnt_flow src c' i out"
      using p[of i out] side True n nets(3) by (cases "i < n_shader c") (auto simp: icnt_flow_def split: option.splits)
    ultimately show ?thesis by blast
  next
    case False
    then have n: "net c' ! 0 = r2" "net c' ! 1 = net c ! 1" using nets by simp_all
    have "icnt_ok src c'" using ok p False n nets(3-5) by (auto simp: icnt_ok_def)
    moreover have "icnt_flow src c i out = (case x of Some d \<Rightarrow> if out = q \<and> src d = i then [d] else [] | None \<Rightarrow> []) @ icnt_flow src c' i out"
      using p[of i out] side False n nets(3) by (cases "i < n_shader c") (auto simp: icnt_flow_def split: option.splits)
    ultimately show ?thesis by blast
  qed
qed

lemma icnt_advance_ok:
  assumes ok: "icnt_ok src c" and adv: "icnt_advance c = Some c'"
  shows "icnt_ok src c' \<and> icnt_flow src c' = icnt_flow src c"
proof -
  obtain a b where ab: "net c = [a, b]" using ok by (auto simp: icnt_ok_def length_Suc_conv numeral_2_eq_2)
  then obtain a' b' where a: "xbar_advance a = Some a'" "xbar_advance b = Some b'" "c' = c\<lparr>net := [a', b']\<rparr>"
    using adv by (auto simp: icnt_advance_def bind_Some_iff)
  have "net_ok src a" "net_ok src b" using ok ab by (auto simp: icnt_ok_def)
  then have "net_ok src a' \<and> xbar_flow src a' = xbar_flow src a" "net_ok src b' \<and> xbar_flow src b' = xbar_flow src b"
    using xbar.tick_ok a by blast+
  then show ?thesis using ok ab a(3) by (auto simp: icnt_ok_def icnt_flow_def fun_eq_iff)
qed

interpretation icnt: network "icnt_ok src" "icnt_flow src" icnt_push icnt_pop icnt_advance src
  for src :: "'d \<Rightarrow> nat"
proof
  fix c c' :: "'d local_interconnect" and n q i out :: nat and d :: 'd and x
  show "icnt_ok src c \<Longrightarrow> src d = n \<Longrightarrow> icnt_push n q d c = Some c' \<Longrightarrow>
      icnt_ok src c' \<and> icnt_flow src c' i out = icnt_flow src c i out @ (if i = n \<and> out = q then [d] else [])"
    by (rule icnt_push_ok)
  show "icnt_ok src c \<Longrightarrow> icnt_pop q c = Some (x, c') \<Longrightarrow> icnt_ok src c' \<and>
      icnt_flow src c i out = (case x of Some d \<Rightarrow> if out = q \<and> src d = i then [d] else [] | None \<Rightarrow> []) @ icnt_flow src c' i out"
    by (rule icnt_pop_ok)
  show "icnt_ok src c \<Longrightarrow> icnt_advance c = Some c' \<Longrightarrow> icnt_ok src c' \<and> icnt_flow src c' = icnt_flow src c"
    by (rule icnt_advance_ok)
qed

lemma xbar_new_ok:
  "net_ok src (xbar_new k ty a b cfg)" "xbar_flow src (xbar_new k ty a b cfg) i q = []"
  by (auto simp: net_ok_def xbar_ok_def sources_ok_def xbar_flow_def xbar_new_def Let_def)

lemma icnt_new_ok:
  fixes src :: "'d \<Rightarrow> nat"
  assumes "ic_subnets cfg = 2"
  shows "icnt_ok src (create_interconnect a b (icnt_new cfg)) \<and>
    icnt_flow src (create_interconnect a b (icnt_new cfg)) i q = []"
proof -
  let ?c = "create_interconnect a b (icnt_new cfg) :: 'd local_interconnect"
  have u: "[0..<2] = [0, Suc 0]" by (simp add: upt_rec)
  have "net ?c = [xbar_new 0 REQ_NET a b cfg, xbar_new 1 REPLY_NET a b cfg]" "n_subnets ?c = 2" "n_shader ?c = unat a"
    using assms by (simp_all add: create_interconnect_def icnt_new_def u)
  then show ?thesis by (simp add: icnt_ok_def icnt_flow_def xbar_new_ok)
qed


section \<open>What the round-robin arbiter grants\<close>

text \<open>
  The inputs in the order of a round, the inputs that ask for an output, and the input that an
  output takes its packet from.
\<close>

definition rr_order :: "'d xbar_router \<Rightarrow> nat list" where
  "rr_order r = map (\<lambda>i. (i + next_node_id r) mod total_nodes r) [0..<total_nodes r]"

definition wants :: "'d xbar_router \<Rightarrow> nat \<Rightarrow> nat \<Rightarrow> bool" where
  "wants r q n = (in_buffers r ! n \<noteq> [] \<and> output_deviceID (hd (in_buffers r ! n)) = q)"

definition out_room :: "'d xbar_router \<Rightarrow> nat \<Rightarrow> bool" where
  "out_room r q = (length (out_buffers r ! q) < unat (out_buffer_limit r))"

definition rr_pick :: "bool list \<Rightarrow> nat list \<Rightarrow> 'd xbar_router \<Rightarrow> nat \<Rightarrow> nat option" where
  "rr_pick issued ns r q = (if out_room r q \<and> \<not> issued ! q then find (wants r q) ns else None)"

definition rr_winner :: "'d xbar_router \<Rightarrow> nat \<Rightarrow> nat option" where
  "rr_winner r q = (if out_room r q then find (wants r q) (rr_order r) else None)"

text \<open>What visiting the inputs \<open>ns\<close> does: every output takes the front packet of the input it picks.\<close>

definition rr_effect ::
  "nat list \<Rightarrow> bool list \<Rightarrow> 'd xbar_router \<Rightarrow> bool list \<Rightarrow> 'd xbar_router \<Rightarrow> bool" where
  "rr_effect ns iss r iss' r' =
    (total_nodes r' = total_nodes r \<and> out_buffer_limit r' = out_buffer_limit r \<and> next_node_id r' = next_node_id r \<and>
     next_node r' = next_node r \<and> arbit_type r' = arbit_type r \<and> length iss' = length iss \<and>
     length (in_buffers r') = length (in_buffers r) \<and> length (out_buffers r') = length (out_buffers r) \<and>
     (\<forall>q < total_nodes r. out_buffers r' ! q =
        out_buffers r ! q @ (case rr_pick iss ns r q of None \<Rightarrow> [] | Some n \<Rightarrow> [hd (in_buffers r ! n)]) \<and>
        iss' ! q = (iss ! q \<or> rr_pick iss ns r q \<noteq> None)) \<and>
     (\<forall>n < total_nodes r. in_buffers r' ! n =
        (if \<exists>q < total_nodes r. rr_pick iss ns r q = Some n then tl (in_buffers r ! n) else in_buffers r ! n)))"

definition sized :: "bool list \<Rightarrow> 'd xbar_router \<Rightarrow> bool" where
  "sized iss r = (length iss = total_nodes r \<and> length (in_buffers r) = total_nodes r \<and> length (out_buffers r) = total_nodes r)"

lemma rr_pick_wants: "rr_pick iss ns r q = Some n \<Longrightarrow> wants r q n \<and> n \<in> set ns \<and> out_room r q \<and> \<not> iss ! q"
  by (auto simp: rr_pick_def find_Some_iff split: if_splits)

lemma rr_pick_single:
  "(rr_pick iss [n] r q = Some m) = (m = n \<and> out_room r q \<and> \<not> iss ! q \<and> wants r q n)"
  "(rr_pick iss [n] r q = None) = (\<not> (out_room r q \<and> \<not> iss ! q \<and> wants r q n))"
  by (auto simp: rr_pick_def)

lemma rr_effect_idle:
  assumes "in_buffers r' = in_buffers r" "out_buffers r' = out_buffers r" "total_nodes r' = total_nodes r"
    "out_buffer_limit r' = out_buffer_limit r" "next_node_id r' = next_node_id r"
    "next_node r' = next_node r" "arbit_type r' = arbit_type r"
    and "\<And>q. q < total_nodes r \<Longrightarrow> rr_pick iss ns r q = None"
  shows "rr_effect ns iss r iss r'"
  using assms by (auto simp: rr_effect_def)

lemma rr_node_effect:
  assumes "rr_node n (a, r) = Some (a', r')" "sized (rr_issued a) r" "n < total_nodes r"
  shows "rr_effect [n] (rr_issued a) r (rr_issued a') r'"
proof (cases "in_buffers r ! n")
  case Nil
  then have "a' = a" "r' = r" using assms by (auto simp: rr_node_def sized_def)
  then show ?thesis using Nil by (auto intro!: rr_effect_idle simp: rr_pick_single wants_def)
next
  case (Cons p ps)
  let ?q = "output_deviceID p"
  have q: "?q < total_nodes r"
    using assms Cons by (auto simp: rr_node_def sized_def bind_Some_iff has_buffer_out_def Let_def)
  have room: "has_buffer_out ?q 1 r = Some (out_room r ?q)"
    using q assms(2) by (simp add: has_buffer_out_def out_room_def sized_def Suc_le_eq)
  show ?thesis
  proof (cases "out_room r ?q \<and> \<not> rr_issued a ! ?q")
    case True
    let ?r = "r\<lparr>out_buffers := (out_buffers r)[?q := out_buffers r ! ?q @ [p]], in_buffers := (in_buffers r)[n := ps]\<rparr>"
    have a: "rr_issued a' = (rr_issued a)[?q := True]" and r': "r' = ?r"
      using assms Cons q room True by (auto simp: rr_node_def sized_def transfer_def Let_def)
    have pick: "rr_pick (rr_issued a) [n] r j = (if j = ?q then Some n else None)" for j
      using True Cons by (auto simp: rr_pick_def wants_def)
    have ins: "in_buffers ?r ! m = (if m = n then ps else in_buffers r ! m)" for m
      using assms(2,3) by (simp add: sized_def nth_list_update)
    have outs: "out_buffers ?r ! j = (if j = ?q then out_buffers r ! ?q @ [p] else out_buffers r ! j)" for j
      using assms(2) q by (simp add: sized_def nth_list_update)
    have iss: "(rr_issued a)[?q := True] ! j = (rr_issued a ! j \<or> j = ?q)" if "j < total_nodes r" for j
      using assms(2) q that by (simp add: sized_def nth_list_update)
    show ?thesis
      unfolding rr_effect_def r' a pick ins outs using iss q Cons by auto
  next
    case False
    then have "rr_issued a' = rr_issued a" "in_buffers r' = in_buffers r" "out_buffers r' = out_buffers r"
      "total_nodes r' = total_nodes r" "out_buffer_limit r' = out_buffer_limit r" "next_node_id r' = next_node_id r"
      "next_node r' = next_node r" "arbit_type r' = arbit_type r"
      using assms Cons q room by (auto simp: rr_node_def sized_def Let_def split: if_splits)
    then show ?thesis using False Cons by (auto intro!: rr_effect_idle simp: rr_pick_single wants_def)
  qed
qed


lemma rr_effect_trans:
  assumes 1: "rr_effect [n] iss r iss1 r1" and 2: "rr_effect ns iss1 r1 iss2 r2"
    and len: "length iss = total_nodes r" and n: "n \<notin> set ns"
    and bound: "\<forall>m \<in> set ns. m < total_nodes r"
  shows "rr_effect (n # ns) iss r iss2 r2"
proof -
  note e1 = 1[unfolded rr_effect_def] and e2 = 2[unfolded rr_effect_def]
  have same: "in_buffers r1 ! m = in_buffers r ! m" if "m \<in> set ns" for m
    using e1 that n bound by (auto simp: rr_pick_single)
  then have w: "wants r1 q m = wants r q m" if "m \<in> set ns" for m q
    using that by (simp add: wants_def)
  have find: "find (wants r1 q) ns = find (wants r q) ns" for q
    using w by (induction ns) (auto)
  have pick: "rr_pick iss (n # ns) r q =
      (case rr_pick iss [n] r q of None \<Rightarrow> rr_pick iss1 ns r1 q | Some m \<Rightarrow> Some m)"
    and excl: "rr_pick iss [n] r q \<noteq> None \<Longrightarrow> rr_pick iss1 ns r1 q = None" if "q < total_nodes r" for q
    using e1 that find[of q] by (auto simp: rr_pick_def out_room_def split: if_splits option.splits)
  show ?thesis
    unfolding rr_effect_def
  proof (intro conjI allI impI)
    fix q assume q: "q < total_nodes r"
    then have q1: "q < total_nodes r1" using e1 by simp
    have o1: "out_buffers r1 ! q = out_buffers r ! q @ (case rr_pick iss [n] r q of None \<Rightarrow> [] | Some n \<Rightarrow> [hd (in_buffers r ! n)])"
      and i1: "iss1 ! q = (iss ! q \<or> rr_pick iss [n] r q \<noteq> None)" using e1 q by blast+
    have o2: "out_buffers r2 ! q = out_buffers r1 ! q @ (case rr_pick iss1 ns r1 q of None \<Rightarrow> [] | Some n \<Rightarrow> [hd (in_buffers r1 ! n)])"
      and i2: "iss2 ! q = (iss1 ! q \<or> rr_pick iss1 ns r1 q \<noteq> None)" using e2 q1 by blast+
    show "out_buffers r2 ! q = out_buffers r ! q @ (case rr_pick iss (n # ns) r q of None \<Rightarrow> [] | Some n \<Rightarrow> [hd (in_buffers r ! n)])"
      using o1 o2 pick[OF q] excl[OF q] same rr_pick_wants[of iss1 ns r1 q]
      by (cases "rr_pick iss [n] r q"; cases "rr_pick iss1 ns r1 q") auto
    show "iss2 ! q = (iss ! q \<or> rr_pick iss (n # ns) r q \<noteq> None)"
      using i1 i2 pick[OF q] excl[OF q] by (auto split: option.splits)
  next
    fix m assume m: "m < total_nodes r"
    let ?a = "\<exists>q < total_nodes r. rr_pick iss [n] r q = Some m" and ?b = "\<exists>q < total_nodes r. rr_pick iss1 ns r1 q = Some m"
    have ab: "(\<exists>q < total_nodes r. rr_pick iss (n # ns) r q = Some m) = (?a \<or> ?b)"
      using pick excl by (force split: option.splits)
    have "\<not> (?a \<and> ?b)" using n rr_pick_wants rr_pick_single by metis
    moreover have "in_buffers r1 ! m = (if ?a then tl (in_buffers r ! m) else in_buffers r ! m)"
      using e1 m by blast
    moreover have "in_buffers r2 ! m = (if ?b then tl (in_buffers r1 ! m) else in_buffers r1 ! m)"
      using e1 e2 m by auto
    ultimately show "in_buffers r2 ! m = (if \<exists>q < total_nodes r. rr_pick iss (n # ns) r q = Some m
        then tl (in_buffers r ! m) else in_buffers r ! m)"
      unfolding ab by auto
  qed (use e1 e2 in simp_all)
qed


lemma rr_loop_effect:
  assumes "rr_loop is (a, r) = Some (a', r')" "sized (rr_issued a) r"
    and "ns = map (\<lambda>i. (i + next_node_id r) mod total_nodes r) is" "distinct ns" "\<forall>n \<in> set ns. n < total_nodes r"
  shows "rr_effect ns (rr_issued a) r (rr_issued a') r'"
  using assms
proof (induction "is" arbitrary: a r ns)
  case Nil
  then show ?case by (auto intro!: rr_effect_idle simp: rr_pick_def)
next
  case (Cons i "is")
  let ?n = "(i + next_node_id r) mod total_nodes r"
  let ?ns = "map (\<lambda>i. (i + next_node_id r) mod total_nodes r) is"
  obtain a1 r1 where 1: "rr_node ?n (a, r) = Some (a1, r1)" "rr_loop is (a1, r1) = Some (a', r')"
    using Cons.prems(1) by (auto simp: bind_Some_iff)
  have ns: "ns = ?n # ?ns" by (simp only: Cons.prems(3) list.map)
  have n: "?n < total_nodes r" "?n \<notin> set ?ns" "distinct ?ns" "\<forall>m \<in> set ?ns. m < total_nodes r"
    using Cons.prems(4,5) unfolding ns by (simp_all only: distinct.simps list.set(2) insert_iff ball_simps simp_thms) blast
  have e1: "rr_effect [?n] (rr_issued a) r (rr_issued a1) r1"
    by (rule rr_node_effect[OF 1(1) Cons.prems(2) n(1)])
  then have keep: "total_nodes r1 = total_nodes r" "next_node_id r1 = next_node_id r" "sized (rr_issued a1) r1"
    using Cons.prems(2) by (auto simp: rr_effect_def sized_def)
  have "rr_effect ?ns (rr_issued a1) r1 (rr_issued a') r'"
    by (rule Cons.IH[OF 1(2) keep(3)]) (simp_all only: keep n(3) simp_thms, rule n(4))
  moreover have "length (rr_issued a) = total_nodes r" using Cons.prems(2) by (simp add: sized_def)
  ultimately have "rr_effect (?n # ?ns) (rr_issued a) r (rr_issued a') r'"
    by (rule rr_effect_trans[OF e1 _ _ n(2,4)])
  then show ?case by (simp only: ns)
qed

lemma inj_shift: "inj_on (\<lambda>i. (i + c) mod n) {..<n}" for c n :: nat
proof (rule linorder_inj_onI')
  fix i j assume ij: "i \<in> {..<n}" "j \<in> {..<n}" "i < j"
  show "(i + c) mod n \<noteq> (j + c) mod n"
  proof
    assume "(i + c) mod n = (j + c) mod n"
    then have "n dvd (j + c) - (i + c)" using ij(3) mod_eq_dvd_iff_nat[of "i + c" "j + c" n] by simp
    moreover have "0 < j - i" "j - i < n" using ij by auto
    ultimately show False using nat_dvd_not_less[of "j - i" n] by simp
  qed
qed

lemma rr_order_props: "distinct (rr_order r)" "n \<in> set (rr_order r) \<Longrightarrow> n < total_nodes r"
  using inj_shift[of "next_node_id r" "total_nodes r"]
  by (auto simp: rr_order_def distinct_map lessThan_atLeast0)

lemma rr_winner_at: "n < total_nodes r \<Longrightarrow> next_node_id r = n \<Longrightarrow> wants r q n \<Longrightarrow> out_room r q \<Longrightarrow> rr_winner r q = Some n"
proof -
  assume a: "n < total_nodes r" "next_node_id r = n" "wants r q n" "out_room r q"
  then have "rr_order r = n # map (\<lambda>i. (i + n) mod total_nodes r) [1..<total_nodes r]"
    by (simp add: rr_order_def upt_conv_Cons)
  then show ?thesis using a by (simp add: rr_winner_def)
qed

definition rr_granted :: "'d xbar_router \<Rightarrow> 'd xbar_router \<Rightarrow> bool" where
  "rr_granted r r' =
    (total_nodes r' = total_nodes r \<and> out_buffer_limit r' = out_buffer_limit r \<and>
     next_node_id r' = (next_node_id r + 1) mod total_nodes r \<and>
     next_node r' = next_node r \<and> arbit_type r' = arbit_type r \<and>
     length (in_buffers r') = length (in_buffers r) \<and> length (out_buffers r') = length (out_buffers r) \<and>
     (\<forall>q < total_nodes r. out_buffers r' ! q =
        out_buffers r ! q @ (case rr_winner r q of None \<Rightarrow> [] | Some n \<Rightarrow> [hd (in_buffers r ! n)])) \<and>
     (\<forall>n < total_nodes r. in_buffers r' ! n =
        (if \<exists>q < total_nodes r. rr_winner r q = Some n then tl (in_buffers r ! n) else in_buffers r ! n)))"

lemma rr_advance_grants:
  assumes "rr_advance r = Some r'" "xbar_ok r"
  shows "rr_granted r r'"
proof -
  let ?f = "replicate (total_nodes r) False"
  obtain b r1 where b: "rr_loop [0..<total_nodes r]
       (\<lparr>rr_active = False, rr_issued = ?f, rr_conflicts = 0, rr_reqs = 0\<rparr>, r) = Some (b, r1)"
    using assms by (auto simp: rr_advance_def bind_Some_iff)
  have "sized (rr_issued \<lparr>rr_active = False, rr_issued = ?f, rr_conflicts = 0, rr_reqs = 0\<rparr>) r"
    using assms(2) by (simp add: sized_def xbar_ok_def)
  then have "rr_effect (rr_order r) (rr_issued \<lparr>rr_active = False, rr_issued = ?f, rr_conflicts = 0, rr_reqs = 0\<rparr>) r
      (rr_issued b) r1"
    by (rule rr_loop_effect[OF b]) (use rr_order_props rr_order_def in blast)+
  then have e: "rr_effect (rr_order r) ?f r (rr_issued b) r1" by simp
  have same: "in_buffers r' = in_buffers r1" "out_buffers r' = out_buffers r1" "total_nodes r' = total_nodes r1"
    "out_buffer_limit r' = out_buffer_limit r1" "next_node_id r' = (next_node_id r1 + 1) mod total_nodes r1"
    "next_node r' = next_node r1" "arbit_type r' = arbit_type r1"
    using assms(1) b by (auto simp: rr_advance_def Let_def count_buffers_def)
  have "rr_pick ?f (rr_order r) r q = rr_winner r q" if "q < total_nodes r" for q
    using that by (simp add: rr_pick_def rr_winner_def)
  then have pick: "(\<exists>q < total_nodes r. rr_pick ?f (rr_order r) r q = Some n) = (\<exists>q < total_nodes r. rr_winner r q = Some n)"
      "q < total_nodes r \<Longrightarrow> rr_pick ?f (rr_order r) r q = rr_winner r q" for n q by auto
  show ?thesis using e unfolding rr_granted_def rr_effect_def same pick(1) by (simp add: pick(2))
qed


section \<open>Every input is served\<close>

text \<open>What the nodes do between two cycles: packets join the inputs and leave the outputs.\<close>

definition grows :: "'d xbar_router \<Rightarrow> 'd xbar_router \<Rightarrow> bool" where
  "grows r r' = (total_nodes r' = total_nodes r \<and> next_node_id r' = next_node_id r \<and> arbit_type r' = arbit_type r \<and>
     (xbar_ok r \<longrightarrow> xbar_ok r' \<and> (\<forall>n < total_nodes r. \<exists>xs. in_buffers r' ! n = in_buffers r ! n @ xs)))"

lemma grows_refl: "grows r r"
  by (simp add: grows_def)

lemma grows_trans: "grows r r1 \<Longrightarrow> grows r1 r2 \<Longrightarrow> grows r r2"
  by (auto simp: grows_def) (metis append.assoc)

lemma grows_push: "xbar_push n q d r = Some r' \<Longrightarrow> grows r r'"
  by (auto simp: grows_def xbar_push_def bind_Some_iff xbar_ok_def nth_list_update)

lemma grows_pop:
  assumes "xbar_pop q r = Some (x, r')"
  shows "grows r r'"
proof (cases "out_buffers r ! q")
  case Nil
  then show ?thesis using assms by (auto simp: xbar_pop_def bind_Some_iff grows_def)
next
  case (Cons p ps)
  then have q: "q < length (out_buffers r)" and r': "r' = r\<lparr>out_buffers := (out_buffers r)[q := ps]\<rparr>"
    using assms by (auto simp: xbar_pop_def bind_Some_iff split: list.splits)
  have outs: "(out_buffers r)[q := ps] ! b = (if b = q then ps else out_buffers r ! b)" for b
    using q by (simp add: nth_list_update)
  have "xbar_ok r \<Longrightarrow> (\<forall>x \<in> set ps. output_deviceID x = q) \<and> length ps \<le> unat (out_buffer_limit r)"
    using q Cons by (force simp: xbar_ok_def)
  then show ?thesis by (auto simp: grows_def r' xbar_ok_def outs)
qed

lemma grows_run: "run_net xbar_push xbar_pop tick ops r = Some (out, r') \<Longrightarrow> Tick \<notin> set ops \<Longrightarrow> grows r r'"
proof (induction ops arbitrary: r out)
  case (Cons op ops)
  show ?case
  proof (cases op)
    case (Send n q d)
    then obtain r1 where "xbar_push n q d r = Some r1" "run_net xbar_push xbar_pop tick ops r1 = Some (out, r')"
      using Cons.prems by (auto simp: bind_Some_iff)
    then show ?thesis using Cons grows_push grows_trans by fastforce
  next
    case (Receive q)
    then obtain x r1 out1 where "xbar_pop q r = Some (x, r1)" "run_net xbar_push xbar_pop tick ops r1 = Some (out1, r')"
      using Cons.prems by (auto simp: bind_Some_iff)
    then show ?thesis using Cons grows_pop grows_trans by fastforce
  next
    case Tick
    then show ?thesis using Cons by simp
  qed
qed (simp add: grows_refl)

lemma rr_winner_wants: "rr_winner r q = Some n \<Longrightarrow> wants r q n \<and> n \<in> set (rr_order r) \<and> out_room r q"
  by (auto simp: rr_winner_def find_Some_iff split: if_splits)

lemma rr_advance_shape:
  assumes "rr_advance r = Some r'" "xbar_ok r"
  shows "xbar_ok r'"
proof -
  note g = rr_advance_grants[OF assms, unfolded rr_granted_def] and ok = assms(2)[unfolded xbar_ok_def]
  have "(\<forall>p \<in> set (out_buffers r' ! b). output_deviceID p = b) \<and> length (out_buffers r' ! b) \<le> unat (out_buffer_limit r)"
    if b: "b < total_nodes r" for b
  proof (cases "rr_winner r b")
    case None
    then have "out_buffers r' ! b = out_buffers r ! b" using g b by simp
    then show ?thesis using ok b by simp
  next
    case (Some n)
    then have "out_buffers r' ! b = out_buffers r ! b @ [hd (in_buffers r ! n)]" using g b by simp
    then show ?thesis using ok b rr_winner_wants[OF Some] by (auto simp: wants_def out_room_def)
  qed
  then show ?thesis using g ok by (simp add: xbar_ok_def)
qed

text \<open>A cycle of the round-robin router, followed by what the nodes do.\<close>

lemma rr_cycle:
  assumes "run_net xbar_push xbar_pop xbar_advance (Tick # ops) r = Some (out, r')" "Tick \<notin> set ops"
    and "arbit_type r = NAIVE_RR" "xbar_ok r" and front: "in_buffers r ! n = p # ps" "n < total_nodes r"
    and lost: "rr_winner r (output_deviceID p) \<noteq> Some n"
  shows "arbit_type r' = NAIVE_RR \<and> xbar_ok r' \<and> total_nodes r' = total_nodes r \<and>
    next_node_id r' = (next_node_id r + 1) mod total_nodes r \<and> (\<exists>ps'. in_buffers r' ! n = p # ps')"
proof -
  obtain r1 where r1: "rr_advance r = Some r1" "run_net xbar_push xbar_pop xbar_advance ops r1 = Some (out, r')"
    using assms(1,3) by (auto simp: bind_Some_iff xbar_advance_def)
  note g = rr_advance_grants[OF r1(1) assms(4)] and sh = rr_advance_shape[OF r1(1) assms(4)]
    and gr = grows_run[OF r1(2) assms(2)]
  have "rr_winner r q \<noteq> Some n" for q
    using lost front rr_winner_wants[of r q n] by (auto simp: wants_def)
  then have "in_buffers r1 ! n = p # ps" using g front by (simp add: rr_granted_def)
  moreover have "n < total_nodes r1" using g front(2) by (simp add: rr_granted_def)
  ultimately have "\<exists>ps'. in_buffers r' ! n = p # ps'" using gr sh by (fastforce simp: grows_def)
  then show ?thesis using g gr sh assms(3) by (simp add: grows_def rr_granted_def)
qed


lemma rr_waits:
  fixes s :: "nat \<Rightarrow> 'd xbar_router"
  assumes "xbar_ok (s 0)" "arbit_type (s 0) = NAIVE_RR" "next_node_id (s 0) < total_nodes (s 0)"
    and "n < total_nodes (s 0)" "in_buffers (s 0) ! n = p # ps"
    and "\<forall>i < k. Tick \<notin> set (ops i) \<and>
      run_net xbar_push xbar_pop xbar_advance (Tick # ops i) (s i) = Some (out i, s (Suc i))"
    and "\<forall>i < k. rr_winner (s i) (output_deviceID p) \<noteq> Some n"
  shows "arbit_type (s k) = NAIVE_RR \<and> xbar_ok (s k) \<and> total_nodes (s k) = total_nodes (s 0) \<and>
    next_node_id (s k) = (next_node_id (s 0) + k) mod total_nodes (s 0) \<and> (\<exists>ps'. in_buffers (s k) ! n = p # ps')"
  using assms(6,7)
proof (induction k)
  case 0
  then show ?case using assms by simp
next
  case (Suc k)
  then obtain ps' where k: "arbit_type (s k) = NAIVE_RR" "xbar_ok (s k)" "total_nodes (s k) = total_nodes (s 0)"
    "next_node_id (s k) = (next_node_id (s 0) + k) mod total_nodes (s 0)" "in_buffers (s k) ! n = p # ps'"
    by auto
  have "Tick \<notin> set (ops k)" "run_net xbar_push xbar_pop xbar_advance (Tick # ops k) (s k) = Some (out k, s (Suc k))"
    "rr_winner (s k) (output_deviceID p) \<noteq> Some n" using Suc.prems by auto
  then show ?case using rr_cycle[of "ops k" "s k" "out k" "s (Suc k)" n p ps'] k assms(4) by (simp add: mod_Suc_eq)
qed

lemma rr_turn_comes:
  fixes c n m :: nat
  assumes "c < m" "n < m"
  shows "\<exists>k < m. (c + k) mod m = n"
proof (cases "c \<le> n")
  case True
  then show ?thesis using assms by (intro exI[of _ "n - c"]) simp
next
  case False
  then have "(c + (n + m - c)) mod m = n" using assms by simp
  then show ?thesis using assms False by (intro exI[of _ "n + m - c"]) linarith
qed

text \<open>
  One cycle of the round-robin arbiter gives every output with room the front packet of the first
  input, in the order of this round, that asks for it; an input loses its front packet exactly when it
  is that input, so no input sends twice and no output receives twice, and no output buffer grows past
  its limit.
\<close>

lemma round_robin_grants:
  assumes "rr_advance r = Some r'" "xbar_ok r"
  shows "(\<forall>q < total_nodes r. out_buffers r' ! q =
        out_buffers r ! q @ (case rr_winner r q of None \<Rightarrow> [] | Some n \<Rightarrow> [hd (in_buffers r ! n)]) \<and>
        length (out_buffers r' ! q) \<le> unat (out_buffer_limit r)) \<and>
    (\<forall>n < total_nodes r. in_buffers r' ! n =
        (if \<exists>q < total_nodes r. rr_winner r q = Some n then tl (in_buffers r ! n) else in_buffers r ! n)) \<and>
    next_node_id r' = (next_node_id r + 1) mod total_nodes r"
  using rr_advance_grants[OF assms] rr_advance_shape[OF assms] unfolding rr_granted_def xbar_ok_def by simp

text \<open>
  C19: while an output keeps room, the round-robin arbiter serves every input within one round of
  cycles, whatever the other nodes push and pop between the cycles: the front packet of input \<open>n\<close>
  reaches the buffer of its output within \<open>total_nodes\<close> cycles.
\<close>

theorem round_robin_serves_everyone:
  fixes s :: "nat \<Rightarrow> 'd xbar_router"
  assumes "xbar_ok (s 0)" "arbit_type (s 0) = NAIVE_RR" "next_node_id (s 0) < total_nodes (s 0)"
    and "n < total_nodes (s 0)" "in_buffers (s 0) ! n = p # ps"
    and "\<forall>k < total_nodes (s 0). Tick \<notin> set (ops k) \<and>
      run_net xbar_push xbar_pop xbar_advance (Tick # ops k) (s k) = Some (out k, s (Suc k))"
    and "\<forall>k < total_nodes (s 0). length (out_buffers (s k) ! output_deviceID p) < unat (out_buffer_limit (s k))"
    and "output_deviceID p < total_nodes (s 0)"
  shows "\<exists>k < total_nodes (s 0). \<exists>r ps'. xbar_advance (s k) = Some r \<and> in_buffers (s k) ! n = p # ps' \<and>
    in_buffers r ! n = ps' \<and>
    out_buffers r ! output_deviceID p = out_buffers (s k) ! output_deviceID p @ [p]"
proof -
  let ?m = "total_nodes (s 0)" and ?q = "output_deviceID p" and ?won = "\<lambda>k. rr_winner (s k) (output_deviceID p) = Some n"
  have state: "arbit_type (s k) = NAIVE_RR \<and> xbar_ok (s k) \<and> total_nodes (s k) = ?m \<and>
      next_node_id (s k) = (next_node_id (s 0) + k) mod ?m \<and> (\<exists>ps'. in_buffers (s k) ! n = p # ps')"
    if "k < ?m" "\<forall>i < k. \<not> ?won i" for k
    by (rule rr_waits[of s n p ps k ops out, OF assms(1-5)]) (use assms(6) that in auto)
  obtain k0 where k0: "k0 < ?m" "(next_node_id (s 0) + k0) mod ?m = n"
    using rr_turn_comes[OF assms(3,4)] by blast
  have "\<exists>k < ?m. ?won k"
  proof (cases "\<forall>i < k0. \<not> ?won i")
    case True
    note st = state[OF k0(1) True]
    have "?won k0"
      by (rule rr_winner_at) (use st k0 assms(4,7) in \<open>auto simp: wants_def out_room_def\<close>)
    then show ?thesis using k0(1) by blast
  next
    case False
    then show ?thesis using k0(1) by (meson less_trans)
  qed
  then obtain k where k: "k < ?m" "?won k" "\<forall>i < k. \<not> ?won i"
    using exists_least_iff[of "\<lambda>k. k < ?m \<and> ?won k"] by (meson less_trans)
  from state[OF k(1,3)] obtain ps' where st: "arbit_type (s k) = NAIVE_RR" "xbar_ok (s k)" "total_nodes (s k) = ?m"
    "in_buffers (s k) ! n = p # ps'" by blast
  obtain r where r: "xbar_advance (s k) = Some r"
    using assms(6) k(1) by (auto simp: bind_Some_iff)
  then have "rr_advance (s k) = Some r" using st(1) by (simp add: xbar_advance_def)
  note g = rr_advance_grants[OF this st(2), unfolded rr_granted_def]
  show ?thesis
  proof (intro exI conjI)
    show "in_buffers r ! n = ps'" "out_buffers r ! ?q = out_buffers (s k) ! ?q @ [p]"
      using g k(2) st(3,4) assms(4,8) by auto
  qed (use k(1) r st(4) in simp_all)
qed


text \<open>
  Two inputs ask for output 0, which holds one packet: in the first cycle input 0 wins, the packet is
  received, and in the second cycle input 1 wins.
\<close>

definition duel :: "nat xbar_router" where
  "duel = (xbar_new 0 REQ_NET 1 1 \<lparr>ic_in_buffer_limit = 4, ic_out_buffer_limit = 1, ic_subnets = 2,
     ic_arbiter_algo = NAIVE_RR, ic_grant_cycles = 1\<rparr>)
    \<lparr>in_buffers := [[\<lparr>pkt_data = 10, output_deviceID = 0\<rparr>], [\<lparr>pkt_data = 20, output_deviceID = 0\<rparr>]]\<rparr>"

lemmas xbar_run_simps = xbar_advance_def rr_advance_def rr_node_def transfer_def has_buffer_out_def count_buffers_def
  xbar_pop_def xbar_push_def at_def put_def ensure_def Let_def

lemma duel_state:
  "total_nodes duel = 2" "next_node_id duel = 0" "arbit_type duel = NAIVE_RR" "out_buffer_limit duel = 1"
  "in_buffers duel = [[\<lparr>pkt_data = 10, output_deviceID = 0\<rparr>], [\<lparr>pkt_data = 20, output_deviceID = 0\<rparr>]]"
  "out_buffers duel = [[], []]" "next_node duel = [0, 0]"
  by (simp_all add: duel_def xbar_new_def Let_def) (simp_all add: numeral_2_eq_2)

lemma duel_ok: "xbar_ok duel"
  by (simp add: xbar_ok_def duel_state less_2_cases_iff)

definition duel_next :: "nat xbar_router \<Rightarrow> nat xbar_router" where
  "duel_next r = snd (the (run_net xbar_push xbar_pop xbar_advance [Tick, Receive 0] r))"

lemma duel_first:
  "run_net xbar_push xbar_pop xbar_advance [Tick, Receive 0] duel = Some ([(0, 10)], duel_next duel)"
  "total_nodes (duel_next duel) = 2" "next_node_id (duel_next duel) = 1" "arbit_type (duel_next duel) = NAIVE_RR"
  "out_buffer_limit (duel_next duel) = 1" "out_buffers (duel_next duel) = [[], []]"
  "in_buffers (duel_next duel) = [[], [\<lparr>pkt_data = 20, output_deviceID = 0\<rparr>]]"
  by (simp_all add: duel_next_def xbar_run_simps duel_state upt_rec numeral_2_eq_2)

lemma duel_second:
  "run_net xbar_push xbar_pop xbar_advance [Tick, Receive 0] (duel_next duel) = Some ([(0, 20)], duel_next (duel_next duel))"
  by (simp add: duel_next_def[of "duel_next duel"] xbar_run_simps duel_first upt_rec numeral_2_eq_2)


lemma round_robin_grants_witness:
  "\<exists>r'. rr_advance duel = Some r' \<and> out_buffers r' ! 0 = [\<lparr>pkt_data = 10, output_deviceID = 0\<rparr>] \<and>
     in_buffers r' ! 1 = [\<lparr>pkt_data = 20, output_deviceID = 0\<rparr>]"
proof -
  obtain r' where r': "rr_advance duel = Some r'"
    using duel_first(1) by (auto simp: xbar_advance_def duel_state bind_Some_iff)
  have "rr_order duel = [0, Suc 0]" by (simp add: rr_order_def duel_state upt_rec)
  then have w: "rr_winner duel 0 = Some 0" "rr_winner duel (Suc 0) = None"
    by (simp_all add: rr_winner_def wants_def out_room_def duel_state)
  then have "rr_winner duel q \<noteq> Some 1" if "q < total_nodes duel" for q
    using that by (cases "q = 0") (auto simp: duel_state less_2_cases_iff)
  then have l: "\<not> (\<exists>q < total_nodes duel. rr_winner duel q = Some 1)" by blast
  note g = round_robin_grants[OF r' duel_ok]
  have n: "0 < total_nodes duel" "1 < total_nodes duel" by (simp_all add: duel_state)
  have "out_buffers r' ! 0 = out_buffers duel ! 0 @ [hd (in_buffers duel ! 0)]"
    using conjunct1[OF g, rule_format, OF n(1)] w(1) by simp
  moreover have "in_buffers r' ! 1 = in_buffers duel ! 1"
    using conjunct1[OF conjunct2[OF g], rule_format, OF n(2)] by (simp only: l if_False)
  ultimately show ?thesis using r' by (simp add: duel_state)
qed

theorem round_robin_serves_everyone_witness:
  "\<exists>k < 2. \<exists>r ps'. xbar_advance ([duel, duel_next duel, duel_next (duel_next duel)] ! k) = Some r \<and>
     in_buffers ([duel, duel_next duel, duel_next (duel_next duel)] ! k) ! 1 = \<lparr>pkt_data = 20, output_deviceID = 0\<rparr> # ps' \<and>
     in_buffers r ! 1 = ps'"
proof -
  let ?s = "\<lambda>k. [duel, duel_next duel, duel_next (duel_next duel)] ! k"
  let ?out = "\<lambda>k. [[(0, 10)], [(0, 20)]] ! k :: (nat \<times> nat) list"
  have run: "\<forall>k < total_nodes (?s 0). Tick \<notin> set [Receive 0] \<and>
      run_net xbar_push xbar_pop xbar_advance (Tick # [Receive 0]) (?s k) = Some (?out k, ?s (Suc k))"
    using duel_first(1) duel_second by (simp only: nth_Cons_0 duel_state less_2_cases_iff) auto
  let ?p = "\<lparr>pkt_data = 20, output_deviceID = 0\<rparr> :: nat packet"
  have "\<exists>k < total_nodes (?s 0). \<exists>r ps'. xbar_advance (?s k) = Some r \<and> in_buffers (?s k) ! 1 = ?p # ps' \<and>
    in_buffers r ! 1 = ps' \<and> out_buffers r ! output_deviceID ?p = out_buffers (?s k) ! output_deviceID ?p @ [?p]"
  proof (rule round_robin_serves_everyone[OF _ _ _ _ _ run])
    show "\<forall>k < total_nodes (?s 0). length (out_buffers (?s k) ! output_deviceID ?p) < unat (out_buffer_limit (?s k))"
      by (simp only: nth_Cons_0 duel_state less_2_cases_iff) (auto simp: duel_state duel_first)
  qed (simp_all add: duel_state duel_ok)
  then show ?thesis by (simp only: nth_Cons_0 duel_state) blast
qed

lemma xbar_idle: "net_ok src r \<Longrightarrow> \<not> xbar_busy r \<Longrightarrow> xbar_flow src r n q = []"
  by (auto simp: xbar_busy_def xbar_flow_def list_ex_iff net_ok_def xbar_ok_def) (metis filter.simps(1) list.simps(8) nth_mem)+

lemma icnt_idle: "icnt_ok src c \<Longrightarrow> \<not> icnt_busy c \<Longrightarrow> icnt_flow src c n q = []"
proof -
  assume a: "icnt_ok src c" "\<not> icnt_busy c"
  let ?k = "if n < n_shader c then 0 else 1 :: nat"
  have k: "?k < length (net c)" "net_ok src (net c ! ?k)" using a(1) by (simp_all add: icnt_ok_def)
  have "\<not> xbar_busy (net c ! ?k)" using a(2) k(1) nth_mem by (fastforce simp: icnt_busy_def list_ex_iff)
  then show ?thesis unfolding icnt_flow_def by (rule xbar_idle[OF k(2)])
qed

text \<open>
  C4: the interconnect of the simulator, with a router for requests and one for replies, loses,
  duplicates and reorders nothing: after any history from its creation, the packets sent from input
  \<open>n\<close> to output \<open>q\<close> are those received there followed by those still inside; when it is not busy, all
  of them have arrived.
\<close>

theorem interconnect_delivers_in_order:
  assumes "ic_subnets cfg = 2" "list_all (from_source src) ops"
    and "run_net icnt_push icnt_pop icnt_advance ops (create_interconnect shaders mems (icnt_new cfg)) = Some (out, c)"
  shows "sent n q ops = received src n q out @ icnt_flow src c n q \<and>
    (\<not> icnt_busy c \<longrightarrow> received src n q out = sent n q ops)"
proof -
  have "icnt_ok src c \<and> icnt_flow src (create_interconnect shaders mems (icnt_new cfg)) n q @ sent n q ops =
      received src n q out @ icnt_flow src c n q"
    by (rule icnt.run_flow[OF conjunct1[OF icnt_new_ok[OF assms(1)]] assms(2,3)])
  then show ?thesis using icnt_idle[of src c n q] icnt_new_ok[OF assms(1), of src shaders mems n q] by auto
qed


theorem interconnect_delivers_in_order_witness:
  "\<exists>out c. run_net icnt_push icnt_pop icnt_advance [Send 0 2 7, Send 0 2 (8 :: nat), Tick, Receive 2]
      (create_interconnect 2 1 (icnt_new \<lparr>ic_in_buffer_limit = 4, ic_out_buffer_limit = 4, ic_subnets = 2,
        ic_arbiter_algo = NAIVE_RR, ic_grant_cycles = 1\<rparr>)) = Some (out, c) \<and>
    [7, 8] = received (\<lambda>_. 0) 0 2 out @ icnt_flow (\<lambda>_. 0) c 0 2 \<and> received (\<lambda>_. 0) 0 2 out = [7]"
proof -
  let ?cfg = "\<lparr>ic_in_buffer_limit = 4, ic_out_buffer_limit = 4, ic_subnets = 2,
        ic_arbiter_algo = NAIVE_RR, ic_grant_cycles = 1\<rparr>"
  let ?ops = "[Send 0 2 7, Send 0 2 (8 :: nat), Tick, Receive 2]"
  obtain c where run: "run_net icnt_push icnt_pop icnt_advance ?ops (create_interconnect 2 1 (icnt_new ?cfg)) = Some ([(2, 7)], c)"
  proof -
    have "map_option fst (run_net icnt_push icnt_pop icnt_advance ?ops (create_interconnect 2 1 (icnt_new ?cfg))) = Some [(2, 7)]"
      by code_simp
    then show ?thesis using that by auto
  qed
  have "list_all (from_source (\<lambda>_. 0)) ?ops" by simp
  note interconnect_delivers_in_order[OF _ this run, of 0 2]
  then show ?thesis using run by (simp add: received_def)
qed

end
