(* ===== verification/Omap.thy ===== *)
theory Omap
  imports Prelude
begin

text \<open>
  \<open>std::map\<close> as the sources use it: association lists in increasing order of the keys, because the
  code also iterates over its maps in that order. \<open>om_put\<close> is \<open>m[k] = v\<close>, \<open>om_del\<close> is \<open>m.erase(k)\<close>
  and \<open>map_of\<close> is the lookup.
\<close>

section \<open>Operations\<close>

fun om_put :: "'k::linorder \<Rightarrow> 'v \<Rightarrow> ('k \<times> 'v) list \<Rightarrow> ('k \<times> 'v) list" where
  "om_put k v [] = [(k, v)]"
| "om_put k v ((k', v') # m) =
     (if k < k' then (k, v) # (k', v') # m else if k = k' then (k, v) # m else (k', v') # om_put k v m)"

fun om_del :: "'k \<Rightarrow> ('k \<times> 'v) list \<Rightarrow> ('k \<times> 'v) list" where
  "om_del k [] = []"
| "om_del k ((k', v') # m) = (if k = k' then m else (k', v') # om_del k m)"

definition om_ok :: "('k::linorder \<times> 'v) list \<Rightarrow> bool" where
  "om_ok m = sorted_wrt (<) (map fst m)"

section \<open>Laws\<close>

lemma om_ok_simps [simp]:
  "om_ok []"
  "om_ok ((k, v) # m) = ((\<forall>k' \<in> fst ` set m. k < k') \<and> om_ok m)"
  by (auto simp: om_ok_def)

lemma map_of_om_put [simp]: "map_of (om_put k v m) = (map_of m)(k \<mapsto> v)"
  by (induction k v m rule: om_put.induct) (auto simp: fun_eq_iff)

lemma fst_set_om_put [simp]: "fst ` set (om_put k v m) = insert k (fst ` set m)"
  by (induction k v m rule: om_put.induct) auto

lemma om_ok_put: "om_ok m \<Longrightarrow> om_ok (om_put k v m)"
  by (induction k v m rule: om_put.induct) auto

lemma om_ok_distinct: "om_ok m \<Longrightarrow> distinct (map fst m)"
  by (simp add: om_ok_def strict_sorted_imp_sorted strict_sorted_iff)

lemma om_del_notin [simp]: "k \<notin> fst ` set m \<Longrightarrow> om_del k m = m"
  by (induction m) auto

lemma map_of_om_del: "om_ok m \<Longrightarrow> map_of (om_del k m) = (map_of m)(k := None)"
proof (induction m)
  case (Cons p m)
  then show ?case by (cases p) (force simp: fun_eq_iff map_of_eq_None_iff)
qed simp

lemma om_ok_del: "om_ok m \<Longrightarrow> om_ok (om_del k m)"
proof (induction m)
  case (Cons p m)
  have "set (om_del k m) \<subseteq> set m" by (induction k m rule: om_del.induct) auto
  then show ?case using Cons by (cases p) auto
qed simp

lemma length_om_put: "om_ok m \<Longrightarrow> length (om_put k v m) = (if k \<in> fst ` set m then length m else Suc (length m))"
  by (induction k v m rule: om_put.induct) auto

lemma om_ok_map_of_iff: "om_ok m \<Longrightarrow> (map_of m k = Some v) = ((k, v) \<in> set m)"
  by (simp add: map_of_eq_Some_iff om_ok_distinct)

end
