(* ===== verification/WarpInst.thy ===== *)
theory WarpInst
  imports MemFetch
begin

text \<open>
  Warp instructions (\<open>inst_t\<close> and \<open>warp_inst_t\<close> of \<open>abstract_hardware_model.h\<close>): the fields the
  divergence stack, the scoreboard and the memory coalescer read and write, and the operations on
  them. The decoded operand kinds, callbacks and power counters are not kept. A mask of threads is a
  word with one bit per lane.
\<close>

unbundle bit_operations_syntax

text \<open>A loop whose body may stop the simulator.\<close>

fun each :: "('a \<Rightarrow> 's \<Rightarrow> 's option) \<Rightarrow> 'a list \<Rightarrow> 's \<Rightarrow> 's option" where
  "each f [] s = Some s"
| "each f (x # xs) s = do { s \<leftarrow> f x s; each f xs s }"

lemma each_append: "each g (xs @ ys) s = Option.bind (each g xs s) (each g ys)"
proof (induction xs arbitrary: s)
  case (Cons x xs)
  then show ?case by (cases "g x s") simp_all
qed simp

lemma each_keeps:
  assumes "\<And>x s. x \<in> set xs \<Longrightarrow> P s \<Longrightarrow> \<exists>s'. f x s = Some s' \<and> P s'" "P s"
  shows "\<exists>s'. each f xs s = Some s' \<and> P s'"
  using assms
proof (induction xs arbitrary: s)
  case (Cons x xs)
  then obtain t where "f x s = Some t" "P t" by (metis list.set_intros(1))
  thus ?case using Cons.IH[of t] Cons.prems(1) by simp
qed simp

section \<open>Instructions\<close>

datatype op_type =
  NO_OP | ALU_OP | SFU_OP | TENSOR_CORE_OP | DP_OP | SP_OP | INTP_OP | ALU_SFU_OP | LOAD_OP |
  TENSOR_CORE_LOAD_OP | TENSOR_CORE_STORE_OP | STORE_OP | BRANCH_OP | BARRIER_OP | MEMORY_BARRIER_OP |
  CALL_OPS | RET_OPS | EXIT_OPS | SPECIALIZED_UNIT_1_OP | SPECIALIZED_UNIT_2_OP | SPECIALIZED_UNIT_3_OP |
  SPECIALIZED_UNIT_4_OP | SPECIALIZED_UNIT_5_OP | SPECIALIZED_UNIT_6_OP | SPECIALIZED_UNIT_7_OP |
  SPECIALIZED_UNIT_8_OP

datatype memory_op_t = no_memory_op | memory_load | memory_store

datatype cache_operator_type =
  CACHE_UNDEFINED | CACHE_ALL | CACHE_LAST_USE | CACHE_VOLATILE | CACHE_L1 | CACHE_STREAMING | CACHE_GLOBAL |
  CACHE_WRITE_BACK | CACHE_WRITE_THROUGH

record inst =
  i_pc :: u32
  isize :: u32
  i_op :: op_type
  memory_op :: memory_op_t
  reconvergence_pc :: u32
  inst_out :: "u32 list"
  outcount :: u32
  inst_in :: "u32 list"
  incount :: u32
  inst_pred :: "32 word"
  ar1 :: "32 word"
  ar2 :: "32 word"
  initiation_interval :: u32
  data_size :: u32
  i_space :: memory_space
  cache_op :: cache_operator_type

definition is_load :: "'a inst_scheme \<Rightarrow> bool" where
  "is_load i = (i_op i = LOAD_OP \<or> i_op i = TENSOR_CORE_LOAD_OP \<or> memory_op i = memory_load)"

definition is_store :: "'a inst_scheme \<Rightarrow> bool" where
  "is_store i = (i_op i = STORE_OP \<or> i_op i = TENSOR_CORE_STORE_OP \<or> memory_op i = memory_store)"

section \<open>Warp instructions\<close>

abbreviation MAX_WARP_SIZE :: nat where "MAX_WARP_SIZE \<equiv> 32"
abbreviation MAX_ACCESSES_PER_INSN_PER_THREAD :: nat where "MAX_ACCESSES_PER_INSN_PER_THREAD \<equiv> 8"

record warp_inst = inst +
  w_uid :: u32
  w_empty :: bool
  w_cache_hit :: bool
  issue_cycle :: u64
  w_cycles :: u32
  w_isatomic :: bool
  w_warp_id :: u32
  w_dynamic_warp_id :: u32
  w_active_mask :: active_mask
  w_issued_mask :: active_mask
  per_scalar_thread_valid :: bool
  memreqaddr :: "u64 list list"
  mem_accesses_created :: bool
  accessq :: "mem_access list"
  w_scheduler_id :: u32

definition w_issue :: "active_mask \<Rightarrow> u32 \<Rightarrow> u64 \<Rightarrow> u32 \<Rightarrow> u32 \<Rightarrow> u32 \<Rightarrow> warp_inst \<Rightarrow> warp_inst" where
  "w_issue m warp_id cycle dynamic_warp_id sch_id uid w = w\<lparr>w_active_mask := m, w_issued_mask := m,
     w_uid := uid, w_warp_id := warp_id, w_dynamic_warp_id := dynamic_warp_id, issue_cycle := cycle,
     w_cycles := initiation_interval w, w_cache_hit := False, w_empty := False, w_scheduler_id := sch_id\<rparr>"

definition w_clear :: "warp_inst \<Rightarrow> warp_inst" where
  "w_clear w = w\<lparr>w_empty := True\<rparr>"

definition w_move :: "warp_inst \<Rightarrow> warp_inst \<Rightarrow> (warp_inst \<times> warp_inst) option" where
  "w_move dst src = do { ensure (w_empty dst); Some (src, w_clear dst) }"

definition warp_id :: "warp_inst \<Rightarrow> u32 option" where
  "warp_id w = do { ensure (\<not> w_empty w); Some (w_warp_id w) }"

definition w_active :: "warp_inst \<Rightarrow> nat \<Rightarrow> bool" where
  "w_active w thread = bit (w_active_mask w) thread"

definition count_bits :: "active_mask \<Rightarrow> nat" where
  "count_bits m = length (filter (bit m) [0..<MAX_WARP_SIZE])"

definition active_count :: "warp_inst \<Rightarrow> nat" where
  "active_count w = count_bits (w_active_mask w)"

definition issued_count :: "warp_inst \<Rightarrow> nat option" where
  "issued_count w = do { ensure (\<not> w_empty w); Some (count_bits (w_issued_mask w)) }"

definition clear_active :: "active_mask \<Rightarrow> warp_inst \<Rightarrow> warp_inst option" where
  "clear_active inactive w = do {
     ensure (w_active_mask w AND inactive = inactive);
     Some (w\<lparr>w_active_mask := w_active_mask w AND NOT inactive\<rparr>) }"

definition set_not_active :: "nat \<Rightarrow> warp_inst \<Rightarrow> warp_inst option" where
  "set_not_active lane w = do {
     ensure (lane < MAX_WARP_SIZE);
     Some (w\<lparr>w_active_mask := unset_bit lane (w_active_mask w)\<rparr>) }"

text \<open>The per-thread addresses appear, all zero, when the first is set.\<close>

definition alloc_threads :: "nat \<Rightarrow> warp_inst \<Rightarrow> warp_inst" where
  "alloc_threads warp_size w =
    (if per_scalar_thread_valid w then w
     else w\<lparr>memreqaddr := replicate warp_size (replicate MAX_ACCESSES_PER_INSN_PER_THREAD 0),
            per_scalar_thread_valid := True\<rparr>)"

definition set_addr :: "nat \<Rightarrow> nat \<Rightarrow> u64 \<Rightarrow> warp_inst \<Rightarrow> warp_inst option" where
  "set_addr warp_size n addr w = do {
     let w = alloc_threads warp_size w;
     as \<leftarrow> at (memreqaddr w) n;
     as \<leftarrow> put as 0 addr;
     ms \<leftarrow> put (memreqaddr w) n as;
     Some (w\<lparr>memreqaddr := ms\<rparr>) }"

definition set_addrs :: "nat \<Rightarrow> nat \<Rightarrow> u64 list \<Rightarrow> warp_inst \<Rightarrow> warp_inst option" where
  "set_addrs warp_size n addrs w = do {
     let w = alloc_threads warp_size w;
     ensure (length addrs \<le> MAX_ACCESSES_PER_INSN_PER_THREAD);
     as \<leftarrow> at (memreqaddr w) n;
     ms \<leftarrow> put (memreqaddr w) n (addrs @ drop (length addrs) as);
     Some (w\<lparr>memreqaddr := ms\<rparr>) }"

definition accessq_back :: "warp_inst \<Rightarrow> mem_access option" where
  "accessq_back w = (if accessq w = [] then None else Some (last (accessq w)))"

definition accessq_pop_back :: "warp_inst \<Rightarrow> warp_inst option" where
  "accessq_pop_back w = (if accessq w = [] then None else Some (w\<lparr>accessq := butlast (accessq w)\<rparr>))"

definition dispatch_delay :: "warp_inst \<Rightarrow> bool \<times> warp_inst" where
  "dispatch_delay w =
    (let w = (if 0 < w_cycles w then w\<lparr>w_cycles := w_cycles w - 1\<rparr> else w) in (0 < w_cycles w, w))"

end
