(* ===== verification/SimtStack.thy ===== *)
theory SimtStack
  imports Omap WarpInst
begin

text \<open>
  The divergence stack of a warp (\<open>simt_stack\<close> of \<open>abstract_hardware_model.cc\<close>) and the call that
  feeds it (\<open>core_t::updateSIMTStack\<close>). The deque is a list with \<open>back()\<close> first. The two statistics
  calls at the end of \<open>update\<close> become a flag of its result; the functional simulator's view of the
  threads (which are done, their next pc, their return pc) is passed in.
\<close>

section \<open>State\<close>

abbreviation null_pc :: u32 where "null_pc \<equiv> - 1"
abbreviation RECONVERGE_RETURN_PC :: u32 where "RECONVERGE_RETURN_PC \<equiv> - 2"

datatype stack_entry_type = STACK_ENTRY_TYPE_NORMAL | STACK_ENTRY_TYPE_CALL

record simt_entry =
  m_pc :: u32
  m_calldepth :: u32
  m_active_mask :: active_mask
  m_recvg_pc :: u32
  m_branch_div_cycle :: u64
  m_type :: stack_entry_type

definition fresh_entry :: simt_entry where
  "fresh_entry = \<lparr>m_pc = null_pc, m_calldepth = 0, m_active_mask = 0, m_recvg_pc = null_pc,
     m_branch_div_cycle = 0, m_type = STACK_ENTRY_TYPE_NORMAL\<rparr>"

record simt_stack =
  m_warp_id :: u32
  m_warp_size :: nat
  m_stack :: "simt_entry list"

definition simt_new :: "u32 \<Rightarrow> nat \<Rightarrow> simt_stack" where
  "simt_new wid warp_size = \<lparr>m_warp_id = wid, m_warp_size = warp_size, m_stack = []\<rparr>"

definition simt_reset :: "simt_stack \<Rightarrow> simt_stack" where
  "simt_reset s = s\<lparr>m_stack := []\<rparr>"

definition simt_launch :: "u32 \<Rightarrow> active_mask \<Rightarrow> simt_stack \<Rightarrow> simt_stack" where
  "simt_launch start_pc active s =
    (simt_reset s)\<lparr>m_stack := [fresh_entry\<lparr>m_pc := start_pc, m_calldepth := 1, m_active_mask := active\<rparr>]\<rparr>"

definition deque_back :: "'a list \<Rightarrow> 'a option" where
  "deque_back xs = (case xs of [] \<Rightarrow> None | x # _ \<Rightarrow> Some x)"

definition get_active_mask :: "simt_stack \<Rightarrow> active_mask option" where
  "get_active_mask s = map_option m_active_mask (deque_back (m_stack s))"

definition get_pdom_stack_top_info :: "simt_stack \<Rightarrow> (u32 \<times> u32) option" where
  "get_pdom_stack_top_info s = map_option (\<lambda>e. (m_pc e, m_recvg_pc e)) (deque_back (m_stack s))"

definition get_rp :: "simt_stack \<Rightarrow> u32 option" where
  "get_rp s = map_option m_recvg_pc (deque_back (m_stack s))"

section \<open>Grouping the threads by their next pc\<close>

text \<open>
  One pass over the lanes, from the highest: the state is the mask of the threads left, the pc of the
  group (\<open>null_pc\<close> until one is found) and the threads of the group.
\<close>

definition visit_thread ::
  "active_mask \<Rightarrow> u32 list \<Rightarrow> nat \<Rightarrow> active_mask \<times> u32 \<times> active_mask \<Rightarrow> active_mask \<times> u32 \<times> active_mask" where
  "visit_thread thread_done next_pc i = (\<lambda>(active, pc, grp).
    if bit active i then
      if bit thread_done i then (unset_bit i active, pc, grp)
      else if pc = null_pc then (unset_bit i active, next_pc ! i, set_bit i grp)
      else if pc = next_pc ! i then (unset_bit i active, pc, set_bit i grp)
      else (active, pc, grp)
    else (active, pc, grp))"

fun same_pc_group ::
  "active_mask \<Rightarrow> u32 list \<Rightarrow> nat \<Rightarrow> active_mask \<times> u32 \<times> active_mask \<Rightarrow> active_mask \<times> u32 \<times> active_mask" where
  "same_pc_group thread_done next_pc 0 x = x"
| "same_pc_group thread_done next_pc (Suc i) x =
     same_pc_group thread_done next_pc i (visit_thread thread_done next_pc i x)"

text \<open>
  The loop that collects the groups. It does not end when the mask has a lane beyond the warp, so it
  is a partial function.
\<close>

partial_function (option) split_paths ::
  "active_mask \<Rightarrow> u32 list \<Rightarrow> nat \<Rightarrow> active_mask \<Rightarrow> (u32 \<times> active_mask) list \<Rightarrow> nat \<Rightarrow>
   ((u32 \<times> active_mask) list \<times> nat) option" where
  "split_paths thread_done next_pc warp_size active paths num =
    (if active = 0 then Some (paths, num)
     else case same_pc_group thread_done next_pc warp_size (active, null_pc, 0) of
       (active, pc, grp) \<Rightarrow>
         if pc = null_pc then
           (if active \<noteq> 0 then None else split_paths thread_done next_pc warp_size active paths num)
         else split_paths thread_done next_pc warp_size active (om_put pc grp paths) (num + 1))"

section \<open>Pushing the groups\<close>

text \<open>What the loop over the groups reads, and what it changes.\<close>

record push_ctx =
  pc_num :: nat                 \<comment> \<open>\<open>num_divergent_paths\<close>\<close>
  pc_not_taken :: u32
  pc_recvg :: u32               \<comment> \<open>the reconvergence pc of the instruction\<close>
  pc_op :: op_type
  pc_top_recvg :: u32
  pc_top_type :: stack_entry_type
  pc_now :: u64

record push_state =
  ps_paths :: "(u32 \<times> active_mask) list"
  ps_diverged :: bool
  ps_new_recvg :: u32
  ps_stack :: "simt_entry list"

definition with_back :: "(simt_entry \<Rightarrow> simt_entry) \<Rightarrow> simt_entry list \<Rightarrow> simt_entry list option" where
  "with_back f s = (case s of [] \<Rightarrow> None | e # es \<Rightarrow> Some (f e # es))"

text \<open>The path not taken goes first, so that the taken path ends on top.\<close>

definition next_path :: "push_ctx \<Rightarrow> nat \<Rightarrow> push_state \<Rightarrow> (u32 \<times> active_mask \<times> push_state) option" where
  "next_path c i p =
    (case map_of (ps_paths p) (pc_not_taken c) of
       Some grp \<Rightarrow> do {
         ensure (i = 0);
         Some (pc_not_taken c, grp, p\<lparr>ps_paths := om_del (pc_not_taken c) (ps_paths p)\<rparr>) }
     | None \<Rightarrow> (case ps_paths p of [] \<Rightarrow> None | (pc, grp) # rest \<Rightarrow> Some (pc, grp, p\<lparr>ps_paths := rest\<rparr>)))"

definition push_call :: "push_ctx \<Rightarrow> u32 \<Rightarrow> active_mask \<Rightarrow> push_state \<Rightarrow> push_state option" where
  "push_call c pc grp p = do {
     ensure (pc_num c = 1);
     Some (p\<lparr>ps_stack := fresh_entry\<lparr>m_pc := pc, m_active_mask := grp,
       m_branch_div_cycle := pc_now c, m_type := STACK_ENTRY_TYPE_CALL\<rparr> # ps_stack p\<rparr>) }"

definition pop_call :: "push_ctx \<Rightarrow> u32 \<Rightarrow> push_state \<Rightarrow> push_state option" where
  "pop_call c pc p = do {
     ensure (pc_num c = 1);
     let s = tl (ps_stack p);
     ensure (s \<noteq> []);
     s \<leftarrow> with_back (m_pc_update (\<lambda>_. pc)) s;
     (if pc = m_recvg_pc (hd s) \<and> m_type (hd s) \<noteq> STACK_ENTRY_TYPE_CALL
      then Some (p\<lparr>ps_stack := tl s\<rparr>) else Some (p\<lparr>ps_stack := s\<rparr>)) }"

definition diverge :: "push_ctx \<Rightarrow> push_state \<Rightarrow> push_state option" where
  "diverge c p =
    (if 1 < pc_num c \<and> \<not> ps_diverged p then do {
       let p = p\<lparr>ps_diverged := True, ps_new_recvg := pc_recvg c\<rparr>;
       (if ps_new_recvg p \<noteq> pc_top_recvg c then do {
          s \<leftarrow> with_back (\<lambda>e. e\<lparr>m_pc := ps_new_recvg p, m_branch_div_cycle := pc_now c\<rparr>) (ps_stack p);
          Some (p\<lparr>ps_stack := fresh_entry # s\<rparr>) }
        else Some p) }
     else Some p)"

definition add_path :: "push_ctx \<Rightarrow> u32 \<Rightarrow> active_mask \<Rightarrow> push_state \<Rightarrow> push_state option" where
  "add_path c pc grp p =
    (if pc = pc_top_recvg c \<and> pc_top_type c \<noteq> STACK_ENTRY_TYPE_CALL then Some p
     else do {
       p \<leftarrow> diverge c p;
       (if ps_diverged p \<and> pc = ps_new_recvg p then Some p
        else do {
          s \<leftarrow> with_back (\<lambda>e. e\<lparr>m_pc := pc, m_active_mask := grp\<rparr>) (ps_stack p);
          s \<leftarrow> with_back (\<lambda>e. if ps_diverged p then e\<lparr>m_calldepth := 0, m_recvg_pc := ps_new_recvg p\<rparr>
                              else e\<lparr>m_recvg_pc := pc_top_recvg c\<rparr>) s;
          Some (p\<lparr>ps_stack := fresh_entry # s\<rparr>) }) })"

text \<open>The loop, with \<open>n\<close> rounds left in round \<open>i\<close>; the flag says that a call or a return ended it.\<close>

fun push_paths :: "push_ctx \<Rightarrow> nat \<Rightarrow> nat \<Rightarrow> push_state \<Rightarrow> (bool \<times> push_state) option" where
  "push_paths c 0 i p = Some (False, p)"
| "push_paths c (Suc n) i p = do {
     (pc, grp, p) \<leftarrow> next_path c i p;
     (if pc_op c = CALL_OPS then do { p \<leftarrow> push_call c pc grp p; Some (True, p) }
      else if pc_op c = RET_OPS \<and> pc_top_type c = STACK_ENTRY_TYPE_CALL then do { p \<leftarrow> pop_call c pc p; Some (True, p) }
      else do { p \<leftarrow> add_path c pc grp p; push_paths c n (Suc i) p }) }"

section \<open>Update\<close>

definition simt_update ::
  "active_mask \<Rightarrow> u32 list \<Rightarrow> u32 \<Rightarrow> op_type \<Rightarrow> u32 \<Rightarrow> u32 \<Rightarrow> u64 \<Rightarrow> simt_stack \<Rightarrow> (bool \<times> simt_stack) option" where
  "simt_update thread_done next_pc recvg_pc next_inst_op next_inst_size next_inst_pc now s = do {
     top \<leftarrow> deque_back (m_stack s);
     ensure (length next_pc = m_warp_size s);
     ensure (m_warp_size s \<le> MAX_WARP_SIZE);   \<comment> \<open>the bounds check of \<open>bitset::test\<close>\<close>
     ensure (m_pc top = next_inst_pc);
     ensure (m_active_mask top \<noteq> 0);
     (paths, num) \<leftarrow> split_paths thread_done next_pc (m_warp_size s) (m_active_mask top) [] 0;
     ensure (num \<le> 2);
     (returned, p) \<leftarrow> push_paths
       \<lparr>pc_num = num, pc_not_taken = next_inst_pc + next_inst_size, pc_recvg = recvg_pc, pc_op = next_inst_op,
        pc_top_recvg = m_recvg_pc top, pc_top_type = m_type top, pc_now = now\<rparr> num 0
       \<lparr>ps_paths = paths, ps_diverged = False, ps_new_recvg = null_pc, ps_stack = m_stack s\<rparr>;
     (if returned then Some (False, s\<lparr>m_stack := ps_stack p\<rparr>)
      else do {
        ensure (ps_stack p \<noteq> []);
        Some (ps_diverged p, s\<lparr>m_stack := tl (ps_stack p)\<rparr>) })
   }"

text \<open>
  The threads as the functional simulator has them; \<open>updateSIMTStack\<close> asks for the return pc of the
  first live thread when the instruction reconverges at its function's return.
\<close>

record thread_view =
  tv_done :: bool
  tv_pc :: u32
  tv_return_pc :: u32

fun collect_threads :: "thread_view list \<Rightarrow> nat \<Rightarrow> active_mask \<Rightarrow> u32 list \<Rightarrow> u32 \<Rightarrow> active_mask \<times> u32 list \<times> u32" where
  "collect_threads [] i thread_done next_pc recvg = (thread_done, next_pc, recvg)"
| "collect_threads (t # ts) i thread_done next_pc recvg =
     (if tv_done t then collect_threads ts (Suc i) (set_bit i thread_done) (next_pc @ [null_pc]) recvg
      else collect_threads ts (Suc i) thread_done (next_pc @ [tv_pc t])
             (if recvg = RECONVERGE_RETURN_PC then tv_return_pc t else recvg))"

definition updateSIMTStack :: "thread_view list \<Rightarrow> u64 \<Rightarrow> 'a inst_scheme \<Rightarrow> simt_stack \<Rightarrow>
    (bool \<times> 'a inst_scheme \<times> simt_stack) option" where
  "updateSIMTStack threads now i s = do {
     let (thread_done, next_pc, recvg) = collect_threads threads 0 0 [] (reconvergence_pc i);
     let i = i\<lparr>reconvergence_pc := recvg\<rparr>;
     (diverged, s) \<leftarrow> simt_update thread_done next_pc (reconvergence_pc i) (i_op i) (isize i) (i_pc i) now s;
     Some (diverged, i, s) }"


section \<open>The groups are exact\<close>

text \<open>A live thread of the mask \<open>a\<close> whose next pc is \<open>pc\<close>.\<close>

definition goes :: "active_mask \<Rightarrow> u32 list \<Rightarrow> active_mask \<Rightarrow> u32 \<Rightarrow> nat \<Rightarrow> bool" where
  "goes d pcs a pc i = (bit a i \<and> \<not> bit d i \<and> pcs ! i = pc)"

definition live :: "active_mask \<Rightarrow> active_mask \<Rightarrow> nat \<Rightarrow> bool" where
  "live d a i = (bit a i \<and> \<not> bit d i)"

lemma bit_set_lane: "i < 32 \<Longrightarrow> bit (set_bit i m) j = (j = i \<or> bit m j)" for m :: active_mask
  by (auto simp: bit_set_bit_iff)

lemma bit_unset_lane: "bit (unset_bit i m) j = (j \<noteq> i \<and> bit m j)" for m :: active_mask
  by (auto simp: bit_unset_bit_iff)

lemma visit_running:
  assumes "visit_thread d pcs n (a, pc, g) = (a', pc', g')" "pc \<noteq> null_pc" "n < 32"
  shows "pc' = pc \<and> (\<forall>i. bit g' i = (bit g i \<or> i = n \<and> goes d pcs a pc i)) \<and>
    (\<forall>i. bit a' i = (bit a i \<and> (i = n \<longrightarrow> \<not> bit d i \<and> pcs ! i \<noteq> pc)))"
  using assms by (auto simp: visit_thread_def goes_def bit_set_lane bit_unset_lane split: if_splits)

lemma visit_idle:
  assumes "visit_thread d pcs n (a, pc, g) = (a', pc', g')" "\<not> live d a n"
  shows "pc' = pc \<and> g' = g \<and> (\<forall>i. bit a' i = (bit a i \<and> i \<noteq> n))"
  using assms by (auto simp: visit_thread_def live_def bit_unset_lane split: if_splits)

lemma same_pc_group_running:
  assumes "pc \<noteq> null_pc" "n \<le> 32" "same_pc_group d pcs n (a, pc, g) = (a', pc', g')"
  shows "pc' = pc \<and> (\<forall>i. bit g' i = (bit g i \<or> i < n \<and> goes d pcs a pc i)) \<and>
    (\<forall>i. bit a' i = (bit a i \<and> (i < n \<longrightarrow> \<not> bit d i \<and> pcs ! i \<noteq> pc)))"
  using assms
proof (induction n arbitrary: a g)
  case (Suc n)
  obtain a1 pc1 g1 where v: "visit_thread d pcs n (a, pc, g) = (a1, pc1, g1)" by (cases "visit_thread d pcs n (a, pc, g)")
  note w = visit_running[OF v Suc.prems(1)]
  have "same_pc_group d pcs n (a1, pc, g1) = (a', pc', g')" using Suc.prems v w by simp
  from Suc.IH[OF Suc.prems(1) _ this] Suc.prems(2) w show ?case
    by (auto simp: goes_def less_Suc_eq)
qed simp

lemma same_pc_group_start:
  assumes "n \<le> 32" "\<And>i. i < n \<Longrightarrow> live d a i \<Longrightarrow> pcs ! i \<noteq> null_pc" "same_pc_group d pcs n (a, null_pc, g) = (a', pc', g')"
  shows "((\<nexists>i. i < n \<and> live d a i) \<and> pc' = null_pc \<and> g' = g \<and> (\<forall>i. bit a' i = (bit a i \<and> n \<le> i))) \<or>
    ((\<exists>k < n. live d a k \<and> pc' = pcs ! k) \<and> (\<forall>i. bit g' i = (bit g i \<or> i < n \<and> goes d pcs a pc' i)) \<and>
      (\<forall>i. bit a' i = (bit a i \<and> (i < n \<longrightarrow> \<not> bit d i \<and> pcs ! i \<noteq> pc'))))"
  using assms
proof (induction n arbitrary: a)
  case (Suc n)
  show ?case
  proof (cases "live d a n")
    case True
    then have v: "visit_thread d pcs n (a, null_pc, g) = (unset_bit n a, pcs ! n, set_bit n g)"
      by (simp add: visit_thread_def live_def)
    have pre: "pcs ! n \<noteq> null_pc" "n \<le> 32" "n < 32" using Suc.prems(1,2) True by auto
    have "same_pc_group d pcs n (unset_bit n a, pcs ! n, set_bit n g) = (a', pc', g')" using Suc.prems(3) v by simp
    note w = same_pc_group_running[OF pre(1,2) this]
    have "(\<exists>k < Suc n. live d a k \<and> pc' = pcs ! k)" using w True by blast
    moreover have "bit g' i = (bit g i \<or> i < Suc n \<and> goes d pcs a pc' i)" for i
      using w True pre(3) by (cases "i = n") (auto simp: bit_set_lane bit_unset_lane goes_def live_def less_Suc_eq)
    moreover have "bit a' i = (bit a i \<and> (i < Suc n \<longrightarrow> \<not> bit d i \<and> pcs ! i \<noteq> pc'))" for i
      using w True by (cases "i = n") (auto simp: bit_unset_lane live_def less_Suc_eq)
    ultimately show ?thesis by blast
  next
    case False
    obtain a1 pc1 g1 where v: "visit_thread d pcs n (a, null_pc, g) = (a1, pc1, g1)"
      by (cases "visit_thread d pcs n (a, null_pc, g)")
    note w = visit_idle[OF v False]
    then have a1: "bit a1 i = (bit a i \<and> i \<noteq> n)" for i by blast
    have l: "live d a1 i = live d a i" "goes d pcs a1 pc i = goes d pcs a pc i" if "i < n" for i pc
      using that a1 by (auto simp: live_def goes_def)
    have s: "same_pc_group d pcs n (a1, null_pc, g) = (a', pc', g')" using Suc.prems(3) v w by simp
    have "\<And>i. i < n \<Longrightarrow> live d a1 i \<Longrightarrow> pcs ! i \<noteq> null_pc" using Suc.prems(2) l by simp
    from Suc.IH[OF _ this s] Suc.prems(1) consider
      (none) "\<nexists>i. i < n \<and> live d a1 i" "pc' = null_pc" "g' = g" "\<And>i. bit a' i = (bit a1 i \<and> n \<le> i)"
      | (some) k where "k < n" "live d a1 k" "pc' = pcs ! k"
          "\<And>i. bit g' i = (bit g i \<or> i < n \<and> goes d pcs a1 pc' i)"
          "\<And>i. bit a' i = (bit a1 i \<and> (i < n \<longrightarrow> \<not> bit d i \<and> pcs ! i \<noteq> pc'))"
      by auto
    then show ?thesis
    proof cases
      case none
      then have "bit a' i = (bit a i \<and> Suc n \<le> i)" for i using a1 by auto
      then show ?thesis using none(1-3) l False by (auto simp: less_Suc_eq)
    next
      case some
      have "bit g' i = (bit g i \<or> i < Suc n \<and> goes d pcs a pc' i)" for i
        using some(4) l False by (auto simp: less_Suc_eq goes_def live_def)
      moreover have "bit a' i = (bit a i \<and> (i < Suc n \<longrightarrow> \<not> bit d i \<and> pcs ! i \<noteq> pc'))" for i
        using some(5) a1 False by (auto simp: less_Suc_eq live_def)
      ultimately show ?thesis using some(1-3) l less_SucI by metis
    qed
  qed
qed simp


definition targets :: "active_mask \<Rightarrow> u32 list \<Rightarrow> active_mask \<Rightarrow> u32 set" where
  "targets d pcs a = (\<lambda>i. pcs ! i) ` {i. live d a i}"

lemma finite_live: "finite {i. live d a i}"
  by (rule finite_subset[OF _ finite_lessThan[of 32]]) (auto simp: live_def dest: bit_imp_le_length)

lemma finite_targets: "finite (targets d pcs a)"
  by (simp add: targets_def finite_live)

lemma split_paths_groups:
  assumes "n \<le> 32" "\<And>i. bit a i \<Longrightarrow> i < n" "\<And>i. live d a i \<Longrightarrow> pcs ! i \<noteq> null_pc" "om_ok P"
  shows "\<exists>P'. split_paths d pcs n a P num = Some (P', num + card (targets d pcs a)) \<and> om_ok P' \<and>
    (\<forall>pc. if pc \<in> targets d pcs a then \<exists>g. map_of P' pc = Some g \<and> (\<forall>i. bit g i = goes d pcs a pc i)
          else map_of P' pc = map_of P pc)"
  using assms
proof (induction "card (targets d pcs a)" arbitrary: a P num rule: less_induct)
  case less
  show ?case
  proof (cases "a = 0")
    case True
    then have "targets d pcs a = {}" by (simp add: targets_def live_def)
    then show ?thesis
      using True less.prems(4) by (intro exI[of _ P]) (simp add: split_paths.simps[of d pcs n 0])
  next
    case False
    obtain a' pc' g' where pass: "same_pc_group d pcs n (a, null_pc, 0) = (a', pc', g')"
      by (cases "same_pc_group d pcs n (a, null_pc, 0)")
    have lt: "i < n" if "live d a i" for i using that less.prems(2) by (auto simp: live_def)
    from same_pc_group_start[OF less.prems(1) _ pass] less.prems(3) consider
      (none) "\<nexists>i. i < n \<and> live d a i" "pc' = null_pc" "\<And>i. bit a' i = (bit a i \<and> n \<le> i)"
      | (some) k where "k < n" "live d a k" "pc' = pcs ! k"
          "\<And>i. bit g' i = (i < n \<and> goes d pcs a pc' i)"
          "\<And>i. bit a' i = (bit a i \<and> (i < n \<longrightarrow> \<not> bit d i \<and> pcs ! i \<noteq> pc'))"
      by auto
    then show ?thesis
    proof cases
      case none
      have "a' = 0" using none(3) less.prems(2) by (intro bit_eqI) (auto simp: not_le)
      then have "split_paths d pcs n a P num = Some (P, num)"
        using False pass none(2) by (simp add: split_paths.simps[of d pcs n a] split_paths.simps[of d pcs n 0])
      moreover have "targets d pcs a = {}" using none(1) lt by (auto simp: targets_def)
      ultimately show ?thesis using less.prems(4) by simp
    next
      case some
      have l: "live d a' i = (live d a i \<and> pcs ! i \<noteq> pc')" for i
        using some(5) less.prems(2) by (auto simp: live_def)
      then have t: "targets d pcs a' = targets d pcs a - {pc'}" and go: "pc \<noteq> pc' \<Longrightarrow> goes d pcs a' pc i = goes d pcs a pc i" for pc i
        by (auto simp: targets_def goes_def live_def)
      have mem: "pc' \<in> targets d pcs a" using some(2,3) by (auto simp: targets_def)
      have card: "card (targets d pcs a) = Suc (card (targets d pcs a'))"
        unfolding t by (rule card_Suc_Diff1[OF finite_targets mem, symmetric])
      have "\<exists>P'. split_paths d pcs n a' (om_put pc' g' P) (num + 1) = Some (P', (num + 1) + card (targets d pcs a')) \<and> om_ok P' \<and>
        (\<forall>pc. if pc \<in> targets d pcs a' then \<exists>g. map_of P' pc = Some g \<and> (\<forall>i. bit g i = goes d pcs a' pc i)
          else map_of P' pc = map_of (om_put pc' g' P) pc)"
        by (rule less.hyps) (use card some(5) less.prems l in \<open>auto intro: om_ok_put\<close>)
      then obtain P' where P': "split_paths d pcs n a' (om_put pc' g' P) (num + 1) = Some (P', num + 1 + card (targets d pcs a'))"
        "om_ok P'"
        and rest: "\<And>pc. if pc \<in> targets d pcs a' then \<exists>g. map_of P' pc = Some g \<and> (\<forall>i. bit g i = goes d pcs a' pc i)
          else map_of P' pc = map_of (om_put pc' g' P) pc" by blast
      have "split_paths d pcs n a P num = Some (P', num + card (targets d pcs a))"
        using False pass some(2,3) less.prems(3) P'(1) card by (simp add: split_paths.simps[of d pcs n a])
      moreover have "if pc \<in> targets d pcs a then \<exists>g. map_of P' pc = Some g \<and> (\<forall>i. bit g i = goes d pcs a pc i)
          else map_of P' pc = map_of P pc" for pc
      proof (cases "pc = pc'")
        case True
        then have "map_of P' pc = Some g'" using rest[of pc] t by simp
        moreover have "bit g' i = goes d pcs a pc i" for i using some(4) less.prems(2) True by (auto simp: goes_def)
        ultimately show ?thesis using mem True by simp
      next
        case False
        then show ?thesis using rest[of pc] t go[OF False] by (cases "pc \<in> targets d pcs a") auto
      qed
      ultimately show ?thesis using P'(2) by blast
    qed
  qed
qed


section \<open>The invariant of the stack\<close>

text \<open>
  The pc of a thread is that of the topmost entry that holds it. \<open>entry_ok d e s\<close> says what an entry
  with the entries \<open>s\<close> below it must satisfy for the threads that are not done: a normal entry leaves
  its threads at its reconvergence pc when it is popped, and a call entry holds all the live threads
  of the entry that called.
\<close>

fun thread_pc :: "simt_entry list \<Rightarrow> nat \<Rightarrow> u32 option" where
  "thread_pc [] i = None"
| "thread_pc (e # s) i = (if bit (m_active_mask e) i then Some (m_pc e) else thread_pc s i)"

definition entry_ok :: "active_mask \<Rightarrow> simt_entry \<Rightarrow> simt_entry list \<Rightarrow> bool" where
  "entry_ok d e s =
    (case m_type e of
       STACK_ENTRY_TYPE_CALL \<Rightarrow> m_recvg_pc e = null_pc \<and> s \<noteq> [] \<and>
         (\<forall>i. live d (m_active_mask (hd s)) i = live d (m_active_mask e) i)
     | STACK_ENTRY_TYPE_NORMAL \<Rightarrow> m_recvg_pc e \<noteq> null_pc \<longrightarrow>
         (\<forall>i. live d (m_active_mask e) i \<longrightarrow> thread_pc s i = Some (m_recvg_pc e)))"

fun stack_ok :: "nat \<Rightarrow> active_mask \<Rightarrow> simt_entry list \<Rightarrow> bool" where
  "stack_ok n d [] = True"
| "stack_ok n d (e # s) = (entry_ok d e s \<and> (\<forall>i. bit (m_active_mask e) i \<longrightarrow> i < n) \<and> stack_ok n d s)"

text \<open>Only the mask, the pc, the reconvergence pc and the kind of an entry matter.\<close>

lemma entry_ok_cong:
  "entry_ok d e s \<Longrightarrow> m_type e' = m_type e \<Longrightarrow> m_recvg_pc e' = m_recvg_pc e \<Longrightarrow>
   (\<And>i. live d (m_active_mask e') i = live d (m_active_mask e) i) \<Longrightarrow> entry_ok d e' s"
  by (auto simp: entry_ok_def split: stack_entry_type.splits)

lemma entry_ok_normal:
  "m_type e = STACK_ENTRY_TYPE_NORMAL \<Longrightarrow>
   (\<And>i. m_recvg_pc e \<noteq> null_pc \<Longrightarrow> live d (m_active_mask e) i \<Longrightarrow> thread_pc s i = Some (m_recvg_pc e)) \<Longrightarrow> entry_ok d e s"
  by (auto simp: entry_ok_def)

lemma entry_okD:
  "entry_ok d e s \<Longrightarrow> m_type e = STACK_ENTRY_TYPE_NORMAL \<Longrightarrow> m_recvg_pc e \<noteq> null_pc \<Longrightarrow> live d (m_active_mask e) i \<Longrightarrow>
   thread_pc s i = Some (m_recvg_pc e)"
  by (auto simp: entry_ok_def)

text \<open>More threads may finish.\<close>

definition more_done :: "active_mask \<Rightarrow> active_mask \<Rightarrow> bool" where
  "more_done d d' = (\<forall>i. bit d i \<longrightarrow> bit d' i)"

lemma entry_ok_mono: "more_done d d' \<Longrightarrow> entry_ok d e s \<Longrightarrow> entry_ok d' e s"
  by (auto simp: entry_ok_def more_done_def live_def split: stack_entry_type.splits)

lemma stack_ok_mono: "more_done d d' \<Longrightarrow> stack_ok n d s \<Longrightarrow> stack_ok n d' s"
  by (induction s) (auto intro: entry_ok_mono)

text \<open>
  What an instruction may do to the live threads of the top entry \<open>e\<close>: none of them goes to the null
  pc, they go to at most two pcs, to one only on a call or on the return from a call entry, and when
  they part, the reconvergence pc of the instruction fits the entry: if some of the threads go straight
  to the reconvergence pc of the entry, it is that pc, and in a call entry it is not null.
\<close>

definition step_ok :: "nat \<Rightarrow> active_mask \<Rightarrow> u32 list \<Rightarrow> u32 \<Rightarrow> op_type \<Rightarrow> simt_entry \<Rightarrow> bool" where
  "step_ok n d pcs recvg op e =
    (let ts = targets d pcs (m_active_mask e) in
     (\<forall>i. live d (m_active_mask e) i \<longrightarrow> pcs ! i \<noteq> null_pc) \<and> card ts \<le> 2 \<and>
     (card ts = 2 \<longrightarrow>
        op \<noteq> CALL_OPS \<and> \<not> (op = RET_OPS \<and> m_type e = STACK_ENTRY_TYPE_CALL) \<and>
        (m_recvg_pc e \<in> ts \<and> m_type e = STACK_ENTRY_TYPE_NORMAL \<longrightarrow> recvg = m_recvg_pc e) \<and>
        (m_type e = STACK_ENTRY_TYPE_CALL \<longrightarrow> recvg \<noteq> null_pc)))"

text \<open>The contract of an update: every live thread that ran is at its next pc, the others where they were.\<close>

definition follows :: "active_mask \<Rightarrow> u32 list \<Rightarrow> simt_entry list \<Rightarrow> simt_entry list \<Rightarrow> bool" where
  "follows d pcs s s' = (\<forall>i. \<not> bit d i \<longrightarrow>
     thread_pc s' i = (if bit (m_active_mask (hd s)) i then Some (pcs ! i) else thread_pc s i))"


lemma split_paths_start:
  assumes "n \<le> 32" "\<And>i. bit a i \<Longrightarrow> i < n" "\<And>i. live d a i \<Longrightarrow> pcs ! i \<noteq> null_pc"
  obtains P where "split_paths d pcs n a [] 0 = Some (P, length P)" "distinct (map fst P)"
    "fst ` set P = targets d pcs a" "\<And>pc g i. (pc, g) \<in> set P \<Longrightarrow> bit g i = goes d pcs a pc i"
    "length P = card (targets d pcs a)"
proof -
  obtain P where P: "split_paths d pcs n a [] 0 = Some (P, card (targets d pcs a))" "om_ok P"
    and m: "\<And>pc. if pc \<in> targets d pcs a then \<exists>g. map_of P pc = Some g \<and> (\<forall>i. bit g i = goes d pcs a pc i)
          else map_of P pc = None"
    using split_paths_groups[of n a d pcs "[]" 0] assms by auto
  have dist: "distinct (map fst P)" by (rule om_ok_distinct[OF P(2)])
  have "pc \<in> fst ` set P \<longleftrightarrow> pc \<in> targets d pcs a" for pc
    using m[of pc] map_of_eq_None_iff[of P pc] by (auto split: if_splits)
  then have keys: "fst ` set P = targets d pcs a" by blast
  have g: "bit g i = goes d pcs a pc i" if "(pc, g) \<in> set P" for pc g i
  proof -
    have "map_of P pc = Some g" using that dist by simp
    then show ?thesis using m[of pc] by (auto split: if_splits)
  qed
  have "length P = card (targets d pcs a)"
    using dist keys by (metis distinct_card length_map set_map)
  then show ?thesis using that P(1) dist keys g by simp
qed

text \<open>A state of the loop whose top entry is still to be filled, with the entries \<open>base\<close> below.\<close>

definition slot :: "push_ctx \<Rightarrow> simt_entry list \<Rightarrow> push_state \<Rightarrow> bool" where
  "slot c base p =
    ((\<exists>x. ps_stack p = x # base \<and> m_type x = STACK_ENTRY_TYPE_NORMAL) \<and>
     (if ps_diverged p then ps_new_recvg p = pc_recvg c
      else pc_recvg c = pc_top_recvg c \<and> pc_top_type c = STACK_ENTRY_TYPE_NORMAL))"

lemma slot_step:
  assumes "slot c base p" "pc_num c = 2" "pc = pc_top_recvg c \<Longrightarrow> pc_top_type c = STACK_ENTRY_TYPE_NORMAL \<Longrightarrow> pc = pc_recvg c"
  obtains p' base' where "add_path c pc g p = Some p'" "ps_paths p' = ps_paths p" "slot c base' p'"
    "if pc = pc_recvg c then base' = base
     else \<exists>A. base' = A # base \<and> m_pc A = pc \<and> m_active_mask A = g \<and> m_recvg_pc A = pc_recvg c \<and>
       m_type A = STACK_ENTRY_TYPE_NORMAL"
proof -
  obtain x where x: "ps_stack p = x # base" "m_type x = STACK_ENTRY_TYPE_NORMAL" using assms(1) by (auto simp: slot_def)
  show ?thesis
  proof (cases "pc = pc_recvg c")
    case True
    then have "\<exists>p'. add_path c pc g p = Some p' \<and> ps_paths p' = ps_paths p \<and> slot c base p'"
      using assms x by (cases "ps_diverged p"; cases "pc_top_type c")
        (auto simp: add_path_def diverge_def slot_def with_back_def Let_def)
    then show ?thesis using that True by auto
  next
    case False
    let ?A = "x\<lparr>m_pc := pc, m_active_mask := g, m_calldepth := 0, m_recvg_pc := pc_recvg c\<rparr>"
    have "\<exists>p'. add_path c pc g p = Some p' \<and> ps_paths p' = ps_paths p \<and> slot c (?A # base) p'"
      using assms x False by (cases "ps_diverged p"; cases "pc_top_type c")
        (auto simp: add_path_def diverge_def slot_def with_back_def Let_def fresh_entry_def)
    then show ?thesis using that[of _ "?A # base"] False x(2) by auto
  qed
qed


text \<open>
  The two groups of a divergence. \<open>base_ok\<close> is what holds of the entries below the slot: the threads
  of the groups already pushed are at their next pc, those of the groups to come at the reconvergence
  pc, all others where they were.
\<close>

definition base_ok :: "nat \<Rightarrow> active_mask \<Rightarrow> u32 list \<Rightarrow> u32 \<Rightarrow> u32 set \<Rightarrow> simt_entry \<Rightarrow> simt_entry list \<Rightarrow> simt_entry list \<Rightarrow> bool" where
  "base_ok n d pcs r todo e rest base =
    (stack_ok n d base \<and>
     (\<forall>i. \<not> bit d i \<longrightarrow>
        (if bit (m_active_mask e) i
         then (if pcs ! i \<in> todo then r \<noteq> null_pc \<longrightarrow> thread_pc base i = Some r else thread_pc base i = Some (pcs ! i))
         else thread_pc base i = thread_pc rest i)))"

lemma base_ok_add:
  assumes b: "base_ok n d pcs r (insert pc todo) e rest base" and pc: "pc \<notin> todo" "pc \<noteq> null_pc"
    and g: "\<And>i. bit g i = goes d pcs (m_active_mask e) pc i" "\<forall>i. bit (m_active_mask e) i \<longrightarrow> i < n"
    and b': "if pc = r then base' = base
      else \<exists>A. base' = A # base \<and> m_pc A = pc \<and> m_active_mask A = g \<and> m_recvg_pc A = r \<and> m_type A = STACK_ENTRY_TYPE_NORMAL"
  shows "base_ok n d pcs r todo e rest base'"
proof (cases "pc = r")
  case True
  then have "base' = base" using b' by simp
  have "if bit (m_active_mask e) i
         then (if pcs ! i \<in> todo then r \<noteq> null_pc \<longrightarrow> thread_pc base i = Some r else thread_pc base i = Some (pcs ! i))
         else thread_pc base i = thread_pc rest i" if "\<not> bit d i" for i
    using b pc that True unfolding base_ok_def by (cases "pcs ! i = r") auto
  then show ?thesis using b \<open>base' = base\<close> by (simp add: base_ok_def)
next
  case False
  then obtain A where A: "base' = A # base" "m_pc A = pc" "m_active_mask A = g" "m_recvg_pc A = r"
      "m_type A = STACK_ENTRY_TYPE_NORMAL" using b' by auto
  have t: "thread_pc base' i = (if bit (m_active_mask e) i \<and> \<not> bit d i \<and> pcs ! i = pc then Some pc else thread_pc base i)" for i
    by (simp add: A g(1) goes_def)
  have "entry_ok d A base"
  proof (rule entry_ok_normal[OF A(5)])
    fix i assume "m_recvg_pc A \<noteq> null_pc" "live d (m_active_mask A) i"
    then have "r \<noteq> null_pc" "bit (m_active_mask e) i" "\<not> bit d i" "pcs ! i = pc" using A g(1) by (auto simp: live_def goes_def)
    then show "thread_pc base i = Some (m_recvg_pc A)" using b A(4) unfolding base_ok_def by auto
  qed
  moreover have "\<forall>i. bit (m_active_mask A) i \<longrightarrow> i < n" using g A(3) by (auto simp: goes_def)
  ultimately have "stack_ok n d base'" using b by (simp add: A(1) base_ok_def)
  moreover have "if bit (m_active_mask e) i
         then (if pcs ! i \<in> todo then r \<noteq> null_pc \<longrightarrow> thread_pc base' i = Some r else thread_pc base' i = Some (pcs ! i))
         else thread_pc base' i = thread_pc rest i" if "\<not> bit d i" for i
    using b that pc(1) unfolding base_ok_def t by (cases "bit (m_active_mask e) i"; cases "pcs ! i = pc") auto
  ultimately show ?thesis by (simp add: base_ok_def)
qed

lemma base_ok_start:
  assumes "stack_ok n d (e # rest)" "m_type e = STACK_ENTRY_TYPE_NORMAL"
    and "\<And>i. live d (m_active_mask e) i \<Longrightarrow> pcs ! i \<in> todo"
  shows "base_ok n d pcs (m_recvg_pc e) todo e rest rest"
  using assms entry_okD[of d e rest] by (auto simp: base_ok_def live_def)

lemma base_ok_reconverge:
  assumes "stack_ok n d (e # rest)" "m_type R = m_type e" "m_recvg_pc R = m_recvg_pc e" "m_active_mask R = m_active_mask e"
    "m_pc R = r" "\<And>i. live d (m_active_mask e) i \<Longrightarrow> pcs ! i \<in> todo"
  shows "base_ok n d pcs r todo e rest (R # rest)"
  using assms entry_ok_cong[of d e rest R] by (auto simp: base_ok_def live_def)

lemma base_ok_done:
  assumes "base_ok n d pcs r {} e rest base"
  shows "stack_ok n d base \<and> follows d pcs (e # rest) base"
  using assms by (auto simp: base_ok_def follows_def)


section \<open>Every update keeps the threads on their paths\<close>

text \<open>The result of the loop over the groups, and what it means for the stack.\<close>

definition pushed_ok :: "nat \<Rightarrow> active_mask \<Rightarrow> u32 list \<Rightarrow> simt_entry list \<Rightarrow> (bool \<times> push_state) option \<Rightarrow> bool" where
  "pushed_ok n d pcs s res = (\<exists>returned p. res = Some (returned, p) \<and> (\<not> returned \<longrightarrow> ps_stack p \<noteq> []) \<and>
     (let s' = (if returned then ps_stack p else tl (ps_stack p)) in stack_ok n d s' \<and> follows d pcs s s'))"

lemma pushed_ok_returned:
  "res = Some (True, p) \<Longrightarrow> stack_ok n d (ps_stack p) \<Longrightarrow> follows d pcs s (ps_stack p) \<Longrightarrow> pushed_ok n d pcs s res"
  by (auto simp: pushed_ok_def)

lemma pushed_ok_looped:
  "res = Some (False, p) \<Longrightarrow> ps_stack p \<noteq> [] \<Longrightarrow> stack_ok n d (tl (ps_stack p)) \<Longrightarrow> follows d pcs s (tl (ps_stack p)) \<Longrightarrow>
   pushed_ok n d pcs s res"
  by (auto simp: pushed_ok_def)

lemma two_paths:
  assumes "ps_paths p = P" "distinct (map fst P)" "length P = 2"
  obtains a ga b gb where "next_path c 0 p = Some (a, ga, p\<lparr>ps_paths := [(b, gb)]\<rparr>)" "a \<noteq> b" "set P = {(a, ga), (b, gb)}"
    "\<And>p'. ps_paths p' = [(b, gb)] \<Longrightarrow> next_path c (Suc 0) p' = Some (b, gb, p'\<lparr>ps_paths := []\<rparr>)"
proof -
  obtain a1 g1 a2 g2 where P: "P = [(a1, g1), (a2, g2)]" "a1 \<noteq> a2"
    using assms(2,3) by (auto simp: numeral_2_eq_2 length_Suc_conv)
  show ?thesis
  proof (cases "pc_not_taken c = a2")
    case True
    then show ?thesis using that[of a2 g2 a1 g1] assms(1) P by (auto simp: next_path_def)
  next
    case False
    then show ?thesis using that[of a1 g1 a2 g2] assms(1) P by (auto simp: next_path_def)
  qed
qed

lemma slot_start:
  assumes ok: "stack_ok n d (e # rest)"
    and c: "pc_num c = 2" "pc_top_recvg c = m_recvg_pc e" "pc_top_type c = m_type e"
    and p: "\<not> ps_diverged p" "ps_stack p = e # rest"
    and rec: "m_type e = STACK_ENTRY_TYPE_NORMAL \<Longrightarrow> a = m_recvg_pc e \<Longrightarrow> pc_recvg c = m_recvg_pc e"
    and call: "m_type e = STACK_ENTRY_TYPE_CALL \<Longrightarrow> pc_recvg c \<noteq> null_pc"
    and todo: "\<And>i. live d (m_active_mask e) i \<Longrightarrow> pcs ! i \<in> todo"
  obtains p1 base where "add_path c a g p = add_path c a g p1" "ps_paths p1 = ps_paths p" "slot c base p1"
    "base_ok n d pcs (pc_recvg c) todo e rest base"
proof (cases "pc_recvg c = m_recvg_pc e")
  case True
  have "m_type e = STACK_ENTRY_TYPE_NORMAL"
    using ok call True by (cases "m_type e") (auto simp: entry_ok_def)
  then have "slot c rest p" "base_ok n d pcs (pc_recvg c) todo e rest rest"
    using c p True base_ok_start[OF ok _ todo] by (auto simp: slot_def)
  then show ?thesis using that by blast
next
  case False
  let ?R = "e\<lparr>m_pc := pc_recvg c, m_branch_div_cycle := pc_now c\<rparr>"
  let ?p1 = "p\<lparr>ps_diverged := True, ps_new_recvg := pc_recvg c, ps_stack := fresh_entry # ?R # rest\<rparr>"
  have "\<not> (a = m_recvg_pc e \<and> m_type e \<noteq> STACK_ENTRY_TYPE_CALL)" using rec False by (cases "m_type e") auto
  then have "add_path c a g p = add_path c a g ?p1"
    using c p False by (auto simp: add_path_def diverge_def with_back_def Let_def)
  moreover have "slot c (?R # rest) ?p1" by (simp add: slot_def fresh_entry_def)
  moreover have "base_ok n d pcs (pc_recvg c) todo e rest (?R # rest)"
    by (rule base_ok_reconverge[OF ok _ _ _ _ todo]) simp_all
  ultimately show ?thesis using that[of ?p1 "?R # rest"] by simp
qed

lemma push_two:
  assumes ok: "stack_ok n d (e # rest)" "step_ok n d pcs recvg op e"
    and P: "distinct (map fst P)" "fst ` set P = targets d pcs (m_active_mask e)" "length P = 2"
      "\<And>pc g i. (pc, g) \<in> set P \<Longrightarrow> bit g i = goes d pcs (m_active_mask e) pc i"
    and c: "pc_num c = 2" "pc_recvg c = recvg" "pc_op c = op" "pc_top_recvg c = m_recvg_pc e" "pc_top_type c = m_type e"
    and p: "ps_paths p = P" "\<not> ps_diverged p" "ps_stack p = e # rest"
  shows "pushed_ok n d pcs (e # rest) (push_paths c 2 0 p)"
proof -
  let ?ts = "targets d pcs (m_active_mask e)"
  have card: "card ?ts = 2" using P(1-3) by (metis distinct_card length_map set_map)
  note st = ok(2)[unfolded step_ok_def Let_def]
  have op: "op \<noteq> CALL_OPS" "\<not> (op = RET_OPS \<and> m_type e = STACK_ENTRY_TYPE_CALL)"
    and rec: "\<And>a. a \<in> ?ts \<Longrightarrow> m_type e = STACK_ENTRY_TYPE_NORMAL \<Longrightarrow> a = m_recvg_pc e \<Longrightarrow> recvg = m_recvg_pc e"
    and call: "m_type e = STACK_ENTRY_TYPE_CALL \<Longrightarrow> recvg \<noteq> null_pc"
    and nn: "\<And>a. a \<in> ?ts \<Longrightarrow> a \<noteq> null_pc"
    using st card by (auto simp: targets_def)
  have n: "\<forall>i. bit (m_active_mask e) i \<longrightarrow> i < n" using ok(1) by simp
  obtain a ga b gb where ab: "next_path c 0 p = Some (a, ga, p\<lparr>ps_paths := [(b, gb)]\<rparr>)" "a \<noteq> b" "set P = {(a, ga), (b, gb)}"
    and nb: "\<And>p'. ps_paths p' = [(b, gb)] \<Longrightarrow> next_path c (Suc 0) p' = Some (b, gb, p'\<lparr>ps_paths := []\<rparr>)"
    using two_paths[OF p(1) P(1,3)] by metis
  have ts: "?ts = {a, b}" "a \<in> ?ts" "b \<in> ?ts" using P(2) ab(3) by auto
  have todo: "live d (m_active_mask e) i \<Longrightarrow> pcs ! i \<in> insert a (insert b {})" for i
    using ts(1) by (auto simp: targets_def)
  let ?p = "p\<lparr>ps_paths := [(b, gb)]\<rparr>"
  obtain p1 base1 where 1: "add_path c a ga ?p = add_path c a ga p1" "ps_paths p1 = ps_paths ?p" "slot c base1 p1"
      "base_ok n d pcs (pc_recvg c) (insert a (insert b {})) e rest base1"
    using slot_start[OF ok(1) c(1,4,5), where p = ?p and a = a and g = ga and todo = "insert a (insert b {})" and pcs = pcs]
      p(2,3) rec[OF ts(2)] call c(2) todo by auto
  obtain p2 base2 where 2: "add_path c a ga p1 = Some p2" "ps_paths p2 = ps_paths p1" "slot c base2 p2"
      "if a = pc_recvg c then base2 = base1
       else \<exists>A. base2 = A # base1 \<and> m_pc A = a \<and> m_active_mask A = ga \<and> m_recvg_pc A = pc_recvg c \<and> m_type A = STACK_ENTRY_TYPE_NORMAL"
    using slot_step[OF 1(3) c(1), of a ga] rec[OF ts(2)] c by metis
  have ok2: "base_ok n d pcs (pc_recvg c) (insert b {}) e rest base2"
    by (rule base_ok_add[OF 1(4) _ nn[OF ts(2)] _ n 2(4)]) (use ab(2,3) P(4) in auto)
  let ?p2 = "p2\<lparr>ps_paths := []\<rparr>"
  have "slot c base2 ?p2" using 2(3) by (simp add: slot_def)
  from slot_step[OF this c(1), of b gb] rec[OF ts(3)] c
  obtain p3 base3 where 3: "add_path c b gb ?p2 = Some p3" "slot c base3 p3"
      "if b = pc_recvg c then base3 = base2
       else \<exists>A. base3 = A # base2 \<and> m_pc A = b \<and> m_active_mask A = gb \<and> m_recvg_pc A = pc_recvg c \<and> m_type A = STACK_ENTRY_TYPE_NORMAL"
    by metis
  have "base_ok n d pcs (pc_recvg c) {} e rest base3"
    by (rule base_ok_add[OF ok2 _ nn[OF ts(3)] _ n 3(3)]) (use ab(3) P(4) in auto)
  note fin = base_ok_done[OF this]
  have "push_paths c 2 0 p = Some (False, p3)"
    using ab(1) op c(3,5) 1(1,2) 2(1,2) nb[of p2] 3(1)
    by (cases "op = RET_OPS") (simp_all add: numeral_2_eq_2)
  moreover have "ps_stack p3 \<noteq> [] \<and> tl (ps_stack p3) = base3" using 3(2) by (auto simp: slot_def)
  ultimately show ?thesis using fin pushed_ok_looped by metis
qed


lemma push_none:
  assumes "stack_ok n d (e # rest)" "targets d pcs (m_active_mask e) = {}" "ps_stack p = e # rest"
  shows "pushed_ok n d pcs (e # rest) (push_paths c 0 0 p)"
proof -
  have "\<not> live d (m_active_mask e) i" for i using assms(2) by (auto simp: targets_def)
  then show ?thesis using assms(1,3) by (auto simp: pushed_ok_def follows_def live_def)
qed

text \<open>A return to the caller: its live threads are those of the call entry.\<close>

lemma pop_call_ok:
  assumes ok: "stack_ok n d (e # rest)" "m_type e = STACK_ENTRY_TYPE_CALL" "a \<noteq> null_pc"
    and one: "\<And>i. live d (m_active_mask e) i \<Longrightarrow> pcs ! i = a"
    and p: "ps_stack p = e # rest" "pc_num c = 1"
  shows "pushed_ok n d pcs (e # rest) (Option.bind (pop_call c a p) (\<lambda>p. Some (True, p)))"
proof -
  obtain f rest' where rest: "rest = f # rest'" using ok(1,2) by (cases rest) (auto simp: entry_ok_def)
  have same: "live d (m_active_mask f) i = live d (m_active_mask e) i" for i
    using ok(1,2) by (auto simp: entry_ok_def rest)
  let ?f = "f\<lparr>m_pc := a\<rparr>"
  have f: "entry_ok d f rest'" "stack_ok n d rest'" "\<forall>i. bit (m_active_mask f) i \<longrightarrow> i < n" using ok(1) by (auto simp: rest)
  have kept: "entry_ok d ?f rest'" by (rule entry_ok_cong[OF f(1)]) simp_all
  have th: "thread_pc (e # rest) i = thread_pc rest' i" if "\<not> bit d i" "\<not> bit (m_active_mask e) i" for i
    using that same[of i] by (auto simp: rest live_def)
  show ?thesis
  proof (cases "a = m_recvg_pc f \<and> m_type f \<noteq> STACK_ENTRY_TYPE_CALL")
    case True
    then have "m_type f = STACK_ENTRY_TYPE_NORMAL" by (cases "m_type f") auto
    then have "thread_pc rest' i = Some a" if "live d (m_active_mask e) i" for i
      using entry_okD[OF f(1), of i] True ok(3) same that by simp
    then have "follows d pcs (e # rest) rest'"
      using th one by (auto simp: follows_def live_def)
    moreover have res: "Option.bind (pop_call c a p) (\<lambda>p. Some (True, p)) = Some (True, p\<lparr>ps_stack := rest'\<rparr>)"
      using True p by (simp add: pop_call_def with_back_def rest Let_def)
    ultimately show ?thesis using f(2) by (intro pushed_ok_returned[OF res]) simp_all
  next
    case False
    have "follows d pcs (e # rest) (?f # rest')"
      using th one same by (auto simp: follows_def live_def)
    moreover have res: "Option.bind (pop_call c a p) (\<lambda>p. Some (True, p)) = Some (True, p\<lparr>ps_stack := ?f # rest'\<rparr>)"
      using False p by (auto simp: pop_call_def with_back_def rest Let_def)
    ultimately show ?thesis using f(2,3) kept by (intro pushed_ok_returned[OF res]) simp_all
  qed
qed

lemma push_one:
  assumes ok: "stack_ok n d (e # rest)" "a \<noteq> null_pc" and P: "P = [(a, g)]" "targets d pcs (m_active_mask e) = {a}"
      "\<And>i. bit g i = goes d pcs (m_active_mask e) a i"
    and c: "pc_num c = 1" "pc_top_recvg c = m_recvg_pc e" "pc_top_type c = m_type e"
    and p: "ps_paths p = P" "\<not> ps_diverged p" "ps_stack p = e # rest"
  shows "pushed_ok n d pcs (e # rest) (push_paths c 1 0 p)"
proof -
  have one: "pcs ! i = a" if "live d (m_active_mask e) i" for i using P(2) that by (auto simp: targets_def)
  have g: "bit g i = live d (m_active_mask e) i" for i using P(3) one by (auto simp: goes_def live_def)
  have gn: "\<forall>i. bit g i \<longrightarrow> i < n" using ok(1) by (auto simp: g live_def)
  let ?p = "p\<lparr>ps_paths := []\<rparr>"
  have np: "next_path c 0 p = Some (a, g, ?p)" using p(1) P(1) by (auto simp: next_path_def)
  consider (call) "pc_op c = CALL_OPS"
    | (ret) "pc_op c \<noteq> CALL_OPS" "pc_op c = RET_OPS" "m_type e = STACK_ENTRY_TYPE_CALL"
    | (converge) "pc_op c \<noteq> CALL_OPS" "\<not> (pc_op c = RET_OPS \<and> m_type e = STACK_ENTRY_TYPE_CALL)"
        "a = m_recvg_pc e" "m_type e = STACK_ENTRY_TYPE_NORMAL"
    | (go) "pc_op c \<noteq> CALL_OPS" "\<not> (pc_op c = RET_OPS \<and> m_type e = STACK_ENTRY_TYPE_CALL)"
        "\<not> (a = m_recvg_pc e \<and> m_type e \<noteq> STACK_ENTRY_TYPE_CALL)"
    by (cases "m_type e") auto
  then show ?thesis
  proof cases
    case call
    let ?C = "fresh_entry\<lparr>m_pc := a, m_active_mask := g, m_branch_div_cycle := pc_now c, m_type := STACK_ENTRY_TYPE_CALL\<rparr>"
    have res: "push_paths c 1 0 p = Some (True, ?p\<lparr>ps_stack := ?C # e # rest\<rparr>)"
      using np call c(1) p(3) by (simp add: push_call_def)
    moreover have "entry_ok d ?C (e # rest)" by (simp add: entry_ok_def fresh_entry_def g live_def)
    moreover have "follows d pcs (e # rest) (?C # e # rest)"
      using one by (auto simp: follows_def g live_def)
    ultimately show ?thesis using ok(1) gn by (intro pushed_ok_returned[OF res]) simp_all
  next
    case ret
    then show ?thesis
      using np pop_call_ok[OF ok(1) ret(3) ok(2) one, where p = ?p and c = c] p(3) c by simp
  next
    case converge
    have "thread_pc rest i = Some a" if "live d (m_active_mask e) i" for i
      using entry_okD[of d e rest i] ok converge(3,4) that by simp
    then have "follows d pcs (e # rest) rest" using one by (auto simp: follows_def live_def)
    moreover have res: "push_paths c 1 0 p = Some (False, ?p)"
      using np converge c by (simp add: add_path_def)
    ultimately show ?thesis using ok(1) p(3) by (intro pushed_ok_looped[OF res]) simp_all
  next
    case go
    let ?e = "e\<lparr>m_pc := a, m_active_mask := g, m_recvg_pc := m_recvg_pc e\<rparr>"
    have res: "push_paths c 1 0 p = Some (False, ?p\<lparr>ps_stack := fresh_entry # ?e # rest\<rparr>)"
      using np go c p(2,3) by (auto simp: add_path_def diverge_def with_back_def)
    moreover have "entry_ok d ?e rest"
      by (rule entry_ok_cong[of d e]) (use ok(1) in \<open>auto simp: live_def g\<close>)
    moreover have "follows d pcs (e # rest) (?e # rest)"
      using one by (auto simp: follows_def g live_def)
    ultimately show ?thesis using ok(1) gn by (intro pushed_ok_looped[OF res]) simp_all
  qed
qed

lemma simt_update_ok:
  assumes "m_stack s = e # rest" "stack_ok (m_warp_size s) d (m_stack s)" "m_warp_size s \<le> MAX_WARP_SIZE"
    and "step_ok (m_warp_size s) d pcs recvg op e" "m_active_mask e \<noteq> 0" "length pcs = m_warp_size s"
  shows "\<exists>diverged s'. simt_update d pcs recvg op sz (m_pc e) now s = Some (diverged, s') \<and>
    m_warp_size s' = m_warp_size s \<and> stack_ok (m_warp_size s') d (m_stack s') \<and>
    follows d pcs (m_stack s) (m_stack s')"
proof -
  let ?n = "m_warp_size s" and ?ts = "targets d pcs (m_active_mask e)"
  have ok: "stack_ok ?n d (e # rest)" using assms(1,2) by simp
  have nn: "live d (m_active_mask e) i \<Longrightarrow> pcs ! i \<noteq> null_pc" for i using assms(4) by (auto simp: step_ok_def Let_def)
  obtain P where P: "split_paths d pcs ?n (m_active_mask e) [] 0 = Some (P, length P)" "distinct (map fst P)"
    "fst ` set P = ?ts" "\<And>pc g i. (pc, g) \<in> set P \<Longrightarrow> bit g i = goes d pcs (m_active_mask e) pc i" "length P = card ?ts"
    using split_paths_start[of ?n "m_active_mask e" d pcs] assms(3) ok nn by auto
  let ?c = "\<lparr>pc_num = length P, pc_not_taken = m_pc e + sz, pc_recvg = recvg, pc_op = op,
        pc_top_recvg = m_recvg_pc e, pc_top_type = m_type e, pc_now = now\<rparr>"
  let ?p = "\<lparr>ps_paths = P, ps_diverged = False, ps_new_recvg = null_pc, ps_stack = e # rest\<rparr>"
  have le: "length P \<le> 2" using assms(4) P(5) by (simp add: step_ok_def Let_def)
  have "pushed_ok ?n d pcs (e # rest) (push_paths ?c (length P) 0 ?p)"
  proof -
    consider "P = []" | a g where "P = [(a, g)]" | "length P = 2"
      using le by (cases P; cases "tl P") auto
    then show ?thesis
    proof cases
      case 1
      then show ?thesis using push_none[OF ok, of pcs ?p ?c] P(3) by simp
    next
      case (2 a g)
      then have ts: "?ts = {a}" using P(3) by simp
      then have "a \<noteq> null_pc" using nn by (auto simp: targets_def)
      from push_one[OF ok this 2 ts, of ?c ?p] P(4)[of a g] 2 show ?thesis by simp
    next
      case 3
      from push_two[OF ok assms(4) P(2,3) 3 P(4), of ?c ?p] 3 show ?thesis by simp
    qed
  qed
  then obtain returned p where p: "push_paths ?c (length P) 0 ?p = Some (returned, p)"
    "\<not> returned \<longrightarrow> ps_stack p \<noteq> []"
    "let s' = (if returned then ps_stack p else tl (ps_stack p)) in stack_ok ?n d s' \<and> follows d pcs (e # rest) s'"
    by (auto simp: pushed_ok_def)
  have "simt_update d pcs recvg op sz (m_pc e) now s =
      (if returned then Some (False, s\<lparr>m_stack := ps_stack p\<rparr>)
       else do { ensure (ps_stack p \<noteq> []); Some (ps_diverged p, s\<lparr>m_stack := tl (ps_stack p)\<rparr>) })"
    using assms(1,3,5,6) P(1) p(1) le by (simp add: simt_update_def deque_back_def)
  then show ?thesis using p(2,3) assms(1) by (cases returned) (auto simp: Let_def)
qed


text \<open>
  C12: under the invariant, and for an instruction that satisfies \<open>step_ok\<close>, an update of the
  divergence stack never fails and keeps the invariant, and
  every live thread that ran the instruction is afterwards at its own next pc while every other live
  thread stays where it was, through divergence, reconvergence, calls and returns.
\<close>

theorem simt_update_follows_threads:
  assumes "m_stack s = e # rest" "stack_ok (m_warp_size s) d (m_stack s)" "m_warp_size s \<le> MAX_WARP_SIZE"
    and "step_ok (m_warp_size s) d pcs recvg op e" "m_active_mask e \<noteq> 0" "length pcs = m_warp_size s"
  shows "\<exists>diverged s'. simt_update d pcs recvg op sz (m_pc e) now s = Some (diverged, s') \<and>
    m_warp_size s' = m_warp_size s \<and> stack_ok (m_warp_size s') d (m_stack s') \<and>
    follows d pcs (m_stack s) (m_stack s')"
  by (rule simt_update_ok[OF assms])

text \<open>A warp of two threads whose branch sends them to 8 and 16, to meet again at 24.\<close>

definition both_lanes :: active_mask where
  "both_lanes = 3"

definition two_threads :: simt_stack where
  "two_threads = simt_launch 0 both_lanes (simt_new 0 2)"

lemma two_threads_simps:
  "m_stack two_threads = [fresh_entry\<lparr>m_pc := 0, m_calldepth := 1, m_active_mask := both_lanes\<rparr>]" "m_warp_size two_threads = 2"
  by (simp_all add: two_threads_def simt_launch_def simt_reset_def simt_new_def)

lemma bit_both: "bit both_lanes i = (i < 2)"
proof -
  have eq: "both_lanes = mask 2" by (simp add: both_lanes_def mask_numeral)
  show ?thesis unfolding eq by (auto simp: bit_mask_iff)
qed

lemma both_lanes_nonzero: "both_lanes \<noteq> 0"
  by (simp add: both_lanes_def)

lemma launched_ok: "(\<And>i. bit m i \<Longrightarrow> i < n) \<Longrightarrow> stack_ok n d (m_stack (simt_launch pc m (simt_new wid n)))"
  by (simp add: simt_launch_def simt_reset_def simt_new_def fresh_entry_def entry_ok_def)

lemma two_threads_step: "step_ok 2 0 [8, 16] 24 BRANCH_OP (hd (m_stack two_threads))"
proof -
  have l: "live 0 both_lanes i = (i < 2)" for i by (simp add: live_def bit_both)
  have "{i :: nat. i < 2} = {0, Suc 0}" by auto
  then have t: "targets 0 [8, 16] both_lanes = {8, 16}" by (simp add: targets_def l)
  have "[8, 16] ! i \<noteq> null_pc" if "i < 2" for i
    using that by (cases i) (auto simp: less_Suc_eq)
  then show ?thesis
    by (simp add: step_ok_def Let_def two_threads_simps fresh_entry_def l t)
qed

theorem simt_update_follows_threads_witness:
  "\<exists>diverged s'. simt_update 0 [8, 16] 24 BRANCH_OP 8 0 5 two_threads = Some (diverged, s') \<and>
     thread_pc (m_stack s') 0 = Some 8 \<and> thread_pc (m_stack s') 1 = Some 16"
proof -
  let ?e = "fresh_entry\<lparr>m_pc := 0, m_calldepth := 1, m_active_mask := both_lanes\<rparr>"
  have "m_stack two_threads = ?e # []" by (simp add: two_threads_simps)
  moreover have "stack_ok (m_warp_size two_threads) 0 (m_stack two_threads)"
    unfolding two_threads_simps(2) unfolding two_threads_def by (rule launched_ok) (simp add: bit_both)
  moreover have "step_ok (m_warp_size two_threads) 0 [8, 16] 24 BRANCH_OP ?e"
    using two_threads_step by (simp add: two_threads_simps)
  ultimately obtain b s' where s': "simt_update 0 [8, 16] 24 BRANCH_OP 8 (m_pc ?e) 5 two_threads = Some (b, s')"
    "follows 0 [8, 16] (m_stack two_threads) (m_stack s')"
    using simt_update_follows_threads[of two_threads ?e "[]" 0 "[8, 16]" 24 BRANCH_OP 8 5]
    by (auto simp: two_threads_simps both_lanes_nonzero)
  then show ?thesis by (auto simp: follows_def two_threads_simps bit_both)
qed

text \<open>
  Without \<open>step_ok\<close>: the top entry reconverges at 24, and a branch with the reconvergence pc 32 sends
  thread 0 to 24 and thread 1 to 16. Thread 0 is left at 32.
\<close>

definition nested_branch :: simt_stack where
  "nested_branch = \<lparr>m_warp_id = 0, m_warp_size = 2, m_stack =
     [fresh_entry\<lparr>m_pc := 8, m_active_mask := both_lanes, m_recvg_pc := 24\<rparr>,
      fresh_entry\<lparr>m_pc := 24, m_calldepth := 1, m_active_mask := both_lanes\<rparr>]\<rparr>"

lemma nested_split: "split_paths 0 [24, 16] 2 both_lanes [] 0 = Some ([(16, 2), (24, 1)], 2)"
proof -
  have "same_pc_group 0 [24, 16] 2 (both_lanes, null_pc, 0) = (1, 16, 2)"
    "same_pc_group 0 [24, 16] 2 (1, null_pc, 0) = (0, 24, 1)"
    "om_put 24 1 (om_put 16 2 []) = [(16 :: u32, 2 :: active_mask), (24, 1)]" by code_simp+
  moreover have "split_paths 0 [24, 16] 2 0 ps n = Some (ps, n)" for ps n by (subst split_paths.simps) simp
  ultimately show ?thesis
    using both_lanes_nonzero by (subst split_paths.simps, simp, subst split_paths.simps, simp)
qed

lemma nested_paths:
  "map_option (\<lambda>(r, p). (r, map (thread_pc (tl (ps_stack p))) [0, 1], ps_stack p \<noteq> []))
    (push_paths \<lparr>pc_num = 2, pc_not_taken = 16, pc_recvg = 32, pc_op = BRANCH_OP, pc_top_recvg = 24,
       pc_top_type = STACK_ENTRY_TYPE_NORMAL, pc_now = 5\<rparr> 2 0
     \<lparr>ps_paths = [(16, 2), (24, 1)], ps_diverged = False, ps_new_recvg = null_pc, ps_stack = m_stack nested_branch\<rparr>) =
   Some (False, [Some 32, Some 16], True)"
  by code_simp

lemma wrong_reconvergence_misplaces_thread:
  "stack_ok 2 0 (m_stack nested_branch)"
  "map_option (\<lambda>(b, s). map (thread_pc (m_stack s)) [0, 1]) (simt_update 0 [24, 16] 32 BRANCH_OP 8 8 5 nested_branch) =
     Some [Some 32, Some 16]"
proof -
  show "stack_ok 2 0 (m_stack nested_branch)"
    by (auto simp: nested_branch_def entry_ok_def fresh_entry_def live_def bit_both)
  show "map_option (\<lambda>(b, s). map (thread_pc (m_stack s)) [0, 1]) (simt_update 0 [24, 16] 32 BRANCH_OP 8 8 5 nested_branch) =
     Some [Some 32, Some 16]"
  proof -
    obtain p where "push_paths \<lparr>pc_num = 2, pc_not_taken = 16, pc_recvg = 32, pc_op = BRANCH_OP, pc_top_recvg = 24,
        pc_top_type = STACK_ENTRY_TYPE_NORMAL, pc_now = 5\<rparr> 2 0 \<lparr>ps_paths = [(16, 2), (24, 1)], ps_diverged = False,
        ps_new_recvg = null_pc, ps_stack = m_stack nested_branch\<rparr> = Some (False, p)"
      and p: "map (thread_pc (tl (ps_stack p))) [0, 1] = [Some 32, Some 16]" "ps_stack p \<noteq> []"
      using nested_paths by auto
    then have "simt_update 0 [24, 16] 32 BRANCH_OP 8 8 5 nested_branch =
        Some (ps_diverged p, nested_branch\<lparr>m_stack := tl (ps_stack p)\<rparr>)"
      by (simp add: simt_update_def nested_branch_def deque_back_def nested_split both_lanes_nonzero fresh_entry_def)
    then show ?thesis using p by simp
  qed
qed

section \<open>A warp runs every one of its threads\<close>

text \<open>
  \<open>T i k\<close> is the pc of the \<open>k\<close>-th instruction of thread \<open>i\<close>. The state of a warp is its stack, the
  threads that are done, and how many instructions each thread has executed; a step executes the
  instruction at the top of the stack for the threads of the top entry.
\<close>

inductive warp_step ::
  "(nat \<Rightarrow> nat \<Rightarrow> u32) \<Rightarrow> simt_stack \<times> active_mask \<times> (nat \<Rightarrow> nat) \<Rightarrow> simt_stack \<times> active_mask \<times> (nat \<Rightarrow> nat) \<Rightarrow> bool"
  for T where
    "m_stack s = e # rest \<Longrightarrow> more_done d d' \<Longrightarrow> m_active_mask e \<noteq> 0 \<Longrightarrow> length pcs = m_warp_size s \<Longrightarrow>
     step_ok (m_warp_size s) d' pcs recvg op e \<Longrightarrow>
     (\<forall>i. live d' (m_active_mask e) i \<longrightarrow> pcs ! i = T i (Suc (c i))) \<Longrightarrow>
     simt_update d' pcs recvg op sz (m_pc e) now s = Some (b, s') \<Longrightarrow>
     warp_step T (s, d, c) (s', d', \<lambda>i. if bit (m_active_mask e) i then Suc (c i) else c i)"

inductive_cases warp_stepE: "warp_step T (s, d, c) (s', d', c')"

definition warp_ok :: "(nat \<Rightarrow> nat \<Rightarrow> u32) \<Rightarrow> active_mask \<Rightarrow> simt_stack \<times> active_mask \<times> (nat \<Rightarrow> nat) \<Rightarrow> bool" where
  "warp_ok T m = (\<lambda>(s, d, c). m_warp_size s \<le> MAX_WARP_SIZE \<and> stack_ok (m_warp_size s) d (m_stack s) \<and>
     (\<forall>i. bit m i \<and> \<not> bit d i \<longrightarrow> thread_pc (m_stack s) i = Some (T i (c i))))"

lemma warp_step_ok: "warp_step T x y \<Longrightarrow> warp_ok T m x \<Longrightarrow> warp_ok T m y"
proof (induction rule: warp_step.induct)
  case (1 s e rest d d' pcs recvg op c sz now b s')
  have w: "m_warp_size s \<le> MAX_WARP_SIZE" "stack_ok (m_warp_size s) d' (m_stack s)"
    using 1(8) stack_ok_mono[OF 1(2)] by (auto simp: warp_ok_def)
  have s': "m_warp_size s' = m_warp_size s" "stack_ok (m_warp_size s') d' (m_stack s')" "follows d' pcs (m_stack s) (m_stack s')"
    using simt_update_ok[OF 1(1) w(2,1) 1(5,3,4), of sz now] 1(7) by auto
  have "thread_pc (m_stack s') i = Some (T i (if bit (m_active_mask e) i then Suc (c i) else c i))"
    if "bit m i" "\<not> bit d' i" for i
  proof -
    have "thread_pc (m_stack s) i = Some (T i (c i))" using 1(2,8) that by (auto simp: warp_ok_def more_done_def)
    then show ?thesis using s'(3) 1(1,6) that(2) by (auto simp: follows_def live_def)
  qed
  then show ?case using s' w by (simp add: warp_ok_def)
qed


text \<open>
  C2: a warp runs every one of its threads along the thread's own path, as long as every instruction it
  executes satisfies \<open>step_ok\<close>: the live threads go to at most two pcs, none of them null, and to one
  on a call and on the return from a call entry; and the reconvergence pc of a branch fits the top
  entry, which means that when some of the threads go straight to the reconvergence pc of that entry the
  branch has the same reconvergence pc. Reconvergence pcs that are immediate post-dominators are such;
  for others the claim fails, as \<open>wrong_reconvergence_misplaces_thread\<close> shows. Under this restriction,
  in every reachable state, and whatever the order in which threads finish, each live thread is at the
  instruction of its trace that its own count of executed instructions names, as if it had run alone;
  so no thread skips or repeats an instruction, and none is lost from the stack.
\<close>

theorem warp_runs_every_thread:
  assumes "(warp_step T)\<^sup>*\<^sup>* (simt_launch pc0 m (simt_new wid n), d0, \<lambda>_. 0) (s, d, c)"
    and "n \<le> MAX_WARP_SIZE" "\<forall>i. bit m i \<longrightarrow> i < n \<and> T i 0 = pc0"
  shows "\<forall>i. bit m i \<and> \<not> bit d i \<longrightarrow> thread_pc (m_stack s) i = Some (T i (c i))"
proof -
  have "warp_ok T m (simt_launch pc0 m (simt_new wid n), d0, \<lambda>_. 0)"
    using assms(2,3) launched_ok[of m n d0 pc0 wid]
    by (simp add: warp_ok_def simt_launch_def simt_reset_def simt_new_def fresh_entry_def)
  with assms(1) have "warp_ok T m (s, d, c)"
    by (induction rule: rtranclp_induct) (auto intro: warp_step_ok)
  then show ?thesis by (simp add: warp_ok_def)
qed

theorem warp_runs_every_thread_witness:
  "\<exists>s. (warp_step (\<lambda>i k. if k = 0 then 0 else [8, 16] ! i))\<^sup>*\<^sup>* (two_threads, 0, \<lambda>_. 0)
         (s, 0, \<lambda>i. if bit both_lanes i then 1 else 0) \<and>
       thread_pc (m_stack s) 0 = Some 8 \<and> thread_pc (m_stack s) 1 = Some 16"
proof -
  let ?T = "\<lambda>i k. if k = 0 then 0 else [8, 16 :: u32] ! i" and ?e = "fresh_entry\<lparr>m_pc := 0, m_calldepth := 1, m_active_mask := both_lanes\<rparr>"
  have e: "m_stack two_threads = ?e # []" by (simp add: two_threads_simps)
  have st: "step_ok (m_warp_size two_threads) 0 [8, 16] 24 BRANCH_OP ?e"
    using two_threads_step by (simp add: two_threads_simps)
  have nz: "m_active_mask ?e \<noteq> 0" by (simp add: both_lanes_nonzero)
  have len: "length [8, 16 :: u32] = m_warp_size two_threads" by (simp add: two_threads_simps)
  have ok: "stack_ok (m_warp_size two_threads) 0 (m_stack two_threads)"
    unfolding two_threads_simps(2) unfolding two_threads_def by (rule launched_ok) (simp add: bit_both)
  obtain b s' where s': "simt_update 0 [8, 16] 24 BRANCH_OP 8 (m_pc ?e) 5 two_threads = Some (b, s')"
    using simt_update_ok[OF e ok _ st nz len, of 8 5] by (auto simp: two_threads_simps)
  have "warp_step ?T (two_threads, 0, \<lambda>_. 0) (s', 0, \<lambda>i. if bit (m_active_mask ?e) i then Suc 0 else 0)"
    using warp_step.intros[OF e _ nz len st _ s', of 0 ?T "\<lambda>_. 0"] by (simp add: more_done_def)
  then have run: "(warp_step ?T)\<^sup>*\<^sup>* (two_threads, 0, \<lambda>_. 0) (s', 0, \<lambda>i. if bit both_lanes i then 1 else 0)"
    unfolding One_nat_def by (intro r_into_rtranclp) simp
  have pre: "(2 :: nat) \<le> MAX_WARP_SIZE" "\<forall>i. bit both_lanes i \<longrightarrow> i < 2 \<and> ?T i 0 = 0" by (simp_all add: bit_both)
  note warp_runs_every_thread[OF run[unfolded two_threads_def] pre]
  then have "thread_pc (m_stack s') 0 = Some 8" "thread_pc (m_stack s') 1 = Some 16" by (simp_all add: bit_both)
  then show ?thesis using run by blast
qed

end
