(* ===== verification/Coalesce.thy ===== *)
theory Coalesce
  imports Omap WarpInst
begin

text \<open>
  The memory accesses of a warp instruction (\<open>warp_inst_t::generate_mem_accesses\<close> and the coalescing
  functions of \<open>abstract_hardware_model.cc\<close>): bank conflicts of shared memory, the blocks a constant
  or texture access touches, and the coalescing of global and local accesses into segments. The
  statistics calls are left out. A bit set index outside its size stops the model, as
  \<open>std::bitset::set\<close> throws.
\<close>

unbundle bit_operations_syntax

section \<open>Configuration and transactions\<close>

record core_config =
  warp_size :: nat
  gpgpu_coalesce_arch :: int
  shmem_limited_broadcast :: bool
  num_shmem_bank :: u32
  mem_warp_parts :: nat
  gpgpu_cache_texl1_linesize :: u32
  gpgpu_cache_constl1_linesize :: u32
  gmem_skip_L1D :: bool

abbreviation WORD_SIZE :: u32 where "WORD_SIZE \<equiv> 4"

definition shmem_bank_func :: "core_config \<Rightarrow> u32 \<Rightarrow> u32 option" where
  "shmem_bank_func cfg addr = do { ensure (num_shmem_bank cfg \<noteq> 0); Some ((addr div WORD_SIZE) mod num_shmem_bank cfg) }"

text \<open>The result type of \<open>line_size_based_tag_func\<close> is 32 bits wide.\<close>

definition line_size_based_tag_func :: "u64 \<Rightarrow> u64 \<Rightarrow> u32" where
  "line_size_based_tag_func address line_size = ucast (address AND NOT (line_size - 1))"

record transaction_info =
  chunks :: sector_mask
  t_bytes :: byte_mask
  t_active :: active_mask

definition new_transaction :: transaction_info where
  "new_transaction = \<lparr>chunks = 0, t_bytes = 0, t_active = 0\<rparr>"

definition mem_access_new ::
  "mem_access_type \<Rightarrow> u64 \<Rightarrow> u32 \<Rightarrow> bool \<Rightarrow> active_mask \<Rightarrow> byte_mask \<Rightarrow> sector_mask \<Rightarrow> mem_access" where
  "mem_access_new ty addr sz wr active bytes sectors =
    \<lparr>ma_addr = addr, ma_write = wr, ma_req_size = sz, ma_type = ty, ma_warp_mask = active,
     ma_byte_mask = bytes, ma_sector_mask = sectors\<rparr>"

definition subwarp_threads :: "core_config \<Rightarrow> nat \<Rightarrow> nat list" where
  "subwarp_threads cfg subwarp =
    (let subwarp_size = warp_size cfg div mem_warp_parts cfg in [subwarp * subwarp_size ..< (subwarp + 1) * subwarp_size])"

section \<open>Segments\<close>

definition sector_segment_size :: "core_config \<Rightarrow> 'a inst_scheme \<Rightarrow> bool" where
  "sector_segment_size cfg w =
    (if 20 \<le> gpgpu_coalesce_arch cfg \<and> gpgpu_coalesce_arch cfg < 39 then gmem_skip_L1D cfg \<or> cache_op w = CACHE_GLOBAL
     else 40 \<le> gpgpu_coalesce_arch cfg)"

definition segment_size :: "core_config \<Rightarrow> 'a inst_scheme \<Rightarrow> u32" where
  "segment_size cfg w =
    (if data_size w = 1 then 32
     else if data_size w = 2 then (if sector_segment_size cfg w then 32 else 64)
     else if data_size w = 4 \<or> data_size w = 8 \<or> data_size w = 16 then (if sector_segment_size cfg w then 32 else 128)
     else 0)"

definition mark_bytes :: "nat \<Rightarrow> nat \<Rightarrow> byte_mask \<Rightarrow> byte_mask" where
  "mark_bytes idx n m = fold (\<lambda>i m. if idx + i < MAX_MEMORY_ACCESS_SIZE then set_bit (idx + i) m else m) [0..<n] m"

definition line_offset :: "u64 \<Rightarrow> nat" where
  "line_offset addr = unat (addr AND 127)"

definition note_access :: "nat \<Rightarrow> u64 \<Rightarrow> u32 \<Rightarrow> transaction_info \<Rightarrow> transaction_info" where
  "note_access thread addr sz t = \<lparr>chunks = set_bit (line_offset addr div 32) (chunks t),
     t_bytes = mark_bytes (line_offset addr) (unat sz) (t_bytes t), t_active = set_bit thread (t_active t)\<rparr>"

definition transaction_of :: "(u64 \<times> transaction_info) list \<Rightarrow> u64 \<Rightarrow> transaction_info" where
  "transaction_of m block = (case map_of m block of Some t \<Rightarrow> t | None \<Rightarrow> new_transaction)"

definition note_at :: "u64 \<Rightarrow> nat \<Rightarrow> u64 \<Rightarrow> u32 \<Rightarrow> (u64 \<times> transaction_info) list \<Rightarrow> (u64 \<times> transaction_info) list" where
  "note_at block thread addr sz m = om_put block (note_access thread addr sz (transaction_of m block)) m"

definition coalesce_access ::
  "u32 \<Rightarrow> u32 \<Rightarrow> nat \<Rightarrow> u64 \<Rightarrow> (u64 \<times> transaction_info) list \<Rightarrow> (u64 \<times> transaction_info) list" where
  "coalesce_access seg sz thread addr m =
    (let block = ucast (line_size_based_tag_func addr (ucast seg));
         m = note_at block thread addr sz m;
         end_addr = addr + ucast sz - 1;
         end_block = ucast (line_size_based_tag_func end_addr (ucast seg))
     in if block \<noteq> end_block then note_at end_block thread end_addr sz m else m)"

definition coalesce_data_size :: "'a inst_scheme \<Rightarrow> u32 \<times> u32" where
  "coalesce_data_size w =
    (if (i_space w = local_space \<or> i_space w = param_space_local) \<and> 4 \<le> data_size w then (4, data_size w div 4)
     else (data_size w, 1))"

definition thread_addrs :: "warp_inst \<Rightarrow> nat \<Rightarrow> u64 list option" where
  "thread_addrs w thread = do {
     as \<leftarrow> at (memreqaddr w) thread;
     Some (takeWhile (\<lambda>a. a \<noteq> 0) (take MAX_ACCESSES_PER_INSN_PER_THREAD as)) }"

definition coalesce_thread :: "core_config \<Rightarrow> warp_inst \<Rightarrow> nat \<Rightarrow> (u64 \<times> transaction_info) list \<Rightarrow> (u64 \<times> transaction_info) list option" where
  "coalesce_thread cfg w thread m =
    (if \<not> w_active w thread then Some m
     else do {
       let (sz, num_accesses) = coalesce_data_size w;
       ensure (unat num_accesses \<le> MAX_ACCESSES_PER_INSN_PER_THREAD);
       as \<leftarrow> thread_addrs w thread;
       Some (fold (coalesce_access (segment_size cfg w) sz thread) as m) })"

text \<open>The part of its segment that a transaction uses.\<close>

definition reduce_half :: "u64 \<Rightarrow> bool \<Rightarrow> bool \<Rightarrow> (u64 \<times> u32) option" where
  "reduce_half addr lower upper =
    (if lower \<and> \<not> upper then Some (addr, 32)
     else if \<not> lower \<and> upper then Some (addr + 32, 32)
     else if lower \<and> upper then Some (addr, 64) else None)"

definition reduce_transaction :: "transaction_info \<Rightarrow> u64 \<Rightarrow> u32 \<Rightarrow> (u64 \<times> u32) option" where
  "reduce_transaction info addr seg = do {
     ensure (addr AND ucast (seg - 1) = 0);
     let q = bit (chunks info);
     ensure (chunks info \<noteq> 0);
     (if seg = 128 then
        (let lower = q 0 \<or> q 1; upper = q 2 \<or> q 3 in
         if lower \<and> \<not> upper then reduce_half addr (q 0) (q 1)
         else if \<not> lower \<and> upper then reduce_half (addr + 64) (q 2) (q 3)
         else if lower \<and> upper then Some (addr, 128) else None)
      else if seg = 64 then
        (if addr mod 128 = 0 then reduce_half addr (q 0) (q 1)
         else if addr mod 128 = 64 then reduce_half addr (q 2) (q 3) else None)
      else Some (addr, seg)) }"

definition reduce_and_send :: "bool \<Rightarrow> mem_access_type \<Rightarrow> u32 \<Rightarrow> u64 \<times> transaction_info \<Rightarrow> warp_inst \<Rightarrow> warp_inst option" where
  "reduce_and_send is_write ty seg = (\<lambda>(addr, info) w. do {
     (addr, sz) \<leftarrow> reduce_transaction info addr seg;
     Some (w\<lparr>accessq := accessq w @ [mem_access_new ty addr sz is_write (t_active info) (t_bytes info) (chunks info)]\<rparr>) })"

definition coalesce_subwarp :: "core_config \<Rightarrow> bool \<Rightarrow> mem_access_type \<Rightarrow> nat \<Rightarrow> warp_inst \<Rightarrow> warp_inst option" where
  "coalesce_subwarp cfg is_write ty subwarp w = do {
     m \<leftarrow> each (coalesce_thread cfg w) (subwarp_threads cfg subwarp) [];
     each (reduce_and_send is_write ty (segment_size cfg w)) m w }"

definition memory_coalescing_arch :: "core_config \<Rightarrow> bool \<Rightarrow> mem_access_type \<Rightarrow> warp_inst \<Rightarrow> warp_inst option" where
  "memory_coalescing_arch cfg is_write ty w = do {
     ensure (mem_warp_parts cfg \<noteq> 0);
     each (coalesce_subwarp cfg is_write ty) [0..<mem_warp_parts cfg] w }"


section \<open>Atomic accesses\<close>

text \<open>The bytes of an atomic access are kept apart: a thread joins the first transaction of its block none of whose bytes it touches.\<close>

fun test_bytes :: "nat \<Rightarrow> nat \<Rightarrow> transaction_info \<Rightarrow> bool option" where
  "test_bytes idx 0 t = Some False"
| "test_bytes idx (Suc n) t = do {
     ensure (idx < MAX_MEMORY_ACCESS_SIZE);
     (if bit (t_bytes t) idx then Some True else test_bytes (idx + 1) n t) }"

fun mark_free_bytes :: "nat \<Rightarrow> nat \<Rightarrow> byte_mask \<Rightarrow> byte_mask option" where
  "mark_free_bytes idx 0 m = Some m"
| "mark_free_bytes idx (Suc n) m = do {
     ensure (idx < MAX_MEMORY_ACCESS_SIZE);
     ensure (\<not> bit m idx);
     mark_free_bytes (idx + 1) n (set_bit idx m) }"

definition note_atomic :: "nat \<Rightarrow> u64 \<Rightarrow> u32 \<Rightarrow> transaction_info \<Rightarrow> transaction_info option" where
  "note_atomic thread addr sz t = do {
     m \<leftarrow> mark_free_bytes (line_offset addr) (unat sz) (t_bytes t);
     Some \<lparr>chunks = set_bit (line_offset addr div 32) (chunks t), t_bytes = m, t_active = set_bit thread (t_active t)\<rparr> }"

fun join_atomic :: "nat \<Rightarrow> u64 \<Rightarrow> u32 \<Rightarrow> transaction_info list \<Rightarrow> transaction_info list option" where
  "join_atomic thread addr sz [] = do { t \<leftarrow> note_atomic thread addr sz new_transaction; Some [t] }"
| "join_atomic thread addr sz (t # ts) = do {
     ensure (sz \<noteq> 0 \<or> line_offset addr \<noteq> 0);   \<comment> \<open>\<open>idx + data_size - 1\<close> wraps otherwise\<close>
     conflict \<leftarrow> test_bytes (line_offset addr) (unat sz) t;
     (if conflict then do { ts \<leftarrow> join_atomic thread addr sz ts; Some (t # ts) }
      else do { t \<leftarrow> note_atomic thread addr sz t; Some (t # ts) }) }"

definition coalesce_atomic_thread ::
  "core_config \<Rightarrow> warp_inst \<Rightarrow> nat \<Rightarrow> (u64 \<times> transaction_info list) list \<Rightarrow> (u64 \<times> transaction_info list) list option" where
  "coalesce_atomic_thread cfg w thread m =
    (if \<not> w_active w thread then Some m
     else do {
       as \<leftarrow> at (memreqaddr w) thread;
       addr \<leftarrow> at as 0;
       let block = line_size_based_tag_func addr (ucast (segment_size cfg w));
       ensure (block = line_size_based_tag_func (addr + ucast (data_size w) - 1) (ucast (segment_size cfg w)));
       ts \<leftarrow> join_atomic thread addr (data_size w) (case map_of m (ucast block) of Some ts \<Rightarrow> ts | None \<Rightarrow> []);
       Some (om_put (ucast block) ts m) })"

definition coalesce_atomic_subwarp :: "core_config \<Rightarrow> bool \<Rightarrow> mem_access_type \<Rightarrow> nat \<Rightarrow> warp_inst \<Rightarrow> warp_inst option" where
  "coalesce_atomic_subwarp cfg is_write ty subwarp w = do {
     m \<leftarrow> each (coalesce_atomic_thread cfg w) (subwarp_threads cfg subwarp) [];
     each (\<lambda>(addr, ts). each (\<lambda>t. reduce_and_send is_write ty (segment_size cfg w) (addr, t)) ts) m w }"

definition memory_coalescing_arch_atomic :: "core_config \<Rightarrow> bool \<Rightarrow> mem_access_type \<Rightarrow> warp_inst \<Rightarrow> warp_inst option" where
  "memory_coalescing_arch_atomic cfg is_write ty w = do {
     ensure (i_space w = global_space);
     ensure (mem_warp_parts cfg \<noteq> 0);
     each (coalesce_atomic_subwarp cfg is_write ty) [0..<mem_warp_parts cfg] w }"

section \<open>Shared memory\<close>

text \<open>How often each word of each bank is accessed.\<close>

type_synonym bank_accs = "(u32 \<times> (u64 \<times> nat) list) list"

definition count_word :: "core_config \<Rightarrow> u64 \<Rightarrow> bank_accs \<Rightarrow> bank_accs option" where
  "count_word cfg addr accs = do {
     bank \<leftarrow> shmem_bank_func cfg (ucast addr);
     let word = ucast (line_size_based_tag_func addr (ucast WORD_SIZE));
     let words = (case map_of accs bank of Some ws \<Rightarrow> ws | None \<Rightarrow> []);
     let n = (case map_of words word of Some n \<Rightarrow> n | None \<Rightarrow> 0);
     Some (om_put bank (om_put word (n + 1) words) accs) }"

definition count_thread :: "core_config \<Rightarrow> warp_inst \<Rightarrow> nat \<Rightarrow> bank_accs \<Rightarrow> bank_accs option" where
  "count_thread cfg w thread accs =
    (if \<not> w_active w thread then Some accs
     else do { as \<leftarrow> at (memreqaddr w) thread; addr \<leftarrow> at as 0; count_word cfg addr accs })"

definition find_broadcast :: "bank_accs \<Rightarrow> (u32 \<times> u64) option" where
  "find_broadcast accs =
    (case filter (\<lambda>(b, ws). list_ex (\<lambda>(w, n). 1 < n) ws) accs of
       [] \<Rightarrow> None
     | (b, ws) # _ \<Rightarrow> (case filter (\<lambda>(w, n). 1 < n) ws of [] \<Rightarrow> None | (w, n) # _ \<Rightarrow> Some (b, w)))"

definition bank_accesses :: "(u32 \<times> u64) option \<Rightarrow> u32 \<times> (u64 \<times> nat) list \<Rightarrow> nat" where
  "bank_accesses broadcast = (\<lambda>(bank, ws).
    (let n = sum_list (map snd ws) in
     case broadcast of
       Some (b, word) \<Rightarrow>
         if b = bank then (case map_of ws word of Some k \<Rightarrow> n - (k - 1) | None \<Rightarrow> n) else n
     | None \<Rightarrow> n))"

definition subwarp_cycles :: "core_config \<Rightarrow> bank_accs \<Rightarrow> nat" where
  "subwarp_cycles cfg accs =
    fold max (if shmem_limited_broadcast cfg then map (bank_accesses (find_broadcast accs)) accs
              else map (\<lambda>(b, ws). length ws) accs) 0"

definition shared_subwarp :: "core_config \<Rightarrow> warp_inst \<Rightarrow> nat \<Rightarrow> nat \<Rightarrow> nat option" where
  "shared_subwarp cfg w subwarp tot = do {
     accs \<leftarrow> each (count_thread cfg w) (subwarp_threads cfg subwarp) [];
     Some (tot + subwarp_cycles cfg accs) }"

definition shared_accesses :: "core_config \<Rightarrow> warp_inst \<Rightarrow> warp_inst option" where
  "shared_accesses cfg w = do {
     ensure (mem_warp_parts cfg \<noteq> 0);
     tot \<leftarrow> each (shared_subwarp cfg w) [0..<mem_warp_parts cfg] 0;
     ensure (0 < tot \<and> tot \<le> warp_size cfg);
     Some (w\<lparr>w_cycles := of_nat tot\<rparr>) }"

section \<open>Constant and texture accesses\<close>

fun set_bytes :: "nat \<Rightarrow> nat \<Rightarrow> byte_mask \<Rightarrow> byte_mask option" where
  "set_bytes idx 0 m = Some m"
| "set_bytes idx (Suc n) m = do { ensure (idx < MAX_MEMORY_ACCESS_SIZE); set_bytes (idx + 1) n (set_bit idx m) }"

text \<open>The state of the loop: the threads of each block, and the bytes, which all blocks share.\<close>

definition block_thread :: "u32 \<Rightarrow> warp_inst \<Rightarrow> nat \<Rightarrow> (u64 \<times> active_mask) list \<times> byte_mask \<Rightarrow>
    ((u64 \<times> active_mask) list \<times> byte_mask) option" where
  "block_thread block_size w thread = (\<lambda>(m, bytes).
    (if \<not> w_active w thread then Some (m, bytes)
     else do {
       as \<leftarrow> at (memreqaddr w) thread;
       addr \<leftarrow> at as 0;
       let block = line_size_based_tag_func addr (ucast block_size);
       let threads = (case map_of m (ucast block) of Some t \<Rightarrow> t | None \<Rightarrow> 0);
       let idx = (ucast (addr - ucast block) :: u32);
       bytes \<leftarrow> set_bytes (unat idx) (unat (data_size w)) bytes;
       Some (om_put (ucast block) (set_bit thread threads) m, bytes) }))"

definition block_accesses :: "core_config \<Rightarrow> mem_access_type \<Rightarrow> bool \<Rightarrow> u32 \<Rightarrow> warp_inst \<Rightarrow> warp_inst option" where
  "block_accesses cfg ty is_write block_size w =
    (if block_size = 0 then Some w
     else do {
       ensure (accessq w = []);
       (m, bytes) \<leftarrow> each (block_thread block_size w) [0..<warp_size cfg] ([], 0);
       Some (w\<lparr>accessq := accessq w @ map (\<lambda>(addr, threads). mem_access_new ty addr block_size is_write threads bytes 0) m\<rparr>) })"

section \<open>Generation\<close>

definition global_accesses :: "core_config \<Rightarrow> bool \<Rightarrow> mem_access_type \<Rightarrow> warp_inst \<Rightarrow> warp_inst option" where
  "global_accesses cfg is_write ty w =
    (if 13 \<le> gpgpu_coalesce_arch cfg then
       (if w_isatomic w then memory_coalescing_arch_atomic cfg is_write ty w
        else memory_coalescing_arch cfg is_write ty w)
     else None)"

definition generate_mem_accesses :: "core_config \<Rightarrow> warp_inst \<Rightarrow> warp_inst option" where
  "generate_mem_accesses cfg w =
    (if w_empty w \<or> i_op w = MEMORY_BARRIER_OP \<or> mem_accesses_created w then Some w
     else if i_op w \<notin> {LOAD_OP, TENSOR_CORE_LOAD_OP, STORE_OP, TENSOR_CORE_STORE_OP} then Some w
     else if w_active_mask w = 0 then Some w
     else do {
       ensure (is_load w \<or> is_store w);
       ensure (per_scalar_thread_valid w);
       let is_write = is_store w;
       w \<leftarrow> (case i_space w of
           const_space \<Rightarrow> block_accesses cfg CONST_ACC_R is_write (gpgpu_cache_constl1_linesize cfg) w
         | param_space_kernel \<Rightarrow> block_accesses cfg CONST_ACC_R is_write (gpgpu_cache_constl1_linesize cfg) w
         | tex_space \<Rightarrow> block_accesses cfg TEXTURE_ACC_R is_write (gpgpu_cache_texl1_linesize cfg) w
         | global_space \<Rightarrow> global_accesses cfg is_write (if is_write then GLOBAL_ACC_W else GLOBAL_ACC_R) w
         | local_space \<Rightarrow> global_accesses cfg is_write (if is_write then LOCAL_ACC_W else LOCAL_ACC_R) w
         | param_space_local \<Rightarrow> global_accesses cfg is_write (if is_write then LOCAL_ACC_W else LOCAL_ACC_R) w
         | shared_space \<Rightarrow> shared_accesses cfg w
         | sstarr_space \<Rightarrow> shared_accesses cfg w
         | _ \<Rightarrow> None);
       Some (w\<lparr>mem_accesses_created := True\<rparr>) })"


section \<open>Addresses\<close>

lemma take_bit_small: "m < 2 ^ n \<Longrightarrow> take_bit n m = m" for m :: nat
  by (simp add: take_bit_nat_eq_self)

lemma unat_drop: "unat (drop_bit k a) = unat a div 2 ^ k" for a :: u64
  by (simp only: unat_drop_bit_eq) (simp only: drop_bit_eq_div)

lemma unat_push: "unat x * 2 ^ k < 2 ^ 64 \<Longrightarrow> unat (push_bit k x) = unat x * 2 ^ k" for x :: u64
  by (simp only: unsigned_push_bit_eq) (simp only: push_bit_eq_mult, rule take_bit_small, simp)

lemma unat_low32: "unat x < 2 ^ 32 \<Longrightarrow> unat (ucast (ucast x :: u32) :: u64) = unat x" for x :: u64
  by (simp add: unsigned_ucast_eq unsigned_take_bit_eq take_bit_small)

lemma and_not_mask_div: "unat (a AND NOT (mask k)) = unat a div 2 ^ k * 2 ^ k" for a :: u64
proof -
  have eq: "a AND NOT (mask k) = push_bit k (drop_bit k a)"
    by (rule bit_eqI) (auto simp: bit_simps not_less)
  have "unat a div 2 ^ k * 2 ^ k < 2 ^ 64" using u64_lt[of a] by (meson div_times_less_eq_dividend le_less_trans)
  then have "unat (drop_bit k a) * 2 ^ k < 2 ^ 64" by (simp only: unat_drop)
  from unat_push[OF this] show ?thesis by (simp only: eq unat_drop)
qed

text \<open>The segment sizes are powers of two, and the addresses have 32 bits.\<close>

definition seg_ok :: "u32 \<Rightarrow> bool" where
  "seg_ok seg = (seg = 32 \<or> seg = 64 \<or> seg = 128)"

definition block_of :: "u32 \<Rightarrow> u64 \<Rightarrow> u64" where
  "block_of seg a = ucast (line_size_based_tag_func a (ucast seg))"

lemma seg_ok_mask: "seg_ok seg \<Longrightarrow> \<exists>k \<in> {5, 6, 7}. ucast seg - 1 = (mask k :: u64) \<and> unat seg = 2 ^ k"
  by (auto simp: seg_ok_def mask_numeral)

lemma block_of_div: "seg_ok seg \<Longrightarrow> unat a < 2 ^ 32 \<Longrightarrow> unat (block_of seg a) = unat a div unat seg * unat seg"
proof -
  assume a: "seg_ok seg" "unat a < 2 ^ 32"
  obtain k where k: "ucast seg - 1 = (mask k :: u64)" "unat seg = 2 ^ k" using seg_ok_mask[OF a(1)] by blast
  have "unat a div 2 ^ k * 2 ^ k < 2 ^ 32" using a(2) by (meson div_times_less_eq_dividend le_less_trans)
  then show ?thesis
    using unat_low32[of "a AND NOT (mask k)"]
    by (simp only: block_of_def line_size_based_tag_func_def k and_not_mask_div)
qed

lemma line_offset_mod: "line_offset a = unat a mod 128"
proof -
  have "a AND 127 = a AND mask 7" by (simp add: mask_numeral)
  then have "unat (a AND 127) = take_bit 7 (unat a)" by (simp only: take_bit_eq_mask[symmetric] unsigned_take_bit_eq)
  then show ?thesis by (simp only: line_offset_def take_bit_eq_mod) simp
qed

text \<open>The accesses the hardware allows: a power of two of bytes, aligned to its size.\<close>

definition aligned :: "u32 \<Rightarrow> u64 \<Rightarrow> bool" where
  "aligned sz a = (sz \<in> {1, 2, 4, 8, 16} \<and> unat a mod unat sz = 0 \<and> unat a < 2 ^ 32)"

lemma aligned_within:
  fixes a :: nat
  assumes "z dvd m" "0 < m" "z dvd a"
  shows "a mod m + z \<le> m"
proof -
  obtain k j where k: "m = z * k" "a = z * j" using assms(1,3) by blast
  have "a mod m = z * (j mod k)" unfolding k by (rule mult_mod_right[symmetric])
  moreover have "j mod k + 1 \<le> k" using assms(2) k(1) by (simp add: Suc_leI)
  ultimately have "a mod m + z = z * (j mod k + 1)" "z * (j mod k + 1) \<le> z * k"
    by (simp, metis mult_le_mono2)
  then show ?thesis using k(1) by linarith
qed

lemma same_block:
  fixes a :: nat
  assumes "z dvd m" "0 < m" "z dvd a" "i < z"
  shows "(a + i) div m = a div m" "(a + i) mod m = a mod m + i"
proof -
  have l: "a mod m + i < m" using aligned_within[OF assms(1-3)] assms(4) by simp
  have "a + i = a div m * m + (a mod m + i)" by simp
  then show "(a + i) div m = a div m" "(a + i) mod m = a mod m + i"
    using l by (metis div_mult_self3 assms(2) div_less add_0_right less_numeral_extra(3) add.commute, metis mod_mult_self3 mod_less)
qed

lemma alignedD:
  assumes "aligned sz a" "seg_ok seg"
  shows "unat sz dvd unat seg" "0 < unat seg" "unat sz dvd unat a" "0 < unat sz" "unat sz \<le> 16" "unat a < 2 ^ 32"
    "unat seg dvd 128"
  using assms by (auto simp: aligned_def seg_ok_def dvd_eq_mod_eq_0)

lemma end_same_block:
  assumes "aligned sz a" "seg_ok seg"
  shows "block_of seg (a + ucast sz - 1) = block_of seg a"
proof -
  note al = alignedD[OF assms]
  have sz: "unat (ucast sz :: u64) = unat sz" using u32_lt[of sz] unfolding unsigned_ucast_eq by (intro take_bit_small) simp
  have lt: "unat a + unat sz < 2 ^ 64" using al(5,6) by simp
  have nz: "ucast sz \<noteq> (0 :: u64)" using al(4) sz by auto
  have m: "unat (ucast sz - 1 :: u64) = unat sz - 1" using nz sz by (simp add: unat_minus_one)
  have s16: "unat sz dvd 2 ^ 32" using assms(1) by (auto simp: aligned_def dvd_eq_mod_eq_0)
  have "a + ucast sz - 1 = a + (ucast sz - 1)" by simp
  then have e: "unat (a + ucast sz - 1) = unat a + (unat sz - 1)"
    using lt m by (simp only: unat_word_ariths) (simp add: al(4) less_imp_diff_less)
  have "unat a + unat sz \<le> 2 ^ 32" using aligned_within[OF s16 _ al(3)] al(6) by simp
  then have e2: "unat a + (unat sz - 1) < 2 ^ 32" using al(4) by linarith
  have "unat (block_of seg (a + ucast sz - 1)) = unat (block_of seg a)"
    using block_of_div[OF assms(2), of "a + ucast sz - 1"] block_of_div[OF assms(2) al(6)] e e2 al(1-4)
      same_block(1)[OF al(1-3), of "unat sz - 1"] by simp
  then show ?thesis by (simp add: word_unat_eq_iff)
qed


lemma coalesce_access_aligned:
  "aligned sz a \<Longrightarrow> seg_ok seg \<Longrightarrow> coalesce_access seg sz t a m = note_at (block_of seg a) t a sz m"
  using end_same_block[of sz a seg] by (simp add: coalesce_access_def Let_def block_of_def)

section \<open>What the transactions of a subwarp record\<close>

lemma bit_mark_bytes: "bit (mark_bytes idx n m) b = (bit m b \<or> (idx \<le> b \<and> b < idx + n \<and> b < 128))"
proof (induction n)
  case (Suc n)
  have "mark_bytes idx (Suc n) m = (if idx + n < 128 then set_bit (idx + n) (mark_bytes idx n m) else mark_bytes idx n m)"
    by (simp add: mark_bytes_def)
  then show ?case using Suc by (auto simp: bit_set_bit_iff less_Suc_eq)
qed (auto simp: mark_bytes_def)

lemma new_transaction_bits [simp]:
  "\<not> bit (chunks new_transaction) i" "\<not> bit (t_bytes new_transaction) i" "\<not> bit (t_active new_transaction) i"
  by (simp_all add: new_transaction_def)

text \<open>
  \<open>pairs\<close> are the accesses so far, each a thread with its address: a transaction exists for every
  segment one of them falls in, and records exactly their threads, sectors and bytes.
\<close>

definition records :: "u32 \<Rightarrow> u32 \<Rightarrow> (nat \<times> u64) list \<Rightarrow> (u64 \<times> transaction_info) list \<Rightarrow> bool" where
  "records seg sz pairs m = (om_ok m \<and> fst ` set m = block_of seg ` snd ` set pairs \<and>
     (\<forall>k. (\<forall>i. bit (t_active (transaction_of m k)) i = (\<exists>a. (i, a) \<in> set pairs \<and> block_of seg a = k)) \<and>
        (\<forall>c. bit (chunks (transaction_of m k)) c = (\<exists>(i, a) \<in> set pairs. block_of seg a = k \<and> line_offset a div 32 = c)) \<and>
        (\<forall>b. bit (t_bytes (transaction_of m k)) b =
           (\<exists>(i, a) \<in> set pairs. block_of seg a = k \<and> line_offset a \<le> b \<and> b < line_offset a + unat sz))))"

lemma records_Nil: "records seg sz [] []"
  by (simp add: records_def transaction_of_def)

lemma offset_lt: "line_offset a < 128" "line_offset a div 32 < 4"
proof -
  show "line_offset a < 128" by (simp add: line_offset_mod)
  then show "line_offset a div 32 < 4" by linarith
qed

lemma offset_room: "aligned sz a \<Longrightarrow> line_offset a + unat sz \<le> 128"
proof -
  assume "aligned sz a"
  note al = alignedD[OF this, of 128]
  have "unat sz dvd 128" using al(1) by (simp add: seg_ok_def)
  then show ?thesis using aligned_within[OF _ _ al(3), of 128] by (simp add: line_offset_mod seg_ok_def)
qed

lemma records_note:
  assumes r: "records seg sz pairs m" and a: "aligned sz a" and t: "t < 32"
  shows "records seg sz (pairs @ [(t, a)]) (note_at (block_of seg a) t a sz m)"
proof -
  let ?k = "block_of seg a"
  have tr: "transaction_of (note_at ?k t a sz m) k =
      (if k = ?k then note_access t a sz (transaction_of m ?k) else transaction_of m k)" for k
    by (simp add: transaction_of_def note_at_def)
  have room: "line_offset a \<le> b \<and> b < line_offset a + unat sz \<Longrightarrow> b < 128" for b
    using offset_room[OF a] by linarith
  note old = r[unfolded records_def]
  have "bit (t_active (transaction_of (note_at ?k t a sz m) k)) i =
      (\<exists>a'. (i, a') \<in> set (pairs @ [(t, a)]) \<and> block_of seg a' = k)" for k i
    using old t by (auto simp: tr note_access_def bit_set_bit_iff)
  moreover have "bit (chunks (transaction_of (note_at ?k t a sz m) k)) c =
      (\<exists>(i, a') \<in> set (pairs @ [(t, a)]). block_of seg a' = k \<and> line_offset a' div 32 = c)" for k c
    using old offset_lt(2)[of a] by (auto simp: tr note_access_def bit_set_bit_iff)
  moreover have "bit (t_bytes (transaction_of (note_at ?k t a sz m) k)) b =
      (\<exists>(i, a') \<in> set (pairs @ [(t, a)]). block_of seg a' = k \<and> line_offset a' \<le> b \<and> b < line_offset a' + unat sz)" for k b
    using old room[of b] by (auto simp: tr note_access_def bit_mark_bytes)
  moreover have "om_ok (note_at ?k t a sz m)" "fst ` set (note_at ?k t a sz m) = block_of seg ` snd ` set (pairs @ [(t, a)])"
    using old by (auto simp: note_at_def om_ok_put)
  ultimately show ?thesis by (simp add: records_def)
qed

text \<open>The accesses of the threads of a warp, and those of one subwarp.\<close>

definition lane_addrs :: "warp_inst \<Rightarrow> nat \<Rightarrow> u64 list" where
  "lane_addrs w t = (if w_active w t then takeWhile (\<lambda>a. a \<noteq> 0) (take MAX_ACCESSES_PER_INSN_PER_THREAD (memreqaddr w ! t)) else [])"

definition lane_pairs :: "warp_inst \<Rightarrow> nat list \<Rightarrow> (nat \<times> u64) list" where
  "lane_pairs w ts = concat (map (\<lambda>t. map (Pair t) (lane_addrs w t)) ts)"

text \<open>A warp instruction the coalescer can serve: supported size, aligned addresses below 4 GB. An access
  to local memory was split into words before.\<close>

definition access_bytes :: "warp_inst \<Rightarrow> u32" where
  "access_bytes w = (if i_space w \<in> {local_space, param_space_local} then min 4 (data_size w) else data_size w)"

definition warp_access_ok :: "core_config \<Rightarrow> warp_inst \<Rightarrow> bool" where
  "warp_access_ok cfg w = (data_size w \<in> {1, 2, 4, 8, 16} \<and> mem_warp_parts cfg \<noteq> 0 \<and> warp_size cfg \<le> MAX_WARP_SIZE \<and>
     length (memreqaddr w) = warp_size cfg \<and>
     (\<forall>t < warp_size cfg. \<forall>a \<in> set (lane_addrs w t). aligned (access_bytes w) a))"

lemma access_bytes_data_size: "fst (coalesce_data_size w) = access_bytes w"
  by (simp add: coalesce_data_size_def access_bytes_def min_def)

lemma seg_ok_segment: "data_size w \<in> {1, 2, 4, 8, 16} \<Longrightarrow> seg_ok (segment_size cfg w)"
  by (auto simp: segment_size_def seg_ok_def)

lemma records_thread:
  assumes r: "records seg sz pairs m" and a: "\<forall>a \<in> set as. aligned sz a" and t: "t < 32" "seg_ok seg"
  shows "records seg sz (pairs @ map (Pair t) as) (fold (coalesce_access seg sz t) as m)"
  using r a
proof (induction as arbitrary: pairs m)
  case (Cons a as)
  have "records seg sz (pairs @ [(t, a)]) (coalesce_access seg sz t a m)"
    using records_note[OF Cons.prems(1) _ t(1)] Cons.prems(2) coalesce_access_aligned[OF _ t(2)] by simp
  from Cons.IH[OF this] Cons.prems(2) show ?case by simp
qed simp

lemma coalesce_threads:
  assumes ok: "warp_access_ok cfg w" and ts: "\<forall>t \<in> set ts. t < warp_size cfg"
    and r: "records (segment_size cfg w) (access_bytes w) pairs m"
  shows "\<exists>m'. each (coalesce_thread cfg w) ts m = Some m' \<and>
    records (segment_size cfg w) (access_bytes w) (pairs @ lane_pairs w ts) m'"
  using ts r
proof (induction ts arbitrary: pairs m)
  case Nil
  then show ?case by (simp add: lane_pairs_def)
next
  case (Cons t ts)
  let ?sz = "access_bytes w" and ?seg = "segment_size cfg w"
  obtain z n where "coalesce_data_size w = (z, n)" by (cases "coalesce_data_size w")
  then have sz: "coalesce_data_size w = (?sz, n)" using access_bytes_data_size[of w] by simp
  have n: "unat n \<le> 8" using ok sz by (auto simp: warp_access_ok_def coalesce_data_size_def split: if_splits)
  have t: "t < warp_size cfg" "t < 32" "t < length (memreqaddr w)" using ok Cons.prems(1) by (auto simp: warp_access_ok_def)
  have seg: "seg_ok ?seg" using ok seg_ok_segment by (auto simp: warp_access_ok_def)
  have "\<exists>m1. coalesce_thread cfg w t m = Some m1 \<and> records ?seg ?sz (pairs @ map (Pair t) (lane_addrs w t)) m1"
  proof (cases "w_active w t")
    case True
    then have "coalesce_thread cfg w t m = Some (fold (coalesce_access ?seg ?sz t) (lane_addrs w t) m)"
      using sz n t(3) by (simp add: coalesce_thread_def thread_addrs_def lane_addrs_def)
    then show ?thesis using records_thread[OF Cons.prems(2) _ t(2) seg] ok t(1) by (simp add: warp_access_ok_def)
  next
    case False
    then show ?thesis using Cons.prems(2) by (simp add: coalesce_thread_def lane_addrs_def)
  qed
  then obtain m1 where m1: "coalesce_thread cfg w t m = Some m1" "records ?seg ?sz (pairs @ map (Pair t) (lane_addrs w t)) m1"
    by blast
  from Cons.IH[OF _ m1(2)] Cons.prems(1) m1(1) show ?case by (simp add: lane_pairs_def)
qed


section \<open>Reducing a segment to what is used\<close>

lemma seg_mask_zero: "seg_ok seg \<Longrightarrow> (k AND ucast (seg - 1) = 0) = (unat k mod unat seg = 0)" for k :: u64
proof -
  assume "seg_ok seg"
  then obtain n where n: "ucast (seg - 1) = (mask n :: u64)" "unat seg = 2 ^ n"
    using that by (auto simp: seg_ok_def mask_numeral intro: that[of 5] that[of 6] that[of 7])
  have "unat (k AND mask n) = unat k mod 2 ^ n"
    by (simp only: take_bit_eq_mask[symmetric] unsigned_take_bit_eq) (simp only: take_bit_eq_mod)
  then have "(k AND mask n = 0) = (unat k mod 2 ^ n = 0)"
    by (metis unat_0_iff)
  then show ?thesis by (simp only: n)
qed

text \<open>The sectors that a request of \<open>z\<close> bytes at \<open>a\<close> holds, in the 128-byte line of \<open>k\<close>.\<close>

definition holds_sector :: "u64 \<Rightarrow> u64 \<Rightarrow> u32 \<Rightarrow> nat \<Rightarrow> bool" where
  "holds_sector k a z c = (unat a \<le> unat k div 128 * 128 + 32 * c \<and> unat k div 128 * 128 + 32 * c + 32 \<le> unat a + unat z)"

definition reduced :: "transaction_info \<Rightarrow> u64 \<Rightarrow> u32 \<Rightarrow> u64 \<Rightarrow> u32 \<Rightarrow> bool" where
  "reduced info k seg a z = (z \<in> {32, 64, 128} \<and> unat a mod unat z = 0 \<and> unat k \<le> unat a \<and>
     unat a + unat z \<le> unat k + unat seg \<and> (\<forall>c. bit (chunks info) c \<longrightarrow> holds_sector k a z c) \<and>
     (z \<noteq> 32 \<longrightarrow> (\<exists>c d. bit (chunks info) c \<and> bit (chunks info) d \<and>
        unat k div 128 * 128 + 32 * c < unat a + unat z div 2 \<and> unat a + unat z div 2 \<le> unat k div 128 * 128 + 32 * d)))"

lemma reduce_half_ok:
  assumes "reduce_half a lo hi = Some (a', z')" "unat a mod 64 = 0" "unat a < 2 ^ 33"
  shows "(lo \<and> hi \<and> a' = a \<and> z' = 64) \<or> (lo \<and> \<not> hi \<and> a' = a \<and> z' = 32) \<or>
    (\<not> lo \<and> hi \<and> unat a' = unat a + 32 \<and> z' = 32)"
  using assms by (auto simp: reduce_half_def unat_word_ariths split: if_splits)


lemma sector_cases: "bit (q :: sector_mask) c \<Longrightarrow> c = 0 \<or> c = 1 \<or> c = 2 \<or> c = 3"
  by (drule bit_imp_le_length) auto

lemma all_sectors: "(\<forall>c. bit (q :: sector_mask) c \<longrightarrow> P c) =
    ((bit q 0 \<longrightarrow> P 0) \<and> (bit q 1 \<longrightarrow> P 1) \<and> (bit q 2 \<longrightarrow> P 2) \<and> (bit q 3 \<longrightarrow> P 3))"
  using sector_cases by metis

text \<open>A half of a line that is used: the sectors \<open>i\<close> and \<open>i + 1\<close> at address \<open>a\<close>.\<close>

lemma reduced_half:
  assumes r: "reduce_half a (q i) (q (Suc i)) = Some (a', z')" and q: "q = bit (chunks info)"
    and a: "unat a = unat k div 128 * 128 + 32 * i" "i = 0 \<or> i = 2" "unat k < 2 ^ 32"
    and seg: "unat k \<le> unat a" "unat a + 64 \<le> unat k + unat seg"
    and only: "\<forall>c. q c \<longrightarrow> c = i \<or> c = Suc i"
  shows "reduced info k seg a' z'"
proof -
  have m: "unat a mod 64 = 0" using a(1,2) by (auto simp: mod_eq_0_iff_dvd)
  have "unat a \<le> unat k + 64" using a(1,2) by (auto intro: order_trans[OF _ add_right_mono[of "unat k div 128 * 128" "unat k"]])
  then have lt: "unat a < 2 ^ 33" using a(3) by simp
  have at_lane: "holds_sector k b y c" if "unat b + 32 * n = unat a + 32 * j" "unat b \<le> unat a + 32 * j"
      "unat a + 32 * j + 32 \<le> unat b + unat y" "c = i + j" for b y c j n
    using that a(1) by (simp add: holds_sector_def)
  from reduce_half_ok[OF r m lt] consider
    (both) "q i" "q (Suc i)" "a' = a" "z' = 64" | (lo) "q i" "\<not> q (Suc i)" "a' = a" "z' = 32"
    | (hi) "\<not> q i" "q (Suc i)" "unat a' = unat a + 32" "z' = 32" by blast
  then show ?thesis
  proof cases
    case both
    have "\<exists>c d. q c \<and> q d \<and> unat k div 128 * 128 + 32 * c < unat a + 32 \<and> unat a + 32 \<le> unat k div 128 * 128 + 32 * d"
      using both(1,2) a(1) by (intro exI[of _ i] exI[of _ "Suc i"]) simp
    moreover have "holds_sector k a' z' c" if "q c" for c
    proof -
      from only that have "c = i + 0 \<or> c = i + 1" by auto
      then show ?thesis using both(3,4) at_lane[of a' 0 0 z' c] at_lane[of a' 1 1 z' c] by auto
    qed
    ultimately show ?thesis using both(3,4) m seg by (simp add: reduced_def q)
  next
    case lo
    have "holds_sector k a' z' c" if "q c" for c
    proof -
      from only that lo(2) have "c = i + 0" by auto
      then show ?thesis using lo(3,4) at_lane[of a' 0 0 z' c] by simp
    qed
    moreover have "unat a mod 32 = 0" using m by presburger
    ultimately show ?thesis using lo(3,4) seg by (simp add: reduced_def q)
  next
    case hi
    have "holds_sector k a' z' c" if "q c" for c
    proof -
      from only that hi(1) have "c = i + 1" by auto
      then show ?thesis using hi(3,4) at_lane[of a' 0 1 z' c] by simp
    qed
    moreover have "unat a' mod 32 = 0" using m hi(3) by presburger
    ultimately show ?thesis using hi(3,4) seg by (simp add: reduced_def q)
  qed
qed


lemma reduce_half_some: "lo \<or> hi \<Longrightarrow> \<exists>a' z'. reduce_half a lo hi = Some (a', z')"
  by (auto simp: reduce_half_def)

lemma reduce_transaction_ok:
  assumes seg: "seg_ok seg" "unat k mod unat seg = 0" "unat k < 2 ^ 32" and used: "chunks info \<noteq> 0"
    and inside: "\<forall>c. bit (chunks info) c \<longrightarrow> unat k mod 128 \<le> 32 * c \<and> 32 * c + 32 \<le> unat k mod 128 + unat seg"
  shows "\<exists>a z. reduce_transaction info k seg = Some (a, z) \<and> reduced info k seg a z"
proof -
  define q where "q = bit (chunks info)"
  have some: "q 0 \<or> q 1 \<or> q 2 \<or> q 3"
    using used sector_cases unfolding q_def by (metis bit_eqI bit_0_eq bot_apply bot_bool_def)
  have ens: "k AND ucast (seg - 1) = 0" using seg_mask_zero[OF seg(1)] seg(2) by simp
  have u: "unat k = unat k div 128 * 128 + unat k mod 128" by simp
  have cases4: "q c \<Longrightarrow> c = 0 \<or> c = 1 \<or> c = 2 \<or> c = 3" for c unfolding q_def by (rule sector_cases)
  have kmod: "(k mod 128 = w) = (unat k mod 128 = unat w)" for w :: u64
    by (simp add: word_unat_eq_iff unat_mod_distrib)
  have lo: "\<exists>a z. reduce_half k (q 0) (q 1) = Some (a, z) \<and> reduced info k seg a z"
    if h: "unat k mod 128 = 0" "\<not> q 2" "\<not> q 3" "64 \<le> unat seg"
  proof -
    obtain a z where r: "reduce_half k (q 0) (q 1) = Some (a, z)" using reduce_half_some some h by metis
    have "reduced info k seg a z"
      by (rule reduced_half[of k q 0]) (use r h u seg(3) cases4 in \<open>auto simp: q_def\<close>)
    then show ?thesis using r by blast
  qed
  have hi: "\<exists>a z. reduce_half b (q 2) (q 3) = Some (a, z) \<and> reduced info k seg a z"
    if h: "unat b = unat k div 128 * 128 + 64" "\<not> q 0" "\<not> q 1" "unat k \<le> unat b" "unat b + 64 \<le> unat k + unat seg" for b
  proof -
    obtain a z where r: "reduce_half b (q 2) (q 3) = Some (a, z)" using reduce_half_some some h by metis
    have "reduced info k seg a z"
      by (rule reduced_half[of b q 2]) (use r h seg(3) cases4 in \<open>auto simp: q_def numeral_3_eq_3\<close>)
    then show ?thesis using r by blast
  qed
  consider "seg = 32" | "seg = 64" | "seg = 128" using seg(1) by (auto simp: seg_ok_def)
  then show ?thesis
  proof cases
    case 1
    have "holds_sector k k 32 c" if "bit (chunks info) c" for c
    proof -
      have "unat seg = 32" "unat (32 :: u32) = 32" using 1 by simp_all
      then show ?thesis using inside[rule_format, OF that] u unfolding holds_sector_def by linarith
    qed
    then have "reduced info k seg k 32" using 1 seg(2) by (simp add: reduced_def)
    then show ?thesis using 1 ens used by (simp add: reduce_transaction_def Let_def)
  next
    case 2
    then have "unat k mod 128 = 0 \<or> unat k mod 128 = 64" using seg(2) by simp presburger
    then show ?thesis
    proof
      assume z: "unat k mod 128 = 0"
      have "\<not> q 2" "\<not> q 3" using inside[rule_format, of 2] inside[rule_format, of 3] z 2 by (auto simp: q_def)
      then show ?thesis using lo z 2 ens used kmod by (simp add: reduce_transaction_def Let_def q_def)
    next
      assume z: "unat k mod 128 = 64"
      have n: "\<not> q 0" "\<not> q 1" using inside[rule_format, of 0] inside[rule_format, of 1] z by (auto simp: q_def)
      have "k mod 128 = 64" "k mod 128 \<noteq> 0" using kmod[of 64] kmod[of 0] z by simp_all
      then show ?thesis using hi[of k] n u z 2 ens used by (simp add: reduce_transaction_def Let_def q_def)
    qed
  next
    case 3
    then have z: "unat k mod 128 = 0" using seg(2) by simp
    consider (low) "q 0 \<or> q 1" "\<not> (q 2 \<or> q 3)" | (high) "\<not> (q 0 \<or> q 1)" "q 2 \<or> q 3" | (both) "q 0 \<or> q 1" "q 2 \<or> q 3"
      using some by blast
    then show ?thesis
    proof cases
      case low
      then show ?thesis using lo z 3 ens used by (simp add: reduce_transaction_def Let_def q_def)
    next
      case high
      have "unat (k + 64) = unat k + 64" using seg(3) by (simp add: unat_word_ariths)
      then show ?thesis using hi[of "k + 64"] high u z 3 ens used by (simp add: reduce_transaction_def Let_def q_def)
    next
      case both
      have line: "unat k div 128 * 128 = unat k" using u z by simp
      have "holds_sector k k 128 c" if "bit (chunks info) c" for c
        using cases4[of c] that line by (auto simp: holds_sector_def q_def)
      moreover have "\<exists>c d. bit (chunks info) c \<and> bit (chunks info) d \<and> unat k + 32 * c < unat k + 64 \<and> unat k + 64 \<le> unat k + 32 * d"
      proof -
        obtain c where "q c" "c = 0 \<or> c = 1" using both by blast
        moreover obtain d where "q d" "d = 2 \<or> d = 3" using both by blast
        ultimately show ?thesis unfolding q_def by (intro exI[of _ c] exI[of _ d]) auto
      qed
      ultimately have "reduced info k seg k 128" using 3 z line by (simp add: reduced_def)
      then show ?thesis using both 3 ens used by (auto simp: reduce_transaction_def Let_def q_def)
    qed
  qed
qed


section \<open>The requests of a warp\<close>

text \<open>Request \<open>q\<close> serves the access of thread \<open>t\<close> to the \<open>sz\<close> bytes at \<open>a\<close>.\<close>

definition serves :: "u32 \<Rightarrow> mem_access \<Rightarrow> nat \<Rightarrow> u64 \<Rightarrow> bool" where
  "serves sz q t a = (unat (ma_addr q) \<le> unat a \<and> unat a + unat sz \<le> unat (ma_addr q) + unat (ma_req_size q) \<and>
     bit (ma_warp_mask q) t \<and> (\<forall>i < unat sz. bit (ma_byte_mask q) (line_offset a + i)) \<and>
     bit (ma_sector_mask q) (line_offset a div 32))"

text \<open>
  A request of the right kind, aligned to its size, whose threads, bytes and both halves are needed
  by the accesses of the warp.
\<close>

definition request_ok :: "bool \<Rightarrow> mem_access_type \<Rightarrow> u32 \<Rightarrow> (nat \<times> u64) set \<Rightarrow> mem_access \<Rightarrow> bool" where
  "request_ok wr ty sz as q = (ma_write q = wr \<and> ma_type q = ty \<and> ma_req_size q \<in> {32, 64, 128} \<and>
     unat (ma_addr q) mod unat (ma_req_size q) = 0 \<and>
     (\<forall>t. bit (ma_warp_mask q) t \<longrightarrow> (\<exists>a. (t, a) \<in> as \<and> serves sz q t a)) \<and>
     (\<forall>b. bit (ma_byte_mask q) b \<longrightarrow>
        (\<exists>t a. (t, a) \<in> as \<and> serves sz q t a \<and> line_offset a \<le> b \<and> b < line_offset a + unat sz)) \<and>
     (ma_req_size q \<noteq> 32 \<longrightarrow> (\<exists>t a u b. (t, a) \<in> as \<and> serves sz q t a \<and> (u, b) \<in> as \<and> serves sz q u b \<and>
        unat a < unat (ma_addr q) + unat (ma_req_size q) div 2 \<and> unat (ma_addr q) + unat (ma_req_size q) div 2 \<le> unat b)))"

definition sent_access :: "bool \<Rightarrow> mem_access_type \<Rightarrow> u32 \<Rightarrow> u64 \<times> transaction_info \<Rightarrow> mem_access" where
  "sent_access wr ty seg = (\<lambda>(k, info). case the (reduce_transaction info k seg) of
     (a, z) \<Rightarrow> mem_access_new ty a z wr (t_active info) (t_bytes info) (chunks info))"

lemma send_all:
  "\<forall>(k, info) \<in> set m. reduce_transaction info k seg \<noteq> None \<Longrightarrow>
   each (reduce_and_send wr ty seg) m w = Some (w\<lparr>accessq := accessq w @ map (sent_access wr ty seg) m\<rparr>)"
  by (induction m arbitrary: w) (auto simp: reduce_and_send_def sent_access_def)

text \<open>In units of sectors: \<open>e\<close> is the sector of the address, \<open>p\<close> the sectors of a segment.\<close>

lemma sector_units: "a div 128 = a div 32 div 4" "a mod 128 div 32 = a div 32 mod 4" for a :: nat
proof -
  show "a div 128 = a div 32 div 4" by (simp add: div_mult2_eq[symmetric])
  have "drop_bit 5 (take_bit 7 a) = take_bit 2 (drop_bit 5 a)" by (simp add: drop_bit_take_bit)
  then show "a mod 128 div 32 = a div 32 mod 4" by (simp add: take_bit_eq_mod drop_bit_eq_div)
qed

lemma segment_units:
  fixes e p :: nat
  assumes "p = 1 \<or> p = 2 \<or> p = 4"
  shows "(e div p * p) mod 4 \<le> e mod 4" "e mod 4 + 1 \<le> (e div p * p) mod 4 + p" "(e div p * p) div 4 = e div 4"
  using assms by (elim disjE; simp; presburger)+

lemma sector_bounds:
  assumes "seg_ok seg" "unat k = unat a div unat seg * unat seg" "line_offset a div 32 = c"
  shows "unat k mod 128 \<le> 32 * c" "32 * c + 32 \<le> unat k mod 128 + unat seg" "unat k div 128 = unat a div 128"
proof -
  let ?e = "unat a div 32"
  obtain p where p: "unat seg = 32 * p" "p = 1 \<or> p = 2 \<or> p = 4"
    using assms(1) that[of 1] that[of 2] that[of 4] by (auto simp: seg_ok_def)
  have k: "unat k = (?e div p * p) * 32" using assms(2) by (simp add: p(1) div_mult2_eq)
  have "unat k mod 128 = ((?e div p * p) mod 4) * 32"
    unfolding k by (simp add: mult_mod_left[of "?e div p * p" 4 32, simplified])
  moreover have "unat k div 128 = (?e div p * p) div 4" unfolding k sector_units(1) by simp
  moreover have "c = ?e mod 4" using assms(3) by (simp only: line_offset_mod sector_units(2))
  ultimately show "unat k mod 128 \<le> 32 * c" "32 * c + 32 \<le> unat k mod 128 + unat seg" "unat k div 128 = unat a div 128"
    using segment_units[OF p(2), of ?e] p(1) sector_units(1)[of "unat a"] by linarith+
qed

lemma sector_serves:
  assumes "aligned sz a" "unat k div 128 = unat a div 128" "holds_sector k A z (line_offset a div 32)"
  shows "unat A \<le> unat a" "unat a + unat sz \<le> unat A + unat z"
proof -
  have d: "unat sz dvd 32" "unat sz dvd unat a" using assms(1) by (auto simp: aligned_def dvd_eq_mod_eq_0)
  have "unat a mod 32 + unat sz \<le> 32" using aligned_within[OF d(1) _ d(2)] by simp
  moreover have "unat a = unat a div 128 * 128 + 32 * (line_offset a div 32) + unat a mod 32"
    using div_mult_mod_eq[of "unat a" 32] div_mult_mod_eq[of "unat a div 32" 4]
    unfolding line_offset_mod sector_units by linarith
  ultimately show "unat A \<le> unat a" "unat a + unat sz \<le> unat A + unat z"
    using assms(2,3) unfolding holds_sector_def by linarith+
qed


lemma sector_place:
  "unat a div 128 * 128 + 32 * (line_offset a div 32) \<le> unat a"
  "unat a < unat a div 128 * 128 + 32 * (line_offset a div 32) + 32"
  using div_mult_mod_eq[of "unat a" 32] div_mult_mod_eq[of "unat a div 32" 4] mod_less_divisor[of 32 "unat a"]
  unfolding line_offset_mod sector_units by linarith+

lemma next_multiple: "m dvd x \<Longrightarrow> m dvd y \<Longrightarrow> x < y \<Longrightarrow> x + m \<le> y" for m x y :: nat
proof -
  assume "m dvd x" "m dvd y" "x < y"
  then have "m dvd y - x" "0 < y - x" by auto
  then have "m \<le> y - x" by (rule dvd_imp_le)
  then show ?thesis using \<open>x < y\<close> by linarith
qed

text \<open>The requests of the transactions that \<open>pairs\<close> leave.\<close>

lemma sent_requests:
  assumes r: "records seg sz pairs m" and seg: "seg_ok seg" and al: "\<forall>(t, a) \<in> set pairs. aligned sz a"
  shows "\<forall>(k, info) \<in> set m. reduce_transaction info k seg \<noteq> None"
    and "(t, a) \<in> set pairs \<Longrightarrow> \<exists>q \<in> set (map (sent_access wr ty seg) m). serves sz q t a"
    and "q \<in> set (map (sent_access wr ty seg) m) \<Longrightarrow> request_ok wr ty sz (set pairs) q"
    and "length m = card (block_of seg ` snd ` set pairs)"
proof -
  note rec = r[unfolded records_def]
  have chs: "bit (chunks (transaction_of m k)) c = (\<exists>i a. (i, a) \<in> set pairs \<and> block_of seg a = k \<and> line_offset a div 32 = c)"
    and bys: "bit (t_bytes (transaction_of m k)) b =
      (\<exists>i a. (i, a) \<in> set pairs \<and> block_of seg a = k \<and> line_offset a \<le> b \<and> b < line_offset a + unat sz)"
    and acs: "bit (t_active (transaction_of m k)) i = (\<exists>a. (i, a) \<in> set pairs \<and> block_of seg a = k)" for k c b i
    using rec by auto
  have tr: "transaction_of m k = info" if "(k, info) \<in> set m" for k info
  proof -
    have "map_of m k = Some info" using rec that by (simp add: om_ok_map_of_iff)
    then show ?thesis by (simp add: transaction_of_def)
  qed
  have red: "\<exists>A z. reduce_transaction info k seg = Some (A, z) \<and> reduced info k seg A z" if km: "(k, info) \<in> set m" for k info
  proof -
    have "k \<in> block_of seg ` snd ` set pairs" using km rec by (metis fst_conv image_eqI)
    then obtain t a where a: "(t, a) \<in> set pairs" "k = block_of seg a" by auto
    have lt: "unat a < 2 ^ 32" using al a(1) by (auto simp: aligned_def)
    then have k: "unat k = unat a div unat seg * unat seg" using block_of_div[OF seg] a(2) by simp
    show ?thesis
    proof (rule reduce_transaction_ok[OF seg])
      show "unat k mod unat seg = 0" by (simp add: k)
      show "unat k < 2 ^ 32" using lt unfolding k by (rule le_less_trans[OF div_times_less_eq_dividend])
      have "bit (chunks info) (line_offset a div 32)" using chs[of k] tr[OF km] a by blast
      then show "chunks info \<noteq> 0" by auto
      show "\<forall>c. bit (chunks info) c \<longrightarrow> unat k mod 128 \<le> 32 * c \<and> 32 * c + 32 \<le> unat k mod 128 + unat seg"
      proof (intro allI impI)
        fix c assume "bit (chunks info) c"
        then obtain t' a' where a': "(t', a') \<in> set pairs" "block_of seg a' = k" "line_offset a' div 32 = c"
          using chs[of k c] tr[OF km] by auto
        then have "unat k = unat a' div unat seg * unat seg" using block_of_div[OF seg, of a'] al by (auto simp: aligned_def)
        then show "unat k mod 128 \<le> 32 * c \<and> 32 * c + 32 \<le> unat k mod 128 + unat seg"
          using sector_bounds(1,2)[OF seg _ a'(3)] by blast
      qed
    qed
  qed
  show "\<forall>(k, info) \<in> set m. reduce_transaction info k seg \<noteq> None" using red by fastforce
  have serve: "serves sz (sent_access wr ty seg (k, info)) t a"
    if km: "(k, info) \<in> set m" and a: "(t, a) \<in> set pairs" "block_of seg a = k" for k info t a
  proof -
    obtain A z where Az: "reduce_transaction info k seg = Some (A, z)" "reduced info k seg A z" using red[OF km] by blast
    have q: "sent_access wr ty seg (k, info) = mem_access_new ty A z wr (t_active info) (t_bytes info) (chunks info)"
      by (simp add: sent_access_def Az(1))
    have ala: "aligned sz a" "unat a < 2 ^ 32" using al a(1) by (auto simp: aligned_def)
    have k: "unat k = unat a div unat seg * unat seg" using block_of_div[OF seg ala(2)] a(2) by simp
    have c: "bit (chunks info) (line_offset a div 32)" using chs[of k] tr[OF km] a by blast
    have "holds_sector k A z (line_offset a div 32)" using Az(2) c by (simp add: reduced_def)
    note within = sector_serves[OF ala(1) sector_bounds(3)[OF seg k refl] this]
    have "bit (t_active info) t" using acs[of k t] tr[OF km] a by blast
    moreover have "bit (t_bytes info) (line_offset a + i)" if "i < unat sz" for i
    proof -
      have "line_offset a \<le> line_offset a + i \<and> line_offset a + i < line_offset a + unat sz" using that by simp
      then show ?thesis using bys[of k "line_offset a + i"] tr[OF km] a by blast
    qed
    ultimately have "bit (t_active info) t" "\<forall>i < unat sz. bit (t_bytes info) (line_offset a + i)" by blast+
    then show ?thesis using within c by (simp add: serves_def q mem_access_new_def)
  qed
  show "\<exists>q \<in> set (map (sent_access wr ty seg) m). serves sz q t a" if a: "(t, a) \<in> set pairs"
  proof -
    have "snd (t, a) \<in> snd ` set pairs" using a by (rule imageI)
    then have "block_of seg a \<in> block_of seg ` snd ` set pairs" by simp
    then have "block_of seg a \<in> fst ` set m" using rec by simp
    then obtain info where km: "(block_of seg a, info) \<in> set m" by auto
    have "sent_access wr ty seg (block_of seg a, info) \<in> set (map (sent_access wr ty seg) m)"
      unfolding set_map by (rule imageI[OF km])
    then show ?thesis by (rule bexI[rotated]) (rule serve[OF km a refl])
  qed
  have keys: "fst ` set m = block_of seg ` snd ` set pairs" using rec by (elim conjE)
  from distinct_card[OF om_ok_distinct[OF conjunct1[OF rec]]]
  show "length m = card (block_of seg ` snd ` set pairs)" by (simp add: keys)
  show "request_ok wr ty sz (set pairs) q" if qm: "q \<in> set (map (sent_access wr ty seg) m)"
  proof -
    obtain k info where km: "(k, info) \<in> set m" and q: "q = sent_access wr ty seg (k, info)" using qm by auto
    obtain A z where Az: "reduce_transaction info k seg = Some (A, z)" "reduced info k seg A z" using red[OF km] by blast
    have f: "ma_write q = wr" "ma_type q = ty" "ma_req_size q = z" "ma_addr q = A" "ma_warp_mask q = t_active info"
      "ma_byte_mask q = t_bytes info"
      by (simp_all add: q sent_access_def Az(1) mem_access_new_def)
    have z: "z \<in> {32, 64, 128}" "unat A mod unat z = 0" using Az(2) by (auto simp: reduced_def)
    have sect: "\<exists>t a. (t, a) \<in> set pairs \<and> serves sz q t a \<and> unat k div 128 * 128 + 32 * c \<le> unat a \<and>
        unat a < unat k div 128 * 128 + 32 * c + 32" if c: "bit (chunks info) c" for c
    proof -
      obtain t a where a: "(t, a) \<in> set pairs" "block_of seg a = k" "line_offset a div 32 = c"
        using chs[of k c] tr[OF km] c by auto
      have "unat k = unat a div unat seg * unat seg" using block_of_div[OF seg, of a] al a by (auto simp: aligned_def)
      then have "unat k div 128 = unat a div 128" by (rule sector_bounds(3)[OF seg _ refl])
      then show ?thesis using serve[OF km a(1,2)] a(1) sector_place[of a] unfolding q a(3) by auto
    qed
    have "\<exists>t a u b. (t, a) \<in> set pairs \<and> serves sz q t a \<and> (u, b) \<in> set pairs \<and> serves sz q u b \<and>
        unat a < unat A + unat z div 2 \<and> unat A + unat z div 2 \<le> unat b" if zn: "z \<noteq> 32"
    proof -
      obtain c d where cd: "bit (chunks info) c" "bit (chunks info) d" "unat k div 128 * 128 + 32 * c < unat A + unat z div 2"
          "unat A + unat z div 2 \<le> unat k div 128 * 128 + 32 * d"
        using Az(2) zn unfolding reduced_def by blast
      have "32 dvd unat A + unat z div 2" using z zn by (auto intro!: dvd_add intro: dvd_trans simp: mod_eq_0_iff_dvd)
      moreover have "32 dvd unat k div 128 * 128 + 32 * c" by (intro dvd_add) (simp_all add: dvd_mult)
      ultimately have "unat k div 128 * 128 + 32 * c + 32 \<le> unat A + unat z div 2" using cd(3) next_multiple by blast
      then show ?thesis using sect[OF cd(1)] sect[OF cd(2)] cd(4) by (meson less_le_trans le_trans)
    qed
    moreover have "\<exists>a. (t, a) \<in> set pairs \<and> serves sz q t a" if "bit (t_active info) t" for t
      using acs[of k t] tr[OF km] serve[OF km] that unfolding q by metis
    moreover have "\<exists>t a. (t, a) \<in> set pairs \<and> serves sz q t a \<and> line_offset a \<le> b \<and> b < line_offset a + unat sz"
      if tb: "bit (t_bytes info) b" for b
    proof -
      obtain t a where "(t, a) \<in> set pairs" "block_of seg a = k" "line_offset a \<le> b" "b < line_offset a + unat sz"
        using bys[of k b] tr[OF km] tb by auto
      then show ?thesis using serve[OF km] unfolding q by blast
    qed
    ultimately show ?thesis using z unfolding request_ok_def f by blast
  qed
qed


lemma lane_addrs_accessq [simp]: "lane_addrs (w\<lparr>accessq := qs\<rparr>) t = lane_addrs w t"
  by (simp add: lane_addrs_def w_active_def cong: if_cong)

lemma lane_accessq [simp]:
  "lane_pairs (w\<lparr>accessq := qs\<rparr>) ts = lane_pairs w ts"
  "warp_access_ok cfg (w\<lparr>accessq := qs\<rparr>) = warp_access_ok cfg w" "segment_size cfg (w\<lparr>accessq := qs\<rparr>) = segment_size cfg w"
  "access_bytes (w\<lparr>accessq := qs\<rparr>) = access_bytes w"
  by (simp_all add: lane_pairs_def warp_access_ok_def segment_size_def sector_segment_size_def
      access_bytes_def cong: if_cong)

text \<open>The accesses of the threads \<open>ts\<close>, and the segments they touch.\<close>

definition accesses_of :: "warp_inst \<Rightarrow> nat list \<Rightarrow> (nat \<times> u64) set" where
  "accesses_of w ts = {(t, a). t \<in> set ts \<and> a \<in> set (lane_addrs w t)}"

definition segments_of :: "core_config \<Rightarrow> warp_inst \<Rightarrow> nat list \<Rightarrow> u64 set" where
  "segments_of cfg w ts = (\<lambda>(t, a). block_of (segment_size cfg w) a) ` accesses_of w ts"

lemma set_lane_pairs: "set (lane_pairs w ts) = accesses_of w ts"
  by (auto simp: lane_pairs_def accesses_of_def)

lemma request_ok_mono: "request_ok wr ty sz as q \<Longrightarrow> as \<subseteq> bs \<Longrightarrow> request_ok wr ty sz bs q"
  unfolding request_ok_def by blast

lemma subwarp_threads_lt: "warp_access_ok cfg w \<Longrightarrow> s < mem_warp_parts cfg \<Longrightarrow> t \<in> set (subwarp_threads cfg s) \<Longrightarrow> t < warp_size cfg"
proof -
  assume "warp_access_ok cfg w" "s < mem_warp_parts cfg" "t \<in> set (subwarp_threads cfg s)"
  then have "t < (s + 1) * (warp_size cfg div mem_warp_parts cfg)" "s + 1 \<le> mem_warp_parts cfg"
    by (auto simp: subwarp_threads_def Let_def)
  moreover have "(s + 1) * (warp_size cfg div mem_warp_parts cfg) \<le> mem_warp_parts cfg * (warp_size cfg div mem_warp_parts cfg)"
    using calculation(2) by (rule mult_le_mono1)
  ultimately show ?thesis using times_div_less_eq_dividend[of "mem_warp_parts cfg" "warp_size cfg"] by linarith
qed

lemma coalesce_subwarp_ok:
  assumes ok: "warp_access_ok cfg w" and s: "s < mem_warp_parts cfg"
  obtains qs where "coalesce_subwarp cfg wr ty s w = Some (w\<lparr>accessq := accessq w @ qs\<rparr>)"
    "\<And>t a. (t, a) \<in> accesses_of w (subwarp_threads cfg s) \<Longrightarrow> \<exists>q \<in> set qs. serves (access_bytes w) q t a"
    "\<And>q. q \<in> set qs \<Longrightarrow> request_ok wr ty (access_bytes w) (accesses_of w (subwarp_threads cfg s)) q"
    "length qs = card (segments_of cfg w (subwarp_threads cfg s))"
proof -
  let ?ts = "subwarp_threads cfg s" and ?seg = "segment_size cfg w" and ?sz = "access_bytes w"
  have lt: "\<forall>t \<in> set ?ts. t < warp_size cfg" using subwarp_threads_lt[OF ok s] by blast
  have seg: "seg_ok ?seg" using ok seg_ok_segment by (auto simp: warp_access_ok_def)
  obtain m where m: "each (coalesce_thread cfg w) ?ts [] = Some m" "records ?seg ?sz (lane_pairs w ?ts) m"
    using coalesce_threads[OF ok lt records_Nil] by auto
  have al: "\<forall>(t, a) \<in> set (lane_pairs w ?ts). aligned ?sz a"
    using ok lt by (auto simp: set_lane_pairs accesses_of_def warp_access_ok_def)
  note req = sent_requests[OF m(2) seg al]
  show ?thesis
  proof (rule that)
    show "coalesce_subwarp cfg wr ty s w = Some (w\<lparr>accessq := accessq w @ map (sent_access wr ty ?seg) m\<rparr>)"
      using m(1) send_all[OF req(1)] by (simp add: coalesce_subwarp_def)
    show "length (map (sent_access wr ty ?seg) m) = card (segments_of cfg w ?ts)"
      using req(4) by (simp add: set_lane_pairs segments_of_def image_image case_prod_unfold)
  qed (use req(2,3)[where wr = wr and ty = ty] set_lane_pairs in auto)
qed

lemma coalesce_subwarps:
  assumes "warp_access_ok cfg w" "\<forall>s \<in> set ss. s < mem_warp_parts cfg"
  shows "\<exists>qs. each (coalesce_subwarp cfg wr ty) ss w = Some (w\<lparr>accessq := accessq w @ qs\<rparr>) \<and>
    (\<forall>s \<in> set ss. \<forall>(t, a) \<in> accesses_of w (subwarp_threads cfg s). \<exists>q \<in> set qs. serves (access_bytes w) q t a) \<and>
    (\<forall>q \<in> set qs. \<exists>s \<in> set ss. request_ok wr ty (access_bytes w) (accesses_of w (subwarp_threads cfg s)) q) \<and>
    length qs = (\<Sum>s\<leftarrow>ss. card (segments_of cfg w (subwarp_threads cfg s)))"
  using assms
proof (induction ss arbitrary: w)
  case Nil
  then show ?case by (intro exI[of _ "[]"]) simp
next
  case (Cons s ss)
  have s: "s < mem_warp_parts cfg" using Cons.prems(2) by simp
  obtain qs where qs: "coalesce_subwarp cfg wr ty s w = Some (w\<lparr>accessq := accessq w @ qs\<rparr>)"
    "\<And>t a. (t, a) \<in> accesses_of w (subwarp_threads cfg s) \<Longrightarrow> \<exists>q \<in> set qs. serves (access_bytes w) q t a"
    "\<And>q. q \<in> set qs \<Longrightarrow> request_ok wr ty (access_bytes w) (accesses_of w (subwarp_threads cfg s)) q"
    "length qs = card (segments_of cfg w (subwarp_threads cfg s))"
    by (rule coalesce_subwarp_ok[OF Cons.prems(1) s, where wr = wr and ty = ty]) blast
  let ?w = "w\<lparr>accessq := accessq w @ qs\<rparr>"
  have same: "accesses_of ?w ts = accesses_of w ts" "segments_of cfg ?w ts = segments_of cfg w ts" for ts
    by (simp_all add: accesses_of_def segments_of_def)
  obtain rs where rs: "each (coalesce_subwarp cfg wr ty) ss ?w = Some (?w\<lparr>accessq := accessq ?w @ rs\<rparr>)"
    "\<forall>s \<in> set ss. \<forall>(t, a) \<in> accesses_of w (subwarp_threads cfg s). \<exists>q \<in> set rs. serves (access_bytes w) q t a"
    "\<forall>q \<in> set rs. \<exists>s \<in> set ss. request_ok wr ty (access_bytes w) (accesses_of w (subwarp_threads cfg s)) q"
    "length rs = (\<Sum>s\<leftarrow>ss. card (segments_of cfg w (subwarp_threads cfg s)))"
    using Cons.IH[of ?w] Cons.prems by (auto simp: same)
  show ?case
  proof (intro exI[of _ "qs @ rs"] conjI)
    show "each (coalesce_subwarp cfg wr ty) (s # ss) w = Some (w\<lparr>accessq := accessq w @ qs @ rs\<rparr>)"
      using qs(1) rs(1) by simp
    show "length (qs @ rs) = (\<Sum>s\<leftarrow>s # ss. card (segments_of cfg w (subwarp_threads cfg s)))"
      using qs(4) rs(4) by simp
    show "\<forall>s' \<in> set (s # ss). \<forall>(t, a) \<in> accesses_of w (subwarp_threads cfg s'). \<exists>q \<in> set (qs @ rs). serves (access_bytes w) q t a"
      using qs(2) rs(2) by fastforce
    show "\<forall>q \<in> set (qs @ rs). \<exists>s' \<in> set (s # ss). request_ok wr ty (access_bytes w) (accesses_of w (subwarp_threads cfg s')) q"
      using qs(3) rs(3) by auto
  qed
qed


section \<open>Coalescing is correct\<close>

lemma coalescing_arch_ok:
  assumes "warp_access_ok cfg w"
  shows "\<exists>qs. memory_coalescing_arch cfg wr ty w = Some (w\<lparr>accessq := accessq w @ qs\<rparr>) \<and>
    (\<forall>s < mem_warp_parts cfg. \<forall>(t, a) \<in> accesses_of w (subwarp_threads cfg s).
       \<exists>q \<in> set qs. serves (access_bytes w) q t a) \<and>
    (\<forall>q \<in> set qs. \<exists>s < mem_warp_parts cfg.
       request_ok wr ty (access_bytes w) (accesses_of w (subwarp_threads cfg s)) q) \<and>
    length qs = (\<Sum>s < mem_warp_parts cfg. card (segments_of cfg w (subwarp_threads cfg s)))"
proof -
  have "memory_coalescing_arch cfg wr ty w = each (coalesce_subwarp cfg wr ty) [0..<mem_warp_parts cfg] w"
    using assms by (simp add: memory_coalescing_arch_def warp_access_ok_def)
  with coalesce_subwarps[OF assms, of "[0..<mem_warp_parts cfg]" wr ty] show ?thesis
    by (simp add: interv_sum_list_conv_sum_set_nat atLeast0LessThan) blast
qed

text \<open>The threads of the warp that make up part \<open>s\<close> of it, and their accesses.\<close>

definition part_accesses :: "core_config \<Rightarrow> warp_inst \<Rightarrow> nat \<Rightarrow> (nat \<times> u64) set" where
  "part_accesses cfg w s = {(t, a). t < warp_size cfg \<and> t div (warp_size cfg div mem_warp_parts cfg) = s \<and>
     a \<in> set (lane_addrs w t)}"

lemma subwarp_threads_part:
  assumes "mem_warp_parts cfg \<noteq> 0" "mem_warp_parts cfg dvd warp_size cfg" "s < mem_warp_parts cfg"
  shows "t \<in> set (subwarp_threads cfg s) \<longleftrightarrow> t < warp_size cfg \<and> t div (warp_size cfg div mem_warp_parts cfg) = s"
proof (cases "warp_size cfg = 0")
  case False
  let ?n = "warp_size cfg div mem_warp_parts cfg"
  have n: "warp_size cfg = mem_warp_parts cfg * ?n" "0 < ?n" using assms False by (auto simp: dvd_div_eq_0_iff)
  have "t < warp_size cfg" if "t < (s + 1) * ?n"
  proof -
    have "(s + 1) * ?n \<le> mem_warp_parts cfg * ?n" using assms(3) by (intro mult_le_mono1) simp
    then show ?thesis using that n(1) by linarith
  qed
  moreover have "(t div ?n = s) = (s * ?n \<le> t \<and> t < (s + 1) * ?n)"
  proof
    assume "t div ?n = s"
    then show "s * ?n \<le> t \<and> t < (s + 1) * ?n" using n(2) div_mult_mod_eq[of t ?n] mod_less_divisor[OF n(2), of t] by auto
  next
    assume "s * ?n \<le> t \<and> t < (s + 1) * ?n"
    then show "t div ?n = s" by (intro div_nat_eqI) (simp_all add: mult.commute)
  qed
  ultimately show ?thesis by (auto simp: subwarp_threads_def Let_def)
qed (simp add: subwarp_threads_def)

lemma accesses_of_part:
  assumes "mem_warp_parts cfg \<noteq> 0" "mem_warp_parts cfg dvd warp_size cfg" "s < mem_warp_parts cfg"
  shows "accesses_of w (subwarp_threads cfg s) = part_accesses cfg w s"
  using subwarp_threads_part[OF assms] by (auto simp: accesses_of_def part_accesses_def)

text \<open>
  C5: for every warp instruction with aligned addresses below 4 GB the coalescer succeeds, and its
  requests are exactly what the threads need, when the parts of the warp have equal sizes
  (\<open>mem_warp_parts\<close> divides the warp size): every address of every active thread of the warp lies, with
  all its bytes, inside one request that names the thread, its sector and its bytes; and every request
  is an aligned block of 32, 64 or 128 bytes with the right kind that serves the threads of one part,
  names no thread and no byte that no access needs, and could not be halved.
\<close>

theorem coalescing_serves_every_access:
  assumes "warp_access_ok cfg w" "mem_warp_parts cfg dvd warp_size cfg"
  shows "\<exists>qs. memory_coalescing_arch cfg wr ty w = Some (w\<lparr>accessq := accessq w @ qs\<rparr>) \<and>
    (\<forall>t < warp_size cfg. \<forall>a \<in> set (lane_addrs w t). \<exists>q \<in> set qs. serves (access_bytes w) q t a) \<and>
    (\<forall>q \<in> set qs. \<exists>s < mem_warp_parts cfg. request_ok wr ty (access_bytes w) (part_accesses cfg w s) q)"
proof -
  obtain qs where qs: "memory_coalescing_arch cfg wr ty w = Some (w\<lparr>accessq := accessq w @ qs\<rparr>)"
    "\<forall>s < mem_warp_parts cfg. \<forall>(t, a) \<in> accesses_of w (subwarp_threads cfg s). \<exists>q \<in> set qs. serves (access_bytes w) q t a"
    "\<forall>q \<in> set qs. \<exists>s < mem_warp_parts cfg. request_ok wr ty (access_bytes w) (accesses_of w (subwarp_threads cfg s)) q"
    using coalescing_arch_ok[OF assms(1), of wr ty] by blast
  have parts: "mem_warp_parts cfg \<noteq> 0" using assms(1) by (simp add: warp_access_ok_def)
  note same = accesses_of_part[OF parts assms(2)]
  have "\<exists>q \<in> set qs. serves (access_bytes w) q t a" if t: "t < warp_size cfg" "a \<in> set (lane_addrs w t)" for t a
  proof -
    let ?s = "t div (warp_size cfg div mem_warp_parts cfg)"
    have "?s < mem_warp_parts cfg"
      using t(1) parts assms(2) by (auto simp: dvd_def less_mult_imp_div_less)
    then show ?thesis using qs(2) same[of ?s w] t by (auto simp: part_accesses_def)
  qed
  moreover have "\<forall>q \<in> set qs. \<exists>s < mem_warp_parts cfg. request_ok wr ty (access_bytes w) (part_accesses cfg w s) q"
    using qs(3) same by metis
  ultimately show ?thesis using qs(1) by blast
qed

text \<open>
  C24: coalescing sends as few requests as the segments allow: one for each segment that the threads of
  a subwarp touch, however many threads touch it.
\<close>

theorem coalescing_one_request_per_segment:
  assumes "warp_access_ok cfg w"
  shows "\<exists>qs. memory_coalescing_arch cfg wr ty w = Some (w\<lparr>accessq := accessq w @ qs\<rparr>) \<and>
    length qs = (\<Sum>s < mem_warp_parts cfg. card (segments_of cfg w (subwarp_threads cfg s)))"
  using coalescing_arch_ok[OF assms, of wr ty] by blast

text \<open>Two threads that load neighbouring words of one sector.\<close>

definition two_lanes_config :: core_config where
  "two_lanes_config = \<lparr>warp_size = 2, gpgpu_coalesce_arch = 70, shmem_limited_broadcast = False, num_shmem_bank = 32,
     mem_warp_parts = 1, gpgpu_cache_texl1_linesize = 128, gpgpu_cache_constl1_linesize = 64, gmem_skip_L1D = False\<rparr>"

definition two_lanes_load :: warp_inst where
  "two_lanes_load = \<lparr>i_pc = 0, isize = 8, i_op = LOAD_OP, memory_op = memory_load, reconvergence_pc = 0, inst_out = [],
     outcount = 0, inst_in = [], incount = 0, inst_pred = 0, ar1 = 0, ar2 = 0, initiation_interval = 1, data_size = 4,
     i_space = global_space, cache_op = CACHE_ALL, w_uid = 1, w_empty = False, w_cache_hit = False, issue_cycle = 0,
     w_cycles = 0, w_isatomic = False, w_warp_id = 0, w_dynamic_warp_id = 0, w_active_mask = 3, w_issued_mask = 3,
     per_scalar_thread_valid = True, memreqaddr = [[64, 0], [68, 0]], mem_accesses_created = False, accessq = [],
     w_scheduler_id = 0\<rparr>"

lemma two_lanes_addrs:
  "lane_addrs two_lanes_load 0 = [64]" "lane_addrs two_lanes_load (Suc 0) = [68]"
  by (simp_all add: lane_addrs_def w_active_def two_lanes_load_def)

lemma two_lanes_ok: "warp_access_ok two_lanes_config two_lanes_load"
proof -
  have "\<forall>a \<in> set (lane_addrs two_lanes_load t). aligned 4 a" if "t < 2" for t
    using that by (cases "t = 0") (auto simp: two_lanes_addrs aligned_def less_2_cases_iff)
  then show ?thesis
    by (simp add: warp_access_ok_def two_lanes_config_def access_bytes_def) (simp add: two_lanes_load_def)
qed

lemma two_lanes_threads: "subwarp_threads two_lanes_config 0 = [0, Suc 0]" "mem_warp_parts two_lanes_config = 1"
  by (simp_all add: subwarp_threads_def two_lanes_config_def upt_rec)

lemma two_lanes_size: "access_bytes two_lanes_load = 4" "segment_size two_lanes_config two_lanes_load = 32"
  by (simp_all add: access_bytes_def segment_size_def sector_segment_size_def two_lanes_load_def two_lanes_config_def)

theorem coalescing_serves_every_access_witness:
  "\<exists>qs. memory_coalescing_arch two_lanes_config False GLOBAL_ACC_R two_lanes_load =
      Some (two_lanes_load\<lparr>accessq := accessq two_lanes_load @ qs\<rparr>) \<and>
    (\<exists>q \<in> set qs. serves 4 q 0 64) \<and> (\<exists>q \<in> set qs. serves 4 q 1 68)"
proof -
  have "64 \<in> set (lane_addrs two_lanes_load 0)" "68 \<in> set (lane_addrs two_lanes_load 1)"
    "(0 :: nat) < warp_size two_lanes_config" "(1 :: nat) < warp_size two_lanes_config"
    "mem_warp_parts two_lanes_config dvd warp_size two_lanes_config"
    by (simp_all add: two_lanes_addrs two_lanes_config_def)
  then show ?thesis
    using coalescing_serves_every_access[OF two_lanes_ok, of False GLOBAL_ACC_R]
    unfolding two_lanes_size(1) by blast
qed

theorem coalescing_one_request_per_segment_witness:
  "\<exists>qs. memory_coalescing_arch two_lanes_config False GLOBAL_ACC_R two_lanes_load =
      Some (two_lanes_load\<lparr>accessq := accessq two_lanes_load @ qs\<rparr>) \<and> length qs = 1"
proof -
  have "accesses_of two_lanes_load [0, Suc 0] = {(0, 64), (Suc 0, 68)}"
    by (auto simp: accesses_of_def two_lanes_addrs)
  then have "segments_of two_lanes_config two_lanes_load [0, Suc 0] = {64}"
    by (simp add: segments_of_def two_lanes_size block_of_def line_size_based_tag_func_def)
  then have "(\<Sum>s < mem_warp_parts two_lanes_config. card (segments_of two_lanes_config two_lanes_load (subwarp_threads two_lanes_config s))) = 1"
    by (simp add: two_lanes_threads)
  then show ?thesis
    using coalescing_one_request_per_segment[OF two_lanes_ok, of False GLOBAL_ACC_R] by simp
qed

end
