(* ===== verification/Scoreboard.thy ===== *)
theory Scoreboard
  imports WarpInst
begin

text \<open>
  The scoreboard (\<open>scoreboard.cc\<close>): per warp, the registers that instructions in flight will write,
  and those among them that wait for memory. A register set is a set; indexing the table with a warp
  it does not have stops the model. Printing and tracing are left out.
\<close>

section \<open>State and operations\<close>

abbreviation MAX_OUTPUT_VALUES :: nat where "MAX_OUTPUT_VALUES \<equiv> 8"

record scoreboard =
  m_sid :: u32
  reg_table :: "u32 set list"
  longopregs :: "u32 set list"

definition scoreboard_new :: "u32 \<Rightarrow> nat \<Rightarrow> scoreboard" where
  "scoreboard_new sid n_warps = \<lparr>m_sid = sid, reg_table = replicate n_warps {}, longopregs = replicate n_warps {}\<rparr>"

definition reserveRegister :: "nat \<Rightarrow> u32 \<Rightarrow> scoreboard \<Rightarrow> scoreboard option" where
  "reserveRegister wid regnum s = do {
     t \<leftarrow> at (reg_table s) wid;
     ensure (regnum \<notin> t);
     ts \<leftarrow> put (reg_table s) wid (insert regnum t);
     Some (s\<lparr>reg_table := ts\<rparr>) }"

definition releaseRegister :: "nat \<Rightarrow> u32 \<Rightarrow> scoreboard \<Rightarrow> scoreboard option" where
  "releaseRegister wid regnum s = do {
     t \<leftarrow> at (reg_table s) wid;
     (if regnum \<notin> t then Some s
      else do { ts \<leftarrow> put (reg_table s) wid (t - {regnum}); Some (s\<lparr>reg_table := ts\<rparr>) }) }"

definition islongop :: "nat \<Rightarrow> u32 \<Rightarrow> scoreboard \<Rightarrow> bool option" where
  "islongop wid regnum s = do { t \<leftarrow> at (longopregs s) wid; Some (regnum \<in> t) }"

definition long_space :: "memory_space \<Rightarrow> bool" where
  "long_space sp = (sp = global_space \<or> sp = local_space \<or> sp = param_space_kernel \<or> sp = param_space_local \<or>
     sp = param_space_unclassified \<or> sp = tex_space)"

definition mark_long :: "nat \<Rightarrow> u32 \<Rightarrow> scoreboard \<Rightarrow> scoreboard option" where
  "mark_long wid regnum s = do {
     t \<leftarrow> at (longopregs s) wid;
     ts \<leftarrow> put (longopregs s) wid (insert regnum t);
     Some (s\<lparr>longopregs := ts\<rparr>) }"

definition unmark_long :: "nat \<Rightarrow> u32 \<Rightarrow> scoreboard \<Rightarrow> scoreboard option" where
  "unmark_long wid regnum s = do {
     t \<leftarrow> at (longopregs s) wid;
     ts \<leftarrow> put (longopregs s) wid (t - {regnum});
     Some (s\<lparr>longopregs := ts\<rparr>) }"

text \<open>The loops over the output registers of an instruction skip register 0.\<close>

definition for_outputs :: "(nat \<Rightarrow> u32 \<Rightarrow> scoreboard \<Rightarrow> scoreboard option) \<Rightarrow> warp_inst \<Rightarrow> scoreboard \<Rightarrow> scoreboard option" where
  "for_outputs f w = each (\<lambda>r s. do {
     reg \<leftarrow> at (inst_out w) r;
     (if 0 < reg then do { wid \<leftarrow> warp_id w; f (unat wid) reg s } else Some s) }) [0..<MAX_OUTPUT_VALUES]"

definition reserveRegisters :: "warp_inst \<Rightarrow> scoreboard \<Rightarrow> scoreboard option" where
  "reserveRegisters w s = do {
     s \<leftarrow> for_outputs reserveRegister w s;
     (if is_load w \<and> long_space (i_space w) then for_outputs mark_long w s else Some s) }"

definition release_output :: "nat \<Rightarrow> u32 \<Rightarrow> scoreboard \<Rightarrow> scoreboard option" where
  "release_output wid regnum s = do { s \<leftarrow> releaseRegister wid regnum s; unmark_long wid regnum s }"

definition releaseRegisters :: "warp_inst \<Rightarrow> scoreboard \<Rightarrow> scoreboard option" where
  "releaseRegisters w s = for_outputs release_output w s"

text \<open>The registers an instruction reads or writes; the predicate and address registers count when positive.\<close>

definition inst_regs :: "'a inst_scheme \<Rightarrow> u32 set option" where
  "inst_regs i = do {
     ensure (unat (outcount i) \<le> length (inst_out i) \<and> unat (incount i) \<le> length (inst_in i));
     Some (set (take (unat (outcount i)) (inst_out i)) \<union> set (take (unat (incount i)) (inst_in i)) \<union>
       set (filter (\<lambda>r. 0 <s r) [inst_pred i, ar1 i, ar2 i])) }"

definition checkCollision :: "nat \<Rightarrow> 'a inst_scheme \<Rightarrow> scoreboard \<Rightarrow> bool option" where
  "checkCollision wid i s = do {
     regs \<leftarrow> inst_regs i;
     t \<leftarrow> at (reg_table s) wid;
     Some (regs \<inter> t \<noteq> {}) }"

definition pendingWrites :: "nat \<Rightarrow> scoreboard \<Rightarrow> bool option" where
  "pendingWrites wid s = do { t \<leftarrow> at (reg_table s) wid; Some (t \<noteq> {}) }"


section \<open>The loops as set operations\<close>

definition out_regs :: "warp_inst \<Rightarrow> u32 list" where
  "out_regs w = filter (\<lambda>r. 0 < r) (take MAX_OUTPUT_VALUES (inst_out w))"

abbreviation wid_of :: "warp_inst \<Rightarrow> nat" where "wid_of w \<equiv> unat (w_warp_id w)"

lemma each_Nil: "each g [] = Some"
  by (rule ext) simp

lemma for_outputs_each:
  assumes "\<not> w_empty w" "MAX_OUTPUT_VALUES \<le> length (inst_out w)"
  shows "for_outputs f w s = each (f (wid_of w)) (out_regs w) s"
proof -
  have "each (\<lambda>r s. do {
     reg \<leftarrow> at (inst_out w) r;
     (if 0 < reg then do { wid \<leftarrow> warp_id w; f (unat wid) reg s } else Some s) }) [0..<n] s =
     each (f (wid_of w)) (filter (\<lambda>r. 0 < r) (take n (inst_out w))) s" if "n \<le> length (inst_out w)" for n
    using that
  proof (induction n)
    case (Suc n)
    then have t: "take (Suc n) (inst_out w) = take n (inst_out w) @ [inst_out w ! n]"
      by (simp add: take_Suc_conv_app_nth)
    show ?case
      using Suc assms(1) unfolding t filter_append upt_Suc_append[OF le0]
      by (cases "each (f (wid_of w)) (filter (\<lambda>r. 0 < r) (take n (inst_out w))) s"; cases "0 < inst_out w ! n")
        (simp_all add: each_append each_Nil warp_id_def ensure_def)
  qed simp
  then show ?thesis using assms(2) by (simp add: for_outputs_def out_regs_def)
qed

lemma each_reserve:
  "wid < length (reg_table s) \<Longrightarrow> distinct rs \<Longrightarrow> set rs \<inter> reg_table s ! wid = {} \<Longrightarrow>
   each (reserveRegister wid) rs s = Some (s\<lparr>reg_table := (reg_table s)[wid := reg_table s ! wid \<union> set rs]\<rparr>)"
proof (induction rs arbitrary: s)
  case (Cons r rs)
  let ?s = "s\<lparr>reg_table := (reg_table s)[wid := insert r (reg_table s ! wid)]\<rparr>"
  have "reserveRegister wid r s = Some ?s" using Cons.prems by (simp add: reserveRegister_def)
  moreover have "each (reserveRegister wid) rs ?s =
      Some (?s\<lparr>reg_table := (reg_table ?s)[wid := reg_table ?s ! wid \<union> set rs]\<rparr>)"
    by (rule Cons.IH) (use Cons.prems in auto)
  ultimately show ?case using Cons.prems(1) by simp
qed simp

lemma each_mark_long:
  "wid < length (longopregs s) \<Longrightarrow>
   each (mark_long wid) rs s = Some (s\<lparr>longopregs := (longopregs s)[wid := longopregs s ! wid \<union> set rs]\<rparr>)"
proof (induction rs arbitrary: s)
  case (Cons r rs)
  let ?s = "s\<lparr>longopregs := (longopregs s)[wid := insert r (longopregs s ! wid)]\<rparr>"
  have "mark_long wid r s = Some ?s" using Cons.prems by (simp add: mark_long_def)
  moreover have "each (mark_long wid) rs ?s =
      Some (?s\<lparr>longopregs := (longopregs ?s)[wid := longopregs ?s ! wid \<union> set rs]\<rparr>)"
    by (rule Cons.IH) (use Cons.prems in simp)
  ultimately show ?case using Cons.prems by simp
qed simp

lemma each_release:
  "wid < length (reg_table s) \<Longrightarrow> wid < length (longopregs s) \<Longrightarrow>
   each (release_output wid) rs s = Some (s\<lparr>reg_table := (reg_table s)[wid := reg_table s ! wid - set rs],
     longopregs := (longopregs s)[wid := longopregs s ! wid - set rs]\<rparr>)"
proof (induction rs arbitrary: s)
  case (Cons r rs)
  let ?s = "s\<lparr>reg_table := (reg_table s)[wid := reg_table s ! wid - {r}],
     longopregs := (longopregs s)[wid := longopregs s ! wid - {r}]\<rparr>"
  have "release_output wid r s = Some ?s"
    using Cons.prems by (auto simp: release_output_def releaseRegister_def unmark_long_def)
  moreover have "each (release_output wid) rs ?s = Some (?s\<lparr>reg_table := (reg_table ?s)[wid := reg_table ?s ! wid - set rs],
     longopregs := (longopregs ?s)[wid := longopregs ?s ! wid - set rs]\<rparr>)"
    by (rule Cons.IH) (use Cons.prems in simp_all)
  moreover have "A - {r} - set rs = A - insert r (set rs)" for A by auto
  ultimately show ?case using Cons.prems by simp
qed simp


section \<open>Instructions in flight\<close>

text \<open>
  What the decoder guarantees: the array sizes, output registers that are distinct and among the first
  \<open>outcount\<close>, and a warp that exists.
\<close>

definition inst_ok :: "nat \<Rightarrow> warp_inst \<Rightarrow> bool" where
  "inst_ok n w = (\<not> w_empty w \<and> wid_of w < n \<and> length (inst_out w) = MAX_OUTPUT_VALUES \<and>
     unat (outcount w) \<le> MAX_OUTPUT_VALUES \<and> unat (incount w) \<le> length (inst_in w) \<and> distinct (out_regs w) \<and>
     set (out_regs w) \<subseteq> set (take (unat (outcount w)) (inst_out w)))"

definition is_long :: "warp_inst \<Rightarrow> bool" where
  "is_long w = (is_load w \<and> long_space (i_space w))"

datatype sb_op = Issue warp_inst | Complete warp_inst | Write_back warp_inst u32

text \<open>
  An instruction in flight with the output registers it has yet to write. The issue stage reserves the
  outputs of an instruction that does not collide. An instruction completes in one of the two ways the
  program has: the write-back of the pipelines (and of a load without pending requests) releases all its
  outputs with \<open>releaseRegisters\<close>; the load/store unit releases the outputs of a load one at a time with
  \<open>releaseRegister\<close>, which leaves the mark of a long operation in place. The last component keeps, as
  pairs of a warp and a register, the marks left over in this way.
\<close>

type_synonym in_flight = "(warp_inst \<times> u32 set) list"

type_synonym sb_state = "scoreboard \<times> in_flight \<times> (nat \<times> u32) set"

fun written_back :: "warp_inst \<Rightarrow> u32 \<Rightarrow> in_flight \<Rightarrow> in_flight" where
  "written_back w r [] = []"
| "written_back w r ((v, P) # fl) =
    (if v = w \<and> r \<in> P then (if P = {r} then fl else (v, P - {r}) # fl) else (v, P) # written_back w r fl)"

fun sb_step :: "sb_op \<Rightarrow> sb_state \<Rightarrow> sb_state option" where
  "sb_step (Issue w) (s, fl, left) = do {
     collides \<leftarrow> checkCollision (wid_of w) w s;
     ensure (\<not> collides);
     s \<leftarrow> reserveRegisters w s;
     Some (s, (w, set (out_regs w)) # fl, left) }"
| "sb_step (Complete w) (s, fl, left) = do {
     ensure ((w, set (out_regs w)) \<in> set fl);
     s \<leftarrow> releaseRegisters w s;
     Some (s, remove1 (w, set (out_regs w)) fl, left - {wid_of w} \<times> set (out_regs w)) }"
| "sb_step (Write_back w r) (s, fl, left) = do {
     ensure (list_ex (\<lambda>(v, P). v = w \<and> r \<in> P) fl);
     s \<leftarrow> releaseRegister (wid_of w) r s;
     Some (s, written_back w r fl, if is_long w then insert (wid_of w, r) left else left) }"

fun sb_op_ok :: "nat \<Rightarrow> sb_op \<Rightarrow> bool" where
  "sb_op_ok n (Issue w) = inst_ok n w"
| "sb_op_ok n (Complete w) = True"
| "sb_op_ok n (Write_back w r) = True"

fun independent :: "warp_inst \<times> u32 set \<Rightarrow> warp_inst \<times> u32 set \<Rightarrow> bool" where
  "independent (v, P) (w, Q) = (wid_of v = wid_of w \<longrightarrow> P \<inter> Q = {})"

definition writes_of :: "in_flight \<Rightarrow> nat \<Rightarrow> u32 set" where
  "writes_of fl wid = (\<Union>(w, P) \<in> set fl. if wid_of w = wid then P else {})"

abbreviation long_writes_of :: "in_flight \<Rightarrow> nat \<Rightarrow> u32 set" where
  "long_writes_of fl \<equiv> writes_of (filter (\<lambda>e. is_long (fst e)) fl)"

definition sb_ok :: "nat \<Rightarrow> sb_state \<Rightarrow> bool" where
  "sb_ok n = (\<lambda>(s, fl, left). length (reg_table s) = n \<and> length (longopregs s) = n \<and>
     (\<forall>(w, P) \<in> set fl. inst_ok n w \<and> P \<subseteq> set (out_regs w)) \<and> sorted_wrt independent fl \<and>
     (\<forall>wid < n. reg_table s ! wid = writes_of fl wid \<and> longopregs s ! wid = long_writes_of fl wid \<union> left `` {wid}))"

lemma independent_sym: "independent x y = independent y x"
  by (cases x; cases y) auto

lemma reserve_ok:
  assumes w: "inst_ok n w" and s: "length (reg_table s) = n" "length (longopregs s) = n"
    and c: "checkCollision (wid_of w) w s = Some False"
  shows "set (out_regs w) \<inter> reg_table s ! wid_of w = {}"
    and "reserveRegisters w s = Some (s\<lparr>reg_table := (reg_table s)[wid_of w := reg_table s ! wid_of w \<union> set (out_regs w)],
      longopregs := (if is_long w then (longopregs s)[wid_of w := longopregs s ! wid_of w \<union> set (out_regs w)] else longopregs s)\<rparr>)"
proof -
  show d: "set (out_regs w) \<inter> reg_table s ! wid_of w = {}"
    using c w by (auto simp: checkCollision_def inst_regs_def inst_ok_def bind_Some_iff)
  have "for_outputs reserveRegister w s = Some (s\<lparr>reg_table := (reg_table s)[wid_of w := reg_table s ! wid_of w \<union> set (out_regs w)]\<rparr>)"
    using for_outputs_each[of w reserveRegister s] each_reserve[of "wid_of w" s "out_regs w"] w s d by (simp add: inst_ok_def)
  moreover have "for_outputs mark_long w s' = Some (s'\<lparr>longopregs := (longopregs s')[wid_of w := longopregs s' ! wid_of w \<union> set (out_regs w)]\<rparr>)"
    if "length (longopregs s') = n" for s'
    using for_outputs_each[of w mark_long s'] each_mark_long[of "wid_of w" s' "out_regs w"] w that by (simp add: inst_ok_def)
  ultimately show "reserveRegisters w s = Some (s\<lparr>reg_table := (reg_table s)[wid_of w := reg_table s ! wid_of w \<union> set (out_regs w)],
      longopregs := (if is_long w then (longopregs s)[wid_of w := longopregs s ! wid_of w \<union> set (out_regs w)] else longopregs s)\<rparr>)"
    using s by (simp add: reserveRegisters_def is_long_def)
qed

lemma release_ok:
  assumes "inst_ok n w" "length (reg_table s) = n" "length (longopregs s) = n"
  shows "releaseRegisters w s = Some (s\<lparr>reg_table := (reg_table s)[wid_of w := reg_table s ! wid_of w - set (out_regs w)],
     longopregs := (longopregs s)[wid_of w := longopregs s ! wid_of w - set (out_regs w)]\<rparr>)"
  using for_outputs_each[of w release_output s] each_release[of "wid_of w" s "out_regs w"] assms
  by (simp add: releaseRegisters_def inst_ok_def)

lemma release_one: "wid < length (reg_table s) \<Longrightarrow>
    releaseRegister wid r s = Some (s\<lparr>reg_table := (reg_table s)[wid := reg_table s ! wid - {r}]\<rparr>)"
  by (auto simp: releaseRegister_def)

lemma release_each: "wid < length (reg_table s) \<Longrightarrow>
    each (releaseRegister wid) rs s = Some (s\<lparr>reg_table := (reg_table s)[wid := reg_table s ! wid - set rs]\<rparr>)"
proof (induction rs arbitrary: s)
  case (Cons r rs)
  have "A - {r} - set rs = A - insert r (set rs)" for A by auto
  then show ?case using Cons by (simp add: release_one)
qed simp

lemma writes_of_Cons: "writes_of ((w, P) # fl) wid = (if wid_of w = wid then P else {}) \<union> writes_of fl wid"
  by (simp add: writes_of_def)

lemma writes_of_append: "writes_of (xs @ ys) wid = writes_of xs wid \<union> writes_of ys wid"
  by (auto simp: writes_of_def)

lemma writes_of_Nil [simp]: "writes_of [] wid = {}"
  by (simp add: writes_of_def)

lemma long_writes_le: "long_writes_of fl wid \<subseteq> writes_of fl wid"
  by (induction fl) (auto simp: writes_of_Cons)

text \<open>What is left of an entry when some of its registers have been written.\<close>

definition rest_of :: "warp_inst \<Rightarrow> u32 set \<Rightarrow> in_flight" where
  "rest_of w Q = (if Q = {} then [] else [(w, Q)])"

lemma written_back_split:
  assumes "list_ex (\<lambda>(v, P). v = w \<and> r \<in> P) fl"
  obtains as P bs where "fl = as @ (w, P) # bs" "r \<in> P" "written_back w r fl = as @ rest_of w (P - {r}) @ bs"
  using assms
proof (induction fl arbitrary: thesis)
  case (Cons e fl)
  obtain v P where e: "e = (v, P)" by (cases e)
  show ?case
  proof (cases "v = w \<and> r \<in> P")
    case True
    then have "(P - {r} = {}) = (P = {r})" by auto
    then have "written_back w r (e # fl) = [] @ rest_of w (P - {r}) @ fl" using True by (simp add: e rest_of_def)
    then show ?thesis using Cons.prems(1)[of "[]" P fl] True by (simp add: e)
  next
    case False
    then have "list_ex (\<lambda>(v, P). v = w \<and> r \<in> P) fl" using Cons.prems(2) by (auto simp: e)
    then obtain as Q bs where "fl = as @ (w, Q) # bs" "r \<in> Q" "written_back w r fl = as @ rest_of w (Q - {r}) @ bs"
      using Cons.IH by blast
    then show ?thesis using Cons.prems(1)[of "e # as" Q bs] False by (simp add: e)
  qed
qed simp

lemma shrink_entry:
  assumes ok: "sb_ok n (s, as @ (w, P) # bs, left)" and S: "S \<subseteq> P"
  shows "sorted_wrt independent (as @ rest_of w (P - S) @ bs)"
    and "\<forall>(v, Q) \<in> set (as @ rest_of w (P - S) @ bs). inst_ok n v \<and> Q \<subseteq> set (out_regs v)"
    and "writes_of (as @ rest_of w (P - S) @ bs) wid =
      writes_of (as @ (w, P) # bs) wid - (if wid = wid_of w then S else {})"
    and "long_writes_of (as @ rest_of w (P - S) @ bs) wid =
      long_writes_of (as @ (w, P) # bs) wid - (if wid = wid_of w then S else {})"
proof -
  have o: "sorted_wrt independent (as @ (w, P) # bs)" "\<forall>(v, Q) \<in> set (as @ (w, P) # bs). inst_ok n v \<and> Q \<subseteq> set (out_regs v)"
    using ok by (simp_all add: sb_ok_def)
  have le: "independent x (w, P) \<Longrightarrow> independent x (w, P - S)" "independent (w, P) x \<Longrightarrow> independent (w, P - S) x" for x
    by (cases x; auto)+
  have "independent e (w, P)" if "e \<in> set (as @ bs)" for e
    using o(1) that independent_sym[of e "(w, P)"] by (auto simp: sorted_wrt_append)
  then have ind: "wid_of v = wid_of w \<Longrightarrow> Q \<inter> P = {}" if "(v, Q) \<in> set (as @ bs)" for v Q
    using that by (metis independent.simps)
  have gone: "writes_of xs (wid_of w) \<inter> P = {}" if "set xs \<subseteq> set (as @ bs)" for xs
    using ind that unfolding writes_of_def by (fastforce split: if_splits)
  show "sorted_wrt independent (as @ rest_of w (P - S) @ bs)"
    using o(1) le by (auto simp: sorted_wrt_append rest_of_def)
  show "\<forall>(v, Q) \<in> set (as @ rest_of w (P - S) @ bs). inst_ok n v \<and> Q \<subseteq> set (out_regs v)"
    using o(2) by (auto simp: rest_of_def)
  have rest: "writes_of (rest_of w (P - S)) wid = (if wid_of w = wid then P - S else {})" for wid
    by (simp add: rest_of_def writes_of_Cons)
  have lrest: "long_writes_of (rest_of w (P - S)) wid = (if is_long w \<and> wid_of w = wid then P - S else {})"
    by (simp add: rest_of_def writes_of_Cons)
  show "writes_of (as @ rest_of w (P - S) @ bs) wid = writes_of (as @ (w, P) # bs) wid - (if wid = wid_of w then S else {})"
    using gone[of "as @ bs"] S by (auto simp: writes_of_append writes_of_Cons rest)
  show "long_writes_of (as @ rest_of w (P - S) @ bs) wid =
      long_writes_of (as @ (w, P) # bs) wid - (if wid = wid_of w then S else {})"
    using gone[of "filter (\<lambda>e. is_long (fst e)) (as @ bs)"] S
    by (auto simp: writes_of_append writes_of_Cons lrest)
qed

lemma issue_step:
  assumes ok: "sb_ok n (s, fl, left)" and w: "inst_ok n w" and step: "sb_step (Issue w) (s, fl, left) = Some y"
  shows "sb_ok n y"
proof -
  have len: "length (reg_table s) = n" "length (longopregs s) = n" using ok by (auto simp: sb_ok_def)
  have c: "checkCollision (wid_of w) w s = Some False" using step by (auto simp: bind_Some_iff)
  note res = reserve_ok[OF w len c]
  have y: "y = (s\<lparr>reg_table := (reg_table s)[wid_of w := reg_table s ! wid_of w \<union> set (out_regs w)],
      longopregs := (if is_long w then (longopregs s)[wid_of w := longopregs s ! wid_of w \<union> set (out_regs w)] else longopregs s)\<rparr>,
      (w, set (out_regs w)) # fl, left)"
    using step c res(2) by simp
  have wn: "wid_of w < n" using w by (simp add: inst_ok_def)
  have "\<forall>e \<in> set fl. independent (w, set (out_regs w)) e"
  proof
    fix e assume e: "e \<in> set fl"
    obtain v P where v: "e = (v, P)" by (cases e)
    show "independent (w, set (out_regs w)) e"
      unfolding v independent.simps
    proof
      assume same: "wid_of w = wid_of v"
      have "P \<subseteq> writes_of fl (wid_of w)" using e same by (auto simp: v writes_of_def)
      moreover have "reg_table s ! wid_of w = writes_of fl (wid_of w)" using ok wn by (simp add: sb_ok_def)
      ultimately show "set (out_regs w) \<inter> P = {}" using res(1) by blast
    qed
  qed
  moreover have "(reg_table s)[wid_of w := reg_table s ! wid_of w \<union> set (out_regs w)] ! wid =
      writes_of ((w, set (out_regs w)) # fl) wid" if "wid < n" for wid
    using ok that len by (auto simp: sb_ok_def writes_of_Cons nth_list_update)
  moreover have "(if is_long w then (longopregs s)[wid_of w := longopregs s ! wid_of w \<union> set (out_regs w)] else longopregs s) ! wid =
      long_writes_of ((w, set (out_regs w)) # fl) wid \<union> left `` {wid}" if "wid < n" for wid
    using ok that len by (auto simp: sb_ok_def writes_of_Cons nth_list_update)
  ultimately show ?thesis using ok w len by (simp add: sb_ok_def y)
qed

lemma complete_step:
  assumes ok: "sb_ok n (s, fl, left)" and step: "sb_step (Complete w) (s, fl, left) = Some y"
  shows "sb_ok n y"
proof -
  let ?P = "set (out_regs w)"
  have len: "length (reg_table s) = n" "length (longopregs s) = n" using ok by (auto simp: sb_ok_def)
  have w: "(w, ?P) \<in> set fl" "inst_ok n w" using step ok by (auto simp: bind_Some_iff sb_ok_def)
  obtain as bs where fl: "fl = as @ (w, ?P) # bs" "remove1 (w, ?P) fl = as @ bs"
    using split_list_first[OF w(1)] by (metis remove1_append remove1.simps(2))
  have y: "y = (s\<lparr>reg_table := (reg_table s)[wid_of w := reg_table s ! wid_of w - ?P],
     longopregs := (longopregs s)[wid_of w := longopregs s ! wid_of w - ?P]\<rparr>, as @ bs, left - {wid_of w} \<times> ?P)"
    using step fl w(1) release_ok[OF w(2) len] by simp
  have none: "as @ rest_of w (?P - ?P) @ bs = as @ bs" by (simp add: rest_of_def)
  note shrunk = shrink_entry[OF ok[unfolded fl(1)] subset_refl, unfolded none, folded fl(1)]
  have left: "(left - {wid_of w} \<times> ?P) `` {wid} = left `` {wid} - (if wid = wid_of w then ?P else {})" for wid by auto
  show ?thesis
    using ok len shrunk(1,2) unfolding y sb_ok_def prod.case shrunk(3,4) left
    by (auto simp: nth_list_update)
qed

lemma write_back_step:
  assumes ok: "sb_ok n (s, fl, left)" and step: "sb_step (Write_back w r) (s, fl, left) = Some y"
  shows "sb_ok n y"
proof -
  have len: "length (reg_table s) = n" "length (longopregs s) = n" using ok by (auto simp: sb_ok_def)
  have ex: "list_ex (\<lambda>(v, P). v = w \<and> r \<in> P) fl" using step by (auto simp: bind_Some_iff)
  obtain as P bs where fl: "fl = as @ (w, P) # bs" "r \<in> P" "written_back w r fl = as @ rest_of w (P - {r}) @ bs"
    using written_back_split[OF ex] by metis
  have w: "inst_ok n w" "r \<in> long_writes_of fl (wid_of w) \<or> \<not> is_long w"
    using ok fl(2) by (auto simp: sb_ok_def fl(1) writes_of_append writes_of_Cons)
  have wn: "wid_of w < length (reg_table s)" using w(1) len by (simp add: inst_ok_def)
  have y: "y = (s\<lparr>reg_table := (reg_table s)[wid_of w := reg_table s ! wid_of w - {r}]\<rparr>, written_back w r fl,
     if is_long w then insert (wid_of w, r) left else left)"
    using step ex release_one[OF wn] by simp
  have S: "{r} \<subseteq> P" using fl(2) by simp
  note shrunk = shrink_entry[OF ok[unfolded fl(1)] S, folded fl(1,3)]
  have short: "r \<notin> long_writes_of fl (wid_of w)" if "\<not> is_long w"
  proof -
    have "independent e (w, P)" if "e \<in> set (as @ bs)" for e
      using ok that independent_sym[of e "(w, P)"] by (auto simp: sb_ok_def fl(1) sorted_wrt_append)
    then have "r \<notin> Q" if "(v, Q) \<in> set (as @ bs)" "wid_of v = wid_of w" for v Q
      using that fl(2) by (metis independent.simps disjoint_iff)
    then show ?thesis using that by (fastforce simp: writes_of_def fl(1) split: if_splits)
  qed
  have long: "long_writes_of (written_back w r fl) wid \<union> (if is_long w then insert (wid_of w, r) left else left) `` {wid} =
      long_writes_of fl wid \<union> left `` {wid}" for wid
    using w(2) short unfolding shrunk(4) by auto
  show ?thesis
    using ok len shrunk(1,2) unfolding y sb_ok_def prod.case shrunk(3) long
    by (auto simp: nth_list_update)
qed

lemma sb_run_ok: "each sb_step ops x = Some y \<Longrightarrow> sb_ok n x \<Longrightarrow> list_all (sb_op_ok n) ops \<Longrightarrow> sb_ok n y"
proof (induction ops arbitrary: x)
  case (Cons op ops)
  obtain s fl left where x: "x = (s, fl, left)" by (cases x)
  obtain z where z: "sb_step op x = Some z" "each sb_step ops z = Some y"
    using Cons.prems(1) by (auto simp: bind_Some_iff)
  have ok: "sb_ok n (s, fl, left)" "sb_op_ok n op" using Cons.prems(2,3) x by simp_all
  have "sb_ok n z"
    using z(1) ok(2) issue_step[OF ok(1)] complete_step[OF ok(1)] write_back_step[OF ok(1)] unfolding x
    by (cases op) (simp_all del: sb_step.simps)
  then show ?case using Cons.IH[OF z(2)] Cons.prems(3) by simp
qed simp

lemma sb_new_ok: "sb_ok n (scoreboard_new sid n, [], {})"
  by (simp add: sb_ok_def scoreboard_new_def)

text \<open>
  C14: after any history of issues, of completions that release all outputs of an instruction at once
  (\<open>releaseRegisters\<close>) and of write-backs that release one output of a load (\<open>releaseRegister\<close>), the
  scoreboard holds exactly the writes in flight: a register is reserved if and only if an instruction
  in flight has yet to write it, and no two of them in a warp have to write the same register; so a
  collision is reported exactly for an instruction that reads or writes such a register. The registers
  marked as waiting for memory are those that a long load in flight has yet to write, together with
  the ones left over by loads written back register by register: that route never clears the mark,
  which goes only when a later instruction that writes the register is released as a whole.
\<close>

theorem scoreboard_tracks_in_flight:
  assumes "each sb_step ops (scoreboard_new sid n, [], {}) = Some (s, fl, left)" "list_all (sb_op_ok n) ops" "wid < n"
  shows "reg_table s ! wid = writes_of fl wid \<and> longopregs s ! wid = long_writes_of fl wid \<union> left `` {wid} \<and>
    sorted_wrt independent fl \<and> pendingWrites wid s = Some (writes_of fl wid \<noteq> {}) \<and>
    checkCollision wid i s = map_option (\<lambda>regs. regs \<inter> writes_of fl wid \<noteq> {}) (inst_regs i)"
proof -
  have "sb_ok n (s, fl, left)" by (rule sb_run_ok[OF assms(1) sb_new_ok assms(2)])
  then show ?thesis
    using assms(3) by (cases "inst_regs i") (simp_all add: sb_ok_def pendingWrites_def checkCollision_def)
qed

text \<open>
  C23: in every such state an instruction that does not collide is reserved without running into the
  abort. Released as a whole it leaves the reserved registers of every warp as they were, and the marks
  of long operations too except that its own outputs lose theirs, which they can have had only from an
  earlier load written back register by register; released register by register it also leaves the
  reserved registers as they were, and its outputs keep the marks it gave them.
\<close>

theorem reserve_release_roundtrip:
  assumes "each sb_step ops (scoreboard_new sid n, [], {}) = Some (s, fl, left)" "list_all (sb_op_ok n) ops"
    and "inst_ok n w" "checkCollision (wid_of w) w s = Some False"
  shows "\<exists>s1. reserveRegisters w s = Some s1 \<and>
    releaseRegisters w s1 =
      Some (s\<lparr>longopregs := (longopregs s)[wid_of w := longopregs s ! wid_of w - set (out_regs w)]\<rparr>) \<and>
    longopregs s ! wid_of w \<inter> set (out_regs w) \<subseteq> left `` {wid_of w} \<and>
    each (releaseRegister (wid_of w)) (out_regs w) s1 =
      Some (s\<lparr>longopregs := (longopregs s)[wid_of w :=
        longopregs s ! wid_of w \<union> (if is_long w then set (out_regs w) else {})]\<rparr>)"
proof -
  have ok: "sb_ok n (s, fl, left)" by (rule sb_run_ok[OF assms(1) sb_new_ok assms(2)])
  then have len: "length (reg_table s) = n" "length (longopregs s) = n" by (auto simp: sb_ok_def)
  note res = reserve_ok[OF assms(3) len assms(4)]
  let ?O = "set (out_regs w)"
  let ?s1 = "s\<lparr>reg_table := (reg_table s)[wid_of w := reg_table s ! wid_of w \<union> ?O],
      longopregs := (if is_long w then (longopregs s)[wid_of w := longopregs s ! wid_of w \<union> ?O] else longopregs s)\<rparr>"
  have wn: "wid_of w < n" using assms(3) by (simp add: inst_ok_def)
  have again: "(reg_table s ! wid_of w \<union> ?O) - ?O = reg_table s ! wid_of w" using res(1) by blast
  have "A \<union> ?O - ?O = A - ?O" for A by auto
  then have "releaseRegisters w ?s1 = Some (s\<lparr>longopregs := (longopregs s)[wid_of w := longopregs s ! wid_of w - ?O]\<rparr>)"
    using release_ok[OF assms(3), of ?s1] len wn again by simp
  moreover have "longopregs s ! wid_of w \<inter> ?O \<subseteq> left `` {wid_of w}"
  proof -
    have "reg_table s ! wid_of w = writes_of fl (wid_of w)"
      "longopregs s ! wid_of w = long_writes_of fl (wid_of w) \<union> left `` {wid_of w}"
      using ok wn by (simp_all add: sb_ok_def)
    then show ?thesis using long_writes_le[of fl "wid_of w"] res(1) by blast
  qed
  moreover have "each (releaseRegister (wid_of w)) (out_regs w) ?s1 =
      Some (s\<lparr>longopregs := (longopregs s)[wid_of w := longopregs s ! wid_of w \<union> (if is_long w then ?O else {})]\<rparr>)"
  proof (cases "is_long w")
    case True
    have "each (releaseRegister (wid_of w)) (out_regs w) ?s1 =
        Some (?s1\<lparr>reg_table := (reg_table ?s1)[wid_of w := reg_table ?s1 ! wid_of w - ?O]\<rparr>)"
      by (rule release_each) (use len wn in simp)
    then show ?thesis using len wn again True by simp
  next
    case False
    have "each (releaseRegister (wid_of w)) (out_regs w) ?s1 =
        Some (?s1\<lparr>reg_table := (reg_table ?s1)[wid_of w := reg_table ?s1 ! wid_of w - ?O]\<rparr>)"
      by (rule release_each) (use len wn in simp)
    then show ?thesis using len wn again False by simp
  qed
  ultimately show ?thesis using res(2) by blast
qed

text \<open>An add that reads registers 1 and 2 and writes 3, on warp 0.\<close>

definition sample_add :: warp_inst where
  "sample_add = \<lparr>i_pc = 0, isize = 8, i_op = ALU_OP, memory_op = no_memory_op, reconvergence_pc = 0,
     inst_out = [3, 0, 0, 0, 0, 0, 0, 0], outcount = 1, inst_in = [1, 2], incount = 2, inst_pred = 0, ar1 = 0, ar2 = 0,
     initiation_interval = 1, data_size = 4, i_space = undefined_space, cache_op = CACHE_UNDEFINED, w_uid = 1,
     w_empty = False, w_cache_hit = False, issue_cycle = 0, w_cycles = 0, w_isatomic = False, w_warp_id = 0,
     w_dynamic_warp_id = 0, w_active_mask = 1, w_issued_mask = 1, per_scalar_thread_valid = False, memreqaddr = [],
     mem_accesses_created = False, accessq = [], w_scheduler_id = 0\<rparr>"

lemma sample_add_ok: "inst_ok 2 sample_add" "out_regs sample_add = [3]" "w_warp_id sample_add = 0"
  by (simp_all add: inst_ok_def out_regs_def sample_add_def)

lemma sample_no_collision: "checkCollision 0 sample_add (scoreboard_new 0 2) = Some False"
  by (simp add: checkCollision_def inst_regs_def sample_add_def scoreboard_new_def)

definition sample_load :: warp_inst where
  "sample_load = sample_add\<lparr>i_op := LOAD_OP, i_space := global_space\<rparr>"

lemma sample_load_ok: "inst_ok 2 sample_load" "out_regs sample_load = [3]" "w_warp_id sample_load = 0"
  by (simp_all add: inst_ok_def out_regs_def sample_load_def sample_add_def)

lemma sample_add_short: "\<not> is_long sample_add"
  by (simp add: is_long_def is_load_def sample_add_def)

lemma sample_load_long: "is_long sample_load"
  by (simp add: is_long_def is_load_def long_space_def sample_load_def)

text \<open>The load is issued and written back, then the add is issued; both write register 3.\<close>

abbreviation sample_history :: "sb_op list" where
  "sample_history \<equiv> [Issue sample_load, Write_back sample_load 3, Issue sample_add]"

lemma sample_run:
  "each sb_step sample_history (scoreboard_new 0 2, [], {}) =
    Some (\<lparr>m_sid = 0, reg_table = [{3}, {}], longopregs = [{3}, {}]\<rparr>, [(sample_add, {3})], {(0, 3)})"
proof -
  let ?s1 = "\<lparr>m_sid = 0, reg_table = [{3}, {}], longopregs = [{3}, {}]\<rparr>"
  let ?s2 = "\<lparr>m_sid = 0, reg_table = [{}, {}], longopregs = [{3}, {}]\<rparr>"
  have new: "scoreboard_new 0 2 = \<lparr>m_sid = 0, reg_table = [{}, {}], longopregs = [{}, {}]\<rparr>"
    by (simp add: scoreboard_new_def numeral_2_eq_2)
  have free: "checkCollision 0 sample_load (scoreboard_new 0 2) = Some False" "checkCollision 0 sample_add ?s2 = Some False"
    by (simp_all add: checkCollision_def inst_regs_def sample_load_def sample_add_def new)
  have "sb_step (Issue sample_load) (scoreboard_new 0 2, [], {}) = Some (?s1, [(sample_load, {3})], {})"
    using reserve_ok(2)[OF sample_load_ok(1), of "scoreboard_new 0 2"] free(1)
    by (simp add: sample_load_ok sample_load_long new)
  moreover have "sb_step (Write_back sample_load 3) (?s1, [(sample_load, {3})], {}) = Some (?s2, [], {(0, 3)})"
    by (simp add: sample_load_ok sample_load_long releaseRegister_def)
  moreover have "sb_step (Issue sample_add) (?s2, [], {(0, 3)}) = Some (?s1, [(sample_add, {3})], {(0, 3)})"
    using reserve_ok(2)[OF sample_add_ok(1), of ?s2] free(2)
    by (simp add: sample_add_ok sample_add_short)
  ultimately show ?thesis by (simp del: sb_step.simps)
qed

text \<open>The add is in flight, and its register carries the mark of the load that is gone.\<close>

theorem scoreboard_tracks_in_flight_witness:
  "\<exists>s. each sb_step sample_history (scoreboard_new 0 2, [], {}) = Some (s, [(sample_add, {3})], {(0, 3)}) \<and>
     reg_table s ! 0 = {3} \<and> longopregs s ! 0 = {3} \<and> checkCollision 0 sample_add s = Some True"
proof -
  have "inst_regs sample_add = Some {1, 2, 3}" by (auto simp: inst_regs_def sample_add_def)
  then have regs: "map_option (\<lambda>regs. regs \<inter> {3} \<noteq> {}) (inst_regs sample_add) = Some True" by simp
  have w: "writes_of [(sample_add, {3})] 0 = {3}" by (simp add: writes_of_def sample_add_ok)
  have ops: "list_all (sb_op_ok 2) sample_history" by (simp add: sample_load_ok(1) sample_add_ok(1))
  have "checkCollision 0 sample_add \<lparr>m_sid = 0, reg_table = [{3}, {}], longopregs = [{3}, {}]\<rparr> = Some True"
    using scoreboard_tracks_in_flight[OF sample_run ops, of 0 sample_add] unfolding w regs by simp
  then show ?thesis using sample_run by (intro exI conjI) simp_all
qed

theorem reserve_release_roundtrip_witness:
  "\<exists>s1. reserveRegisters sample_add (scoreboard_new 0 2) = Some s1 \<and> releaseRegisters sample_add s1 = Some (scoreboard_new 0 2)"
proof -
  have "(scoreboard_new 0 2)\<lparr>longopregs := (longopregs (scoreboard_new 0 2))[0 := longopregs (scoreboard_new 0 2) ! 0 - {3}]\<rparr> =
      scoreboard_new 0 2"
    by (simp add: scoreboard_new_def numeral_2_eq_2)
  then show ?thesis
    using reserve_release_roundtrip[of "[]" 0 2 "scoreboard_new 0 2" "[]" "{}" sample_add]
    by (simp add: sample_add_ok sample_no_collision) blast
qed

end
