(* ===== verification/MemorySpace.thy ===== *)
theory MemorySpace
  imports Omap
begin

text \<open>
  The memory of the functional simulator (\<open>cuda-sim/memory.h\<close>, \<open>cuda-sim/memory.cc\<close>): pages of \<open>BSIZE\<close>
  bytes that come into being when they are first written, reads and writes that may cross pages, and
  watchpoints. Addresses are 32-bit words, lengths 64-bit ones, and every sum is taken at the width
  the C++ expression has. A failed assertion, a copy past the end of the caller's buffer and
  \<open>throw 1\<close> are \<open>None\<close>. A write also returns the watchpoints it hits, in order. Printing is left out.
\<close>

unbundle bit_operations_syntax

section \<open>Pages\<close>

type_synonym mem_storage = "u8 list"

definition storage_new :: "u32 \<Rightarrow> mem_storage" where
  "storage_new BSIZE = replicate (unat BSIZE) 0"

text \<open>\<open>memcpy\<close> of the first \<open>length\<close> bytes of \<open>data\<close>.\<close>

definition storage_write :: "u32 \<Rightarrow> u32 \<Rightarrow> u64 \<Rightarrow> u8 list \<Rightarrow> mem_storage \<Rightarrow> mem_storage option" where
  "storage_write BSIZE offset len data s = do {
     ensure (ucast offset + len \<le> ucast BSIZE);
     ensure (unat len \<le> length data);
     Some (take (unat offset) s @ take (unat len) data @ drop (unat offset + unat len) s) }"

definition storage_read :: "u32 \<Rightarrow> u32 \<Rightarrow> u64 \<Rightarrow> mem_storage \<Rightarrow> u8 list option" where
  "storage_read BSIZE offset len s = do {
     ensure (ucast offset + len \<le> ucast BSIZE);
     Some (take (unat len) (drop (unat offset) s)) }"

section \<open>The address space\<close>

record memory_space_impl =
  m_name :: string
  m_log2_block_size :: u32
  m_data :: "u32 \<Rightarrow> mem_storage option"
  m_watchpoints :: "(u32 \<times> u32) list"

text \<open>The constructor looks for the one bit that is set in the block size.\<close>

fun find_log2 :: "u32 \<Rightarrow> nat list \<Rightarrow> u32 \<Rightarrow> u32 option" where
  "find_log2 BSIZE [] l = Some l"
| "find_log2 BSIZE (n # ns) l =
     (if bit BSIZE n then (if l = - 1 then find_log2 BSIZE ns (of_nat n) else None) else find_log2 BSIZE ns l)"

definition memory_space_new :: "u32 \<Rightarrow> string \<Rightarrow> memory_space_impl option" where
  "memory_space_new BSIZE name = do {
     l \<leftarrow> find_log2 BSIZE [0..<32] (- 1);
     ensure (l \<noteq> - 1);
     Some \<lparr>m_name = name, m_log2_block_size = l, m_data = Map.empty, m_watchpoints = []\<rparr> }"

text \<open>\<open>m_data[index]\<close> creates an empty page where there is none.\<close>

definition page_at :: "u32 \<Rightarrow> u32 \<Rightarrow> memory_space_impl \<Rightarrow> mem_storage" where
  "page_at BSIZE index m = (case m_data m index of Some s \<Rightarrow> s | None \<Rightarrow> storage_new BSIZE)"

definition write_only :: "u32 \<Rightarrow> u32 \<Rightarrow> u32 \<Rightarrow> u64 \<Rightarrow> u8 list \<Rightarrow> memory_space_impl \<Rightarrow> memory_space_impl option" where
  "write_only BSIZE offset index len data m = do {
     s \<leftarrow> storage_write BSIZE offset len data (page_at BSIZE index m);
     Some (m\<lparr>m_data := (m_data m)(index \<mapsto> s)\<rparr>) }"

definition page_index :: "memory_space_impl \<Rightarrow> u32 \<Rightarrow> u32" where
  "page_index m addr = drop_bit (unat (m_log2_block_size m)) addr"

definition page_offset :: "u32 \<Rightarrow> u32 \<Rightarrow> u32" where
  "page_offset BSIZE addr = addr AND (BSIZE - 1)"

text \<open>The access ends within the page it starts in; \<open>(index + 1) * BSIZE\<close> is computed in 32 bits.\<close>

definition within_block :: "u32 \<Rightarrow> u32 \<Rightarrow> u32 \<Rightarrow> u64 \<Rightarrow> bool" where
  "within_block BSIZE index addr len = (ucast addr + len \<le> ucast ((index + 1) * BSIZE))"

text \<open>The bytes that one step of an access across pages transfers.\<close>

definition tx_bytes :: "u32 \<Rightarrow> u32 \<Rightarrow> u32 \<Rightarrow> u32" where
  "tx_bytes BSIZE offset remain =
     (let access_limit = offset + remain;
          access_limit = (if BSIZE < access_limit then BSIZE else access_limit)
      in access_limit - offset)"

partial_function (option) write_blocks ::
  "u32 \<Rightarrow> u8 list \<Rightarrow> u32 \<Rightarrow> u32 \<Rightarrow> u32 \<Rightarrow> memory_space_impl \<Rightarrow> memory_space_impl option" where
  "write_blocks BSIZE data remain src addr m =
    (if remain = 0 then Some m
     else do {
       let offset = page_offset BSIZE addr;
       let tx = tx_bytes BSIZE offset remain;
       m \<leftarrow> write_only BSIZE offset (page_index m addr) (ucast tx) (drop (unat src) data) m;
       write_blocks BSIZE data (remain - tx) (src + tx) (addr + tx) m })"

definition watch_hit :: "u32 \<Rightarrow> u64 \<Rightarrow> u32 \<Rightarrow> bool" where
  "watch_hit addr len wa = ((addr \<le> wa \<and> ucast addr + len > ucast wa) \<or> (addr > wa \<and> addr < wa + 4))"

definition mem_write :: "u32 \<Rightarrow> u32 \<Rightarrow> u64 \<Rightarrow> u8 list \<Rightarrow> memory_space_impl \<Rightarrow> (u32 list \<times> memory_space_impl) option" where
  "mem_write BSIZE addr len data m = do {
     let index = page_index m addr;
     m \<leftarrow> (if within_block BSIZE index addr len
          then write_only BSIZE (page_offset BSIZE addr) index (ucast (ucast len :: u32)) data m
          else write_blocks BSIZE data (ucast len) 0 addr m);
     Some (map fst (filter (\<lambda>(_, wa). watch_hit addr len wa) (m_watchpoints m)), m) }"

definition read_single_block :: "u32 \<Rightarrow> u32 \<Rightarrow> u32 \<Rightarrow> u64 \<Rightarrow> memory_space_impl \<Rightarrow> u8 list option" where
  "read_single_block BSIZE blk_idx addr len m = do {
     ensure (within_block BSIZE blk_idx addr len);
     (case m_data m blk_idx of
        None \<Rightarrow> Some (replicate (unat len) 0)
      | Some s \<Rightarrow> storage_read BSIZE (page_offset BSIZE addr) (ucast (ucast len :: u32)) s) }"

partial_function (option) read_blocks :: "u32 \<Rightarrow> u32 \<Rightarrow> u32 \<Rightarrow> memory_space_impl \<Rightarrow> u8 list option" where
  "read_blocks BSIZE remain addr m =
    (if remain = 0 then Some []
     else do {
       let tx = tx_bytes BSIZE (page_offset BSIZE addr) remain;
       bytes \<leftarrow> read_single_block BSIZE (page_index m addr) addr (ucast tx) m;
       rest \<leftarrow> read_blocks BSIZE (remain - tx) (addr + tx) m;
       Some (bytes @ rest) })"

definition mem_read :: "u32 \<Rightarrow> u32 \<Rightarrow> u64 \<Rightarrow> memory_space_impl \<Rightarrow> u8 list option" where
  "mem_read BSIZE addr len m =
     (if within_block BSIZE (page_index m addr) addr len
      then read_single_block BSIZE (page_index m addr) addr len m
      else read_blocks BSIZE (ucast len) addr m)"

definition set_watch :: "u32 \<Rightarrow> u32 \<Rightarrow> memory_space_impl \<Rightarrow> memory_space_impl" where
  "set_watch addr watchpoint m = m\<lparr>m_watchpoints := om_put watchpoint addr (m_watchpoints m)\<rparr>"


section \<open>Blocks as numbers\<close>

text \<open>What the constructor establishes and every operation keeps.\<close>

definition block_ok :: "u32 \<Rightarrow> memory_space_impl \<Rightarrow> bool" where
  "block_ok BSIZE m = (\<exists>k < 32. unat BSIZE = 2 ^ k \<and> m_log2_block_size m = of_nat k \<and>
     (\<forall>i s. m_data m i = Some s \<longrightarrow> length s = unat BSIZE))"

text \<open>The byte at an address; a byte that was never written is 0.\<close>

definition byte_at :: "u32 \<Rightarrow> memory_space_impl \<Rightarrow> u32 \<Rightarrow> u8" where
  "byte_at BSIZE m a =
     (case m_data m (page_index m a) of None \<Rightarrow> 0 | Some s \<Rightarrow> s ! unat (page_offset BSIZE a))"

lemma block_ok_page: "block_ok B m \<Longrightarrow> length (page_at B i m) = unat B"
  by (auto simp: block_ok_def page_at_def storage_new_def split: option.splits)

lemma block_okE:
  assumes "block_ok B m"
  obtains k where "k < 32" "unat B = 2 ^ k" "m_log2_block_size m = of_nat k"
  using assms by (auto simp: block_ok_def)

lemma unat_of_small: "k < 32 \<Longrightarrow> unat (of_nat k :: u32) = k"
  by (simp add: unsigned_of_nat take_bit_nat_eq_self)

lemma unat_drop32: "unat (drop_bit k a) = unat a div 2 ^ k" for a :: u32
  by (simp only: unat_drop_bit_eq) (simp only: drop_bit_eq_div)

lemma unat_take32: "unat (take_bit k a) = unat a mod 2 ^ k" for a :: u32
  by (simp only: unsigned_take_bit_eq) (simp only: take_bit_eq_mod)

lemma unat_pow32: "k < 32 \<Longrightarrow> unat (2 ^ k :: u32) = 2 ^ k"
proof -
  assume k: "k < 32"
  have "2 ^ k < (2 ^ 32 :: nat)" by (rule power_strict_increasing[OF k]) simp
  then have "unat (of_nat (2 ^ k) :: u32) = 2 ^ k"
    by (simp only: unsigned_of_nat take_bit_nat_eq_self) (simp add: take_bit_nat_eq_self k)
  then show ?thesis by simp
qed

lemma page_index_div:
  assumes "block_ok B m"
  shows "unat (page_index m a) = unat a div unat B"
proof -
  obtain k where "k < 32" "unat B = 2 ^ k" "m_log2_block_size m = of_nat k" using block_okE[OF assms] .
  then show ?thesis by (simp only: page_index_def unat_of_small unat_drop32)
qed

lemma page_offset_mod:
  assumes "block_ok B m"
  shows "unat (page_offset B a) = unat a mod unat B"
proof -
  obtain k where k: "k < 32" "unat B = 2 ^ k" using block_okE[OF assms] .
  have "B = 2 ^ k" using k unat_pow32[OF k(1)] by (simp add: word_unat_eq_iff)
  then have "page_offset B a = take_bit k a"
    by (simp only: page_offset_def mask_eq_exp_minus_1[symmetric] take_bit_eq_mask)
  then show ?thesis by (simp only: k unat_take32)
qed

lemma offset_in_block: "block_ok B m \<Longrightarrow> unat (page_offset B a) < unat B"
  by (metis page_offset_mod block_ok_def mod_less_divisor zero_less_numeral zero_less_power)

lemma addr_split: "block_ok B m \<Longrightarrow> unat a = unat (page_index m a) * unat B + unat (page_offset B a)"
  by (simp add: page_index_div page_offset_mod)


lemma block_pos: "block_ok B m \<Longrightarrow> 0 < unat B"
  by (auto simp: block_ok_def)

text \<open>The last page ends at the end of the address space.\<close>

lemma page_end:
  assumes "block_ok B m"
  shows "(unat (page_index m addr) + 1) * unat B \<le> 2 ^ 32"
    and "2 ^ 32 \<le> unat addr + unat B \<Longrightarrow> (unat (page_index m addr) + 1) * unat B = 2 ^ 32"
proof -
  let ?i = "unat (page_index m addr)" and ?o = "unat (page_offset B addr)"
  obtain k where k: "k < 32" "unat B = 2 ^ k" using block_okE[OF assms] .
  have a: "unat addr = ?i * unat B + ?o" by (rule addr_split[OF assms])
  have lt: "?i * unat B + ?o < 2 ^ 32" using a u32_lt[of addr] by simp
  have pow: "2 ^ 32 = (2 ^ (32 - k) :: nat) * unat B" using k by (simp flip: power_add)
  have "?i < 2 ^ (32 - k)"
  proof (rule ccontr)
    assume "\<not> ?thesis"
    then have "2 ^ (32 - k) * unat B \<le> ?i * unat B" by simp
    with lt pow show False by linarith
  qed
  then show top: "(?i + 1) * unat B \<le> 2 ^ 32" unfolding pow by (intro mult_right_mono) simp_all
  assume "2 ^ 32 \<le> unat addr + unat B"
  then have "2 ^ (32 - k) * unat B < (?i + 2) * unat B"
    using a pow offset_in_block[OF assms, of addr] by (simp add: algebra_simps)
  then have "2 ^ (32 - k) < ?i + 2" by (rule mult_less_cancel2[THEN iffD1, THEN conjunct2])
  then have "(2 ^ (32 - k)) * unat B \<le> (?i + 1) * unat B" by (intro mult_right_mono) simp_all
  then show "(?i + 1) * unat B = 2 ^ 32" using top pow by simp
qed

text \<open>An access that stays in its page is recognised, except in the last page, where the product wraps to 0.\<close>

lemma within_block_iff:
  assumes "block_ok B m" "unat addr + unat len < 2 ^ 64" "0 < unat len"
  shows "within_block B (page_index m addr) addr len =
    (unat (page_offset B addr) + unat len \<le> unat B \<and> (unat (page_index m addr) + 1) * unat B < 2 ^ 32)"
proof -
  let ?i = "unat (page_index m addr)" and ?o = "unat (page_offset B addr)"
  have a: "unat addr = ?i * unat B + ?o" by (rule addr_split[OF assms(1)])
  note top = page_end[OF assms(1), of addr]
  have "unat ((page_index m addr + 1) * B) = (?i + 1) * unat B mod 2 ^ 32"
    by (simp add: unat_word_ariths mod_simps)
  moreover have "unat (ucast addr + len :: u64) = unat addr + unat len"
    using assms(2) by (simp add: unat_word_ariths unsigned_ucast_eq take_bit_nat_eq_self)
  ultimately have "within_block B (page_index m addr) addr len = (unat addr + unat len \<le> (?i + 1) * unat B mod 2 ^ 32)"
    by (simp add: within_block_def word_le_nat_alt unsigned_ucast_eq take_bit_nat_eq_self)
  then show ?thesis using top(1) a assms(3) by (cases "(?i + 1) * unat B = 2 ^ 32") auto
qed


section \<open>One page\<close>

lemma same_page:
  fixes a b n B :: nat
  assumes "0 < B" "a mod B + n \<le> B"
  shows "(b div B = a div B \<and> a mod B \<le> b mod B \<and> b mod B < a mod B + n) = (a \<le> b \<and> b < a + n)"
proof
  assume h: "b div B = a div B \<and> a mod B \<le> b mod B \<and> b mod B < a mod B + n"
  have "a = a div B * B + a mod B" by simp
  moreover have "b = a div B * B + b mod B" using h div_mult_mod_eq[of b B] by (simp only:)
  ultimately show "a \<le> b \<and> b < a + n" using h by linarith
next
  assume h: "a \<le> b \<and> b < a + n"
  then obtain d where d: "b = a + d" "d < n" by (metis le_iff_add nat_add_left_cancel_less)
  have lt: "a mod B + d < B" using assms(2) d(2) by linarith
  have "b = (a mod B + d) + a div B * B" using div_mult_mod_eq[of a B] d(1) by linarith
  then have "b div B = a div B" "b mod B = a mod B + d"
    using lt assms(1) by (simp_all only: div_mult_self1 mod_mult_self1) simp_all
  then show "b div B = a div B \<and> a mod B \<le> b mod B \<and> b mod B < a mod B + n" using d(2) by simp
qed

text \<open>Writes change the bytes of the pages only.\<close>

definition same_frame :: "memory_space_impl \<Rightarrow> memory_space_impl \<Rightarrow> bool" where
  "same_frame m m' = (m_name m' = m_name m \<and> m_log2_block_size m' = m_log2_block_size m \<and> m_watchpoints m' = m_watchpoints m)"

lemma same_frame_index: "same_frame m m' \<Longrightarrow> page_index m' a = page_index m a"
  by (simp add: same_frame_def page_index_def)

lemma byte_at_page: "block_ok B m \<Longrightarrow> byte_at B m a = page_at B (page_index m a) m ! unat (page_offset B a)"
  by (auto simp: byte_at_def page_at_def storage_new_def offset_in_block split: option.splits)

text \<open>\<open>m'\<close> is \<open>m\<close> with \<open>n\<close> bytes of \<open>data\<close> stored from address \<open>a\<close> on.\<close>

definition stored :: "u32 \<Rightarrow> nat \<Rightarrow> nat \<Rightarrow> u8 list \<Rightarrow> memory_space_impl \<Rightarrow> memory_space_impl \<Rightarrow> bool" where
  "stored B a n data m m' = (block_ok B m' \<and> same_frame m m' \<and>
     (\<forall>b. byte_at B m' b = (if a \<le> unat b \<and> unat b < a + n then data ! (unat b - a) else byte_at B m b)))"

lemma write_only_ok:
  assumes ok: "block_ok B m" and n: "unat (page_offset B addr) + unat n \<le> unat B" "unat n \<le> length data"
  shows "\<exists>m'. write_only B (page_offset B addr) (page_index m addr) n data m = Some m' \<and> stored B (unat addr) (unat n) data m m'"
proof -
  let ?p = "page_index m addr" and ?o = "unat (page_offset B addr)"
  let ?old = "page_at B ?p m"
  let ?s = "take ?o ?old @ take (unat n) data @ drop (?o + unat n) ?old"
  let ?m = "m\<lparr>m_data := (m_data m)(?p \<mapsto> ?s)\<rparr>"
  have len: "length ?old = unat B" by (rule block_ok_page[OF ok])
  have ls: "length ?s = unat B" using n len by simp
  have "unat (ucast (page_offset B addr) + n :: u64) = ?o + unat n"
    using n(1) u32_lt[of B] by (simp add: unat_word_ariths unsigned_ucast_eq take_bit_nat_eq_self)
  then have "write_only B (page_offset B addr) ?p n data m = Some ?m"
    using n u32_lt[of B] by (simp add: write_only_def storage_write_def word_le_nat_alt unsigned_ucast_eq take_bit_nat_eq_self)
  moreover have ok': "block_ok B ?m" using ok ls by (auto simp: block_ok_def)
  moreover have "byte_at B ?m b = (if unat addr \<le> unat b \<and> unat b < unat addr + unat n then data ! (unat b - unat addr) else byte_at B m b)" for b
  proof -
    let ?c = "unat (page_offset B b)"
    have ix: "page_index ?m b = page_index m b" by (simp add: page_index_def)
    have iff: "(page_index m b = ?p \<and> ?o \<le> ?c \<and> ?c < ?o + unat n) = (unat addr \<le> unat b \<and> unat b < unat addr + unat n)"
      using same_page[of "unat B" "unat addr" "unat n" "unat b"] block_pos[OF ok] n(1)
      by (simp add: page_index_div[OF ok] page_offset_mod[OF ok] word_unat_eq_iff[of "page_index m b"])
    have cB: "?c < unat B" by (rule offset_in_block[OF ok])
    have s_nth: "?s ! ?c = (if ?o \<le> ?c \<and> ?c < ?o + unat n then data ! (?c - ?o) else ?old ! ?c)"
      using len n cB by (auto simp: nth_append)
    show ?thesis
    proof (cases "page_index m b = ?p")
      case False
      then have no: "\<not> (unat addr \<le> unat b \<and> unat b < unat addr + unat n)" using iff by blast
      show ?thesis unfolding if_not_P[OF no] using False by (simp add: byte_at_def ix)
    next
      case True
      then have "byte_at B ?m b = ?s ! ?c" by (simp add: byte_at_def ix)
      moreover have "byte_at B m b = ?old ! ?c" using True by (simp add: byte_at_page[OF ok])
      moreover have "?c - ?o = unat b - unat addr" if "?o \<le> ?c"
        using addr_split[OF ok, of b] addr_split[OF ok, of addr] True that by simp
      ultimately show ?thesis using iff True s_nth by auto
    qed
  qed
  ultimately show ?thesis by (auto simp: stored_def same_frame_def)
qed

lemma stored_trans:
  assumes "stored B a n data m m1" "stored B (a + n) k (drop n data) m1 m2" "n + k \<le> length data"
  shows "stored B a (n + k) data m m2"
proof -
  have "byte_at B m2 b = (if a \<le> unat b \<and> unat b < a + (n + k) then data ! (unat b - a) else byte_at B m b)" for b
    using assms by (auto simp: stored_def nth_drop)
  moreover have "same_frame m m2" using assms by (auto simp: stored_def same_frame_def)
  ultimately show ?thesis using assms(2) by (simp add: stored_def)
qed

lemma stored_none: "block_ok B m \<Longrightarrow> stored B a 0 data m m"
  by (auto simp: stored_def same_frame_def)


section \<open>Accesses across pages\<close>

lemma unat_tx_bytes:
  assumes "unat offset < unat B" "unat offset + unat remain < 2 ^ 32"
  shows "unat (tx_bytes B offset remain) = min (unat B - unat offset) (unat remain)"
proof -
  have "unat (offset + remain) = unat offset + unat remain"
    using assms(2) by (simp add: unat_word_ariths)
  then show ?thesis
    using assms(1) by (auto simp: tx_bytes_def Let_def word_less_nat_alt unat_sub word_le_nat_alt min_def not_less)
qed

lemma unat_up: "unat (ucast x :: u64) = unat x" for x :: u32
proof -
  have "unat x < 2 ^ 64" using u32_lt[of x] by simp
  then show ?thesis by (simp only: unsigned_ucast_eq) (rule take_bit_nat_eq_self, simp)
qed

lemma unat_down: "unat x < 2 ^ 32 \<Longrightarrow> unat (ucast x :: u32) = unat x" for x :: u64
  by (simp add: unsigned_ucast_eq take_bit_nat_eq_self)

text \<open>One step of the loops: how far it gets, and where the next one starts.\<close>

lemma block_step:
  assumes ok: "block_ok B m" and r: "remain \<noteq> 0" "unat addr + unat remain \<le> 2 ^ 32" "unat remain + unat B \<le> 2 ^ 32"
  defines "tx \<equiv> tx_bytes B (page_offset B addr) remain"
  shows "0 < unat tx" "unat tx \<le> unat remain" "unat (page_offset B addr) + unat tx \<le> unat B"
    "unat (remain - tx) = unat remain - unat tx"
    "remain - tx \<noteq> 0 \<Longrightarrow> unat (addr + tx) = unat addr + unat tx"
    "unat (addr + tx) + unat (remain - tx) \<le> 2 ^ 32" "unat (remain - tx) + unat B \<le> 2 ^ 32"
proof -
  have o: "unat (page_offset B addr) < unat B" by (rule offset_in_block[OF ok])
  have t: "unat tx = min (unat B - unat (page_offset B addr)) (unat remain)"
    unfolding tx_def by (rule unat_tx_bytes[OF o]) (use o r(3) in linarith)
  have pos: "0 < unat remain" using r(1) by (simp add: unat_gt_0)
  show "0 < unat tx" using t o pos by simp
  show le: "unat tx \<le> unat remain" using t by simp
  show "unat (page_offset B addr) + unat tx \<le> unat B" using t o by simp
  show sub: "unat (remain - tx) = unat remain - unat tx" using le by (simp add: unat_sub word_le_nat_alt)
  have a: "unat (addr + tx) = unat addr + unat tx" if "unat addr + unat tx < 2 ^ 32"
    using that by (simp add: unat_word_ariths)
  show "unat (addr + tx) = unat addr + unat tx" if "remain - tx \<noteq> 0"
  proof (rule a)
    have "0 < unat (remain - tx)" using that by (simp add: unat_gt_0)
    then show "unat addr + unat tx < 2 ^ 32" using sub r(2) by linarith
  qed
  show "unat (addr + tx) + unat (remain - tx) \<le> 2 ^ 32"
  proof (cases "unat addr + unat tx < 2 ^ 32")
    case True
    then show ?thesis using a sub le r(2) by simp
  next
    case False
    then have "unat (remain - tx) = 0" using sub le r(2) by linarith
    then show ?thesis using u32_lt[of "addr + tx"] by simp
  qed
  show "unat (remain - tx) + unat B \<le> 2 ^ 32" using sub r(3) by linarith
qed

lemma write_blocks_ok:
  assumes "block_ok B m" "unat addr + unat remain \<le> 2 ^ 32" "unat remain + unat B \<le> 2 ^ 32"
    and "unat src + unat remain \<le> length data" "unat src + unat remain < 2 ^ 32"
  shows "\<exists>m'. write_blocks B data remain src addr m = Some m' \<and> stored B (unat addr) (unat remain) (drop (unat src) data) m m'"
  using assms
proof (induction "unat remain" arbitrary: remain src addr m rule: less_induct)
  case less
  show ?case
  proof (cases "remain = 0")
    case True
    then show ?thesis using less.prems(1) by (simp add: write_blocks.simps stored_none)
  next
    case False
    define tx where "tx = tx_bytes B (page_offset B addr) remain"
    note st = block_step[OF less.prems(1) False less.prems(2,3), folded tx_def]
    note u = unat_up[of tx]
    have room: "unat tx \<le> length data - unat src" using st(2) less.prems(4) by linarith
    obtain m1 where m1: "write_only B (page_offset B addr) (page_index m addr) (ucast tx) (drop (unat src) data) m = Some m1"
        "stored B (unat addr) (unat tx) (drop (unat src) data) m m1"
      using write_only_ok[OF less.prems(1), of addr "ucast tx" "drop (unat src) data"] st(3) room u by auto
    have src: "unat (src + tx) = unat src + unat tx"
      using st(2) less.prems(5) by (simp add: unat_word_ariths)
    have "\<exists>m'. write_blocks B data (remain - tx) (src + tx) (addr + tx) m1 = Some m' \<and>
        stored B (unat (addr + tx)) (unat (remain - tx)) (drop (unat (src + tx)) data) m1 m'"
    proof (rule less.hyps)
      show "unat (remain - tx) < unat remain" using st(1,2,4) by linarith
      show "block_ok B m1" using m1(2) by (simp add: stored_def)
      show "unat (src + tx) + unat (remain - tx) \<le> length data" using src st(2,4) less.prems(4) by simp
      show "unat (src + tx) + unat (remain - tx) < 2 ^ 32" using src st(2,4) less.prems(5) by simp
    qed (use st in simp_all)
    then obtain m2 where m2: "write_blocks B data (remain - tx) (src + tx) (addr + tx) m1 = Some m2"
        "stored B (unat (addr + tx)) (unat (remain - tx)) (drop (unat tx) (drop (unat src) data)) m1 m2"
      by (auto simp: src add.commute)
    have "write_blocks B data remain src addr m = Some m2"
      using False m1(1) m2(1) by (subst write_blocks.simps) (simp add: Let_def tx_def)
    moreover have "stored B (unat addr) (unat remain) (drop (unat src) data) m m2"
    proof (cases "remain - tx = 0")
      case True
      then have "unat tx = unat remain" using st(2,4) by simp
      moreover have "m2 = m1" using m2(1) True by (simp add: write_blocks.simps)
      ultimately show ?thesis using m1(2) by simp
    next
      case False
      have "stored B (unat addr) (unat tx + unat (remain - tx)) (drop (unat src) data) m m2"
        by (rule stored_trans[OF m1(2)]) (use m2(2) st(5)[OF False] st(2,4) less.prems(4) in simp_all)
      then show ?thesis using st(2,4) by simp
    qed
    ultimately show ?thesis by blast
  qed
qed


lemma mem_write_ok:
  assumes "block_ok B m" "unat addr + unat len \<le> 2 ^ 32" "unat len + unat B \<le> 2 ^ 32" "unat len \<le> length data"
  shows "\<exists>m'. mem_write B addr len data m = Some (map fst (filter (\<lambda>(_, wa). watch_hit addr len wa) (m_watchpoints m)), m') \<and>
    stored B (unat addr) (unat len) data m m'"
proof -
  have small: "unat len < 2 ^ 32" using assms(3) block_pos[OF assms(1)] by linarith
  have u: "unat (ucast len :: u32) = unat len" by (rule unat_down[OF small])
  have uu: "unat (ucast (ucast len :: u32) :: u64) = unat len" by (simp only: unat_up u)
  have "\<exists>m'. (if within_block B (page_index m addr) addr len
      then write_only B (page_offset B addr) (page_index m addr) (ucast (ucast len :: u32)) data m
      else write_blocks B data (ucast len) 0 addr m) = Some m' \<and> stored B (unat addr) (unat len) data m m'"
  proof (cases "within_block B (page_index m addr) addr len")
    case True
    have "unat (page_offset B addr) + unat len \<le> unat B"
    proof (cases "unat len = 0")
      case True
      then show ?thesis using offset_in_block[OF assms(1), of addr] by simp
    next
      case False
      then show ?thesis using True within_block_iff[OF assms(1), of addr len] assms(2) by simp
    qed
    then show ?thesis
      using True write_only_ok[OF assms(1), of addr "ucast (ucast len :: u32)" data] assms(4) uu by simp
  next
    case False
    then show ?thesis
      using write_blocks_ok[OF assms(1), of addr "ucast len" 0 data] assms u small by simp
  qed
  then obtain m' where "(if within_block B (page_index m addr) addr len
      then write_only B (page_offset B addr) (page_index m addr) (ucast (ucast len :: u32)) data m
      else write_blocks B data (ucast len) 0 addr m) = Some m'" "stored B (unat addr) (unat len) data m m'" by blast
  then show ?thesis by (simp add: mem_write_def stored_def same_frame_def)
qed

text \<open>The bytes from an address on.\<close>

definition bytes_from :: "u32 \<Rightarrow> memory_space_impl \<Rightarrow> u32 \<Rightarrow> nat \<Rightarrow> u8 list" where
  "bytes_from B m addr n = map (\<lambda>i. byte_at B m (addr + of_nat i)) [0..<n]"

lemma unat_add_small: "unat a + i < 2 ^ 32 \<Longrightarrow> unat (a + of_nat i) = unat a + i" for a :: u32
  by (simp add: unat_word_ariths unsigned_of_nat mod_simps take_bit_nat_eq_self)

lemma bytes_from_split:
  "unat addr + n < 2 ^ 32 \<Longrightarrow> bytes_from B m addr (n + k) = bytes_from B m addr n @ bytes_from B m (addr + of_nat n) k"
  by (rule nth_equalityI) (auto simp: bytes_from_def nth_append algebra_simps)

lemma below_last_page:
  assumes "block_ok B m" "unat addr + unat B < 2 ^ 32"
  shows "(unat (page_index m addr) + 1) * unat B < 2 ^ 32"
proof -
  have "(unat (page_index m addr) + 1) * unat B \<le> unat addr + unat B"
    using addr_split[OF assms(1), of addr] by simp
  then show ?thesis using assms(2) by linarith
qed

lemma read_single_block_ok:
  assumes ok: "block_ok B m" and n: "0 < unat n" "unat (page_offset B addr) + unat n \<le> unat B" "unat addr + unat B < 2 ^ 32"
  shows "read_single_block B (page_index m addr) addr n m = Some (bytes_from B m addr (unat n))"
proof -
  let ?o = "unat (page_offset B addr)" and ?p = "page_index m addr"
  have nB: "unat n \<le> unat B" using n(2) by simp
  have n32: "unat n < 2 ^ 32" using nB u32_lt[of B] by linarith
  have u: "unat (ucast (ucast n :: u32) :: u64) = unat n" by (simp only: unat_up unat_down[OF n32])
  have w: "within_block B ?p addr n"
    using within_block_iff[OF ok, of addr n] below_last_page[OF ok n(3)] n nB by simp
  have at: "byte_at B m (addr + of_nat i) = page_at B ?p m ! (?o + i)" if i: "i < unat n" for i
  proof -
    have s: "unat (addr + of_nat i) = unat addr + i" by (rule unat_add_small) (use i nB n(3) in linarith)
    have "(unat addr + i) div unat B = unat addr div unat B \<and> unat addr mod unat B \<le> (unat addr + i) mod unat B \<and>
        (unat addr + i) mod unat B < unat addr mod unat B + unat n"
      unfolding same_page[OF block_pos[OF ok] n(2)[unfolded page_offset_mod[OF ok]]] using i by simp
    then have p: "page_index m (addr + of_nat i) = ?p"
      by (simp add: word_unat_eq_iff page_index_div[OF ok] s)
    have "unat (page_offset B (addr + of_nat i)) = ?o + i"
      using addr_split[OF ok, of addr] addr_split[OF ok, of "addr + of_nat i"] s p by simp
    then show ?thesis using p byte_at_page[OF ok, of "addr + of_nat i"] by simp
  qed
  have len: "length (page_at B ?p m) = unat B" by (rule block_ok_page[OF ok])
  have bytes: "bytes_from B m addr (unat n) = take (unat n) (drop ?o (page_at B ?p m))"
    by (rule nth_equalityI) (use n(2) len at in \<open>auto simp: bytes_from_def\<close>)
  have sum: "ucast (page_offset B addr) + ucast (ucast n :: u32) \<le> (ucast B :: u64)"
    using n(2) u32_lt[of B] by (simp add: word_le_nat_alt unat_word_ariths unat_up unat_down[OF n32])
  show ?thesis
  proof (cases "m_data m ?p")
    case None
    then have "page_at B ?p m = replicate (unat B) 0" by (simp add: page_at_def storage_new_def)
    then show ?thesis using None w n(2) by (simp add: read_single_block_def bytes min_def)
  next
    case (Some p)
    then have "page_at B ?p m = p" by (simp add: page_at_def)
    then show ?thesis using Some w sum by (simp add: read_single_block_def storage_read_def bytes u)
  qed
qed


lemma read_blocks_ok:
  assumes "block_ok B m" "unat addr + unat remain + unat B \<le> 2 ^ 32"
  shows "read_blocks B remain addr m = Some (bytes_from B m addr (unat remain))"
  using assms
proof (induction "unat remain" arbitrary: remain addr rule: less_induct)
  case less
  show ?case
  proof (cases "remain = 0")
    case True
    then show ?thesis by (simp add: read_blocks.simps bytes_from_def)
  next
    case False
    define tx where "tx = tx_bytes B (page_offset B addr) remain"
    have pos: "0 < unat remain" using False by (simp add: unat_gt_0)
    have bounds: "unat addr + unat remain \<le> 2 ^ 32" "unat remain + unat B \<le> 2 ^ 32" using less.prems(2) by linarith+
    note st = block_step[OF less.prems(1) False bounds, folded tx_def]
    have first: "read_single_block B (page_index m addr) addr (ucast tx) m = Some (bytes_from B m addr (unat tx))"
      using read_single_block_ok[OF less.prems(1), of "ucast tx" addr] st(1,3) pos less.prems(2) by (simp add: unat_up)
    have rest: "read_blocks B (remain - tx) (addr + tx) m = Some (bytes_from B m (addr + tx) (unat (remain - tx)))"
    proof (cases "remain - tx = 0")
      case True
      then show ?thesis by (simp add: read_blocks.simps bytes_from_def)
    next
      case more: False
      show ?thesis
        by (rule less.hyps[OF _ less.prems(1)]) (use st(1,2,4) st(5)[OF more] less.prems(2) in linarith)+
    qed
    have "bytes_from B m addr (unat remain) = bytes_from B m addr (unat tx) @ bytes_from B m (addr + tx) (unat remain - unat tx)"
      using bytes_from_split[of addr "unat tx" B m "unat remain - unat tx"] st(2) less.prems(2) block_pos[OF less.prems(1)] by simp
    then show ?thesis
      using False first rest st(4) by (subst read_blocks.simps) (simp add: Let_def tx_def)
  qed
qed

lemma mem_read_ok:
  assumes "block_ok B m" "unat addr + unat len + unat B \<le> 2 ^ 32"
  shows "mem_read B addr len m = Some (bytes_from B m addr (unat len))"
proof -
  have small: "unat len < 2 ^ 32" using assms(2) block_pos[OF assms(1)] by linarith
  show ?thesis
  proof (cases "within_block B (page_index m addr) addr len")
    case False
    then show ?thesis using read_blocks_ok[OF assms(1), of addr "ucast len"] assms(2) unat_down[OF small] by (simp add: mem_read_def)
  next
    case w: True
    show ?thesis
    proof (cases "unat len = 0")
      case True
      then have l: "len = 0" by (simp add: unat_eq_zero)
      then show ?thesis using w block_pos[OF assms(1)] u32_lt[of B]
        by (auto simp: mem_read_def read_single_block_def storage_read_def bytes_from_def word_le_nat_alt unat_up
            offset_in_block[OF assms(1)] less_imp_le split: option.splits)
    next
      case False
      then show ?thesis
        using w within_block_iff[OF assms(1), of addr len] read_single_block_ok[OF assms(1), of len addr] assms(2)
        by (simp add: mem_read_def)
    qed
  qed
qed

section \<open>The constructor\<close>

lemma find_log2_Some:
  "find_log2 B ns l = Some r \<Longrightarrow> l \<noteq> - 1 \<Longrightarrow> r = l \<and> (\<forall>n \<in> set ns. \<not> bit B n)"
  by (induction ns arbitrary: l) (auto split: if_splits)

lemma find_log2_start:
  "find_log2 B ns (- 1) = Some r \<Longrightarrow> \<forall>n \<in> set ns. (of_nat n :: u32) \<noteq> - 1 \<Longrightarrow> distinct ns \<Longrightarrow> r \<noteq> - 1 \<Longrightarrow>
   \<exists>k \<in> set ns. r = of_nat k \<and> (\<forall>n \<in> set ns. bit B n = (n = k))"
proof (induction ns)
  case (Cons n ns)
  show ?case
  proof (cases "bit B n")
    case True
    then have "find_log2 B ns (of_nat n) = Some r" using Cons.prems(1) by simp
    moreover have "(of_nat n :: u32) \<noteq> - 1" using Cons.prems(2) by simp
    ultimately have "r = of_nat n \<and> (\<forall>n \<in> set ns. \<not> bit B n)" by (rule find_log2_Some)
    then show ?thesis using True Cons.prems(3) by auto
  next
    case False
    then show ?thesis using Cons by auto
  qed
qed simp

lemma small_not_minus_one: "n < 32 \<Longrightarrow> (of_nat n :: u32) \<noteq> - 1"
proof
  assume n: "n < 32" "(of_nat n :: u32) = - 1"
  then have "of_nat (Suc n) = (0 :: u32)" by simp
  then have "unat (of_nat (Suc n) :: u32) = 0" by simp
  moreover have "unat (of_nat (Suc n) :: u32) = Suc n"
    using n(1) unat_add_small[of 0 "Suc n"] by simp
  ultimately show False by simp
qed

lemma memory_space_new_ok:
  assumes "memory_space_new B name = Some m"
  shows "block_ok B m \<and> m_watchpoints m = [] \<and> (\<forall>a. byte_at B m a = 0)"
proof -
  obtain l where l: "find_log2 B [0..<32] (- 1) = Some l" "l \<noteq> - 1"
      "m = \<lparr>m_name = name, m_log2_block_size = l, m_data = Map.empty, m_watchpoints = []\<rparr>"
    using assms by (auto simp: memory_space_new_def bind_Some_iff)
  obtain k where k: "k < 32" "l = of_nat k" "\<forall>n < 32. bit B n = (n = k)"
    using find_log2_start[OF l(1) _ _ l(2)] small_not_minus_one by auto
  have "B = 2 ^ k"
  proof (rule bit_word_eqI)
    fix n assume "n < LENGTH(32)"
    then show "bit B n = bit (2 ^ k :: u32) n" using k(1,3) by (auto simp: bit_exp_iff)
  qed
  then have "unat B = 2 ^ k" using unat_pow32[OF k(1)] by simp
  then show ?thesis using k l(3) by (auto simp: block_ok_def byte_at_def)
qed


section \<open>The simulator's memory is an array of bytes\<close>

text \<open>A run of writes, and the same run on an array of bytes.\<close>

fun write_all :: "u32 \<Rightarrow> (u32 \<times> u8 list) list \<Rightarrow> memory_space_impl \<Rightarrow> memory_space_impl option" where
  "write_all B [] m = Some m"
| "write_all B ((addr, data) # ws) m = do {
     (_, m) \<leftarrow> mem_write B addr (of_nat (length data)) data m;
     write_all B ws m }"

definition poke :: "u32 \<times> u8 list \<Rightarrow> (u32 \<Rightarrow> u8) \<Rightarrow> u32 \<Rightarrow> u8" where
  "poke = (\<lambda>(addr, data) f b. if unat addr \<le> unat b \<and> unat b < unat addr + length data then data ! (unat b - unat addr) else f b)"

text \<open>The range of an access: inside the address space, and not longer than the space without one page.\<close>

definition in_range :: "u32 \<Rightarrow> u32 \<times> u8 list \<Rightarrow> bool" where
  "in_range B = (\<lambda>(addr, data). unat addr + length data \<le> 2 ^ 32 \<and> length data + unat B \<le> 2 ^ 32)"

lemma write_all_ok:
  assumes "block_ok B m" "list_all (in_range B) ws"
  shows "\<exists>m'. write_all B ws m = Some m' \<and> block_ok B m' \<and> byte_at B m' = fold poke ws (byte_at B m)"
  using assms
proof (induction ws arbitrary: m)
  case (Cons w ws)
  obtain addr data where w: "w = (addr, data)" by (cases w)
  have r: "unat addr + length data \<le> 2 ^ 32" "length data + unat B \<le> 2 ^ 32"
    using Cons.prems(2) by (simp_all add: w in_range_def)
  have len: "unat (of_nat (length data) :: u64) = length data"
    using r(2) by (simp add: unsigned_of_nat take_bit_nat_eq_self)
  obtain m1 hits where m1: "mem_write B addr (of_nat (length data)) data m = Some (hits, m1)"
      "stored B (unat addr) (length data) data m m1"
    using mem_write_ok[OF Cons.prems(1), of addr "of_nat (length data)" data] r len by auto
  have "byte_at B m1 = poke w (byte_at B m)" "block_ok B m1"
    using m1(2) by (auto simp: stored_def poke_def w fun_eq_iff)
  then show ?case using Cons.IH[of m1] Cons.prems(2) m1(1) by (simp add: w)
qed simp

text \<open>
  C11: after any run of writes to a new memory, whatever pages they cross, a read returns the bytes that
  the same run leaves in an array of bytes that is 0 at first. The writes lie within the 32-bit address
  space; the read must end before the last page.
\<close>

theorem memory_is_a_byte_array:
  assumes "memory_space_new B name = Some m" "list_all (in_range B) ws" "unat addr + unat len + unat B \<le> 2 ^ 32"
  shows "\<exists>m'. write_all B ws m = Some m' \<and>
    mem_read B addr len m' = Some (map (\<lambda>i. fold poke ws (\<lambda>_. 0) (addr + of_nat i)) [0..<unat len])"
proof -
  have new: "block_ok B m" "byte_at B m = (\<lambda>_. 0)"
    using memory_space_new_ok[OF assms(1)] by (auto simp: fun_eq_iff)
  obtain m' where m': "write_all B ws m = Some m'" "block_ok B m'" "byte_at B m' = fold poke ws (\<lambda>_. 0)"
    using write_all_ok[OF new(1) assms(2)] new(2) by auto
  show ?thesis using mem_read_ok[OF m'(2) assms(3)] m' by (simp add: bytes_from_def)
qed

text \<open>
  C26: the last page can be written but not read: the end of the page wraps around to 0 in 32 bits, and
  every read that starts there throws.
\<close>

theorem last_page_cannot_be_read:
  assumes "memory_space_new B name = Some m" "list_all (in_range B) ws" "write_all B ws m = Some m'"
    and "2 ^ 32 \<le> unat addr + unat B" "0 < unat len" "unat len < 2 ^ 32"
  shows "mem_read B addr len m' = None"
proof -
  have ok: "block_ok B m'"
    using write_all_ok[OF conjunct1[OF memory_space_new_ok[OF assms(1)]] assms(2)] assms(3) by simp
  obtain k where k: "k < 32" "unat B = 2 ^ k" using block_okE[OF ok] .
  note top = page_end(2)[OF ok assms(4)]
  have no: "\<not> within_block B (page_index m' addr) addr n" if "unat addr + unat n < 2 ^ 64" "0 < unat n" for n
    using within_block_iff[OF ok that] unfolding top by simp
  have pos: "unat (page_offset B addr) < unat B" by (rule offset_in_block[OF ok])
  have big: "0 < unat addr" using assms(4) k u32_lt[of B] by simp
  have blk: "\<not> within_block B (page_index m' addr) addr (ucast t)" for t :: u32
  proof (cases "unat t = 0")
    case False
    then show ?thesis using no[of "ucast t"] u32_lt[of addr] u32_lt[of t] by (simp add: unat_up)
  next
    case True
    then have "t = 0" by (simp add: unat_eq_zero)
    have "unat ((page_index m' addr + 1) * B) = (unat (page_index m' addr) + 1) * unat B mod 2 ^ 32"
      by (simp add: unat_word_ariths mod_simps)
    then have "unat ((page_index m' addr + 1) * B) = 0" unfolding top by simp
    then show ?thesis using big \<open>t = 0\<close> by (simp add: within_block_def word_le_nat_alt unat_up)
  qed
  have "\<not> within_block B (page_index m' addr) addr len"
    by (rule no) (use assms(5,6) u32_lt[of addr] in simp_all)
  moreover have "read_blocks B (ucast len) addr m' = None"
    using assms(5) unat_down[OF assms(6)] blk
    by (subst read_blocks.simps) (auto simp: Let_def read_single_block_def unat_eq_zero)
  ultimately show ?thesis by (simp add: mem_read_def)
qed



text \<open>Two writes to a memory of 32-byte pages, the first one across a page border.\<close>

definition sample_writes :: "(u32 \<times> u8 list) list" where
  "sample_writes = [(30, [1, 2, 3, 4]), (32, [9])]"

lemma sample_space: "\<exists>m. memory_space_new 32 ''global'' = Some m"
proof -
  have "find_log2 32 [0..<32] (- 1) = Some 5" by code_simp
  then show ?thesis by (simp add: memory_space_new_def)
qed

lemma sample_writes_in_range: "list_all (in_range 32) sample_writes"
  by (simp add: sample_writes_def in_range_def)

theorem memory_is_a_byte_array_witness:
  "\<exists>m m'. memory_space_new 32 ''global'' = Some m \<and> write_all 32 sample_writes m = Some m' \<and>
     mem_read 32 30 4 m' = Some [1, 2, 9, 4]"
proof -
  obtain m where m: "memory_space_new 32 ''global'' = Some m" using sample_space by blast
  have "map (\<lambda>i. fold poke sample_writes (\<lambda>_. 0) (30 + of_nat i)) [0..<4] = [1, 2, 9, 4]"
    by (simp add: upt_rec sample_writes_def poke_def)
  then show ?thesis
    using memory_is_a_byte_array[OF m sample_writes_in_range, where addr = 30 and len = 4] m by auto
qed

theorem last_page_cannot_be_read_witness:
  "\<exists>m. memory_space_new 32 ''global'' = Some m \<and> write_all 32 [] m = Some m \<and> mem_read 32 0xFFFFFFE0 4 m = None"
proof -
  obtain m where m: "memory_space_new 32 ''global'' = Some m" using sample_space by blast
  show ?thesis using last_page_cannot_be_read[OF m, where ws = "[]" and m' = m and addr = "0xFFFFFFE0" and len = 4] m by simp
qed

end
