(* ===== verification/Barrier.thy ===== *)
theory Barrier
  imports Omap
begin

text \<open>
  The barriers of a shader core (\<open>barrier_set_t\<close> in \<open>shader.cc\<close>): which warps of a thread block have
  reached which of its barriers, which of them wait, and when they are released. A warp set is a
  bitset of 64 lanes. \<open>None\<close> stands for a failed assertion, \<open>abort()\<close>, a lane outside the bitset and
  the use of the end iterator in \<open>warp_exit\<close>. Printing is left out.
\<close>

unbundle bit_operations_syntax

section \<open>State and operations\<close>

type_synonym warp_set = "64 word"

abbreviation WARP_PER_CTA_MAX :: nat where "WARP_PER_CTA_MAX \<equiv> 64"
abbreviation MAX_BARRIERS_PER_CTA :: nat where "MAX_BARRIERS_PER_CTA \<equiv> 16"

datatype barrier_type = NOT_BAR | SYNC | ARRIVE | RED

record barrier_set =
  m_max_cta_per_core :: u32
  m_max_warps_per_core :: u32
  m_max_barriers_per_cta :: u32
  b_warp_size :: u32
  m_cta_to_warps :: "(u32 \<times> warp_set) list"
  m_bar_id_to_warps :: "u32 \<Rightarrow> warp_set"
  m_warp_active :: warp_set
  m_warp_at_barrier :: warp_set

definition barrier_set_new :: "u32 \<Rightarrow> u32 \<Rightarrow> u32 \<Rightarrow> u32 \<Rightarrow> barrier_set option" where
  "barrier_set_new max_warps_per_core max_cta_per_core max_barriers_per_cta warp_size = do {
     ensure (unat max_warps_per_core \<le> WARP_PER_CTA_MAX);
     ensure (unat max_barriers_per_cta \<le> MAX_BARRIERS_PER_CTA);
     Some \<lparr>m_max_cta_per_core = max_cta_per_core, m_max_warps_per_core = max_warps_per_core,
       m_max_barriers_per_cta = max_barriers_per_cta, b_warp_size = warp_size,
       m_cta_to_warps = [], m_bar_id_to_warps = (\<lambda>_. 0), m_warp_active = 0, m_warp_at_barrier = 0\<rparr> }"

text \<open>\<open>m_bar_id_to_warps[i] &= ~warps\<close> for the barriers of the configuration.\<close>

definition clear_barriers :: "u32 \<Rightarrow> warp_set \<Rightarrow> (u32 \<Rightarrow> warp_set) \<Rightarrow> u32 \<Rightarrow> warp_set" where
  "clear_barriers n warps f = (\<lambda>i. if i < n then f i AND NOT warps else f i)"

definition allocate_barrier :: "u32 \<Rightarrow> warp_set \<Rightarrow> barrier_set \<Rightarrow> barrier_set option" where
  "allocate_barrier cta_id warps b = do {
     ensure (cta_id < m_max_cta_per_core b);
     ensure (map_of (m_cta_to_warps b) cta_id = None);
     let ctas = om_put cta_id warps (m_cta_to_warps b);
     ensure (length ctas \<le> unat (m_max_cta_per_core b));
     Some (b\<lparr>m_cta_to_warps := ctas,
       m_warp_active := m_warp_active b OR warps,
       m_warp_at_barrier := m_warp_at_barrier b AND NOT warps,
       m_bar_id_to_warps := clear_barriers (m_max_barriers_per_cta b) warps (m_bar_id_to_warps b)\<rparr>) }"

definition deallocate_barrier :: "u32 \<Rightarrow> barrier_set \<Rightarrow> barrier_set option" where
  "deallocate_barrier cta_id b =
     (case map_of (m_cta_to_warps b) cta_id of
        None \<Rightarrow> Some b
      | Some warps \<Rightarrow> do {
          ensure (warps AND m_warp_at_barrier b = 0);
          ensure (warps AND m_warp_active b = 0);
          ensure (\<forall>i \<in> set [0..<unat (m_max_barriers_per_cta b)]. warps AND m_bar_id_to_warps b (of_nat i) = 0);
          Some (b\<lparr>m_warp_active := m_warp_active b AND NOT warps,
            m_warp_at_barrier := m_warp_at_barrier b AND NOT warps,
            m_bar_id_to_warps := clear_barriers (m_max_barriers_per_cta b) warps (m_bar_id_to_warps b),
            m_cta_to_warps := om_del cta_id (m_cta_to_warps b)\<rparr>) })"

definition release_barrier :: "u32 \<Rightarrow> warp_set \<Rightarrow> barrier_set \<Rightarrow> barrier_set" where
  "release_barrier bar_id at_barrier b = b\<lparr>
     m_bar_id_to_warps := (m_bar_id_to_warps b)(bar_id := m_bar_id_to_warps b bar_id AND NOT at_barrier),
     m_warp_at_barrier := m_warp_at_barrier b AND NOT at_barrier\<rparr>"

text \<open>The number of warps in a set.\<close>

definition warp_count :: "warp_set \<Rightarrow> nat" where
  "warp_count ws = length (filter (bit ws) [0..<WARP_PER_CTA_MAX])"

definition reach_barrier :: "barrier_type \<Rightarrow> u32 \<Rightarrow> u32 \<Rightarrow> barrier_set \<Rightarrow> barrier_set" where
  "reach_barrier bar_type bar_id warp_id b = b\<lparr>
     m_bar_id_to_warps := (m_bar_id_to_warps b)(bar_id := set_bit (unat warp_id) (m_bar_id_to_warps b bar_id)),
     m_warp_at_barrier := (if bar_type = SYNC \<or> bar_type = RED then set_bit (unat warp_id) (m_warp_at_barrier b)
                           else m_warp_at_barrier b)\<rparr>"

text \<open>
  The result says whether a reduction is broadcast, and to which warps. \<open>at_barrier.count()\<close> is 64 bits
  wide, so its product with the warp size does not wrap around.
\<close>

definition warp_reaches_barrier ::
  "u32 \<Rightarrow> u32 \<Rightarrow> barrier_type \<Rightarrow> u32 \<Rightarrow> u32 \<Rightarrow> barrier_set \<Rightarrow> (barrier_set \<times> warp_set option) option" where
  "warp_reaches_barrier cta_id warp_id bar_type bar_id bar_count b = do {
     ensure (bar_id \<noteq> - 1);
     warps_in_cta \<leftarrow> map_of (m_cta_to_warps b) cta_id;
     ensure (unat warp_id < WARP_PER_CTA_MAX \<and> bit warps_in_cta (unat warp_id));
     let b = reach_barrier bar_type bar_id warp_id b;
     let at_barrier = warps_in_cta AND m_bar_id_to_warps b bar_id;
     let active = warps_in_cta AND m_warp_active b;
     let complete = (if bar_count = - 1 then at_barrier = active
                     else warp_count at_barrier * unat (b_warp_size b) = unat bar_count);
     Some (if complete then (release_barrier bar_id at_barrier b, if bar_type = RED then Some at_barrier else None)
           else (b, None)) }"

definition exit_at_barrier :: "warp_set \<Rightarrow> nat \<Rightarrow> barrier_set \<Rightarrow> barrier_set" where
  "exit_at_barrier warps_in_cta i b =
     (let at_barrier = warps_in_cta AND m_bar_id_to_warps b (of_nat i)
      in if at_barrier = warps_in_cta AND m_warp_active b then release_barrier (of_nat i) at_barrier b else b)"

definition barrier_warp_exit :: "u32 \<Rightarrow> barrier_set \<Rightarrow> barrier_set option" where
  "barrier_warp_exit warp_id b = do {
     ensure (unat warp_id < WARP_PER_CTA_MAX);
     let b = b\<lparr>m_warp_active := unset_bit (unat warp_id) (m_warp_active b)\<rparr>;
     (_, warps_in_cta) \<leftarrow> find (\<lambda>(_, warps). bit warps (unat warp_id)) (m_cta_to_warps b);
     Some (fold (exit_at_barrier warps_in_cta) [0..<unat (m_max_barriers_per_cta b)] b) }"

definition warp_waiting_at_barrier :: "u32 \<Rightarrow> barrier_set \<Rightarrow> bool option" where
  "warp_waiting_at_barrier warp_id b = do {
     ensure (unat warp_id < WARP_PER_CTA_MAX);
     Some (bit (m_warp_at_barrier b) (unat warp_id)) }"


section \<open>Warp sets as sets\<close>

definition lanes :: "warp_set \<Rightarrow> nat set" where
  "lanes w = {n. n < 64 \<and> bit w n}"

lemma lanes_simps [simp]:
  "lanes 0 = {}"
  "lanes (a AND b) = lanes a \<inter> lanes b"
  "lanes a \<inter> lanes (NOT b) = lanes a - lanes b"
  "lanes a \<inter> (lanes (NOT b) \<union> lanes (NOT c)) = lanes a - lanes b \<inter> lanes c"
  "lanes (a OR b) = lanes a \<union> lanes b"
  "n < 64 \<Longrightarrow> lanes (set_bit n a) = insert n (lanes a)"
  "lanes (unset_bit n a) = lanes a - {n}"
  by (auto simp: lanes_def bit_simps)

lemma diff_own [simp]: "A - B \<inter> A = A - B" "A - A \<inter> B = A - B"
  by auto

lemma lanes_eq: "(a = b) = (lanes a = lanes b)"
proof
  assume "lanes a = lanes b"
  then have "bit a n = bit b n" if "n < 64" for n using that by (auto simp: lanes_def set_eq_iff)
  then show "a = b" by (intro bit_word_eqI) simp
qed simp

lemma lanes_0: "(a = 0) = (lanes a = {})"
  by (simp add: lanes_eq)

lemma in_lanes: "n < 64 \<Longrightarrow> (n \<in> lanes w) = bit w n"
  by (simp add: lanes_def)

text \<open>The warps of a block, those that still run, those that wait, those at a barrier.\<close>

abbreviation cta_lanes :: "barrier_set \<Rightarrow> u32 \<Rightarrow> nat set option" where
  "cta_lanes b c \<equiv> map_option lanes (map_of (m_cta_to_warps b) c)"

abbreviation active_lanes :: "barrier_set \<Rightarrow> nat set" where "active_lanes b \<equiv> lanes (m_warp_active b)"
abbreviation waiting_lanes :: "barrier_set \<Rightarrow> nat set" where "waiting_lanes b \<equiv> lanes (m_warp_at_barrier b)"
abbreviation bar_lanes :: "barrier_set \<Rightarrow> u32 \<Rightarrow> nat set" where "bar_lanes b i \<equiv> lanes (m_bar_id_to_warps b i)"

lemma clear_barriers_lanes [simp]:
  "lanes (clear_barriers n warps f i) = (if i < n then lanes (f i) - lanes warps else lanes (f i))"
  by (simp add: clear_barriers_def)

section \<open>Releasing the barriers of a block on exit\<close>

abbreviation exit_complete :: "warp_set \<Rightarrow> barrier_set \<Rightarrow> u32 \<Rightarrow> bool" where
  "exit_complete ws b i \<equiv> lanes ws \<inter> bar_lanes b i = lanes ws \<inter> active_lanes b"

lemma exit_at_barrier_frame [simp]:
  "m_warp_active (exit_at_barrier ws i b) = m_warp_active b"
  "m_cta_to_warps (exit_at_barrier ws i b) = m_cta_to_warps b"
  "m_max_barriers_per_cta (exit_at_barrier ws i b) = m_max_barriers_per_cta b"
  "m_max_cta_per_core (exit_at_barrier ws i b) = m_max_cta_per_core b"
  by (simp_all add: exit_at_barrier_def release_barrier_def Let_def)

lemma exit_at_barrier_eq:
  "exit_at_barrier ws i b =
     (if exit_complete ws b (of_nat i) then release_barrier (of_nat i) (ws AND m_bar_id_to_warps b (of_nat i)) b else b)"
  by (simp add: exit_at_barrier_def Let_def lanes_eq)

lemma release_barrier_lanes [simp]:
  "bar_lanes (release_barrier k w b) j = (if j = k then bar_lanes b k - lanes w else bar_lanes b j)"
  "waiting_lanes (release_barrier k w b) = waiting_lanes b - lanes w"
  "m_warp_active (release_barrier k w b) = m_warp_active b"
  "m_cta_to_warps (release_barrier k w b) = m_cta_to_warps b"
  "m_max_barriers_per_cta (release_barrier k w b) = m_max_barriers_per_cta b"
  by (simp_all add: release_barrier_def)

lemma exit_at_barrier_lanes:
  "bar_lanes (exit_at_barrier ws i b) j =
     (if j = of_nat i \<and> exit_complete ws b j then bar_lanes b j - lanes ws else bar_lanes b j)"
  "waiting_lanes (exit_at_barrier ws i b) =
     (if exit_complete ws b (of_nat i) then waiting_lanes b - (lanes ws \<inter> bar_lanes b (of_nat i)) else waiting_lanes b)"
proof -
  let ?k = "of_nat i :: u32"
  let ?r = "release_barrier ?k (ws AND m_bar_id_to_warps b ?k) b"
  have r: "bar_lanes ?r j = (if j = ?k then bar_lanes b j - lanes ws else bar_lanes b j)"
    "waiting_lanes ?r = waiting_lanes b - (lanes ws \<inter> bar_lanes b ?k)"
    by auto
  have t: "exit_at_barrier ws i b = ?r" if "exit_complete ws b ?k"
    unfolding exit_at_barrier_eq by (rule if_P[OF that])
  have f: "exit_at_barrier ws i b = b" if "\<not> exit_complete ws b ?k"
    unfolding exit_at_barrier_eq by (rule if_not_P[OF that])
  show "bar_lanes (exit_at_barrier ws i b) j =
       (if j = ?k \<and> exit_complete ws b j then bar_lanes b j - lanes ws else bar_lanes b j)"
  proof (cases "j = ?k \<and> exit_complete ws b j")
    case True
    then show ?thesis unfolding if_P[OF True] using t r(1) by metis
  next
    case False
    then show ?thesis unfolding if_not_P[OF False] using t f r(1) by metis
  qed
  show "waiting_lanes (exit_at_barrier ws i b) =
     (if exit_complete ws b ?k then waiting_lanes b - (lanes ws \<inter> bar_lanes b ?k) else waiting_lanes b)"
    using t f r(2) by metis
qed

lemma fold_exit_frame [simp]:
  "m_warp_active (fold (exit_at_barrier ws) is b) = m_warp_active b"
  "m_cta_to_warps (fold (exit_at_barrier ws) is b) = m_cta_to_warps b"
  "m_max_barriers_per_cta (fold (exit_at_barrier ws) is b) = m_max_barriers_per_cta b"
  "m_max_cta_per_core (fold (exit_at_barrier ws) is b) = m_max_cta_per_core b"
  by (induction "is" arbitrary: b) simp_all

lemma fold_exit_lanes:
  "inj_on (of_nat :: nat \<Rightarrow> u32) (set is) \<Longrightarrow> distinct is \<Longrightarrow>
   (\<forall>j. bar_lanes (fold (exit_at_barrier ws) is b) j =
     (if j \<in> of_nat ` set is \<and> exit_complete ws b j then bar_lanes b j - lanes ws else bar_lanes b j)) \<and>
   waiting_lanes (fold (exit_at_barrier ws) is b) =
     waiting_lanes b - (\<Union>j \<in> {j \<in> of_nat ` set is. exit_complete ws b j}. lanes ws \<inter> bar_lanes b j)"
proof (induction "is" arbitrary: b)
  case (Cons i "is")
  let ?b = "exit_at_barrier ws i b"
  have i: "of_nat i \<notin> (of_nat ` set is :: u32 set)" using Cons.prems by (auto simp: inj_on_def)
  have eq: "exit_complete ws ?b j = exit_complete ws b j" "bar_lanes ?b j = bar_lanes b j" if j: "j \<in> of_nat ` set is" for j
  proof -
    have "j \<noteq> of_nat i" using i j by blast
    then show "exit_complete ws ?b j = exit_complete ws b j" "bar_lanes ?b j = bar_lanes b j"
      by (simp_all add: exit_at_barrier_lanes)
  qed
  have set: "{j \<in> of_nat ` set is. exit_complete ws ?b j} = {j \<in> of_nat ` set is. exit_complete ws b j}"
    using eq by auto
  have IH: "(\<forall>j. bar_lanes (fold (exit_at_barrier ws) is ?b) j =
     (if j \<in> of_nat ` set is \<and> exit_complete ws ?b j then bar_lanes ?b j - lanes ws else bar_lanes ?b j)) \<and>
   waiting_lanes (fold (exit_at_barrier ws) is ?b) =
     waiting_lanes ?b - (\<Union>j \<in> {j \<in> of_nat ` set is. exit_complete ws ?b j}. lanes ws \<inter> bar_lanes ?b j)"
    by (rule Cons.IH) (use Cons.prems in auto)
  show ?case
  proof (intro conjI allI)
    fix j
    show "bar_lanes (fold (exit_at_barrier ws) (i # is) b) j =
      (if j \<in> of_nat ` set (i # is) \<and> exit_complete ws b j then bar_lanes b j - lanes ws else bar_lanes b j)"
    proof (cases "j \<in> of_nat ` set is")
      case True
      then have "j \<noteq> of_nat i" using i by blast
      then show ?thesis using IH eq[OF True] True by simp
    next
      case False
      then show ?thesis using IH by (simp add: exit_at_barrier_lanes)
    qed
  next
    have "(\<Union>j \<in> {j \<in> of_nat ` set is. exit_complete ws ?b j}. lanes ws \<inter> bar_lanes ?b j) =
      (\<Union>j \<in> {j \<in> of_nat ` set is. exit_complete ws b j}. lanes ws \<inter> bar_lanes b j)"
      unfolding set using eq(2) by auto
    then have "waiting_lanes (fold (exit_at_barrier ws) is ?b) =
      waiting_lanes ?b - (\<Union>j \<in> {j \<in> of_nat ` set is. exit_complete ws b j}. lanes ws \<inter> bar_lanes b j)" using IH by simp
    then show "waiting_lanes (fold (exit_at_barrier ws) (i # is) b) =
      waiting_lanes b - (\<Union>j \<in> {j \<in> of_nat ` set (i # is). exit_complete ws b j}. lanes ws \<inter> bar_lanes b j)"
      by (auto simp: exit_at_barrier_lanes)
  qed
qed simp


section \<open>The operations on sets of warps\<close>

lemma allocate_lanes:
  assumes "allocate_barrier c warps b = Some b'"
  shows "m_cta_to_warps b' = om_put c warps (m_cta_to_warps b)" "map_of (m_cta_to_warps b) c = None"
    "active_lanes b' = active_lanes b \<union> lanes warps" "waiting_lanes b' = waiting_lanes b - lanes warps"
    "bar_lanes b' i = (if i < m_max_barriers_per_cta b then bar_lanes b i - lanes warps else bar_lanes b i)"
    "m_max_barriers_per_cta b' = m_max_barriers_per_cta b"
  using assms by (auto simp: allocate_barrier_def Let_def)

lemma deallocate_lanes:
  assumes "deallocate_barrier c b = Some b'" "map_of (m_cta_to_warps b) c = Some ws"
  shows "m_cta_to_warps b' = om_del c (m_cta_to_warps b)"
    "active_lanes b' = active_lanes b - lanes ws" "waiting_lanes b' = waiting_lanes b - lanes ws"
    "bar_lanes b' i = (if i < m_max_barriers_per_cta b then bar_lanes b i - lanes ws else bar_lanes b i)"
    "m_max_barriers_per_cta b' = m_max_barriers_per_cta b"
    "lanes ws \<inter> active_lanes b = {}" "lanes ws \<inter> waiting_lanes b = {}"
  using assms by (auto simp: deallocate_barrier_def lanes_0)

lemma reach_barrier_lanes [simp]:
  "unat w < 64 \<Longrightarrow> bar_lanes (reach_barrier ty bid w b) j = (if j = bid then insert (unat w) (bar_lanes b bid) else bar_lanes b j)"
  "unat w < 64 \<Longrightarrow> waiting_lanes (reach_barrier ty bid w b) =
     (if ty = SYNC \<or> ty = RED then insert (unat w) (waiting_lanes b) else waiting_lanes b)"
  "m_warp_active (reach_barrier ty bid w b) = m_warp_active b"
  "m_cta_to_warps (reach_barrier ty bid w b) = m_cta_to_warps b"
  "m_max_barriers_per_cta (reach_barrier ty bid w b) = m_max_barriers_per_cta b"
  by (simp_all add: reach_barrier_def)

text \<open>A barrier for the whole block: whether the warp that reaches it is the last one.\<close>

lemma reaches_lanes:
  assumes "warp_reaches_barrier c w ty bid (- 1) b = Some (b', out)" "map_of (m_cta_to_warps b) c = Some ws"
    and sync: "ty = SYNC \<or> ty = RED"
  defines "lst \<equiv> lanes ws \<inter> insert (unat w) (bar_lanes b bid) = lanes ws \<inter> active_lanes b"
  shows "m_cta_to_warps b' = m_cta_to_warps b" "m_warp_active b' = m_warp_active b"
    "m_max_barriers_per_cta b' = m_max_barriers_per_cta b" "unat w \<in> lanes ws"
    "bar_lanes b' j = (if j \<noteq> bid then bar_lanes b j else if lst then insert (unat w) (bar_lanes b bid) - lanes ws
       else insert (unat w) (bar_lanes b bid))"
    "waiting_lanes b' = (if lst then insert (unat w) (waiting_lanes b) - (lanes ws \<inter> insert (unat w) (bar_lanes b bid))
       else insert (unat w) (waiting_lanes b))"
    "out = (if lst \<and> ty = RED then Some (ws AND set_bit (unat w) (m_bar_id_to_warps b bid)) else None)"
proof -
  let ?b = "reach_barrier ty bid w b"
  have w: "unat w < 64" "bit ws (unat w)" "bid \<noteq> - 1"
    using assms(1,2) by (auto simp: warp_reaches_barrier_def Let_def)
  then show "unat w \<in> lanes ws" by (simp add: lanes_def)
  have at: "lanes (ws AND m_bar_id_to_warps ?b bid) = lanes ws \<inter> insert (unat w) (bar_lanes b bid)" using w by simp
  have cond: "(ws AND m_bar_id_to_warps ?b bid = ws AND m_warp_active b) = lst"
    unfolding lst_def lanes_eq at by simp
  have step: "(b', out) = (if lst then (release_barrier bid (ws AND m_bar_id_to_warps ?b bid) ?b,
      if ty = RED then Some (ws AND m_bar_id_to_warps ?b bid) else None) else (?b, None))"
    using assms(1,2) w by (simp add: warp_reaches_barrier_def Let_def cond split: if_splits)
  have bar: "m_bar_id_to_warps ?b bid = set_bit (unat w) (m_bar_id_to_warps b bid)" by (simp add: reach_barrier_def)
  show "m_cta_to_warps b' = m_cta_to_warps b" "m_warp_active b' = m_warp_active b"
    "m_max_barriers_per_cta b' = m_max_barriers_per_cta b"
    using step by (auto split: if_splits)
  show "bar_lanes b' j = (if j \<noteq> bid then bar_lanes b j else if lst then insert (unat w) (bar_lanes b bid) - lanes ws
       else insert (unat w) (bar_lanes b bid))"
    "waiting_lanes b' = (if lst then insert (unat w) (waiting_lanes b) - (lanes ws \<inter> insert (unat w) (bar_lanes b bid))
       else insert (unat w) (waiting_lanes b))"
    using step w sync by (cases lst; auto)+
  show "out = (if lst \<and> ty = RED then Some (ws AND set_bit (unat w) (m_bar_id_to_warps b bid)) else None)"
    using step unfolding bar by (cases lst) simp_all
qed


lemma exit_lanes:
  assumes "barrier_warp_exit w b = Some b'"
  obtains c ws where "(c, ws) \<in> set (m_cta_to_warps b)" "unat w \<in> lanes ws"
    "m_cta_to_warps b' = m_cta_to_warps b" "active_lanes b' = active_lanes b - {unat w}"
    "m_max_barriers_per_cta b' = m_max_barriers_per_cta b"
    "\<And>j. bar_lanes b' j =
       (if j < m_max_barriers_per_cta b \<and> lanes ws \<inter> bar_lanes b j = lanes ws \<inter> (active_lanes b - {unat w})
        then bar_lanes b j - lanes ws else bar_lanes b j)"
    "waiting_lanes b' = waiting_lanes b -
       (\<Union>j \<in> {j. j < m_max_barriers_per_cta b \<and> lanes ws \<inter> bar_lanes b j = lanes ws \<inter> (active_lanes b - {unat w})}. lanes ws \<inter> bar_lanes b j)"
proof -
  let ?b = "b\<lparr>m_warp_active := unset_bit (unat w) (m_warp_active b)\<rparr>" and ?n = "m_max_barriers_per_cta b"
  obtain c ws where w: "unat w < 64" "find (\<lambda>(_, warps). bit warps (unat w)) (m_cta_to_warps b) = Some (c, ws)"
    and b': "b' = fold (exit_at_barrier ws) [0..<unat ?n] ?b"
    using assms by (auto simp: barrier_warp_exit_def bind_Some_iff)
  have mem: "(c, ws) \<in> set (m_cta_to_warps b)" "unat w \<in> lanes ws"
    using w by (auto simp: find_Some_iff in_lanes) (metis nth_mem)
  have inj: "inj_on (of_nat :: nat \<Rightarrow> u32) (set [0..<unat ?n])"
  proof (rule inj_onI)
    fix x y assume "x \<in> set [0..<unat ?n]" "y \<in> set [0..<unat ?n]" "(of_nat x :: u32) = of_nat y"
    then have "x < 2 ^ 32" "y < 2 ^ 32" "unat (of_nat x :: u32) = unat (of_nat y :: u32)"
      using u32_lt[of ?n] by auto
    then show "x = y" by (simp add: unsigned_of_nat take_bit_nat_eq_self)
  qed
  have img: "j \<in> of_nat ` set [0..<unat ?n] \<longleftrightarrow> j < ?n" for j
  proof
    assume "j \<in> of_nat ` set [0..<unat ?n]"
    then obtain x where x: "x < unat ?n" "j = of_nat x" by auto
    then have "unat j = x" using u32_lt[of ?n] by (simp add: unsigned_of_nat take_bit_nat_eq_self)
    then show "j < ?n" using x by (simp add: word_less_nat_alt)
  next
    assume "j < ?n"
    then show "j \<in> of_nat ` set [0..<unat ?n]"
      by (intro image_eqI[of _ _ "unat j"]) (simp_all add: word_less_nat_alt)
  qed
  note f = fold_exit_lanes[OF inj distinct_upt, of ws ?b, folded b']
  have act: "active_lanes ?b = active_lanes b - {unat w}" "\<And>j. bar_lanes ?b j = bar_lanes b j"
    "waiting_lanes ?b = waiting_lanes b"
    by simp_all
  show thesis
  proof (rule that[OF mem])
    show "m_cta_to_warps b' = m_cta_to_warps b" "active_lanes b' = active_lanes b - {unat w}"
      "m_max_barriers_per_cta b' = m_max_barriers_per_cta b"
      by (simp_all add: b')
    show "bar_lanes b' j =
       (if j < ?n \<and> lanes ws \<inter> bar_lanes b j = lanes ws \<inter> (active_lanes b - {unat w})
        then bar_lanes b j - lanes ws else bar_lanes b j)" for j
      using f[THEN conjunct1, rule_format, of j] unfolding act img .
    show "waiting_lanes b' = waiting_lanes b -
       (\<Union>j \<in> {j. j < ?n \<and> lanes ws \<inter> bar_lanes b j = lanes ws \<inter> (active_lanes b - {unat w})}. lanes ws \<inter> bar_lanes b j)"
      using f[THEN conjunct2] unfolding act img .
  qed
qed

section \<open>The life of the barriers of a core\<close>

text \<open>
  What a core does with its barriers: a new block gets warps no other block has, running warps that do
  not wait reach barriers for the whole block (\<open>bar.sync\<close> or \<open>bar.red\<close> without a count) or exit, and
  blocks end.
\<close>

inductive barrier_step :: "barrier_set \<Rightarrow> barrier_set \<Rightarrow> bool" where
  start: "allocate_barrier c warps b = Some b' \<Longrightarrow>
    (\<And>d ws. map_of (m_cta_to_warps b) d = Some ws \<Longrightarrow> ws AND warps = 0) \<Longrightarrow> barrier_step b b'"
| reach: "warp_reaches_barrier c w ty bid (- 1) b = Some (b', out) \<Longrightarrow> ty = SYNC \<or> ty = RED \<Longrightarrow>
    bid < m_max_barriers_per_cta b \<Longrightarrow> bit (m_warp_active b) (unat w) \<Longrightarrow> \<not> bit (m_warp_at_barrier b) (unat w) \<Longrightarrow>
    barrier_step b b'"
| exit: "barrier_warp_exit w b = Some b' \<Longrightarrow> bit (m_warp_active b) (unat w) \<Longrightarrow>
    \<not> bit (m_warp_at_barrier b) (unat w) \<Longrightarrow> barrier_step b b'"
| finish: "deallocate_barrier c b = Some b' \<Longrightarrow> barrier_step b b'"

definition ctas_of :: "barrier_set \<Rightarrow> u32 \<Rightarrow> nat set" where
  "ctas_of b c = (case map_of (m_cta_to_warps b) c of None \<Rightarrow> {} | Some ws \<Rightarrow> lanes ws)"

text \<open>
  The invariant: blocks do not share warps, only running warps of a block wait, each at one barrier,
  and at every barrier with a warp waiting there is a running warp of the block still to come.
\<close>

definition barriers_ok :: "barrier_set \<Rightarrow> bool" where
  "barriers_ok b = (om_ok (m_cta_to_warps b) \<and>
     (\<forall>c d. c \<noteq> d \<longrightarrow> ctas_of b c \<inter> ctas_of b d = {}) \<and>
     waiting_lanes b \<subseteq> active_lanes b \<and> active_lanes b \<subseteq> (\<Union>c. ctas_of b c) \<and>
     waiting_lanes b = (\<Union>i \<in> {i. i < m_max_barriers_per_cta b}. bar_lanes b i) \<and>
     (\<forall>i j. i < m_max_barriers_per_cta b \<longrightarrow> j < m_max_barriers_per_cta b \<longrightarrow> i \<noteq> j \<longrightarrow> bar_lanes b i \<inter> bar_lanes b j = {}) \<and>
     (\<forall>c i. i < m_max_barriers_per_cta b \<longrightarrow> ctas_of b c \<inter> bar_lanes b i \<noteq> {} \<longrightarrow>
        (\<exists>n \<in> ctas_of b c \<inter> active_lanes b. n \<notin> bar_lanes b i)))"


lemma barriers_okD:
  assumes "barriers_ok b"
  shows "om_ok (m_cta_to_warps b)" "c \<noteq> d \<Longrightarrow> ctas_of b c \<inter> ctas_of b d = {}"
    "waiting_lanes b \<subseteq> active_lanes b" "active_lanes b \<subseteq> (\<Union>c. ctas_of b c)"
    "waiting_lanes b = (\<Union>i \<in> {i. i < m_max_barriers_per_cta b}. bar_lanes b i)"
    "i < m_max_barriers_per_cta b \<Longrightarrow> j < m_max_barriers_per_cta b \<Longrightarrow> i \<noteq> j \<Longrightarrow> bar_lanes b i \<inter> bar_lanes b j = {}"
    "i < m_max_barriers_per_cta b \<Longrightarrow> ctas_of b c \<inter> bar_lanes b i \<noteq> {} \<Longrightarrow> \<exists>n \<in> ctas_of b c \<inter> active_lanes b. n \<notin> bar_lanes b i"
proof -
  note h = assms[unfolded barriers_ok_def]
  note h2 = h[THEN conjunct2] note h3 = h2[THEN conjunct2] note h4 = h3[THEN conjunct2]
  note h5 = h4[THEN conjunct2] note h6 = h5[THEN conjunct2] note h7 = h6[THEN conjunct2]
  show "om_ok (m_cta_to_warps b)" by (rule h[THEN conjunct1])
  show "c \<noteq> d \<Longrightarrow> ctas_of b c \<inter> ctas_of b d = {}" by (rule h2[THEN conjunct1, rule_format])
  show "waiting_lanes b \<subseteq> active_lanes b" by (rule h3[THEN conjunct1])
  show "active_lanes b \<subseteq> (\<Union>c. ctas_of b c)" by (rule h4[THEN conjunct1])
  show "waiting_lanes b = (\<Union>i \<in> {i. i < m_max_barriers_per_cta b}. bar_lanes b i)" by (rule h5[THEN conjunct1])
  show "i < m_max_barriers_per_cta b \<Longrightarrow> j < m_max_barriers_per_cta b \<Longrightarrow> i \<noteq> j \<Longrightarrow> bar_lanes b i \<inter> bar_lanes b j = {}"
    by (rule h6[THEN conjunct1, rule_format])
  show "i < m_max_barriers_per_cta b \<Longrightarrow> ctas_of b c \<inter> bar_lanes b i \<noteq> {} \<Longrightarrow> \<exists>n \<in> ctas_of b c \<inter> active_lanes b. n \<notin> bar_lanes b i"
    by (rule h7[rule_format])
qed

lemma bar_waits: "barriers_ok b \<Longrightarrow> i < m_max_barriers_per_cta b \<Longrightarrow> bar_lanes b i \<subseteq> waiting_lanes b"
  using barriers_okD(5) by blast

lemma start_ok:
  assumes ok: "barriers_ok b" and a: "allocate_barrier c warps b = Some b'"
    and fresh: "\<And>d ws. map_of (m_cta_to_warps b) d = Some ws \<Longrightarrow> ws AND warps = 0"
  shows "barriers_ok b'"
proof -
  note l = allocate_lanes[OF a] and D = barriers_okD[OF ok]
  let ?W = "lanes warps" and ?n = "m_max_barriers_per_cta b"
  have cta: "ctas_of b' d = (if d = c then ?W else ctas_of b d)" for d by (simp add: ctas_of_def l(1))
  have disj: "ctas_of b d \<inter> ?W = {}" for d
    using fresh[of d] by (auto simp: ctas_of_def lanes_0 split: option.splits)
  have act: "active_lanes b \<inter> ?W = {}" using D(4) disj by blast
  then have wait: "waiting_lanes b - ?W = waiting_lanes b" using D(3) by blast
  have bar: "bar_lanes b' i = bar_lanes b i" if "i < ?n" for i
    using bar_waits[OF ok that] D(3) act that by (simp add: l(5)) blast
  show ?thesis
    unfolding barriers_ok_def l(3,4,6) wait cta
  proof (intro conjI allI impI)
    show "om_ok (m_cta_to_warps b')" unfolding l(1) by (rule om_ok_put[OF D(1)])
    show "(if x = c then ?W else ctas_of b x) \<inter> (if y = c then ?W else ctas_of b y) = {}" if "x \<noteq> y" for x y
      using that D(2)[OF that] disj[of x] disj[of y] by auto
    show "waiting_lanes b \<subseteq> active_lanes b \<union> ?W" using D(3) by blast
    show "active_lanes b \<union> ?W \<subseteq> (\<Union>d. if d = c then ?W else ctas_of b d)"
    proof
      fix n assume n: "n \<in> active_lanes b \<union> ?W"
      show "n \<in> (\<Union>d. if d = c then ?W else ctas_of b d)"
      proof (cases "n \<in> ?W")
        case False
        then obtain d where "n \<in> ctas_of b d" using n D(4) by blast
        moreover have "d \<noteq> c" using \<open>n \<in> ctas_of b d\<close> l(2) by (auto simp: ctas_of_def)
        ultimately show ?thesis by (intro UN_I[of d]) simp_all
      qed (intro UN_I[of c]; simp)
    qed
    show "waiting_lanes b = (\<Union>i \<in> {i. i < ?n}. bar_lanes b' i)" using D(5) bar by auto
    show "bar_lanes b' i \<inter> bar_lanes b' j = {}" if "i < ?n" "j < ?n" "i \<noteq> j" for i j
      using D(6)[OF that] bar that by simp
    show "\<exists>n \<in> (if d = c then ?W else ctas_of b d) \<inter> (active_lanes b \<union> ?W). n \<notin> bar_lanes b' i"
      if i: "i < ?n" and h: "(if d = c then ?W else ctas_of b d) \<inter> bar_lanes b' i \<noteq> {}" for d i
    proof (cases "d = c")
      case True
      then show ?thesis using h bar[OF i] bar_waits[OF ok i] D(3) act by auto
    next
      case False
      then have "ctas_of b d \<inter> bar_lanes b i \<noteq> {}" using h bar[OF i] by simp
      then show ?thesis using D(7)[OF i] False bar[OF i] by auto
    qed
  qed
qed

lemma finish_ok:
  assumes ok: "barriers_ok b" and a: "deallocate_barrier c b = Some b'"
  shows "barriers_ok b'"
proof (cases "map_of (m_cta_to_warps b) c")
  case None
  then show ?thesis using a ok by (simp add: deallocate_barrier_def)
next
  case (Some ws)
  note l = deallocate_lanes[OF a Some] and D = barriers_okD[OF ok]
  let ?n = "m_max_barriers_per_cta b"
  have cta: "ctas_of b' d = (if d = c then {} else ctas_of b d)" for d
    by (simp add: ctas_of_def l(1) map_of_om_del[OF D(1)])
  have c: "ctas_of b c = lanes ws" by (simp add: ctas_of_def Some)
  have act: "active_lanes b - lanes ws = active_lanes b" "waiting_lanes b - lanes ws = waiting_lanes b"
    using l(6,7) by blast+
  have bar: "bar_lanes b' i = bar_lanes b i" if "i < ?n" for i
    using bar_waits[OF ok that] l(7) that by (simp add: l(4)) blast
  show ?thesis
    unfolding barriers_ok_def l(2,3,5) act cta
  proof (intro conjI allI impI)
    show "om_ok (m_cta_to_warps b')" unfolding l(1) by (rule om_ok_del[OF D(1)])
    show "(if x = c then {} else ctas_of b x) \<inter> (if y = c then {} else ctas_of b y) = {}" if "x \<noteq> y" for x y
      using D(2)[OF that] by auto
    show "waiting_lanes b \<subseteq> active_lanes b" by (rule D(3))
    show "active_lanes b \<subseteq> (\<Union>d. if d = c then {} else ctas_of b d)"
    proof
      fix n assume n: "n \<in> active_lanes b"
      then obtain d where d: "n \<in> ctas_of b d" using D(4) by blast
      then have "d \<noteq> c" using n l(6) c by blast
      then show "n \<in> (\<Union>d. if d = c then {} else ctas_of b d)" using d by (intro UN_I[of d]) simp_all
    qed
    show "waiting_lanes b = (\<Union>i \<in> {i. i < ?n}. bar_lanes b' i)" using D(5) bar by auto
    show "bar_lanes b' i \<inter> bar_lanes b' j = {}" if "i < ?n" "j < ?n" "i \<noteq> j" for i j
      using D(6)[OF that] bar that by simp
    show "\<exists>n \<in> (if d = c then {} else ctas_of b d) \<inter> active_lanes b. n \<notin> bar_lanes b' i"
      if i: "i < ?n" and h: "(if d = c then {} else ctas_of b d) \<inter> bar_lanes b' i \<noteq> {}" for d i
      using h D(7)[OF i, of d] bar[OF i] by (cases "d = c") simp_all
  qed
qed


lemma reach_cta:
  assumes "warp_reaches_barrier c w ty bid (- 1) b = Some (b', out)"
  obtains ws where "map_of (m_cta_to_warps b) c = Some ws"
  using assms by (auto simp: warp_reaches_barrier_def bind_Some_iff)

lemma lane_iff: "n < 64 \<Longrightarrow> bit x n = (n \<in> lanes x)"
  by (simp add: lanes_def)

lemma reach_ok:
  assumes ok: "barriers_ok b" and r: "warp_reaches_barrier c w ty bid (- 1) b = Some (b', out)" "ty = SYNC \<or> ty = RED"
    and bid: "bid < m_max_barriers_per_cta b" and w: "unat w \<in> active_lanes b" "unat w \<notin> waiting_lanes b"
  shows "barriers_ok b'"
proof -
  obtain ws where ws: "map_of (m_cta_to_warps b) c = Some ws" using reach_cta[OF r(1)] .
  note l = reaches_lanes[OF r(1) ws r(2)] and D = barriers_okD[OF ok]
  let ?n = "m_max_barriers_per_cta b" and ?u = "unat w" and ?W = "lanes ws"
  let ?last = "?W \<inter> insert ?u (bar_lanes b bid) = ?W \<inter> active_lanes b"
  have cta: "ctas_of b' d = ctas_of b d" for d by (simp add: ctas_of_def l(1))
  have c: "ctas_of b c = ?W" by (simp add: ctas_of_def ws)
  have other: "ctas_of b d \<inter> ?W = {}" if "d \<noteq> c" for d using D(2)[OF that] c by simp
  have nb: "?u \<notin> bar_lanes b i" if "i < ?n" for i using bar_waits[OF ok that] w(2) by blast
  have act: "active_lanes b' = active_lanes b" by (simp add: l(2))
  show ?thesis
    unfolding barriers_ok_def l(1,3) act cta
  proof (intro conjI allI impI)
    show "om_ok (m_cta_to_warps b)" by (rule D(1))
    show "ctas_of b x \<inter> ctas_of b y = {}" if "x \<noteq> y" for x y by (rule D(2)[OF that])
    show "waiting_lanes b' \<subseteq> active_lanes b" unfolding l(6) using D(3) w(1) by (auto split: if_splits)
    show "active_lanes b \<subseteq> (\<Union>d. ctas_of b d)" by (rule D(4))
    show "waiting_lanes b' = (\<Union>i \<in> {i. i < ?n}. bar_lanes b' i)"
    proof (cases ?last)
      case True
      have b': "bar_lanes b' j = (if j = bid then insert ?u (bar_lanes b bid) - ?W else bar_lanes b j)" for j
        unfolding l(5) using True by simp
      have w': "waiting_lanes b' = insert ?u (waiting_lanes b) - (?W \<inter> insert ?u (bar_lanes b bid))"
        unfolding l(6) using True by simp
      have "x \<in> waiting_lanes b' \<longleftrightarrow> (\<exists>i < ?n. x \<in> bar_lanes b' i)" for x
      proof
        assume x: "x \<in> waiting_lanes b'"
        show "\<exists>i < ?n. x \<in> bar_lanes b' i"
        proof (cases "x \<in> waiting_lanes b")
          case True
          then obtain i where "i < ?n" "x \<in> bar_lanes b i" using D(5) by blast
          then show ?thesis using x unfolding w' b' by (intro exI[of _ i]) auto
        next
          case False
          then show ?thesis using x bid unfolding w' b' by (intro exI[of _ bid]) auto
        qed
      next
        assume "\<exists>i < ?n. x \<in> bar_lanes b' i"
        then obtain i where i: "i < ?n" "x \<in> bar_lanes b' i" by blast
        show "x \<in> waiting_lanes b'"
        proof (cases "i = bid")
          case True
          then show ?thesis using i bar_waits[OF ok bid] unfolding w' b' by auto
        next
          case False
          then have "x \<in> bar_lanes b i" using i unfolding b' by simp
          moreover have "x \<notin> bar_lanes b bid" using D(6)[OF i(1) bid False] calculation by blast
          ultimately show ?thesis using nb[OF i(1)] bar_waits[OF ok i(1)] unfolding w' by auto
        qed
      qed
      then show ?thesis by blast
    next
      case False
      have b': "bar_lanes b' j = (if j = bid then insert ?u (bar_lanes b bid) else bar_lanes b j)" for j
        unfolding l(5) using False by simp
      have w': "waiting_lanes b' = insert ?u (waiting_lanes b)" unfolding l(6) using False by simp
      show ?thesis unfolding w' b' D(5) using bid by auto
    qed
    show "bar_lanes b' i \<inter> bar_lanes b' j = {}" if ij: "i < ?n" "j < ?n" "i \<noteq> j" for i j
      using D(6)[OF ij] nb[OF ij(1)] nb[OF ij(2)] ij(3) unfolding l(5) by (auto split: if_splits)
    show "\<exists>n \<in> ctas_of b d \<inter> active_lanes b. n \<notin> bar_lanes b' i"
      if i: "i < ?n" and h: "ctas_of b d \<inter> bar_lanes b' i \<noteq> {}" for d i
    proof (cases "i = bid")
      case False
      then show ?thesis using D(7)[OF i, of d] h unfolding l(5) by simp
    next
      case eq: True
      show ?thesis
      proof (cases "d = c")
        case True
        then have "\<not> ?last" using h eq c unfolding l(5) by auto
        moreover have "?W \<inter> insert ?u (bar_lanes b bid) \<subseteq> ?W \<inter> active_lanes b"
          using bar_waits[OF ok bid] D(3) w(1) by blast
        ultimately obtain n where "n \<in> ?W \<inter> active_lanes b" "n \<notin> insert ?u (bar_lanes b bid)" by blast
        then show ?thesis using True eq c unfolding l(5) by (intro bexI[of _ n]) auto
      next
        case False
        have u: "?u \<notin> ctas_of b d" using other[OF False] l(4) by blast
        then have "ctas_of b d \<inter> bar_lanes b bid \<noteq> {}" using h eq unfolding l(5) by (auto split: if_splits)
        then obtain n where n: "n \<in> ctas_of b d \<inter> active_lanes b" "n \<notin> bar_lanes b bid" using D(7)[OF bid] by blast
        then have "n \<noteq> ?u" using u by blast
        then show ?thesis using n eq unfolding l(5) by (intro bexI[of _ n]) auto
      qed
    qed
  qed
qed

lemma exit_ok:
  assumes ok: "barriers_ok b" and e: "barrier_warp_exit w b = Some b'"
    and w: "unat w \<in> active_lanes b" "unat w \<notin> waiting_lanes b"
  shows "barriers_ok b'"
proof -
  obtain c ws where l: "(c, ws) \<in> set (m_cta_to_warps b)" "unat w \<in> lanes ws"
    "m_cta_to_warps b' = m_cta_to_warps b" "active_lanes b' = active_lanes b - {unat w}"
    "m_max_barriers_per_cta b' = m_max_barriers_per_cta b"
    "\<And>j. bar_lanes b' j =
       (if j < m_max_barriers_per_cta b \<and> lanes ws \<inter> bar_lanes b j = lanes ws \<inter> (active_lanes b - {unat w})
        then bar_lanes b j - lanes ws else bar_lanes b j)"
    "waiting_lanes b' = waiting_lanes b -
       (\<Union>j \<in> {j. j < m_max_barriers_per_cta b \<and> lanes ws \<inter> bar_lanes b j = lanes ws \<inter> (active_lanes b - {unat w})}. lanes ws \<inter> bar_lanes b j)"
    using exit_lanes[OF e] by blast
  note D = barriers_okD[OF ok]
  let ?n = "m_max_barriers_per_cta b" and ?u = "unat w" and ?W = "lanes ws"
  let ?all = "\<lambda>j. ?W \<inter> bar_lanes b j = ?W \<inter> (active_lanes b - {?u})"
  have "map_of (m_cta_to_warps b) c = Some ws" using l(1) om_ok_map_of_iff[OF D(1)] by blast
  then have c: "ctas_of b c = ?W" by (simp add: ctas_of_def)
  have cta: "ctas_of b' d = ctas_of b d" for d by (simp add: ctas_of_def l(3))
  have b': "bar_lanes b' j = (if ?all j then bar_lanes b j - ?W else bar_lanes b j)" if "j < ?n" for j
    using l(6)[of j] that by simp
  have w': "x \<in> waiting_lanes b' \<longleftrightarrow> x \<in> waiting_lanes b \<and> \<not> (\<exists>j < ?n. ?all j \<and> x \<in> ?W \<inter> bar_lanes b j)" for x
    unfolding l(7) by blast
  show ?thesis
    unfolding barriers_ok_def l(3,4,5) cta
  proof (intro conjI allI impI)
    show "om_ok (m_cta_to_warps b)" by (rule D(1))
    show "ctas_of b x \<inter> ctas_of b y = {}" if "x \<noteq> y" for x y by (rule D(2)[OF that])
    show "waiting_lanes b' \<subseteq> active_lanes b - {?u}" using w' D(3) w(2) by blast
    show "active_lanes b - {?u} \<subseteq> (\<Union>d. ctas_of b d)" using D(4) by blast
    have "x \<in> waiting_lanes b' \<longleftrightarrow> (\<exists>i < ?n. x \<in> bar_lanes b' i)" for x
    proof
      assume x: "x \<in> waiting_lanes b'"
      then obtain i where i: "i < ?n" "x \<in> bar_lanes b i" using w' D(5) by blast
      then show "\<exists>i < ?n. x \<in> bar_lanes b' i" using x w' b'[OF i(1)] by (intro exI[of _ i]) auto
    next
      assume "\<exists>i < ?n. x \<in> bar_lanes b' i"
      then obtain i where i: "i < ?n" "x \<in> bar_lanes b' i" by blast
      then have x: "x \<in> bar_lanes b i" "\<not> (?all i \<and> x \<in> ?W)" using b'[OF i(1)] by (auto split: if_splits)
      have "j = i" if "j < ?n" "x \<in> bar_lanes b j" for j using D(6)[OF that(1) i(1)] that(2) x(1) by blast
      then show "x \<in> waiting_lanes b'" using w' x bar_waits[OF ok i(1)] by blast
    qed
    then show "waiting_lanes b' = (\<Union>i \<in> {i. i < ?n}. bar_lanes b' i)" by blast
    show "bar_lanes b' i \<inter> bar_lanes b' j = {}" if ij: "i < ?n" "j < ?n" "i \<noteq> j" for i j
      using D(6)[OF ij] b'[OF ij(1)] b'[OF ij(2)] by (auto split: if_splits)
    show "\<exists>n \<in> ctas_of b d \<inter> (active_lanes b - {?u}). n \<notin> bar_lanes b' i"
      if i: "i < ?n" and h: "ctas_of b d \<inter> bar_lanes b' i \<noteq> {}" for d i
    proof (cases "d = c")
      case True
      then have no: "\<not> ?all i" using h c b'[OF i] by auto
      have "?W \<inter> bar_lanes b i \<subseteq> ?W \<inter> (active_lanes b - {?u})" using bar_waits[OF ok i] D(3) w(2) by blast
      then obtain n where "n \<in> ?W \<inter> (active_lanes b - {?u})" "n \<notin> bar_lanes b i" using no by blast
      then show ?thesis using True c no b'[OF i] by auto
    next
      case False
      then have dis: "ctas_of b d \<inter> ?W = {}" using D(2) c by blast
      have "ctas_of b d \<inter> bar_lanes b i \<noteq> {}" using h b'[OF i] by (auto split: if_splits)
      then obtain n where n: "n \<in> ctas_of b d \<inter> active_lanes b" "n \<notin> bar_lanes b i" using D(7)[OF i] by blast
      then have "n \<noteq> ?u" "n \<notin> bar_lanes b' i" using dis l(2) b'[OF i] by (auto split: if_splits)
      then show ?thesis using n by blast
    qed
  qed
qed


lemma barrier_new_ok: "barrier_set_new a c n ws = Some b \<Longrightarrow> barriers_ok b"
  by (auto simp: barrier_set_new_def barriers_ok_def ctas_of_def om_ok_def)

lemma reach_lt: "warp_reaches_barrier c w ty bid (- 1) b = Some (b', out) \<Longrightarrow> unat w < 64"
  by (auto simp: warp_reaches_barrier_def bind_Some_iff)

lemma exit_lt: "barrier_warp_exit w b = Some b' \<Longrightarrow> unat w < 64"
  by (auto simp: barrier_warp_exit_def)

lemma barrier_step_ok: "barrier_step b b' \<Longrightarrow> barriers_ok b \<Longrightarrow> barriers_ok b'"
proof (induction rule: barrier_step.induct)
  case (start c warps b b')
  then show ?case using start_ok by blast
next
  case (reach c w ty bid b b' out)
  then show ?case using reach_ok[OF reach.prems reach.hyps(1-3)] reach_lt[OF reach.hyps(1)] by (simp add: lane_iff)
next
  case (exit w b b')
  then show ?case using exit_ok[OF exit.prems exit.hyps(1)] exit_lt[OF exit.hyps(1)] by (simp add: lane_iff)
next
  case (finish c b b')
  then show ?case using finish_ok by blast
qed

lemma barrier_reachable_ok:
  assumes "barrier_step\<^sup>*\<^sup>* b0 b" "barrier_set_new a c n ws = Some b0"
  shows "barriers_ok b"
  using assms(1) barrier_new_ok[OF assms(2)] by (induction rule: rtranclp_induct) (auto intro: barrier_step_ok)

lemma waiting_lane: "warp_waiting_at_barrier w b = Some v \<Longrightarrow> unat w < 64 \<and> v = (unat w \<in> waiting_lanes b)"
  by (auto simp: warp_waiting_at_barrier_def lane_iff)

lemma disjoint_rest: "U \<subseteq> A \<Longrightarrow> W \<inter> (U - W \<inter> A) = {}" for A :: "nat set"
  by auto

text \<open>A waiting warp belongs to a block and stands at one barrier of it.\<close>

lemma waiting_place:
  assumes "barriers_ok b" "n \<in> waiting_lanes b"
  obtains c ws i where "map_of (m_cta_to_warps b) c = Some ws" "n \<in> lanes ws" "i < m_max_barriers_per_cta b" "n \<in> bar_lanes b i"
proof -
  note D = barriers_okD[OF assms(1)]
  obtain c where c: "n \<in> ctas_of b c" using D(3,4) assms(2) by blast
  obtain i where "i < m_max_barriers_per_cta b" "n \<in> bar_lanes b i" using D(5) assms(2) by blast
  then show thesis using that c by (auto simp: ctas_of_def split: option.splits)
qed





text \<open>A core with a block of two warps: warp 0 reaches barrier 0, then warp 1 does; then both exit.\<close>

definition sample_core :: barrier_set where
  "sample_core = \<lparr>m_max_cta_per_core = 8, m_max_warps_per_core = 48, m_max_barriers_per_cta = 1, b_warp_size = 32,
     m_cta_to_warps = [], m_bar_id_to_warps = (\<lambda>_. 0), m_warp_active = 0, m_warp_at_barrier = 0\<rparr>"

definition sample_started :: barrier_set where
  "sample_started = the (allocate_barrier 0 3 sample_core)"

definition sample_reached :: barrier_set where
  "sample_reached = fst (the (warp_reaches_barrier 0 0 SYNC 0 (- 1) sample_started))"

definition sample_released :: barrier_set where
  "sample_released = fst (the (warp_reaches_barrier 0 1 SYNC 0 (- 1) sample_reached))"

definition sample_exited :: barrier_set where
  "sample_exited = the (barrier_warp_exit 1 (the (barrier_warp_exit 0 sample_started)))"

lemma sample_new: "barrier_set_new 48 8 1 32 = Some sample_core"
  by (simp add: barrier_set_new_def sample_core_def)

lemma sample_started_eq: "allocate_barrier 0 3 sample_core = Some sample_started"
  by (simp add: sample_started_def) (simp add: allocate_barrier_def sample_core_def Let_def)

lemma sample_reached_eq: "warp_reaches_barrier 0 0 SYNC 0 (- 1) sample_started = Some (sample_reached, None)"
  unfolding sample_reached_def by code_simp

lemma sample_released_eq: "warp_reaches_barrier 0 1 SYNC 0 (- 1) sample_reached = Some (sample_released, None)"
  unfolding sample_released_def by code_simp


lemma sample_steps:
  "barrier_step sample_core sample_started" "barrier_step sample_started sample_reached"
  "barrier_step sample_reached sample_released"
proof -
  show "barrier_step sample_core sample_started"
    by (rule barrier_step.start[OF sample_started_eq]) (simp add: sample_core_def)
  show "barrier_step sample_started sample_reached"
    by (rule barrier_step.reach[OF sample_reached_eq]) (simp, code_simp, code_simp, code_simp)
  show "barrier_step sample_reached sample_released"
    by (rule barrier_step.reach[OF sample_released_eq]) (simp, code_simp, code_simp, code_simp)
qed

lemma sample_reachable: "barrier_step\<^sup>*\<^sup>* sample_core sample_reached"
  using sample_steps by (meson rtranclp.rtrancl_into_rtrancl rtranclp.rtrancl_refl)

lemma sample_waits:
  "warp_waiting_at_barrier 0 sample_reached = Some True" "warp_waiting_at_barrier 0 sample_released = Some False"
  by code_simp+



lemma sample_exits:
  "\<exists>b1. barrier_warp_exit 0 sample_started = Some b1 \<and> barrier_warp_exit 1 b1 = Some sample_exited \<and>
     bit (m_warp_active sample_started) 0 \<and> \<not> bit (m_warp_at_barrier sample_started) 0 \<and>
     bit (m_warp_active b1) 1 \<and> \<not> bit (m_warp_at_barrier b1) 1"
proof -
  have "barrier_warp_exit 0 sample_started \<noteq> None" by code_simp
  then obtain b1 where b1: "barrier_warp_exit 0 sample_started = Some b1" by blast
  have "barrier_warp_exit 1 (the (barrier_warp_exit 0 sample_started)) \<noteq> None" by code_simp
  then have "barrier_warp_exit 1 b1 \<noteq> None" unfolding b1 option.sel .
  then have "barrier_warp_exit 1 b1 = Some sample_exited"
    unfolding sample_exited_def b1 option.sel by (rule option.collapse[symmetric])
  moreover have "bit (m_warp_active (the (barrier_warp_exit 0 sample_started))) 1"
    "\<not> bit (m_warp_at_barrier (the (barrier_warp_exit 0 sample_started))) 1"
    "bit (m_warp_active sample_started) 0" "\<not> bit (m_warp_at_barrier sample_started) 0" by code_simp+
  ultimately show ?thesis using b1 by simp
qed

lemma sample_exited_reachable: "barrier_step\<^sup>*\<^sup>* sample_core sample_exited"
proof -
  obtain b1 where b1: "barrier_warp_exit 0 sample_started = Some b1" "barrier_warp_exit 1 b1 = Some sample_exited"
     "bit (m_warp_active sample_started) 0" "\<not> bit (m_warp_at_barrier sample_started) 0"
     "bit (m_warp_active b1) 1" "\<not> bit (m_warp_at_barrier b1) 1"
    using sample_exits by blast
  have "barrier_step sample_started b1" by (rule barrier_step.exit[OF b1(1)]) (use b1(3,4) in simp_all)
  moreover have "barrier_step b1 sample_exited" by (rule barrier_step.exit[OF b1(2)]) (use b1(5,6) in simp_all)
  ultimately show ?thesis using sample_steps(1) by (meson rtranclp.rtrancl_into_rtrancl rtranclp.rtrancl_refl)
qed


end
