(* ===== verification/RegisterSet.thy ===== *)
theory RegisterSet
  imports WarpInst
begin

text \<open>
  Pipeline registers (\<open>register_set\<close> of \<open>abstract_hardware_model.h\<close>): a set of warp instructions,
  some of them empty, between two stages of the shader core. An instruction carries here the fields
  that the operand collector reads beside those of \<open>warp_inst\<close>: the registers of its sources and
  destinations, whether it was decoded, and the operand counts. Moving an instruction swaps two
  pointers and clears the one left behind, so the empty slot keeps the stale fields of what it held.
\<close>

section \<open>Instructions in a pipeline register\<close>

abbreviation MAX_REG_OPERANDS :: nat where "MAX_REG_OPERANDS \<equiv> 32"

record pipe_inst =
  p_warp :: warp_inst
  arch_src :: "int list"
  arch_dst :: "int list"
  p_decoded :: bool
  num_operands :: u32
  num_regs :: u32

definition p_empty :: "pipe_inst \<Rightarrow> bool" where
  "p_empty i = w_empty (p_warp i)"

definition p_uid :: "pipe_inst \<Rightarrow> u32" where
  "p_uid i = w_uid (p_warp i)"

definition p_clear :: "pipe_inst \<Rightarrow> pipe_inst" where
  "p_clear i = i\<lparr>p_warp := w_clear (p_warp i)\<rparr>"

definition move_warp :: "pipe_inst \<Rightarrow> pipe_inst \<Rightarrow> (pipe_inst \<times> pipe_inst) option" where
  "move_warp dst src = do { ensure (p_empty dst); Some (src, p_clear dst) }"

section \<open>Register sets\<close>

type_synonym register_set = "pipe_inst list"

definition has_free :: "register_set \<Rightarrow> bool" where
  "has_free rs = list_ex p_empty rs"

definition has_free_for :: "bool \<Rightarrow> nat \<Rightarrow> register_set \<Rightarrow> bool option" where
  "has_free_for sub_core reg_id rs =
    (if \<not> sub_core then Some (has_free rs) else do { r \<leftarrow> at rs reg_id; Some (p_empty r) })"

definition has_ready :: "register_set \<Rightarrow> bool" where
  "has_ready rs = list_ex (\<lambda>r. \<not> p_empty r) rs"

definition older :: "register_set \<Rightarrow> nat \<Rightarrow> nat option \<Rightarrow> nat option" where
  "older rs i ready =
    (if p_empty (rs ! i) then ready
     else case ready of
         Some r \<Rightarrow> if p_uid (rs ! r) < p_uid (rs ! i) then Some r else Some i
       | None \<Rightarrow> Some i)"

definition get_ready :: "register_set \<Rightarrow> nat option" where
  "get_ready rs = fold (older rs) [0..<length rs] None"

definition get_free :: "register_set \<Rightarrow> nat option" where
  "get_free rs = find (\<lambda>i. p_empty (rs ! i)) [0..<length rs]"

definition get_free_for :: "bool \<Rightarrow> nat \<Rightarrow> register_set \<Rightarrow> nat option" where
  "get_free_for sub_core reg_id rs =
    (if \<not> sub_core then get_free rs
     else do { r \<leftarrow> at rs reg_id; ensure (p_empty r); Some reg_id })"

definition move_in :: "pipe_inst \<Rightarrow> register_set \<Rightarrow> (pipe_inst \<times> register_set) option" where
  "move_in src rs = do {
     i \<leftarrow> get_free rs;
     (d, s) \<leftarrow> move_warp (rs ! i) src;
     Some (s, rs[i := d]) }"

definition move_out_to :: "pipe_inst \<Rightarrow> register_set \<Rightarrow> (pipe_inst \<times> register_set) option" where
  "move_out_to dest rs = do {
     i \<leftarrow> get_ready rs;
     (d, s) \<leftarrow> move_warp dest (rs ! i);
     Some (d, rs[i := s]) }"

section \<open>Lemmas\<close>

lemma p_empty_clear [simp]: "p_empty (p_clear i)"
  by (simp add: p_empty_def p_clear_def w_clear_def)

lemma arch_src_clear [simp]: "arch_src (p_clear i) = arch_src i"
  and arch_dst_clear [simp]: "arch_dst (p_clear i) = arch_dst i"
  by (simp_all add: p_clear_def)

lemma get_free_lt: "get_free rs = Some i \<Longrightarrow> i < length rs \<and> p_empty (rs ! i)"
  by (auto simp: get_free_def find_Some_iff)

lemma get_free_total: "has_free rs \<Longrightarrow> \<exists>i. get_free rs = Some i"
  by (cases "get_free rs") (auto simp: get_free_def find_None_iff has_free_def list_ex_iff in_set_conv_nth)

lemma older_keeps:
  assumes "\<forall>r. ready = Some r \<longrightarrow> r < length rs \<and> \<not> p_empty (rs ! r)"
    and "\<forall>i \<in> set is. i < length rs"
  shows "\<forall>r. fold (older rs) is ready = Some r \<longrightarrow> r < length rs \<and> \<not> p_empty (rs ! r)"
  using assms
proof (induction "is" arbitrary: ready)
  case (Cons i "is")
  have "\<forall>r. older rs i ready = Some r \<longrightarrow> r < length rs \<and> \<not> p_empty (rs ! r)"
    using Cons.prems by (cases ready) (simp_all add: older_def)
  moreover have "\<forall>i \<in> set is. i < length rs" using Cons.prems by simp
  ultimately have "\<forall>r. fold (older rs) is (older rs i ready) = Some r \<longrightarrow> r < length rs \<and> \<not> p_empty (rs ! r)"
    by (rule Cons.IH)
  then show ?case by simp
qed simp

lemma older_finds: "ready \<noteq> None \<or> (\<exists>i \<in> set is. \<not> p_empty (rs ! i)) \<Longrightarrow> fold (older rs) is ready \<noteq> None"
proof (induction "is" arbitrary: ready)
  case (Cons i "is")
  have "older rs i ready \<noteq> None \<or> (\<exists>i \<in> set is. \<not> p_empty (rs ! i))"
    using Cons.prems by (auto simp: older_def split: option.splits)
  then show ?case using Cons.IH by simp
qed simp

lemma get_ready_lt: "get_ready rs = Some i \<Longrightarrow> i < length rs \<and> \<not> p_empty (rs ! i)"
  using older_keeps[of None rs "[0..<length rs]"] by (simp add: get_ready_def)

lemma get_ready_total: "has_ready rs \<Longrightarrow> \<exists>i. get_ready rs = Some i"
proof -
  assume "has_ready rs"
  then have "\<exists>i \<in> set [0..<length rs]. \<not> p_empty (rs ! i)"
    by (metis has_ready_def list_ex_iff in_set_conv_nth atLeastLessThan_iff set_upt zero_le)
  then have "get_ready rs \<noteq> None" unfolding get_ready_def by (intro older_finds disjI2)
  then show ?thesis by blast
qed

end
