(* ===== verification/OperandCollector.thy ===== *)
theory OperandCollector
  imports RegisterSet "HOL-Library.Multiset"
begin

text \<open>
  The operand collector (\<open>opndcoll_rfu_t\<close> of \<open>shader.h\<close> and \<open>shader.cc\<close>): instructions wait in
  collector units until the banks of the register file have delivered their sources. An arbiter holds
  one queue of reads per bank and matches banks to units once per step; a bank that is written in the
  step is not read.

  A pointer to a collector unit is its index in \<open>m_cu\<close>, a pointer to a register set its index in the
  pipeline registers of the core. The geometry that every unit copies at its construction is one
  record. The profile of the instructions is the log of its increments.
\<close>

unbundle bit_operations_syntax

section \<open>Banks\<close>

record rf_config =
  num_banks :: u32
  bank_warp_shift :: u32
  sub_core_model :: bool
  banks_per_sched :: u32
  warp_size :: nat
  clock_gated_reg_file :: bool
  regfile_gating_group :: nat

definition register_bank :: "rf_config \<Rightarrow> u32 \<Rightarrow> u32 \<Rightarrow> u32 \<Rightarrow> nat option" where
  "register_bank cfg regnum wid sched_id =
    (let bank = (if bank_warp_shift cfg \<noteq> 0 then regnum + wid else regnum) in
     if sub_core_model cfg then do {
       ensure (banks_per_sched cfg \<noteq> 0);
       let bank_num = bank mod banks_per_sched cfg + sched_id * banks_per_sched cfg;
       ensure (bank_num < num_banks cfg);
       Some (unat bank_num) }
     else do { ensure (num_banks cfg \<noteq> 0); Some (unat (bank mod num_banks cfg)) })"

text \<open>The lanes charged for an access: all of them, or with clock gating those of the groups with
  an active lane. Testing a lane that the am does not have throws.\<close>

fun any_lane :: "active_mask \<Rightarrow> nat \<Rightarrow> nat list \<Rightarrow> bool option" where
  "any_lane am i [] = Some False"
| "any_lane am i (j # js) = do {
     ensure (i + j < MAX_WARP_SIZE);
     if bit am (i + j) then Some True else any_lane am i js }"

partial_function (option) gated_lanes :: "rf_config \<Rightarrow> active_mask \<Rightarrow> nat \<Rightarrow> nat \<Rightarrow> nat option" where
  "gated_lanes cfg am i lanes =
    (if i < warp_size cfg
     then do { b \<leftarrow> any_lane am i [0..<regfile_gating_group cfg];
               gated_lanes cfg am (i + regfile_gating_group cfg)
                 (if b then lanes + regfile_gating_group cfg else lanes) }
     else Some lanes)"

definition charged_lanes :: "rf_config \<Rightarrow> active_mask \<Rightarrow> nat option" where
  "charged_lanes cfg am =
    (if clock_gated_reg_file cfg then gated_lanes cfg am 0 0 else Some (warp_size cfg))"

section \<open>Operands and allocations\<close>

record op =
  o_valid :: bool
  o_cu :: "nat option"
  o_warp :: "pipe_inst option"
  o_operand :: nat
  o_register :: u32
  o_bank :: nat
  o_sched :: u32

definition op_none :: op where
  "op_none = \<lparr>o_valid = False, o_cu = None, o_warp = None, o_operand = 0, o_register = 0, o_bank = 0,
     o_sched = 0\<rparr>"

definition op_read :: "rf_config \<Rightarrow> nat \<Rightarrow> u32 \<Rightarrow> nat \<Rightarrow> u32 \<Rightarrow> u32 \<Rightarrow> op option" where
  "op_read cfg c wid operand reg sched = do {
     b \<leftarrow> register_bank cfg reg wid sched;
     Some \<lparr>o_valid = True, o_cu = Some c, o_warp = None, o_operand = operand, o_register = reg,
       o_bank = b, o_sched = sched\<rparr> }"

definition op_write :: "rf_config \<Rightarrow> pipe_inst \<Rightarrow> u32 \<Rightarrow> u32 \<Rightarrow> op option" where
  "op_write cfg w reg sched = do {
     wid \<leftarrow> warp_id (p_warp w);
     b \<leftarrow> register_bank cfg reg wid sched;
     Some \<lparr>o_valid = True, o_cu = None, o_warp = Some w, o_operand = 2 ^ 32 - 1, o_register = reg,
       o_bank = b, o_sched = sched\<rparr> }"

datatype allocation = NO_ALLOC | READ_ALLOC op | WRITE_ALLOC op

definition is_write :: "allocation \<Rightarrow> bool" where
  "is_write a = (case a of WRITE_ALLOC _ \<Rightarrow> True | _ \<Rightarrow> False)"

definition alloc_read :: "op \<Rightarrow> allocation \<Rightarrow> allocation option" where
  "alloc_read x a = do { ensure (a = NO_ALLOC); Some (READ_ALLOC x) }"

definition alloc_write :: "op \<Rightarrow> allocation \<Rightarrow> allocation option" where
  "alloc_write x a = do { ensure (a = NO_ALLOC); Some (WRITE_ALLOC x) }"

section \<open>The arbiter\<close>

record arbiter =
  a_num_banks :: nat
  a_num_collectors :: nat
  allocated_bank :: "allocation list"
  a_queue :: "op list list"
  allocator_rr_head :: "nat list"
  a_last_cu :: nat

definition arbiter_init :: "nat \<Rightarrow> nat \<Rightarrow> arbiter option" where
  "arbiter_init num_cu banks = do {
     ensure (0 < num_cu);
     ensure (0 < banks);
     Some \<lparr>a_num_banks = banks, a_num_collectors = num_cu,
       allocated_bank = replicate banks NO_ALLOC, a_queue = replicate banks [],
       allocator_rr_head = map (\<lambda>n. n mod banks) [0..<num_cu], a_last_cu = 0\<rparr> }"

definition reset_allocation :: "arbiter \<Rightarrow> arbiter" where
  "reset_allocation a = a\<lparr>allocated_bank := replicate (length (allocated_bank a)) NO_ALLOC\<rparr>"

definition bank_idle :: "arbiter \<Rightarrow> nat \<Rightarrow> bool option" where
  "bank_idle a b = do { x \<leftarrow> at (allocated_bank a) b; Some (x = NO_ALLOC) }"

definition allocate_bank_for_write :: "nat \<Rightarrow> op \<Rightarrow> arbiter \<Rightarrow> arbiter option" where
  "allocate_bank_for_write b x a = do {
     ensure (b < a_num_banks a);
     old \<leftarrow> at (allocated_bank a) b;
     new_al \<leftarrow> alloc_write x old;
     Some (a\<lparr>allocated_bank := (allocated_bank a)[b := new_al]\<rparr>) }"

definition allocate_for_read :: "nat \<Rightarrow> op \<Rightarrow> arbiter \<Rightarrow> arbiter option" where
  "allocate_for_read b x a = do {
     ensure (b < a_num_banks a);
     old \<leftarrow> at (allocated_bank a) b;
     new_al \<leftarrow> alloc_read x old;
     Some (a\<lparr>allocated_bank := (allocated_bank a)[b := new_al]\<rparr>) }"

definition add_read_request :: "op \<Rightarrow> arbiter \<Rightarrow> arbiter option" where
  "add_read_request x a =
    (if o_valid x
     then do { q \<leftarrow> at (a_queue a) (o_bank x); Some (a\<lparr>a_queue := (a_queue a)[o_bank x := q @ [x]]\<rparr>) }
     else Some a)"

text \<open>The wavefront allocator: the diagonals of the matrix of requests are walked one after the
  other, each granting a bank to a unit where the bank is still unmatched. A bank being written is
  matched beforehand.\<close>

definition request_row :: "nat \<Rightarrow> op list \<Rightarrow> bool list option" where
  "request_row collectors q =
    (case q of
       [] \<Rightarrow> Some (replicate collectors False)
     | x # _ \<Rightarrow> do { oc \<leftarrow> o_cu x; put (replicate collectors False) oc True })"

fun request_rows :: "nat \<Rightarrow> op list list \<Rightarrow> bool list list option" where
  "request_rows collectors [] = Some []"
| "request_rows collectors (q # qs) = do {
     r \<leftarrow> request_row collectors q;
     rs \<leftarrow> request_rows collectors qs;
     Some (r # rs) }"

type_synonym matching = "nat \<times> int list \<times> int list"

definition grant :: "bool list list \<Rightarrow> nat \<Rightarrow> nat \<Rightarrow> matching \<Rightarrow> matching" where
  "grant request outputs input m =
    (case m of (output, inmatch, outmatch) \<Rightarrow>
      if inmatch ! input = - 1 \<and> request ! input ! output
      then ((output + 1) mod outputs, inmatch[input := int output], outmatch[output := int input])
      else ((output + 1) mod outputs, inmatch, outmatch))"

definition diagonal :: "bool list list \<Rightarrow> nat \<Rightarrow> nat \<Rightarrow> nat \<Rightarrow> nat \<Rightarrow> int list \<times> int list \<Rightarrow> int list \<times> int list"
where
  "diagonal request inputs outputs pri p m =
    snd (fold (grant request outputs) [0..<inputs] ((pri + p) mod outputs, m))"

fun pop_granted :: "int list \<Rightarrow> allocation list \<Rightarrow> op list list \<Rightarrow> (op list \<times> op list list) option" where
  "pop_granted (g # gs) (al # als) (q # qs) = do {
     (rest, qs) \<leftarrow> pop_granted gs als qs;
     if g \<noteq> - 1 \<and> \<not> is_write al
     then (case q of [] \<Rightarrow> None | x # q \<Rightarrow> Some (x # rest, q # qs))
     else Some (rest, q # qs) }"
| "pop_granted _ _ qs = Some ([], qs)"

definition allocate_reads :: "arbiter \<Rightarrow> (op list \<times> arbiter) option" where
  "allocate_reads a = do {
     let inputs = a_num_banks a;
     let outputs = a_num_collectors a;
     let square = (if outputs < inputs then inputs else outputs);
     ensure (0 < square);
     ensure (outputs \<noteq> 0);
     request \<leftarrow> request_rows outputs (a_queue a);
     let inmatch = map (\<lambda>al. if is_write al then 0 else - 1) (allocated_bank a);
     let (inmatch, outmatch) =
       fold (diagonal request inputs outputs (a_last_cu a)) [0..<square]
         (inmatch, replicate outputs (- 1));
     (result, qs) \<leftarrow> pop_granted inmatch (allocated_bank a) (a_queue a);
     Some (result, a\<lparr>a_queue := qs, a_last_cu := (a_last_cu a + 1) mod outputs\<rparr>) }"

section \<open>Collector units\<close>

record collector =
  cu_free :: bool
  cu_warp_id :: u32
  cu_warp :: pipe_inst
  cu_output :: "nat option"
  cu_src_op :: "op list"
  cu_not_ready :: "64 word"

definition cu_new :: "pipe_inst \<Rightarrow> collector" where
  "cu_new w = \<lparr>cu_free = True, cu_warp_id = - 1, cu_warp = w, cu_output = None,
     cu_src_op = replicate (2 * MAX_REG_OPERANDS) op_none, cu_not_ready = 0\<rparr>"

definition cu_ready :: "register_set list \<Rightarrow> collector \<Rightarrow> bool option" where
  "cu_ready regs cu =
    (if cu_free cu \<or> cu_not_ready cu \<noteq> 0 then Some False
     else do { r \<leftarrow> cu_output cu; rs \<leftarrow> at regs r; Some (has_free rs) })"

definition collect_operand :: "nat \<Rightarrow> collector \<Rightarrow> collector option" where
  "collect_operand operand cu = do {
     ensure (operand < 2 * MAX_REG_OPERANDS);
     Some (cu\<lparr>cu_not_ready := unset_bit operand (cu_not_ready cu)\<rparr>) }"

definition add_operand :: "rf_config \<Rightarrow> nat \<Rightarrow> pipe_inst \<Rightarrow> nat \<Rightarrow> collector \<Rightarrow> collector option" where
  "add_operand cfg c w operand cu = do {
     reg_num \<leftarrow> at (arch_src w) operand;
     if 0 \<le> reg_num then do {
       x \<leftarrow> op_read cfg c (cu_warp_id cu) operand (word_of_int reg_num) (w_scheduler_id (p_warp w));
       src \<leftarrow> put (cu_src_op cu) operand x;
       Some (cu\<lparr>cu_src_op := src, cu_not_ready := set_bit operand (cu_not_ready cu)\<rparr>) }
     else do {
       src \<leftarrow> put (cu_src_op cu) operand op_none;
       Some (cu\<lparr>cu_src_op := src\<rparr>) } }"

definition cu_allocate ::
  "rf_config \<Rightarrow> nat \<Rightarrow> nat \<Rightarrow> register_set \<Rightarrow> collector \<Rightarrow> (bool \<times> register_set \<times> collector) option" where
  "cu_allocate cfg c out regs cu = do {
     ensure (cu_free cu);
     ensure (cu_not_ready cu = 0);
     let cu = cu\<lparr>cu_free := False, cu_output := Some out\<rparr>;
     case get_ready regs of
       None \<Rightarrow> Some (False, regs, cu)
     | Some r \<Rightarrow>
         if p_empty (regs ! r) then Some (False, regs, cu)
         else do {
           wid \<leftarrow> warp_id (p_warp (regs ! r));
           let cu = cu\<lparr>cu_warp_id := wid\<rparr>;
           cu \<leftarrow> each (add_operand cfg c (regs ! r)) [0..<MAX_REG_OPERANDS] cu;
           (w, regs) \<leftarrow> move_out_to (cu_warp cu) regs;
           Some (True, regs, cu\<lparr>cu_warp := w\<rparr>) } }"

definition cu_dispatch :: "register_set list \<Rightarrow> collector \<Rightarrow> (register_set list \<times> collector) option" where
  "cu_dispatch regs cu = do {
     ensure (cu_not_ready cu = 0);
     r \<leftarrow> cu_output cu;
     rs \<leftarrow> at regs r;
     (w, rs) \<leftarrow> move_in (cu_warp cu) rs;
     Some (regs[r := rs],
       cu\<lparr>cu_warp := w, cu_free := True, cu_output := None,
         cu_src_op := map (\<lambda>x. x\<lparr>o_valid := False\<rparr>) (cu_src_op cu)\<rparr>) }"

section \<open>The register file unit\<close>

datatype instr_counter = COLL_UNT_CNTR | RF_RD_CNTR | RF_WR_CNTR | NON_RF_OPRND_CNTR

record dispatch_unit =
  du_last_cu :: nat
  du_units :: "nat list"

record input_port =
  ip_regs :: "(nat \<times> nat) list"
  ip_cu_sets :: "nat list"

record rfu =
  m_cu :: "collector list"
  m_cus :: "nat \<Rightarrow> nat list"
  m_dispatch_units :: "dispatch_unit list"
  m_in_ports :: "input_port list"
  m_arbiter :: arbiter
  m_pipeline_reg :: "register_set list"
  regfile_reads :: u32
  regfile_writes :: u32
  non_rf_operands :: u32
  rf_cntr :: u32
  instr_stats :: "(u32 \<times> instr_counter) list"

subsection \<open>Construction\<close>

definition rfu_new :: "register_set list \<Rightarrow> arbiter \<Rightarrow> rfu" where
  "rfu_new regs a = \<lparr>m_cu = [], m_cus = (\<lambda>_. []), m_dispatch_units = [], m_in_ports = [], m_arbiter = a,
     m_pipeline_reg = regs, regfile_reads = 0, regfile_writes = 0, non_rf_operands = 0, rf_cntr = 0,
     instr_stats = []\<rparr>"

definition add_cu_set :: "nat \<Rightarrow> nat \<Rightarrow> nat \<Rightarrow> pipe_inst \<Rightarrow> rfu \<Rightarrow> rfu" where
  "add_cu_set set_id num_cu num_dispatch w s =
    (let units = m_cus s set_id @ [length (m_cu s)..<length (m_cu s) + num_cu] in
     s\<lparr>m_cus := (m_cus s)(set_id := units),
       m_cu := m_cu s @ replicate num_cu (cu_new w),
       m_dispatch_units := m_dispatch_units s @ replicate num_dispatch \<lparr>du_last_cu = 0, du_units = units\<rparr>\<rparr>)"

definition add_port :: "nat list \<Rightarrow> nat list \<Rightarrow> nat list \<Rightarrow> rfu \<Rightarrow> rfu option" where
  "add_port input output cu_sets s = do {
     ensure (length input = length output);
     ensure (cu_sets \<noteq> []);
     Some (s\<lparr>m_in_ports := m_in_ports s @ [\<lparr>ip_regs = zip input output, ip_cu_sets = cu_sets\<rparr>]\<rparr>) }"

fun floor_log2 :: "nat \<Rightarrow> nat" where
  "floor_log2 n = (if n < 2 then 0 else Suc (floor_log2 (n div 2)))"

definition rf_geometry :: "u32 \<Rightarrow> u32 \<Rightarrow> bool \<Rightarrow> nat \<Rightarrow> bool \<Rightarrow> nat \<Rightarrow> rf_config option" where
  "rf_geometry banks num_sched sub_core ws gated group_size = do {
     let shift = (if ws = 0 then - 1 else of_nat (floor_log2 ws));
     ensure (shift = 5 \<or> ws \<noteq> 32);
     ensure (num_sched \<noteq> 0);
     ensure (sub_core \<longrightarrow> banks mod num_sched = 0);
     Some \<lparr>num_banks = banks, bank_warp_shift = shift, sub_core_model = sub_core,
       banks_per_sched = banks div num_sched, warp_size = ws, clock_gated_reg_file = gated,
       regfile_gating_group = group_size\<rparr> }"

definition rfu_init ::
  "u32 \<Rightarrow> u32 \<Rightarrow> bool \<Rightarrow> nat \<Rightarrow> bool \<Rightarrow> nat \<Rightarrow> rfu \<Rightarrow> (rf_config \<times> rfu) option" where
  "rfu_init banks num_sched sub_core ws gated group_size s = do {
     a \<leftarrow> arbiter_init (length (m_cu s)) (unat banks);
     cfg \<leftarrow> rf_geometry banks num_sched sub_core ws gated group_size;
     Some (cfg, s\<lparr>m_arbiter := a\<rparr>) }"

subsection \<open>Dispatch\<close>

definition log_instr :: "pipe_inst \<Rightarrow> instr_counter \<Rightarrow> rfu \<Rightarrow> rfu" where
  "log_instr w k s = s\<lparr>instr_stats := instr_stats s @ [(i_pc (p_warp w), k)]\<rparr>"

definition log_decoded :: "pipe_inst \<Rightarrow> instr_counter \<Rightarrow> rfu \<Rightarrow> rfu" where
  "log_decoded w k s = (if p_decoded w then log_instr w k s else s)"

fun find_ready :: "rfu \<Rightarrow> dispatch_unit \<Rightarrow> nat list \<Rightarrow> (dispatch_unit \<times> nat option) option" where
  "find_ready s du [] = Some (du, None)"
| "find_ready s du (n # ns) = do {
     let k = (du_last_cu du + n + 1) mod length (du_units du);
     let c = du_units du ! k;
     cu \<leftarrow> at (m_cu s) c;
     ready \<leftarrow> cu_ready (m_pipeline_reg s) cu;
     if ready then Some (du\<lparr>du_last_cu := k\<rparr>, Some c) else find_ready s du ns }"

definition count_non_rf :: "rf_config \<Rightarrow> pipe_inst \<Rightarrow> nat \<Rightarrow> rfu \<Rightarrow> rfu option" where
  "count_non_rf cfg w i s = do {
     lanes \<leftarrow> charged_lanes cfg (w_active_mask (p_warp w));
     Some (log_instr w NON_RF_OPRND_CNTR (s\<lparr>non_rf_operands := non_rf_operands s + of_nat lanes\<rparr>)) }"

definition dispatch_unit_cycle :: "rf_config \<Rightarrow> nat \<Rightarrow> rfu \<Rightarrow> rfu option" where
  "dispatch_unit_cycle cfg p s = do {
     du \<leftarrow> at (m_dispatch_units s) p;
     (du, found) \<leftarrow> find_ready s du [0..<length (du_units du)];
     let s = s\<lparr>m_dispatch_units := (m_dispatch_units s)[p := du]\<rparr>;
     case found of
       None \<Rightarrow> Some s
     | Some c \<Rightarrow> do {
         cu \<leftarrow> at (m_cu s) c;
         s \<leftarrow> each (count_non_rf cfg (cu_warp cu)) [0..<unat (num_operands (cu_warp cu) - num_regs (cu_warp cu))] s;
         (regs, cu) \<leftarrow> cu_dispatch (m_pipeline_reg s) cu;
         Some (s\<lparr>m_pipeline_reg := regs, m_cu := (m_cu s)[c := cu]\<rparr>) } }"

definition dispatch_ready_cu :: "rf_config \<Rightarrow> rfu \<Rightarrow> rfu option" where
  "dispatch_ready_cu cfg s = each (dispatch_unit_cycle cfg) [0..<length (m_dispatch_units s)] s"

subsection \<open>Reads\<close>

definition op_wid :: "rfu \<Rightarrow> op \<Rightarrow> u32 option" where
  "op_wid s x =
    (case o_warp x of
       Some w \<Rightarrow> warp_id (p_warp w)
     | None \<Rightarrow> do { c \<leftarrow> o_cu x; cu \<leftarrow> at (m_cu s) c; Some (cu_warp_id cu) })"

definition op_active_mask :: "rfu \<Rightarrow> op \<Rightarrow> active_mask option" where
  "op_active_mask s x =
    (case o_warp x of
       Some w \<Rightarrow> Some (w_active_mask (p_warp w))
     | None \<Rightarrow> do { c \<leftarrow> o_cu x; cu \<leftarrow> at (m_cu s) c; Some (w_active_mask (p_warp (cu_warp cu))) })"

definition place_read :: "rf_config \<Rightarrow> op \<Rightarrow> op option list \<times> rfu \<Rightarrow> (op option list \<times> rfu) option" where
  "place_read cfg x t = do {
     let (read_ops, s) = t;
     ensure (o_valid x);
     wid \<leftarrow> op_wid s x;
     b \<leftarrow> register_bank cfg (o_register x) wid (o_sched x);
     a \<leftarrow> allocate_for_read b x (m_arbiter s);
     read_ops \<leftarrow> put read_ops b (Some x);
     Some (read_ops, s\<lparr>m_arbiter := a\<rparr>) }"

definition deliver_read :: "rf_config \<Rightarrow> op \<Rightarrow> rfu \<Rightarrow> rfu option" where
  "deliver_read cfg x s = do {
     c \<leftarrow> o_cu x;
     cu \<leftarrow> at (m_cu s) c;
     cu \<leftarrow> collect_operand (o_operand x) cu;
     let s = s\<lparr>m_cu := (m_cu s)[c := cu]\<rparr>;
     am \<leftarrow> (if clock_gated_reg_file cfg then op_active_mask s x else Some 0);
     lanes \<leftarrow> charged_lanes cfg am;
     let s = s\<lparr>regfile_reads := regfile_reads s + of_nat lanes, rf_cntr := rf_cntr s + 1\<rparr>;
     Some (log_decoded (cu_warp cu) RF_RD_CNTR s) }"

definition rfu_allocate_reads :: "rf_config \<Rightarrow> rfu \<Rightarrow> rfu option" where
  "rfu_allocate_reads cfg s = do {
     (allocated, a) \<leftarrow> allocate_reads (m_arbiter s);
     (read_ops, s) \<leftarrow> each (place_read cfg) allocated (replicate (unat (num_banks cfg)) None, s\<lparr>m_arbiter := a\<rparr>);
     each (deliver_read cfg) (somes read_ops) s }"

subsection \<open>Allocation of collector units\<close>

definition allocate_unit :: "rf_config \<Rightarrow> nat \<Rightarrow> nat \<Rightarrow> nat \<Rightarrow> rfu \<Rightarrow> (bool \<times> rfu) option" where
  "allocate_unit cfg i out c s = do {
     cu \<leftarrow> at (m_cu s) c;
     let s = log_decoded (cu_warp cu) COLL_UNT_CNTR s;
     regs \<leftarrow> at (m_pipeline_reg s) i;
     (ok, regs, cu) \<leftarrow> cu_allocate cfg c out regs cu;
     a \<leftarrow> each add_read_request (cu_src_op cu) (m_arbiter s);
     Some (ok, s\<lparr>m_pipeline_reg := (m_pipeline_reg s)[i := regs], m_cu := (m_cu s)[c := cu], m_arbiter := a\<rparr>) }"

fun find_free :: "rfu \<Rightarrow> nat list \<Rightarrow> nat option option" where
  "find_free s [] = Some None"
| "find_free s (c # cs) = do {
     cu \<leftarrow> at (m_cu s) c;
     if cu_free cu then Some (Some c) else find_free s cs }"

fun try_sets :: "rf_config \<Rightarrow> nat \<Rightarrow> nat \<Rightarrow> nat list \<Rightarrow> rfu \<Rightarrow> rfu option" where
  "try_sets cfg i out [] s = Some s"
| "try_sets cfg i out (j # js) s = do {
     found \<leftarrow> find_free s (m_cus s j);
     case found of
       None \<Rightarrow> try_sets cfg i out js s
     | Some c \<Rightarrow> do {
         (allocated, s) \<leftarrow> allocate_unit cfg i out c s;
         if allocated then Some s else try_sets cfg i out js s } }"

fun try_inputs :: "rf_config \<Rightarrow> nat list \<Rightarrow> (nat \<times> nat) list \<Rightarrow> rfu \<Rightarrow> rfu option" where
  "try_inputs cfg sets [] s = Some s"
| "try_inputs cfg sets ((i, out) # ps) s = do {
     regs \<leftarrow> at (m_pipeline_reg s) i;
     if has_ready regs then try_sets cfg i out sets s else try_inputs cfg sets ps s }"

definition allocate_cu :: "rf_config \<Rightarrow> nat \<Rightarrow> rfu \<Rightarrow> rfu option" where
  "allocate_cu cfg p s = do {
     inp \<leftarrow> at (m_in_ports s) p;
     try_inputs cfg (ip_cu_sets inp) (ip_regs inp) s }"

subsection \<open>A step, and writing back\<close>

definition process_banks :: "rfu \<Rightarrow> rfu" where
  "process_banks s = s\<lparr>m_arbiter := reset_allocation (m_arbiter s)\<rparr>"

definition rfu_step :: "rf_config \<Rightarrow> rfu \<Rightarrow> rfu option" where
  "rfu_step cfg s = do {
     s \<leftarrow> dispatch_ready_cu cfg s;
     s \<leftarrow> rfu_allocate_reads cfg s;
     s \<leftarrow> each (allocate_cu cfg) [0..<length (m_in_ports s)] s;
     Some (process_banks s) }"

definition get_regs_written :: "pipe_inst \<Rightarrow> int list" where
  "get_regs_written w = filter (\<lambda>r. 0 \<le> r) (arch_dst w)"

fun write_regs :: "rf_config \<Rightarrow> nat list \<Rightarrow> pipe_inst \<Rightarrow> rfu \<Rightarrow> (bool \<times> pipe_inst \<times> rfu) option" where
  "write_regs cfg [] w s = Some (True, w, s)"
| "write_regs cfg (k # ks) w s = do {
     reg_num \<leftarrow> at (arch_dst w) k;
     if 0 \<le> reg_num then do {
       x \<leftarrow> op_write cfg w (word_of_int reg_num) (w_scheduler_id (p_warp w));
       idle \<leftarrow> bank_idle (m_arbiter s) (o_bank x);
       if idle then do {
         a \<leftarrow> allocate_bank_for_write (o_bank x) x (m_arbiter s);
         write_regs cfg ks (w\<lparr>arch_dst := (arch_dst w)[k := - 1]\<rparr>) (s\<lparr>m_arbiter := a\<rparr>) }
       else Some (False, w, s) }
     else write_regs cfg ks w s }"

definition count_write :: "rf_config \<Rightarrow> pipe_inst \<Rightarrow> int \<Rightarrow> rfu \<Rightarrow> rfu option" where
  "count_write cfg w r s = do {
     lanes \<leftarrow> charged_lanes cfg (w_active_mask (p_warp w));
     let s = s\<lparr>regfile_writes := regfile_writes s + of_nat lanes, rf_cntr := rf_cntr s + 1\<rparr>;
     Some (log_decoded w RF_WR_CNTR s) }"

definition writeback :: "rf_config \<Rightarrow> pipe_inst \<Rightarrow> rfu \<Rightarrow> (bool \<times> pipe_inst \<times> rfu) option" where
  "writeback cfg w s = do {
     ensure (\<not> p_empty w);
     let regs = get_regs_written w;
     (ok, w, s) \<leftarrow> write_regs cfg [0..<MAX_REG_OPERANDS] w s;
     if ok then do { s \<leftarrow> each (count_write cfg w) regs s; Some (True, w, s) }
     else Some (False, w, s) }"

section \<open>The arbiter serves the oldest read of every bank\<close>

lemma grants:
  fixes first :: nat
  assumes "0 < outputs" "length inmatch = inputs" "k \<le> inputs"
  defines "out \<equiv> \<lambda>i. (first + i) mod outputs"
  shows "\<exists>outm. fold (grant request outputs) [0..<k] (first mod outputs, inmatch, outmatch) =
    (out k, map (\<lambda>i. if i < k \<and> inmatch ! i = - 1 \<and> request ! i ! out i then int (out i) else inmatch ! i)
       [0..<inputs], outm)"
  using assms(3)
proof (induction k)
  case 0
  then show ?case using assms(2) by (auto simp: out_def map_nth[symmetric] intro: nth_equalityI)
next
  case (Suc k)
  let ?row = "\<lambda>k. map (\<lambda>i. if i < k \<and> inmatch ! i = - 1 \<and> request ! i ! out i then int (out i) else inmatch ! i)
       [0..<inputs]"
  obtain outm where IH: "fold (grant request outputs) [0..<k] (first mod outputs, inmatch, outmatch) =
    (out k, ?row k, outm)" using Suc by (meson Suc_leD)
  have k: "k < inputs" using Suc.prems by simp
  have out: "(out k + 1) mod outputs = out (Suc k)" by (simp add: out_def mod_simps)
  have row: "?row (Suc k) = (if inmatch ! k = - 1 \<and> request ! k ! out k then (?row k)[k := int (out k)] else ?row k)"
    using k by (auto simp: nth_list_update less_Suc_eq intro!: nth_equalityI)
  have "fold (grant request outputs) [0..<Suc k] (first mod outputs, inmatch, outmatch) =
      grant request outputs k (out k, ?row k, outm)" by (simp add: IH)
  also have "\<dots> = (out (Suc k), ?row (Suc k),
      if inmatch ! k = - 1 \<and> request ! k ! out k then outm[out k := int k] else outm)"
    using k by (simp add: grant_def out[unfolded Suc_eq_plus1, simplified] row)
  finally show ?case by blast
qed

lemma diagonal_spec:
  assumes "0 < outputs" "length inmatch = inputs"
  shows "\<exists>outm. diagonal request inputs outputs pri p (inmatch, outmatch) =
    (map (\<lambda>i. if inmatch ! i = - 1 \<and> request ! i ! ((pri + p + i) mod outputs)
       then int ((pri + p + i) mod outputs) else inmatch ! i) [0..<inputs], outm)"
proof -
  obtain outm where "fold (grant request outputs) [0..<inputs] ((pri + p) mod outputs, inmatch, outmatch) =
    ((pri + p + inputs) mod outputs, map (\<lambda>i. if i < inputs \<and> inmatch ! i = - 1 \<and>
       request ! i ! ((pri + p + i) mod outputs) then int ((pri + p + i) mod outputs) else inmatch ! i)
       [0..<inputs], outm)"
    using grants[OF assms le_refl, where first = "pri + p" and request = request and outmatch = outmatch] by blast
  then show ?thesis by (auto simp: diagonal_def cong: if_cong)
qed

lemma diagonals:
  assumes "0 < outputs" "length inmatch = inputs"
  shows "\<exists>inm outm. fold (diagonal request inputs outputs pri) [0..<n] (inmatch, outmatch) = (inm, outm) \<and>
    length inm = inputs \<and>
    (\<forall>i < inputs. (inm ! i \<noteq> - 1) = (inmatch ! i \<noteq> - 1 \<or> (\<exists>p < n. request ! i ! ((pri + p + i) mod outputs))))"
proof (induction n)
  case (Suc n)
  then obtain inm outm where IH: "fold (diagonal request inputs outputs pri) [0..<n] (inmatch, outmatch) = (inm, outm)"
    "length inm = inputs"
    "\<forall>i < inputs. (inm ! i \<noteq> - 1) = (inmatch ! i \<noteq> - 1 \<or> (\<exists>p < n. request ! i ! ((pri + p + i) mod outputs)))"
    by blast
  obtain outm' where "diagonal request inputs outputs pri n (inm, outm) =
    (map (\<lambda>i. if inm ! i = - 1 \<and> request ! i ! ((pri + n + i) mod outputs)
       then int ((pri + n + i) mod outputs) else inm ! i) [0..<inputs], outm')"
    using diagonal_spec[OF assms(1) IH(2)] by blast
  then show ?case using IH(3) by (auto simp: IH(1) less_Suc_eq)
qed (use assms in simp)

lemma diagonals_cover:
  fixes pri :: nat
  assumes "oc < outputs" "outputs \<le> n"
  shows "\<exists>p < n. (pri + p + i) mod outputs = oc"
proof -
  let ?k = "(pri + i) mod outputs"
  let ?p = "(oc + (outputs - ?k)) mod outputs"
  have "0 < outputs" and lt: "?k < outputs" using assms by auto
  have "(pri + ?p + i) mod outputs = ((pri + i) + ?p) mod outputs" by (simp add: ac_simps)
  also have "\<dots> = (?k + (oc + (outputs - ?k))) mod outputs" by (metis mod_add_eq mod_mod_trivial)
  also have "?k + (oc + (outputs - ?k)) = oc + outputs" using lt by linarith
  finally have "(pri + ?p + i) mod outputs = oc" using assms by simp
  moreover have "?p < n" using assms mod_less_divisor[OF \<open>0 < outputs\<close>] less_le_trans by blast
  ultimately show ?thesis by blast
qed

text \<open>What the wavefront amounts to.\<close>

definition served :: "allocation list \<Rightarrow> op list list \<Rightarrow> op list" where
  "served als qs = concat (map2 (\<lambda>al q. if is_write al then [] else take 1 q) als qs)"

definition unserved :: "allocation list \<Rightarrow> op list list \<Rightarrow> op list list" where
  "unserved als qs = map2 (\<lambda>al q. if is_write al then q else tl q) als qs"

lemma pop_granted_spec:
  assumes "length als = length qs" "length inm = length qs"
    and "\<forall>i < length qs. (inm ! i \<noteq> - 1) = (is_write (als ! i) \<or> qs ! i \<noteq> [])"
  shows "pop_granted inm als qs = Some (served als qs, unserved als qs)"
  using assms
proof (induction inm als qs rule: pop_granted.induct)
  case (1 g gs al als q qs)
  have "\<forall>i < length qs. (gs ! i \<noteq> - 1) = (is_write (als ! i) \<or> qs ! i \<noteq> [])"
  proof (intro allI impI)
    fix i assume "i < length qs"
    then show "(gs ! i \<noteq> - 1) = (is_write (als ! i) \<or> qs ! i \<noteq> [])" using "1.prems"(3)[rule_format, of "Suc i"] by simp
  qed
  then have IH: "pop_granted gs als qs = Some (served als qs, unserved als qs)" using 1 by simp
  have "(g \<noteq> - 1) = (is_write al \<or> q \<noteq> [])" using "1.prems"(3)[rule_format, of 0] by simp
  then show ?case by (cases q) (auto simp: IH served_def unserved_def)
qed (auto simp: served_def unserved_def)

definition fronts_ok :: "nat \<Rightarrow> op list list \<Rightarrow> bool" where
  "fronts_ok n qs = (\<forall>q \<in> set qs. q \<noteq> [] \<longrightarrow> (\<exists>c < n. o_cu (hd q) = Some c))"

lemma request_rows_spec:
  "fronts_ok n qs \<Longrightarrow> \<exists>rows. request_rows n qs = Some rows \<and>
    (\<forall>i < length qs. (\<exists>oc < n. rows ! i ! oc) = (qs ! i \<noteq> []))"
proof (induction qs)
  case (Cons q qs)
  then obtain rows where IH: "request_rows n qs = Some rows"
    "\<forall>i < length qs. (\<exists>oc < n. rows ! i ! oc) = (qs ! i \<noteq> [])" by (auto simp: fronts_ok_def)
  obtain row where row: "request_row n q = Some row" "(\<exists>oc < n. row ! oc) = (q \<noteq> [])"
  proof (cases q)
    case Nil
    then show ?thesis using that by (simp add: request_row_def)
  next
    case (Cons x xs)
    then obtain c where "c < n" "o_cu x = Some c" using Cons.prems by (auto simp: fronts_ok_def)
    then have "\<exists>oc < n. (replicate n False)[c := True] ! oc" by (metis length_replicate nth_list_update_eq)
    then show ?thesis using that \<open>c < n\<close> \<open>o_cu x = Some c\<close> Cons by (simp add: request_row_def)
  qed
  have "\<forall>i < length (q # qs). (\<exists>oc < n. (row # rows) ! i ! oc) = ((q # qs) ! i \<noteq> [])"
    using IH(2) row(2) by (auto simp: nth_Cons' )
  then show ?case using IH(1) row(1) by simp
qed simp

definition arbiter_ok :: "arbiter \<Rightarrow> bool" where
  "arbiter_ok a = (0 < a_num_banks a \<and> 0 < a_num_collectors a \<and> length (a_queue a) = a_num_banks a \<and>
    length (allocated_bank a) = a_num_banks a \<and> fronts_ok (a_num_collectors a) (a_queue a))"

lemma allocate_reads_eq:
  assumes ok: "arbiter_ok a"
  shows "allocate_reads a = Some (served (allocated_bank a) (a_queue a),
    a\<lparr>a_queue := unserved (allocated_bank a) (a_queue a), a_last_cu := (a_last_cu a + 1) mod a_num_collectors a\<rparr>)"
proof -
  let ?n = "a_num_collectors a" and ?b = "a_num_banks a" and ?pri = "a_last_cu a"
  let ?sq = "if ?n < ?b then ?b else ?n"
  let ?in = "map (\<lambda>al. if is_write al then 0 else - 1 :: int) (allocated_bank a)"
  have len: "length (a_queue a) = ?b" "length (allocated_bank a) = ?b" "0 < ?b" and "0 < ?n"
    using ok by (auto simp: arbiter_ok_def)
  note len = len \<open>0 < ?n\<close>
  obtain rows where rows: "request_rows ?n (a_queue a) = Some rows"
    "\<forall>i < ?b. (\<exists>oc < ?n. rows ! i ! oc) = (a_queue a ! i \<noteq> [])"
    using request_rows_spec[of ?n "a_queue a"] ok len by (auto simp: arbiter_ok_def)
  obtain inm outm where d: "fold (diagonal rows ?b ?n ?pri) [0..<?sq] (?in, replicate ?n (- 1)) = (inm, outm)"
    "length inm = ?b"
    "\<forall>i < ?b. (inm ! i \<noteq> - 1) = (?in ! i \<noteq> - 1 \<or> (\<exists>p < ?sq. rows ! i ! ((?pri + p + i) mod ?n)))"
    using diagonals[where outputs = ?n and inmatch = ?in and inputs = ?b and request = rows and pri = ?pri
      and n = ?sq and outmatch = "replicate ?n (- 1)"] len by auto
  have "(inm ! i \<noteq> - 1) = (is_write (allocated_bank a ! i) \<or> a_queue a ! i \<noteq> [])" if i: "i < ?b" for i
  proof -
    have "(\<exists>p < ?sq. rows ! i ! ((?pri + p + i) mod ?n)) = (\<exists>oc < ?n. rows ! i ! oc)"
    proof
      assume "\<exists>oc < ?n. rows ! i ! oc"
      then show "\<exists>p < ?sq. rows ! i ! ((?pri + p + i) mod ?n)"
        using diagonals_cover[of _ ?n ?sq ?pri i] by fastforce
    next
      assume "\<exists>p < ?sq. rows ! i ! ((?pri + p + i) mod ?n)"
      then show "\<exists>oc < ?n. rows ! i ! oc" using mod_less_divisor[OF \<open>0 < ?n\<close>] by blast
    qed
    then show ?thesis using d(3) rows(2) i len by (auto split: if_splits)
  qed
  then have "pop_granted inm (allocated_bank a) (a_queue a) =
      Some (served (allocated_bank a) (a_queue a), unserved (allocated_bank a) (a_queue a))"
    using len d(2) by (intro pop_granted_spec) auto
  then show ?thesis using len rows(1) d(1) by (simp add: allocate_reads_def Let_def)
qed

section \<open>The invariant\<close>

text \<open>The geometry the constructor computes, and an instruction whose scheduler has banks.\<close>

definition cfg_ok :: "rf_config \<Rightarrow> bool" where
  "cfg_ok cfg = (num_banks cfg \<noteq> 0 \<and> (sub_core_model cfg \<longrightarrow> banks_per_sched cfg \<noteq> 0) \<and>
    (clock_gated_reg_file cfg \<longrightarrow> 0 < regfile_gating_group cfg \<and>
      regfile_gating_group cfg dvd warp_size cfg \<and> warp_size cfg \<le> MAX_WARP_SIZE))"

definition sched_ok :: "rf_config \<Rightarrow> u32 \<Rightarrow> bool" where
  "sched_ok cfg sched =
    (sub_core_model cfg \<longrightarrow> (unat sched + 1) * unat (banks_per_sched cfg) \<le> unat (num_banks cfg))"

definition inst_ok :: "rf_config \<Rightarrow> pipe_inst \<Rightarrow> bool" where
  "inst_ok cfg w = (length (arch_src w) = MAX_REG_OPERANDS \<and> sched_ok cfg (w_scheduler_id (p_warp w)))"

definition regs_ok :: "rf_config \<Rightarrow> register_set list \<Rightarrow> bool" where
  "regs_ok cfg regs = (\<forall>rs \<in> set regs. \<forall>w \<in> set rs. \<not> p_empty w \<longrightarrow> inst_ok cfg w)"

definition unit_ok :: "rf_config \<Rightarrow> nat \<Rightarrow> collector \<Rightarrow> bool" where
  "unit_ok cfg nregs cu =
    (length (cu_src_op cu) = 2 * MAX_REG_OPERANDS \<and>
     (\<forall>i \<in> {MAX_REG_OPERANDS..<2 * MAX_REG_OPERANDS}. \<not> o_valid (cu_src_op cu ! i)) \<and>
     (if cu_free cu then cu_not_ready cu = 0 \<and> p_empty (cu_warp cu)
      else (\<exists>r < nregs. cu_output cu = Some r) \<and> inst_ok cfg (cu_warp cu)))"

definition shape_ok :: "rf_config \<Rightarrow> rfu \<Rightarrow> bool" where
  "shape_ok cfg s =
    (a_num_banks (m_arbiter s) = unat (num_banks cfg) \<and> a_num_collectors (m_arbiter s) = length (m_cu s) \<and>
     0 < length (m_cu s) \<and> length (a_queue (m_arbiter s)) = unat (num_banks cfg) \<and>
     length (allocated_bank (m_arbiter s)) = unat (num_banks cfg) \<and>
     (\<forall>du \<in> set (m_dispatch_units s). \<forall>c \<in> set (du_units du). c < length (m_cu s)) \<and>
     (\<forall>inp \<in> set (m_in_ports s). (\<forall>(i, out) \<in> set (ip_regs inp). i < length (m_pipeline_reg s) \<and>
        out < length (m_pipeline_reg s)) \<and> (\<forall>j \<in> set (ip_cu_sets inp). \<forall>c \<in> set (m_cus s j). c < length (m_cu s))))"

text \<open>A queued read is one of a unit that still waits for it, in the bank that holds its register.\<close>

definition read_ok :: "rf_config \<Rightarrow> collector list \<Rightarrow> nat \<Rightarrow> op \<Rightarrow> bool" where
  "read_ok cfg cus b x =
    (o_valid x \<and> o_warp x = None \<and> o_bank x = b \<and> o_operand x < MAX_REG_OPERANDS \<and>
     (\<exists>c < length cus. o_cu x = Some c \<and> \<not> cu_free (cus ! c) \<and>
        register_bank cfg (o_register x) (cu_warp_id (cus ! c)) (o_sched x) = Some b))"

definition reads_ok :: "rf_config \<Rightarrow> rfu \<Rightarrow> bool" where
  "reads_ok cfg s = (\<forall>b < unat (num_banks cfg). \<forall>x \<in> set (a_queue (m_arbiter s) ! b). read_ok cfg (m_cu s) b x)"

definition key :: "op \<Rightarrow> nat \<times> nat" where
  "key x = (the (o_cu x), o_operand x)"

definition missing :: "collector list \<Rightarrow> (nat \<times> nat) set" where
  "missing cus = {(c, i). c < length cus \<and> bit (cu_not_ready (cus ! c)) i}"

definition waiting_ok :: "rfu \<Rightarrow> bool" where
  "waiting_ok s = (distinct (map key (concat (a_queue (m_arbiter s)))) \<and>
     key ` set (concat (a_queue (m_arbiter s))) = missing (m_cu s))"

definition rfu_ok :: "rf_config \<Rightarrow> rfu \<Rightarrow> bool" where
  "rfu_ok cfg s = (cfg_ok cfg \<and> shape_ok cfg s \<and> (\<forall>cu \<in> set (m_cu s). unit_ok cfg (length (m_pipeline_reg s)) cu) \<and>
     regs_ok cfg (m_pipeline_reg s) \<and> reads_ok cfg s \<and> waiting_ok s)"

definition no_reads :: "rfu \<Rightarrow> bool" where
  "no_reads s = (\<forall>al \<in> set (allocated_bank (m_arbiter s)). al = NO_ALLOC \<or> is_write al)"

lemmas rfu_oks = rfu_ok_def shape_ok_def reads_ok_def waiting_ok_def

section \<open>Lemmas\<close>

lemma register_bank_total:
  assumes "cfg_ok cfg" "sched_ok cfg sched"
  shows "\<exists>b < unat (num_banks cfg). register_bank cfg r wid sched = Some b"
proof (cases "sub_core_model cfg")
  case True
  define bank where "bank = (if bank_warp_shift cfg \<noteq> 0 then r + wid else r)"
  let ?n = "bank mod banks_per_sched cfg + sched * banks_per_sched cfg"
  have bps: "0 < unat (banks_per_sched cfg)" using assms(1) True by (simp add: cfg_ok_def unat_gt_0)
  have le: "unat sched * unat (banks_per_sched cfg) + unat (banks_per_sched cfg) \<le> unat (num_banks cfg)"
    using assms(2) True by (simp add: sched_ok_def)
  have m: "unat (bank mod banks_per_sched cfg) < unat (banks_per_sched cfg)" using bps by (simp add: unat_mod_distrib)
  have lt: "unat (bank mod banks_per_sched cfg) + unat sched * unat (banks_per_sched cfg) < unat (num_banks cfg)"
    using le m by linarith
  have "unat ?n = unat (bank mod banks_per_sched cfg) + unat sched * unat (banks_per_sched cfg)"
  proof -
    have "unat (sched * banks_per_sched cfg) = unat sched * unat (banks_per_sched cfg)"
      using lt u32_lt[of "num_banks cfg"] by (simp add: unat_word_ariths)
    then show ?thesis using lt u32_lt[of "num_banks cfg"]
      by (simp add: unat_word_ariths(1)[of "bank mod banks_per_sched cfg"] del: unat_mod_distrib)
  qed
  then show ?thesis using True lt assms(1)
    by (auto simp: register_bank_def cfg_ok_def Let_def word_less_nat_alt bank_def[symmetric])
next
  case False
  then show ?thesis using assms(1)
    by (auto simp: register_bank_def cfg_ok_def Let_def unat_mod_distrib unat_gt_0)
qed

lemma any_lane_total: "\<forall>j \<in> set js. i + j < MAX_WARP_SIZE \<Longrightarrow> \<exists>b. any_lane am i js = Some b"
  by (induction js) auto

lemma gated_lanes_total:
  assumes "0 < regfile_gating_group cfg" "regfile_gating_group cfg dvd warp_size cfg" "warp_size cfg \<le> MAX_WARP_SIZE"
    and "regfile_gating_group cfg dvd i"
  shows "\<exists>n. gated_lanes cfg am i lanes = Some n"
  using assms(4)
proof (induction "warp_size cfg - i" arbitrary: i lanes rule: less_induct)
  case less
  show ?case
  proof (cases "i < warp_size cfg")
    case True
    have "regfile_gating_group cfg dvd warp_size cfg - i" using assms(2) less.prems by (rule dvd_diff_nat)
    then have "regfile_gating_group cfg \<le> warp_size cfg - i" using True by (intro dvd_imp_le) simp_all
    then have le: "i + regfile_gating_group cfg \<le> warp_size cfg" using True by simp
    then have "\<forall>j \<in> set [0..<regfile_gating_group cfg]. i + j < MAX_WARP_SIZE" using assms(3) by simp
    then obtain b where b: "any_lane am i [0..<regfile_gating_group cfg] = Some b"
      using any_lane_total by blast
    have "\<exists>n. gated_lanes cfg am (i + regfile_gating_group cfg)
        (if b then lanes + regfile_gating_group cfg else lanes) = Some n"
      using le assms(1) less.prems True by (intro less.hyps) auto
    then show ?thesis using True b by (subst gated_lanes.simps) simp
  next
    case False
    then show ?thesis by (subst gated_lanes.simps) simp
  qed
qed

lemma charged_lanes_total: "cfg_ok cfg \<Longrightarrow> \<exists>n. charged_lanes cfg am = Some n"
  using gated_lanes_total[of cfg 0 am 0] by (auto simp: charged_lanes_def cfg_ok_def)

text \<open>Counting changes nothing else.\<close>

definition counted :: "rfu \<Rightarrow> rfu \<Rightarrow> bool" where
  "counted s s' = (m_cu s' = m_cu s \<and> m_cus s' = m_cus s \<and> m_dispatch_units s' = m_dispatch_units s \<and>
    m_in_ports s' = m_in_ports s \<and> m_arbiter s' = m_arbiter s \<and> m_pipeline_reg s' = m_pipeline_reg s)"

lemma counted_refl: "counted s s"
  by (simp add: counted_def)

lemma counted_ok: "counted s s' \<Longrightarrow> rfu_ok cfg s' = rfu_ok cfg s"
  by (simp add: rfu_oks counted_def)

lemma log_decoded_frame [simp]:
  "m_cu (log_decoded w k s) = m_cu s" "m_cus (log_decoded w k s) = m_cus s"
  "m_dispatch_units (log_decoded w k s) = m_dispatch_units s" "m_in_ports (log_decoded w k s) = m_in_ports s"
  "m_arbiter (log_decoded w k s) = m_arbiter s" "m_pipeline_reg (log_decoded w k s) = m_pipeline_reg s"
  by (simp_all add: log_decoded_def log_instr_def)

lemma count_non_rf_total:
  assumes "cfg_ok cfg"
  shows "\<exists>s'. each (count_non_rf cfg w) ks s = Some s' \<and> counted s s'"
proof (rule each_keeps)
  fix k t assume "counted s t"
  then show "\<exists>s'. count_non_rf cfg w k t = Some s' \<and> counted s s'"
    using charged_lanes_total[OF assms, of "w_active_mask (p_warp w)"]
    by (auto simp: count_non_rf_def counted_def log_instr_def)
qed (rule counted_refl)

subsection \<open>Dispatching a unit\<close>

lemma cu_ready_total:
  assumes "unit_ok cfg (length regs) cu"
  shows "\<exists>b. cu_ready regs cu = Some b \<and> (b \<longrightarrow> \<not> cu_free cu \<and> cu_not_ready cu = 0 \<and>
    (\<exists>g < length regs. cu_output cu = Some g \<and> has_free (regs ! g)))"
  using assms by (auto simp: cu_ready_def unit_ok_def)

lemma find_ready_total:
  assumes "\<forall>c \<in> set (du_units du). c < length (m_cu s)"
    and "\<forall>cu \<in> set (m_cu s). unit_ok cfg (length (m_pipeline_reg s)) cu"
    and "ns \<noteq> [] \<longrightarrow> du_units du \<noteq> []"
  shows "\<exists>du' r. find_ready s du ns = Some (du', r) \<and> du_units du' = du_units du \<and>
    (\<forall>c. r = Some c \<longrightarrow> c < length (m_cu s) \<and> \<not> cu_free (m_cu s ! c) \<and> cu_not_ready (m_cu s ! c) = 0 \<and>
      (\<exists>g < length (m_pipeline_reg s). cu_output (m_cu s ! c) = Some g \<and> has_free (m_pipeline_reg s ! g)))"
  using assms(3)
proof (induction ns)
  case (Cons n ns)
  define k where "k = Suc (du_last_cu du + n) mod length (du_units du)"
  have "k < length (du_units du)" using Cons.prems by (simp add: k_def)
  then have c: "du_units du ! k < length (m_cu s)" using assms(1) by simp
  obtain b where b: "cu_ready (m_pipeline_reg s) (m_cu s ! (du_units du ! k)) = Some b"
    "b \<longrightarrow> \<not> cu_free (m_cu s ! (du_units du ! k)) \<and> cu_not_ready (m_cu s ! (du_units du ! k)) = 0 \<and>
      (\<exists>g < length (m_pipeline_reg s). cu_output (m_cu s ! (du_units du ! k)) = Some g \<and>
        has_free (m_pipeline_reg s ! g))"
    using cu_ready_total assms(2) c nth_mem by blast
  show ?case using Cons b c by (cases b) (simp_all add: Let_def k_def[symmetric])
qed simp

lemma regs_ok_update:
  "regs_ok cfg regs \<Longrightarrow> \<forall>w \<in> set rs. \<not> p_empty w \<longrightarrow> inst_ok cfg w \<Longrightarrow> regs_ok cfg (regs[r := rs])"
  by (auto simp: regs_ok_def dest: set_update_subset_insert[THEN subsetD])

lemma regs_okD: "regs_ok cfg regs \<Longrightarrow> r < length regs \<Longrightarrow> i < length (regs ! r) \<Longrightarrow>
    \<not> p_empty (regs ! r ! i) \<Longrightarrow> inst_ok cfg (regs ! r ! i)"
  unfolding regs_ok_def by (meson nth_mem)

lemma cu_dispatch_total:
  assumes "unit_ok cfg (length regs) cu" "\<not> cu_free cu" "cu_not_ready cu = 0" "regs_ok cfg regs"
    and "cu_output cu = Some g" "g < length regs" "has_free (regs ! g)"
  shows "\<exists>regs' cu'. cu_dispatch regs cu = Some (regs', cu') \<and> length regs' = length regs \<and>
    unit_ok cfg (length regs) cu' \<and> cu_free cu' \<and> cu_not_ready cu' = 0 \<and> regs_ok cfg regs'"
proof -
  obtain i where i: "get_free (regs ! g) = Some i" "i < length (regs ! g)" "p_empty (regs ! g ! i)"
    using get_free_total[OF assms(7)] get_free_lt by blast
  have "inst_ok cfg (cu_warp cu)" using assms(1,2) by (simp add: unit_ok_def)
  then have "regs_ok cfg (regs[g := (regs ! g)[i := cu_warp cu]])"
    using assms(4,6) by (intro regs_ok_update) (auto simp: regs_ok_def dest!: set_update_subset_insert[THEN subsetD])
  then show ?thesis using assms i
    by (auto simp: cu_dispatch_def move_in_def move_warp_def unit_ok_def)
qed

lemma read_ok_frame:
  assumes "read_ok cfg cus b x" "length cus' = length cus"
    and "\<And>c. o_cu x = Some c \<Longrightarrow> cu_free (cus' ! c) = cu_free (cus ! c) \<and> cu_warp_id (cus' ! c) = cu_warp_id (cus ! c)"
  shows "read_ok cfg cus' b x"
  using assms by (auto simp: read_ok_def)

lemma queued_missing:
  assumes "rfu_ok cfg s" "b < unat (num_banks cfg)" "x \<in> set (a_queue (m_arbiter s) ! b)"
  shows "key x \<in> missing (m_cu s)"
  using assms by (auto simp: rfu_oks set_concat in_set_conv_nth) (metis (no_types, lifting) imageI nth_mem UN_I)

lemma queued_bit:
  assumes "rfu_ok cfg s" "b < unat (num_banks cfg)" "x \<in> set (a_queue (m_arbiter s) ! b)" "o_cu x = Some c"
  shows "bit (cu_not_ready (m_cu s ! c)) (o_operand x)"
  using queued_missing[OF assms(1-3)] assms(4) by (auto simp: key_def missing_def)

lemma missing_update: "cu_not_ready cu' = cu_not_ready (cus ! c) \<Longrightarrow> missing (cus[c := cu']) = missing cus"
  by (cases "c < length cus") (auto simp: missing_def nth_list_update split: if_splits)

lemma dispatched_ok:
  assumes ok: "rfu_ok cfg s" and c: "c < length (m_cu s)" "cu_not_ready (m_cu s ! c) = 0"
    and cu: "unit_ok cfg (length (m_pipeline_reg s)) cu'" "cu_not_ready cu' = 0"
    and regs: "regs_ok cfg regs'" "length regs' = length (m_pipeline_reg s)"
  shows "rfu_ok cfg (s\<lparr>m_pipeline_reg := regs', m_cu := (m_cu s)[c := cu']\<rparr>)"
proof -
  let ?s = "s\<lparr>m_pipeline_reg := regs', m_cu := (m_cu s)[c := cu']\<rparr>"
  have "reads_ok cfg ?s" unfolding reads_ok_def
  proof (intro allI impI ballI)
    fix b x assume b: "b < unat (num_banks cfg)" and x: "x \<in> set (a_queue (m_arbiter ?s) ! b)"
    have "read_ok cfg (m_cu s) b x" using ok b x by (simp add: rfu_oks)
    moreover have "o_cu x \<noteq> Some c" using queued_bit[OF ok b, of x c] x c by auto
    ultimately show "read_ok cfg (m_cu ?s) b x" by (auto intro: read_ok_frame simp: nth_list_update)
  qed
  moreover have "waiting_ok ?s" using ok c cu by (simp add: rfu_oks missing_update)
  moreover have "\<forall>u \<in> set (m_cu ?s). unit_ok cfg (length (m_pipeline_reg ?s)) u"
    using ok cu regs by (auto simp: rfu_ok_def dest: set_update_subset_insert[THEN subsetD])
  ultimately show ?thesis using ok regs by (simp add: rfu_ok_def shape_ok_def)
qed

lemma dispatch_unit_cycle_ok:
  assumes ok: "rfu_ok cfg s" and p: "p < length (m_dispatch_units s)"
  shows "\<exists>s'. dispatch_unit_cycle cfg p s = Some s' \<and> rfu_ok cfg s' \<and> m_arbiter s' = m_arbiter s \<and>
    length (m_dispatch_units s') = length (m_dispatch_units s) \<and> m_in_ports s' = m_in_ports s"
proof -
  let ?du = "m_dispatch_units s ! p"
  have du: "\<forall>c \<in> set (du_units ?du). c < length (m_cu s)"
    using ok nth_mem[OF p] unfolding rfu_ok_def shape_ok_def by blast
  obtain du' r where f: "find_ready s ?du [0..<length (du_units ?du)] = Some (du', r)" "du_units du' = du_units ?du"
    "\<forall>c. r = Some c \<longrightarrow> c < length (m_cu s) \<and> \<not> cu_free (m_cu s ! c) \<and> cu_not_ready (m_cu s ! c) = 0 \<and>
      (\<exists>g < length (m_pipeline_reg s). cu_output (m_cu s ! c) = Some g \<and> has_free (m_pipeline_reg s ! g))"
    using find_ready_total[OF du, where cfg = cfg and ns = "[0..<length (du_units ?du)]"] ok
    by (auto simp: rfu_ok_def)
  let ?s = "s\<lparr>m_dispatch_units := (m_dispatch_units s)[p := du']\<rparr>"
  have ok': "rfu_ok cfg ?s" using ok f(2) p du
    by (auto simp: rfu_oks dest!: set_update_subset_insert[THEN subsetD])
  show ?thesis
  proof (cases r)
    case None
    then show ?thesis using p f(1) ok' by (simp add: dispatch_unit_cycle_def Let_def)
  next
    case (Some c)
    then obtain g where c: "c < length (m_cu s)" "\<not> cu_free (m_cu s ! c)" "cu_not_ready (m_cu s ! c) = 0"
      "g < length (m_pipeline_reg s)" "cu_output (m_cu s ! c) = Some g" "has_free (m_pipeline_reg s ! g)"
      using f(3) by blast
    let ?ks = "[0..<unat (num_operands (cu_warp (m_cu s ! c)) - num_regs (cu_warp (m_cu s ! c)))]"
    obtain t where t: "each (count_non_rf cfg (cu_warp (m_cu s ! c))) ?ks ?s = Some t" "counted ?s t"
      using count_non_rf_total[where cfg = cfg and ks = ?ks and s = ?s] ok unfolding rfu_ok_def by blast
    have okt: "rfu_ok cfg t" using counted_ok[OF t(2)] ok' by simp
    obtain regs' cu' where d: "cu_dispatch (m_pipeline_reg s) (m_cu s ! c) = Some (regs', cu')"
      "length regs' = length (m_pipeline_reg s)" "unit_ok cfg (length (m_pipeline_reg s)) cu'"
      "cu_not_ready cu' = 0" "regs_ok cfg regs'"
      using cu_dispatch_total[of cfg "m_pipeline_reg s" "m_cu s ! c" g] ok c by (auto simp: rfu_ok_def)
    have "rfu_ok cfg (t\<lparr>m_pipeline_reg := regs', m_cu := (m_cu t)[c := cu']\<rparr>)"
      using okt c d t(2) by (intro dispatched_ok) (simp_all add: counted_def)
    then show ?thesis using p f(1) Some c(1) t d(1) by (simp add: dispatch_unit_cycle_def Let_def counted_def)
  qed
qed

lemma dispatch_ready_cu_ok:
  assumes "rfu_ok cfg s"
  shows "\<exists>s'. dispatch_ready_cu cfg s = Some s' \<and> rfu_ok cfg s' \<and> m_arbiter s' = m_arbiter s \<and>
    m_in_ports s' = m_in_ports s"
proof -
  let ?P = "\<lambda>t. rfu_ok cfg t \<and> m_arbiter t = m_arbiter s \<and> m_in_ports t = m_in_ports s \<and>
    length (m_dispatch_units t) = length (m_dispatch_units s)"
  have "\<exists>s'. each (dispatch_unit_cycle cfg) [0..<length (m_dispatch_units s)] s = Some s' \<and> ?P s'"
  proof (rule each_keeps)
    fix p t assume "p \<in> set [0..<length (m_dispatch_units s)]" "?P t"
    then show "\<exists>s'. dispatch_unit_cycle cfg p t = Some s' \<and> ?P s'"
      using dispatch_unit_cycle_ok[of cfg t p] by fastforce
  qed (use assms in simp)
  then show ?thesis by (auto simp: dispatch_ready_cu_def)
qed

subsection \<open>Reading the banks\<close>

lemma op_wid_eq: "o_warp x = None \<Longrightarrow> o_cu x = Some c \<Longrightarrow> c < length (m_cu s) \<Longrightarrow>
    op_wid s x = Some (cu_warp_id (m_cu s ! c))"
  by (simp add: op_wid_def)

lemma place_reads:
  assumes "\<forall>x \<in> set xs. \<exists>b < a_num_banks (m_arbiter s). read_ok cfg (m_cu s) b x \<and>
      allocated_bank (m_arbiter s) ! b = NO_ALLOC"
    and "distinct (map o_bank xs)" "length (allocated_bank (m_arbiter s)) = a_num_banks (m_arbiter s)"
    and "length ro = a_num_banks (m_arbiter s)"
  shows "each (place_read cfg) xs (ro, s) = Some (fold (\<lambda>x ro. ro[o_bank x := Some x]) xs ro,
    s\<lparr>m_arbiter := m_arbiter s\<lparr>allocated_bank :=
      fold (\<lambda>x als. als[o_bank x := READ_ALLOC x]) xs (allocated_bank (m_arbiter s))\<rparr>\<rparr>)"
  using assms
proof (induction xs arbitrary: ro s)
  case (Cons x xs)
  let ?b = "o_bank x"
  let ?a = "m_arbiter s\<lparr>allocated_bank := (allocated_bank (m_arbiter s))[?b := READ_ALLOC x]\<rparr>"
  let ?s = "s\<lparr>m_arbiter := ?a\<rparr>"
  obtain c where x: "?b < a_num_banks (m_arbiter s)" "o_valid x" "o_warp x = None" "o_cu x = Some c"
    "c < length (m_cu s)" "allocated_bank (m_arbiter s) ! ?b = NO_ALLOC"
    "register_bank cfg (o_register x) (cu_warp_id (m_cu s ! c)) (o_sched x) = Some ?b"
    using Cons.prems(1) by (auto simp: read_ok_def)
  have "place_read cfg x (ro, s) = Some (ro[?b := Some x], ?s)"
    using x Cons.prems(3,4) by (simp add: place_read_def op_wid_eq allocate_for_read_def alloc_read_def)
  moreover have "each (place_read cfg) xs (ro[?b := Some x], ?s) =
    Some (fold (\<lambda>x ro. ro[o_bank x := Some x]) xs (ro[?b := Some x]),
      ?s\<lparr>m_arbiter := m_arbiter ?s\<lparr>allocated_bank :=
        fold (\<lambda>x als. als[o_bank x := READ_ALLOC x]) xs (allocated_bank (m_arbiter ?s))\<rparr>\<rparr>)"
  proof (rule Cons.IH)
    show "\<forall>y \<in> set xs. \<exists>b < a_num_banks (m_arbiter ?s). read_ok cfg (m_cu ?s) b y \<and>
        allocated_bank (m_arbiter ?s) ! b = NO_ALLOC"
    proof
      fix y assume y: "y \<in> set xs"
      then obtain b where b: "b < a_num_banks (m_arbiter s)" "read_ok cfg (m_cu s) b y"
        "allocated_bank (m_arbiter s) ! b = NO_ALLOC" using Cons.prems(1) by auto
      moreover have "o_bank y = b" using b(2) by (simp add: read_ok_def)
      moreover have "o_bank y \<noteq> ?b" using Cons.prems(2) y by (metis distinct.simps(2) imageI list.simps(9) set_map)
      ultimately show "\<exists>b < a_num_banks (m_arbiter ?s). read_ok cfg (m_cu ?s) b y \<and>
        allocated_bank (m_arbiter ?s) ! b = NO_ALLOC" by auto
    qed
  qed (use Cons.prems in auto)
  ultimately show ?case by simp
qed simp

lemma fold_update_length: "length (fold (\<lambda>x ys. ys[f x := g x]) xs ys) = length ys"
  by (induction xs arbitrary: ys) simp_all

lemma fold_update_other: "b \<notin> f ` set xs \<Longrightarrow> fold (\<lambda>x ys. ys[f x := g x]) xs ys ! b = ys ! b"
  by (induction xs arbitrary: ys) simp_all

lemma fold_update_same:
  "distinct (map f xs) \<Longrightarrow> x \<in> set xs \<Longrightarrow> f x < length ys \<Longrightarrow> fold (\<lambda>x ys. ys[f x := g x]) xs ys ! f x = g x"
proof (induction xs arbitrary: ys)
  case (Cons y xs)
  show ?case
  proof (cases "x = y")
    case True
    then have "f x \<notin> f ` set xs" using Cons.prems by auto
    then show ?thesis using Cons.prems(3) True by (simp add: fold_update_other)
  qed (use Cons in simp)
qed simp

lemma somes_placed:
  assumes "distinct (map o_bank xs)" "\<forall>x \<in> set xs. o_bank x < n"
  shows "set (somes (fold (\<lambda>x ro. ro[o_bank x := Some x]) xs (replicate n None))) = set xs"
proof -
  let ?ro = "fold (\<lambda>x ro. ro[o_bank x := Some x]) xs (replicate n None)"
  have len: "length ?ro = n" by (simp add: fold_update_length)
  have "(Some x \<in> set ?ro) = (x \<in> set xs)" for x
  proof
    assume "Some x \<in> set ?ro"
    then obtain b where b: "b < n" "?ro ! b = Some x" using len by (auto simp: in_set_conv_nth)
    then obtain y where "y \<in> set xs" "o_bank y = b"
      by (cases "b \<in> o_bank ` set xs") (auto simp: fold_update_other)
    then show "x \<in> set xs" using fold_update_same[OF assms(1), of y "replicate n None" Some] b by auto
  next
    assume x: "x \<in> set xs"
    then have lt: "o_bank x < n" using assms(2) by blast
    have "?ro ! o_bank x = Some x" by (rule fold_update_same[OF assms(1) x]) (simp add: lt)
    moreover have "o_bank x < length ?ro" using lt unfolding len .
    ultimately show "Some x \<in> set ?ro" using nth_mem[of "o_bank x" ?ro] by simp
  qed
  then show ?thesis by (auto simp: set_somes)
qed

text \<open>Delivering a read clears the bit its unit waits for, and nothing else.\<close>

definition delivered :: "op set \<Rightarrow> collector list \<Rightarrow> collector list \<Rightarrow> bool" where
  "delivered xs cus cus' = (length cus' = length cus \<and> (\<forall>c < length cus.
     (\<exists>nr. cus' ! c = (cus ! c)\<lparr>cu_not_ready := nr\<rparr>) \<and>
     (\<forall>i. bit (cu_not_ready (cus' ! c)) i = (bit (cu_not_ready (cus ! c)) i \<and> (c, i) \<notin> key ` xs))))"

definition same_but_units :: "rfu \<Rightarrow> rfu \<Rightarrow> bool" where
  "same_but_units s s' = (m_cus s' = m_cus s \<and> m_dispatch_units s' = m_dispatch_units s \<and>
    m_in_ports s' = m_in_ports s \<and> m_arbiter s' = m_arbiter s \<and> m_pipeline_reg s' = m_pipeline_reg s)"

lemma deliver_read_spec:
  assumes "cfg_ok cfg" "o_cu x = Some c" "c < length (m_cu s)" "o_operand x < MAX_REG_OPERANDS" "o_warp x = None"
  shows "\<exists>s'. deliver_read cfg x s = Some s' \<and> same_but_units s s' \<and>
    m_cu s' = (m_cu s)[c := (m_cu s ! c)\<lparr>cu_not_ready := unset_bit (o_operand x) (cu_not_ready (m_cu s ! c))\<rparr>]"
proof -
  obtain n where n: "charged_lanes cfg (if clock_gated_reg_file cfg
      then w_active_mask (p_warp (cu_warp (m_cu s ! c))) else 0) = Some n"
    using charged_lanes_total[OF assms(1)] by blast
  then show ?thesis using assms
    by (auto simp: deliver_read_def collect_operand_def op_active_mask_def same_but_units_def log_instr_def Let_def
        split: if_splits)
qed

lemma deliver_reads:
  assumes "cfg_ok cfg" "\<forall>x \<in> set xs. o_warp x = None \<and> o_operand x < MAX_REG_OPERANDS \<and>
      (\<exists>c < length (m_cu s). o_cu x = Some c)"
  shows "\<exists>s'. each (deliver_read cfg) xs s = Some s' \<and> same_but_units s s' \<and> delivered (set xs) (m_cu s) (m_cu s')"
  using assms(2)
proof (induction xs arbitrary: s)
  case Nil
  have "\<exists>nr. cu = cu\<lparr>cu_not_ready := nr\<rparr>" for cu :: collector by (rule exI[of _ "cu_not_ready cu"]) simp
  then show ?case by (simp add: same_but_units_def delivered_def)
next
  case (Cons x xs)
  then obtain c where c: "c < length (m_cu s)" "o_cu x = Some c" by auto
  obtain t where t: "deliver_read cfg x s = Some t" "same_but_units s t"
    "m_cu t = (m_cu s)[c := (m_cu s ! c)\<lparr>cu_not_ready := unset_bit (o_operand x) (cu_not_ready (m_cu s ! c))\<rparr>]"
    using deliver_read_spec[OF assms(1) c(2,1)] Cons.prems by auto
  obtain s' where s': "each (deliver_read cfg) xs t = Some s'" "same_but_units t s'"
    "delivered (set xs) (m_cu t) (m_cu s')" using Cons.IH[of t] Cons.prems t(3) by auto
  have "delivered (set (x # xs)) (m_cu s) (m_cu s')" unfolding delivered_def
  proof (intro conjI allI impI)
    show "length (m_cu s') = length (m_cu s)" using s'(3) t(3) by (simp add: delivered_def)
    fix d assume d: "d < length (m_cu s)"
    then have "\<exists>nr. m_cu s' ! d = (m_cu t ! d)\<lparr>cu_not_ready := nr\<rparr>" using s'(3) t(3) by (simp add: delivered_def)
    then show "\<exists>nr. m_cu s' ! d = (m_cu s ! d)\<lparr>cu_not_ready := nr\<rparr>" using t(3) c d by (cases "c = d") auto
    fix i
    have "bit (cu_not_ready (m_cu s' ! d)) i = (bit (cu_not_ready (m_cu t ! d)) i \<and> (d, i) \<notin> key ` set xs)"
      using s'(3) t(3) d by (simp add: delivered_def)
    moreover have "bit (cu_not_ready (m_cu t ! d)) i = (bit (cu_not_ready (m_cu s ! d)) i \<and> (d, i) \<noteq> key x)"
      using t(3) c d by (cases "c = d") (auto simp: key_def bit_unset_bit_iff)
    ultimately show "bit (cu_not_ready (m_cu s' ! d)) i = (bit (cu_not_ready (m_cu s ! d)) i \<and>
        (d, i) \<notin> key ` set (x # xs))" by auto
  qed
  then show ?case using s'(1,2) t(1,2) by (auto simp: same_but_units_def)
qed

lemma map2_upt: "length xs = length ys \<Longrightarrow> map2 f xs ys = map (\<lambda>i. f (xs ! i) (ys ! i)) [0..<length ys]"
  by (rule nth_equalityI) simp_all

lemma served_upt:
  assumes "length als = length qs"
  shows "served als qs = map (\<lambda>b. hd (qs ! b)) (filter (\<lambda>b. \<not> is_write (als ! b) \<and> qs ! b \<noteq> []) [0..<length qs])"
proof -
  have "concat (map (\<lambda>b. if is_write (als ! b) then [] else take 1 (qs ! b)) bs) =
      map (\<lambda>b. hd (qs ! b)) (filter (\<lambda>b. \<not> is_write (als ! b) \<and> qs ! b \<noteq> []) bs)" for bs
    by (induction bs) (auto simp: take_Suc)
  then show ?thesis by (simp add: served_def map2_upt[OF assms])
qed

lemma unserved_nth: "length als = length qs \<Longrightarrow> b < length qs \<Longrightarrow>
    unserved als qs ! b = (if is_write (als ! b) then qs ! b else tl (qs ! b))"
  by (simp add: unserved_def)

lemma unserved_length [simp]: "length als = length qs \<Longrightarrow> length (unserved als qs) = length qs"
  by (simp add: unserved_def)

lemma served_unserved: "length als = length qs \<Longrightarrow>
    mset (concat qs) = mset (served als qs @ concat (unserved als qs))"
proof (induction als qs rule: list_induct2)
  case (Cons al als q qs)
  have "q = (if is_write al then [] else take 1 q) @ (if is_write al then q else tl q)" by (cases q) auto
  then have "mset q = mset (if is_write al then [] else take 1 q) + mset (if is_write al then q else tl q)"
    by (metis mset_append)
  then show ?case using Cons by (simp add: served_def unserved_def ac_simps split: if_splits)
qed (simp add: served_def unserved_def)

lemma delivered_missing: "delivered xs cus cus' \<Longrightarrow> missing cus' = missing cus - key ` xs"
  by (auto simp: delivered_def missing_def)

lemma delivered_unit: "delivered xs cus cus' \<Longrightarrow> c < length cus \<Longrightarrow> cu_free (cus' ! c) = cu_free (cus ! c) \<and>
    cu_warp_id (cus' ! c) = cu_warp_id (cus ! c)"
  unfolding delivered_def by (metis collector.select_convs(1,2) collector.surjective collector.update_convs(6))

lemma delivered_unit_ok:
  assumes "delivered xs cus cus'" "\<forall>cu \<in> set cus. unit_ok cfg n cu" "cu' \<in> set cus'"
  shows "unit_ok cfg n cu'"
proof -
  obtain c where c: "c < length cus" "cu' = cus' ! c" using assms(1,3) by (auto simp: delivered_def in_set_conv_nth)
  then obtain nr where nr: "cu' = (cus ! c)\<lparr>cu_not_ready := nr\<rparr>" using assms(1) by (auto simp: delivered_def)
  have "cu_not_ready cu' = 0" if "cu_not_ready (cus ! c) = 0"
    by (rule bit_eqI) (use that assms(1) c in \<open>simp add: delivered_def\<close>)
  moreover have "cu_not_ready cu' = nr" "unit_ok cfg n (cus ! c)" using assms(2) c(1) by (simp_all add: nr)
  ultimately show ?thesis unfolding nr by (simp add: unit_ok_def)
qed

lemma rfu_fronts: "rfu_ok cfg s \<Longrightarrow> arbiter_ok (m_arbiter s)"
proof -
  assume ok: "rfu_ok cfg s"
  have "\<exists>c < length (m_cu s). o_cu (hd q) = Some c" if q: "q \<in> set (a_queue (m_arbiter s))" "q \<noteq> []" for q
  proof -
    obtain b where b: "b < unat (num_banks cfg)" "q = a_queue (m_arbiter s) ! b"
      using q ok by (auto simp: rfu_oks in_set_conv_nth)
    then have "read_ok cfg (m_cu s) b (hd q)" using ok q by (simp add: rfu_oks)
    then show ?thesis by (auto simp: read_ok_def)
  qed
  then show ?thesis using ok by (auto simp: rfu_oks arbiter_ok_def fronts_ok_def cfg_ok_def unat_gt_0)
qed

lemma rfu_allocate_reads_ok:
  assumes ok: "rfu_ok cfg s" and idle: "no_reads s"
  defines "als \<equiv> allocated_bank (m_arbiter s)" and "qs \<equiv> a_queue (m_arbiter s)"
  shows "\<exists>s'. rfu_allocate_reads cfg s = Some s' \<and> rfu_ok cfg s' \<and>
    delivered (set (served als qs)) (m_cu s) (m_cu s') \<and> a_queue (m_arbiter s') = unserved als qs \<and>
    m_in_ports s' = m_in_ports s \<and> m_pipeline_reg s' = m_pipeline_reg s"
proof -
  let ?n = "unat (num_banks cfg)" and ?xs = "served als qs"
  let ?a = "m_arbiter s\<lparr>a_queue := unserved als qs, a_last_cu := (a_last_cu (m_arbiter s) + 1) mod
      a_num_collectors (m_arbiter s)\<rparr>"
  let ?t = "s\<lparr>m_arbiter := ?a\<rparr>"
  let ?als = "fold (\<lambda>x als. als[o_bank x := READ_ALLOC x]) ?xs als"
  let ?u = "?t\<lparr>m_arbiter := ?a\<lparr>allocated_bank := ?als\<rparr>\<rparr>"
  let ?bs = "filter (\<lambda>b. \<not> is_write (als ! b) \<and> qs ! b \<noteq> []) [0..<length qs]"
  have len: "length qs = ?n" "length als = ?n" "a_num_banks (m_arbiter s) = ?n"
    using ok by (auto simp: rfu_oks als_def qs_def)
  have reads: "read_ok cfg (m_cu s) b x" if "b < ?n" "x \<in> set (qs ! b)" for b x
    using ok that by (simp add: rfu_oks qs_def)
  have xs: "?xs = map (\<lambda>b. hd (qs ! b)) ?bs" using len by (intro served_upt) simp
  have served: "\<exists>b < ?n. read_ok cfg (m_cu s) b x \<and> als ! b = NO_ALLOC" if x: "x \<in> set ?xs" for x
  proof -
    obtain b where b: "b < ?n" "\<not> is_write (als ! b)" "qs ! b \<noteq> []" "x = hd (qs ! b)"
      using x len unfolding xs by auto
    moreover have "als ! b = NO_ALLOC \<or> is_write (als ! b)" using idle b(1) len by (simp add: no_reads_def als_def)
    ultimately show ?thesis using reads by auto
  qed
  have "map o_bank ?xs = ?bs"
  proof -
    have "o_bank (hd (qs ! b)) = b" if "b \<in> set ?bs" for b using reads[of b "hd (qs ! b)"] that len by (simp add: read_ok_def)
    then have "map (o_bank \<circ> (\<lambda>b. hd (qs ! b))) ?bs = ?bs" by (intro map_idI) (simp only: o_apply)
    then show ?thesis unfolding xs map_map .
  qed
  then have dist: "distinct (map o_bank ?xs)" by simp
  have alloc: "allocate_reads (m_arbiter s) = Some (?xs, ?a)"
    using allocate_reads_eq[OF rfu_fronts[OF ok]] by (simp add: als_def qs_def)
  have place: "each (place_read cfg) ?xs (replicate ?n None, ?t) =
      Some (fold (\<lambda>x ro. ro[o_bank x := Some x]) ?xs (replicate ?n None), ?u)"
    using place_reads[of ?xs ?t cfg "replicate ?n None"] served dist len by (simp add: als_def[symmetric])
  have "\<forall>x \<in> set ?xs. o_bank x < ?n" using served by (auto simp: read_ok_def)
  note somes = somes_placed[OF dist this]
  obtain s' where s': "each (deliver_read cfg) (somes (fold (\<lambda>x ro. ro[o_bank x := Some x]) ?xs (replicate ?n None))) ?u = Some s'"
    "same_but_units ?u s'" "delivered (set ?xs) (m_cu s) (m_cu s')"
    using deliver_reads[of cfg "somes (fold (\<lambda>x ro. ro[o_bank x := Some x]) ?xs (replicate ?n None))" ?u] ok served
    unfolding somes by (fastforce simp: rfu_ok_def read_ok_def)
  have "mset (concat qs) = mset (?xs @ concat (unserved als qs))" using len by (intro served_unserved) simp
  then have m: "mset (map key (concat qs)) = mset (map key (?xs @ concat (unserved als qs)))"
    unfolding mset_map by simp
  have dk: "distinct (map key (?xs @ concat (unserved als qs)))"
    using ok mset_eq_imp_distinct_iff[OF m] by (simp add: rfu_oks qs_def)
  have "missing (m_cu s) = key ` set ?xs \<union> key ` set (concat (unserved als qs))"
    using ok mset_eq_setD[OF m] by (simp add: rfu_oks qs_def image_Un)
  moreover have "key ` set ?xs \<inter> key ` set (concat (unserved als qs)) = {}"
    using dk unfolding map_append distinct_append by (simp only: set_map)
  ultimately have "missing (m_cu s') = key ` set (concat (unserved als qs))"
    unfolding delivered_missing[OF s'(3)] by blast
  moreover have "a_queue (m_arbiter s') = unserved als qs" using s'(2) by (simp add: same_but_units_def)
  ultimately have "waiting_ok s'" using dk unfolding waiting_ok_def by simp
  moreover have "reads_ok cfg s'" unfolding reads_ok_def
  proof (intro allI impI ballI)
    fix b x assume b: "b < ?n" and "x \<in> set (a_queue (m_arbiter s') ! b)"
    then have "x \<in> set (qs ! b)" using len s'(2)
      by (auto simp: same_but_units_def unserved_nth split: if_splits dest: list.set_sel(2)[rotated])
         (metis list.sel(2) list.set_sel(2))
    then have x: "read_ok cfg (m_cu s) b x" using reads b by simp
    then have "\<And>c. o_cu x = Some c \<Longrightarrow> c < length (m_cu s)" by (auto simp: read_ok_def)
    then show "read_ok cfg (m_cu s') b x" using delivered_unit[OF s'(3)] s'(3)
      by (intro read_ok_frame[OF x]) (auto simp: delivered_def)
  qed
  moreover have "\<forall>cu \<in> set (m_cu s'). unit_ok cfg (length (m_pipeline_reg s')) cu"
    using delivered_unit_ok[OF s'(3)] ok s'(2) by (simp add: rfu_ok_def same_but_units_def)
  moreover have "shape_ok cfg s'"
    using ok s'(2,3) len by (simp add: rfu_oks same_but_units_def delivered_def fold_update_length)
  ultimately have "rfu_ok cfg s'" using ok s'(2) by (simp add: rfu_ok_def same_but_units_def)
  moreover have "rfu_allocate_reads cfg s = Some s'" using place s'(1) by (simp add: rfu_allocate_reads_def alloc)
  ultimately show ?thesis using s'(2,3) by (simp add: same_but_units_def)
qed

subsection \<open>Allocating a unit\<close>

text \<open>What the unit's operands look like after the first \<open>k\<close> sources.\<close>

definition collects :: "rf_config \<Rightarrow> nat \<Rightarrow> pipe_inst \<Rightarrow> nat \<Rightarrow> collector \<Rightarrow> collector \<Rightarrow> bool" where
  "collects cfg c w k cu cu' = (\<exists>src nr. cu' = cu\<lparr>cu_src_op := src, cu_not_ready := nr\<rparr> \<and>
    length src = 2 * MAX_REG_OPERANDS \<and>
    (\<forall>i \<ge> k. src ! i = cu_src_op cu ! i) \<and>
    (\<forall>i. bit nr i = (i < k \<and> o_valid (src ! i))) \<and>
    (\<forall>i < k. o_valid (src ! i) \<longrightarrow> o_cu (src ! i) = Some c \<and> o_warp (src ! i) = None \<and> o_operand (src ! i) = i \<and>
       o_bank (src ! i) < unat (num_banks cfg) \<and>
       register_bank cfg (o_register (src ! i)) (cu_warp_id cu) (o_sched (src ! i)) = Some (o_bank (src ! i))))"

lemma add_operand_collects:
  assumes "cfg_ok cfg" "inst_ok cfg w" "k < MAX_REG_OPERANDS" "collects cfg c w k cu cu'"
  shows "\<exists>cu''. add_operand cfg c w k cu' = Some cu'' \<and> collects cfg c w (Suc k) cu cu''"
proof -
  obtain src nr where cu': "cu' = cu\<lparr>cu_src_op := src, cu_not_ready := nr\<rparr>" "length src = 2 * MAX_REG_OPERANDS"
    and old: "\<forall>i \<ge> k. src ! i = cu_src_op cu ! i" and nr: "\<forall>i. bit nr i = (i < k \<and> o_valid (src ! i))"
    and ops: "\<forall>i < k. o_valid (src ! i) \<longrightarrow> o_cu (src ! i) = Some c \<and> o_warp (src ! i) = None \<and> o_operand (src ! i) = i \<and>
       o_bank (src ! i) < unat (num_banks cfg) \<and>
       register_bank cfg (o_register (src ! i)) (cu_warp_id cu) (o_sched (src ! i)) = Some (o_bank (src ! i))"
    using assms(4) by (auto simp: collects_def)
  have len: "length (arch_src w) = MAX_REG_OPERANDS" and sched: "sched_ok cfg (w_scheduler_id (p_warp w))"
    using assms(2) by (simp_all add: inst_ok_def)
  show ?thesis
  proof (cases "0 \<le> arch_src w ! k")
    case True
    let ?r = "word_of_int (arch_src w ! k) :: u32" and ?sched = "w_scheduler_id (p_warp w)"
    obtain b where b: "b < unat (num_banks cfg)" "register_bank cfg ?r (cu_warp_id cu) ?sched = Some b"
      using register_bank_total[OF assms(1) sched] by blast
    let ?x = "\<lparr>o_valid = True, o_cu = Some c, o_warp = None, o_operand = k, o_register = ?r, o_bank = b, o_sched = ?sched\<rparr>"
    have "add_operand cfg c w k cu' =
        Some (cu\<lparr>cu_src_op := src[k := ?x], cu_not_ready := set_bit k nr\<rparr>)"
      using True assms(3) cu' len b by (simp add: add_operand_def op_read_def)
    moreover have "collects cfg c w (Suc k) cu (cu\<lparr>cu_src_op := src[k := ?x], cu_not_ready := set_bit k nr\<rparr>)"
      unfolding collects_def
      by (rule exI[of _ "src[k := ?x]"], rule exI[of _ "set_bit k nr"])
         (use old nr ops b cu'(2) assms(3) in \<open>auto simp: less_Suc_eq bit_set_bit_iff nth_list_update split: if_splits\<close>)
    ultimately show ?thesis by blast
  next
    case False
    have "add_operand cfg c w k cu' = Some (cu\<lparr>cu_src_op := src[k := op_none], cu_not_ready := nr\<rparr>)"
      using False assms(3) cu' len by (simp add: add_operand_def)
    moreover have "collects cfg c w (Suc k) cu (cu\<lparr>cu_src_op := src[k := op_none], cu_not_ready := nr\<rparr>)"
      unfolding collects_def
      by (rule exI[of _ "src[k := op_none]"], rule exI[of _ nr])
         (use old nr ops cu'(2) assms(3) in \<open>auto simp: less_Suc_eq op_none_def nth_list_update split: if_splits\<close>)
    ultimately show ?thesis by blast
  qed
qed

lemma add_operands:
  assumes "cfg_ok cfg" "inst_ok cfg w" "k \<le> MAX_REG_OPERANDS"
    and "length (cu_src_op cu) = 2 * MAX_REG_OPERANDS" "cu_not_ready cu = 0"
  shows "\<exists>cu'. each (add_operand cfg c w) [0..<k] cu = Some cu' \<and> collects cfg c w k cu cu'"
  using assms(3)
proof (induction k)
  case 0
  have "cu = cu\<lparr>cu_src_op := cu_src_op cu, cu_not_ready := 0\<rparr>" using assms(5) by simp
  then have "collects cfg c w 0 cu cu" using assms(4) unfolding collects_def
    by (intro exI[of _ "cu_src_op cu"] exI[of _ 0]) simp
  then show ?case by simp
next
  case (Suc k)
  then obtain cu' where "each (add_operand cfg c w) [0..<k] cu = Some cu'" "collects cfg c w k cu cu'" by auto
  then show ?case using add_operand_collects[OF assms(1,2), of k c cu cu'] Suc.prems by (auto simp: each_append)
qed

definition waits_for :: "rf_config \<Rightarrow> nat \<Rightarrow> collector \<Rightarrow> bool" where
  "waits_for cfg c cu =
    ((\<forall>i. bit (cu_not_ready cu) i = (i < MAX_REG_OPERANDS \<and> o_valid (cu_src_op cu ! i))) \<and>
     (\<forall>i < MAX_REG_OPERANDS. o_valid (cu_src_op cu ! i) \<longrightarrow> o_cu (cu_src_op cu ! i) = Some c \<and>
       o_warp (cu_src_op cu ! i) = None \<and> o_operand (cu_src_op cu ! i) = i \<and>
       o_bank (cu_src_op cu ! i) < unat (num_banks cfg) \<and>
       register_bank cfg (o_register (cu_src_op cu ! i)) (cu_warp_id cu) (o_sched (cu_src_op cu ! i)) =
         Some (o_bank (cu_src_op cu ! i))))"

lemma cu_allocate_total:
  assumes "cfg_ok cfg" "unit_ok cfg n cu" "cu_free cu" "has_ready rs" "\<forall>w \<in> set rs. \<not> p_empty w \<longrightarrow> inst_ok cfg w"
    and "out < n"
  shows "\<exists>rs' cu'. cu_allocate cfg c out rs cu = Some (True, rs', cu') \<and>
    (\<forall>w \<in> set rs'. \<not> p_empty w \<longrightarrow> inst_ok cfg w) \<and> unit_ok cfg n cu' \<and> \<not> cu_free cu' \<and> waits_for cfg c cu'"
proof -
  obtain r where r: "get_ready rs = Some r" "r < length rs" "\<not> p_empty (rs ! r)"
    using get_ready_total[OF assms(4)] get_ready_lt by blast
  let ?w = "rs ! r" and ?cu = "cu\<lparr>cu_free := False, cu_output := Some out, cu_warp_id := w_warp_id (p_warp (rs ! r))\<rparr>"
  have ok: "inst_ok cfg ?w" using assms(5) r by simp
  have cu: "cu_not_ready cu = 0" "p_empty (cu_warp cu)" "length (cu_src_op cu) = 2 * MAX_REG_OPERANDS"
    "\<forall>i \<in> {MAX_REG_OPERANDS..<2 * MAX_REG_OPERANDS}. \<not> o_valid (cu_src_op cu ! i)"
    using assms(2,3) by (simp_all add: unit_ok_def)
  obtain cu' where cu': "each (add_operand cfg c ?w) [0..<MAX_REG_OPERANDS] ?cu = Some cu'"
    "collects cfg c ?w MAX_REG_OPERANDS ?cu cu'"
    using add_operands[OF assms(1) ok le_refl, of ?cu c] cu by auto
  have fields: "cu_warp cu' = cu_warp cu" "\<not> cu_free cu'" "cu_output cu' = Some out"
    "cu_warp_id cu' = w_warp_id (p_warp ?w)"
    using cu'(2) by (auto simp: collects_def)
  have "cu_allocate cfg c out rs cu = Some (True, rs[r := p_clear (cu_warp cu)], cu'\<lparr>cu_warp := ?w\<rparr>)"
    using assms(3) cu r cu'(1) fields
    by (simp add: cu_allocate_def Let_def move_out_to_def move_warp_def warp_id_def p_empty_def[symmetric]
        del: each.simps)
  moreover have "\<forall>w \<in> set (rs[r := p_clear (cu_warp cu)]). \<not> p_empty w \<longrightarrow> inst_ok cfg w"
    using assms(5) by (auto dest!: set_update_subset_insert[THEN subsetD])
  moreover have "unit_ok cfg n (cu'\<lparr>cu_warp := ?w\<rparr>)"
    using cu'(2) cu(4) ok assms(6) by (auto simp: unit_ok_def collects_def)
  moreover have "waits_for cfg c (cu'\<lparr>cu_warp := ?w\<rparr>)"
    using cu'(2) fields by (auto simp: collects_def waits_for_def)
  ultimately show ?thesis using fields by auto
qed

lemma mset_concat_update:
  "b < length qs \<Longrightarrow> mset (concat (qs[b := qs ! b @ [x]])) = add_mset x (mset (concat qs))"
proof (induction qs arbitrary: b)
  case (Cons q qs)
  then show ?case by (cases b) simp_all
qed simp

lemma add_read_requests:
  assumes "\<forall>x \<in> set xs. o_valid x \<longrightarrow> o_bank x < length (a_queue a)"
  shows "\<exists>qs. each add_read_request xs a = Some (a\<lparr>a_queue := qs\<rparr>) \<and> length qs = length (a_queue a) \<and>
    (\<forall>b < length qs. qs ! b = a_queue a ! b @ filter (\<lambda>x. o_valid x \<and> o_bank x = b) xs) \<and>
    mset (concat qs) = mset (concat (a_queue a)) + mset (filter o_valid xs)"
  using assms
proof (induction xs arbitrary: a)
  case Nil
  then show ?case by (intro exI[of _ "a_queue a"]) simp
next
  case (Cons x xs)
  show ?case
  proof (cases "o_valid x")
    case True
    let ?a = "a\<lparr>a_queue := (a_queue a)[o_bank x := a_queue a ! o_bank x @ [x]]\<rparr>"
    obtain qs where qs: "each add_read_request xs ?a = Some (?a\<lparr>a_queue := qs\<rparr>)" "length qs = length (a_queue a)"
      "\<forall>b < length qs. qs ! b = a_queue ?a ! b @ filter (\<lambda>x. o_valid x \<and> o_bank x = b) xs"
      "mset (concat qs) = mset (concat (a_queue ?a)) + mset (filter o_valid xs)"
      using Cons.IH[of ?a] Cons.prems by auto
    have lt: "o_bank x < length (a_queue a)" using Cons.prems True by simp
    have "mset (concat qs) = mset (concat (a_queue a)) + mset (filter o_valid (x # xs))"
      using qs(4) mset_concat_update[OF lt, of x] True by simp
    moreover have "add_read_request x a = Some ?a" using lt True by (simp add: add_read_request_def)
    ultimately show ?thesis using qs(1-3) True lt by (intro exI[of _ qs]) (auto simp: nth_list_update)
  next
    case False
    then show ?thesis using Cons by (simp add: add_read_request_def)
  qed
qed

definition queues_grow :: "rf_config \<Rightarrow> rfu \<Rightarrow> rfu \<Rightarrow> bool" where
  "queues_grow cfg s s' = (m_in_ports s' = m_in_ports s \<and> m_cus s' = m_cus s \<and>
    allocated_bank (m_arbiter s') = allocated_bank (m_arbiter s) \<and>
    (\<forall>b < unat (num_banks cfg). \<exists>ys. a_queue (m_arbiter s') ! b = a_queue (m_arbiter s) ! b @ ys) \<and>
    (\<forall>c. \<not> cu_free (m_cu s ! c) \<longrightarrow> m_cu s' ! c = m_cu s ! c))"

lemma queues_grow_refl: "queues_grow cfg s s"
  by (simp add: queues_grow_def)

lemma queues_grow_trans: "queues_grow cfg s t \<Longrightarrow> queues_grow cfg t u \<Longrightarrow> queues_grow cfg s u"
  unfolding queues_grow_def by (metis append_assoc)

lemma filter_nth: "filter P xs = map (\<lambda>k. xs ! k) (filter (\<lambda>k. P (xs ! k)) [0..<length xs])"
proof -
  have "filter P (map (\<lambda>k. xs ! k) [0..<length xs]) = map (\<lambda>k. xs ! k) (filter (\<lambda>k. P (xs ! k)) [0..<length xs])"
    by (simp only: filter_map comp_def)
  then show ?thesis by (simp only: map_nth)
qed

lemma allocate_unit_ok:
  assumes ok: "rfu_ok cfg s" and c: "c < length (m_cu s)" "cu_free (m_cu s ! c)"
    and io: "i < length (m_pipeline_reg s)" "out < length (m_pipeline_reg s)" and ready: "has_ready (m_pipeline_reg s ! i)"
  shows "\<exists>s'. allocate_unit cfg i out c s = Some (True, s') \<and> rfu_ok cfg s' \<and> queues_grow cfg s s'"
proof -
  let ?n = "unat (num_banks cfg)" and ?nr = "length (m_pipeline_reg s)" and ?W = "concat (a_queue (m_arbiter s))"
  let ?t = "log_decoded (cu_warp (m_cu s ! c)) COLL_UNT_CNTR s"
  have unit: "unit_ok cfg ?nr (m_cu s ! c)" using ok c by (simp add: rfu_ok_def)
  have cfg: "cfg_ok cfg" using ok by (simp add: rfu_ok_def)
  have rs_ok: "\<forall>w \<in> set (m_pipeline_reg s ! i). \<not> p_empty w \<longrightarrow> inst_ok cfg w"
    using ok io(1) nth_mem unfolding rfu_ok_def regs_ok_def by blast
  obtain rs cu where cu: "cu_allocate cfg c out (m_pipeline_reg s ! i) (m_cu s ! c) = Some (True, rs, cu)"
    "\<forall>w \<in> set rs. \<not> p_empty w \<longrightarrow> inst_ok cfg w" "unit_ok cfg ?nr cu" "\<not> cu_free cu"
    and w: "waits_for cfg c cu"
    using cu_allocate_total[OF cfg unit c(2) ready rs_ok io(2), of c] by blast
  have bits: "\<forall>k. bit (cu_not_ready cu) k = (k < MAX_REG_OPERANDS \<and> o_valid (cu_src_op cu ! k))"
    and ops: "\<forall>k < MAX_REG_OPERANDS. o_valid (cu_src_op cu ! k) \<longrightarrow> o_cu (cu_src_op cu ! k) = Some c \<and>
       o_warp (cu_src_op cu ! k) = None \<and> o_operand (cu_src_op cu ! k) = k \<and> o_bank (cu_src_op cu ! k) < ?n \<and>
       register_bank cfg (o_register (cu_src_op cu ! k)) (cu_warp_id cu) (o_sched (cu_src_op cu ! k)) =
         Some (o_bank (cu_src_op cu ! k))"
    using w unfolding waits_for_def by simp_all
  let ?src = "cu_src_op cu"
  have src: "length ?src = 2 * MAX_REG_OPERANDS" and high: "\<And>k. k < 2 * MAX_REG_OPERANDS \<Longrightarrow> o_valid (?src ! k) \<Longrightarrow> k < MAX_REG_OPERANDS"
    using cu(3) by (auto simp: unit_ok_def not_less)
  have op: "\<exists>k < MAX_REG_OPERANDS. x = ?src ! k \<and> o_valid (?src ! k)" if x: "x \<in> set ?src" "o_valid x" for x
    using x src high by (metis in_set_conv_nth)
  have banks: "length (a_queue (m_arbiter s)) = ?n" using ok by (simp add: rfu_oks)
  have in_range: "\<forall>x \<in> set ?src. o_valid x \<longrightarrow> o_bank x < length (a_queue (m_arbiter s))"
  proof (intro ballI impI)
    fix x assume "x \<in> set ?src" "o_valid x"
    then obtain k where "k < MAX_REG_OPERANDS" "x = ?src ! k" "o_valid (?src ! k)" using op by blast
    then show "o_bank x < length (a_queue (m_arbiter s))" using ops banks by simp
  qed
  from add_read_requests[OF in_range] obtain qs
    where adds: "each add_read_request ?src (m_arbiter s) = Some (m_arbiter s\<lparr>a_queue := qs\<rparr>)"
    "length qs = length (a_queue (m_arbiter s))"
    "\<forall>b < length qs. qs ! b = a_queue (m_arbiter s) ! b @ filter (\<lambda>x. o_valid x \<and> o_bank x = b) ?src"
    "mset (concat qs) = mset ?W + mset (filter o_valid ?src)" by (elim exE conjE)
  note qs = adds(1) adds(2)[unfolded banks] adds(3)[unfolded adds(2) banks] adds(4)
  let ?s = "?t\<lparr>m_pipeline_reg := (m_pipeline_reg s)[i := rs], m_cu := (m_cu s)[c := cu],
      m_arbiter := m_arbiter s\<lparr>a_queue := qs\<rparr>\<rparr>"
  have "allocate_unit cfg i out c s = Some (True, ?s)"
    using c io cu(1) qs(1) by (simp add: allocate_unit_def Let_def)
  have "filter o_valid ?src = map (\<lambda>k. ?src ! k) (filter (\<lambda>k. o_valid (?src ! k)) [0..<length ?src])"
    by (rule filter_nth)
  then have "map key (filter o_valid ?src) = map (\<lambda>k. key (?src ! k)) (filter (\<lambda>k. o_valid (?src ! k)) [0..<length ?src])"
    by simp
  also have "\<dots> = map (\<lambda>k. (c, k)) (filter (\<lambda>k. o_valid (?src ! k)) [0..<length ?src])"
    using ops high src by (auto simp: key_def)
  finally have keys: "map key (filter o_valid ?src) = map (Pair c) (filter (\<lambda>k. o_valid (?src ! k)) [0..<length ?src])" .
  have m: "mset (map key (concat qs)) = mset (map key ?W @ map key (filter o_valid ?src))"
    using qs(4) by (simp flip: map_append)
  have old: "\<And>k. (c, k) \<notin> missing (m_cu s)" using unit c by (simp add: missing_def unit_ok_def)
  have new_keys: "key ` set (filter o_valid ?src) = {(c, k) |k. bit (cu_not_ready cu) k}"
    using arg_cong[OF keys, of set] bits high src by auto
  have W: "distinct (map key ?W)" "key ` set ?W = missing (m_cu s)" using ok by (simp_all add: rfu_oks)
  have "distinct (map key (filter o_valid ?src))" unfolding keys by (simp add: distinct_map inj_on_def)
  then have "distinct (map key (concat qs))"
    using W old new_keys unfolding mset_eq_imp_distinct_iff[OF m] by (auto simp: )
  moreover have "key ` set (concat qs) = missing (m_cu s) \<union> {(c, k) |k. bit (cu_not_ready cu) k}"
    using mset_eq_setD[OF m] W(2) new_keys by (simp only: set_map set_append)
  moreover have "missing ((m_cu s)[c := cu]) = missing (m_cu s) \<union> {(c, k) |k. bit (cu_not_ready cu) k}"
    using old c by (auto simp: missing_def nth_list_update split: if_splits)
  ultimately have "waiting_ok ?s" by (simp add: waiting_ok_def)
  moreover have "reads_ok cfg ?s" unfolding reads_ok_def
  proof (intro allI impI ballI)
    fix b x assume b: "b < ?n" and "x \<in> set (a_queue (m_arbiter ?s) ! b)"
    then consider "x \<in> set (a_queue (m_arbiter s) ! b)" | "x \<in> set ?src" "o_valid x" "o_bank x = b" using qs(3) by auto
    then show "read_ok cfg (m_cu ?s) b x"
    proof cases
      case 1
      then have x: "read_ok cfg (m_cu s) b x" using ok b by (simp add: rfu_oks)
      moreover have "o_cu x \<noteq> Some c" using 1 queued_bit[OF ok b 1, of c] unit c by (auto simp: unit_ok_def)
      ultimately show ?thesis by (auto intro: read_ok_frame simp: nth_list_update)
    next
      case 2
      then obtain k where "k < MAX_REG_OPERANDS" "x = ?src ! k" using op by blast
      then show ?thesis using ops 2 c cu(4) by (auto simp: read_ok_def)
    qed
  qed
  moreover have "regs_ok cfg (m_pipeline_reg ?s)" using ok cu(2) by (simp add: rfu_ok_def regs_ok_update)
  moreover have "\<forall>u \<in> set (m_cu ?s). unit_ok cfg (length (m_pipeline_reg ?s)) u"
    using ok cu(3) by (auto simp: rfu_ok_def dest: set_update_subset_insert[THEN subsetD])
  moreover have "shape_ok cfg ?s" using ok qs(2) by (simp add: rfu_ok_def shape_ok_def)
  ultimately have "rfu_ok cfg ?s" using ok by (simp add: rfu_ok_def)
  moreover have "(m_cu s)[c := cu] ! c' = m_cu s ! c'" if "\<not> cu_free (m_cu s ! c')" for c'
    using that c(2) by (cases "c' = c") simp_all
  then have "queues_grow cfg s ?s" using qs(3) by (simp add: queues_grow_def)
  ultimately show ?thesis using \<open>allocate_unit cfg i out c s = Some (True, ?s)\<close> by blast
qed

lemma find_free_total:
  "\<forall>c \<in> set cs. c < length (m_cu s) \<Longrightarrow>
    \<exists>r. find_free s cs = Some r \<and> (\<forall>c. r = Some c \<longrightarrow> c < length (m_cu s) \<and> cu_free (m_cu s ! c))"
  by (induction cs) auto

lemma try_sets_ok:
  assumes "rfu_ok cfg s" "\<forall>j \<in> set js. \<forall>c \<in> set (m_cus s j). c < length (m_cu s)"
    and "i < length (m_pipeline_reg s)" "out < length (m_pipeline_reg s)" "has_ready (m_pipeline_reg s ! i)"
  shows "\<exists>s'. try_sets cfg i out js s = Some s' \<and> rfu_ok cfg s' \<and> queues_grow cfg s s'"
  using assms(2)
proof (induction js)
  case (Cons j js)
  then obtain r where r: "find_free s (m_cus s j) = Some r"
    "\<forall>c. r = Some c \<longrightarrow> c < length (m_cu s) \<and> cu_free (m_cu s ! c)" using find_free_total by (metis list.set_intros(1))
  show ?case
  proof (cases r)
    case (Some c)
    then show ?thesis using r allocate_unit_ok[OF assms(1) _ _ assms(3-5), of c] by auto
  qed (use Cons r in simp)
qed (use assms(1) in \<open>simp add: queues_grow_refl\<close>)

lemma allocate_cu_ok:
  assumes ok: "rfu_ok cfg s" and p: "p < length (m_in_ports s)"
  shows "\<exists>s'. allocate_cu cfg p s = Some s' \<and> rfu_ok cfg s' \<and> queues_grow cfg s s'"
proof -
  let ?inp = "m_in_ports s ! p"
  have inp: "\<forall>(i, out) \<in> set (ip_regs ?inp). i < length (m_pipeline_reg s) \<and> out < length (m_pipeline_reg s)"
    "\<forall>j \<in> set (ip_cu_sets ?inp). \<forall>c \<in> set (m_cus s j). c < length (m_cu s)"
    using ok nth_mem[OF p] unfolding rfu_ok_def shape_ok_def by blast+
  have "\<exists>s'. try_inputs cfg (ip_cu_sets ?inp) ps s = Some s' \<and> rfu_ok cfg s' \<and> queues_grow cfg s s'"
    if "\<forall>(i, out) \<in> set ps. i < length (m_pipeline_reg s) \<and> out < length (m_pipeline_reg s)" for ps
    using that
  proof (induction ps)
    case (Cons io ps)
    obtain i out where io: "io = (i, out)" by force
    then show ?case using Cons try_sets_ok[OF ok inp(2), of i out] by (cases "has_ready (m_pipeline_reg s ! i)") auto
  qed (use ok in \<open>simp add: queues_grow_refl\<close>)
  then show ?thesis using inp(1) p by (simp add: allocate_cu_def)
qed

lemma allocate_cus_ok:
  assumes "rfu_ok cfg s"
  shows "\<exists>s'. each (allocate_cu cfg) [0..<length (m_in_ports s)] s = Some s' \<and> rfu_ok cfg s' \<and> queues_grow cfg s s'"
proof (rule each_keeps)
  fix p t assume "p \<in> set [0..<length (m_in_ports s)]" "rfu_ok cfg t \<and> queues_grow cfg s t"
  then show "\<exists>s'. allocate_cu cfg p t = Some s' \<and> rfu_ok cfg s' \<and> queues_grow cfg s s'"
    using allocate_cu_ok[of cfg t p] queues_grow_trans by (fastforce simp: queues_grow_def[of cfg s t])
qed (use assms in \<open>simp add: queues_grow_refl\<close>)

subsection \<open>A step, a write, a run\<close>

definition banks_free :: "rfu \<Rightarrow> bool" where
  "banks_free s = (\<forall>al \<in> set (allocated_bank (m_arbiter s)). al = NO_ALLOC)"

lemma banks_free_no_reads: "banks_free s \<Longrightarrow> no_reads s"
  by (simp add: banks_free_def no_reads_def)

text \<open>The oldest read of a bank is delivered: its unit no longer waits for the operand.\<close>

lemma rfu_step_delivers:
  assumes ok: "rfu_ok cfg s" and free: "banks_free s" and b: "b < unat (num_banks cfg)"
    and q: "a_queue (m_arbiter s) ! b = x # xs" and step: "rfu_step cfg s = Some s'"
  shows "\<exists>c. o_cu x = Some c \<and> bit (cu_not_ready (m_cu s ! c)) (o_operand x) \<and>
    \<not> bit (cu_not_ready (m_cu s' ! c)) (o_operand x)"
proof -
  let ?als = "allocated_bank (m_arbiter s)" and ?qs = "a_queue (m_arbiter s)"
  obtain t where t: "dispatch_ready_cu cfg s = Some t" "rfu_ok cfg t" "m_arbiter t = m_arbiter s"
    using dispatch_ready_cu_ok[OF ok] by blast
  have idle: "no_reads t" using banks_free_no_reads[OF free] t(3) by (simp add: no_reads_def)
  obtain u where u: "rfu_allocate_reads cfg t = Some u" "rfu_ok cfg u" "delivered (set (served ?als ?qs)) (m_cu t) (m_cu u)"
    using rfu_allocate_reads_ok[OF t(2) idle] t(3) by auto
  obtain v where v: "each (allocate_cu cfg) [0..<length (m_in_ports u)] u = Some v" "queues_grow cfg u v"
    using allocate_cus_ok[OF u(2)] by blast
  have s': "s' = process_banks v" using step t u(1) v(1) by (simp add: rfu_step_def)
  have len: "length ?qs = unat (num_banks cfg)" "length ?als = length ?qs" using ok by (simp_all add: rfu_oks)
  have "read_ok cfg (m_cu t) b x" "read_ok cfg (m_cu s) b x"
    using ok t(2,3) b q by (simp_all add: rfu_oks)
  then obtain c where c: "o_cu x = Some c" "c < length (m_cu t)" "\<not> cu_free (m_cu t ! c)" by (auto simp: read_ok_def)
  have "?als ! b = NO_ALLOC" using free b len nth_mem[of b ?als] unfolding banks_free_def by simp
  then have "hd (?qs ! b) \<in> set (served ?als ?qs)"
    using b len q unfolding served_upt[OF len(2)] set_map by (intro imageI) (simp add: is_write_def)
  then have "\<not> bit (cu_not_ready (m_cu u ! c)) (o_operand x)"
    using u(3) c q by (force simp: delivered_def key_def)
  moreover have "\<not> cu_free (m_cu u ! c)" using delivered_unit[OF u(3) c(2)] c(3) by simp
  then have "m_cu s' ! c = m_cu u ! c" using v(2) by (simp add: queues_grow_def s' process_banks_def)
  moreover have "bit (cu_not_ready (m_cu s ! c)) (o_operand x)"
    using queued_bit[OF ok b, of x c] q c(1) by simp
  ultimately show ?thesis using c(1) by auto
qed

lemma rfu_step_ok:
  assumes ok: "rfu_ok cfg s" and idle: "no_reads s"
  shows "\<exists>s'. rfu_step cfg s = Some s' \<and> rfu_ok cfg s' \<and> banks_free s' \<and>
    (\<forall>b < unat (num_banks cfg). \<exists>ys. a_queue (m_arbiter s') ! b =
       (if is_write (allocated_bank (m_arbiter s) ! b) then a_queue (m_arbiter s) ! b
        else tl (a_queue (m_arbiter s) ! b)) @ ys)"
proof -
  obtain t where t: "dispatch_ready_cu cfg s = Some t" "rfu_ok cfg t" "m_arbiter t = m_arbiter s"
    using dispatch_ready_cu_ok[OF ok] by blast
  have "no_reads t" using idle t(3) by (simp add: no_reads_def)
  then obtain u where u: "rfu_allocate_reads cfg t = Some u" "rfu_ok cfg u"
    "a_queue (m_arbiter u) = unserved (allocated_bank (m_arbiter s)) (a_queue (m_arbiter s))"
    using rfu_allocate_reads_ok[OF t(2)] t(3) by auto
  obtain v where v: "each (allocate_cu cfg) [0..<length (m_in_ports u)] u = Some v" "rfu_ok cfg v" "queues_grow cfg u v"
    using allocate_cus_ok[OF u(2)] by blast
  have "rfu_step cfg s = Some (process_banks v)" using t u v by (simp add: rfu_step_def)
  moreover have "rfu_ok cfg (process_banks v)" using v(2)
    by (simp add: process_banks_def reset_allocation_def rfu_oks)
  moreover have "banks_free (process_banks v)" by (simp add: banks_free_def process_banks_def reset_allocation_def)
  moreover have "a_queue (m_arbiter (process_banks v)) = a_queue (m_arbiter v)"
    by (simp add: process_banks_def reset_allocation_def)
  moreover have "length (allocated_bank (m_arbiter s)) = length (a_queue (m_arbiter s))"
    "length (a_queue (m_arbiter s)) = unat (num_banks cfg)" using ok by (simp_all add: rfu_oks)
  ultimately show ?thesis using v(3) u(3) by (simp add: queues_grow_def unserved_nth)
qed

definition write_ok :: "rf_config \<Rightarrow> pipe_inst \<Rightarrow> bool" where
  "write_ok cfg w = (\<not> p_empty w \<and> length (arch_dst w) = MAX_REG_OPERANDS \<and> sched_ok cfg (w_scheduler_id (p_warp w)))"

lemma rfu_ok_alloc:
  "length als = length (allocated_bank (m_arbiter s)) \<Longrightarrow>
    rfu_ok cfg (s\<lparr>m_arbiter := m_arbiter s\<lparr>allocated_bank := als\<rparr>\<rparr>) = rfu_ok cfg s"
  by (simp add: rfu_oks)

lemma write_regs_ok:
  assumes "rfu_ok cfg s" "no_reads s" "write_ok cfg w" "\<forall>k \<in> set ks. k < MAX_REG_OPERANDS"
  shows "\<exists>r w' s'. write_regs cfg ks w s = Some (r, w', s') \<and> rfu_ok cfg s' \<and> no_reads s'"
  using assms
proof (induction ks arbitrary: w s)
  case (Cons k ks)
  have len: "length (arch_dst w) = MAX_REG_OPERANDS" and ne: "\<not> p_empty w"
    and sched: "sched_ok cfg (w_scheduler_id (p_warp w))" using Cons.prems(3) by (simp_all add: write_ok_def)
  show ?case
  proof (cases "0 \<le> arch_dst w ! k")
    case True
    have "cfg_ok cfg" and banks: "a_num_banks (m_arbiter s) = unat (num_banks cfg)"
      "length (allocated_bank (m_arbiter s)) = unat (num_banks cfg)" using Cons.prems(1) by (simp_all add: rfu_oks)
    then obtain b where b: "b < unat (num_banks cfg)"
      "register_bank cfg (word_of_int (arch_dst w ! k)) (w_warp_id (p_warp w)) (w_scheduler_id (p_warp w)) = Some b"
      using register_bank_total[OF _ sched] by blast
    define x where "x = \<lparr>o_valid = True, o_cu = None, o_warp = Some w, o_operand = 2 ^ 32 - 1,
      o_register = word_of_int (arch_dst w ! k), o_bank = b, o_sched = w_scheduler_id (p_warp w)\<rparr>"
    have x: "op_write cfg w (word_of_int (arch_dst w ! k)) (w_scheduler_id (p_warp w)) = Some x" "o_bank x = b"
      using b ne by (simp_all add: op_write_def x_def warp_id_def p_empty_def)
    show ?thesis
    proof (cases "allocated_bank (m_arbiter s) ! b = NO_ALLOC")
      case True
      let ?w = "w\<lparr>arch_dst := (arch_dst w)[k := - 1]\<rparr>"
      let ?als = "(allocated_bank (m_arbiter s))[b := WRITE_ALLOC x]"
      let ?s = "s\<lparr>m_arbiter := m_arbiter s\<lparr>allocated_bank := ?als\<rparr>\<rparr>"
      have "write_ok cfg ?w" using Cons.prems(3) by (simp add: write_ok_def p_empty_def)
      moreover have "no_reads ?s" using Cons.prems(2)
        by (auto simp: no_reads_def is_write_def dest!: set_update_subset_insert[THEN subsetD])
      moreover have "rfu_ok cfg ?s" using Cons.prems(1) by (simp add: rfu_ok_alloc)
      ultimately obtain r w' s' where "write_regs cfg ks ?w ?s = Some (r, w', s')" "rfu_ok cfg s'" "no_reads s'"
        using Cons.IH[of ?s ?w] Cons.prems(4) by auto
      then show ?thesis using \<open>0 \<le> arch_dst w ! k\<close> True Cons.prems(4) len x b banks
        by (simp add: bank_idle_def allocate_bank_for_write_def alloc_write_def)
    next
      case False
      then show ?thesis using \<open>0 \<le> arch_dst w ! k\<close> Cons.prems len x b banks by (auto simp: bank_idle_def)
    qed
  qed (use Cons len in simp)
qed auto

lemma writeback_ok:
  assumes "rfu_ok cfg s" "no_reads s" "write_ok cfg w"
  shows "\<exists>r w' s'. writeback cfg w s = Some (r, w', s') \<and> rfu_ok cfg s' \<and> no_reads s'"
proof -
  obtain r w' t where t: "write_regs cfg [0..<MAX_REG_OPERANDS] w s = Some (r, w', t)" "rfu_ok cfg t" "no_reads t"
    using write_regs_ok[OF assms, of "[0..<MAX_REG_OPERANDS]"] by auto
  have "\<exists>s'. each (count_write cfg w') (get_regs_written w) t = Some s' \<and> counted t s'"
  proof (rule each_keeps)
    fix k u assume "counted t u"
    then show "\<exists>s'. count_write cfg w' k u = Some s' \<and> counted t s'"
      using charged_lanes_total[of cfg "w_active_mask (p_warp w')"] assms(1)
      by (auto simp: count_write_def counted_def rfu_ok_def Let_def)
  qed (rule counted_refl)
  then obtain s' where s': "each (count_write cfg w') (get_regs_written w) t = Some s'" "counted t s'" by blast
  have "rfu_ok cfg s' \<and> no_reads s'" using counted_ok[OF s'(2)] s'(2) t by (simp add: no_reads_def counted_def)
  then show ?thesis using t s'(1) assms(3) by (cases r) (auto simp: writeback_def write_ok_def Let_def)
qed

text \<open>What happens to the unit: steps, writes of the pipelines, and the other stages of the core
  filling or draining a pipeline register.\<close>

datatype rf_event = Step | Write pipe_inst | Regs nat register_set

fun rf_do :: "rf_config \<Rightarrow> rf_event \<Rightarrow> rfu \<Rightarrow> rfu option" where
  "rf_do cfg Step s = rfu_step cfg s"
| "rf_do cfg (Write w) s = do { (r, w, s) \<leftarrow> writeback cfg w s; Some s }"
| "rf_do cfg (Regs r rs) s = Some (s\<lparr>m_pipeline_reg := (m_pipeline_reg s)[r := rs]\<rparr>)"

fun event_ok :: "rf_config \<Rightarrow> rf_event \<Rightarrow> bool" where
  "event_ok cfg Step = True"
| "event_ok cfg (Write w) = write_ok cfg w"
| "event_ok cfg (Regs r rs) = (\<forall>w \<in> set rs. \<not> p_empty w \<longrightarrow> inst_ok cfg w)"

definition rf_run :: "rf_config \<Rightarrow> rf_event list \<Rightarrow> rfu \<Rightarrow> rfu option" where
  "rf_run cfg es s = each (rf_do cfg) es s"

lemma rf_event_ok:
  assumes "rfu_ok cfg s" "no_reads s" "event_ok cfg e"
  shows "\<exists>s'. rf_do cfg e s = Some s' \<and> rfu_ok cfg s' \<and> no_reads s'"
proof (cases e)
  case Step
  then show ?thesis using rfu_step_ok[OF assms(1,2)] banks_free_no_reads by auto
next
  case (Write w)
  then show ?thesis using writeback_ok[OF assms(1,2)] assms(3) by fastforce
next
  case (Regs r rs)
  then have "rfu_ok cfg (s\<lparr>m_pipeline_reg := (m_pipeline_reg s)[r := rs]\<rparr>)"
    using assms(1,3) by (simp add: rfu_ok_def shape_ok_def reads_ok_def waiting_ok_def regs_ok_update)
  then show ?thesis using assms(2) Regs by (simp add: no_reads_def)
qed

lemma rf_run_ok:
  assumes "rfu_ok cfg s" "no_reads s" "\<forall>e \<in> set es. event_ok cfg e"
  shows "\<exists>s'. rf_run cfg es s = Some s' \<and> rfu_ok cfg s' \<and> no_reads s'"
  unfolding rf_run_def by (rule each_keeps) (use assms rf_event_ok in auto)

subsection \<open>The unit as the core builds it\<close>

definition built :: "nat \<Rightarrow> rfu \<Rightarrow> bool" where
  "built n s = ((\<forall>cu \<in> set (m_cu s). \<exists>w. p_empty w \<and> cu = cu_new w) \<and> length (m_pipeline_reg s) = n \<and>
    (\<forall>j. \<forall>c \<in> set (m_cus s j). c < length (m_cu s)) \<and>
    (\<forall>du \<in> set (m_dispatch_units s). \<forall>c \<in> set (du_units du). c < length (m_cu s)) \<and>
    (\<forall>inp \<in> set (m_in_ports s). \<forall>(i, out) \<in> set (ip_regs inp). i < n \<and> out < n))"

lemma rfu_new_built: "built (length regs) (rfu_new regs a)"
  by (simp add: built_def rfu_new_def)

lemma add_cu_set_built: "built n s \<Longrightarrow> p_empty w \<Longrightarrow> built n (add_cu_set j num_cu num_dispatch w s)"
  by (fastforce simp: built_def add_cu_set_def Let_def)

lemma add_port_built:
  assumes "built n s" "add_port input output sets s = Some s'" "\<forall>i \<in> set input \<union> set output. i < n"
  shows "built n s'"
proof -
  have "i < n \<and> out < n" if "(i, out) \<in> set (zip input output)" for i out
    using assms(3) set_zip_leftD[OF that] set_zip_rightD[OF that] by blast
  then show ?thesis using assms(1,2) by (auto simp: built_def add_port_def)
qed

lemma rfu_init_ok:
  assumes "built (length (m_pipeline_reg s)) s" "rfu_init banks num_sched sub_core ws gated group_size s = Some (cfg, s')"
    and "regs_ok cfg (m_pipeline_reg s)" "gated \<longrightarrow> 0 < group_size \<and> group_size dvd ws \<and> ws \<le> MAX_WARP_SIZE"
    and "sub_core \<longrightarrow> num_sched \<le> banks"
  shows "rfu_ok cfg s' \<and> banks_free s'"
proof -
  have cfg: "num_banks cfg = banks" "sub_core_model cfg = sub_core" "banks_per_sched cfg = banks div num_sched"
    "clock_gated_reg_file cfg = gated" "regfile_gating_group cfg = group_size" "warp_size cfg = ws" "num_sched \<noteq> 0"
    and a: "0 < length (m_cu s)" "0 < unat banks" and s': "s' = s\<lparr>m_arbiter := \<lparr>a_num_banks = unat banks,
      a_num_collectors = length (m_cu s), allocated_bank = replicate (unat banks) NO_ALLOC,
      a_queue = replicate (unat banks) [], allocator_rr_head = map (\<lambda>n. n mod unat banks) [0..<length (m_cu s)],
      a_last_cu = 0\<rparr>\<rparr>"
    using assms(2) by (auto simp: rfu_init_def arbiter_init_def rf_geometry_def Let_def bind_Some_iff)
  have "banks div num_sched \<noteq> 0" if sub_core
  proof -
    have "unat num_sched \<le> unat banks" using assms(5) that by (simp add: word_le_nat_alt)
    then have "0 < unat (banks div num_sched)" using cfg(7) by (simp add: unat_div_distrib div_greater_zero_iff unat_gt_0)
    then show ?thesis by (simp add: unat_gt_0)
  qed
  then have "cfg_ok cfg" using assms(4) a cfg by (auto simp: cfg_ok_def)
  moreover have "\<forall>cu \<in> set (m_cu s). unit_ok cfg (length (m_pipeline_reg s)) cu"
    using assms(1) by (auto simp: built_def unit_ok_def cu_new_def op_none_def)
  moreover have "missing (m_cu s) = {}"
    using assms(1) nth_mem unfolding missing_def built_def cu_new_def by fastforce
  ultimately show ?thesis using assms(1,3) a cfg
    by (auto simp: rfu_oks s' built_def banks_free_def)
qed

subsection \<open>Reads are served in the order of their queue\<close>

definition steps :: "rf_event list \<Rightarrow> nat" where
  "steps es = length (filter (\<lambda>e. e = Step) es)"

definition write_free :: "rf_event list \<Rightarrow> bool" where
  "write_free es = (\<forall>w. Write w \<notin> set es)"

lemma free_not_write:
  assumes "banks_free s" "b < length (allocated_bank (m_arbiter s))"
  shows "\<not> is_write (allocated_bank (m_arbiter s) ! b)"
proof -
  have "allocated_bank (m_arbiter s) ! b = NO_ALLOC" using assms nth_mem unfolding banks_free_def by blast
  then show ?thesis by (simp add: is_write_def)
qed

lemma run_serves:
  assumes "rfu_ok cfg s" "banks_free s" "\<forall>e \<in> set es. event_ok cfg e" "write_free es"
  shows "\<exists>s'. rf_run cfg es s = Some s' \<and> rfu_ok cfg s' \<and> banks_free s' \<and> (\<forall>b < unat (num_banks cfg).
    \<exists>ys. a_queue (m_arbiter s') ! b = drop (steps es) (a_queue (m_arbiter s) ! b) @ ys)"
  using assms
proof (induction es arbitrary: s)
  case Nil
  then show ?case by (simp add: rf_run_def steps_def)
next
  case (Cons e es)
  let ?n = "unat (num_banks cfg)" and ?k = "if e = Step then 1 else 0 :: nat"
  have "\<exists>t. rf_do cfg e s = Some t \<and> rfu_ok cfg t \<and> banks_free t \<and>
    (\<forall>b < ?n. \<exists>ys. a_queue (m_arbiter t) ! b = drop ?k (a_queue (m_arbiter s) ! b) @ ys)"
  proof (cases e)
    case Step
    have "length (allocated_bank (m_arbiter s)) = ?n" using Cons.prems(1) by (simp add: rfu_oks)
    then have "\<forall>b < ?n. \<not> is_write (allocated_bank (m_arbiter s) ! b)"
      using free_not_write[OF Cons.prems(2)] by simp
    then show ?thesis using rfu_step_ok[OF Cons.prems(1) banks_free_no_reads[OF Cons.prems(2)]] Step
      by (simp add: drop_Suc)
  next
    case (Regs r rs)
    have "event_ok cfg e" using Cons.prems(3) by simp
    from rf_event_ok[OF Cons.prems(1) banks_free_no_reads[OF Cons.prems(2)] this]
    show ?thesis using Regs Cons.prems(2) by (auto simp: banks_free_def)
  qed (use Cons.prems(4) in \<open>auto simp: write_free_def\<close>)
  then obtain t where t: "rf_do cfg e s = Some t" "rfu_ok cfg t" "banks_free t"
    "\<forall>b < ?n. \<exists>ys. a_queue (m_arbiter t) ! b = drop ?k (a_queue (m_arbiter s) ! b) @ ys" by blast
  obtain s' where s': "rf_run cfg es t = Some s'" "rfu_ok cfg s'" "banks_free s'"
    "\<forall>b < ?n. \<exists>ys. a_queue (m_arbiter s') ! b = drop (steps es) (a_queue (m_arbiter t) ! b) @ ys"
    using Cons.IH[OF t(2,3)] Cons.prems(3,4) by (auto simp: write_free_def)
  have "\<exists>ys. a_queue (m_arbiter s') ! b = drop (steps (e # es)) (a_queue (m_arbiter s) ! b) @ ys" if b: "b < ?n" for b
  proof -
    obtain ys zs where "a_queue (m_arbiter t) ! b = drop ?k (a_queue (m_arbiter s) ! b) @ ys"
      "a_queue (m_arbiter s') ! b = drop (steps es) (a_queue (m_arbiter t) ! b) @ zs" using t(4) s'(4) b by blast
    then have "a_queue (m_arbiter s') ! b = drop (steps es + ?k) (a_queue (m_arbiter s) ! b) @
        drop (steps es - length (drop ?k (a_queue (m_arbiter s) ! b))) ys @ zs" by simp
    then show ?thesis by (auto simp: steps_def)
  qed
  then show ?case using t(1) s' by (simp add: rf_run_def)
qed

section \<open>Properties\<close>

text \<open>C7: the wavefront allocator, which walks the diagonals of the matrix of requests, grants
  exactly the oldest read of every bank that has one and is not being written, whatever its priority,
  and takes those reads out of their queues; several banks may serve the same collector unit.\<close>

theorem wavefront_serves_every_bank:
  assumes "arbiter_ok a"
  shows "allocate_reads a = Some (served (allocated_bank a) (a_queue a),
    a\<lparr>a_queue := unserved (allocated_bank a) (a_queue a), a_last_cu := (a_last_cu a + 1) mod a_num_collectors a\<rparr>)"
  using assms by (rule allocate_reads_eq)

text \<open>C6: from any consistent state, no sequence of steps, register writes and refilled pipeline
  registers stops the operand collector, and afterwards the queued reads are again exactly the
  operands the collector units still miss, each once and in the bank of its register.\<close>

theorem operand_collector_loses_no_read:
  assumes "rfu_ok cfg s" "no_reads s" "\<forall>e \<in> set es. event_ok cfg e"
  shows "\<exists>s'. rf_run cfg es s = Some s' \<and> rfu_ok cfg s'"
  using rf_run_ok[OF assms] by blast

text \<open>C8: while nothing is written, every queued read is served, and in turn: the read with \<open>k\<close> others
  before it in its bank stays at its place for \<open>k\<close> steps, whatever else is queued meanwhile, and its
  collector unit, which waits for the operand until then, gets it in the next step.\<close>

theorem waiting_reads_are_served:
  assumes "rfu_ok cfg s" "banks_free s" "\<forall>e \<in> set es. event_ok cfg e" "write_free es" "b < unat (num_banks cfg)"
    and "k = steps es" "k < length (a_queue (m_arbiter s) ! b)" "x = a_queue (m_arbiter s) ! b ! k"
  shows "\<exists>t t' ys c. rf_run cfg es s = Some t \<and> rf_do cfg Step t = Some t' \<and>
    a_queue (m_arbiter t) ! b = x # drop (Suc k) (a_queue (m_arbiter s) ! b) @ ys \<and>
    o_cu x = Some c \<and> bit (cu_not_ready (m_cu t ! c)) (o_operand x) \<and> \<not> bit (cu_not_ready (m_cu t' ! c)) (o_operand x)"
proof -
  obtain t ys where t: "rf_run cfg es s = Some t" "rfu_ok cfg t" "banks_free t"
    "a_queue (m_arbiter t) ! b = drop k (a_queue (m_arbiter s) ! b) @ ys"
    using run_serves[OF assms(1-4)] assms(5,6) by blast
  have q: "a_queue (m_arbiter t) ! b = x # drop (Suc k) (a_queue (m_arbiter s) ! b) @ ys"
    unfolding t(4) assms(8) using Cons_nth_drop_Suc[OF assms(7)] by simp
  obtain t' where t': "rfu_step cfg t = Some t'" using rfu_step_ok[OF t(2) banks_free_no_reads[OF t(3)]] by blast
  then have "rf_do cfg Step t = Some t'" by simp
  then show ?thesis using rfu_step_delivers[OF t(2,3) assms(5) q t'] t(1) q by blast
qed

section \<open>Examples\<close>

definition idle_inst :: pipe_inst where
  "idle_inst = \<lparr>p_warp = \<lparr>i_pc = 0, isize = 8, i_op = ALU_OP, memory_op = no_memory_op, reconvergence_pc = 0,
     inst_out = [], outcount = 0, inst_in = [], incount = 0, inst_pred = 0, ar1 = 0, ar2 = 0,
     initiation_interval = 1, data_size = 4, i_space = undefined_space, cache_op = CACHE_UNDEFINED, w_uid = 0,
     w_empty = True, w_cache_hit = False, issue_cycle = 0, w_cycles = 0, w_isatomic = False, w_warp_id = 0,
     w_dynamic_warp_id = 0, w_active_mask = 3, w_issued_mask = 3, per_scalar_thread_valid = False,
     memreqaddr = [], mem_accesses_created = False, accessq = [], w_scheduler_id = 0\<rparr>,
     arch_src = replicate MAX_REG_OPERANDS (- 1), arch_dst = replicate MAX_REG_OPERANDS (- 1), p_decoded = False,
     num_operands = 0, num_regs = 0\<rparr>"

text \<open>An instruction of warp 0 that reads registers 1, 2 and 3, and one that writes register 4.\<close>

definition add_inst :: pipe_inst where
  "add_inst = idle_inst\<lparr>p_warp := (p_warp idle_inst)\<lparr>w_empty := False, w_uid := 1\<rparr>,
     arch_src := [1, 2, 3] @ replicate 29 (- 1), p_decoded := True, num_operands := 3, num_regs := 3\<rparr>"

definition done_inst :: pipe_inst where
  "done_inst = idle_inst\<lparr>p_warp := (p_warp idle_inst)\<lparr>w_empty := False, w_uid := 2\<rparr>,
     arch_dst := 4 # replicate 31 (- 1), p_decoded := True\<rparr>"

definition two_bank_cfg :: rf_config where
  "two_bank_cfg = \<lparr>num_banks = 2, bank_warp_shift = 2, sub_core_model = False, banks_per_sched = 2, warp_size = 4,
     clock_gated_reg_file = True, regfile_gating_group = 2\<rparr>"

definition empty_rfu :: rfu where
  "empty_rfu = rfu_new [[idle_inst], [idle_inst]] \<lparr>a_num_banks = 0, a_num_collectors = 0, allocated_bank = [],
     a_queue = [], allocator_rr_head = [], a_last_cu = 0\<rparr>"

definition unit_rfu :: rfu where
  "unit_rfu = the (add_port [0] [1] [6] (add_cu_set 6 2 1 idle_inst empty_rfu))"

definition small_rfu :: rfu where
  "small_rfu = snd (the (rfu_init 2 1 False 4 True 2 unit_rfu))"

lemma idle_empty: "p_empty idle_inst"
  by (simp add: p_empty_def idle_inst_def)

lemma small_rfu_ok: "rfu_ok two_bank_cfg small_rfu \<and> banks_free small_rfu"
proof -
  let ?s = "add_cu_set 6 2 1 idle_inst empty_rfu"
  have t: "add_port [0] [1] [6] ?s = Some unit_rfu" by (simp add: add_port_def unit_rfu_def)
  have regs: "m_pipeline_reg unit_rfu = [[idle_inst], [idle_inst]]"
    by (simp add: unit_rfu_def add_port_def add_cu_set_def empty_rfu_def rfu_new_def Let_def)
  have units: "length (m_cu unit_rfu) = 2"
    by (simp add: unit_rfu_def add_port_def add_cu_set_def empty_rfu_def rfu_new_def Let_def)
  have "built 2 empty_rfu" using rfu_new_built[of "[[idle_inst], [idle_inst]]"] by (simp add: empty_rfu_def numeral_2_eq_2)
  then have "built 2 ?s" by (rule add_cu_set_built[OF _ idle_empty])
  then have "built 2 unit_rfu" by (rule add_port_built[OF _ t]) simp
  then have built: "built (length (m_pipeline_reg unit_rfu)) unit_rfu" by (simp add: regs numeral_2_eq_2)
  have "rf_geometry 2 1 False 4 True 2 = Some two_bank_cfg" by code_simp
  then have init: "rfu_init 2 1 False 4 True 2 unit_rfu = Some (two_bank_cfg, small_rfu)"
    by (simp add: small_rfu_def rfu_init_def arbiter_init_def units)
  show ?thesis by (rule rfu_init_ok[OF built init]) (simp_all add: regs regs_ok_def idle_empty)
qed

lemma add_inst_ok: "inst_ok two_bank_cfg add_inst" "write_ok two_bank_cfg done_inst"
  by (simp_all add: inst_ok_def sched_ok_def write_ok_def p_empty_def add_inst_def done_inst_def idle_inst_def two_bank_cfg_def)

theorem operand_collector_loses_no_read_witness:
  "\<exists>s'. rf_run two_bank_cfg [Regs 0 [add_inst], Step, Write done_inst, Step, Step] small_rfu = Some s' \<and>
    rfu_ok two_bank_cfg s'"
  by (rule operand_collector_loses_no_read) (use small_rfu_ok banks_free_no_reads add_inst_ok in auto)

text \<open>After the instruction has entered a unit, two reads wait in one bank and one in the other.\<close>

definition filled_rfu :: rfu where
  "filled_rfu = the (rf_run two_bank_cfg [Regs 0 [add_inst], Step] small_rfu)"

lemma filled_rfu_ok: "rfu_ok two_bank_cfg filled_rfu" "banks_free filled_rfu"
  using run_serves[of two_bank_cfg small_rfu "[Regs 0 [add_inst], Step]"] small_rfu_ok add_inst_ok
  by (auto simp: filled_rfu_def write_free_def)

lemma filled_queues: "map (map o_register) (a_queue (m_arbiter filled_rfu)) = [[2], [1, 3]]"
  by code_simp

theorem wavefront_serves_every_bank_witness:
  "\<exists>a'. allocate_reads (m_arbiter filled_rfu) = Some (served (allocated_bank (m_arbiter filled_rfu))
      (a_queue (m_arbiter filled_rfu)), a') \<and>
    map o_register (served (allocated_bank (m_arbiter filled_rfu)) (a_queue (m_arbiter filled_rfu))) = [2, 1]"
proof -
  have "map o_register (served (allocated_bank (m_arbiter filled_rfu)) (a_queue (m_arbiter filled_rfu))) = [2, 1]"
    by code_simp
  then show ?thesis using wavefront_serves_every_bank[OF rfu_fronts[OF filled_rfu_ok(1)]] by simp
qed

text \<open>Register 3 waits behind register 1.\<close>

lemma filled_second: "length (a_queue (m_arbiter filled_rfu) ! 1) = 2" "o_register (a_queue (m_arbiter filled_rfu) ! 1 ! 1) = 3"
proof -
  have "map o_register (a_queue (m_arbiter filled_rfu) ! 1) = map (map o_register) (a_queue (m_arbiter filled_rfu)) ! 1"
    using filled_queues by (metis nth_map length_map length_Cons lessI list.size(3) One_nat_def)
  then have q: "map o_register (a_queue (m_arbiter filled_rfu) ! 1) = [1, 3]" by (simp add: filled_queues)
  then show "length (a_queue (m_arbiter filled_rfu) ! 1) = 2" by (metis length_map length_Cons list.size(3) numeral_2_eq_2)
  then show "o_register (a_queue (m_arbiter filled_rfu) ! 1 ! 1) = 3" using arg_cong[OF q, of "\<lambda>xs. xs ! 1"] by simp
qed

theorem waiting_reads_are_served_witness:
  "\<exists>(x :: op) t t' c. o_register x = 3 \<and> rf_run two_bank_cfg [Step] filled_rfu = Some t \<and> rf_do two_bank_cfg Step t = Some t' \<and>
    o_cu x = Some c \<and> bit (cu_not_ready (m_cu t ! c)) (o_operand x) \<and> \<not> bit (cu_not_ready (m_cu t' ! c)) (o_operand x)"
proof -
  have "steps [Step] = 1" "write_free [Step]" "\<forall>e \<in> set [Step]. event_ok two_bank_cfg e"
    "1 < unat (num_banks two_bank_cfg)" "1 < length (a_queue (m_arbiter filled_rfu) ! 1)"
    unfolding filled_second(1) by (simp_all add: steps_def write_free_def two_bank_cfg_def)
  then obtain t t' ys c where "rf_run two_bank_cfg [Step] filled_rfu = Some t" "rf_do two_bank_cfg Step t = Some t'"
    "o_cu (a_queue (m_arbiter filled_rfu) ! 1 ! 1) = Some c"
    "bit (cu_not_ready (m_cu t ! c)) (o_operand (a_queue (m_arbiter filled_rfu) ! 1 ! 1))"
    "\<not> bit (cu_not_ready (m_cu t' ! c)) (o_operand (a_queue (m_arbiter filled_rfu) ! 1 ! 1))"
    using waiting_reads_are_served[OF filled_rfu_ok, of "[Step]" 1 1, OF _ _ _ _ _ refl]
    by (auto simp del: rf_do.simps One_nat_def)
  then show ?thesis using filled_second(2) by blast
qed

end
