(* ===== verification/PowerCore.thy ===== *)
theory PowerCore
  imports WarpInst
begin

text \<open>
  The activity counters of the cores behind the power model (\<open>power_core_stat_t\<close> and the readings of
  \<open>power_stat_t\<close> in \<open>power_stat.h\<close> and \<open>power_stat.cc\<close>). Every counter is an array with one element
  per core, kept twice: the current array is the live one of the simulator, the previous one is what
  \<open>save_stats\<close> copied at the last sample. A reading is the difference of the two in 32 bits.

  \<open>'f\<close> and \<open>'d\<close> stand for \<open>float\<close> and \<open>double\<close>: the counters of this theory are integers, and the floating
  point arrays are only copied and read. The model is partial where an index leaves its array.
\<close>

section \<open>Counters\<close>

datatype stat_idx = CURRENT_STAT_IDX | PREV_STAT_IDX

datatype core_counter =
  m_num_decoded_insn | m_num_FPdecoded_insn | m_num_INTdecoded_insn | m_num_storequeued_insn
| m_num_loadqueued_insn | m_num_ialu_acesses | m_num_fp_acesses | m_num_tex_inst
| m_num_imul_acesses | m_num_imul32_acesses | m_num_imul24_acesses | m_num_fpmul_acesses
| m_num_idiv_acesses | m_num_fpdiv_acesses | m_num_sp_acesses | m_num_sfu_acesses
| m_num_trans_acesses | m_num_mem_acesses | m_num_sp_committed | m_num_sfu_committed
| m_num_mem_committed | m_active_sp_lanes | m_active_sfu_lanes | m_read_regfile_acesses
| m_write_regfile_acesses | m_non_rf_operands | m_alu_cntr | m_decode_cntr
| m_fp_cntr | m_sp_cntr | m_dp_cntr | m_imul32_cntr
| m_sfu_cntr | m_rf_cntr

record ('f, 'd) power_core_stat =
  num_shader :: nat
  g_num_flp_blocks :: nat
  gpgpu_num_sp_units :: u32
  gpgpu_num_sfu_units :: u32
  core_counts :: "stat_idx \<Rightarrow> core_counter \<Rightarrow> u32 list"
  m_pipeline_duty_cycle :: "stat_idx \<Rightarrow> 'f list"
  m_block_power :: "stat_idx \<Rightarrow> 'd list"
  m_block_temp :: "stat_idx \<Rightarrow> 'd list"

text \<open>The arrays of the simulator are shared, those of the last sample start at 0.\<close>

definition power_core_init ::
  "nat \<Rightarrow> nat \<Rightarrow> u32 \<Rightarrow> u32 \<Rightarrow> (core_counter \<Rightarrow> u32 list) \<Rightarrow> 'f::zero list \<Rightarrow> ('f, 'd::zero) power_core_stat" where
  "power_core_init n flp sp sfu live duty = \<lparr>num_shader = n, g_num_flp_blocks = flp,
     gpgpu_num_sp_units = sp, gpgpu_num_sfu_units = sfu,
     core_counts = (\<lambda>k c. case k of CURRENT_STAT_IDX \<Rightarrow> live c | PREV_STAT_IDX \<Rightarrow> replicate n 0),
     m_pipeline_duty_cycle = (\<lambda>k. case k of CURRENT_STAT_IDX \<Rightarrow> duty | PREV_STAT_IDX \<Rightarrow> replicate n 0),
     m_block_power = (\<lambda>_. replicate flp 0), m_block_temp = (\<lambda>_. replicate flp 0)\<rparr>"

section \<open>Saving a sample\<close>

text \<open>The counters in the order in which \<open>save_stats\<close> copies them.\<close>

definition saved_counters :: "core_counter list" where
  "saved_counters = [
     m_num_decoded_insn, m_num_FPdecoded_insn, m_num_INTdecoded_insn, m_num_storequeued_insn,
     m_num_loadqueued_insn, m_num_ialu_acesses, m_num_fp_acesses, m_num_tex_inst,
     m_num_imul_acesses, m_num_imul24_acesses, m_num_imul32_acesses, m_num_fpmul_acesses,
     m_num_idiv_acesses, m_num_fpdiv_acesses, m_num_sp_acesses, m_num_sfu_acesses,
     m_num_trans_acesses, m_num_mem_acesses, m_num_sp_committed, m_num_sfu_committed,
     m_num_mem_committed, m_read_regfile_acesses, m_write_regfile_acesses, m_non_rf_operands,
     m_active_sp_lanes, m_active_sfu_lanes, m_alu_cntr, m_decode_cntr,
     m_fp_cntr, m_sp_cntr, m_dp_cntr, m_imul32_cntr,
     m_sfu_cntr, m_rf_cntr]"

text \<open>\<open>a[PREV_STAT_IDX][i] = a[CURRENT_STAT_IDX][i]\<close>.\<close>

definition save_elem :: "nat \<Rightarrow> (stat_idx \<Rightarrow> 'a list) \<Rightarrow> (stat_idx \<Rightarrow> 'a list) option" where
  "save_elem i a = do {
     v \<leftarrow> at (a CURRENT_STAT_IDX) i;
     xs \<leftarrow> put (a PREV_STAT_IDX) i v;
     Some (a(PREV_STAT_IDX := xs)) }"

definition save_counter :: "nat \<Rightarrow> core_counter \<Rightarrow> ('f, 'd) power_core_stat \<Rightarrow> ('f, 'd) power_core_stat option" where
  "save_counter i c s = do {
     a \<leftarrow> save_elem i (\<lambda>k. core_counts s k c);
     Some (s\<lparr>core_counts := (\<lambda>k. (core_counts s k)(c := a k))\<rparr>) }"

definition save_core :: "nat \<Rightarrow> ('f, 'd) power_core_stat \<Rightarrow> ('f, 'd) power_core_stat option" where
  "save_core i s = do {
     duty \<leftarrow> save_elem i (m_pipeline_duty_cycle s);
     let s = s\<lparr>m_pipeline_duty_cycle := duty\<rparr>;
     s \<leftarrow> each (save_counter i) saved_counters s;
     power \<leftarrow> save_elem i (m_block_power s);
     let s = s\<lparr>m_block_power := power\<rparr>;
     temp \<leftarrow> save_elem i (m_block_temp s);
     Some (s\<lparr>m_block_temp := temp\<rparr>) }"

definition core_save_stats :: "('f, 'd) power_core_stat \<Rightarrow> ('f, 'd) power_core_stat option" where
  "core_save_stats s = each save_core [0..<num_shader s] s"

section \<open>Readings\<close>

definition delta :: "core_counter \<Rightarrow> nat \<Rightarrow> ('f, 'd) power_core_stat \<Rightarrow> u32 option" where
  "delta c i s = do {
     a \<leftarrow> at (core_counts s CURRENT_STAT_IDX c) i;
     b \<leftarrow> at (core_counts s PREV_STAT_IDX c) i;
     Some (a - b) }"

text \<open>The readings of one core check its number.\<close>

definition sm_delta :: "core_counter \<Rightarrow> nat \<Rightarrow> ('f, 'd) power_core_stat \<Rightarrow> u32 option" where
  "sm_delta c i s = do { ensure (i < num_shader s); delta c i s }"

definition get_tot_alu_accessess :: "nat \<Rightarrow> ('f, 'd) power_core_stat \<Rightarrow> u32 option" where
  "get_tot_alu_accessess = sm_delta m_alu_cntr"

definition get_tot_decode_accessess :: "nat \<Rightarrow> ('f, 'd) power_core_stat \<Rightarrow> u32 option" where
  "get_tot_decode_accessess = sm_delta m_decode_cntr"

definition get_tot_fp_accessess :: "nat \<Rightarrow> ('f, 'd) power_core_stat \<Rightarrow> u32 option" where
  "get_tot_fp_accessess = sm_delta m_fp_cntr"

definition get_tot_sp_accessess :: "nat \<Rightarrow> ('f, 'd) power_core_stat \<Rightarrow> u32 option" where
  "get_tot_sp_accessess = sm_delta m_sp_cntr"

definition get_tot_dp_accessess :: "nat \<Rightarrow> ('f, 'd) power_core_stat \<Rightarrow> u32 option" where
  "get_tot_dp_accessess = sm_delta m_dp_cntr"

definition get_tot_imul32_accessess :: "nat \<Rightarrow> ('f, 'd) power_core_stat \<Rightarrow> u32 option" where
  "get_tot_imul32_accessess = sm_delta m_imul32_cntr"

definition get_tot_sfu_accessess :: "nat \<Rightarrow> ('f, 'd) power_core_stat \<Rightarrow> u32 option" where
  "get_tot_sfu_accessess = sm_delta m_sfu_cntr"

definition get_tot_rf_accessess :: "nat \<Rightarrow> ('f, 'd) power_core_stat \<Rightarrow> u32 option" where
  "get_tot_rf_accessess = sm_delta m_rf_cntr"

definition get_total_inst :: "nat \<Rightarrow> ('f, 'd) power_core_stat \<Rightarrow> u32 option" where
  "get_total_inst = sm_delta m_num_decoded_insn"

text \<open>The readings of the whole chip add up the cores, and the counters that belong together.\<close>

fun sum_opt :: "u32 option list \<Rightarrow> u32 option" where
  "sum_opt [] = Some 0"
| "sum_opt (x # xs) = do { v \<leftarrow> x; t \<leftarrow> sum_opt xs; Some (v + t) }"

definition total_delta :: "core_counter list \<Rightarrow> ('f, 'd) power_core_stat \<Rightarrow> u32 option" where
  "total_delta cs s = sum_opt (map (\<lambda>i. sum_opt (map (\<lambda>c. delta c i s) cs)) [0..<num_shader s])"

definition get_total_inst_all :: "('f, 'd) power_core_stat \<Rightarrow> u32 option" where
  "get_total_inst_all = total_delta [m_num_decoded_insn]"

definition get_total_int_inst :: "('f, 'd) power_core_stat \<Rightarrow> u32 option" where
  "get_total_int_inst = total_delta [m_num_INTdecoded_insn]"

definition get_total_fp_inst :: "('f, 'd) power_core_stat \<Rightarrow> u32 option" where
  "get_total_fp_inst = total_delta [m_num_FPdecoded_insn]"

definition get_total_load_inst :: "('f, 'd) power_core_stat \<Rightarrow> u32 option" where
  "get_total_load_inst = total_delta [m_num_loadqueued_insn]"

definition get_total_store_inst :: "('f, 'd) power_core_stat \<Rightarrow> u32 option" where
  "get_total_store_inst = total_delta [m_num_storequeued_insn]"

definition get_sp_committed_inst :: "('f, 'd) power_core_stat \<Rightarrow> u32 option" where
  "get_sp_committed_inst = total_delta [m_num_sp_committed]"

definition get_sfu_committed_inst :: "('f, 'd) power_core_stat \<Rightarrow> u32 option" where
  "get_sfu_committed_inst = total_delta [m_num_sfu_committed]"

definition get_mem_committed_inst :: "('f, 'd) power_core_stat \<Rightarrow> u32 option" where
  "get_mem_committed_inst = total_delta [m_num_mem_committed]"

definition get_committed_inst :: "('f, 'd) power_core_stat \<Rightarrow> u32 option" where
  "get_committed_inst = total_delta [m_num_mem_committed, m_num_sfu_committed, m_num_sp_committed]"

definition get_regfile_reads :: "('f, 'd) power_core_stat \<Rightarrow> u32 option" where
  "get_regfile_reads = total_delta [m_read_regfile_acesses]"

definition get_regfile_writes :: "('f, 'd) power_core_stat \<Rightarrow> u32 option" where
  "get_regfile_writes = total_delta [m_write_regfile_acesses]"

definition get_non_regfile_operands :: "('f, 'd) power_core_stat \<Rightarrow> u32 option" where
  "get_non_regfile_operands = total_delta [m_non_rf_operands]"

definition get_sp_accessess :: "('f, 'd) power_core_stat \<Rightarrow> u32 option" where
  "get_sp_accessess = total_delta [m_num_sp_acesses]"

definition get_sfu_accessess :: "('f, 'd) power_core_stat \<Rightarrow> u32 option" where
  "get_sfu_accessess = total_delta [m_num_sfu_acesses]"

definition get_trans_accessess :: "('f, 'd) power_core_stat \<Rightarrow> u32 option" where
  "get_trans_accessess = total_delta [m_num_trans_acesses]"

definition get_mem_accessess :: "('f, 'd) power_core_stat \<Rightarrow> u32 option" where
  "get_mem_accessess = total_delta [m_num_mem_acesses]"

definition get_intdiv_accessess :: "('f, 'd) power_core_stat \<Rightarrow> u32 option" where
  "get_intdiv_accessess = total_delta [m_num_idiv_acesses]"

definition get_fpdiv_accessess :: "('f, 'd) power_core_stat \<Rightarrow> u32 option" where
  "get_fpdiv_accessess = total_delta [m_num_fpdiv_acesses]"

definition get_intmul32_accessess :: "('f, 'd) power_core_stat \<Rightarrow> u32 option" where
  "get_intmul32_accessess = total_delta [m_num_imul32_acesses]"

definition get_intmul24_accessess :: "('f, 'd) power_core_stat \<Rightarrow> u32 option" where
  "get_intmul24_accessess = total_delta [m_num_imul24_acesses]"

definition get_intmul_accessess :: "('f, 'd) power_core_stat \<Rightarrow> u32 option" where
  "get_intmul_accessess = total_delta [m_num_imul_acesses, m_num_imul24_acesses, m_num_imul32_acesses]"

definition get_fpmul_accessess :: "('f, 'd) power_core_stat \<Rightarrow> u32 option" where
  "get_fpmul_accessess = total_delta [m_num_fp_acesses]"

definition get_tot_sfu_accessess_all :: "('f, 'd) power_core_stat \<Rightarrow> u32 option" where
  "get_tot_sfu_accessess_all = total_delta [m_num_idiv_acesses, m_num_imul32_acesses, m_num_trans_acesses]"

definition get_ialu_accessess :: "('f, 'd) power_core_stat \<Rightarrow> u32 option" where
  "get_ialu_accessess = total_delta [m_num_ialu_acesses]"

definition get_tex_inst :: "('f, 'd) power_core_stat \<Rightarrow> u32 option" where
  "get_tex_inst = total_delta [m_num_tex_inst]"

definition get_tot_fpu_accessess :: "('f, 'd) power_core_stat \<Rightarrow> u32 option" where
  "get_tot_fpu_accessess s = do {
     t \<leftarrow> total_delta [m_num_fp_acesses, m_num_fpdiv_acesses, m_num_fpmul_acesses, m_num_imul24_acesses, m_num_imul_acesses] s;
     load \<leftarrow> get_total_load_inst s;
     store \<leftarrow> get_total_store_inst s;
     tex \<leftarrow> get_tex_inst s;
     Some (t + (load + store + tex)) }"

text \<open>The integer quotients that these two functions convert to \<open>float\<close>.\<close>

definition get_sp_active_lanes :: "('f, 'd) power_core_stat \<Rightarrow> u32 option" where
  "get_sp_active_lanes s = do {
     t \<leftarrow> total_delta [m_active_sp_lanes] s;
     ensure ((of_nat (num_shader s) :: u32) \<noteq> 0 \<and> gpgpu_num_sp_units s \<noteq> 0);
     Some (t div of_nat (num_shader s) div gpgpu_num_sp_units s) }"

definition get_sfu_active_lanes :: "('f, 'd) power_core_stat \<Rightarrow> u32 option" where
  "get_sfu_active_lanes s = do {
     t \<leftarrow> total_delta [m_active_sfu_lanes] s;
     ensure ((of_nat (num_shader s) :: u32) \<noteq> 0 \<and> gpgpu_num_sfu_units s \<noteq> 0);
     Some (t div of_nat (num_shader s) div gpgpu_num_sfu_units s) }"

text \<open>The sum over the cores in \<open>float\<close> arithmetic, from the left.\<close>

definition get_pipeline_duty :: "('f::{zero, plus, minus}, 'd) power_core_stat \<Rightarrow> 'f option" where
  "get_pipeline_duty s = fold (\<lambda>i t. do {
     t \<leftarrow> t;
     a \<leftarrow> at (m_pipeline_duty_cycle s CURRENT_STAT_IDX) i;
     b \<leftarrow> at (m_pipeline_duty_cycle s PREV_STAT_IDX) i;
     Some (t + (a - b)) }) [0..<num_shader s] (Some 0)"

section \<open>Power and temperature of the blocks of the floorplan\<close>

text \<open>\<open>update_power\<close> reads uninitialised elements of its argument as failures.\<close>

definition update_power :: "'d option list \<Rightarrow> ('f, 'd) power_core_stat \<Rightarrow> ('f, 'd) power_core_stat option" where
  "update_power vals s = each (\<lambda>i s. do {
     v \<leftarrow> at vals i;
     v \<leftarrow> v;
     xs \<leftarrow> put (m_block_power s CURRENT_STAT_IDX) i v;
     Some (s\<lparr>m_block_power := (m_block_power s)(CURRENT_STAT_IDX := xs)\<rparr>) }) [0..<g_num_flp_blocks s] s"

definition get_power :: "nat \<Rightarrow> ('f, 'd) power_core_stat \<Rightarrow> 'd option" where
  "get_power block_id s = do { ensure (block_id < g_num_flp_blocks s); at (m_block_power s CURRENT_STAT_IDX) block_id }"

definition set_temp :: "'d \<Rightarrow> nat \<Rightarrow> ('f, 'd) power_core_stat \<Rightarrow> ('f, 'd) power_core_stat option" where
  "set_temp temp block_id s = do {
     ensure (block_id < g_num_flp_blocks s);
     xs \<leftarrow> put (m_block_temp s CURRENT_STAT_IDX) block_id temp;
     Some (s\<lparr>m_block_temp := (m_block_temp s)(CURRENT_STAT_IDX := xs)\<rparr>) }"

section \<open>A sample copies every array\<close>

definition core_ok :: "('f, 'd) power_core_stat \<Rightarrow> bool" where
  "core_ok s \<longleftrightarrow> num_shader s \<le> g_num_flp_blocks s \<and>
     (\<forall>k. (\<forall>c. length (core_counts s k c) = num_shader s) \<and>
          length (m_pipeline_duty_cycle s k) = num_shader s \<and>
          length (m_block_power s k) = g_num_flp_blocks s \<and>
          length (m_block_temp s k) = g_num_flp_blocks s)"

text \<open>The array after the first \<open>n\<close> elements have been copied.\<close>

definition copy_to :: "nat \<Rightarrow> (stat_idx \<Rightarrow> 'a list) \<Rightarrow> stat_idx \<Rightarrow> 'a list" where
  "copy_to n a = a(PREV_STAT_IDX := take n (a CURRENT_STAT_IDX) @ drop n (a PREV_STAT_IDX))"

lemma copy_to_current [simp]: "copy_to n a CURRENT_STAT_IDX = a CURRENT_STAT_IDX"
  by (simp add: copy_to_def)

lemma copy_to_0 [simp]: "copy_to 0 a = a"
  by (simp add: copy_to_def)

lemma copy_to_length [simp]:
  "length (a PREV_STAT_IDX) = length (a CURRENT_STAT_IDX) \<Longrightarrow> length (copy_to n a k) = length (a k)"
  by (cases k) (simp_all add: copy_to_def)

lemma copy_to_all:
  "length (a CURRENT_STAT_IDX) = n \<Longrightarrow> length (a PREV_STAT_IDX) = n \<Longrightarrow> copy_to n a PREV_STAT_IDX = a CURRENT_STAT_IDX"
  by (simp add: copy_to_def)

lemma save_elem_copy_to:
  assumes "m < length (a CURRENT_STAT_IDX)" "length (a PREV_STAT_IDX) = length (a CURRENT_STAT_IDX)"
  shows "save_elem m (copy_to m a) = Some (copy_to (Suc m) a)"
proof -
  have "(take m (a CURRENT_STAT_IDX) @ drop m (a PREV_STAT_IDX))[m := a CURRENT_STAT_IDX ! m] =
      take (Suc m) (a CURRENT_STAT_IDX) @ drop (Suc m) (a PREV_STAT_IDX)"
    using assms by (simp add: list_update_append take_Suc_conv_app_nth flip: Cons_nth_drop_Suc)
  thus ?thesis using assms by (simp add: save_elem_def copy_to_def)
qed

lemma save_counters:
  assumes "distinct cs" "\<forall>c \<in> set cs. save_elem i (\<lambda>k. core_counts s k c) = Some (new c)"
  shows "each (save_counter i) cs s =
    Some (s\<lparr>core_counts := (\<lambda>k c. if c \<in> set cs then new c k else core_counts s k c)\<rparr>)"
  using assms
proof (induction cs arbitrary: s)
  case (Cons c cs)
  let ?s = "s\<lparr>core_counts := (\<lambda>k. (core_counts s k)(c := new c k))\<rparr>"
  have "save_counter i c s = Some ?s" using Cons.prems(2) by (simp add: save_counter_def)
  moreover have "\<forall>d \<in> set cs. save_elem i (\<lambda>k. core_counts ?s k d) = Some (new d)"
  proof
    fix d assume d: "d \<in> set cs"
    hence "d \<noteq> c" using Cons.prems(1) by auto
    thus "save_elem i (\<lambda>k. core_counts ?s k d) = Some (new d)" using d Cons.prems(2) by simp
  qed
  moreover have "(\<lambda>k d. if d \<in> set cs then new d k else core_counts ?s k d) =
      (\<lambda>k d. if d \<in> set (c # cs) then new d k else core_counts s k d)"
    by (auto simp: fun_eq_iff)
  ultimately show ?case using Cons.IH[of ?s] Cons.prems(1) by simp
qed simp

lemma saved_counters_all: "set saved_counters = UNIV" "distinct saved_counters"
proof -
  have "c \<in> set saved_counters" for c by (cases c) (simp_all add: saved_counters_def)
  thus "set saved_counters = UNIV" by auto
  show "distinct saved_counters" by (simp add: saved_counters_def)
qed

definition saved_upto :: "nat \<Rightarrow> ('f, 'd) power_core_stat \<Rightarrow> ('f, 'd) power_core_stat" where
  "saved_upto m s = s\<lparr>core_counts := (\<lambda>k c. copy_to m (\<lambda>k. core_counts s k c) k),
     m_pipeline_duty_cycle := copy_to m (m_pipeline_duty_cycle s),
     m_block_power := copy_to m (m_block_power s), m_block_temp := copy_to m (m_block_temp s)\<rparr>"

lemma save_core_upto:
  assumes "core_ok s" "m < num_shader s"
  shows "save_core m (saved_upto m s) = Some (saved_upto (Suc m) s)"
proof -
  have "\<forall>c \<in> set saved_counters. save_elem m (\<lambda>k. core_counts (saved_upto m s) k c) = Some (copy_to (Suc m) (\<lambda>k. core_counts s k c))"
    using assms by (auto simp: saved_upto_def core_ok_def intro!: save_elem_copy_to)
  thus ?thesis
    using assms by (simp add: save_core_def saved_upto_def core_ok_def save_elem_copy_to Let_def saved_counters_all
        save_counters[where new = "\<lambda>c. copy_to (Suc m) (\<lambda>k. core_counts s k c)"])
qed

lemma each_upto:
  assumes "\<And>m. m < n \<Longrightarrow> f m (g m) = Some (g (Suc m))"
  shows "each f [0..<n] (g 0) = Some (g n)"
proof -
  have "m \<le> n \<Longrightarrow> each f [m..<n] (g m) = Some (g n)" for m
  proof (induction "n - m" arbitrary: m)
    case (Suc k)
    hence "m < n" by simp
    thus ?case using Suc assms by (simp add: upt_conv_Cons)
  qed simp
  thus ?thesis by blast
qed

lemma core_save_stats_eq:
  assumes "core_ok s"
  shows "core_save_stats s = Some (saved_upto (num_shader s) s)"
  using each_upto[where f = save_core and g = "\<lambda>m. saved_upto m s" and n = "num_shader s"] save_core_upto[OF assms]
  by (simp add: core_save_stats_def saved_upto_def)

lemma saved_upto_facts [simp]:
  "num_shader (saved_upto m s) = num_shader s" "g_num_flp_blocks (saved_upto m s) = g_num_flp_blocks s"
  "core_counts (saved_upto m s) CURRENT_STAT_IDX = core_counts s CURRENT_STAT_IDX"
  "m_block_power (saved_upto m s) CURRENT_STAT_IDX = m_block_power s CURRENT_STAT_IDX"
  by (auto simp: saved_upto_def fun_eq_iff)

lemma saved_ok: "core_ok s \<Longrightarrow> core_ok (saved_upto m s)"
  by (simp add: core_ok_def saved_upto_def)

lemma saved_prev: "core_ok s \<Longrightarrow> core_counts (saved_upto (num_shader s) s) PREV_STAT_IDX c = core_counts s CURRENT_STAT_IDX c"
  by (simp add: saved_upto_def core_ok_def copy_to_all)

lemma delta_eq:
  "core_ok s \<Longrightarrow> i < num_shader s \<Longrightarrow> delta c i s = Some (core_counts s CURRENT_STAT_IDX c ! i - core_counts s PREV_STAT_IDX c ! i)"
  by (simp add: delta_def core_ok_def)

section \<open>Activity between samples\<close>

text \<open>
  While the simulator runs, it increments the current counters, by \<open>w c i\<close> for counter \<open>c\<close> of core \<open>i\<close>; a
  sample reads them and saves them. \<open>activity\<close> lists how much was really counted before each sample.
\<close>

datatype core_event = Work "core_counter \<Rightarrow> nat \<Rightarrow> nat" | Sample

definition advance :: "(core_counter \<Rightarrow> nat \<Rightarrow> nat) \<Rightarrow> ('f, 'd) power_core_stat \<Rightarrow> ('f, 'd) power_core_stat" where
  "advance w s = s\<lparr>core_counts := (core_counts s)(CURRENT_STAT_IDX :=
     (\<lambda>c. map (\<lambda>i. core_counts s CURRENT_STAT_IDX c ! i + of_nat (w c i)) [0..<length (core_counts s CURRENT_STAT_IDX c)]))\<rparr>"

fun core_run :: "core_event list \<Rightarrow> ('f, 'd) power_core_stat \<Rightarrow> ((core_counter \<Rightarrow> nat \<Rightarrow> u32 option) list \<times> ('f, 'd) power_core_stat) option" where
  "core_run [] s = Some ([], s)"
| "core_run (Work w # es) s = core_run es (advance w s)"
| "core_run (Sample # es) s = do {
     s' \<leftarrow> core_save_stats s;
     (rs, t) \<leftarrow> core_run es s';
     Some ((\<lambda>c i. sm_delta c i s) # rs, t) }"

fun activity :: "core_event list \<Rightarrow> (core_counter \<Rightarrow> nat \<Rightarrow> nat) \<Rightarrow> (core_counter \<Rightarrow> nat \<Rightarrow> nat) list" where
  "activity [] a = []"
| "activity (Work w # es) a = activity es (\<lambda>c i. a c i + w c i)"
| "activity (Sample # es) a = a # activity es (\<lambda>_ _. 0)"

lemma advance_facts [simp]:
  "num_shader (advance w s) = num_shader s" "core_ok s \<Longrightarrow> core_ok (advance w s)"
  "core_counts (advance w s) PREV_STAT_IDX = core_counts s PREV_STAT_IDX"
  "core_ok s \<Longrightarrow> i < num_shader s \<Longrightarrow>
     core_counts (advance w s) CURRENT_STAT_IDX c ! i = core_counts s CURRENT_STAT_IDX c ! i + of_nat (w c i)"
  by (simp_all add: advance_def core_ok_def)

text \<open>\<open>a\<close> is what was counted since the last sample.\<close>

definition since :: "(core_counter \<Rightarrow> nat \<Rightarrow> nat) \<Rightarrow> ('f, 'd) power_core_stat \<Rightarrow> bool" where
  "since a s \<longleftrightarrow> (\<forall>c. \<forall>i < num_shader s.
     core_counts s CURRENT_STAT_IDX c ! i = core_counts s PREV_STAT_IDX c ! i + of_nat (a c i))"

lemma since_advance: "core_ok s \<Longrightarrow> since a s \<Longrightarrow> since (\<lambda>c i. a c i + w c i) (advance w s)"
  by (simp add: since_def algebra_simps)

lemma since_saved: "core_ok s \<Longrightarrow> since (\<lambda>_ _. 0) (saved_upto (num_shader s) s)"
  by (simp add: since_def saved_prev)

lemma since_sm_delta: "core_ok s \<Longrightarrow> since a s \<Longrightarrow> i < num_shader s \<Longrightarrow> sm_delta c i s = Some (of_nat (a c i))"
  by (simp add: sm_delta_def delta_eq since_def)

lemma core_run_readings:
  assumes "core_ok s" "since a s"
  shows "\<exists>rs t. core_run es s = Some (rs, t) \<and> core_ok t \<and>
    list_all2 (\<lambda>r b. \<forall>c. \<forall>i < num_shader s. r c i = Some (of_nat (b c i))) rs (activity es a)"
  using assms
proof (induction es arbitrary: s a)
  case (Cons e es)
  show ?case
  proof (cases e)
    case (Work w)
    thus ?thesis using Cons.IH[of "advance w s"] Cons.prems since_advance[of s a w] by simp
  next
    case Sample
    let ?s = "saved_upto (num_shader s) s"
    from Cons.IH[OF saved_ok since_saved, OF Cons.prems(1) Cons.prems(1)]
    obtain rs t where "core_run es ?s = Some (rs, t)" "core_ok t"
      "list_all2 (\<lambda>r b. \<forall>c. \<forall>i < num_shader s. r c i = Some (of_nat (b c i))) rs (activity es (\<lambda>_ _. 0))"
      by auto
    moreover have "\<forall>c. \<forall>i < num_shader s. sm_delta c i s = Some (of_nat (a c i))"
      using Cons.prems by (simp add: since_sm_delta)
    ultimately show ?thesis using Sample Cons.prems(1) by (simp add: core_save_stats_eq)
  qed
qed simp

lemma init_ok: "n \<le> flp \<Longrightarrow> core_ok (power_core_init n flp sp sfu (\<lambda>_. replicate n 0) (replicate n 0))"
  by (simp add: core_ok_def power_core_init_def split: stat_idx.split)

lemma init_since: "since (\<lambda>_ _. 0) (power_core_init n flp sp sfu (\<lambda>_. replicate n 0) duty)"
  by (simp add: since_def power_core_init_def)

lemma unat_of_nat_lt: "x < 2 ^ 32 \<Longrightarrow> unat (of_nat x :: u32) = x"
  by (simp add: unat_of_nat take_bit_nat_eq_self)

section \<open>Properties\<close>

text \<open>
  C27: The readings the power model gets are exact. Start from cleared counters, and let the cores count any
  amounts between the samples: every sample succeeds, and what it reads for a counter of a core is
  exactly what that core counted since the previous sample, however often the 32-bit
  counters have wrapped around, as long as one sampling period counts less than \<open>2^32\<close>.
\<close>

theorem core_readings_are_exact:
  fixes n flp :: nat and sp sfu :: u32
  defines "s \<equiv> power_core_init n flp sp sfu (\<lambda>_. replicate n 0) (replicate n 0) :: ('f::zero, 'd::zero) power_core_stat"
  assumes blocks: "n \<le> flp" and small: "\<forall>a \<in> set (activity es (\<lambda>_ _. 0)). \<forall>c. \<forall>i < n. a c i < 2 ^ 32"
  shows "\<exists>rs t. core_run es s = Some (rs, t) \<and> list_all2 (\<lambda>r a. \<forall>c. \<forall>i < n. \<exists>v. r c i = Some v \<and> unat v = a c i) rs (activity es (\<lambda>_ _. 0))"
proof -
  have n: "num_shader s = n" by (simp add: s_def power_core_init_def)
  have "core_ok s" using init_ok[OF blocks] by (simp add: s_def)
  moreover have "since (\<lambda>_ _. 0) s" by (simp add: s_def init_since)
  ultimately have "\<exists>rs t. core_run es s = Some (rs, t) \<and> core_ok t \<and>
      list_all2 (\<lambda>r b. \<forall>c. \<forall>i < n. r c i = Some (of_nat (b c i))) rs (activity es (\<lambda>_ _. 0))"
    using core_run_readings[of s "\<lambda>_ _. 0" es] n by simp
  then obtain rs t where run: "core_run es s = Some (rs, t)"
    and rs: "list_all2 (\<lambda>r b. \<forall>c. \<forall>i < n. r c i = Some (of_nat (b c i))) rs (activity es (\<lambda>_ _. 0))"
    by blast
  from rs have "list_all2 (\<lambda>r a. \<forall>c. \<forall>i < n. \<exists>v. r c i = Some v \<and> unat v = a c i) rs (activity es (\<lambda>_ _. 0))"
    by (rule list.rel_mono_strong) (use small in \<open>auto simp: unat_of_nat_lt\<close>)
  with run show ?thesis by blast
qed

text \<open>One core, two samples, and the counter wraps around between them.\<close>

definition two_samples :: "core_event list" where
  "two_samples = [Work (\<lambda>_ _. 4294967290), Sample, Work (\<lambda>_ _. 4), Work (\<lambda>_ _. 6), Sample]"

theorem core_readings_are_exact_witness:
  "\<exists>rs t. core_run two_samples (power_core_init 1 7 1 1 (\<lambda>_. replicate 1 0) (replicate 1 0) :: (nat, nat) power_core_stat) = Some (rs, t) \<and>
     list_all2 (\<lambda>r a. \<forall>c. \<forall>i < 1. \<exists>v. r c i = Some v \<and> unat v = a c i) rs [\<lambda>_ _. 4294967290, \<lambda>_ _. 10]"
  using core_readings_are_exact[where n = 1 and flp = 7 and es = two_samples] by (simp add: two_samples_def)

end
