(* ===== verification/PowerMem.thy ===== *)
theory PowerMem
  imports PowerCore CacheStats
begin

text \<open>
  The activity of the memory system behind the power model (\<open>power_mem_stat_t\<close> and the readings of
  \<open>power_stat_t\<close> in \<open>power_stat.h\<close> and \<open>power_stat.cc\<close>, and the part of \<open>gpgpu_sim::cycle\<close> that refreshes
  it). The statistics of the L1 caches are an array behind a pointer, so the pointers are kept: an array is
  an element of \<open>cs_heap\<close>, and \<open>core_cache_stats\<close> holds positions there.
\<close>

section \<open>State\<close>

type_synonym s64 = "64 word"    \<comment> \<open>\<open>long\<close>, of which only sums and differences are formed\<close>

datatype dram_counter = n_cmd | n_activity | n_nop | n_act | n_pre | n_rd | n_wr | n_req

record power_mem_stat =
  pm_num_shader :: nat
  m_n_mem :: nat
  n_simt_clusters :: nat
  cs_heap :: "cache_stats list list"
  core_cache_stats :: "stat_idx \<Rightarrow> nat"
  l2_cache_stats :: "stat_idx \<Rightarrow> cache_stats"
  shmem_read_access :: "stat_idx \<Rightarrow> u32 list"
  dram_counts :: "stat_idx \<Rightarrow> dram_counter \<Rightarrow> u32 list"
  n_simt_to_mem :: "stat_idx \<Rightarrow> s64 list"
  n_mem_to_simt :: "stat_idx \<Rightarrow> s64 list"

text \<open>The current array of shared memory accesses is the simulator's own, \<open>shmem\<close>.\<close>

definition power_mem_init :: "nat \<Rightarrow> nat \<Rightarrow> nat \<Rightarrow> u32 list \<Rightarrow> power_mem_stat" where
  "power_mem_init shaders mems clusters shmem = \<lparr>pm_num_shader = shaders, m_n_mem = mems,
     n_simt_clusters = clusters,
     cs_heap = [replicate shaders (stats_clear cache_stats_new), replicate shaders (stats_clear cache_stats_new)],
     core_cache_stats = (\<lambda>k. case k of CURRENT_STAT_IDX \<Rightarrow> 0 | PREV_STAT_IDX \<Rightarrow> 1),
     l2_cache_stats = (\<lambda>_. stats_clear cache_stats_new),
     shmem_read_access = (\<lambda>k. case k of CURRENT_STAT_IDX \<Rightarrow> shmem | PREV_STAT_IDX \<Rightarrow> replicate shaders 0),
     dram_counts = (\<lambda>_ _. replicate mems 0),
     n_simt_to_mem = (\<lambda>_. replicate clusters 0), n_mem_to_simt = (\<lambda>_. replicate clusters 0)\<rparr>"

section \<open>Reading and writing the L1 statistics\<close>

definition core_cache :: "stat_idx \<Rightarrow> nat \<Rightarrow> power_mem_stat \<Rightarrow> cache_stats option" where
  "core_cache k i s = do { a \<leftarrow> at (cs_heap s) (core_cache_stats s k); at a i }"

definition set_core_cache :: "stat_idx \<Rightarrow> nat \<Rightarrow> cache_stats \<Rightarrow> power_mem_stat \<Rightarrow> power_mem_stat option" where
  "set_core_cache k i c s = do {
     a \<leftarrow> at (cs_heap s) (core_cache_stats s k);
     a \<leftarrow> put a i c;
     Some (s\<lparr>cs_heap := (cs_heap s)[core_cache_stats s k := a]\<rparr>) }"

text \<open>
  What a core clock cycle does to them: every element is cleared, and then the statistics of the caches
  of core \<open>i\<close>, \<open>caches i\<close>, are added to it.
\<close>

definition clear_core_cache :: "nat \<Rightarrow> power_mem_stat \<Rightarrow> power_mem_stat option" where
  "clear_core_cache i s = do {
     c \<leftarrow> core_cache CURRENT_STAT_IDX i s;
     set_core_cache CURRENT_STAT_IDX i (stats_clear c) s }"

definition add_core_caches :: "(nat \<Rightarrow> cache_stats list) \<Rightarrow> nat \<Rightarrow> power_mem_stat \<Rightarrow> power_mem_stat option" where
  "add_core_caches caches i s = do {
     c \<leftarrow> core_cache CURRENT_STAT_IDX i s;
     set_core_cache CURRENT_STAT_IDX i (foldl stats_add_to c (caches i)) s }"

definition collect_core_caches :: "(nat \<Rightarrow> cache_stats list) \<Rightarrow> power_mem_stat \<Rightarrow> power_mem_stat option" where
  "collect_core_caches caches s = do {
     s \<leftarrow> each clear_core_cache [0..<pm_num_shader s] s;
     each (add_core_caches caches) [0..<pm_num_shader s] s }"

text \<open>A cycle of the L2 clock does the same for the L2 cache, with the caches of all partitions.\<close>

definition collect_l2_caches :: "cache_stats list \<Rightarrow> power_mem_stat \<Rightarrow> power_mem_stat" where
  "collect_l2_caches caches s = s\<lparr>l2_cache_stats := (l2_cache_stats s)(CURRENT_STAT_IDX :=
     foldl stats_add_to (stats_clear (l2_cache_stats s CURRENT_STAT_IDX)) caches)\<rparr>"

section \<open>Saving a sample\<close>

definition save_shader :: "nat \<Rightarrow> power_mem_stat \<Rightarrow> power_mem_stat option" where
  "save_shader i s = do {
     shm \<leftarrow> save_elem i (shmem_read_access s);
     let s = s\<lparr>shmem_read_access := shm\<rparr>;
     c \<leftarrow> core_cache CURRENT_STAT_IDX i s;
     set_core_cache PREV_STAT_IDX i c s }"

definition dram_counters :: "dram_counter list" where
  "dram_counters = [n_cmd, n_activity, n_nop, n_act, n_pre, n_rd, n_wr, n_req]"

definition save_dram_counter :: "nat \<Rightarrow> dram_counter \<Rightarrow> power_mem_stat \<Rightarrow> power_mem_stat option" where
  "save_dram_counter i c s = do {
     a \<leftarrow> save_elem i (\<lambda>k. dram_counts s k c);
     Some (s\<lparr>dram_counts := (\<lambda>k. (dram_counts s k)(c := a k))\<rparr>) }"

definition save_cluster :: "nat \<Rightarrow> power_mem_stat \<Rightarrow> power_mem_stat option" where
  "save_cluster i s = do {
     a \<leftarrow> save_elem i (n_simt_to_mem s);
     b \<leftarrow> save_elem i (n_mem_to_simt s);
     Some (s\<lparr>n_simt_to_mem := a, n_mem_to_simt := b\<rparr>) }"

text \<open>The first assignment copies the pointer, not the array.\<close>

definition mem_save_stats :: "power_mem_stat \<Rightarrow> power_mem_stat option" where
  "mem_save_stats s = do {
     let s = s\<lparr>core_cache_stats := (core_cache_stats s)(PREV_STAT_IDX := core_cache_stats s CURRENT_STAT_IDX)\<rparr>;
     let s = s\<lparr>l2_cache_stats := (l2_cache_stats s)(PREV_STAT_IDX := l2_cache_stats s CURRENT_STAT_IDX)\<rparr>;
     s \<leftarrow> each save_shader [0..<pm_num_shader s] s;
     s \<leftarrow> each (\<lambda>i. each (save_dram_counter i) dram_counters) [0..<m_n_mem s] s;
     each save_cluster [0..<n_simt_clusters s] s }"

section \<open>Readings of the L1 caches\<close>

definition cache_delta :: "mem_access_type list \<Rightarrow> cache_request_status list \<Rightarrow> nat \<Rightarrow> power_mem_stat \<Rightarrow> u32 option" where
  "cache_delta access_type request_status i s = do {
     a \<leftarrow> core_cache CURRENT_STAT_IDX i s;
     b \<leftarrow> core_cache PREV_STAT_IDX i s;
     Some (ucast (get_stats access_type request_status a - get_stats access_type request_status b)) }"

definition total_cache_delta :: "mem_access_type list \<Rightarrow> cache_request_status list \<Rightarrow> power_mem_stat \<Rightarrow> u32 option" where
  "total_cache_delta access_type request_status s =
     sum_opt (map (\<lambda>i. cache_delta access_type request_status i s) [0..<pm_num_shader s])"

text \<open>The first group is that of one core, the second that of the whole chip.\<close>

definition difference :: "u32 option \<Rightarrow> u32 option \<Rightarrow> u32 option" where
  "difference a b = do { a \<leftarrow> a; b \<leftarrow> b; Some (a - b) }"

definition get_l1d_read_accesses_of :: "nat \<Rightarrow> power_mem_stat \<Rightarrow> u32 option" where
  "get_l1d_read_accesses_of = cache_delta [GLOBAL_ACC_R, LOCAL_ACC_R] [HIT, MISS, HIT_RESERVED]"

definition get_l1d_read_misses_of :: "nat \<Rightarrow> power_mem_stat \<Rightarrow> u32 option" where
  "get_l1d_read_misses_of = cache_delta [GLOBAL_ACC_R, LOCAL_ACC_R] [MISS]"

definition get_l1d_read_hits_of :: "nat \<Rightarrow> power_mem_stat \<Rightarrow> u32 option" where
  "get_l1d_read_hits_of i s = difference (get_l1d_read_accesses_of i s) (get_l1d_read_misses_of i s)"

definition get_l1d_write_accesses_of :: "nat \<Rightarrow> power_mem_stat \<Rightarrow> u32 option" where
  "get_l1d_write_accesses_of = cache_delta [GLOBAL_ACC_W, LOCAL_ACC_W] [HIT, MISS, HIT_RESERVED]"

definition get_l1d_write_misses_of :: "nat \<Rightarrow> power_mem_stat \<Rightarrow> u32 option" where
  "get_l1d_write_misses_of = cache_delta [GLOBAL_ACC_W, LOCAL_ACC_W] [MISS]"

definition get_l1d_write_hits_of :: "nat \<Rightarrow> power_mem_stat \<Rightarrow> u32 option" where
  "get_l1d_write_hits_of i s = difference (get_l1d_write_accesses_of i s) (get_l1d_write_misses_of i s)"

definition get_l1d_hits_of :: "nat \<Rightarrow> power_mem_stat \<Rightarrow> u32 option" where
  "get_l1d_hits_of i s = sum_opt [get_l1d_write_hits_of i s, get_l1d_read_hits_of i s]"

definition get_constant_c_accesses :: "power_mem_stat \<Rightarrow> u32 option" where
  "get_constant_c_accesses = total_cache_delta [CONST_ACC_R] [HIT, MISS, HIT_RESERVED]"

definition get_constant_c_misses :: "power_mem_stat \<Rightarrow> u32 option" where
  "get_constant_c_misses = total_cache_delta [CONST_ACC_R] [MISS]"

definition get_constant_c_hits :: "power_mem_stat \<Rightarrow> u32 option" where
  "get_constant_c_hits s = difference (get_constant_c_accesses s) (get_constant_c_misses s)"

definition get_texture_c_accesses :: "power_mem_stat \<Rightarrow> u32 option" where
  "get_texture_c_accesses = total_cache_delta [TEXTURE_ACC_R] [HIT, MISS, HIT_RESERVED]"

definition get_texture_c_misses :: "power_mem_stat \<Rightarrow> u32 option" where
  "get_texture_c_misses = total_cache_delta [TEXTURE_ACC_R] [MISS]"

definition get_texture_c_hits :: "power_mem_stat \<Rightarrow> u32 option" where
  "get_texture_c_hits s = difference (get_texture_c_accesses s) (get_texture_c_misses s)"

definition get_inst_c_accesses :: "power_mem_stat \<Rightarrow> u32 option" where
  "get_inst_c_accesses = total_cache_delta [INST_ACC_R] [HIT, MISS, HIT_RESERVED]"

definition get_inst_c_misses :: "power_mem_stat \<Rightarrow> u32 option" where
  "get_inst_c_misses = total_cache_delta [INST_ACC_R] [MISS]"

definition get_inst_c_hits :: "power_mem_stat \<Rightarrow> u32 option" where
  "get_inst_c_hits s = difference (get_inst_c_accesses s) (get_inst_c_misses s)"

definition get_l1d_read_accesses :: "power_mem_stat \<Rightarrow> u32 option" where
  "get_l1d_read_accesses = total_cache_delta [GLOBAL_ACC_R, LOCAL_ACC_R] [HIT, MISS, HIT_RESERVED]"

definition get_l1d_read_misses :: "power_mem_stat \<Rightarrow> u32 option" where
  "get_l1d_read_misses = total_cache_delta [GLOBAL_ACC_R, LOCAL_ACC_R] [MISS]"

definition get_l1d_read_hits :: "power_mem_stat \<Rightarrow> u32 option" where
  "get_l1d_read_hits s = difference (get_l1d_read_accesses s) (get_l1d_read_misses s)"

definition get_l1d_write_accesses :: "power_mem_stat \<Rightarrow> u32 option" where
  "get_l1d_write_accesses = total_cache_delta [GLOBAL_ACC_W, LOCAL_ACC_W] [HIT, MISS, HIT_RESERVED]"

definition get_l1d_write_misses :: "power_mem_stat \<Rightarrow> u32 option" where
  "get_l1d_write_misses = total_cache_delta [GLOBAL_ACC_W, LOCAL_ACC_W] [MISS]"

definition get_l1d_write_hits :: "power_mem_stat \<Rightarrow> u32 option" where
  "get_l1d_write_hits s = difference (get_l1d_write_accesses s) (get_l1d_write_misses s)"

definition get_cache_misses :: "power_mem_stat \<Rightarrow> u32 option" where
  "get_cache_misses s = sum_opt [get_l1d_read_misses s, get_constant_c_misses s, get_l1d_write_misses s, get_texture_c_misses s]"

definition get_cache_read_misses :: "power_mem_stat \<Rightarrow> u32 option" where
  "get_cache_read_misses s = sum_opt [get_l1d_read_misses s, get_constant_c_misses s, get_texture_c_misses s]"

definition get_cache_write_misses :: "power_mem_stat \<Rightarrow> u32 option" where
  "get_cache_write_misses = get_l1d_write_misses"

section \<open>Readings of shared memory, L2 cache, DRAM and interconnect\<close>

definition shmem_delta :: "nat \<Rightarrow> power_mem_stat \<Rightarrow> u32 option" where
  "shmem_delta i s = do {
     a \<leftarrow> at (shmem_read_access s CURRENT_STAT_IDX) i;
     b \<leftarrow> at (shmem_read_access s PREV_STAT_IDX) i;
     Some (a - b) }"

definition get_shmem_read_access_of :: "nat \<Rightarrow> power_mem_stat \<Rightarrow> u32 option" where
  "get_shmem_read_access_of = shmem_delta"

definition get_shmem_read_access :: "power_mem_stat \<Rightarrow> u32 option" where
  "get_shmem_read_access s = sum_opt (map (\<lambda>i. shmem_delta i s) [0..<pm_num_shader s])"

definition l2_delta :: "mem_access_type list \<Rightarrow> cache_request_status list \<Rightarrow> power_mem_stat \<Rightarrow> u32" where
  "l2_delta access_type request_status s =
     ucast (get_stats access_type request_status (l2_cache_stats s CURRENT_STAT_IDX) -
            get_stats access_type request_status (l2_cache_stats s PREV_STAT_IDX))"

definition get_l2_read_accesses :: "power_mem_stat \<Rightarrow> u32" where
  "get_l2_read_accesses = l2_delta [GLOBAL_ACC_R, LOCAL_ACC_R, CONST_ACC_R, TEXTURE_ACC_R, INST_ACC_R] [HIT, MISS, HIT_RESERVED]"

definition get_l2_read_misses :: "power_mem_stat \<Rightarrow> u32" where
  "get_l2_read_misses = l2_delta [GLOBAL_ACC_R, LOCAL_ACC_R, CONST_ACC_R, TEXTURE_ACC_R, INST_ACC_R] [MISS]"

definition get_l2_read_hits :: "power_mem_stat \<Rightarrow> u32" where
  "get_l2_read_hits s = get_l2_read_accesses s - get_l2_read_misses s"

definition get_l2_write_accesses :: "power_mem_stat \<Rightarrow> u32" where
  "get_l2_write_accesses = l2_delta [GLOBAL_ACC_W, LOCAL_ACC_W, L1_WRBK_ACC] [HIT, MISS, HIT_RESERVED]"

definition get_l2_write_misses :: "power_mem_stat \<Rightarrow> u32" where
  "get_l2_write_misses = l2_delta [GLOBAL_ACC_W, LOCAL_ACC_W, L1_WRBK_ACC] [MISS]"

definition get_l2_write_hits :: "power_mem_stat \<Rightarrow> u32" where
  "get_l2_write_hits s = get_l2_write_accesses s - get_l2_write_misses s"

definition dram_delta :: "dram_counter \<Rightarrow> nat \<Rightarrow> power_mem_stat \<Rightarrow> u32 option" where
  "dram_delta c i s = do {
     a \<leftarrow> at (dram_counts s CURRENT_STAT_IDX c) i;
     b \<leftarrow> at (dram_counts s PREV_STAT_IDX c) i;
     Some (a - b) }"

definition total_dram_delta :: "dram_counter \<Rightarrow> power_mem_stat \<Rightarrow> u32 option" where
  "total_dram_delta c s = sum_opt (map (\<lambda>i. dram_delta c i s) [0..<m_n_mem s])"

definition get_dram_cmd :: "power_mem_stat \<Rightarrow> u32 option" where
  "get_dram_cmd = total_dram_delta n_cmd"

definition get_dram_activity :: "power_mem_stat \<Rightarrow> u32 option" where
  "get_dram_activity = total_dram_delta n_activity"

definition get_dram_nop :: "power_mem_stat \<Rightarrow> u32 option" where
  "get_dram_nop = total_dram_delta n_nop"

definition get_dram_act :: "power_mem_stat \<Rightarrow> u32 option" where
  "get_dram_act = total_dram_delta n_act"

definition get_dram_pre :: "power_mem_stat \<Rightarrow> u32 option" where
  "get_dram_pre = total_dram_delta n_pre"

definition get_dram_rd :: "power_mem_stat \<Rightarrow> u32 option" where
  "get_dram_rd = total_dram_delta n_rd"

definition get_dram_wr :: "power_mem_stat \<Rightarrow> u32 option" where
  "get_dram_wr = total_dram_delta n_wr"

definition get_dram_req :: "power_mem_stat \<Rightarrow> u32 option" where
  "get_dram_req = total_dram_delta n_req"

text \<open>The readings of the interconnect are 64-bit sums over the clusters.\<close>

definition icnt_sum :: "(stat_idx \<Rightarrow> s64 list) \<Rightarrow> nat \<Rightarrow> s64 option" where
  "icnt_sum a n = fold (\<lambda>i t. do {
     t \<leftarrow> t;
     x \<leftarrow> at (a CURRENT_STAT_IDX) i;
     y \<leftarrow> at (a PREV_STAT_IDX) i;
     Some (t + (x - y)) }) [0..<n] (Some 0)"

definition get_icnt_simt_to_mem :: "power_mem_stat \<Rightarrow> s64 option" where
  "get_icnt_simt_to_mem s = icnt_sum (n_simt_to_mem s) (n_simt_clusters s)"

definition get_icnt_mem_to_simt :: "power_mem_stat \<Rightarrow> s64 option" where
  "get_icnt_mem_to_simt s = icnt_sum (n_mem_to_simt s) (n_simt_clusters s)"

section \<open>A sample\<close>

definition mem_ok :: "power_mem_stat \<Rightarrow> bool" where
  "mem_ok s \<longleftrightarrow> (\<forall>k. core_cache_stats s k < length (cs_heap s) \<and>
       length (cs_heap s ! core_cache_stats s k) = pm_num_shader s \<and>
       length (shmem_read_access s k) = pm_num_shader s \<and>
       (\<forall>c. length (dram_counts s k c) = m_n_mem s) \<and>
       length (n_simt_to_mem s k) = n_simt_clusters s \<and> length (n_mem_to_simt s k) = n_simt_clusters s)"

lemma init_mem_ok: "length shmem = n \<Longrightarrow> mem_ok (power_mem_init n m cl shmem)"
  by (simp add: mem_ok_def power_mem_init_def split: stat_idx.split)

lemma dram_counters_all: "set dram_counters = UNIV" "distinct dram_counters"
proof -
  have "c \<in> set dram_counters" for c by (cases c) (simp_all add: dram_counters_def)
  thus "set dram_counters = UNIV" by auto
  show "distinct dram_counters" by (simp add: dram_counters_def)
qed

lemma save_dram_counters:
  assumes "distinct cs" "\<forall>c \<in> set cs. save_elem i (\<lambda>k. dram_counts s k c) = Some (new c)"
  shows "each (save_dram_counter i) cs s =
    Some (s\<lparr>dram_counts := (\<lambda>k c. if c \<in> set cs then new c k else dram_counts s k c)\<rparr>)"
  using assms
proof (induction cs arbitrary: s)
  case (Cons c cs)
  let ?s = "s\<lparr>dram_counts := (\<lambda>k. (dram_counts s k)(c := new c k))\<rparr>"
  have "save_dram_counter i c s = Some ?s" using Cons.prems(2) by (simp add: save_dram_counter_def)
  moreover have "\<forall>d \<in> set cs. save_elem i (\<lambda>k. dram_counts ?s k d) = Some (new d)"
  proof
    fix d assume d: "d \<in> set cs"
    hence "d \<noteq> c" using Cons.prems(1) by auto
    thus "save_elem i (\<lambda>k. dram_counts ?s k d) = Some (new d)" using d Cons.prems(2) by simp
  qed
  moreover have "(\<lambda>k d. if d \<in> set cs then new d k else dram_counts ?s k d) =
      (\<lambda>k d. if d \<in> set (c # cs) then new d k else dram_counts s k d)"
    by (auto simp: fun_eq_iff)
  ultimately show ?case using Cons.IH[of ?s] Cons.prems(1) by simp
qed simp

text \<open>What a sample leaves: both pointers at the current array, and copies of everything else.\<close>

definition mem_saved :: "power_mem_stat \<Rightarrow> power_mem_stat" where
  "mem_saved s = s\<lparr>core_cache_stats := (\<lambda>_. core_cache_stats s CURRENT_STAT_IDX),
     l2_cache_stats := (\<lambda>_. l2_cache_stats s CURRENT_STAT_IDX),
     shmem_read_access := (\<lambda>_. shmem_read_access s CURRENT_STAT_IDX),
     dram_counts := (\<lambda>_. dram_counts s CURRENT_STAT_IDX),
     n_simt_to_mem := (\<lambda>_. n_simt_to_mem s CURRENT_STAT_IDX),
     n_mem_to_simt := (\<lambda>_. n_mem_to_simt s CURRENT_STAT_IDX)\<rparr>"

lemma copy_to_full:
  "length (a CURRENT_STAT_IDX) = n \<Longrightarrow> length (a PREV_STAT_IDX) = n \<Longrightarrow> copy_to n a = (\<lambda>_. a CURRENT_STAT_IDX)"
proof
  fix k
  assume "length (a CURRENT_STAT_IDX) = n" "length (a PREV_STAT_IDX) = n"
  thus "copy_to n a k = a CURRENT_STAT_IDX" by (cases k) (simp_all add: copy_to_all)
qed

lemma both_idx: "f(PREV_STAT_IDX := f CURRENT_STAT_IDX) = (\<lambda>_. f CURRENT_STAT_IDX)"
proof
  fix k show "(f(PREV_STAT_IDX := f CURRENT_STAT_IDX)) k = f CURRENT_STAT_IDX" by (cases k) simp_all
qed

lemma save_shaders:
  assumes ok: "mem_ok s" and same: "core_cache_stats s PREV_STAT_IDX = core_cache_stats s CURRENT_STAT_IDX"
  shows "each save_shader [0..<pm_num_shader s] s =
    Some (s\<lparr>shmem_read_access := (\<lambda>_. shmem_read_access s CURRENT_STAT_IDX)\<rparr>)"
proof -
  let ?g = "\<lambda>m. s\<lparr>shmem_read_access := copy_to m (shmem_read_access s)\<rparr>"
  have "save_shader m (?g m) = Some (?g (Suc m))" if "m < pm_num_shader s" for m
    using that ok same
    by (simp add: save_shader_def mem_ok_def save_elem_copy_to core_cache_def set_core_cache_def Let_def)
  from each_upto[where f = save_shader and g = ?g and n = "pm_num_shader s", OF this] show ?thesis
    using ok by (simp add: mem_ok_def copy_to_full)
qed

lemma save_drams:
  assumes ok: "mem_ok s"
  shows "each (\<lambda>i. each (save_dram_counter i) dram_counters) [0..<m_n_mem s] s =
    Some (s\<lparr>dram_counts := (\<lambda>_. dram_counts s CURRENT_STAT_IDX)\<rparr>)"
proof -
  let ?g = "\<lambda>m. s\<lparr>dram_counts := (\<lambda>k c. copy_to m (\<lambda>k. dram_counts s k c) k)\<rparr>"
  have "each (save_dram_counter m) dram_counters (?g m) = Some (?g (Suc m))" if m: "m < m_n_mem s" for m
  proof -
    have "\<forall>c \<in> set dram_counters. save_elem m (\<lambda>k. dram_counts (?g m) k c) = Some (copy_to (Suc m) (\<lambda>k. dram_counts s k c))"
      using ok m by (auto simp: mem_ok_def intro!: save_elem_copy_to)
    from save_dram_counters[OF dram_counters_all(2) this] show ?thesis by (simp add: dram_counters_all)
  qed
  from each_upto[where f = "\<lambda>i. each (save_dram_counter i) dram_counters" and g = ?g and n = "m_n_mem s", OF this] show ?thesis
    using ok by (simp add: mem_ok_def copy_to_full)
qed

lemma save_clusters:
  assumes ok: "mem_ok s"
  shows "each save_cluster [0..<n_simt_clusters s] s =
    Some (s\<lparr>n_simt_to_mem := (\<lambda>_. n_simt_to_mem s CURRENT_STAT_IDX), n_mem_to_simt := (\<lambda>_. n_mem_to_simt s CURRENT_STAT_IDX)\<rparr>)"
proof -
  let ?g = "\<lambda>m. s\<lparr>n_simt_to_mem := copy_to m (n_simt_to_mem s), n_mem_to_simt := copy_to m (n_mem_to_simt s)\<rparr>"
  have "save_cluster m (?g m) = Some (?g (Suc m))" if "m < n_simt_clusters s" for m
    using that ok by (simp add: save_cluster_def mem_ok_def save_elem_copy_to)
  from each_upto[where f = save_cluster and g = ?g and n = "n_simt_clusters s", OF this] show ?thesis
    using ok by (simp add: mem_ok_def copy_to_full)
qed

lemma mem_save_stats_eq:
  assumes ok: "mem_ok s"
  shows "mem_save_stats s = Some (mem_saved s)"
proof -
  let ?s = "s\<lparr>core_cache_stats := (\<lambda>_. core_cache_stats s CURRENT_STAT_IDX), l2_cache_stats := (\<lambda>_. l2_cache_stats s CURRENT_STAT_IDX)\<rparr>"
  let ?t = "?s\<lparr>shmem_read_access := (\<lambda>_. shmem_read_access s CURRENT_STAT_IDX)\<rparr>"
  let ?u = "?t\<lparr>dram_counts := (\<lambda>_. dram_counts s CURRENT_STAT_IDX)\<rparr>"
  have "mem_ok ?s" "mem_ok ?t" "mem_ok ?u" using ok by (simp_all add: mem_ok_def)
  from save_shaders[OF this(1)] save_drams[OF this(2)] save_clusters[OF this(3)]
  show ?thesis by (simp add: mem_save_stats_def mem_saved_def both_idx)
qed

lemma mem_saved_ok: "mem_ok s \<Longrightarrow> mem_ok (mem_saved s)"
  by (simp add: mem_ok_def mem_saved_def)

section \<open>The L1 readings after a sample\<close>

text \<open>The cycles and samples of a run, in their order.\<close>

datatype mem_event = Core_cycle "nat \<Rightarrow> cache_stats list" | L2_cycle "cache_stats list" | Mem_sample

fun mem_event_step :: "mem_event \<Rightarrow> power_mem_stat \<Rightarrow> power_mem_stat option" where
  "mem_event_step (Core_cycle caches) s = collect_core_caches caches s"
| "mem_event_step (L2_cycle caches) s = Some (collect_l2_caches caches s)"
| "mem_event_step Mem_sample s = mem_save_stats s"

text \<open>Well formed, with the pointers of \<open>t\<close>.\<close>

definition like :: "power_mem_stat \<Rightarrow> power_mem_stat \<Rightarrow> bool" where
  "like t s \<longleftrightarrow> mem_ok s \<and> core_cache_stats s = core_cache_stats t \<and> pm_num_shader s = pm_num_shader t"

lemma core_cache_ok: "mem_ok s \<Longrightarrow> i < pm_num_shader s \<Longrightarrow> \<exists>c. core_cache k i s = Some c"
  by (simp add: core_cache_def mem_ok_def)

lemma set_core_cache_like:
  assumes "like t s" "i < pm_num_shader s"
  shows "\<exists>s'. set_core_cache k i c s = Some s' \<and> like t s'"
  using assms by (auto simp: set_core_cache_def like_def mem_ok_def nth_list_update)

lemma clear_core_cache_like: "like t s \<Longrightarrow> i < pm_num_shader t \<Longrightarrow> \<exists>s'. clear_core_cache i s = Some s' \<and> like t s'"
  using core_cache_ok[of s i CURRENT_STAT_IDX] set_core_cache_like[of t s i]
  by (auto simp: clear_core_cache_def like_def)

lemma add_core_caches_like: "like t s \<Longrightarrow> i < pm_num_shader t \<Longrightarrow> \<exists>s'. add_core_caches caches i s = Some s' \<and> like t s'"
  using core_cache_ok[of s i CURRENT_STAT_IDX] set_core_cache_like[of t s i]
  by (auto simp: add_core_caches_def like_def)

lemma collect_like:
  assumes "mem_ok s"
  shows "\<exists>s'. collect_core_caches caches s = Some s' \<and> like s s'"
proof -
  have "\<exists>t. each clear_core_cache [0..<pm_num_shader s] s = Some t \<and> like s t"
    by (rule each_keeps) (auto simp: clear_core_cache_like, simp add: like_def assms)
  then obtain t where t: "each clear_core_cache [0..<pm_num_shader s] s = Some t" "like s t" by blast
  have "\<exists>u. each (add_core_caches caches) [0..<pm_num_shader s] t = Some u \<and> like s u"
    by (rule each_keeps) (auto simp: add_core_caches_like t)
  thus ?thesis using t by (auto simp: collect_core_caches_def like_def)
qed

text \<open>Both pointers are the same, which no event undoes.\<close>

definition aliased :: "nat \<Rightarrow> power_mem_stat \<Rightarrow> bool" where
  "aliased n s \<longleftrightarrow> mem_ok s \<and> pm_num_shader s = n \<and>
     core_cache_stats s PREV_STAT_IDX = core_cache_stats s CURRENT_STAT_IDX"

lemma sample_aliased: "mem_ok s \<Longrightarrow> aliased (pm_num_shader s) (mem_saved s)"
  by (simp add: aliased_def mem_saved_ok) (simp add: mem_saved_def)

lemma step_aliased:
  assumes "aliased n s"
  shows "\<exists>s'. mem_event_step e s = Some s' \<and> aliased n s'"
proof (cases e)
  case (Core_cycle caches)
  thus ?thesis using collect_like[of s caches] assms by (auto simp: aliased_def like_def)
next
  case (L2_cycle caches)
  thus ?thesis using assms by (simp add: aliased_def collect_l2_caches_def mem_ok_def)
next
  case Mem_sample
  thus ?thesis using sample_aliased[of s] assms by (auto simp: aliased_def mem_save_stats_eq)
qed

lemma aliased_reads_zero:
  assumes "aliased n s"
  shows "i < n \<Longrightarrow> cache_delta ty st i s = Some 0" "total_cache_delta ty st s = Some 0"
proof -
  have z: "cache_delta ty st i s = Some 0" if "i < n" for i
  proof -
    have "i < pm_num_shader s" "mem_ok s" using assms that by (simp_all add: aliased_def)
    then obtain c where "core_cache CURRENT_STAT_IDX i s = Some c" using core_cache_ok by blast
    moreover from this have "core_cache PREV_STAT_IDX i s = Some c" using assms by (simp add: core_cache_def aliased_def)
    ultimately show ?thesis by (simp add: cache_delta_def)
  qed
  thus "i < n \<Longrightarrow> cache_delta ty st i s = Some 0" .
  have "sum_opt (map (\<lambda>i. cache_delta ty st i s) is) = Some 0" if "set is \<subseteq> {..<n}" for "is"
    using that by (induction "is") (simp_all add: z)
  moreover have "set [0..<n] \<subseteq> {..<n}" by auto
  ultimately show "total_cache_delta ty st s = Some 0"
    using assms by (simp add: total_cache_delta_def aliased_def)
qed

lemmas l1_reading_defs =
  get_l1d_read_accesses_of_def get_l1d_read_misses_of_def get_l1d_read_hits_of_def
  get_l1d_write_accesses_of_def get_l1d_write_misses_of_def get_l1d_write_hits_of_def get_l1d_hits_of_def
  get_constant_c_accesses_def get_texture_c_accesses_def get_inst_c_accesses_def
  get_l1d_read_accesses_def get_l1d_write_accesses_def get_cache_misses_def
  get_constant_c_misses_def get_texture_c_misses_def get_l1d_read_misses_def get_l1d_write_misses_def

lemma l1_hits_zero: "aliased n s \<Longrightarrow> i < n \<Longrightarrow> get_l1d_hits_of i s = Some 0"
  by (simp add: l1_reading_defs aliased_reads_zero difference_def)

section \<open>Properties\<close>

text \<open>
  C28: From the first sample on, every reading of an L1 cache is zero, whatever the caches do. \<open>save_stats\<close>
  copies the pointer to the current array over the pointer to the previous one, so that both name
  the same array ever after, and the readings are differences of equal numbers. The power of the L1 blocks, which
  the power interface computes from \<open>get_l1d_hits\<close>, is therefore lost from the second reading on.
\<close>

theorem l1_readings_vanish:
  assumes "mem_ok s"
  shows "\<exists>t. each mem_event_step (Mem_sample # es) s = Some t \<and>
    (\<forall>i < pm_num_shader s. get_l1d_hits_of i t = Some 0 \<and> get_l1d_read_accesses_of i t = Some 0 \<and>
       get_l1d_write_accesses_of i t = Some 0) \<and>
    get_constant_c_accesses t = Some 0 \<and> get_texture_c_accesses t = Some 0 \<and> get_inst_c_accesses t = Some 0 \<and>
    get_l1d_read_accesses t = Some 0 \<and> get_l1d_write_accesses t = Some 0 \<and> get_cache_misses t = Some 0"
proof -
  let ?n = "pm_num_shader s"
  have "\<exists>t. each mem_event_step es (mem_saved s) = Some t \<and> aliased ?n t"
    by (rule each_keeps) (use step_aliased sample_aliased[OF assms] in auto)
  then obtain t where "each mem_event_step es (mem_saved s) = Some t" and al: "aliased ?n t" by blast
  hence run: "each mem_event_step (Mem_sample # es) s = Some t"
    using assms by (simp add: mem_save_stats_eq)
  show ?thesis
    by (rule exI[of _ t]) (simp add: run l1_hits_zero[OF al] aliased_reads_zero[OF al] l1_reading_defs difference_def del: each.simps)
qed

text \<open>
  One core with one hit before the sample and five after it: the reading is 1 before the sample,
  and 0 instead of 4 after it.
\<close>

definition hits :: "u64 \<Rightarrow> mem_event" where
  "hits n = Core_cycle (\<lambda>_. [cache_stats_new\<lparr>m_stats := (\<lambda>t o'. if t = GLOBAL_ACC_R \<and> o' = HIT then n else 0)\<rparr>])"

lemma one_hit: "do { s \<leftarrow> mem_event_step (hits 1) (power_mem_init 1 1 1 [0]); get_l1d_hits_of 0 s } = Some 1"
  by code_simp

theorem l1_readings_vanish_witness:
  "\<exists>t. each mem_event_step [Mem_sample, hits 5] (the (mem_event_step (hits 1) (power_mem_init 1 1 1 [0]))) = Some t \<and>
     get_l1d_hits_of 0 t = Some 0"
proof -
  let ?s = "power_mem_init 1 1 1 [0]"
  obtain s where s: "mem_event_step (hits 1) ?s = Some s" "like ?s s"
    using collect_like[OF init_mem_ok[of "[0]" 1 1 1]] by (force simp: hits_def)
  have "pm_num_shader s = 1" using s(2) by (simp add: like_def power_mem_init_def)
  thus ?thesis using l1_readings_vanish[of s "[hits 5]"] s by (auto simp: like_def)
qed

end
