(* ===== verification/PowerInterface.thy ===== *)
theory PowerInterface
  imports PowerMem Complex_Main
begin

text \<open>
  From activity to power (\<open>power_stat_t\<close> in \<open>power_stat.h\<close> and \<open>power_interface::cycle\<close> in
  \<open>gpucalorie/power_interface.cc\<close>). \<open>'f\<close> and \<open>'d\<close> stand for \<open>float\<close> and \<open>double\<close>: the definitions use the
  operations of the type and the conversion \<open>dbl\<close> from \<open>unsigned\<close>, and say nothing of their laws. The
  properties are about exact arithmetic, where \<open>'d\<close> is \<open>real\<close>. The trace files are output and left
  out, apart from the elements of \<open>vals\<close> that are read for them.
\<close>

section \<open>The statistics of the chip\<close>

record ('f, 'd) power_stat =
  pwr_core_stat :: "('f, 'd) power_core_stat"
  pwr_mem_stat :: power_mem_stat
  m_average_pipeline_duty_cycle :: 'f
  m_active_sms :: 'f

definition power_save_stats :: "('f::zero, 'd) power_stat \<Rightarrow> ('f, 'd) power_stat option" where
  "power_save_stats s = do {
     c \<leftarrow> core_save_stats (pwr_core_stat s);
     m \<leftarrow> mem_save_stats (pwr_mem_stat s);
     Some (s\<lparr>pwr_core_stat := c, pwr_mem_stat := m, m_average_pipeline_duty_cycle := 0, m_active_sms := 0\<rparr>) }"

section \<open>Power\<close>

text \<open>The energy of one access to each part.\<close>

record 'd epa_config =
  decode_epa :: 'd
  alu_epa :: 'd
  fp_epa :: 'd
  dp_epa :: 'd
  mul32_epa :: 'd
  sfu_epa :: 'd
  rf_epa :: 'd
  l1_epa :: 'd
  shd_epa :: 'd
  l2_epa :: 'd
  dram_epa :: 'd

text \<open>The readings of one core.\<close>

record sm_activity =
  decode :: u32
  alu :: u32
  fp :: u32
  dp :: u32
  int_mul32 :: u32
  sfu :: u32
  nb_rf :: u32
  l1 :: u32
  shd_mem :: u32

definition read_sm :: "nat \<Rightarrow> ('f, 'd) power_stat \<Rightarrow> sm_activity option" where
  "read_sm SM s = do {
     decode \<leftarrow> get_total_inst SM (pwr_core_stat s);
     alu \<leftarrow> get_tot_alu_accessess SM (pwr_core_stat s);
     fp \<leftarrow> get_tot_fp_accessess SM (pwr_core_stat s);
     dp \<leftarrow> get_tot_dp_accessess SM (pwr_core_stat s);
     int_mul32 \<leftarrow> get_tot_imul32_accessess SM (pwr_core_stat s);
     sfu \<leftarrow> get_tot_sfu_accessess SM (pwr_core_stat s);
     nb_rf \<leftarrow> get_tot_rf_accessess SM (pwr_core_stat s);
     l1 \<leftarrow> get_l1d_hits_of SM (pwr_mem_stat s);
     shd_mem \<leftarrow> get_shmem_read_access_of SM (pwr_mem_stat s);
     Some \<lparr>decode = decode, alu = alu, fp = fp, dp = dp, int_mul32 = int_mul32, sfu = sfu,
       nb_rf = nb_rf, l1 = l1, shd_mem = shd_mem\<rparr> }"

text \<open>The seven blocks of a core.\<close>

definition sm_power :: "(u32 \<Rightarrow> 'd) \<Rightarrow> 'd::{plus, times, inverse} epa_config \<Rightarrow> 'd \<Rightarrow> sm_activity \<Rightarrow> 'd list" where
  "sm_power dbl config core_period a = (
     let decode_p = (dbl (decode a) * decode_epa config) / core_period;
         alu_p = (dbl (alu a) * alu_epa config) / core_period;
         fp_p = (dbl (fp a) * fp_epa config) / core_period;
         dp_p = (dbl (dp a) * dp_epa config) / core_period;
         int_mul32_p = (dbl (int_mul32 a) * mul32_epa config) / core_period;
         sfu_p = (dbl (sfu a) * sfu_epa config) / core_period;
         nb_rf_p = (dbl (nb_rf a) * rf_epa config) / core_period;
         l1_p = (dbl (l1 a) * l1_epa config) / core_period;
         shd_mem_p = (dbl (shd_mem a) * shd_epa config) / core_period
     in [(alu_p + fp_p + dp_p + int_mul32_p + sfu_p) / dbl 2, (alu_p + fp_p + dp_p + int_mul32_p + sfu_p) / dbl 2,
         decode_p, l1_p / dbl 2, l1_p / dbl 2, nb_rf_p, shd_mem_p])"

text \<open>\<open>double vals[46]\<close> is not initialised.\<close>

definition numComponents :: nat where
  "numComponents = 7"

definition put_val :: "nat \<Rightarrow> 'd list \<Rightarrow> nat \<Rightarrow> 'd option list \<Rightarrow> 'd option list option" where
  "put_val base ps k vals = do { p \<leftarrow> Prelude.at ps k; put vals (base + k) (Some p) }"

definition put_sm :: "(u32 \<Rightarrow> 'd) \<Rightarrow> 'd::{plus, times, inverse} epa_config \<Rightarrow> 'd \<Rightarrow> ('f, 'd) power_stat \<Rightarrow> nat \<Rightarrow>
    'd option list \<Rightarrow> 'd option list option" where
  "put_sm dbl config core_period s SM vals = do {
     a \<leftarrow> read_sm SM s;
     each (put_val (SM * numComponents) (sm_power dbl config core_period a)) [0..<numComponents] vals }"

text \<open>The four blocks behind the cores, at their fixed place.\<close>

definition chip_power :: "(u32 \<Rightarrow> 'd) \<Rightarrow> 'd::{plus, times, inverse} epa_config \<Rightarrow> 'd \<Rightarrow> u32 \<Rightarrow> u32 \<Rightarrow> 'd list" where
  "chip_power dbl config core_period l2 dram = (
     let l2_p = (dbl l2 * l2_epa config) / core_period;
         dram_p = (dbl dram * dram_epa config) / core_period
     in [l2_p, dram_p / dbl 3, dram_p / dbl 3, dram_p / dbl 3])"

definition power_interface_cycle ::
  "(u32 \<Rightarrow> 'd) \<Rightarrow> 'd::{plus, times, inverse} epa_config \<Rightarrow> bool \<Rightarrow> 'd \<Rightarrow> ('f::zero, 'd) power_stat \<Rightarrow> ('f, 'd) power_stat option" where
  "power_interface_cycle dbl config g_power_trace_enabled core_period s = do {
     let num_shaders = num_shader (pwr_core_stat s);
     vals \<leftarrow> each (put_sm dbl config core_period s) [0..<num_shaders] (replicate 46 None);
     let l2 = get_l2_read_hits (pwr_mem_stat s) + get_l2_write_hits (pwr_mem_stat s);
     dram \<leftarrow> get_dram_req (pwr_mem_stat s);
     vals \<leftarrow> each (put_val (6 * numComponents) (chip_power dbl config core_period l2 dram)) [0..<4] vals;
     s \<leftarrow> power_save_stats s;
     c \<leftarrow> update_power vals (pwr_core_stat s);
     let s = s\<lparr>pwr_core_stat := c\<rparr>;
     ensure (g_power_trace_enabled \<longrightarrow> (\<forall>i \<in> {num_shaders, num_shaders + 1}. i < 46 \<and> vals ! i \<noteq> None));
     Some s }"

section \<open>The values of the blocks\<close>

lemma put_vals:
  assumes "length ps = n" "n \<le> r"
  shows "each (put_val (length A) ps) [0..<n] (A @ replicate r None) = Some (A @ map Some ps @ replicate (r - n) None)"
proof -
  let ?g = "\<lambda>k. A @ map Some (take k ps) @ replicate (r - k) None"
  have "put_val (length A) ps k (?g k) = Some (?g (Suc k))" if k: "k < n" for k
  proof -
    have "replicate (r - k) None = None # replicate (r - Suc k) (None :: 'a option)"
      using k assms(2) by (metis Suc_diff_Suc less_le_trans replicate_Suc)
    thus ?thesis using k assms by (simp add: put_val_def list_update_append take_Suc_conv_app_nth)
  qed
  from each_upto[where f = "put_val (length A) ps" and g = ?g and n = n, OF this] show ?thesis
    using assms by simp
qed

lemma update_power_eq:
  assumes ok: "core_ok s" and n: "g_num_flp_blocks s \<le> length vs"
  shows "update_power (map Some vs @ rest) s =
    Some (s\<lparr>m_block_power := (m_block_power s)(CURRENT_STAT_IDX := take (g_num_flp_blocks s) vs)\<rparr>)"
proof -
  let ?n = "g_num_flp_blocks s"
  let ?g = "\<lambda>k. s\<lparr>m_block_power := (m_block_power s)(CURRENT_STAT_IDX := take k vs @ drop k (m_block_power s CURRENT_STAT_IDX))\<rparr>"
  let ?f = "\<lambda>i s. do {
     v \<leftarrow> Prelude.at (map Some vs @ rest) i;
     v \<leftarrow> v;
     xs \<leftarrow> put (m_block_power s CURRENT_STAT_IDX) i v;
     Some (s\<lparr>m_block_power := (m_block_power s)(CURRENT_STAT_IDX := xs)\<rparr>) }"
  have len: "length (m_block_power s CURRENT_STAT_IDX) = ?n" using ok by (simp add: core_ok_def)
  have "?f k (?g k) = Some (?g (Suc k))" if "k < ?n" for k
    using that n len by (simp add: nth_append list_update_append take_Suc_conv_app_nth Cons_nth_drop_Suc[symmetric])
  from each_upto[where f = ?f and g = ?g and n = ?n, OF this] show ?thesis
    using len by (simp add: update_power_def)
qed

lemma each_fails:
  assumes "x \<in> set xs" "\<And>s. P s \<Longrightarrow> f x s = None" "\<And>y s s'. P s \<Longrightarrow> f y s = Some s' \<Longrightarrow> P s'" "P s"
  shows "each f xs s = None"
  using assms
proof (induction xs arbitrary: s)
  case (Cons y ys)
  show ?case
  proof (cases "y = x")
    case False
    hence "x \<in> set ys" using Cons.prems(1) by simp
    thus ?thesis using Cons by (cases "f y s") simp_all
  qed (use Cons in simp)
qed simp

lemma update_power_uninitialised:
  assumes "i < g_num_flp_blocks s" "i < length vals" "vals ! i = None"
  shows "update_power vals s = None"
  unfolding update_power_def
  by (rule each_fails[where x = i and P = "\<lambda>_. True"]) (use assms in auto)

lemma length_put_val: "put_val b ps k vals = Some vals' \<Longrightarrow> length vals' = length vals"
  by (auto simp: put_val_def bind_Some_iff)

lemma each_length:
  assumes "\<And>x v v'. f x v = Some v' \<Longrightarrow> length v' = length v"
  shows "each f xs v = Some v' \<Longrightarrow> length v' = length v"
  using assms by (induction xs arbitrary: v) (auto simp: bind_Some_iff)

lemma length_put_sm: "put_sm dbl cfg T s i vals = Some vals' \<Longrightarrow> length vals' = length vals"
  using each_length[of "put_val b ps" for b ps, OF length_put_val] by (auto simp: put_sm_def bind_Some_iff)

section \<open>One cycle\<close>

definition power_ok :: "('f, 'd) power_stat \<Rightarrow> bool" where
  "power_ok s \<longleftrightarrow> core_ok (pwr_core_stat s) \<and> mem_ok (pwr_mem_stat s) \<and>
     pm_num_shader (pwr_mem_stat s) = num_shader (pwr_core_stat s)"

lemma sm_delta_ok: "core_ok s \<Longrightarrow> i < num_shader s \<Longrightarrow> \<exists>v. sm_delta c i s = Some v"
  by (simp add: sm_delta_def delta_eq)

lemma cache_delta_ok: "mem_ok s \<Longrightarrow> i < pm_num_shader s \<Longrightarrow> \<exists>v. cache_delta ty st i s = Some v"
  using core_cache_ok[of s i CURRENT_STAT_IDX] core_cache_ok[of s i PREV_STAT_IDX] by (auto simp: cache_delta_def)

lemma difference_ok: "\<exists>v. a = Some v \<Longrightarrow> \<exists>v. b = Some v \<Longrightarrow> \<exists>v. difference a b = Some v"
  by (auto simp: difference_def)

lemma hits_ok: "mem_ok s \<Longrightarrow> i < pm_num_shader s \<Longrightarrow> \<exists>v. get_l1d_hits_of i s = Some v"
  using difference_ok[OF cache_delta_ok cache_delta_ok, of s i s i "[GLOBAL_ACC_R, LOCAL_ACC_R]" "[HIT, MISS, HIT_RESERVED]" "[GLOBAL_ACC_R, LOCAL_ACC_R]" "[MISS]"]
    difference_ok[OF cache_delta_ok cache_delta_ok, of s i s i "[GLOBAL_ACC_W, LOCAL_ACC_W]" "[HIT, MISS, HIT_RESERVED]" "[GLOBAL_ACC_W, LOCAL_ACC_W]" "[MISS]"]
  by (auto simp: l1_reading_defs)

lemmas sm_reading_defs = get_total_inst_def get_tot_alu_accessess_def get_tot_fp_accessess_def get_tot_dp_accessess_def
  get_tot_imul32_accessess_def get_tot_sfu_accessess_def get_tot_rf_accessess_def

lemma read_sm_ok:
  assumes "power_ok s" "i < num_shader (pwr_core_stat s)"
  shows "\<exists>a. read_sm i s = Some a"
proof -
  have c: "\<exists>v. sm_delta c i (pwr_core_stat s) = Some v" for c
    by (rule sm_delta_ok) (use assms in \<open>simp_all add: power_ok_def\<close>)
  have "\<exists>v. get_l1d_hits_of i (pwr_mem_stat s) = Some v"
    by (rule hits_ok) (use assms in \<open>simp_all add: power_ok_def\<close>)
  moreover have "\<exists>v. get_shmem_read_access_of i (pwr_mem_stat s) = Some v"
    using assms by (simp add: power_ok_def mem_ok_def get_shmem_read_access_of_def shmem_delta_def)
  ultimately show ?thesis
    using c[of m_num_decoded_insn] c[of m_alu_cntr] c[of m_fp_cntr] c[of m_dp_cntr] c[of m_imul32_cntr] c[of m_sfu_cntr] c[of m_rf_cntr]
    by (auto simp: read_sm_def sm_reading_defs)
qed

lemma total_dram_ok: "mem_ok s \<Longrightarrow> \<exists>v. get_dram_req s = Some v"
proof -
  assume ok: "mem_ok s"
  have "\<exists>v. sum_opt (map (\<lambda>i. dram_delta n_req i s) is) = Some v" if "set is \<subseteq> {..<m_n_mem s}" for "is"
    using that ok by (induction "is") (auto simp: dram_delta_def mem_ok_def)
  moreover have "set [0..<m_n_mem s] \<subseteq> {..<m_n_mem s}" by auto
  ultimately show ?thesis by (simp add: get_dram_req_def total_dram_delta_def)
qed

lemma length_sm_power [simp]: "length (sm_power dbl cfg T a) = 7"
  by (simp add: sm_power_def Let_def)

lemma length_chip_power [simp]: "length (chip_power dbl cfg T l2 dram) = 4"
  by (simp add: chip_power_def Let_def)

lemma put_sm_eq:
  assumes "read_sm i s = Some a" "length A = i * 7" "7 \<le> r"
  shows "put_sm dbl cfg T s i (A @ replicate r None) = Some (A @ map Some (sm_power dbl cfg T a) @ replicate (r - 7) None)"
  using put_vals[of "sm_power dbl cfg T a" 7 r A] assms by (simp add: put_sm_def numComponents_def)

lemma length_concat_blocks: "(\<And>i. length (P i) = 7) \<Longrightarrow> length (concat (map P [0..<m])) = m * 7"
  by (induction m) auto

lemma nth_concat_blocks:
  assumes "\<And>i. length (P i) = 7"
  shows "i < m \<Longrightarrow> k < 7 \<Longrightarrow> concat (map P [0..<m]) ! (i * 7 + k) = P i ! k"
proof (induction m)
  case (Suc m)
  have len: "length (concat (map P [0..<m])) = m * 7" by (rule length_concat_blocks) (rule assms)
  show ?case
  proof (cases "i < m")
    case True
    hence "i * 7 + k < m * 7" using Suc.prems by simp
    thus ?thesis using True Suc by (simp add: nth_append len)
  next
    case False
    hence "i = m" using Suc.prems by simp
    thus ?thesis using Suc.prems by (simp add: nth_append len)
  qed
qed simp

definition sm_blocks :: "(u32 \<Rightarrow> 'd) \<Rightarrow> 'd::{plus, times, inverse} epa_config \<Rightarrow> 'd \<Rightarrow> ('f, 'd) power_stat \<Rightarrow> nat \<Rightarrow> 'd list" where
  "sm_blocks dbl cfg T s i = sm_power dbl cfg T (the (read_sm i s))"

lemma put_sms:
  assumes ok: "power_ok s" and n: "n \<le> num_shader (pwr_core_stat s)" "n \<le> 6"
  shows "each (put_sm dbl cfg T s) [0..<n] (replicate 46 None) =
    Some (map Some (concat (map (sm_blocks dbl cfg T s) [0..<n])) @ replicate (46 - n * 7) None)"
proof -
  let ?P = "sm_blocks dbl cfg T s"
  let ?g = "\<lambda>m. map Some (concat (map ?P [0..<m])) @ replicate (46 - m * 7) None"
  have len: "length (?P i) = 7" for i by (simp add: sm_blocks_def)
  have "put_sm dbl cfg T s m (?g m) = Some (?g (Suc m))" if m: "m < n" for m
  proof -
    obtain a where a: "read_sm m s = Some a" using read_sm_ok[OF ok] m n by force
    have "length (map Some (concat (map ?P [0..<m]))) = m * 7" using length_concat_blocks[of ?P m, OF len] by simp
    from put_sm_eq[OF a this, of "46 - m * 7"] m n(2) show ?thesis by (simp add: sm_blocks_def a)
  qed
  from each_upto[where f = "put_sm dbl cfg T s" and g = ?g and n = n, OF this] show ?thesis by simp
qed

lemma power_save_stats_eq:
  "power_ok s \<Longrightarrow> power_save_stats s = Some (s\<lparr>
     pwr_core_stat := saved_upto (num_shader (pwr_core_stat s)) (pwr_core_stat s), pwr_mem_stat := mem_saved (pwr_mem_stat s),
     m_average_pipeline_duty_cycle := 0, m_active_sms := 0\<rparr>)"
  by (simp add: power_save_stats_def power_ok_def core_save_stats_eq mem_save_stats_eq)

text \<open>With six cores and 46 blocks every value is set, and the blocks have these powers.\<close>

definition block_powers :: "(u32 \<Rightarrow> 'd) \<Rightarrow> 'd::{plus, times, inverse} epa_config \<Rightarrow> 'd \<Rightarrow> ('f, 'd) power_stat \<Rightarrow> 'd list" where
  "block_powers dbl cfg T s = concat (map (sm_blocks dbl cfg T s) [0..<6]) @
     chip_power dbl cfg T (get_l2_read_hits (pwr_mem_stat s) + get_l2_write_hits (pwr_mem_stat s)) (the (get_dram_req (pwr_mem_stat s)))"

lemma length_block_powers [simp]: "length (block_powers dbl cfg T s) = 46"
  using length_concat_blocks[of "sm_blocks dbl cfg T s" 6] by (simp add: block_powers_def sm_blocks_def)

lemma block_powers_nth:
  "i < 6 \<Longrightarrow> k < 7 \<Longrightarrow> block_powers dbl cfg T s ! (i * 7 + k) = sm_blocks dbl cfg T s i ! k"
  "block_powers dbl cfg T s ! (42 + k) = chip_power dbl cfg T
     (get_l2_read_hits (pwr_mem_stat s) + get_l2_write_hits (pwr_mem_stat s)) (the (get_dram_req (pwr_mem_stat s))) ! k"
proof -
  let ?P = "sm_blocks dbl cfg T s"
  have len: "length (?P i) = 7" for i by (simp add: sm_blocks_def)
  have lenA: "length (concat (map ?P [0..<6])) = 42" using length_concat_blocks[of ?P 6, OF len] by simp
  show "block_powers dbl cfg T s ! (i * 7 + k) = ?P i ! k" if "i < 6" "k < 7"
  proof -
    have "i * 7 + k < length (concat (map ?P [0..<6]))" unfolding lenA using that by simp
    thus ?thesis unfolding block_powers_def using nth_concat_blocks[of ?P, OF len that] by (simp only: nth_append if_True)
  qed
  show "block_powers dbl cfg T s ! (42 + k) = chip_power dbl cfg T
     (get_l2_read_hits (pwr_mem_stat s) + get_l2_write_hits (pwr_mem_stat s)) (the (get_dram_req (pwr_mem_stat s))) ! k"
    unfolding block_powers_def using nth_append_length_plus[of "concat (map ?P [0..<6])"] by (simp only: lenA)
qed

lemma cycle_six:
  assumes ok: "power_ok s" and six: "num_shader (pwr_core_stat s) = 6" and blocks: "g_num_flp_blocks (pwr_core_stat s) = 46"
  shows "\<exists>t. power_interface_cycle dbl cfg trace T s = Some t \<and>
    m_block_power (pwr_core_stat t) CURRENT_STAT_IDX = block_powers dbl cfg T s \<and> g_num_flp_blocks (pwr_core_stat t) = 46"
proof -
  let ?m = "pwr_mem_stat s"
  let ?A = "concat (map (sm_blocks dbl cfg T s) [0..<6])"
  let ?c = "saved_upto 6 (pwr_core_stat s)"
  have lenA: "length ?A = 42" using length_concat_blocks[of "sm_blocks dbl cfg T s" 6] by (simp add: sm_blocks_def)
  obtain d where d: "get_dram_req ?m = Some d" using total_dram_ok ok by (auto simp: power_ok_def)
  let ?ps = "chip_power dbl cfg T (get_l2_read_hits ?m + get_l2_write_hits ?m) d"
  have vals: "each (put_sm dbl cfg T s) [0..<6] (replicate 46 None) = Some (map Some ?A @ replicate 4 None)"
    using put_sms[OF ok, of 6 dbl cfg T] six by simp
  have chip: "each (put_val 42 ?ps) [0..<4] (map Some ?A @ replicate 4 None) = Some (map Some (block_powers dbl cfg T s))"
    using put_vals[of ?ps 4 4 "map Some ?A"] lenA by (simp add: block_powers_def d)
  have c: "core_ok ?c" "g_num_flp_blocks ?c = 46" using ok blocks by (simp_all add: power_ok_def saved_ok)
  have upd: "update_power (map Some (block_powers dbl cfg T s)) ?c =
      Some (?c\<lparr>m_block_power := (m_block_power ?c)(CURRENT_STAT_IDX := block_powers dbl cfg T s)\<rparr>)"
    using update_power_eq[OF c(1), of "block_powers dbl cfg T s" "[]"] c(2) by simp
  show ?thesis
    using upd c(2) by (simp add: power_interface_cycle_def six vals numComponents_def d chip power_save_stats_eq[OF ok] Let_def ensure_def)
qed

text \<open>Fewer cores leave values uninitialised, more write behind the end.\<close>

lemma cycle_few:
  assumes ok: "power_ok s" and few: "num_shader (pwr_core_stat s) < 6" and blocks: "g_num_flp_blocks (pwr_core_stat s) = 46"
  shows "power_interface_cycle dbl cfg trace T s = None"
proof -
  let ?n = "num_shader (pwr_core_stat s)" and ?m = "pwr_mem_stat s"
  let ?A = "concat (map (sm_blocks dbl cfg T s) [0..<?n])"
  have lenA: "length ?A = ?n * 7" by (rule length_concat_blocks) (simp add: sm_blocks_def)
  obtain d where d: "get_dram_req ?m = Some d" using total_dram_ok ok by (auto simp: power_ok_def)
  let ?ps = "chip_power dbl cfg T (get_l2_read_hits ?m + get_l2_write_hits ?m) d"
  let ?B = "map Some ?A @ replicate (42 - ?n * 7) None"
  have split: "replicate (46 - ?n * 7) None = replicate (42 - ?n * 7) None @ replicate 4 (None :: 'b option)"
    using few by (subst replicate_add[symmetric]) simp
  have vals: "each (put_sm dbl cfg T s) [0..<?n] (replicate 46 None) = Some (?B @ replicate 4 None)"
    using put_sms[OF ok, of ?n dbl cfg T] few by (simp add: split)
  have lenB: "length ?B = 42" using lenA few by simp
  have chip: "each (put_val 42 ?ps) [0..<4] (?B @ replicate 4 None) = Some (?B @ map Some ?ps)"
    using put_vals[of ?ps 4 4 ?B] lenB by simp
  have none: "(?B @ map Some ?ps) ! (?n * 7) = None"
    using lenA few by (simp add: nth_append)
  have fail: "update_power (?B @ map Some ?ps) (saved_upto ?n (pwr_core_stat s)) = None"
    by (rule update_power_uninitialised[where i = "?n * 7"]) (use none blocks few lenB in simp_all)
  show ?thesis
    by (simp only: power_interface_cycle_def Let_def vals bind.bind_lunit d numComponents_def) (use chip fail in \<open>simp add: power_save_stats_eq[OF ok]\<close>)
qed

lemma cycle_many:
  assumes many: "6 < num_shader (pwr_core_stat s)"
  shows "power_interface_cycle dbl cfg trace T s = None"
proof -
  have over: "put_sm dbl cfg T s 6 vals = None" if len: "length vals = 46" for vals
  proof (cases "read_sm 6 s")
    case (Some a)
    have "each (put_val (6 * 7) (sm_power dbl cfg T a)) [0..<7] vals = None"
      by (rule each_fails[where x = 4 and P = "\<lambda>v. length v = 46"])
        (use len in \<open>auto simp: put_val_def bind_Some_iff bind_None_iff\<close>)
    thus ?thesis using Some by (simp add: put_sm_def numComponents_def)
  qed (simp add: put_sm_def)
  have "each (put_sm dbl cfg T s) [0..<num_shader (pwr_core_stat s)] (replicate 46 None) = None"
  proof (rule each_fails[where x = 6 and P = "\<lambda>v. length v = 46"])
    show "length vals' = 46" if "length vals = 46" "put_sm dbl cfg T s i vals = Some vals'" for i vals vals'
      using length_put_sm[OF that(2)] that(1) by simp
  qed (use many over in simp_all)
  thus ?thesis by (simp add: power_interface_cycle_def)
qed

section \<open>Energy\<close>

text \<open>Doubles as real numbers, and the energy of the accesses of a core.\<close>

abbreviation exact :: "u32 \<Rightarrow> real" where
  "exact n \<equiv> real (unat n)"

definition sm_energy :: "real epa_config \<Rightarrow> sm_activity \<Rightarrow> real" where
  "sm_energy cfg a =
     exact (decode a) * decode_epa cfg + exact (alu a) * alu_epa cfg + exact (fp a) * fp_epa cfg +
     exact (dp a) * dp_epa cfg + exact (int_mul32 a) * mul32_epa cfg + exact (sfu a) * sfu_epa cfg +
     exact (nb_rf a) * rf_epa cfg + exact (l1 a) * l1_epa cfg + exact (shd_mem a) * shd_epa cfg"

lemma sum_lessThan_7: "(\<Sum>k<7. f k) = f 0 + f 1 + f 2 + f 3 + f 4 + f 5 + f (6::nat)" for f :: "nat \<Rightarrow> real"
  by (simp add: eval_nat_numeral)

lemma sm_power_energy:
  assumes "T \<noteq> 0"
  shows "(\<Sum>k<7. sm_power exact cfg T a ! k) * T = sm_energy cfg a"
  using assms by (simp add: sum_lessThan_7 sm_power_def sm_energy_def Let_def field_simps)

lemma chip_power_energy:
  assumes "T \<noteq> 0"
  shows "chip_power exact cfg T l2 dram ! 0 * T = exact l2 * l2_epa cfg"
    "(chip_power exact cfg T l2 dram ! 1 + chip_power exact cfg T l2 dram ! 2 + chip_power exact cfg T l2 dram ! 3) * T =
       exact dram * dram_epa cfg"
proof -
  have e: "exact 3 = 3" by simp
  show "chip_power exact cfg T l2 dram ! 0 * T = exact l2 * l2_epa cfg"
    "(chip_power exact cfg T l2 dram ! 1 + chip_power exact cfg T l2 dram ! 2 + chip_power exact cfg T l2 dram ! 3) * T =
       exact dram * dram_epa cfg"
    unfolding chip_power_def Let_def e using assms by (simp_all add: nth_Cons' field_simps)
qed

section \<open>Properties\<close>

text \<open>
  C29: The power of the blocks accounts for the energy of the accesses. With six cores and 46 blocks a cycle of the
  power interface runs through, and for every core the power of its seven blocks times the length of
  the sample is the sum of its accesses, each weighted with the energy of one access; the same
  holds for the block of the L2 cache and for the three blocks of the memory controllers together.
\<close>

theorem power_accounts_for_energy:
  assumes ok: "power_ok s" and six: "num_shader (pwr_core_stat s) = 6" and blocks: "g_num_flp_blocks (pwr_core_stat s) = 46"
    and time: "T \<noteq> 0"
  defines "P \<equiv> \<lambda>t b. the (get_power b (pwr_core_stat t))"
  shows "\<exists>t. power_interface_cycle exact cfg trace T s = Some t \<and>
    (\<forall>SM < 6. \<exists>a. read_sm SM s = Some a \<and> (\<Sum>k<7. P t (SM * 7 + k)) * T = sm_energy cfg a) \<and>
    P t 42 * T = exact (get_l2_read_hits (pwr_mem_stat s) + get_l2_write_hits (pwr_mem_stat s)) * l2_epa cfg \<and>
    (\<exists>n. get_dram_req (pwr_mem_stat s) = Some n \<and> (P t 43 + P t 44 + P t 45) * T = exact n * dram_epa cfg)"
proof -
  obtain t where t: "power_interface_cycle exact cfg trace T s = Some t"
    and bp: "m_block_power (pwr_core_stat t) CURRENT_STAT_IDX = block_powers exact cfg T s"
    and flp: "g_num_flp_blocks (pwr_core_stat t) = 46"
    using cycle_six[OF ok six blocks] by blast
  have P: "P t b = block_powers exact cfg T s ! b" if "b < 46" for b
    using that by (simp add: P_def get_power_def flp bp)
  have sm: "\<exists>a. read_sm SM s = Some a \<and> (\<Sum>k<7. P t (SM * 7 + k)) * T = sm_energy cfg a" if SM: "SM < 6" for SM
  proof -
    obtain a where a: "read_sm SM s = Some a" using read_sm_ok[OF ok] SM six by auto
    have "P t (SM * 7 + k) = sm_power exact cfg T a ! k" if "k < 7" for k
      using that SM by (simp add: P block_powers_nth) (simp add: sm_blocks_def a)
    hence "(\<Sum>k<7. P t (SM * 7 + k)) = (\<Sum>k<7. sm_power exact cfg T a ! k)" by simp
    thus ?thesis using a sm_power_energy[OF time] by simp
  qed
  obtain d where d: "get_dram_req (pwr_mem_stat s) = Some d" using total_dram_ok ok by (auto simp: power_ok_def)
  have "P t (42 + k) = chip_power exact cfg T (get_l2_read_hits (pwr_mem_stat s) + get_l2_write_hits (pwr_mem_stat s)) d ! k"
    if "k < 4" for k
    using that by (simp add: P block_powers_nth d)
  from this[of 0] this[of 1] this[of 2] this[of 3] show ?thesis
    using t sm d chip_power_energy[OF time] by simp
qed

text \<open>The statistics of six cores after one more ALU access on each.\<close>

definition six_cores :: "(real, real) power_stat" where
  "six_cores = \<lparr>pwr_core_stat = power_core_init 6 46 1 1 (\<lambda>c. replicate 6 (if c = m_alu_cntr then 1 else 0)) (replicate 6 0),
     pwr_mem_stat = power_mem_init 6 1 6 (replicate 6 0), m_average_pipeline_duty_cycle = 0, m_active_sms = 0\<rparr>"

lemma six_cores_ok: "power_ok six_cores" "num_shader (pwr_core_stat six_cores) = 6" "g_num_flp_blocks (pwr_core_stat six_cores) = 46"
proof -
  show "power_ok six_cores"
    using init_mem_ok[of "replicate 6 0" 6 1 6]
    by (simp add: power_ok_def six_cores_def) (simp add: core_ok_def power_core_init_def power_mem_init_def split: stat_idx.split)
qed (simp_all add: six_cores_def power_core_init_def)

definition unit_epa :: "real epa_config" where
  "unit_epa = \<lparr>decode_epa = 1, alu_epa = 2, fp_epa = 1, dp_epa = 1, mul32_epa = 1, sfu_epa = 1, rf_epa = 1,
     l1_epa = 1, shd_epa = 1, l2_epa = 1, dram_epa = 1\<rparr>"

theorem power_accounts_for_energy_witness:
  "\<exists>t a. power_interface_cycle exact unit_epa False 4 six_cores = Some t \<and> read_sm 0 six_cores = Some a \<and>
    (\<Sum>k<7. the (get_power k (pwr_core_stat t))) * 4 = sm_energy unit_epa a"
proof -
  from power_accounts_for_energy[OF six_cores_ok, of 4 unit_epa False]
  obtain t where t: "power_interface_cycle exact unit_epa False 4 six_cores = Some t"
    and sm: "\<forall>SM < 6. \<exists>a. read_sm SM six_cores = Some a \<and>
      (\<Sum>k<7. the (get_power (SM * 7 + k) (pwr_core_stat t))) * 4 = sm_energy unit_epa a"
    by auto
  from sm[rule_format, of 0] t show ?thesis by auto
qed

text \<open>
  C30: The power interface works for six cores only. On the floorplan of 46 blocks its cycle
  succeeds exactly if the configuration has six cores: with fewer cores, values without an
  initialisation become the power of a block, and with more, values are written behind the end of their array.
\<close>

theorem power_interface_needs_six_cores:
  assumes ok: "power_ok s" and blocks: "g_num_flp_blocks (pwr_core_stat s) = 46"
  shows "power_interface_cycle dbl cfg trace T s \<noteq> None \<longleftrightarrow> num_shader (pwr_core_stat s) = 6"
proof (cases "num_shader (pwr_core_stat s)" "6 :: nat" rule: linorder_cases)
  case less thus ?thesis using cycle_few[OF ok less blocks] by simp
next
  case equal thus ?thesis using cycle_six[OF ok equal blocks] by force
next
  case greater thus ?thesis using cycle_many[OF greater] by simp
qed

theorem power_interface_needs_six_cores_witness:
  "power_interface_cycle exact unit_epa False 4 six_cores \<noteq> None \<longleftrightarrow> num_shader (pwr_core_stat six_cores) = 6"
  by (rule power_interface_needs_six_cores) (rule six_cores_ok(1), rule six_cores_ok(3))

end
