(* ===== verification/GpuCalorie.thy ===== *)
theory GpuCalorie
  imports PowerInterface "HOL-Library.Char_ord"
begin

text \<open>
  From power to temperature: the wrapper around the thermal model (\<open>gpucalorie/hotspot/hotspot_wrapper.cc\<close>),
  for the block model, and the class that calls it (\<open>gpucalorie/gpu_calorie.cc\<close>). The solver
  \<open>steady_state_temp\<close> works in floating point and is a parameter: a function from the powers to the temperatures, both in the
  order of the floorplan.
\<close>

section \<open>The floorplan\<close>

text \<open>\<open>strcasecmp\<close> compares letters without regard to case.\<close>

definition lower :: "char \<Rightarrow> char" where
  "lower c = (if CHR ''A'' \<le> c \<and> c \<le> CHR ''Z'' then char_of (of_char c + 32 :: nat) else c)"

definition same_name :: "string \<Rightarrow> string \<Rightarrow> bool" where
  "same_name a b \<longleftrightarrow> map lower a = map lower b"

text \<open>A block that is missing from the floorplan is fatal.\<close>

fun blk_index_from :: "nat \<Rightarrow> string list \<Rightarrow> string \<Rightarrow> nat option" where
  "blk_index_from i [] name = None"
| "blk_index_from i (u # us) name = (if same_name name u then Some i else blk_index_from (Suc i) us name)"

definition get_blk_index :: "string list \<Rightarrow> string \<Rightarrow> nat option" where
  "get_blk_index flp name = blk_index_from 0 flp name"

section \<open>The wrapper\<close>

record 'd hotspot_wrapper =
  hw_flp :: "string list"              \<comment> \<open>names of the units of the floorplan\<close>
  hw_names :: "string list"            \<comment> \<open>names of the blocks of the power model\<close>
  num_functional_blocks :: nat
  hw_vals :: "'d list"
  hw_power :: "'d list"
  hw_temp :: "'d list"
  num_samples :: u64

definition wrapper_update_power :: "('f, 'd) power_stat \<Rightarrow> 'd hotspot_wrapper \<Rightarrow> 'd hotspot_wrapper option" where
  "wrapper_update_power power_stats h = each (\<lambda>i h. do {
     p \<leftarrow> get_power i (pwr_core_stat power_stats);
     vs \<leftarrow> put (hw_vals h) i p;
     Some (h\<lparr>hw_vals := vs\<rparr>) }) [0..<num_functional_blocks h] h"

definition wrapper_update_temps :: "'d list \<Rightarrow> nat \<Rightarrow> ('f, 'd) power_stat \<Rightarrow> ('f, 'd) power_stat option" where
  "wrapper_update_temps vals n power_stats = each (\<lambda>i s. do {
     v \<leftarrow> Prelude.at vals i;
     c \<leftarrow> set_temp v i (pwr_core_stat s);
     Some (s\<lparr>pwr_core_stat := c\<rparr>) }) [0..<n] power_stats"

text \<open>The running average of one block, and its reset.\<close>

definition average_block :: "(u64 \<Rightarrow> 'd) \<Rightarrow> nat \<Rightarrow> 'd::{plus, minus, inverse} hotspot_wrapper \<Rightarrow> 'd hotspot_wrapper option" where
  "average_block dbl i h = do {
     name \<leftarrow> Prelude.at (hw_names h) i;
     idx \<leftarrow> get_blk_index (hw_flp h) name;
     v \<leftarrow> Prelude.at (hw_vals h) i;
     p \<leftarrow> Prelude.at (hw_power h) idx;
     ps \<leftarrow> put (hw_power h) idx (p + (v - p) / dbl (num_samples h + 1));
     Some (h\<lparr>hw_power := ps\<rparr>) }"

definition reset_block :: "(u64 \<Rightarrow> 'd) \<Rightarrow> nat \<Rightarrow> 'd hotspot_wrapper \<Rightarrow> 'd hotspot_wrapper option" where
  "reset_block dbl i h = do {
     name \<leftarrow> Prelude.at (hw_names h) i;
     idx \<leftarrow> get_blk_index (hw_flp h) name;
     ps \<leftarrow> put (hw_power h) idx (dbl 0);
     Some (h\<lparr>hw_power := ps\<rparr>) }"

definition wrapper_compute ::
  "('d list \<Rightarrow> 'd list) \<Rightarrow> (u64 \<Rightarrow> 'd) \<Rightarrow> ('f, 'd) power_stat \<Rightarrow> 'd::{plus, minus, inverse} hotspot_wrapper \<Rightarrow>
    (('f, 'd) power_stat \<times> 'd hotspot_wrapper) option" where
  "wrapper_compute steady_state_temp dbl power_stats h = do {
     h \<leftarrow> wrapper_update_power power_stats h;
     h \<leftarrow> each (average_block dbl) [0..<num_functional_blocks h] h;
     let h = h\<lparr>num_samples := num_samples h + 1\<rparr>;
     if num_samples h mod 20 \<noteq> 0 then Some (power_stats, h)
     else do {
       let h = h\<lparr>hw_temp := steady_state_temp (hw_power h)\<rparr>;
       s \<leftarrow> wrapper_update_temps (hw_temp h) (num_functional_blocks h) power_stats;
       let h = h\<lparr>num_samples := 0\<rparr>;
       h \<leftarrow> each (reset_block dbl) [0..<num_functional_blocks h] h;
       Some (s, h) } }"

text \<open>The maximum over the units of the floorplan, whose number is \<open>n\<close>; a negative temperature is fatal.\<close>

definition find_max_temp_block :: "(u64 \<Rightarrow> 'd) \<Rightarrow> nat \<Rightarrow> 'd::ord list \<Rightarrow> 'd option" where
  "find_max_temp_block dbl n temp = each (\<lambda>i m. do {
     t \<leftarrow> Prelude.at temp i;
     if t < dbl 0 then None else if m < t then Some t else Some m }) [0..<n] (dbl 0)"

section \<open>The caller\<close>

record 'd gpu_calorie =
  gc_init :: bool      \<comment> \<open>the static flag of \<open>cycle\<close>\<close>
  m_hotspot_wrapper :: "'d hotspot_wrapper"

record 'd calorie_config =
  epas :: "'d epa_config"
  gpu_stat_sample_freq :: u32
  g_power_trace_enabled :: bool
  g_thermal_simulation_enabled :: bool

definition gpu_calorie_cycle ::
  "('d list \<Rightarrow> 'd list) \<Rightarrow> (u64 \<Rightarrow> 'd) \<Rightarrow> 'd calorie_config \<Rightarrow> 'd \<Rightarrow> ('f::zero, 'd) power_stat \<Rightarrow>
     'd::{plus, minus, times, inverse} gpu_calorie \<Rightarrow> (('f, 'd) power_stat \<times> 'd gpu_calorie) option" where
  "gpu_calorie_cycle steady dbl config core_period s g =
    (if gc_init g then Some (s, g\<lparr>gc_init := False\<rparr>)
     else do {
       let elapsed_time = core_period * dbl (ucast (gpu_stat_sample_freq config));
       s \<leftarrow> power_interface_cycle (\<lambda>n. dbl (ucast n)) (epas config) (g_power_trace_enabled config) elapsed_time s;
       if g_thermal_simulation_enabled config
       then do {
         (s, h) \<leftarrow> wrapper_compute steady dbl s (m_hotspot_wrapper g);
         Some (s, g\<lparr>m_hotspot_wrapper := h\<rparr>) }
       else Some (s, g) })"

definition get_max_chip_temp :: "(u64 \<Rightarrow> 'd) \<Rightarrow> 'd::ord gpu_calorie \<Rightarrow> 'd option" where
  "get_max_chip_temp dbl g = find_max_temp_block dbl (length (hw_flp (m_hotspot_wrapper g))) (hw_temp (m_hotspot_wrapper g))"

section \<open>The blocks of the wrapper\<close>

definition wrapper_ok :: "'d hotspot_wrapper \<Rightarrow> bool" where
  "wrapper_ok h \<longleftrightarrow> (let n = num_functional_blocks h; slot = (\<lambda>i. the (get_blk_index (hw_flp h) (hw_names h ! i))) in
     length (hw_names h) = n \<and> n \<le> length (hw_vals h) \<and> inj_on slot {..<n} \<and>
     (\<forall>i < n. get_blk_index (hw_flp h) (hw_names h ! i) \<noteq> None \<and> slot i < length (hw_power h)))"

abbreviation slot :: "'d hotspot_wrapper \<Rightarrow> nat \<Rightarrow> nat" where
  "slot h i \<equiv> the (get_blk_index (hw_flp h) (hw_names h ! i))"

definition stat_ok :: "nat \<Rightarrow> ('f, 'd) power_stat \<Rightarrow> bool" where
  "stat_ok n s \<longleftrightarrow> core_ok (pwr_core_stat s) \<and> n \<le> g_num_flp_blocks (pwr_core_stat s)"

definition block_power_of :: "nat \<Rightarrow> ('f, 'd) power_stat \<Rightarrow> 'd" where
  "block_power_of i s = m_block_power (pwr_core_stat s) CURRENT_STAT_IDX ! i"

lemma update_power_vals:
  assumes "stat_ok n s" "num_functional_blocks h = n" "n \<le> length (hw_vals h)"
  shows "wrapper_update_power s h =
    Some (h\<lparr>hw_vals := map (\<lambda>i. block_power_of i s) [0..<n] @ drop n (hw_vals h)\<rparr>)"
proof -
  let ?g = "\<lambda>m. h\<lparr>hw_vals := map (\<lambda>i. block_power_of i s) [0..<m] @ drop m (hw_vals h)\<rparr>"
  let ?f = "\<lambda>i h. do { p \<leftarrow> get_power i (pwr_core_stat s); vs \<leftarrow> put (hw_vals h) i p; Some (h\<lparr>hw_vals := vs\<rparr>) }"
  have "?f m (?g m) = Some (?g (Suc m))" if "m < n" for m
    using that assms by (simp add: get_power_def stat_ok_def core_ok_def block_power_of_def list_update_append
        Cons_nth_drop_Suc[symmetric])
  from each_upto[where f = ?f and g = ?g and n = n, OF this] show ?thesis
    using assms(2) by (simp add: wrapper_update_power_def)
qed

text \<open>Changing the elements at the slots of the first \<open>m\<close> blocks.\<close>

definition at_slots :: "(nat \<Rightarrow> nat) \<Rightarrow> (nat \<Rightarrow> 'd \<Rightarrow> 'd) \<Rightarrow> nat \<Rightarrow> 'd list \<Rightarrow> 'd list" where
  "at_slots sl f m ps = fold (\<lambda>i ps. ps[sl i := f i (ps ! sl i)]) [0..<m] ps"

lemma at_slots_simps [simp]:
  "at_slots sl f 0 ps = ps"
  "at_slots sl f (Suc m) ps = (at_slots sl f m ps)[sl m := f m (at_slots sl f m ps ! sl m)]"
  by (simp_all add: at_slots_def)

lemma length_at_slots [simp]: "length (at_slots sl f m ps) = length ps"
  by (induction m) simp_all

lemma at_slots_nth:
  assumes "inj_on sl {..<n}" "\<forall>i < n. sl i < length ps" "i < n"
  shows "m \<le> n \<Longrightarrow> at_slots sl f m ps ! sl i = (if i < m then f i (ps ! sl i) else ps ! sl i)"
proof (induction m)
  case (Suc m)
  have "sl m = sl i \<longleftrightarrow> m = i" using assms(1,3) Suc.prems by (auto simp: inj_on_def)
  thus ?case using Suc assms by auto
qed simp

lemma average_blocks:
  assumes "wrapper_ok h"
  shows "each (average_block dbl) [0..<num_functional_blocks h] h =
    Some (h\<lparr>hw_power := at_slots (slot h) (\<lambda>i p. p + (hw_vals h ! i - p) / dbl (num_samples h + 1)) (num_functional_blocks h) (hw_power h)\<rparr>)"
proof -
  let ?g = "\<lambda>m. h\<lparr>hw_power := at_slots (slot h) (\<lambda>i p. p + (hw_vals h ! i - p) / dbl (num_samples h + 1)) m (hw_power h)\<rparr>"
  have "average_block dbl m (?g m) = Some (?g (Suc m))" if "m < num_functional_blocks h" for m
    using that assms by (auto simp: average_block_def wrapper_ok_def Let_def)
  from each_upto[where f = "average_block dbl" and g = ?g and n = "num_functional_blocks h", OF this] show ?thesis by simp
qed

lemma reset_blocks:
  assumes "wrapper_ok h"
  shows "each (reset_block dbl) [0..<num_functional_blocks h] h =
    Some (h\<lparr>hw_power := at_slots (slot h) (\<lambda>_ _. dbl 0) (num_functional_blocks h) (hw_power h)\<rparr>)"
proof -
  let ?g = "\<lambda>m. h\<lparr>hw_power := at_slots (slot h) (\<lambda>_ _. dbl 0) m (hw_power h)\<rparr>"
  have "reset_block dbl m (?g m) = Some (?g (Suc m))" if "m < num_functional_blocks h" for m
    using that assms by (auto simp: reset_block_def wrapper_ok_def Let_def)
  from each_upto[where f = "reset_block dbl" and g = ?g and n = "num_functional_blocks h", OF this] show ?thesis by simp
qed

definition with_temps :: "'d list \<Rightarrow> ('f, 'd) power_stat \<Rightarrow> ('f, 'd) power_stat" where
  "with_temps ts s = s\<lparr>pwr_core_stat := pwr_core_stat s\<lparr>m_block_temp := (m_block_temp (pwr_core_stat s))(CURRENT_STAT_IDX := ts)\<rparr>\<rparr>"

lemma update_temps_eq:
  assumes "stat_ok n s" "n \<le> length ts"
  shows "wrapper_update_temps ts n s = Some (with_temps (take n ts @ drop n (m_block_temp (pwr_core_stat s) CURRENT_STAT_IDX)) s)"
proof -
  let ?old = "m_block_temp (pwr_core_stat s) CURRENT_STAT_IDX"
  let ?g = "\<lambda>m. with_temps (take m ts @ drop m ?old) s"
  let ?f = "\<lambda>i s. do { v \<leftarrow> Prelude.at ts i; c \<leftarrow> set_temp v i (pwr_core_stat s); Some (s\<lparr>pwr_core_stat := c\<rparr>) }"
  have len: "length ?old = g_num_flp_blocks (pwr_core_stat s)" using assms by (simp add: stat_ok_def core_ok_def)
  have step: "?f m (?g m) = Some (?g (Suc m))" if "m < n" for m
    using that assms(2) len assms(1)
    by (simp add: set_temp_def with_temps_def stat_ok_def list_update_append take_Suc_conv_app_nth
        Cons_nth_drop_Suc[symmetric])
  have start: "?g 0 = s" by (simp add: with_temps_def)
  from each_upto[where f = ?f and g = ?g and n = n, OF step] show ?thesis
    unfolding wrapper_update_temps_def start .
qed

section \<open>Samples\<close>

fun thermal_run ::
  "('d list \<Rightarrow> 'd list) \<Rightarrow> (u64 \<Rightarrow> 'd) \<Rightarrow> ('f, 'd) power_stat list \<Rightarrow> 'd::{plus, minus, inverse} hotspot_wrapper \<Rightarrow>
    (('f, 'd) power_stat list \<times> 'd hotspot_wrapper) option" where
  "thermal_run steady dbl [] h = Some ([], h)"
| "thermal_run steady dbl (s # ss) h = do {
     (s, h) \<leftarrow> wrapper_compute steady dbl s h;
     (ss, h) \<leftarrow> thermal_run steady dbl ss h;
     Some (s # ss, h) }"

lemma thermal_run_append:
  "thermal_run steady dbl (xs @ ys) h = do {
     (xs, h) \<leftarrow> thermal_run steady dbl xs h;
     (ys, h) \<leftarrow> thermal_run steady dbl ys h;
     Some (xs @ ys, h) }"
proof (induction xs arbitrary: h)
  case Nil
  show ?case by (cases "thermal_run steady dbl ys h") auto
next
  case (Cons x xs)
  show ?case
    by (cases "wrapper_compute steady dbl x h") (auto simp: Cons.IH bind_assoc split: bind_splits prod.splits)
qed

abbreviation exact64 :: "u64 \<Rightarrow> real" where
  "exact64 n \<equiv> real (unat n)"

text \<open>\<open>h\<close> holds the average of the samples \<open>ss\<close>; the layout is that of \<open>h0\<close>.\<close>

definition holds_average :: "real hotspot_wrapper \<Rightarrow> ('f, real) power_stat list \<Rightarrow> real hotspot_wrapper \<Rightarrow> bool" where
  "holds_average h0 ss h \<longleftrightarrow> wrapper_ok h \<and> num_functional_blocks h = num_functional_blocks h0 \<and>
     hw_flp h = hw_flp h0 \<and> hw_names h = hw_names h0 \<and> length (hw_power h) = length (hw_power h0) \<and>
     num_samples h = of_nat (length ss) \<and>
     (\<forall>i < num_functional_blocks h0. real (length ss) * hw_power h ! slot h0 i = (\<Sum>s\<leftarrow>ss. block_power_of i s))"

lemma wrapper_ok_update:
  "wrapper_ok h \<Longrightarrow> length ps = length (hw_power h) \<Longrightarrow> num_functional_blocks h \<le> length vs \<Longrightarrow>
     wrapper_ok (h\<lparr>hw_vals := vs, hw_power := ps, num_samples := k\<rparr>)"
  by (simp add: wrapper_ok_def Let_def)

lemma unat_count: "k < 20 \<Longrightarrow> unat (of_nat k + 1 :: u64) = Suc k"
proof -
  assume "k < 20"
  hence "unat (of_nat (Suc k) :: u64) = Suc k" by (simp add: unat_of_nat take_bit_nat_eq_self del: of_nat_Suc)
  thus ?thesis by (simp add: add.commute)
qed

lemma count_mod: "k < 20 \<Longrightarrow> ((of_nat k + 1 :: u64) mod 20 = 0) = (k = 19)"
proof -
  assume k: "k < 20"
  have "((of_nat k + 1 :: u64) mod 20 = 0) = (unat ((of_nat k + 1 :: u64) mod 20) = 0)" by (simp only: unsigned_eq_0_iff)
  also have "\<dots> = (Suc k mod 20 = 0)" by (simp only: unat_mod_distrib unat_count[OF k]) simp
  also have "\<dots> = (k = 19)" using k by presburger
  finally show ?thesis .
qed

text \<open>The state after the running averages of one sample.\<close>

definition averaged :: "('f, real) power_stat \<Rightarrow> real hotspot_wrapper \<Rightarrow> real hotspot_wrapper" where
  "averaged s h = h\<lparr>
     hw_vals := map (\<lambda>i. block_power_of i s) [0..<num_functional_blocks h] @ drop (num_functional_blocks h) (hw_vals h),
     hw_power := at_slots (slot h) (\<lambda>i p. p + (block_power_of i s - p) / exact64 (num_samples h + 1)) (num_functional_blocks h) (hw_power h),
     num_samples := num_samples h + 1\<rparr>"

lemma at_slots_cong:
  assumes "\<And>i p. i < m \<Longrightarrow> f i p = g i p"
  shows "at_slots sl f m ps = at_slots sl g m ps"
  using assms by (induction m) simp_all

lemma compute_averaged:
  assumes ok: "wrapper_ok h" and s: "stat_ok (num_functional_blocks h) s"
  shows "wrapper_compute steady exact64 s h =
    (let h' = averaged s h in
     if num_samples h' mod 20 \<noteq> 0 then Some (s, h')
     else do {
       t \<leftarrow> wrapper_update_temps (steady (hw_power h')) (num_functional_blocks h) s;
       h' \<leftarrow> each (reset_block exact64) [0..<num_functional_blocks h] (h'\<lparr>hw_temp := steady (hw_power h'), num_samples := 0\<rparr>);
       Some (t, h') })"
proof -
  let ?n = "num_functional_blocks h"
  let ?vs = "map (\<lambda>i. block_power_of i s) [0..<?n] @ drop ?n (hw_vals h)"
  let ?h = "h\<lparr>hw_vals := ?vs\<rparr>"
  have n: "?n \<le> length (hw_vals h)" using ok by (simp add: wrapper_ok_def Let_def)
  have ok': "wrapper_ok ?h" using wrapper_ok_update[OF ok refl, of ?vs "num_samples h"] n by simp
  have "at_slots (slot h) (\<lambda>i p. p + (?vs ! i - p) / exact64 (num_samples h + 1)) ?n (hw_power h) =
      at_slots (slot h) (\<lambda>i p. p + (block_power_of i s - p) / exact64 (num_samples h + 1)) ?n (hw_power h)"
    by (rule at_slots_cong) (simp add: nth_append)
  hence "each (average_block exact64) [0..<?n] ?h = Some (?h\<lparr>hw_power := hw_power (averaged s h)\<rparr>)"
    using average_blocks[OF ok', of exact64] by (simp add: averaged_def)
  thus ?thesis
    using update_power_vals[OF s refl n] by (simp add: wrapper_compute_def averaged_def Let_def)
qed

lemma averaged_holds:
  assumes h: "holds_average h0 ss h" and len: "length ss < 20"
  shows "wrapper_ok (averaged s h)" "num_functional_blocks (averaged s h) = num_functional_blocks h0"
    "hw_flp (averaged s h) = hw_flp h0" "hw_names (averaged s h) = hw_names h0"
    "length (hw_power (averaged s h)) = length (hw_power h0)"
    "num_samples (averaged s h) = of_nat (length (ss @ [s]))"
    "i < num_functional_blocks h0 \<Longrightarrow>
       real (length (ss @ [s])) * hw_power (averaged s h) ! slot h0 i = (\<Sum>s\<leftarrow>ss @ [s]. block_power_of i s)"
proof -
  have ok: "wrapper_ok h" and n: "num_functional_blocks h = num_functional_blocks h0"
    and names: "hw_flp h = hw_flp h0" "hw_names h = hw_names h0"
    and k: "num_samples h = of_nat (length ss)"
    using h by (simp_all add: holds_average_def)
  have vs: "num_functional_blocks h \<le> length (hw_vals h)" using ok by (simp add: wrapper_ok_def Let_def)
  show "wrapper_ok (averaged s h)"
    unfolding averaged_def by (rule wrapper_ok_update[OF ok]) (use vs in simp_all)
  show "num_functional_blocks (averaged s h) = num_functional_blocks h0"
    "hw_flp (averaged s h) = hw_flp h0" "hw_names (averaged s h) = hw_names h0"
    "length (hw_power (averaged s h)) = length (hw_power h0)"
    "num_samples (averaged s h) = of_nat (length (ss @ [s]))"
    using h by (simp_all add: averaged_def holds_average_def)
  assume i: "i < num_functional_blocks h0"
  have inj: "inj_on (slot h) {..<num_functional_blocks h}" "\<forall>i < num_functional_blocks h. slot h i < length (hw_power h)"
    using ok by (simp_all add: wrapper_ok_def Let_def)
  let ?p = "hw_power h ! slot h0 i" and ?v = "block_power_of i s" and ?k = "real (length ss)"
  have "hw_power (averaged s h) ! slot h0 i = ?p + (?v - ?p) / exact64 (num_samples h + 1)"
    using at_slots_nth[OF inj, of i "num_functional_blocks h"] i by (simp add: averaged_def n names)
  also have "exact64 (num_samples h + 1) = ?k + 1" using unat_count[OF len] by (simp add: k)
  finally have "(?k + 1) * hw_power (averaged s h) ! slot h0 i = (?k + 1) * ?p + (?v - ?p)"
    by (simp add: distrib_left)
  also have "\<dots> = ?k * ?p + ?v" by (simp add: algebra_simps)
  also have "?k * ?p = (\<Sum>s\<leftarrow>ss. block_power_of i s)" using h i by (simp add: holds_average_def)
  finally show "real (length (ss @ [s])) * hw_power (averaged s h) ! slot h0 i = (\<Sum>s\<leftarrow>ss @ [s]. block_power_of i s)"
    by (simp add: add.commute)
qed

lemma compute_step:
  fixes s :: "('f, real) power_stat" and ss :: "('f, real) power_stat list"
  assumes h: "holds_average h0 ss h" and len: "length ss < 19" and s: "stat_ok (num_functional_blocks h0) s"
  shows "wrapper_compute steady exact64 s h = Some (s, averaged s h) \<and> holds_average h0 (ss @ [s]) (averaged s h)"
proof -
  have ok: "wrapper_ok h" "num_functional_blocks h = num_functional_blocks h0" using h by (simp_all add: holds_average_def)
  have len': "length ss < 20" using len by simp
  have "num_samples (averaged s h) mod 20 \<noteq> 0"
    using count_mod[OF len'] len averaged_holds(6)[OF h len', where s = s] by (simp add: add.commute)
  hence "wrapper_compute steady exact64 s h = Some (s, averaged s h)"
    using compute_averaged[OF ok(1), of s steady] s ok(2) by (simp add: Let_def)
  moreover have "holds_average h0 (ss @ [s]) (averaged s h)"
    using averaged_holds[OF h len', where s = s] unfolding holds_average_def by blast
  ultimately show ?thesis by blast
qed

lemma run_average:
  assumes "holds_average h0 ps h" "length ps + length ss \<le> 19" "\<forall>s \<in> set ss. stat_ok (num_functional_blocks h0) s"
  shows "\<exists>h'. thermal_run steady exact64 ss h = Some (ss, h') \<and> holds_average h0 (ps @ ss) h'"
  using assms
proof (induction ss arbitrary: ps h)
  case (Cons s ss)
  have "wrapper_compute steady exact64 s h = Some (s, averaged s h)" "holds_average h0 (ps @ [s]) (averaged s h)"
    using compute_step[OF Cons.prems(1), of s steady] Cons.prems by simp_all
  moreover obtain h' where "thermal_run steady exact64 ss (averaged s h) = Some (ss, h')" "holds_average h0 ((ps @ [s]) @ ss) h'"
    using Cons.IH[OF calculation(2)] Cons.prems by auto
  ultimately show ?case by auto
qed simp

lemma compute_twentieth:
  fixes s :: "('f, real) power_stat" and ss :: "('f, real) power_stat list"
  assumes h: "holds_average h0 ss h" and len: "length ss = 19" and s: "stat_ok (num_functional_blocks h0) s"
    and steady: "\<And>Q. num_functional_blocks h0 \<le> length (steady Q)"
  shows "\<exists>h'. wrapper_compute steady exact64 s h =
      Some (with_temps (take (num_functional_blocks h0) (steady (hw_power (averaged s h))) @
        drop (num_functional_blocks h0) (m_block_temp (pwr_core_stat s) CURRENT_STAT_IDX)) s, h') \<and> num_samples h' = 0"
proof -
  have ok: "wrapper_ok h" "num_functional_blocks h = num_functional_blocks h0" using h by (simp_all add: holds_average_def)
  have len': "length ss < 20" using len by simp
  let ?h = "averaged s h"
  have z: "num_samples ?h mod 20 = 0"
    using count_mod[OF len'] len averaged_holds(6)[OF h len', where s = s] by (simp add: add.commute)
  let ?r = "?h\<lparr>hw_temp := steady (hw_power ?h), num_samples := 0\<rparr>"
  have "wrapper_ok ?r" using averaged_holds(1)[OF h len', where s = s] by (simp add: wrapper_ok_def Let_def)
  from reset_blocks[OF this, of exact64] obtain h' where
    "each (reset_block exact64) [0..<num_functional_blocks h0] ?r = Some h'" "num_samples h' = 0"
    using averaged_holds(2)[OF h len', where s = s] by simp
  thus ?thesis
    using compute_averaged[OF ok(1), of s steady] s ok(2) z update_temps_eq[OF s steady] by (simp add: Let_def)
qed

section \<open>Properties\<close>

text \<open>
  C31: The thermal model sees the average power of twenty samples. Twenty calls of \<open>compute\<close>
  succeed; the first nineteen leave the statistics alone, and the last one hands the solver, for every
  block, the mean of its power over the twenty samples, at the place of the block in
  the floorplan. It starts the next period and writes the solver's temperatures back: block \<open>i\<close> of the power model
  gets temperature \<open>i\<close> of the floorplan, without the permutation that its power went through.
\<close>

theorem thermal_model_gets_mean_power:
  assumes ok: "wrapper_ok h" and start: "num_samples h = 0" and len: "length ss = 20"
    and stats: "\<forall>s \<in> set ss. stat_ok (num_functional_blocks h) s" and steady: "\<And>Q. num_functional_blocks h \<le> length (steady Q)"
  shows "\<exists>ts h' Q. thermal_run steady exact64 ss h = Some (ts, h') \<and> butlast ts = butlast ss \<and> num_samples h' = 0 \<and>
    (\<forall>i < num_functional_blocks h. \<exists>j. get_blk_index (hw_flp h) (hw_names h ! i) = Some j \<and>
       Q ! j = (\<Sum>s\<leftarrow>ss. block_power_of i s) / 20 \<and>
       m_block_temp (pwr_core_stat (last ts)) CURRENT_STAT_IDX ! i = steady Q ! i)"
proof -
  obtain xs s where ss: "ss = xs @ [s]" "length xs = 19"
    using len by (cases ss rule: rev_cases) auto
  have start': "holds_average h [] h" using ok start by (simp add: holds_average_def)
  obtain h1 where run: "thermal_run steady exact64 xs h = Some (xs, h1)" and h1: "holds_average h xs h1"
    using run_average[OF start', of xs steady] ss stats by auto
  have s: "stat_ok (num_functional_blocks h) s" using stats ss by simp
  obtain h' where last_one: "wrapper_compute steady exact64 s h1 =
      Some (with_temps (take (num_functional_blocks h) (steady (hw_power (averaged s h1))) @
        drop (num_functional_blocks h) (m_block_temp (pwr_core_stat s) CURRENT_STAT_IDX)) s, h')" (is "_ = Some (?t, h')")
    and zero: "num_samples h' = 0"
    using compute_twentieth[where steady = steady, OF h1 ss(2) s steady] by blast
  have all: "thermal_run steady exact64 ss h = Some (xs @ [?t], h')"
    using run last_one by (simp add: ss(1) thermal_run_append)
  have "\<exists>j. get_blk_index (hw_flp h) (hw_names h ! i) = Some j \<and>
       hw_power (averaged s h1) ! j = (\<Sum>s\<leftarrow>ss. block_power_of i s) / 20 \<and>
       m_block_temp (pwr_core_stat ?t) CURRENT_STAT_IDX ! i = steady (hw_power (averaged s h1)) ! i"
    if i: "i < num_functional_blocks h" for i
  proof -
    have "20 * hw_power (averaged s h1) ! slot h i = (\<Sum>s\<leftarrow>ss. block_power_of i s)"
      using averaged_holds(7)[OF h1 _ i, where s = s] ss by simp
    moreover have "get_blk_index (hw_flp h) (hw_names h ! i) \<noteq> None" using ok i by (simp add: wrapper_ok_def Let_def)
    moreover have "m_block_temp (pwr_core_stat ?t) CURRENT_STAT_IDX ! i = steady (hw_power (averaged s h1)) ! i"
      using i steady[of "hw_power (averaged s h1)"] by (simp add: with_temps_def nth_append)
    ultimately show ?thesis by fastforce
  qed
  thus ?thesis using all zero ss(1) by (intro exI[of _ "xs @ [?t]"] exI[of _ h'] exI[of _ "hw_power (averaged s h1)"]) simp
qed

text \<open>A floorplan of one block, spelt differently in the power model, and a solver that returns the ambient temperature.\<close>

definition one_block :: "real hotspot_wrapper" where
  "one_block = \<lparr>hw_flp = [''Core''], hw_names = [''CORE''], num_functional_blocks = 1, hw_vals = [0], hw_power = [0],
     hw_temp = [0], num_samples = 0\<rparr>"

lemma one_block_ok: "wrapper_ok one_block"
  by code_simp

theorem thermal_model_gets_mean_power_witness:
  "\<exists>ts h'. thermal_run (\<lambda>Q. 300 # Q) exact64 (replicate 20 six_cores) one_block = Some (ts, h') \<and>
     m_block_temp (pwr_core_stat (last ts)) CURRENT_STAT_IDX ! 0 = 300"
proof -
  have "\<forall>s \<in> set (replicate 20 six_cores). stat_ok (num_functional_blocks one_block) s"
    using six_cores_ok by (simp add: stat_ok_def power_ok_def one_block_def)
  from thermal_model_gets_mean_power[OF one_block_ok _ _ this, of "\<lambda>Q. 300 # Q"]
  show ?thesis by (auto simp: one_block_def)
qed

end
