(* ===== verification/ClockDomains.thy ===== *)
theory ClockDomains
  imports Prelude Complex_Main
begin

unbundle bit_operations_syntax

text \<open>
  The clock domains of the simulator (\<open>gpgpu_sim\<close> in \<open>gpgpu-sim/gpu-sim.cc\<close>): which of the core, the
  interconnect, the L2 cache and the DRAM take part in a step of the main loop, and how dynamic thermal
  management changes their frequency. \<open>'d\<close> stands for \<open>double\<close> with its operations and its order, and
  \<open>dbl\<close> for the conversion of integers; the parsing of the option strings is left out, the state starts with
  the parsed list of supported clocks.
\<close>

section \<open>State\<close>

definition CORE :: u32 where "CORE = 0x01"
definition L2 :: u32 where "L2 = 0x02"
definition DRAM :: u32 where "DRAM = 0x04"
definition ICNT :: u32 where "ICNT = 0x08"

record 'd clock_state =
  core_time :: 'd
  icnt_time :: 'd
  dram_time :: 'd
  l2_time :: 'd
  core_supported_clocks :: "'d list"
  current_clock_index :: u32
  core_freq :: 'd
  icnt_freq :: 'd
  dram_freq :: 'd
  l2_freq :: 'd
  core_period :: 'd
  icnt_period :: 'd
  dram_period :: 'd
  l2_period :: 'd
  dtm_init :: bool    \<comment> \<open>the static flag of \<open>dtm\<close>\<close>

text \<open>All four domains get the supported clock at the current index.\<close>

definition set_clocks :: "(u32 \<Rightarrow> 'd) \<Rightarrow> 'd::{times, inverse} clock_state \<Rightarrow> 'd clock_state option" where
  "set_clocks dbl c = do {
     f \<leftarrow> Prelude.at (core_supported_clocks c) (unat (current_clock_index c));
     let c = c\<lparr>core_freq := f * dbl 1000000, icnt_freq := f * dbl 1000000,
               l2_freq := f * dbl 1000000, dram_freq := f * dbl 1000000\<rparr>;
     Some (c\<lparr>core_period := dbl 1 / core_freq c, icnt_period := dbl 1 / icnt_freq c,
             dram_period := dbl 1 / dram_freq c, l2_period := dbl 1 / l2_freq c\<rparr>) }"

definition init_clock_domains :: "(u32 \<Rightarrow> 'd) \<Rightarrow> 'd list \<Rightarrow> 'd::{times, inverse} clock_state \<Rightarrow> 'd clock_state option" where
  "init_clock_domains dbl clocks c = set_clocks dbl (c\<lparr>core_supported_clocks := clocks, current_clock_index := 0\<rparr>)"

definition reinit_clock_domains :: "(u32 \<Rightarrow> 'd) \<Rightarrow> 'd clock_state \<Rightarrow> 'd clock_state" where
  "reinit_clock_domains dbl c = c\<lparr>core_time := dbl 0, dram_time := dbl 0, icnt_time := dbl 0, l2_time := dbl 0\<rparr>"

section \<open>Dynamic thermal management\<close>

definition num_supported_clocks :: u32 where
  "num_supported_clocks = 18"

definition dtm :: "(u32 \<Rightarrow> 'd) \<Rightarrow> 'd \<Rightarrow> 'd \<Rightarrow> 'd::{times, inverse, ord} clock_state \<Rightarrow> 'd clock_state option" where
  "dtm dbl g_thermal_ceiling temp c =
    (if dtm_init c then Some (c\<lparr>dtm_init := False\<rparr>)
     else if g_thermal_ceiling \<le> temp \<and> current_clock_index c < num_supported_clocks - 1
     then set_clocks dbl (c\<lparr>current_clock_index := current_clock_index c + 1\<rparr>)
     else if temp < g_thermal_ceiling \<and> 0 < current_clock_index c
     then set_clocks dbl (c\<lparr>current_clock_index := current_clock_index c - 1\<rparr>)
     else Some c)"

section \<open>The next clock domain\<close>

definition min3 :: "'d::ord \<Rightarrow> 'd \<Rightarrow> 'd \<Rightarrow> 'd" where
  "min3 x y z = (if x < y \<and> x < z then x else if y < z then y else z)"

definition next_clock_domain :: "'d::{plus, ord} clock_state \<Rightarrow> u32 \<times> 'd clock_state" where
  "next_clock_domain c =
    (let smallest = min3 (core_time c) (icnt_time c) (dram_time c);
         mask = 0;
         (smallest, mask, c) = (if l2_time c \<le> smallest
           then (l2_time c, mask OR L2, c\<lparr>l2_time := l2_time c + l2_period c\<rparr>) else (smallest, mask, c));
         (mask, c) = (if icnt_time c \<le> smallest
           then (mask OR ICNT, c\<lparr>icnt_time := icnt_time c + icnt_period c\<rparr>) else (mask, c));
         (mask, c) = (if dram_time c \<le> smallest
           then (mask OR DRAM, c\<lparr>dram_time := dram_time c + dram_period c\<rparr>) else (mask, c));
         (mask, c) = (if core_time c \<le> smallest
           then (mask OR CORE, c\<lparr>core_time := core_time c + core_period c\<rparr>) else (mask, c))
     in (mask, c))"

section \<open>A step advances exactly the domains that are behind\<close>

definition soonest :: "'d::linorder clock_state \<Rightarrow> 'd" where
  "soonest c = min (min (core_time c) (icnt_time c)) (min (dram_time c) (l2_time c))"

lemma min3_min: "min3 x y z = min x (min y z)" for x :: "'d::linorder"
  by (auto simp: min3_def min_def)

text \<open>The step, domain by domain.\<close>

definition ahead :: "'d::{plus, ord} \<Rightarrow> 'd \<Rightarrow> 'd \<Rightarrow> 'd" where
  "ahead now t p = (if t \<le> now then t + p else t)"

lemma next_clock_domain_eq:
  fixes c :: "'d::{plus, linorder} clock_state"
  defines "now \<equiv> soonest c"
  shows "next_clock_domain c =
    ((if l2_time c \<le> now then L2 else 0) OR (if icnt_time c \<le> now then ICNT else 0) OR
       (if dram_time c \<le> now then DRAM else 0) OR (if core_time c \<le> now then CORE else 0),
     c\<lparr>core_time := ahead now (core_time c) (core_period c), icnt_time := ahead now (icnt_time c) (icnt_period c),
       dram_time := ahead now (dram_time c) (dram_period c), l2_time := ahead now (l2_time c) (l2_period c)\<rparr>)"
proof -
  let ?s = "min3 (core_time c) (icnt_time c) (dram_time c)"
  have "now = min (l2_time c) ?s" by (simp add: now_def soonest_def min3_min ac_simps)
  hence "l2_time c \<le> ?s \<longleftrightarrow> l2_time c \<le> now" "l2_time c \<le> ?s \<Longrightarrow> l2_time c = now" "\<not> l2_time c \<le> ?s \<Longrightarrow> ?s = now"
    by (simp_all add: min_def)
  thus ?thesis
    by (cases "l2_time c \<le> now") (simp_all add: next_clock_domain_def ahead_def Let_def or.assoc split: if_splits)
qed


text \<open>The times, periods and bits of the four domains, in one list.\<close>

definition domains :: "'d clock_state \<Rightarrow> (u32 \<times> 'd \<times> 'd) list" where
  "domains c = [(CORE, core_time c, core_period c), (ICNT, icnt_time c, icnt_period c),
     (DRAM, dram_time c, dram_period c), (L2, l2_time c, l2_period c)]"

lemma mask_bits:
  fixes a b d e :: bool
  defines "m \<equiv> (if a then L2 else 0) OR (if b then ICNT else 0) OR (if d then DRAM else 0) OR (if e then CORE else 0)"
  shows "(m AND L2 \<noteq> 0) = a" "(m AND ICNT \<noteq> 0) = b" "(m AND DRAM \<noteq> 0) = d" "(m AND CORE \<noteq> 0) = e"
  by (cases a; cases b; cases d; cases e; simp add: m_def CORE_def L2_def DRAM_def ICNT_def)+

lemma soonest_le: "(b, t, p) \<in> set (domains c) \<Longrightarrow> soonest c \<le> t"
  by (auto simp: domains_def soonest_def min_le_iff_disj)

lemma soonest_attained: "\<exists>b p. (b, soonest c, p) \<in> set (domains c)"
proof -
  have "soonest c = core_time c \<or> soonest c = icnt_time c \<or> soonest c = dram_time c \<or> soonest c = l2_time c"
    by (simp add: soonest_def min_def)
  thus ?thesis by (auto simp: domains_def)
qed

text \<open>One step, seen in the list of domains.\<close>

lemma step_domains:
  fixes c :: "'d::{plus, linorder} clock_state"
  assumes "next_clock_domain c = (m, c')"
  shows "domains c' = map (\<lambda>(b, t, p). (b, ahead (soonest c) t p, p)) (domains c)"
    "(b, t, p) \<in> set (domains c) \<Longrightarrow> (m AND b \<noteq> 0) = (t \<le> soonest c)"
proof -
  have m: "(if l2_time c \<le> soonest c then L2 else 0) OR (if icnt_time c \<le> soonest c then ICNT else 0) OR
      (if dram_time c \<le> soonest c then DRAM else 0) OR (if core_time c \<le> soonest c then CORE else 0) = m"
    using assms unfolding next_clock_domain_eq by (rule Pair_inject)
  note bits = mask_bits[of "l2_time c \<le> soonest c" "icnt_time c \<le> soonest c" "dram_time c \<le> soonest c" "core_time c \<le> soonest c", unfolded m]
  show "domains c' = map (\<lambda>(b, t, p). (b, ahead (soonest c) t p, p)) (domains c)"
    using assms by (auto simp: next_clock_domain_eq domains_def)
  show "(m AND b \<noteq> 0) = (t \<le> soonest c)" if "(b, t, p) \<in> set (domains c)"
    using that bits by (auto simp: domains_def)
qed

lemma step_nth:
  fixes c :: "'d::{plus, linorder} clock_state"
  assumes "next_clock_domain c = (m, c')" "i < 4" "domains c ! i = (b, t, p)"
  shows "domains c' ! i = (b, ahead (soonest c) t p, p)" "(m AND b \<noteq> 0) = (t \<le> soonest c)"
proof -
  have len: "i < length (domains c)" using assms(2) by (simp add: domains_def)
  thus "domains c' ! i = (b, ahead (soonest c) t p, p)" using assms(3) by (simp add: step_domains(1)[OF assms(1)])
  have "(b, t, p) \<in> set (domains c)" using len assms(3) by (metis nth_mem)
  thus "(m AND b \<noteq> 0) = (t \<le> soonest c)" by (rule step_domains(2)[OF assms(1)])
qed

lemma step_mask: "next_clock_domain c = (m, c') \<Longrightarrow> m \<noteq> 0" for c :: "'d::{plus, linorder} clock_state"
  using soonest_attained[of c] step_domains(2)[of c m c'] by fastforce

section \<open>Steps with fixed periods\<close>

fun clock_steps :: "nat \<Rightarrow> 'd::{plus, ord} clock_state \<Rightarrow> u32 list \<times> 'd clock_state" where
  "clock_steps 0 c = ([], c)"
| "clock_steps (Suc n) c = (let (m, c) = next_clock_domain c; (ms, c) = clock_steps n c in (m # ms, c))"

text \<open>How many of the steps a domain took part in.\<close>

definition ticks :: "u32 \<Rightarrow> u32 list \<Rightarrow> nat" where
  "ticks b ms = length (filter (\<lambda>m. m AND b \<noteq> 0) ms)"

definition together :: "real clock_state \<Rightarrow> bool" where
  "together c \<longleftrightarrow> (\<forall>(b, t, p) \<in> set (domains c). 0 \<le> p \<and> t \<le> soonest c + p)"

lemma step_together:
  assumes "together c" "next_clock_domain c = (m, c')"
  shows "together c'"
proof -
  have now: "soonest c \<le> soonest c'"
  proof -
    obtain b p where "(b, soonest c', p) \<in> set (domains c')" using soonest_attained by blast
    then obtain t where "(b, t, p) \<in> set (domains c)" "soonest c' = ahead (soonest c) t p"
      by (auto simp: step_domains(1)[OF assms(2)])
    moreover from this have "0 \<le> p" "soonest c \<le> t" using assms(1) soonest_le by (auto simp: together_def)
    ultimately show ?thesis by (simp add: ahead_def split: if_splits)
  qed
  show ?thesis unfolding together_def
  proof clarify
    fix b t' p assume "(b, t', p) \<in> set (domains c')"
    then obtain t where t: "(b, t, p) \<in> set (domains c)" "t' = ahead (soonest c) t p"
      by (auto simp: step_domains(1)[OF assms(2)])
    hence "0 \<le> p" "t \<le> soonest c + p" using assms(1) by (auto simp: together_def)
    thus "0 \<le> p \<and> t' \<le> soonest c' + p" using now t(2) by (simp add: ahead_def)
  qed
qed

lemma steps_together:
  "together c \<Longrightarrow> clock_steps n c = (ms, c') \<Longrightarrow> together c'"
  by (induction n arbitrary: c ms) (auto split: prod.splits dest: step_together)

lemma steps_time:
  fixes c :: "real clock_state"
  assumes "clock_steps n c = (ms, c')" "i < 4" "domains c ! i = (b, t, p)"
  shows "domains c' ! i = (b, t + real (ticks b ms) * p, p)"
  using assms
proof (induction n arbitrary: c ms t)
  case (Suc n)
  obtain m d where md: "next_clock_domain c = (m, d)" by fastforce
  obtain ms' where ms': "clock_steps n d = (ms', c')" "ms = m # ms'"
    using Suc.prems(1) md by (auto split: prod.splits)
  from Suc.IH[OF ms'(1) Suc.prems(2) step_nth(1)[OF md Suc.prems(2,3)]]
  show ?case
    using step_nth(2)[OF md Suc.prems(2,3)] by (simp add: ms'(2) ticks_def ahead_def algebra_simps)
qed (simp add: ticks_def)

lemma steps_masks: "clock_steps n c = (ms, c') \<Longrightarrow> length ms = n \<and> 0 \<notin> set ms" for c :: "'d::{plus, linorder} clock_state"
  by (induction n arbitrary: c ms) (auto split: prod.splits dest: step_mask)

section \<open>The simulator's clocks\<close>

text \<open>
  A run after \<open>gpgpu_sim::init\<close>: steps of the main loop, calls of \<open>dtm\<close> with the temperature of the moment, and
  further calls of \<open>init\<close>. The result holds the masks of the steps.
\<close>

datatype 'd clock_event = Step | Manage 'd | Init

fun clock_run :: "(u32 \<Rightarrow> 'd) \<Rightarrow> 'd \<Rightarrow> 'd list \<Rightarrow> 'd clock_event list \<Rightarrow> 'd::{times, inverse, plus, ord} clock_state \<Rightarrow>
    (u32 list \<times> 'd clock_state) option" where
  "clock_run dbl cl clocks [] c = Some ([], c)"
| "clock_run dbl cl clocks (Step # es) c = do {
     let (m, c) = next_clock_domain c;
     (ms, c) \<leftarrow> clock_run dbl cl clocks es c;
     Some (m # ms, c) }"
| "clock_run dbl cl clocks (Manage temp # es) c = do {
     c \<leftarrow> dtm dbl cl temp c;
     clock_run dbl cl clocks es c }"
| "clock_run dbl cl clocks (Init # es) c = do {
     c \<leftarrow> init_clock_domains dbl clocks c;
     clock_run dbl cl clocks es (reinit_clock_domains dbl c) }"

definition lock_step :: "(u32 \<Rightarrow> 'd) \<Rightarrow> 'd list \<Rightarrow> 'd::{times, inverse} clock_state \<Rightarrow> bool" where
  "lock_step dbl clocks c \<longleftrightarrow> core_supported_clocks c = clocks \<and> unat (current_clock_index c) < 18 \<and>
     (let f = clocks ! unat (current_clock_index c) * dbl 1000000 in
       \<forall>x \<in> {core_freq c, icnt_freq c, dram_freq c, l2_freq c}. x = f) \<and>
     (let p = dbl 1 / core_freq c in \<forall>x \<in> {core_period c, icnt_period c, dram_period c, l2_period c}. x = p) \<and>
     icnt_time c = core_time c \<and> dram_time c = core_time c \<and> l2_time c = core_time c"

lemma set_clocks_lock_step:
  assumes "length clocks = 18" "core_supported_clocks c = clocks" "unat (current_clock_index c) < 18"
    "icnt_time c = core_time c" "dram_time c = core_time c" "l2_time c = core_time c"
  shows "\<exists>c'. set_clocks dbl c = Some c' \<and> lock_step dbl clocks c' \<and> current_clock_index c' = current_clock_index c"
  using assms by (simp add: set_clocks_def lock_step_def Let_def)

lemma dtm_lock_step:
  assumes len: "length clocks = 18" and c: "lock_step dbl clocks c"
  shows "\<exists>c'. dtm dbl cl temp c = Some c' \<and> lock_step dbl clocks c'"
proof -
  have sc: "\<exists>c'. set_clocks dbl (c\<lparr>current_clock_index := k\<rparr>) = Some c' \<and> lock_step dbl clocks c'" if "unat k < 18" for k
    using set_clocks_lock_step[OF len, of "c\<lparr>current_clock_index := k\<rparr>" dbl] c that by (auto simp: lock_step_def)
  have up: "unat (current_clock_index c + 1) < 18" if "current_clock_index c < num_supported_clocks - 1"
    using that unat_suc[OF that] by (simp add: num_supported_clocks_def word_less_nat_alt)
  have down: "unat (current_clock_index c - 1) < 18" if "0 < current_clock_index c"
  proof -
    have "Suc (unat (current_clock_index c - 1)) = unat (current_clock_index c)" using that by (intro unat_pred) auto
    moreover have "unat (current_clock_index c) < 18" using c by (simp add: lock_step_def)
    ultimately show ?thesis by simp
  qed
  have "lock_step dbl clocks (c\<lparr>dtm_init := False\<rparr>)" using c by (simp add: lock_step_def)
  thus ?thesis using sc[OF up] sc[OF down] c by (auto simp: dtm_def)
qed

lemma step_lock_step:
  fixes c :: "'d::{times, inverse, plus, linorder} clock_state"
  assumes "lock_step dbl clocks c"
  shows "\<exists>c'. next_clock_domain c = (CORE OR ICNT OR DRAM OR L2, c') \<and> lock_step dbl clocks c'"
proof -
  have "soonest c = core_time c" using assms by (simp add: soonest_def lock_step_def)
  thus ?thesis using assms
    by (simp add: next_clock_domain_eq lock_step_def ahead_def CORE_def ICNT_def DRAM_def L2_def Let_def)
qed

lemma init_lock_step:
  "length clocks = 18 \<Longrightarrow> \<exists>c'. init_clock_domains dbl clocks c = Some c' \<and> lock_step dbl clocks (reinit_clock_domains dbl c')"
  by (simp add: init_clock_domains_def reinit_clock_domains_def set_clocks_def lock_step_def Let_def)

lemma run_lock_step:
  fixes c :: "'d::{times, inverse, plus, linorder} clock_state"
  assumes len: "length clocks = 18" and "lock_step dbl clocks c"
  shows "\<exists>ms c'. clock_run dbl cl clocks es c = Some (ms, c') \<and> set ms \<subseteq> {CORE OR ICNT OR DRAM OR L2} \<and> lock_step dbl clocks c'"
  using assms(2)
proof (induction es arbitrary: c)
  case (Cons e es)
  show ?case
  proof (cases e)
    case Step
    obtain d where "next_clock_domain c = (CORE OR ICNT OR DRAM OR L2, d)" "lock_step dbl clocks d"
      using step_lock_step[OF Cons.prems] by blast
    thus ?thesis using Cons.IH[of d] Step by auto
  next
    case (Manage temp)
    obtain d where "dtm dbl cl temp c = Some d" "lock_step dbl clocks d"
      using dtm_lock_step[OF len Cons.prems] by blast
    thus ?thesis using Cons.IH[of d] Manage by auto
  next
    case Init
    obtain d where "init_clock_domains dbl clocks c = Some d" "lock_step dbl clocks (reinit_clock_domains dbl d)"
      using init_lock_step[OF len] by blast
    thus ?thesis using Cons.IH[of "reinit_clock_domains dbl d"] Init by auto
  qed
qed simp

section \<open>Properties\<close>

text \<open>
  C32: The clock domains keep the ratio of their periods. Started at time zero with positive periods, after any number
  of steps the time a domain has run, its ticks times its period, is ahead of that of any other
  domain by at most one of its own periods; and in every step some domain takes part.
\<close>

theorem clock_ratios_are_kept:
  fixes c :: "real clock_state"
  assumes zero: "\<forall>(b, t, p) \<in> set (domains c). t = 0 \<and> 0 < p"
    and run: "clock_steps n c = (ms, c')"
    and x: "(b, t, p) \<in> set (domains c)" and y: "(b', t', p') \<in> set (domains c)"
  shows "real (ticks b ms) * p \<le> real (ticks b' ms) * p' + p \<and> length ms = n \<and> 0 \<notin> set ms"
proof -
  have now: "soonest c = 0" using soonest_attained[of c] zero by auto
  have "together c" unfolding together_def
  proof clarify
    fix b t p assume "(b, t, p) \<in> set (domains c)"
    hence "t = 0" "0 < p" using zero by auto
    thus "0 \<le> p \<and> t \<le> soonest c + p" using now by simp
  qed
  hence tog: "together c'" using run by (rule steps_together)
  have reached: "(b, real (ticks b ms) * p, p) \<in> set (domains c')" if in_c: "(b, t, p) \<in> set (domains c)" for b t p
  proof -
    have "length (domains c) = 4" by (simp add: domains_def)
    then obtain i where i: "i < 4" "domains c ! i = (b, t, p)" using in_c by (metis in_set_conv_nth)
    have "t = 0" using zero in_c by auto
    hence "domains c' ! i = (b, real (ticks b ms) * p, p)" using steps_time[OF run i] by simp
    moreover have "i < length (domains c')" using i(1) by (simp add: domains_def)
    ultimately show ?thesis by (metis nth_mem)
  qed
  have "real (ticks b ms) * p \<le> soonest c' + p" using tog reached[OF x] by (auto simp: together_def)
  moreover have "soonest c' \<le> real (ticks b' ms) * p'" by (rule soonest_le) (rule reached[OF y])
  ultimately show ?thesis using steps_masks[OF run] by simp
qed

text \<open>A DRAM that runs at a third of the core's clock.\<close>

definition slow_dram :: "real clock_state" where
  "slow_dram = \<lparr>core_time = 0, icnt_time = 0, dram_time = 0, l2_time = 0, core_supported_clocks = [],
     current_clock_index = 0, core_freq = 1, icnt_freq = 1, dram_freq = 1, l2_freq = 1,
     core_period = 1, icnt_period = 1, dram_period = 3, l2_period = 1, dtm_init = False\<rparr>"

theorem clock_ratios_are_kept_witness:
  "real (ticks CORE (fst (clock_steps 7 slow_dram))) \<le> real (ticks DRAM (fst (clock_steps 7 slow_dram))) * 3 + 1 \<and>
   length (fst (clock_steps 7 slow_dram)) = 7"
  using clock_ratios_are_kept[of slow_dram 7 "fst (clock_steps 7 slow_dram)" "snd (clock_steps 7 slow_dram)" CORE 0 1 DRAM 0 3]
  by (simp add: domains_def slow_dram_def)

text \<open>
  C33: In the simulator all four domains always run in lock step. \<open>init_clock_domains\<close> overwrites the four
  configured frequencies with the first supported core clock, and \<open>dtm\<close> changes all of them alike. So after \<open>init\<close>,
  however temperatures drive \<open>dtm\<close>, each step of the main loop takes part in all four domains,
  the clock index stays inside the table of 18 clocks, and every domain has
  the clock at that index. This holds in any arithmetic with a linear order.
\<close>

theorem all_domains_run_in_lock_step:
  fixes c :: "'d::{times, inverse, plus, linorder} clock_state"
  assumes "length clocks = 18"
  shows "\<exists>ms c'. clock_run dbl cl clocks (Init # es) c = Some (ms, c') \<and> set ms \<subseteq> {CORE OR ICNT OR DRAM OR L2} \<and>
    unat (current_clock_index c') < 18 \<and>
    (\<forall>f \<in> {core_freq c', icnt_freq c', dram_freq c', l2_freq c'}. f = clocks ! unat (current_clock_index c') * dbl 1000000)"
proof -
  obtain d where d: "init_clock_domains dbl clocks c = Some d" "lock_step dbl clocks (reinit_clock_domains dbl d)"
    using init_lock_step[OF assms] by blast
  obtain ms c' where "clock_run dbl cl clocks es (reinit_clock_domains dbl d) = Some (ms, c')"
    "set ms \<subseteq> {CORE OR ICNT OR DRAM OR L2}" "lock_step dbl clocks c'"
    using run_lock_step[OF assms d(2)] by blast
  thus ?thesis using d(1) by (auto simp: lock_step_def Let_def)
qed

text \<open>Two steps, one of them after the chip got too hot.\<close>

theorem all_domains_run_in_lock_step_witness:
  "\<exists>ms c'. clock_run (\<lambda>n. real (unat n)) 350 (replicate 18 7) [Init, Step, Manage 0, Manage 360, Step] slow_dram = Some (ms, c') \<and>
     set ms \<subseteq> {CORE OR ICNT OR DRAM OR L2}"
proof -
  have "length (replicate 18 (7 :: real)) = 18" by simp
  from all_domains_run_in_lock_step[OF this, of "\<lambda>n. real (unat n)" 350 "[Step, Manage 0, Manage 360, Step]" slow_dram]
  show ?thesis by blast
qed

end
