(* ===== verification/Spec2Isabelle.thy ===== *)
theory Spec2Isabelle
  imports Prelude Hashing AddrDec FifoPipeline MemFetch CacheBlock CacheConfig TagArray
    Mshr CacheStats Cache CacheCorrect DramSched Dram DramRequests DramCorrect Xbar Omap WarpInst SimtStack Coalesce Scoreboard MemorySpace Barrier
    RegisterSet OperandCollector PowerCore PowerMem PowerInterface GpuCalorie ClockDomains
begin

text \<open>
  GPUCalorie is the cycle-level GPU simulator GPGPU-Sim with a power model, a thermal model and
  dynamic thermal management. This development models the parts of the simulator that keep state and
  promise something about it, and proves those promises. File names below are relative to
  \<open>src/gpgpu-sim/src/\<close>.

  The program. A shader core runs warps. A warp's threads that diverge are kept on a stack
  (\<open>simt_stack\<close>); an instruction issues when the scoreboard sees no hazard and the warp does not wait at
  a barrier; a memory instruction is cut into memory accesses by the coalescer. The accesses become
  requests (\<open>mem_fetch\<close>), which go through the caches of the core, the crossbar, the L2 cache of a memory
  partition, found by decoding the address, and the FR-FCFS scheduler of its DRAM channel. Replies return
  on the same way and fill the caches. The functional simulator computes the values; its memory is the
  paged \<open>memory_space_impl\<close>. The main loop steps the clock domains. Every sampling period, the
  activity counters become the power of the blocks of the floorplan, every twentieth sample the power becomes
  temperatures, and dynamic thermal management moves the clocks up or down by them.

  Conventions (theory \<open>Prelude\<close>). \<open>unsigned\<close> and \<open>unsigned long long\<close> are words of 32 and 64 bits, with
  wrap-around; an \<open>unsigned\<close> that only indexes an array of the configuration may be a \<open>nat\<close>. Whatever
  stops or corrupts the simulator (a failed assertion, \<open>abort\<close>, a null pointer, an index outside an array, an
  exception) is the value \<open>None\<close>, and \<open>do\<close> sequences such steps. Thus a theorem that an operation returns
  \<open>Some\<close> says that it runs through. Heap objects whose identity matters (requests) live in an
  explicit store from addresses to values, and containers hold addresses.

  The theories and the code they model.
  \<^item> \<open>Hashing\<close> (\<open>gpgpu-sim/hashing.cc\<close>, \<open>gpu-misc.cc\<close>): set and bank index hashes. The locale \<open>index_hash\<close> is
    their contract; the polynomial and the bitwise hash with 16, 32 and 64 banks interpret it.
  \<^item> \<open>AddrDec\<close> (\<open>gpgpu-sim/addrdec.{h,cc}\<close>): from linear addresses to channel, bank, row, column and burst.
  \<^item> \<open>MemFetch\<close> (\<open>gpgpu-sim/mem_fetch.{h,cc}\<close>, \<open>mem_access_t\<close> in \<open>abstract_hardware_model.h\<close>): requests and
    their store.
  \<^item> \<open>FifoPipeline\<close> (\<open>gpgpu-sim/delayqueue.h\<close>): the delay queues, as instances of \<open>bounded_queue\<close>.
  \<^item> \<open>CacheBlock\<close>, \<open>CacheConfig\<close>, \<open>TagArray\<close>, \<open>Mshr\<close>, \<open>CacheStats\<close>, \<open>Cache\<close> (\<open>gpgpu-sim/gpu-cache.{h,cc}\<close>):
    line and sector blocks behind the virtual interface \<open>block_contract\<close>, the configuration string and the
    set index, the tag array, the miss registers (locale \<open>miss_table\<close>), the statistics, and the caches
    that combine them with all read and write policies. \<open>CacheCorrect\<close> holds the theorems on whole
    accesses and on the cache over time.
  \<^item> \<open>DramSched\<close>, \<open>Dram\<close> (\<open>gpgpu-sim/dram_sched.{h,cc}\<close>, \<open>dram.{h,cc}\<close>, the timing in \<open>gpu-sim.h\<close>): the FR-FCFS
    scheduler and the channel with its banks, bank groups and timing counters. \<open>DramRequests\<close> follows the
    requests from the queues to the banks and the commands; \<open>DramCorrect\<close> states the DRAM protocol on
    the printed commands and proves that a run obeys it and that every command serves its bank's request.
  \<^item> \<open>Xbar\<close> (\<open>gpgpu-sim/local_interconnect.{h,cc}\<close>): the crossbar with its arbiters, and the interconnect of
    two subnets; both interpret the locale \<open>network\<close>.
  \<^item> \<open>Omap\<close>: \<open>std::map\<close> as a sorted association list.
  \<^item> \<open>WarpInst\<close>, \<open>SimtStack\<close>, \<open>Coalesce\<close> (\<open>abstract_hardware_model.{h,cc}\<close>): warp instructions, the divergence
    stack with \<open>core_t::updateSIMTStack\<close>, and \<open>warp_inst_t::generate_mem_accesses\<close>.
  \<^item> \<open>Scoreboard\<close> (\<open>gpgpu-sim/scoreboard.{h,cc}\<close>) and \<open>Barrier\<close> (\<open>barrier_set_t\<close> in \<open>gpgpu-sim/shader.{h,cc}\<close>).
  \<^item> \<open>RegisterSet\<close> (\<open>register_set\<close> in \<open>abstract_hardware_model.h\<close>): the pipeline registers.
  \<^item> \<open>OperandCollector\<close> (\<open>opndcoll_rfu_t\<close> in \<open>gpgpu-sim/shader.{h,cc}\<close>): the banks of the register file with their
    arbiter, the collector units, the dispatch units and a step of them all.
  \<^item> \<open>MemorySpace\<close> (\<open>cuda-sim/memory.{h,cc}\<close>): the memory of the functional simulator.
  \<^item> \<open>PowerCore\<close>, \<open>PowerMem\<close> (\<open>gpgpu-sim/power_stat.{h,cc}\<close>): the activity counters of cores and memory, their
    saving, and all readings. The arrays of cache statistics are kept behind pointers.
  \<^item> \<open>PowerInterface\<close>, \<open>GpuCalorie\<close> (\<open>gpucalorie/power_interface.cc\<close>, \<open>gpu_calorie.cc\<close>,
    \<open>hotspot/hotspot_wrapper.cc\<close>): from readings to block powers and from these to temperatures; the solver of
    the thermal network is a parameter.
  \<^item> \<open>ClockDomains\<close> (\<open>gpgpu-sim/gpu-sim.cc\<close>): \<open>next_clock_domain\<close>, \<open>dtm\<close> and the initialisation of the clocks.

  Within a theory the definitions stand in the order of the code: data as records and datatypes with the
  source's names, then one definition per function. Names that clash have a prefix (\<open>sb_\<close>, \<open>lb_\<close> for sector
  and line blocks, \<open>mshr_\<close>, \<open>xbar_\<close>, \<open>icnt_\<close>). Sections on facts follow, and a last section holds the
  properties.

  What the lemmas show.
  \<^item> Invariants: the tags of a set are unique, every block in the miss registers is ready or
    awaited by one request, the scheduler's queues and its row index agree, the delay queue's length fits
    its chain, the stack entries partition the live threads, waiting warps wait for somebody, the queued
    reads of the operand collector are the operands its units miss.
  \<^item> Refinements: the delay queue, the miss registers and the network are lists; the scheduler is the
    first-ready first-come-first-served policy; the scoreboard is the set of registers in flight (marks
    of long operations can be left over, which the statement says); the paged memory is an array of bytes;
    the divergence stack runs every thread along its own path, for reconvergence pcs that satisfy
    \<open>step_ok\<close> (without it a thread can end up at the wrong pc, as an example lemma shows).
  \<^item> Safety and bounds: the DRAM commands keep all timing constraints and serve the requests of
    their banks, decoding does not alias addresses, a refused access leaves no trace, modified victims are written back, set indices
    are in range, the coalescer sends one request per touched segment.
  \<^item> Power: readings are exact across wrap-around, block powers account for the energy of the accesses, the
    solver gets the mean power of twenty samples, the clock domains keep their ratio. Four properties
    describe defects: the L1 readings that vanish, the power interface that works for six cores only, the
    temperatures in floorplan order, and the configured clocks that are overwritten.
  \<^item> Progress: the round-robin arbiter serves every input, the operand
    collector serves every queued read, barriers are not lost, loops end.

  Loops. Most recurse on a list or on a number the code counts. Three loops can run forever on
  arguments the code does not exclude and are \<open>partial_function\<close>s: the grouping of threads by their
  next pc (\<open>split_paths\<close>) and the block loops of the memory (\<open>write_blocks\<close>, \<open>read_blocks\<close>, whose block number
  wraps). Theorems state when they return. The two loops of \<open>set_min_length\<close> of a delay queue carry as fuel
  the number of rounds the code makes at most, and \<open>set_min_length_keeps_contents\<close> shows that this suffices.

  Not modelled.
  \<^item> The functional simulator of PTX instructions, the PTX parser, and the CUDA and OpenCL run time: their
    data are C++ unions and host pointers. What the timing model takes from them is an input.
  \<^item> Fetch, decode, the warp schedulers and the load/store unit in \<open>shader.cc\<close>, the
    cycle function of a memory partition in \<open>l2cache.cc\<close>, kernel launch and streams in \<open>gpu-sim.cc\<close>.
  \<^item> Rounding. \<open>PowerInterface\<close>, \<open>GpuCalorie\<close> and \<open>ClockDomains\<close> define their operations over any type with the
    arithmetic signature of \<open>double\<close>; the properties that need its laws are about \<open>real\<close>.
  \<^item> Numerical code in floating point (\<open>gpuwattch\<close>, \<open>gpucalorie/hotspot\<close>, \<open>src/HotSpot\<close>): its results depend
    on rounding.
  \<^item> The copy of BookSim in \<open>intersim2\<close>, converters, viewers and debugging tools, and all printing.
\<close>

end
